(* ===== verification/Prelude.thy ===== *)
theory Prelude
  imports Main "HOL-Library.Word"
begin

text \<open>
  Shared vocabulary of the development: the machine integers of the Rust code,
  its checked and saturating arithmetic, the iterator functions it uses on
  arrays (\<open>position\<close>, \<open>flatten().find\<close>), byte slices and little-endian
  encodings, and the sequencing of fallible and stateful operations.

  \<open>usize\<close> is 64 bits wide on the only target (x86-64), so \<open>usize::try_from\<close>
  of an unsigned integer never fails; indices and lengths are \<^typ>\<open>nat\<close>.
\<close>

unbundle bit_operations_syntax

section \<open>Collections of lemmas\<close>

named_theorems slot_simps \<open>rewriting of array slots\<close>
named_theorems slice_simps \<open>reading byte ranges after writing them\<close>
named_theorems arith_defs \<open>definitions of the checked arithmetic\<close>

section \<open>Machine integers\<close>

type_synonym u8 = "8 word"
type_synonym u16 = "16 word"
type_synonym u32 = "32 word"
type_synonym u64 = "64 word"
type_synonym i32 = "32 word"
type_synonym bytes = "8 word list"

definition checked_add :: "'a::len word \<Rightarrow> 'a word \<Rightarrow> 'a word option" where
  "checked_add a b = (if unat a + unat b < 2 ^ LENGTH('a) then Some (a + b) else None)"

definition checked_sub :: "'a::len word \<Rightarrow> 'a word \<Rightarrow> 'a word option" where
  "checked_sub a b = (if b \<le> a then Some (a - b) else None)"

definition checked_mul :: "'a::len word \<Rightarrow> 'a word \<Rightarrow> 'a word option" where
  "checked_mul a b = (if unat a * unat b < 2 ^ LENGTH('a) then Some (a * b) else None)"

definition saturating_add :: "'a::len word \<Rightarrow> 'a word \<Rightarrow> 'a word" where
  "saturating_add a b = (if unat a + unat b < 2 ^ LENGTH('a) then a + b else - 1)"

definition saturating_sub :: "'a::len word \<Rightarrow> 'a word \<Rightarrow> 'a word" where
  "saturating_sub a b = (if b \<le> a then a - b else 0)"

definition is_power_of_two :: "'a::len word \<Rightarrow> bool" where
  "is_power_of_two w \<longleftrightarrow> w \<noteq> 0 \<and> w AND (w - 1) = 0"

lemmas checked_defs [arith_defs] =
  checked_add_def checked_sub_def checked_mul_def saturating_add_def saturating_sub_def

lemma unat_bound: "unat (a :: 'a::len word) < 2 ^ LENGTH('a)"
  by (rule unsigned_less)

lemma unat_add_fits:
  fixes a b :: "'a::len word"
  assumes "unat a + unat b < 2 ^ LENGTH('a)"
  shows "unat (a + b) = unat a + unat b"
  using assms by (simp add: unat_word_ariths)

lemma unat_mult_fits:
  fixes a b :: "'a::len word"
  assumes "unat a * unat b < 2 ^ LENGTH('a)"
  shows "unat (a * b) = unat a * unat b"
  using assms by (simp add: unat_word_ariths)

lemma checked_add_SomeD:
  "checked_add a b = Some c \<Longrightarrow> unat c = unat a + unat b"
  by (auto simp: checked_add_def unat_add_fits split: if_splits)

lemma checked_add_Some_iff:
  fixes a b c :: "'a::len word"
  shows "checked_add a b = Some c \<longleftrightarrow> unat c = unat a + unat b"
proof
  assume "checked_add a b = Some c"
  then show "unat c = unat a + unat b" by (rule checked_add_SomeD)
next
  assume eq: "unat c = unat a + unat b"
  then have fits: "unat a + unat b < 2 ^ LENGTH('a)"
    using unat_bound [of c] by simp
  then have "c = a + b"
    by (intro word_unat_eq_iff [THEN iffD2]) (simp add: unat_add_fits eq)
  with fits show "checked_add a b = Some c" by (simp add: checked_add_def)
qed

lemma checked_mul_SomeD:
  "checked_mul a b = Some c \<Longrightarrow> unat c = unat a * unat b"
  by (auto simp: checked_mul_def unat_mult_fits split: if_splits)

lemma checked_sub_SomeD:
  "checked_sub a b = Some c \<Longrightarrow> b \<le> a \<and> unat c = unat a - unat b"
  by (auto simp: checked_sub_def unat_sub split: if_splits)

lemma unat_saturating_add:
  fixes a b :: "'a::len word"
  shows "unat (saturating_add a b) = min (unat a + unat b) (2 ^ LENGTH('a) - 1)"
proof (cases "unat a + unat b < 2 ^ LENGTH('a)")
  case True
  then show ?thesis by (simp add: saturating_add_def unat_add_fits)
next
  case False
  then show ?thesis by (simp add: saturating_add_def unsigned_minus_1_eq_mask mask_eq_exp_minus_1)
qed

lemma unat_saturating_sub: "unat (saturating_sub a b) = unat a - unat b"
proof (cases "b \<le> a")
  case True
  then show ?thesis by (simp add: saturating_sub_def unat_sub)
next
  case False
  then have "unat a < unat b" by (simp add: word_less_nat_alt not_le)
  with False show ?thesis by (simp add: saturating_sub_def)
qed

lemma unat_ucast_up:
  fixes w :: "'a::len word"
  assumes "LENGTH('a) \<le> LENGTH('b::len)"
  shows "unat (ucast w :: 'b word) = unat w"
  using assms
  by (simp add: unsigned_ucast_eq take_bit_nat_eq_self_iff
      order_less_le_trans [OF unat_bound [of w]] power_increasing)

lemma unat_of_nat_fits:
  "n < 2 ^ LENGTH('a::len) \<Longrightarrow> unat (of_nat n :: 'a word) = n"
  by (simp add: unat_of_nat take_bit_nat_eq_self_iff)

text \<open>Rounding up to a multiple of a power of two, as \<open>(x + (a - 1)) & !(a - 1)\<close>.\<close>

lemma and_not_split: "(x AND NOT m) + (x AND m) = x" for x m :: "'a::len word"
proof -
  have "(x AND NOT m) + (x AND m) = (x AND NOT m) OR (x AND m)"
    by (rule disjunctive_add) (auto simp: bit_and_iff bit_not_iff)
  also have "\<dots> = x" by (rule bit_word_eqI) (auto simp: bit_and_iff bit_not_iff bit_or_iff)
  finally show ?thesis .
qed

lemma unat_and_not: "unat (x AND NOT m) + unat (x AND m) = unat x" for x m :: "'a::len word"
proof -
  have "x AND NOT m = x - (x AND m)" using and_not_split [of x m] by (metis add_diff_cancel_right')
  moreover have "x AND m \<le> x" by (rule word_and_le2)
  ultimately show ?thesis by (simp add: unat_sub word_le_nat_alt)
qed

lemma nat_power_of_two: "n \<noteq> 0 \<Longrightarrow> n AND (n - 1) = 0 \<Longrightarrow> \<exists>k. n = 2 ^ k" for n :: nat
proof (induction n rule: less_induct)
  case (less n)
  show ?case
  proof (cases "odd n")
    case True
    then have "n AND (n - 1) = 2 * (n div 2)" using and_rec [of n "n - 1"] by (auto elim: oddE)
    then have "n = 1" using less.prems True by (auto elim: oddE)
    then show ?thesis by (metis power_0)
  next
    case False
    then obtain m where m: "n = 2 * m" by (auto elim: evenE)
    then have "(n - 1) div 2 = m - 1" by presburger
    then have "n AND (n - 1) = 2 * (m AND (m - 1))" using and_rec [of n "n - 1"] m by simp
    then obtain k where "m = 2 ^ k" using less.IH [of m] less.prems m by auto
    then show ?thesis using m by (metis power_Suc)
  qed
qed

lemma power_of_twoD:
  fixes w :: "'a::len word"
  assumes "is_power_of_two w"
  shows "\<exists>k. unat w = 2 ^ k \<and> w - 1 = mask k"
proof -
  have w: "w \<noteq> 0" "w AND (w - 1) = 0" using assms by (simp_all add: is_power_of_two_def)
  have "1 \<le> w" using w(1) by (simp add: word_le_nat_alt unat_gt_0 Suc_le_eq)
  then have "unat (w - 1) = unat w - 1" by (simp add: unat_sub)
  then have "unat w AND (unat w - 1) = 0" using w(2) by (metis unsigned_and_eq unsigned_0)
  then obtain k where k: "unat w = 2 ^ k" using nat_power_of_two w(1) by (metis unsigned_eq_0_iff)
  have "w = of_nat (unat w)" by simp
  also have "\<dots> = 2 ^ k" by (simp only: k of_nat_power of_nat_numeral)
  finally have "w - 1 = mask k" by (simp add: mask_eq_exp_minus_1)
  with k show ?thesis by blast
qed

lemma align_up_power:
  fixes w x :: "'a::len word"
  assumes w: "is_power_of_two w" and up: "checked_add x (w - 1) = Some up"
  shows "unat w dvd unat (up AND NOT (w - 1))" "unat x \<le> unat (up AND NOT (w - 1))"
    "unat (up AND NOT (w - 1)) < unat x + unat w"
proof -
  obtain k where k: "unat w = 2 ^ k" "w - 1 = mask k" using power_of_twoD [OF w] by blast
  have u: "unat up = unat x + unat (w - 1)" by (rule checked_add_SomeD [OF up])
  have m: "unat (w - 1) < unat w" using w unat_sub [of 1 w] by (cases "w = 0") (auto simp: is_power_of_two_def word_le_nat_alt unat_gt_0 Suc_le_eq)
  have "unat (up AND (w - 1)) \<le> unat (w - 1)" using word_and_le1 [of up "w - 1"] by (simp only: word_le_nat_alt)
  then show "unat x \<le> unat (up AND NOT (w - 1))" "unat (up AND NOT (w - 1)) < unat x + unat w"
    using unat_and_not [of up "w - 1"] u m by linarith+
  have "take_bit k (up AND NOT (mask k)) = 0"
    by (rule bit_word_eqI) (auto simp: bit_take_bit_iff bit_and_iff bit_not_iff bit_mask_iff)
  then have "take_bit k (unat (up AND NOT (w - 1))) = 0" unfolding k(2) by (metis unsigned_0 unsigned_take_bit_eq)
  then show "unat w dvd unat (up AND NOT (w - 1))" unfolding k(1) by (simp add: take_bit_eq_mod dvd_eq_mod_eq_0)
qed

section \<open>Options and results\<close>

definition is_some_and :: "('a \<Rightarrow> bool) \<Rightarrow> 'a option \<Rightarrow> bool" where
  "is_some_and P x = (case x of None \<Rightarrow> False | Some y \<Rightarrow> P y)"

lemma is_some_and_simps [simp]:
  "is_some_and P None = False"
  "is_some_and P (Some y) = P y"
  by (simp_all add: is_some_and_def)

lemma is_some_and_iff: "is_some_and P x \<longleftrightarrow> (\<exists>y. x = Some y \<and> P y)"
  by (cases x) auto

definition ok_or :: "'e \<Rightarrow> 'a option \<Rightarrow> 'e + 'a" where
  "ok_or e x = (case x of None \<Rightarrow> Inl e | Some y \<Rightarrow> Inr y)"

lemma ok_or_simps [simp]:
  "ok_or e None = Inl e"
  "ok_or e (Some y) = Inr y"
  by (simp_all add: ok_or_def)

lemma ok_or_Inr_iff [simp]: "ok_or e x = Inr y \<longleftrightarrow> x = Some y"
  by (cases x) auto

text \<open>The \<open>?\<close> operator on a \<open>Result\<close> with no state.\<close>

fun bind_res :: "'e + 'a \<Rightarrow> ('a \<Rightarrow> 'e + 'b) \<Rightarrow> 'e + 'b" where
  "bind_res (Inl e) f = Inl e"
| "bind_res (Inr x) f = f x"

lemma bind_res_Inr_iff:
  "bind_res r f = Inr y \<longleftrightarrow> (\<exists>x. r = Inr x \<and> f x = Inr y)"
  by (cases r) auto

lemma bind_res_cong [fundef_cong]:
  "\<lbrakk>r = r'; \<And>x. r' = Inr x \<Longrightarrow> f x = f' x\<rbrakk> \<Longrightarrow> bind_res r f = bind_res r' f'"
  by (cases r') auto

text \<open>A loop that pushes one result per element and leaves with \<open>?\<close> on the first error.\<close>

fun map_res :: "('a \<Rightarrow> 'e + 'b) \<Rightarrow> 'a list \<Rightarrow> 'e + 'b list" where
  "map_res f [] = Inr []"
| "map_res f (x # xs) = bind_res (f x) (\<lambda>y. bind_res (map_res f xs) (\<lambda>ys. Inr (y # ys)))"

lemma map_res_Inr_iff:
  "map_res f xs = Inr ys \<longleftrightarrow> length ys = length xs \<and> (\<forall>i < length xs. f (xs ! i) = Inr (ys ! i))"
proof (induction xs arbitrary: ys)
  case Nil
  then show ?case by auto
next
  case (Cons x xs)
  show ?case
  proof (cases ys)
    case Nil
    then show ?thesis by (simp add: bind_res_Inr_iff)
  next
    case (Cons y zs)
    then show ?thesis using Cons.IH [of zs] by (auto simp: bind_res_Inr_iff All_less_Suc2)
  qed
qed

lemma map_res_set: "map_res f xs = Inr ys \<Longrightarrow> y \<in> set ys \<Longrightarrow> \<exists>x \<in> set xs. f x = Inr y"
  by (force simp: map_res_Inr_iff in_set_conv_nth)

text \<open>A loop that updates its state and leaves with \<open>?\<close> on the first error.\<close>

fun fold_res :: "('a \<Rightarrow> 's \<Rightarrow> 'e + 's) \<Rightarrow> 'a list \<Rightarrow> 's \<Rightarrow> 'e + 's" where
  "fold_res f [] s = Inr s"
| "fold_res f (x # xs) s = bind_res (f x s) (fold_res f xs)"

lemma fold_res_append: "fold_res f (xs @ ys) s = bind_res (fold_res f xs s) (fold_res f ys)"
proof (induction xs arbitrary: s)
  case (Cons x xs)
  then show ?case by (cases "f x s") simp_all
qed simp

text \<open>A simulation step by step is a simulation of the whole loop.\<close>

lemma fold_res_refines:
  assumes step: "\<And>x s t. R s t \<Longrightarrow>
      (case f x s of Inl e \<Rightarrow> g x t = Inl e | Inr s' \<Rightarrow> \<exists>t'. g x t = Inr t' \<and> R s' t')"
    and "R s t"
  shows "case fold_res f xs s of Inl e \<Rightarrow> fold_res g xs t = Inl e
    | Inr s' \<Rightarrow> \<exists>t'. fold_res g xs t = Inr t' \<and> R s' t'"
  using \<open>R s t\<close>
proof (induction xs arbitrary: s t)
  case (Cons x xs)
  show ?case
  proof (cases "f x s")
    case (Inl e)
    with step [OF Cons.prems, of x] show ?thesis by simp
  next
    case (Inr s')
    with step [OF Cons.prems, of x] obtain t' where "g x t = Inr t'" "R s' t'" by auto
    with Inr Cons.IH [of s' t'] show ?thesis by (simp split: sum.splits)
  qed
qed simp

text \<open>
  The \<open>?\<close> operator on a method that mutates \<open>self\<close>: the state reached so far is
  kept when the operation fails.
\<close>

type_synonym ('s, 'e, 'a) action = "'s \<Rightarrow> ('e + 'a) \<times> 's"

definition bind_act :: "('s, 'e, 'a) action \<Rightarrow> ('a \<Rightarrow> ('s, 'e, 'b) action) \<Rightarrow> ('s, 'e, 'b) action"
  where
  "bind_act m f s = (case m s of (Inl e, s') \<Rightarrow> (Inl e, s') | (Inr x, s') \<Rightarrow> f x s')"

definition return_act :: "'a \<Rightarrow> ('s, 'e, 'a) action" where
  "return_act x s = (Inr x, s)"

definition fail_act :: "'e \<Rightarrow> ('s, 'e, 'a) action" where
  "fail_act e s = (Inl e, s)"

definition lift_res :: "'e + 'a \<Rightarrow> ('s, 'e, 'a) action" where
  "lift_res r s = (r, s)"

lemma bind_act_simps [simp]:
  "m s = (Inl e, s') \<Longrightarrow> bind_act m f s = (Inl e, s')"
  "m s = (Inr x, s') \<Longrightarrow> bind_act m f s = f x s'"
  by (simp_all add: bind_act_def)

lemma act_simps [simp]:
  "return_act x s = (Inr x, s)"
  "fail_act e s = (Inl e, s)"
  "lift_res r s = (r, s)"
  by (simp_all add: return_act_def fail_act_def lift_res_def)

lemma bind_act_Inr_iff:
  "bind_act m f s = (Inr y, t) \<longleftrightarrow> (\<exists>x s'. m s = (Inr x, s') \<and> f x s' = (Inr y, t))"
  by (auto simp: bind_act_def split: prod.splits sum.splits)

lemma bind_act_cong [fundef_cong]:
  "\<lbrakk>s = s'; m s' = m' s'; \<And>x t. m' s' = (Inr x, t) \<Longrightarrow> f x t = f' x t\<rbrakk>
    \<Longrightarrow> bind_act m f s = bind_act m' f' s'"
  by (auto simp: bind_act_def split: prod.splits sum.splits)

text \<open>A \<open>for\<close> loop whose body may fail and may change the state.\<close>

fun fold_act :: "('a \<Rightarrow> 'b \<Rightarrow> ('s, 'e, 'b) action) \<Rightarrow> 'a list \<Rightarrow> 'b \<Rightarrow> ('s, 'e, 'b) action" where
  "fold_act f [] b = return_act b"
| "fold_act f (x # xs) b = bind_act (f x b) (fold_act f xs)"

text \<open>\<open>map_err\<close> on the result of an action.\<close>

definition map_err :: "('e \<Rightarrow> 'f) \<Rightarrow> ('s, 'e, 'a) action \<Rightarrow> ('s, 'f, 'a) action" where
  "map_err h m s = (case m s of (Inl e, s') \<Rightarrow> (Inl (h e), s') | (Inr x, s') \<Rightarrow> (Inr x, s'))"

lemma map_err_simps [simp]:
  "m s = (Inl e, s') \<Longrightarrow> map_err h m s = (Inl (h e), s')"
  "m s = (Inr x, s') \<Longrightarrow> map_err h m s = (Inr x, s')"
  by (simp_all add: map_err_def)

lemma map_err_Inr_iff: "map_err h m s = (Inr x, t) \<longleftrightarrow> m s = (Inr x, t)"
  by (auto simp: map_err_def split: prod.splits sum.splits)

section \<open>Array slots\<close>

text \<open>\<open>iter().position(p)\<close>: the index of the first element that satisfies \<open>p\<close>.\<close>

fun position :: "('a \<Rightarrow> bool) \<Rightarrow> 'a list \<Rightarrow> nat option" where
  "position P [] = None"
| "position P (x # xs) = (if P x then Some 0 else map_option Suc (position P xs))"

text \<open>\<open>iter().flatten()\<close> over an array of options.\<close>

definition flatten :: "'a option list \<Rightarrow> 'a list" where
  "flatten xs = List.map_filter id xs"

lemma flatten_simps [simp]:
  "flatten [] = []"
  "flatten (None # xs) = flatten xs"
  "flatten (Some x # xs) = x # flatten xs"
  by (simp_all add: flatten_def)

lemma position_None_iff: "position P xs = None \<longleftrightarrow> (\<forall>x \<in> set xs. \<not> P x)"
  by (induction xs) auto

lemma position_Some_iff:
  "position P xs = Some i \<longleftrightarrow> i < length xs \<and> P (xs ! i) \<and> (\<forall>j < i. \<not> P (xs ! j))"
proof (induction xs arbitrary: i)
  case Nil
  then show ?case by simp
next
  case (Cons x xs)
  show ?case
  proof (cases i)
    case 0
    then show ?thesis by (auto simp: map_option_case split: option.splits)
  next
    case (Suc k)
    have "position P (x # xs) = Some (Suc k) \<longleftrightarrow> \<not> P x \<and> position P xs = Some k"
      by auto
    also have "\<dots> \<longleftrightarrow> \<not> P x \<and> k < length xs \<and> P (xs ! k) \<and> (\<forall>j < k. \<not> P (xs ! j))"
      by (simp add: Cons.IH)
    finally show ?thesis
      unfolding Suc by (simp add: All_less_Suc2) blast
  qed
qed

lemma position_SomeD:
  assumes "position P xs = Some i"
  shows "i < length xs" and "P (xs ! i)"
  using assms by (auto simp: position_Some_iff)

lemma position_exists: "x \<in> set xs \<Longrightarrow> P x \<Longrightarrow> \<exists>i. position P xs = Some i"
  using position_None_iff [of P xs] by (cases "position P xs") auto

lemma position_map_eq: "map P xs = map P ys \<Longrightarrow> position P xs = position P ys"
proof (induction xs arbitrary: ys)
  case Nil
  then show ?case by simp
next
  case (Cons x xs)
  then show ?case by (cases ys) auto
qed

lemma set_flatten: "set (flatten xs) = {x. Some x \<in> set xs}"
  by (induction xs rule: list.induct) (auto simp: flatten_def map_filter_def split: option.splits)

lemma flatten_nth_in: "\<lbrakk>i < length xs; xs ! i = Some x\<rbrakk> \<Longrightarrow> x \<in> set (flatten xs)"
  by (auto simp: set_flatten) (metis nth_mem)

lemma in_flatten_nth: "x \<in> set (flatten xs) \<Longrightarrow> \<exists>i < length xs. xs ! i = Some x"
  by (auto simp: set_flatten in_set_conv_nth)

lemma flatten_append [simp]: "flatten (xs @ ys) = flatten xs @ flatten ys"
  by (induction xs) (auto simp: flatten_def map_filter_def)

lemma length_flatten_le: "length (flatten xs) \<le> length xs"
  by (simp add: flatten_def map_filter_def)

lemma flatten_replicate_None [simp]: "flatten (replicate n None) = []"
  by (induction n) auto

lemma flatten_Cons: "flatten (x # xs) = (case x of None \<Rightarrow> flatten xs | Some y \<Rightarrow> y # flatten xs)"
  by (cases x) simp_all

lemma flatten_map_option: "flatten (map (map_option f) xs) = map f (flatten xs)"
proof (induction xs)
  case (Cons x xs)
  then show ?case by (cases x) simp_all
qed simp

text \<open>
  \<open>iter().flatten().find(p)\<close> returns the occupant of the first slot whose
  occupant satisfies \<open>p\<close>.
\<close>

lemma find_flatten_position:
  "find P (flatten xs) = (case position (is_some_and P) xs of None \<Rightarrow> None | Some i \<Rightarrow> xs ! i)"
proof (induction xs)
  case Nil
  then show ?case by simp
next
  case (Cons x xs)
  then show ?case by (cases x) (auto split: option.splits)
qed

lemma set_flatten_update_Some:
  "i < length xs \<Longrightarrow> set (flatten (xs[i := Some y])) \<subseteq> insert y (set (flatten xs))"
  using set_update_subset_insert [of xs i "Some y"] by (auto simp: set_flatten)

lemma set_flatten_update_None:
  "set (flatten (xs[i := None])) \<subseteq> set (flatten xs)"
  using set_update_subset_insert [of xs i None] by (auto simp: set_flatten)

lemma length_flatten_fill:
  "\<lbrakk>i < length xs; xs ! i = None\<rbrakk>
    \<Longrightarrow> length (flatten (xs[i := Some y])) = Suc (length (flatten xs))"
proof (induction xs arbitrary: i)
  case Nil
  then show ?case by simp
next
  case (Cons x xs)
  then show ?case by (cases i; cases x) auto
qed

lemma length_flatten_replace:
  "\<lbrakk>i < length xs; xs ! i = Some x\<rbrakk>
    \<Longrightarrow> length (flatten (xs[i := Some y])) = length (flatten xs)"
proof (induction xs arbitrary: i)
  case Nil
  then show ?case by simp
next
  case (Cons x xs)
  then show ?case by (cases i; cases x) auto
qed

lemma length_flatten_clear:
  "\<lbrakk>i < length xs; xs ! i = Some x\<rbrakk>
    \<Longrightarrow> Suc (length (flatten (xs[i := None]))) = length (flatten xs)"
proof (induction xs arbitrary: i)
  case Nil
  then show ?case by simp
next
  case (Cons x xs)
  then show ?case by (cases i; cases x) auto
qed


section \<open>Tables of numbered objects\<close>

text \<open>
  The task and process tables hand out increasing numbers (\<open>next_id\<close>): the numbers in the
  slots are distinct and below the next one.
\<close>

definition ids_ok :: "u32 option list \<Rightarrow> u32 \<Rightarrow> bool" where
  "ids_ok ids n \<longleftrightarrow> distinct (flatten ids) \<and> (\<forall>x \<in> set (flatten ids). x < n)"

lemma ids_okD:
  assumes "ids_ok ids n" "i < length ids" "j < length ids" "ids ! i = Some x" "ids ! j = Some x"
  shows "i = j"
proof -
  have "distinct (flatten ids) \<Longrightarrow> i < length ids \<Longrightarrow> j < length ids \<Longrightarrow>
        ids ! i = Some x \<Longrightarrow> ids ! j = Some x \<Longrightarrow> i = j"
  proof (induction ids arbitrary: i j)
    case Nil
    then show ?case by simp
  next
    case (Cons y ys)
    then show ?case
      by (cases i; cases j; cases y) (auto dest: flatten_nth_in)
  qed
  with assms show ?thesis by (simp add: ids_ok_def)
qed

lemma ids_ok_clear: "ids_ok ids n \<Longrightarrow> ids_ok (ids[i := None]) n"
proof -
  have "distinct (flatten ids) \<Longrightarrow> distinct (flatten (ids[i := None]))"
  proof (induction ids arbitrary: i)
    case Nil
    then show ?case by simp
  next
    case (Cons y ys)
    then show ?case
      using set_flatten_update_None [of ys] by (cases i; cases y) fastforce+
  qed
  then show "ids_ok ids n \<Longrightarrow> ids_ok (ids[i := None]) n"
    using set_flatten_update_None [of ids i] by (auto simp: ids_ok_def)
qed

lemma ids_ok_fill:
  assumes "ids_ok ids n" "i < length ids" "ids ! i = None" "n < m"
  shows "ids_ok (ids[i := Some n]) m"
proof -
  have "distinct (flatten ids) \<Longrightarrow> n \<notin> set (flatten ids) \<Longrightarrow> i < length ids \<Longrightarrow> ids ! i = None
      \<Longrightarrow> distinct (flatten (ids[i := Some n]))"
  proof (induction ids arbitrary: i)
    case Nil
    then show ?case by simp
  next
    case (Cons y ys)
    then show ?case
      using set_flatten_update_Some [of _ ys n] by (cases i; cases y) fastforce+
  qed
  moreover have "n \<notin> set (flatten ids)" using assms(1) by (auto simp: ids_ok_def)
  ultimately show ?thesis
    using assms set_flatten_update_Some [OF assms(2), of n]
    by (auto simp: ids_ok_def dest: order.strict_trans)
qed

lemma next_number:
  fixes n :: "'a::len word"
  assumes "n \<noteq> - 1"
  shows "checked_add n 1 = Some (n + 1)" "n < n + 1"
proof -
  have "unat n \<noteq> unat (- 1 :: 'a word)" using assms word_unat_eq_iff by blast
  then have "unat n \<noteq> 2 ^ LENGTH('a) - 1"
    by (simp add: unsigned_minus_1_eq_mask mask_eq_exp_minus_1)
  then have "unat n + unat (1 :: 'a word) < 2 ^ LENGTH('a)"
    using unat_bound [of n] unfolding unsigned_1 by linarith
  then show "checked_add n 1 = Some (n + 1)" "n < n + 1"
    by (simp_all add: checked_add_def word_less_nat_alt unat_add_fits)
qed

lemma unat_max: "unat (n :: u32) + 1 < 2 ^ 32 \<Longrightarrow> n \<noteq> - 1"
proof
  assume "unat n + 1 < 2 ^ 32" "n = - 1"
  then show False by (simp add: unsigned_minus_1_eq_mask mask_eq_exp_minus_1)
qed

end
