(* ===== verification/Abi.thy ===== *)
theory Abi
  imports Prelude
begin

text \<open>
  The kernel/userspace ABI: system call and error numbers
  (\<open>crates/nexos-abi/src/lib.rs\<close>), the kernel's generic dispatcher
  (\<open>crates/nexos-runtime/src/syscall.rs\<close>), the dispatcher the kernel installs
  (\<open>kernel/src/syscall.rs\<close>) and the decoding of results in userspace
  (\<open>crates/nexos-userspace/src/runtime.rs\<close>). An \<open>i64\<close> is a 64-bit word read
  with \<open>sint\<close>.
\<close>

section \<open>System calls and errors\<close>

datatype syscall =
    SysExit | SysSpawn | SysWait | SysOpen | SysClose | SysRead | SysWrite | SysSeek
  | SysStat | SysReadDir | SysCreateDir | SysRemove | SysRename | SysMapMemory
  | SysUnmapMemory | SysClockGet | SysSleep | SysDeviceControl | SysSystemInfo | SysReboot

text \<open>The explicit discriminants of the enum, \<open>Syscall as u64\<close>.\<close>

fun syscall_number :: "syscall \<Rightarrow> u64" where
  "syscall_number SysExit = 0"
| "syscall_number SysSpawn = 1"
| "syscall_number SysWait = 2"
| "syscall_number SysOpen = 16"
| "syscall_number SysClose = 17"
| "syscall_number SysRead = 18"
| "syscall_number SysWrite = 19"
| "syscall_number SysSeek = 20"
| "syscall_number SysStat = 21"
| "syscall_number SysReadDir = 22"
| "syscall_number SysCreateDir = 23"
| "syscall_number SysRemove = 24"
| "syscall_number SysRename = 25"
| "syscall_number SysMapMemory = 32"
| "syscall_number SysUnmapMemory = 33"
| "syscall_number SysClockGet = 48"
| "syscall_number SysSleep = 49"
| "syscall_number SysDeviceControl = 64"
| "syscall_number SysSystemInfo = 65"
| "syscall_number SysReboot = 66"

definition syscall_try_from :: "u64 \<Rightarrow> syscall option" where
  "syscall_try_from v =
    (if v = 0 then Some SysExit
     else if v = 1 then Some SysSpawn
     else if v = 2 then Some SysWait
     else if v = 16 then Some SysOpen
     else if v = 17 then Some SysClose
     else if v = 18 then Some SysRead
     else if v = 19 then Some SysWrite
     else if v = 20 then Some SysSeek
     else if v = 21 then Some SysStat
     else if v = 22 then Some SysReadDir
     else if v = 23 then Some SysCreateDir
     else if v = 24 then Some SysRemove
     else if v = 25 then Some SysRename
     else if v = 32 then Some SysMapMemory
     else if v = 33 then Some SysUnmapMemory
     else if v = 48 then Some SysClockGet
     else if v = 49 then Some SysSleep
     else if v = 64 then Some SysDeviceControl
     else if v = 65 then Some SysSystemInfo
     else if v = 66 then Some SysReboot
     else None)"

datatype error =
    E_PermissionDenied | E_NotFound | E_Interrupted | E_Io | E_NoChild | E_WouldBlock
  | E_OutOfMemory | E_BadHandle | E_AlreadyExists | E_NotDirectory | E_IsDirectory
  | E_InvalidArgument | E_HandleLimit | E_FileTooLarge | E_NoSpace | E_ReadOnly
  | E_NameTooLong | E_ProcessLimit | E_MountLimit | E_NotSupported | E_TimedOut

text \<open>The discriminants, \<open>Error as i32\<close>; all are positive, so widening keeps them.\<close>

fun error_number :: "error \<Rightarrow> u64" where
  "error_number E_PermissionDenied = 1"
| "error_number E_NotFound = 2"
| "error_number E_Interrupted = 4"
| "error_number E_Io = 5"
| "error_number E_NoChild = 10"
| "error_number E_WouldBlock = 11"
| "error_number E_OutOfMemory = 12"
| "error_number E_BadHandle = 9"
| "error_number E_AlreadyExists = 17"
| "error_number E_NotDirectory = 20"
| "error_number E_IsDirectory = 21"
| "error_number E_InvalidArgument = 22"
| "error_number E_HandleLimit = 24"
| "error_number E_FileTooLarge = 27"
| "error_number E_NoSpace = 28"
| "error_number E_ReadOnly = 30"
| "error_number E_NameTooLong = 36"
| "error_number E_ProcessLimit = 67"
| "error_number E_MountLimit = 69"
| "error_number E_NotSupported = 95"
| "error_number E_TimedOut = 110"

definition as_syscall_result :: "error \<Rightarrow> u64" where
  "as_syscall_result e = - error_number e"

section \<open>Dispatch in the kernel\<close>

text \<open>
  \<open>dispatch\<close> is generic in the kernel services: \<open>invoke\<close> is the trait method, a
  function of the system call, its six arguments and the service state.
\<close>

definition i64_max :: u64 where
  "i64_max = 0x7FFFFFFFFFFFFFFF"

definition dispatch ::
  "(syscall \<Rightarrow> u64 list \<Rightarrow> 's \<Rightarrow> (error + u64) \<times> 's) \<Rightarrow> u64 \<Rightarrow> u64 list \<Rightarrow> 's \<Rightarrow> u64 \<times> 's" where
  "dispatch invoke number arguments s =
    (case syscall_try_from number of
       None \<Rightarrow> (as_syscall_result E_NotSupported, s)
     | Some sc \<Rightarrow>
         (case invoke sc arguments s of
            (Inr value, s') \<Rightarrow> (if value \<le> i64_max then value else i64_max, s')
          | (Inl err, s') \<Rightarrow> (as_syscall_result err, s')))"

text \<open>
  The dispatcher that the kernel's \<open>syscall\<close> entry calls, with the statistics cells
  it updates. \<open>uptime\<close> is the value of \<open>uptime_milliseconds()\<close>.
\<close>

record syscall_cells =
  SYSCALL_COUNT :: u64
  LAST_SYSCALL :: u64
  LAST_EXIT_STATUS :: u64
  RETURN_TO_KERNEL :: u8

definition nexos_syscall_dispatch ::
  "u64 \<Rightarrow> u64 \<Rightarrow> u64 \<Rightarrow> syscall_cells \<Rightarrow> u64 \<times> syscall_cells" where
  "nexos_syscall_dispatch uptime number argument0 c =
    (let c1 = c\<lparr>SYSCALL_COUNT := SYSCALL_COUNT c + 1, LAST_SYSCALL := number\<rparr> in
     case syscall_try_from number of
       None \<Rightarrow> (as_syscall_result E_NotSupported, c1)
     | Some SysExit \<Rightarrow> (argument0, c1\<lparr>LAST_EXIT_STATUS := argument0, RETURN_TO_KERNEL := 1\<rparr>)
     | Some SysSystemInfo \<Rightarrow>
         (if argument0 = 0 then 1
          else if argument0 = 1 then 4096
          else as_syscall_result E_InvalidArgument, c1)
     | Some SysClockGet \<Rightarrow> (uptime, c1)
     | Some _ \<Rightarrow> (as_syscall_result E_NotSupported, c1))"

section \<open>Results in userspace\<close>

definition error_from_code :: "u64 \<Rightarrow> error option" where
  "error_from_code value =
    (let v = - value in
     if v = 1 then Some E_PermissionDenied
     else if v = 2 then Some E_NotFound
     else if v = 4 then Some E_Interrupted
     else if v = 5 then Some E_Io
     else if v = 9 then Some E_BadHandle
     else if v = 10 then Some E_NoChild
     else if v = 11 then Some E_WouldBlock
     else if v = 12 then Some E_OutOfMemory
     else if v = 17 then Some E_AlreadyExists
     else if v = 20 then Some E_NotDirectory
     else if v = 21 then Some E_IsDirectory
     else if v = 22 then Some E_InvalidArgument
     else if v = 24 then Some E_HandleLimit
     else if v = 27 then Some E_FileTooLarge
     else if v = 28 then Some E_NoSpace
     else if v = 30 then Some E_ReadOnly
     else if v = 36 then Some E_NameTooLong
     else if v = 67 then Some E_ProcessLimit
     else if v = 69 then Some E_MountLimit
     else if v = 95 then Some E_NotSupported
     else if v = 110 then Some E_TimedOut
     else None)"

definition into_result :: "u64 \<Rightarrow> error + u64" where
  "into_result r =
    (if 0 \<le> sint r then Inr r
     else Inl (case error_from_code r of Some e \<Rightarrow> e | None \<Rightarrow> E_Io))"

text \<open>
  \<open>abi_version\<close> issues \<open>SystemInfo\<close> with selector 0; \<open>raw\<close> is what the system
  call instruction returns.
\<close>

definition abi_version :: "(u64 \<Rightarrow> u64 list \<Rightarrow> u64) \<Rightarrow> error + u32" where
  "abi_version raw =
    bind_res (into_result (raw (syscall_number SysSystemInfo) [0, 0, 0, 0, 0, 0]))
      (\<lambda>r. if unat r < 2 ^ 32 then Inr (ucast r) else Inl E_Io)"

section \<open>Lemmas\<close>

lemma syscall_try_from_number [simp]: "syscall_try_from (syscall_number s) = Some s"
  by (cases s) (simp_all add: syscall_try_from_def)

lemma syscall_number_try_from: "syscall_try_from v = Some s \<Longrightarrow> syscall_number s = v"
  by (auto simp: syscall_try_from_def split: if_splits)

lemma error_from_code_result [simp]: "error_from_code (as_syscall_result e) = Some e"
  by (cases e) (simp_all add: error_from_code_def as_syscall_result_def)

lemma as_syscall_result_negative: "sint (as_syscall_result e) < 0 \<and> - 4095 \<le> sint (as_syscall_result e)"
  by (cases e) (simp_all add: as_syscall_result_def)

lemma nonneg_iff_le_i64_max: "0 \<le> sint (v :: u64) \<longleftrightarrow> v \<le> i64_max"
proof -
  have "0 \<le> sint v \<longleftrightarrow> \<not> bit v 63"
    using bit_last_iff [of v] by (simp add: not_less [symmetric])
  also have "\<dots> \<longleftrightarrow> \<not> odd (unat v div 2 ^ 63)"
    using bit_unsigned_iff [of v 63, where 'a = nat] bit_iff_odd [of "unat v" 63] by simp
  also have "\<dots> \<longleftrightarrow> unat v < 2 ^ 63"
  proof -
    have "unat v div 2 ^ 63 < 2" using unat_bound [of v] by (simp add: less_mult_imp_div_less)
    then have "odd (unat v div 2 ^ 63) \<longleftrightarrow> unat v div 2 ^ 63 \<noteq> 0" by (metis even_zero less_2_cases odd_one One_nat_def)
    then show ?thesis by (simp add: div_eq_0_iff)
  qed
  also have "\<dots> \<longleftrightarrow> v \<le> i64_max"
    by (auto simp: i64_max_def word_le_nat_alt)
  finally show ?thesis .
qed

lemma into_result_as_syscall_result [simp]: "into_result (as_syscall_result e) = Inl e"
  using as_syscall_result_negative [of e] by (simp add: into_result_def)

lemma into_result_nonneg [simp]: "v \<le> i64_max \<Longrightarrow> into_result v = Inr v"
  by (simp add: into_result_def nonneg_iff_le_i64_max)

text \<open>The ABI numbering is a bijection onto its range: decoding a number gives a
  system call exactly when the number is that call's discriminant.
\<close>

theorem syscall_numbering: "syscall_try_from v = Some s \<longleftrightarrow> syscall_number s = v"
  using syscall_number_try_from syscall_try_from_number by blast

text \<open>C26. what userspace decodes is what the kernel service returned. For every service,
  system call, argument vector and service state, \<open>into_result\<close> of the dispatched
  value is the service's own error, or its value capped at \<open>i64::MAX\<close>, and the service
  state is the one \<open>invoke\<close> left; an unassigned number never reaches the service and
  decodes to \<open>NotSupported\<close>.
\<close>

theorem dispatch_decodes:
  "(let (r, s') = dispatch invoke number args s in
    case syscall_try_from number of
      None \<Rightarrow> into_result r = Inl E_NotSupported \<and> s' = s
    | Some sc \<Rightarrow>
        s' = snd (invoke sc args s) \<and>
        into_result r =
          (case fst (invoke sc args s) of
             Inl e \<Rightarrow> Inl e
           | Inr v \<Rightarrow> Inr (min v i64_max)))"
  by (auto simp: dispatch_def min_def split: option.splits sum.splits prod.splits)

end
