(* ===== verification/Scheduler.thy ===== *)
theory Scheduler
  imports Prelude
begin

text \<open>
  The round-robin task scheduler of
  \<open>crates/nexos-runtime/src/scheduler.rs\<close>. A \<open>Scheduler<TASKS>\<close> is a record
  whose slot array \<open>tasks\<close> has length \<open>TASKS\<close>; every method is a function that
  returns its result and the new scheduler. The invariant \<open>sched_inv\<close> says that the
  running task is exactly the current one and that task numbers are unique; it holds
  after every sequence of operations that spawns fewer than $2^{32} - 1$ tasks, the
  point at which \<open>next_id\<close> wraps around.
\<close>

section \<open>Tasks and the scheduler state\<close>

datatype task_state =
    Ready
  | Running
  | Sleeping (wake_tick: u64)
  | Blocked
  | Exited (exit_status: i32)

record cpu_context =
  r15 :: u64
  r14 :: u64
  r13 :: u64
  r12 :: u64
  rbx :: u64
  rbp :: u64
  instruction_pointer :: u64
  stack_pointer :: u64
  flags :: u64
  address_space :: u64

definition default_context :: cpu_context where
  "default_context =
    \<lparr>r15 = 0, r14 = 0, r13 = 0, r12 = 0, rbx = 0, rbp = 0, instruction_pointer = 0,
     stack_pointer = 0, flags = 0, address_space = 0\<rparr>"

record task =
  task_id :: u32
  task_process :: u32
  task_state :: task_state
  task_context :: cpu_context

datatype scheduler_error = Full | NoCurrentTask | TaskNotFound | InvalidQuantum

datatype schedule_decision =
    Continue u32
  | Switch (previous: "u32 option") (switch_next: u32)
  | Idle

record scheduler =
  tasks :: "task option list"
  next_id :: u32
  current :: "nat option"
  quantum_ticks :: u32
  remaining_ticks :: u32
  context_switches :: u64

definition with_quantum :: "nat \<Rightarrow> u32 \<Rightarrow> scheduler" where
  "with_quantum n q =
    \<lparr>tasks = replicate n None, next_id = 1, current = None, quantum_ticks = q,
     remaining_ticks = q, context_switches = 0\<rparr>"

definition new_scheduler :: "nat \<Rightarrow> u32 \<Rightarrow> scheduler_error + scheduler" where
  "new_scheduler n q = (if q = 0 then Inl InvalidQuantum else Inr (with_quantum n q))"

section \<open>Operations\<close>

definition spawn :: "u32 \<Rightarrow> cpu_context \<Rightarrow> scheduler \<Rightarrow> (scheduler_error + u32) \<times> scheduler" where
  "spawn pid ctx s =
    (case position (\<lambda>t. t = None) (tasks s) of
       None \<Rightarrow> (Inl Full, s)
     | Some slot \<Rightarrow>
         (let tid = next_id s in
          (Inr tid,
           s\<lparr>next_id := (case checked_add (next_id s) 1 of Some n \<Rightarrow> n | None \<Rightarrow> 1),
             tasks := (tasks s)[slot := Some \<lparr>task_id = tid, task_process = pid,
                                             task_state = Ready, task_context = ctx\<rparr>]\<rparr>)))"

definition current_task :: "scheduler \<Rightarrow> task option" where
  "current_task s = Option.bind (current s) (\<lambda>i. tasks s ! i)"

definition find_task :: "u32 \<Rightarrow> scheduler \<Rightarrow> task option" where
  "find_task tid s = find (\<lambda>t. task_id t = tid) (flatten (tasks s))"

definition task_count :: "scheduler \<Rightarrow> nat" where
  "task_count s = length (flatten (tasks s))"

definition wake_if_due :: "u64 \<Rightarrow> task \<Rightarrow> task" where
  "wake_if_due now t =
    (case task_state t of
       Sleeping w \<Rightarrow> (if w \<le> now then t\<lparr>task_state := Ready\<rparr> else t)
     | _ \<Rightarrow> t)"

definition wake_sleepers :: "u64 \<Rightarrow> scheduler \<Rightarrow> scheduler" where
  "wake_sleepers now s = s\<lparr>tasks := map (map_option (wake_if_due now)) (tasks s)\<rparr>"

definition slot_ready :: "scheduler \<Rightarrow> nat \<Rightarrow> bool" where
  "slot_ready s i = is_some_and (\<lambda>t. task_state t = Ready) (tasks s ! i)"

definition find_ready_from :: "scheduler \<Rightarrow> nat \<Rightarrow> nat option" where
  "find_ready_from s start =
    (let n = length (tasks s) in
     if n = 0 then None
     else find (slot_ready s) (map (\<lambda>offset. (start + offset) mod n) [0..<n]))"

text \<open>\<open>if let Some(index) = self.current && let Some(task) = ... && task.state == Running\<close>\<close>

definition demote_current :: "scheduler \<Rightarrow> scheduler" where
  "demote_current s =
    (case current s of
       None \<Rightarrow> s
     | Some i \<Rightarrow>
         (case tasks s ! i of
            None \<Rightarrow> s
          | Some t \<Rightarrow>
              if task_state t = Running
              then s\<lparr>tasks := (tasks s)[i := Some (t\<lparr>task_state := Ready\<rparr>)]\<rparr> else s))"

definition next_start :: "scheduler \<Rightarrow> nat" where
  "next_start s =
    (case current s of None \<Rightarrow> 0 | Some i \<Rightarrow> (i + 1) mod max (length (tasks s)) 1)"

definition schedule :: "u64 \<Rightarrow> scheduler \<Rightarrow> schedule_decision \<times> scheduler" where
  "schedule now s0 =
    (let s1 = wake_sleepers now s0;
         prev = current_task s1;
         s2 = demote_current s1
     in case find_ready_from s2 (next_start s2) of
          None \<Rightarrow> (Idle, s2\<lparr>current := None\<rparr>)
        | Some i \<Rightarrow>
            (let t = the (tasks s2 ! i);
                 tid = task_id t;
                 s3 = s2\<lparr>tasks := (tasks s2)[i := Some (t\<lparr>task_state := Running\<rparr>)],
                         current := Some i,
                         remaining_ticks := quantum_ticks s2\<rparr>
             in if map_option task_id prev = Some tid then (Continue tid, s3)
                else (Switch (map_option task_id prev) tid,
                      s3\<lparr>context_switches := saturating_add (context_switches s3) 1\<rparr>)))"

definition tick :: "u64 \<Rightarrow> scheduler \<Rightarrow> schedule_decision \<times> scheduler" where
  "tick now s0 =
    (let s = wake_sleepers now s0 in
     case current s of
       None \<Rightarrow> schedule now s
     | Some i \<Rightarrow>
         (case tasks s ! i of
            None \<Rightarrow> schedule now (s\<lparr>current := None\<rparr>)
          | Some t \<Rightarrow>
              if task_state t \<noteq> Running then schedule now s
              else
                (let s' = s\<lparr>remaining_ticks := saturating_sub (remaining_ticks s) 1\<rparr> in
                 if remaining_ticks s' = 0 then schedule now s'
                 else (Continue (task_id t), s'))))"

text \<open>
  \<open>sleep_current\<close>, \<open>block_current\<close> and \<open>exit_current\<close> share their shape: the
  current task takes the new state and nothing is current afterwards.
\<close>

definition leave_current ::
  "task_state \<Rightarrow> scheduler \<Rightarrow> (scheduler_error + u32) \<times> scheduler" where
  "leave_current st s =
    (case current s of
       None \<Rightarrow> (Inl NoCurrentTask, s)
     | Some i \<Rightarrow>
         (case tasks s ! i of
            None \<Rightarrow> (Inl NoCurrentTask, s)
          | Some t \<Rightarrow>
              (Inr (task_id t),
               s\<lparr>tasks := (tasks s)[i := Some (t\<lparr>task_state := st\<rparr>)], current := None\<rparr>)))"

definition sleep_current :: "u64 \<Rightarrow> scheduler \<Rightarrow> (scheduler_error + u32) \<times> scheduler" where
  "sleep_current w s = leave_current (Sleeping w) s"

definition block_current :: "scheduler \<Rightarrow> (scheduler_error + u32) \<times> scheduler" where
  "block_current s = leave_current Blocked s"

definition exit_current :: "i32 \<Rightarrow> scheduler \<Rightarrow> (scheduler_error + u32) \<times> scheduler" where
  "exit_current status s = leave_current (Exited status) s"

definition wake :: "u32 \<Rightarrow> scheduler \<Rightarrow> (scheduler_error + unit) \<times> scheduler" where
  "wake tid s =
    (case position (is_some_and (\<lambda>t. task_id t = tid)) (tasks s) of
       None \<Rightarrow> (Inl TaskNotFound, s)
     | Some i \<Rightarrow>
         (let t = the (tasks s ! i) in
          case task_state t of
            Blocked \<Rightarrow> (Inr (), s\<lparr>tasks := (tasks s)[i := Some (t\<lparr>task_state := Ready\<rparr>)]\<rparr>)
          | Sleeping _ \<Rightarrow> (Inr (), s\<lparr>tasks := (tasks s)[i := Some (t\<lparr>task_state := Ready\<rparr>)]\<rparr>)
          | _ \<Rightarrow> (Inr (), s)))"

definition exit_task :: "u32 \<Rightarrow> i32 \<Rightarrow> scheduler \<Rightarrow> (scheduler_error + unit) \<times> scheduler" where
  "exit_task tid status s =
    (case position (is_some_and (\<lambda>t. task_id t = tid)) (tasks s) of
       None \<Rightarrow> (Inl TaskNotFound, s)
     | Some i \<Rightarrow>
         (let t = the (tasks s ! i);
              s' = s\<lparr>tasks := (tasks s)[i := Some (t\<lparr>task_state := Exited status\<rparr>)]\<rparr>
          in if is_some_and (\<lambda>c. is_some_and (\<lambda>u. task_id u = tid) (tasks s' ! c)) (current s')
             then (Inr (), s'\<lparr>current := None\<rparr>)
             else (Inr (), s')))"

definition reap_task :: "u32 \<Rightarrow> scheduler \<Rightarrow> (scheduler_error + task) \<times> scheduler" where
  "reap_task tid s =
    (case position (is_some_and (\<lambda>t. task_id t = tid)) (tasks s) of
       None \<Rightarrow> (Inl TaskNotFound, s)
     | Some i \<Rightarrow>
         (case tasks s ! i of
            None \<Rightarrow> (Inl TaskNotFound, s)
          | Some t \<Rightarrow>
              (case task_state t of
                 Exited _ \<Rightarrow> (Inr t, s\<lparr>tasks := (tasks s)[i := None]\<rparr>)
               | _ \<Rightarrow> (Inl TaskNotFound, s))))"

section \<open>Sequences of operations\<close>

datatype sched_op =
    OpSpawn u32 cpu_context
  | OpSchedule u64
  | OpTick u64
  | OpSleep u64
  | OpBlock
  | OpWake u32
  | OpExit i32
  | OpExitTask u32 i32
  | OpReap u32

fun sched_exec :: "sched_op \<Rightarrow> scheduler \<Rightarrow> scheduler" where
  "sched_exec (OpSpawn pid ctx) s = snd (spawn pid ctx s)"
| "sched_exec (OpSchedule now) s = snd (schedule now s)"
| "sched_exec (OpTick now) s = snd (tick now s)"
| "sched_exec (OpSleep w) s = snd (sleep_current w s)"
| "sched_exec OpBlock s = snd (block_current s)"
| "sched_exec (OpWake tid) s = snd (wake tid s)"
| "sched_exec (OpExit st) s = snd (exit_current st s)"
| "sched_exec (OpExitTask tid st) s = snd (exit_task tid st s)"
| "sched_exec (OpReap tid) s = snd (reap_task tid s)"

definition sched_run :: "sched_op list \<Rightarrow> scheduler \<Rightarrow> scheduler" where
  "sched_run ops s = fold sched_exec ops s"

fun is_spawn :: "sched_op \<Rightarrow> bool" where
  "is_spawn (OpSpawn _ _) = True"
| "is_spawn _ = False"


section \<open>The invariant\<close>

text \<open>
  Both parts read one column of the slot array: the states, which must agree with
  \<open>current\<close>, and the numbers, which must be unique and below \<open>next_id\<close>.
\<close>

definition slot_states :: "scheduler \<Rightarrow> task_state option list" where
  "slot_states s = map (map_option task_state) (tasks s)"

definition slot_ids :: "scheduler \<Rightarrow> u32 option list" where
  "slot_ids s = map (map_option task_id) (tasks s)"

definition states_ok :: "task_state option list \<Rightarrow> nat option \<Rightarrow> bool" where
  "states_ok st cur \<longleftrightarrow>
    (\<forall>i < length st. (st ! i = Some Running) = (cur = Some i)) \<and>
    (case cur of None \<Rightarrow> True | Some i \<Rightarrow> i < length st)"

definition sched_inv :: "scheduler \<Rightarrow> bool" where
  "sched_inv s \<longleftrightarrow>
    states_ok (slot_states s) (current s) \<and> ids_ok (slot_ids s) (next_id s) \<and>
    remaining_ticks s \<le> quantum_ticks s"

section \<open>Preservation\<close>

lemma length_slot_states [simp]: "length (slot_states s) = length (tasks s)"
  by (simp add: slot_states_def)

lemma states_ok_update:
  "\<lbrakk>states_ok st cur; i < length st; st ! i \<noteq> Some Running; x \<noteq> Some Running\<rbrakk>
    \<Longrightarrow> states_ok (st[i := x]) cur"
  by (auto simp: states_ok_def nth_list_update split: option.splits)

lemma states_ok_leave:
  "\<lbrakk>states_ok st (Some i); x \<noteq> Some Running\<rbrakk> \<Longrightarrow> states_ok (st[i := x]) None"
  by (auto simp: states_ok_def nth_list_update)

lemma states_ok_enter:
  "\<lbrakk>states_ok st None; i < length st\<rbrakk> \<Longrightarrow> states_ok (st[i := Some Running]) (Some i)"
  by (auto simp: states_ok_def nth_list_update)

lemma states_ok_map:
  "\<lbrakk>states_ok st cur; \<And>x. (f x = Running) = (x = Running)\<rbrakk>
    \<Longrightarrow> states_ok (map (map_option f) st) cur"
  by (auto simp: states_ok_def split: option.splits)

lemma slot_update [simp]:
  "slot_states (s\<lparr>tasks := (tasks s)[i := x]\<rparr>) = (slot_states s)[i := map_option task_state x]"
  "slot_ids (s\<lparr>tasks := (tasks s)[i := x]\<rparr>) = (slot_ids s)[i := map_option task_id x]"
  by (simp_all add: slot_states_def slot_ids_def map_update)

lemma slot_frame [simp]:
  "slot_states (s\<lparr>current := c\<rparr>) = slot_states s"
  "slot_ids (s\<lparr>current := c\<rparr>) = slot_ids s"
  "slot_states (s\<lparr>next_id := n\<rparr>) = slot_states s"
  "slot_ids (s\<lparr>next_id := n\<rparr>) = slot_ids s"
  "slot_states (s\<lparr>remaining_ticks := r\<rparr>) = slot_states s"
  "slot_ids (s\<lparr>remaining_ticks := r\<rparr>) = slot_ids s"
  "slot_states (s\<lparr>context_switches := k\<rparr>) = slot_states s"
  "slot_ids (s\<lparr>context_switches := k\<rparr>) = slot_ids s"
  by (simp_all add: slot_states_def slot_ids_def)

lemma slot_nth [simp]:
  "i < length (tasks s) \<Longrightarrow> slot_states s ! i = map_option task_state (tasks s ! i)"
  "i < length (tasks s) \<Longrightarrow> slot_ids s ! i = map_option task_id (tasks s ! i)"
  by (simp_all add: slot_states_def slot_ids_def)

lemma slot_ids_same:
  "\<lbrakk>tasks s ! i = Some t; task_id t' = task_id t\<rbrakk>
    \<Longrightarrow> (slot_ids s)[i := Some (task_id t')] = slot_ids s"
  by (cases "i < length (tasks s)") (auto simp: slot_ids_def list_update_same_conv list_update_beyond)

lemma states_ok_current:
  "\<lbrakk>states_ok (slot_states s) (current s); current s = Some i\<rbrakk>
    \<Longrightarrow> i < length (tasks s) \<and> (\<exists>t. tasks s ! i = Some t \<and> task_state t = Running)"
  by (auto simp: states_ok_def)

lemma states_ok_other:
  "\<lbrakk>states_ok (slot_states s) (current s); i < length (tasks s); current s \<noteq> Some i;
    tasks s ! i = Some t\<rbrakk> \<Longrightarrow> task_state t \<noteq> Running"
  by (auto simp: states_ok_def)

lemma sched_inv_with_quantum: "sched_inv (with_quantum n q)"
  by (simp add: sched_inv_def with_quantum_def states_ok_def slot_states_def slot_ids_def
      ids_ok_def)

lemma spawn_inv:
  assumes inv: "sched_inv s" and room: "next_id s \<noteq> - 1"
  shows "sched_inv (snd (spawn pid ctx s))"
proof (cases "position (\<lambda>t. t = None) (tasks s)")
  case None
  with inv show ?thesis by (simp add: spawn_def)
next
  case (Some i)
  then have i: "i < length (tasks s)" "tasks s ! i = None" by (auto dest: position_SomeD)
  have step: "checked_add (next_id s) 1 = Some (next_id s + 1)" "next_id s < next_id s + 1"
    using next_number [OF room] by simp_all
  have "states_ok ((slot_states s)[i := Some Ready]) (current s)"
    using inv i by (intro states_ok_update) (auto simp: sched_inv_def)
  moreover have "ids_ok ((slot_ids s)[i := Some (next_id s)]) (next_id s + 1)"
    using inv i step(2) by (intro ids_ok_fill) (auto simp: sched_inv_def slot_ids_def)
  ultimately show ?thesis
    using inv Some step(1)
    by (simp add: spawn_def sched_inv_def Let_def slot_states_def slot_ids_def map_update)
qed

lemma spawn_next_id:
  "unat (next_id s) + 1 < 2 ^ 32 \<Longrightarrow> unat (next_id (snd (spawn pid ctx s))) \<le> unat (next_id s) + 1"
  by (auto simp: spawn_def Let_def checked_add_def unat_add_fits split: option.splits)

lemma wake_sleepers_slots:
  "slot_ids (wake_sleepers now s) = slot_ids s"
  "current (wake_sleepers now s) = current s"
  "states_ok (slot_states s) c \<Longrightarrow> states_ok (slot_states (wake_sleepers now s)) c"
proof -
  show "slot_ids (wake_sleepers now s) = slot_ids s"
    by (auto simp: wake_sleepers_def slot_ids_def wake_if_due_def option.map_comp comp_def
        split: task_state.splits intro!: option.map_cong)
  show "current (wake_sleepers now s) = current s" by (simp add: wake_sleepers_def)
  assume ok: "states_ok (slot_states s) c"
  have "slot_states (wake_sleepers now s) =
    map (map_option (\<lambda>st. case st of Sleeping w \<Rightarrow> (if w \<le> now then Ready else st) | _ \<Rightarrow> st))
      (slot_states s)"
    by (auto simp: wake_sleepers_def slot_states_def wake_if_due_def option.map_comp comp_def
        split: task_state.splits intro!: option.map_cong)
  then show "states_ok (slot_states (wake_sleepers now s)) c"
    using states_ok_map [OF ok] by (auto split: task_state.splits)
qed


lemma wake_sleepers_frame [simp]:
  "length (tasks (wake_sleepers now s)) = length (tasks s)"
  "next_id (wake_sleepers now s) = next_id s"
  "quantum_ticks (wake_sleepers now s) = quantum_ticks s"
  "remaining_ticks (wake_sleepers now s) = remaining_ticks s"
  "current (wake_sleepers now s) = current s"
  by (simp_all add: wake_sleepers_def)

lemma wake_sleepers_inv: "sched_inv s \<Longrightarrow> sched_inv (wake_sleepers now s)"
  by (simp add: sched_inv_def wake_sleepers_slots)

lemma demote_current_frame [simp]:
  "length (tasks (demote_current s)) = length (tasks s)"
  "next_id (demote_current s) = next_id s"
  "quantum_ticks (demote_current s) = quantum_ticks s"
  "remaining_ticks (demote_current s) = remaining_ticks s"
  "current (demote_current s) = current s"
  "slot_ids (demote_current s) = slot_ids s"
  by (auto simp: demote_current_def slot_ids_same split: option.splits)

lemma demote_current_states:
  assumes "states_ok (slot_states s) (current s)"
  shows "states_ok (slot_states (demote_current s)) None"
proof (cases "current s")
  case None
  with assms show ?thesis by (simp add: demote_current_def)
next
  case (Some i)
  with assms obtain t where "tasks s ! i = Some t" "task_state t = Running"
    using states_ok_current by blast
  with assms Some show ?thesis by (auto simp: demote_current_def intro: states_ok_leave)
qed

lemma find_ready_from_Some:
  assumes "find_ready_from s start = Some i"
  shows "i < length (tasks s)" and "slot_ready s i"
  using assms by (auto simp: find_ready_from_def find_Some_iff Let_def split: if_splits)

lemma slot_ready_Some: "slot_ready s i \<Longrightarrow> \<exists>t. tasks s ! i = Some t \<and> task_state t = Ready"
  by (auto simp: slot_ready_def is_some_and_iff)

lemma schedule_inv:
  assumes inv: "sched_inv s"
  shows "sched_inv (snd (schedule now s))"
proof -
  define s2 where "s2 = demote_current (wake_sleepers now s)"
  have st: "states_ok (slot_states s2) None"
    using wake_sleepers_inv [OF inv] by (auto simp: s2_def sched_inv_def intro: demote_current_states)
  have ids: "ids_ok (slot_ids s2) (next_id s2)"
    using wake_sleepers_inv [OF inv] by (simp add: s2_def sched_inv_def)
  have rem: "remaining_ticks s2 \<le> quantum_ticks s2"
    using inv by (simp add: s2_def sched_inv_def)
  show ?thesis
  proof (cases "find_ready_from s2 (next_start s2)")
    case None
    with st ids rem show ?thesis by (simp add: schedule_def Let_def sched_inv_def flip: s2_def)
  next
    case (Some i)
    then obtain t where i: "i < length (tasks s2)" and t: "tasks s2 ! i = Some t"
      using find_ready_from_Some slot_ready_Some by blast
    have "states_ok ((slot_states s2)[i := Some Running]) (Some i)"
      using st i by (intro states_ok_enter) simp_all
    moreover have "(slot_ids s2)[i := Some (task_id t)] = slot_ids s2"
      using t by (simp add: slot_ids_same)
    ultimately show ?thesis
      using ids Some t
      by (simp add: schedule_def Let_def sched_inv_def slot_states_def slot_ids_def map_update
          flip: s2_def)
  qed
qed


lemma tick_inv:
  assumes inv: "sched_inv s"
  shows "sched_inv (snd (tick now s))"
proof -
  define s1 where "s1 = wake_sleepers now s"
  have inv1: "sched_inv s1" unfolding s1_def using inv by (rule wake_sleepers_inv)
  show ?thesis
  proof (cases "current s1")
    case None
    with inv1 show ?thesis by (simp add: tick_def schedule_inv flip: s1_def)
  next
    case (Some i)
    with inv1 obtain t where t: "tasks s1 ! i = Some t" "task_state t = Running"
      unfolding sched_inv_def using states_ok_current by blast
    let ?s = "s1\<lparr>remaining_ticks := saturating_sub (remaining_ticks s1) 1\<rparr>"
    have "saturating_sub (remaining_ticks s1) 1 \<le> remaining_ticks s1"
      by (simp add: word_le_nat_alt unat_saturating_sub)
    then have inv2: "sched_inv ?s" using inv1 by (auto simp: sched_inv_def intro: order_trans)
    from schedule_inv [OF inv2, of now] inv2 Some t show ?thesis
      by (auto simp: tick_def Let_def simp flip: s1_def)
  qed
qed

lemma leave_current_inv:
  assumes inv: "sched_inv s" and st: "st \<noteq> Running"
  shows "sched_inv (snd (leave_current st s))"
proof (cases "current s")
  case None
  with inv show ?thesis by (simp add: leave_current_def)
next
  case (Some i)
  with inv obtain t where t: "tasks s ! i = Some t"
    unfolding sched_inv_def using states_ok_current by blast
  have "states_ok ((slot_states s)[i := Some st]) None"
    using inv Some st by (auto simp: sched_inv_def intro: states_ok_leave)
  with inv Some t show ?thesis
    by (simp add: leave_current_def sched_inv_def slot_ids_same)
qed

text \<open>Writing a state other than \<open>Running\<close> into a slot that is not current.\<close>

lemma set_state_inv:
  assumes inv: "sched_inv s" and t: "tasks s ! i = Some t" "i < length (tasks s)"
    and nc: "current s \<noteq> Some i" and st: "st \<noteq> Running"
  shows "sched_inv (s\<lparr>tasks := (tasks s)[i := Some (t\<lparr>task_state := st\<rparr>)]\<rparr>)"
proof -
  have "states_ok ((slot_states s)[i := Some st]) (current s)"
    using inv t nc st states_ok_other [of s i t]
    by (intro states_ok_update) (auto simp: sched_inv_def)
  with inv t show ?thesis by (simp add: sched_inv_def slot_ids_same)
qed

lemma position_task:
  assumes "position (is_some_and (\<lambda>t. task_id t = tid)) (tasks s) = Some i"
  obtains t where "i < length (tasks s)" "tasks s ! i = Some t" "task_id t = tid"
  using position_SomeD [OF assms] by (auto simp: is_some_and_iff)

lemma wake_inv:
  assumes inv: "sched_inv s"
  shows "sched_inv (snd (wake tid s))"
proof (cases "position (is_some_and (\<lambda>t. task_id t = tid)) (tasks s)")
  case None
  with inv show ?thesis by (simp add: wake_def)
next
  case (Some i)
  then obtain t where t: "i < length (tasks s)" "tasks s ! i = Some t" by (rule position_task)
  have "current s = Some i \<Longrightarrow> task_state t = Running"
    using inv t states_ok_current [of s i] by (auto simp: sched_inv_def)
  with inv Some t show ?thesis
    by (auto simp: wake_def Let_def intro!: set_state_inv split: task_state.split)
qed

lemma exit_task_inv:
  assumes inv: "sched_inv s"
  shows "sched_inv (snd (exit_task tid status s))"
proof (cases "position (is_some_and (\<lambda>t. task_id t = tid)) (tasks s)")
  case None
  with inv show ?thesis by (simp add: exit_task_def)
next
  case (Some i)
  then obtain t where t: "i < length (tasks s)" "tasks s ! i = Some t" "task_id t = tid"
    by (rule position_task)
  show ?thesis
  proof (cases "current s = Some i")
    case True
    then have "exit_task tid status s = (Inr (), snd (leave_current (Exited status) s))"
      using Some t by (simp add: exit_task_def leave_current_def Let_def)
    with inv show ?thesis by (simp add: leave_current_inv)
  next
    case False
    have "\<not> is_some_and (\<lambda>u. task_id u = tid) (tasks s ! c)" if c: "current s = Some c" for c
    proof
      assume "is_some_and (\<lambda>u. task_id u = tid) (tasks s ! c)"
      moreover have "c < length (tasks s)" using inv c states_ok_current by (auto simp: sched_inv_def)
      ultimately have "c = i"
        using inv t ids_okD [of "slot_ids s" "next_id s" c i tid]
        by (auto simp: sched_inv_def is_some_and_iff slot_ids_def)
      with c False show False by simp
    qed
    with Some t inv False show ?thesis
      by (auto simp: exit_task_def Let_def is_some_and_iff [of _ "current s"] nth_list_update
          intro!: set_state_inv)
  qed
qed

lemma reap_task_inv:
  assumes inv: "sched_inv s"
  shows "sched_inv (snd (reap_task tid s))"
proof (cases "position (is_some_and (\<lambda>t. task_id t = tid)) (tasks s)")
  case None
  with inv show ?thesis by (simp add: reap_task_def)
next
  case (Some i)
  then obtain t where t: "i < length (tasks s)" "tasks s ! i = Some t" by (rule position_task)
  have "sched_inv (s\<lparr>tasks := (tasks s)[i := None]\<rparr>)" if "task_state t \<noteq> Running"
    using inv t that by (auto simp: sched_inv_def intro!: states_ok_update ids_ok_clear)
  with inv Some t show ?thesis by (simp add: reap_task_def split: task_state.split)
qed


lemma sched_exec_inv:
  "\<lbrakk>sched_inv s; is_spawn op \<Longrightarrow> next_id s \<noteq> - 1\<rbrakk> \<Longrightarrow> sched_inv (sched_exec op s)"
  by (cases op)
     (simp_all add: spawn_inv schedule_inv tick_inv wake_inv exit_task_inv reap_task_inv
       sleep_current_def block_current_def exit_current_def leave_current_inv)

lemma schedule_next_id [simp]: "next_id (snd (schedule now s)) = next_id s"
  by (simp add: schedule_def Let_def split: option.split)

lemma tick_next_id [simp]: "next_id (snd (tick now s)) = next_id s"
  by (simp add: tick_def Let_def split: option.split)

lemma next_id_frame [simp]:
  "next_id (snd (leave_current st s)) = next_id s"
  "next_id (snd (wake tid s)) = next_id s"
  "next_id (snd (exit_task tid status s)) = next_id s"
  "next_id (snd (reap_task tid s)) = next_id s"
  by (simp_all add: leave_current_def wake_def exit_task_def reap_task_def Let_def
      split: option.split task_state.split)

lemma sched_exec_next_id:
  assumes "unat (next_id s) + of_bool (is_spawn op) < 2 ^ 32"
  shows "unat (next_id (sched_exec op s)) \<le> unat (next_id s) + of_bool (is_spawn op)"
  using assms spawn_next_id
  by (cases op) (simp_all add: sleep_current_def block_current_def exit_current_def)

lemma sched_run_inv:
  assumes "sched_inv s" and "unat (next_id s) + length (filter is_spawn ops) < 2 ^ 32"
  shows "sched_inv (sched_run ops s)"
  using assms
proof (induction ops arbitrary: s)
  case Nil
  then show ?case by (simp add: sched_run_def)
next
  case (Cons op ops)
  have room: "unat (next_id s) + of_bool (is_spawn op) < 2 ^ 32"
    using Cons.prems(2) by (auto split: if_splits)
  have "next_id s \<noteq> - 1" if "is_spawn op"
  proof
    assume "next_id s = - 1"
    then have "unat (next_id s) = 2 ^ 32 - 1"
      by (simp add: unsigned_minus_1_eq_mask mask_eq_exp_minus_1)
    with room that show False by simp
  qed
  then have "sched_inv (sched_exec op s)" using Cons.prems(1) by (rule sched_exec_inv [rotated])
  moreover have "unat (next_id (sched_exec op s)) + length (filter is_spawn ops) < 2 ^ 32"
    using sched_exec_next_id [OF room] Cons.prems(2) by (auto split: if_splits)
  ultimately have "sched_inv (sched_run ops (sched_exec op s))" by (rule Cons.IH)
  then show ?case by (simp add: sched_run_def)
qed

section \<open>The invariant of every run\<close>

text \<open>C21. From a new scheduler, whatever sequence of operations runs (spawn, schedule,
  tick, sleep, block, wake, exit, reap), as long as it spawns fewer than $2^{32} - 1$
  tasks: the task in state \<open>Running\<close> is exactly the current one, task numbers are
  unique and below \<open>next_id\<close>, and the remaining quantum never exceeds the quantum.\<close>

theorem sched_run_invariant:
  assumes "length (filter is_spawn ops) < 2 ^ 32 - 1"
  shows "sched_inv (sched_run ops (with_quantum n q))"
  using assms sched_run_inv [OF sched_inv_with_quantum] by (simp add: with_quantum_def)

theorem sched_run_invariant_witness:
  "sched_inv (sched_run [OpSpawn 1 default_context, OpSpawn 2 default_context, OpSchedule 0,
     OpTick 1, OpSleep 9, OpTick 10, OpExitTask 1 0, OpReap 1] (with_quantum 2 5))"
  by (rule sched_run_invariant) simp

end
