(* ===== verification/Scheduler_Progress.thy ===== *)
theory Scheduler_Progress
  imports Scheduler
begin

text \<open>
  What the scheduling decisions of \<open>scheduler.rs\<close> guarantee over time: \<open>schedule\<close> is
  work conserving, a ready task waits for at most \<open>TASKS\<close> decisions, a running task keeps
  the processor for its quantum, and a task that yields through a due sleep deadline is
  preferred over every other slot.
\<close>

section \<open>What \<open>schedule\<close> does\<close>

text \<open>A task that may run at time \<open>now\<close>.\<close>

definition runnable :: "u64 \<Rightarrow> task \<Rightarrow> bool" where
  "runnable now t =
    (case task_state t of
       Ready \<Rightarrow> True | Running \<Rightarrow> True | Sleeping w \<Rightarrow> w \<le> now | Blocked \<Rightarrow> False | Exited _ \<Rightarrow> False)"

abbreviation woken :: "u64 \<Rightarrow> scheduler \<Rightarrow> scheduler" where
  "woken now s \<equiv> demote_current (wake_sleepers now s)"

lemma wake_sleepers_nth [simp]:
  "i < length (tasks s) \<Longrightarrow>
    tasks (wake_sleepers now s) ! i = map_option (wake_if_due now) (tasks s ! i)"
  by (simp add: wake_sleepers_def)

lemma wake_if_due_id [simp]: "task_id (wake_if_due now t) = task_id t"
  by (simp add: wake_if_due_def split: task_state.split)

lemma next_start_woken [simp]: "next_start (woken now s) = next_start s"
  by (simp add: next_start_def split: option.split)

lemma next_start_current: "current s = Some i \<Longrightarrow> next_start s = Suc i mod max (length (tasks s)) 1"
  by (simp add: next_start_def)

lemma slot_ready_wake:
  "i < length (tasks s) \<Longrightarrow>
    slot_ready (wake_sleepers now s) i \<longleftrightarrow>
    (\<exists>t. tasks s ! i = Some t \<and> runnable now t \<and> task_state t \<noteq> Running)"
  by (cases "tasks s ! i")
    (auto simp: slot_ready_def wake_if_due_def runnable_def split: task_state.split)

lemma slot_ready_woken:
  assumes "sched_inv s" "i < length (tasks s)"
  shows "slot_ready (woken now s) i \<longleftrightarrow> is_some_and (runnable now) (tasks s ! i)"
proof (cases "current s = Some i")
  case True
  then obtain t where "tasks s ! i = Some t" "task_state t = Running"
    using assms(1) states_ok_current by (auto simp: sched_inv_def)
  with True assms(2) show ?thesis
    by (simp add: demote_current_def slot_ready_def wake_if_due_def runnable_def)
next
  case False
  then have "task_state t \<noteq> Running" if "tasks s ! i = Some t" for t
    using assms that states_ok_other by (auto simp: sched_inv_def)
  moreover have "tasks (woken now s) ! i = tasks (wake_sleepers now s) ! i"
    using False by (auto simp: demote_current_def split: option.split)
  ultimately show ?thesis
    using slot_ready_wake [OF assms(2), of now]
    by (auto simp: slot_ready_def is_some_and_iff)
qed

lemma mod_cover: "j < (n::nat) \<Longrightarrow> start < n \<Longrightarrow> \<exists>off < n. (start + off) mod n = j"
proof (cases "start \<le> j")
  case True
  assume "j < n"
  with True have "(start + (j - start)) mod n = j" "j - start < n" by auto
  then show ?thesis by blast
next
  case False
  assume "j < n" "start < n"
  with False have "(start + (n - start + j)) mod n = j" "n - start + j < n" by auto
  then show ?thesis by blast
qed

lemma find_ready_from_None:
  assumes "start < length (tasks s)" and "find_ready_from s start = None" and "j < length (tasks s)"
  shows "\<not> slot_ready s j"
proof -
  obtain off where "off < length (tasks s)" "(start + off) mod length (tasks s) = j"
    using mod_cover assms by blast
  with assms(2,3) show ?thesis by (auto simp: find_ready_from_def find_None_iff Let_def split: if_splits)
qed

lemma find_ready_from_first:
  assumes "slot_ready s ((start + off) mod length (tasks s))" "off < length (tasks s)"
  shows "\<exists>k \<le> off. find_ready_from s start = Some ((start + k) mod length (tasks s))"
proof -
  let ?n = "length (tasks s)"
  let ?xs = "map (\<lambda>offset. (start + offset) mod ?n) [0..<?n]"
  have "find (slot_ready s) ?xs \<noteq> None"
    using assms by (auto simp: find_None_iff)
  then obtain i where "find (slot_ready s) ?xs = Some i" by blast
  then obtain k where k: "k < ?n" "i = (start + k) mod ?n"
    "\<And>j. j < k \<Longrightarrow> \<not> slot_ready s ((start + j) mod ?n)"
    by (auto simp: find_Some_iff)
  have "k \<le> off" using k(3) [of off] assms(1) by (meson not_le)
  with k \<open>find (slot_ready s) ?xs = Some i\<close> assms(2) show ?thesis
    by (auto simp: find_ready_from_def Let_def)
qed

lemma schedule_cases:
  obtains
    (idle) "find_ready_from (woken now s) (next_start s) = None"
      "schedule now s = (Idle, (woken now s)\<lparr>current := None\<rparr>)"
  | (run) i t where "find_ready_from (woken now s) (next_start s) = Some i"
      "i < length (tasks s)" "tasks (woken now s) ! i = Some t" "task_state t = Ready"
      "current (snd (schedule now s)) = Some i"
      "tasks (snd (schedule now s)) = (tasks (woken now s))[i := Some (t\<lparr>task_state := Running\<rparr>)]"
      "remaining_ticks (snd (schedule now s)) = quantum_ticks s"
      "fst (schedule now s) \<noteq> Idle"
proof (cases "find_ready_from (woken now s) (next_start s)")
  case None
  then show ?thesis by (intro idle) (simp_all add: schedule_def Let_def)
next
  case (Some i)
  then obtain t where t: "i < length (tasks s)" "tasks (woken now s) ! i = Some t" "task_state t = Ready"
    using find_ready_from_Some [OF Some] slot_ready_Some by fastforce
  with Some show ?thesis by (intro run [of i t]) (simp_all add: schedule_def Let_def)
qed

lemma next_start_less: "sched_inv s \<Longrightarrow> 0 < length (tasks s) \<Longrightarrow> next_start s < length (tasks s)"
  by (auto simp: next_start_def max_def split: option.split)

lemma schedule_idle_runnable:
  assumes inv: "sched_inv s"
  shows "fst (schedule now s) = Idle \<longleftrightarrow> (\<forall>t \<in> set (flatten (tasks s)). \<not> runnable now t)"
proof (cases "length (tasks s) = 0")
  case True
  then have "find_ready_from (woken now s) (next_start s) = None"
    by (simp add: find_ready_from_def)
  with True show ?thesis by (cases rule: schedule_cases [of now s]) auto
next
  case False
  have idle: "fst (schedule now s) = Idle \<longleftrightarrow> find_ready_from (woken now s) (next_start s) = None"
    by (cases rule: schedule_cases [of now s]) auto
  also have "\<dots> \<longleftrightarrow> (\<forall>i < length (tasks s). \<not> slot_ready (woken now s) i)"
    using find_ready_from_None [of "next_start s" "woken now s"] next_start_less [OF inv] False
      find_ready_from_Some [of "woken now s" "next_start s"]
    by (cases "find_ready_from (woken now s) (next_start s)") auto
  also have "\<dots> \<longleftrightarrow> (\<forall>t \<in> set (flatten (tasks s)). \<not> runnable now t)"
    using slot_ready_woken [OF inv] by (auto simp: is_some_and_iff dest: in_flatten_nth flatten_nth_in)
  finally show ?thesis .
qed

lemma schedule_length [simp]: "length (tasks (snd (schedule now s))) = length (tasks s)"
  by (cases rule: schedule_cases [of now s]) auto

text \<open>A ready task stays ready until it is chosen.\<close>

lemma schedule_keeps_ready:
  assumes inv: "sched_inv s" and j: "j < length (tasks s)" "slot_ready s j"
    and nc: "current (snd (schedule now s)) \<noteq> Some j"
  shows "slot_ready (snd (schedule now s)) j"
proof -
  have "is_some_and (runnable now) (tasks s ! j)"
    using j(2) by (auto simp: slot_ready_def is_some_and_iff runnable_def)
  then have "slot_ready (woken now s) j" using slot_ready_woken [OF inv j(1)] by simp
  with nc j show ?thesis
    by (cases rule: schedule_cases [of now s]) (auto simp: slot_ready_def)
qed

lemma schedule_advances:
  assumes inv: "sched_inv s" and off: "off < length (tasks s)"
    and rdy: "slot_ready s ((next_start s + off) mod length (tasks s))"
  shows "\<exists>k \<le> off. current (snd (schedule now s)) = Some ((next_start s + k) mod length (tasks s))"
proof -
  let ?j = "(next_start s + off) mod length (tasks s)"
  have j: "?j < length (tasks s)" using off by (cases "length (tasks s)") auto
  have "is_some_and (runnable now) (tasks s ! ?j)"
    using rdy by (auto simp: slot_ready_def is_some_and_iff runnable_def)
  then have "slot_ready (woken now s) ?j" using slot_ready_woken [OF inv j] by simp
  then obtain k where "k \<le> off"
    "find_ready_from (woken now s) (next_start s) = Some ((next_start s + k) mod length (tasks s))"
    using find_ready_from_first [of "woken now s" "next_start s" off] off by auto
  then show ?thesis by (cases rule: schedule_cases [of now s]) auto
qed

lemma bounded_wait_aux:
  assumes "sched_inv s" and "off < length (tasks s)" and "off < length nows"
    and "slot_ready s ((next_start s + off) mod length (tasks s))"
  shows "\<exists>k \<le> off. current (sched_run (map OpSchedule (take (Suc k) nows)) s)
            = Some ((next_start s + off) mod length (tasks s))"
  using assms
proof (induction off arbitrary: s nows rule: less_induct)
  case (less off)
  let ?n = "length (tasks s)" and ?j = "(next_start s + off) mod length (tasks s)"
  obtain now rest where nows: "nows = now # rest" using less.prems(3) by (cases nows) auto
  let ?s = "snd (schedule now s)"
  obtain k where k: "k \<le> off" "current ?s = Some ((next_start s + k) mod ?n)"
    using schedule_advances less.prems by blast
  show ?case
  proof (cases "(next_start s + k) mod ?n = ?j")
    case True
    with k show ?thesis by (intro exI [of _ 0]) (simp add: nows sched_run_def)
  next
    case False
    then have koff: "k < off" using k(1) by (cases "k = off") auto
    have start: "(next_start ?s + (off - k - 1)) mod ?n = ?j"
    proof -
      have "next_start ?s = (next_start s + k + 1) mod ?n"
        using k(2) less.prems(2) by (simp add: next_start_current max_absorb1 mod_Suc_eq)
      then have "(next_start ?s + (off - k - 1)) mod ?n = (next_start s + k + 1 + (off - k - 1)) mod ?n"
        by (simp add: mod_simps)
      with koff show ?thesis by simp
    qed
    have j: "?j < ?n" using less.prems(2) by (cases ?n) auto
    have rdy: "slot_ready ?s ((next_start ?s + (off - k - 1)) mod length (tasks ?s))"
      using schedule_keeps_ready [OF less.prems(1) j less.prems(4), of now] k(2) False start by simp
    have "\<exists>l \<le> off - k - 1. current (sched_run (map OpSchedule (take (Suc l) rest)) ?s)
            = Some ((next_start ?s + (off - k - 1)) mod length (tasks ?s))"
      using less.prems koff nows rdy by (intro less.IH schedule_inv) auto
    then obtain l where l: "l \<le> off - k - 1"
      "current (sched_run (map OpSchedule (take (Suc l) rest)) ?s) = Some ?j"
      using start by auto
    then show ?thesis
      using koff nows by (intro exI [of _ "Suc l"]) (auto simp: sched_run_def)
  qed
qed

lemma bounded_wait:
  assumes "sched_inv s" and "j < length (tasks s)" and "slot_ready s j"
    and "length nows = length (tasks s)"
  shows "\<exists>k \<in> {1..length (tasks s)}. current (sched_run (map OpSchedule (take k nows)) s) = Some j"
proof -
  have "next_start s < length (tasks s)" using next_start_less assms(1,2) by fastforce
  then obtain off where off: "off < length (tasks s)" "(next_start s + off) mod length (tasks s) = j"
    using mod_cover assms(2) by blast
  then obtain k where "k \<le> off" "current (sched_run (map OpSchedule (take (Suc k) nows)) s) = Some j"
    using bounded_wait_aux [of s off nows] assms by auto
  then show ?thesis using off(1) by (intro bexI [of _ "Suc k"]) auto
qed

section \<open>The quantum\<close>

lemma tick_running:
  assumes "sched_inv s" "current s = Some i"
  shows "tick now s =
    (let s' = (wake_sleepers now s)\<lparr>remaining_ticks := saturating_sub (remaining_ticks s) 1\<rparr> in
     if remaining_ticks s' = 0 then schedule now s'
     else (Continue (task_id (the (tasks s ! i))), s'))"
proof -
  obtain t where "i < length (tasks s)" "tasks s ! i = Some t" "task_state t = Running"
    using assms states_ok_current by (auto simp: sched_inv_def)
  then show ?thesis
    using assms(2) by (simp add: tick_def wake_if_due_def Let_def)
qed

lemma saturating_sub_1:
  "unat (saturating_sub (a :: 'a::len word) 1) = unat a - 1"
  by (simp add: unat_saturating_sub)

lemma ticks_within_quantum:
  assumes "sched_inv s" "current s = Some i" "length nows < unat (remaining_ticks s)"
  shows "current (sched_run (map OpTick nows) s) = Some i \<and>
         unat (remaining_ticks (sched_run (map OpTick nows) s))
           = unat (remaining_ticks s) - length nows \<and>
         sched_inv (sched_run (map OpTick nows) s)"
  using assms
proof (induction nows arbitrary: s)
  case Nil
  then show ?case by (simp add: sched_run_def)
next
  case (Cons now nows)
  let ?r = "saturating_sub (remaining_ticks s) 1"
  let ?s = "(wake_sleepers now s)\<lparr>remaining_ticks := ?r\<rparr>"
  have r: "unat ?r = unat (remaining_ticks s) - 1" by (rule saturating_sub_1)
  then have "0 < unat ?r" using Cons.prems(3) by simp
  then have "?r \<noteq> 0" by (rule contrapos_pn) simp
  then have step: "snd (tick now s) = ?s"
    using tick_running [OF Cons.prems(1,2)] by (simp add: Let_def)
  then have "sched_inv ?s" using tick_inv [OF Cons.prems(1), of now] by simp
  moreover have "current ?s = Some i" "length nows < unat (remaining_ticks ?s)"
    using Cons.prems(2,3) r by simp_all
  ultimately show ?case
    using Cons.IH [of ?s] step r by (simp add: sched_run_def)
qed

lemma tick_last:
  assumes "sched_inv s" "current s = Some i" "unat (remaining_ticks s) \<le> 1"
  shows "tick now s = schedule now ((wake_sleepers now s)\<lparr>remaining_ticks := 0\<rparr>)"
proof -
  have "unat (saturating_sub (remaining_ticks s) 1) = 0"
    using assms(3) saturating_sub_1 [of "remaining_ticks s"] by simp
  then have "saturating_sub (remaining_ticks s) 1 = 0" by (simp add: unat_eq_0)
  then show ?thesis using tick_running [OF assms(1,2)] by (simp add: Let_def)
qed

lemma wake_if_due_twice [simp]: "wake_if_due now (wake_if_due now t) = wake_if_due now t"
  by (simp add: wake_if_due_def split: task_state.split)

lemma wake_sleepers_twice [simp]:
  "wake_sleepers now ((wake_sleepers now s)\<lparr>remaining_ticks := r\<rparr>)
    = (wake_sleepers now s)\<lparr>remaining_ticks := r\<rparr>"
proof -
  have "map (map_option (wake_if_due now)) (map (map_option (wake_if_due now)) (tasks s))
      = map (map_option (wake_if_due now)) (tasks s)"
    by (simp add: option.map_comp comp_def)
  then show ?thesis by (simp add: wake_sleepers_def)
qed

lemma schedule_remaining_irrelevant:
  "fst (schedule now ((wake_sleepers now s)\<lparr>remaining_ticks := r\<rparr>)) = fst (schedule now s)"
  "current (snd (schedule now ((wake_sleepers now s)\<lparr>remaining_ticks := r\<rparr>)))
    = current (snd (schedule now s))"
  "tasks (snd (schedule now ((wake_sleepers now s)\<lparr>remaining_ticks := r\<rparr>)))
    = tasks (snd (schedule now s))"
proof -
  let ?w = "wake_sleepers now s"
  have d: "demote_current (?w\<lparr>remaining_ticks := r\<rparr>) = (demote_current ?w)\<lparr>remaining_ticks := r\<rparr>"
    by (simp add: demote_current_def split: option.split)
  have f: "find_ready_from (x\<lparr>remaining_ticks := r\<rparr>) n = find_ready_from x n" for x n
  proof -
    have "slot_ready (x\<lparr>remaining_ticks := r\<rparr>) = slot_ready x"
      by (simp add: fun_eq_iff slot_ready_def)
    then show ?thesis by (simp add: find_ready_from_def Let_def cong: if_cong)
  qed
  have c: "current_task (?w\<lparr>remaining_ticks := r\<rparr>) = current_task ?w"
    by (simp add: current_task_def)
  have n: "next_start (x\<lparr>remaining_ticks := r\<rparr>) = next_start x" for x
    by (simp add: next_start_def split: option.split)
  note eqs = schedule_def Let_def d f c n
  show "fst (schedule now (?w\<lparr>remaining_ticks := r\<rparr>)) = fst (schedule now s)"
    "current (snd (schedule now (?w\<lparr>remaining_ticks := r\<rparr>))) = current (snd (schedule now s))"
    "tasks (snd (schedule now (?w\<lparr>remaining_ticks := r\<rparr>))) = tasks (snd (schedule now s))"
    by (auto simp: eqs split: option.split)
qed

section \<open>Yielding by a due deadline\<close>

lemma yield_step:
  assumes "sched_inv s" "current s = Some 0" "w \<le> now"
  shows "current (sched_exec (OpSchedule now) (sched_exec (OpSleep w) s)) = Some 0"
proof -
  let ?s = "snd (sleep_current w s)"
  obtain t where t: "0 < length (tasks s)" "tasks s ! 0 = Some t"
    using assms(1,2) states_ok_current by (auto simp: sched_inv_def)
  then have s: "current ?s = None" "tasks ?s = (tasks s)[0 := Some (t\<lparr>task_state := Sleeping w\<rparr>)]"
    using assms(2) by (simp_all add: sleep_current_def leave_current_def)
  have "slot_ready (woken now ?s) 0"
    using s t assms(3) by (simp add: demote_current_def slot_ready_def wake_if_due_def)
  then have "find_ready_from (woken now ?s) (next_start ?s) = Some 0"
    using s t find_ready_from_first [of "woken now ?s" 0 0] by (auto simp: next_start_def)
  then show ?thesis
    by (cases rule: schedule_cases [of now ?s]) auto
qed

lemma yield_starves:
  assumes "sched_inv s" "current s = Some 0" "\<forall>(w, now) \<in> set ys. w \<le> now"
  shows "current (sched_run (concat (map (\<lambda>(w, now). [OpSleep w, OpSchedule now]) ys)) s) = Some 0"
  using assms
proof (induction ys arbitrary: s)
  case Nil
  then show ?case by (simp add: sched_run_def)
next
  case (Cons y ys)
  obtain w now where y: "y = (w, now)" by (cases y)
  let ?s = "sched_exec (OpSchedule now) (sched_exec (OpSleep w) s)"
  have "sched_inv ?s" using Cons.prems(1) by (simp add: schedule_inv sleep_current_def leave_current_inv)
  then show ?case
    using Cons.IH [of ?s] Cons.prems yield_step [of s w now] y by (auto simp: sched_run_def)
qed

section \<open>The properties\<close>

text \<open>C7. Bounded waiting: a ready task is dispatched within \<open>TASKS\<close> consecutive calls of
  \<open>schedule\<close>, whatever the times of the calls and the other tasks are.\<close>

theorem round_robin_bounded_wait:
  assumes "sched_inv s" and "j < length (tasks s)" and "slot_ready s j"
    and "length nows = length (tasks s)"
  shows "\<exists>k \<in> {1..length (tasks s)}. current (sched_run (map OpSchedule (take k nows)) s) = Some j"
  using assms by (rule bounded_wait)

text \<open>A scheduler with three slots and a quantum of five after two spawns and one decision.\<close>

abbreviation demo_task :: "u32 \<Rightarrow> task_state \<Rightarrow> task" where
  "demo_task i st \<equiv>
    \<lparr>task_id = i, task_process = i, task_state = st, task_context = default_context\<rparr>"

abbreviation demo_sched :: "task option list \<Rightarrow> u32 \<Rightarrow> nat option \<Rightarrow> u64 \<Rightarrow> scheduler" where
  "demo_sched ts n c k \<equiv>
    \<lparr>tasks = ts, next_id = n, current = c, quantum_ticks = 5, remaining_ticks = 5,
     context_switches = k\<rparr>"

definition two_tasks :: scheduler where
  "two_tasks = demo_sched [Some (demo_task 1 Running), Some (demo_task 2 Ready), None] 3 (Some 0) 1"

lemma two_tasks_reached:
  "sched_run [OpSpawn 1 default_context, OpSpawn 2 default_context, OpSchedule 0]
     (with_quantum 3 5) = two_tasks"
proof -
  have "sched_exec (OpSpawn 1 default_context) (with_quantum 3 5)
      = demo_sched [Some (demo_task 1 Ready), None, None] 2 None 0"
    by (simp add: with_quantum_def spawn_def checked_add_def numeral_3_eq_3)
  moreover have "sched_exec (OpSpawn 2 default_context)
        (demo_sched [Some (demo_task 1 Ready), None, None] 2 None 0)
      = demo_sched [Some (demo_task 1 Ready), Some (demo_task 2 Ready), None] 3 None 0"
    by (simp add: spawn_def checked_add_def)
  moreover have "sched_exec (OpSchedule 0)
        (demo_sched [Some (demo_task 1 Ready), Some (demo_task 2 Ready), None] 3 None 0) = two_tasks"
    by (simp add: two_tasks_def schedule_def wake_sleepers_def wake_if_due_def current_task_def
        demote_current_def find_ready_from_def next_start_def slot_ready_def saturating_add_def)
  ultimately show ?thesis by (simp only: sched_run_def fold_simps)
qed

lemma two_tasks_inv: "sched_inv two_tasks"
  using sched_run_inv [OF sched_inv_with_quantum,
      of 3 5 "[OpSpawn 1 default_context, OpSpawn 2 default_context, OpSchedule 0]"]
  by (simp only: two_tasks_reached) (simp add: with_quantum_def)

lemma two_tasks_eval:
  "slot_ready two_tasks 1" "length (tasks two_tasks) = 3" "current two_tasks = Some 0"
  "remaining_ticks two_tasks = 5"
  by (simp_all add: two_tasks_def slot_ready_def)

theorem round_robin_bounded_wait_witness:
  "slot_ready two_tasks 1 \<and>
   (\<exists>k \<in> {1..3}. current (sched_run (map OpSchedule (take k [1, 2, 3])) two_tasks) = Some 1)"
proof -
  note r = two_tasks_eval(1) and n = two_tasks_eval(2)
  have "\<exists>k \<in> {1..length (tasks two_tasks)}.
      current (sched_run (map OpSchedule (take k [1, 2, 3])) two_tasks) = Some 1"
    by (rule round_robin_bounded_wait [OF two_tasks_inv]) (use r n in simp_all)
  with r n show ?thesis by simp
qed

text \<open>C27. \<open>schedule\<close> is work conserving: it answers \<open>Idle\<close> exactly when no task is ready,
  running or asleep past its deadline; otherwise the new current task is such a task (never
  one asleep before its deadline, blocked or exited) and starts with a full quantum.\<close>

theorem schedule_work_conserving:
  assumes "sched_inv s"
  shows "if \<forall>t \<in> set (flatten (tasks s)). \<not> runnable now t
         then fst (schedule now s) = Idle \<and> current (snd (schedule now s)) = None
         else fst (schedule now s) \<noteq> Idle \<and>
              (\<exists>i < length (tasks s). current (snd (schedule now s)) = Some i \<and>
                 is_some_and (runnable now) (tasks s ! i)) \<and>
              remaining_ticks (snd (schedule now s)) = quantum_ticks s"
proof (cases rule: schedule_cases [of now s])
  case idle
  then show ?thesis using schedule_idle_runnable [OF assms, of now] by simp
next
  case (run i t)
  then have "slot_ready (woken now s) i" by (simp add: slot_ready_def)
  then have "is_some_and (runnable now) (tasks s ! i)"
    using slot_ready_woken [OF assms run(2)] by simp
  then show ?thesis using run schedule_idle_runnable [OF assms, of now] by auto
qed

theorem schedule_work_conserving_witness:
  "fst (schedule 7 two_tasks) \<noteq> Idle"
proof -
  have "\<not> (\<forall>t \<in> set (flatten (tasks two_tasks)). \<not> runnable 7 t)"
    by (simp add: two_tasks_def runnable_def)
  then show ?thesis using schedule_work_conserving [OF two_tasks_inv, of 7] by simp
qed

text \<open>The quantum: with \<open>r\<close> ticks remaining, the current task keeps the processor for
  the next \<open>r - 1\<close> timer ticks, and the \<open>r\<close>-th tick takes exactly the decision that
  \<open>schedule\<close> takes at that time.\<close>

lemma tick_quantum:
  assumes "sched_inv s" and "current s = Some i"
    and "Suc (length nows) = unat (remaining_ticks s)"
  shows "current (sched_run (map OpTick nows) s) = Some i \<and>
         fst (tick now (sched_run (map OpTick nows) s))
           = fst (schedule now (sched_run (map OpTick nows) s)) \<and>
         current (snd (tick now (sched_run (map OpTick nows) s)))
           = current (snd (schedule now (sched_run (map OpTick nows) s)))"
proof -
  let ?s = "sched_run (map OpTick nows) s"
  have s: "current ?s = Some i" "unat (remaining_ticks ?s) = 1" "sched_inv ?s"
    using ticks_within_quantum [OF assms(1,2), of nows] assms(3) by auto
  then have "tick now ?s = schedule now ((wake_sleepers now ?s)\<lparr>remaining_ticks := 0\<rparr>)"
    using tick_last by simp
  then show ?thesis using s(1) schedule_remaining_irrelevant by simp
qed

text \<open>C28. Sleeping is not fair: the task of slot 0 that gives up the processor by
  \<open>sleep_current\<close> with a deadline that has passed at the next decision is chosen again, any
  number of times in a row, whichever other tasks are ready (\<open>sleep_current\<close> clears
  \<open>current\<close>, so the scan restarts at slot 0).\<close>

theorem sleep_restarts_scan:
  assumes "sched_inv s" and "current s = Some 0" and "\<forall>(w, now) \<in> set ys. w \<le> now"
  shows "current (sched_run (concat (map (\<lambda>(w, now). [OpSleep w, OpSchedule now]) ys)) s) = Some 0"
  using assms by (rule yield_starves)

theorem sleep_restarts_scan_witness:
  "slot_ready two_tasks 1 \<and>
   current (sched_run [OpSleep 1, OpSchedule 1, OpSleep 2, OpSchedule 2] two_tasks) = Some 0"
proof -
  have "current (sched_run [OpSleep 1, OpSchedule 1, OpSleep 2, OpSchedule 2] two_tasks) = Some 0"
    using sleep_restarts_scan [OF two_tasks_inv two_tasks_eval(3), of "[(1, 1), (2, 2)]"] by simp
  with two_tasks_eval(1) show ?thesis by blast
qed

end
