(* ===== verification/Fifo.thy ===== *)
theory Fifo
  imports Prelude
begin

text \<open>
  The contract of a bounded first-in first-out queue, and what a client may conclude
  from it.  \<open>Wait_Queue\<close> (\<open>nexos-runtime/src/scheduler.rs\<close>) and \<open>Ps2\<close>
  (\<open>kernel/src/ps2.rs\<close>) interpret it on the model of their queues.
\<close>

datatype 'x fifo_op = Push 'x | Pop

text \<open>The accepted elements, the elements handed out, and the queue after a sequence of calls.\<close>

fun fifo_run ::
  "('x \<Rightarrow> 'q \<Rightarrow> bool \<times> 'q) \<Rightarrow> ('q \<Rightarrow> 'x option \<times> 'q) \<Rightarrow> 'x fifo_op list \<Rightarrow> 'q
    \<Rightarrow> 'x list \<times> 'x list \<times> 'q" where
  "fifo_run push pop [] q = ([], [], q)"
| "fifo_run push pop (Push x # ops) q =
    (let (ok, q') = push x q; (acc, out, q'') = fifo_run push pop ops q'
     in (if ok then x # acc else acc, out, q''))"
| "fifo_run push pop (Pop # ops) q =
    (let (r, q') = pop q; (acc, out, q'') = fifo_run push pop ops q'
     in (acc, case r of None \<Rightarrow> out | Some x \<Rightarrow> x # out, q''))"

locale bounded_fifo =
  fixes push :: "'x \<Rightarrow> 'q \<Rightarrow> bool \<times> 'q"
    and pop :: "'q \<Rightarrow> 'x option \<times> 'q"
    and contents :: "'q \<Rightarrow> 'x list"
    and capacity :: "'q \<Rightarrow> nat"
    and invar :: "'q \<Rightarrow> bool"
  assumes push_accept: "invar q \<Longrightarrow> length (contents q) < capacity q \<Longrightarrow>
      fst (push x q) \<and> contents (snd (push x q)) = contents q @ [x]"
    and push_full: "invar q \<Longrightarrow> capacity q \<le> length (contents q) \<Longrightarrow> push x q = (False, q)"
    and push_invar: "invar q \<Longrightarrow> invar (snd (push x q))"
    and push_capacity: "invar q \<Longrightarrow> capacity (snd (push x q)) = capacity q"
    and pop_empty: "invar q \<Longrightarrow> contents q = [] \<Longrightarrow> pop q = (None, q)"
    and pop_first: "invar q \<Longrightarrow> contents q = x # xs \<Longrightarrow>
      fst (pop q) = Some x \<and> contents (snd (pop q)) = xs"
    and pop_invar: "invar q \<Longrightarrow> invar (snd (pop q))"
    and pop_capacity: "invar q \<Longrightarrow> capacity (snd (pop q)) = capacity q"
    and bounded: "invar q \<Longrightarrow> length (contents q) \<le> capacity q"
begin

text \<open>Nothing is lost, duplicated or reordered, and the queue never exceeds its capacity.\<close>

lemma run_order:
  assumes "invar q" "fifo_run push pop ops q = (acc, out, q')"
  shows "contents q @ acc = out @ contents q' \<and> invar q' \<and> capacity q' = capacity q"
  using assms
proof (induction ops arbitrary: q acc out)
  case Nil
  then show ?case by simp
next
  case (Cons op ops)
  show ?case
  proof (cases op)
    case (Push x)
    obtain acc' where acc': "fifo_run push pop ops (snd (push x q)) = (acc', out, q')"
      and acc: "acc = (if fst (push x q) then x # acc' else acc')"
      using Cons.prems(2) Push by (auto split: prod.splits)
    have IH: "contents (snd (push x q)) @ acc' = out @ contents q'" "invar q'"
      "capacity q' = capacity q"
      using Cons.IH [OF push_invar [OF Cons.prems(1)] acc'] push_capacity [OF Cons.prems(1)] by auto
    show ?thesis
    proof (cases "length (contents q) < capacity q")
      case True
      then show ?thesis using push_accept [OF Cons.prems(1) True, of x] IH acc by simp
    next
      case False
      then show ?thesis using push_full [OF Cons.prems(1), of x] IH acc by simp
    qed
  next
    case Pop
    obtain out' where out': "fifo_run push pop ops (snd (pop q)) = (acc, out', q')"
      and out: "out = (case fst (pop q) of None \<Rightarrow> out' | Some x \<Rightarrow> x # out')"
      using Cons.prems(2) Pop by (auto split: prod.splits)
    have IH: "contents (snd (pop q)) @ acc = out' @ contents q'" "invar q'"
      "capacity q' = capacity q"
      using Cons.IH [OF pop_invar [OF Cons.prems(1)] out'] pop_capacity [OF Cons.prems(1)] by auto
    show ?thesis
    proof (cases "contents q")
      case Nil
      then show ?thesis using pop_empty [OF Cons.prems(1)] IH out by simp
    next
      case (Cons x xs)
      then show ?thesis using pop_first [OF Cons.prems(1), of x xs] IH out
        by (metis append_Cons option.simps(5))
    qed
  qed
qed

lemma run_bounded:
  assumes "invar q" "fifo_run push pop ops q = (acc, out, q')"
  shows "length (contents q') \<le> capacity q"
  using run_order [OF assms] bounded by metis

lemma push_accepts_iff:
  assumes "invar q"
  shows "fst (push x q) \<longleftrightarrow> length (contents q) < capacity q"
  using push_accept [OF assms, of x] push_full [OF assms, of x] by (metis fst_conv not_le)

end

end
