(* ===== verification/Wait_Queue.thy ===== *)
theory Wait_Queue
  imports Scheduler Fifo
begin

text \<open>
  \<open>WaitQueue<WAITERS>\<close> of \<open>nexos-runtime/src/scheduler.rs\<close>: the array of waiters, its
  \<open>push\<close>, and its \<open>pop\<close>, which moves the rest of the array down by one.  The array is an
  implementation of a bounded queue (\<open>bounded_fifo\<close>).
\<close>

record wait_queue =
  waiters :: "u32 option list"

definition wq_new :: "nat \<Rightarrow> wait_queue" where
  "wq_new n = \<lparr>waiters = replicate n None\<rparr>"

definition wq_push :: "u32 \<Rightarrow> wait_queue \<Rightarrow> (scheduler_error + unit) \<times> wait_queue" where
  "wq_push tid q =
    (case position (\<lambda>w. w = None) (waiters q) of
       None \<Rightarrow> (Inl Full, q)
     | Some i \<Rightarrow> (Inr (), q\<lparr>waiters := (waiters q)[i := Some tid]\<rparr>))"

definition shift_down :: "nat \<Rightarrow> nat \<Rightarrow> 'a list \<Rightarrow> 'a list" where
  "shift_down i n xs = fold (\<lambda>p ws. ws[p := ws ! (p + 1)]) [i..<n] xs"

definition wq_pop :: "wait_queue \<Rightarrow> u32 option \<times> wait_queue" where
  "wq_pop q =
    (let n = length (waiters q) in
     case position (\<lambda>w. w \<noteq> None) (waiters q) of
       None \<Rightarrow> (None, q)
     | Some i \<Rightarrow>
         (let tid = waiters q ! i;
              ws = shift_down i (n - 1) (waiters q);
              ws' = (if n \<noteq> 0 then ws[n - 1 := None] else ws)
          in (tid, q\<lparr>waiters := ws'\<rparr>)))"

section \<open>The array as a queue\<close>

lemma shift_down_length [simp]: "length (shift_down i n xs) = length xs"
proof (induction n)
  case 0
  then show ?case by (simp add: shift_down_def)
next
  case (Suc n)
  then show ?case by (cases "i \<le> n") (simp_all add: shift_down_def)
qed

lemma nth_shift_down:
  "n < length xs \<Longrightarrow> k < length xs \<Longrightarrow>
    shift_down i n xs ! k = (if i \<le> k \<and> k < n then xs ! Suc k else xs ! k)"
proof (induction n arbitrary: k)
  case 0
  then show ?case by (simp add: shift_down_def)
next
  case (Suc n)
  show ?case
  proof (cases "i \<le> n")
    case True
    then have "shift_down i (Suc n) xs = (shift_down i n xs)[n := shift_down i n xs ! Suc n]"
      by (simp add: shift_down_def)
    with True Suc show ?thesis by (auto simp: nth_list_update)
  next
    case False
    then show ?thesis using Suc.prems by (auto simp: shift_down_def)
  qed
qed

text \<open>The waiters stand at the front of the array.\<close>

definition wq_inv :: "wait_queue \<Rightarrow> bool" where
  "wq_inv q = (waiters q = map Some (flatten (waiters q)) @
                replicate (length (waiters q) - length (flatten (waiters q))) None)"

definition wq_contents :: "wait_queue \<Rightarrow> u32 list" where
  "wq_contents q = flatten (waiters q)"

definition wq_capacity :: "wait_queue \<Rightarrow> nat" where
  "wq_capacity q = length (waiters q)"

lemma flatten_map_Some [simp]: "flatten (map Some xs) = xs"
  by (induction xs) simp_all

lemma wq_inv_iff: "wq_inv q \<longleftrightarrow> (\<exists>xs k. waiters q = map Some xs @ replicate k None)"
proof
  show "wq_inv q \<Longrightarrow> \<exists>xs k. waiters q = map Some xs @ replicate k None"
    unfolding wq_inv_def by blast
  show "\<exists>xs k. waiters q = map Some xs @ replicate k None \<Longrightarrow> wq_inv q"
    by (clarsimp simp: wq_inv_def)
qed

lemma wq_inv_new: "wq_inv (wq_new n)"
  unfolding wq_inv_iff wq_new_def by (intro exI [of _ "[]"] exI [of _ n]) simp

lemma position_packed_None:
  "position (\<lambda>w. w = None) (map Some xs @ replicate k None)
    = (if k = 0 then None else Some (length xs))"
  by (induction xs; cases k) simp_all

lemma wq_push_packed:
  assumes "waiters q = map Some xs @ replicate k None"
  shows "wq_push x q = (if k = 0 then (Inl Full, q)
    else (Inr (), q\<lparr>waiters := map Some (xs @ [x]) @ replicate (k - 1) None\<rparr>))"
  using assms position_packed_None [of xs k]
  by (cases k) (simp_all add: wq_push_def list_update_append)

lemma wq_pop_packed:
  assumes q: "waiters q = map Some xs @ replicate k None"
  shows "wq_pop q = (case xs of [] \<Rightarrow> (None, q)
    | y # ys \<Rightarrow> (Some y, q\<lparr>waiters := map Some ys @ replicate (Suc k) None\<rparr>))"
proof (cases xs)
  case Nil
  then have "position (\<lambda>w. w \<noteq> None) (waiters q) = None"
    using q by (auto simp: position_None_iff)
  with Nil show ?thesis by (simp add: wq_pop_def)
next
  case (Cons y ys)
  let ?ws = "waiters q"
  have pos: "position (\<lambda>w. w \<noteq> None) ?ws = Some 0"
    using q Cons by (simp add: position_Some_iff)
  have n: "length ?ws = Suc (length ys + k)" using q Cons by simp
  have "(shift_down 0 (length ?ws - 1) ?ws)[length ?ws - 1 := None]
      = map Some ys @ replicate (Suc k) None" (is "?l = ?r")
  proof (rule nth_equalityI)
    show "length ?l = length ?r" using n by simp
    fix i assume i: "i < length ?l"
    then show "?l ! i = ?r ! i"
      using n q Cons by (auto simp: nth_list_update nth_shift_down nth_append simp del: replicate_Suc)
  qed
  then show ?thesis using pos n q Cons by (simp add: wq_pop_def Let_def)
qed

lemma wq_packed:
  assumes "wq_inv q"
  obtains xs k where "waiters q = map Some xs @ replicate k None"
    "wq_contents q = xs" "wq_capacity q = length xs + k"
proof -
  obtain xs k where "waiters q = map Some xs @ replicate k None"
    using assms by (auto simp: wq_inv_iff)
  then show ?thesis by (intro that [of xs k]) (simp_all add: wq_contents_def wq_capacity_def)
qed

lemma wq_after_push:
  assumes "wq_inv q" "length (wq_contents q) < wq_capacity q"
  shows "fst (wq_push x q) = Inr ()" "wq_inv (snd (wq_push x q))"
    "wq_contents (snd (wq_push x q)) = wq_contents q @ [x]"
    "wq_capacity (snd (wq_push x q)) = wq_capacity q"
proof -
  obtain xs k where q: "waiters q = map Some xs @ replicate k None"
    "wq_contents q = xs" "wq_capacity q = length xs + k" using wq_packed assms(1) by blast
  then have "k \<noteq> 0" using assms(2) by simp
  then have push: "wq_push x q = (Inr (), q\<lparr>waiters := map Some (xs @ [x]) @ replicate (k - 1) None\<rparr>)"
    using wq_push_packed [OF q(1)] by simp
  have "wq_inv (q\<lparr>waiters := map Some (xs @ [x]) @ replicate (k - 1) None\<rparr>)"
    unfolding wq_inv_iff by (intro exI [of _ "xs @ [x]"] exI [of _ "k - 1"]) simp
  then show "wq_inv (snd (wq_push x q))" by (simp only: push snd_conv)
  show "fst (wq_push x q) = Inr ()" "wq_contents (snd (wq_push x q)) = wq_contents q @ [x]"
    "wq_capacity (snd (wq_push x q)) = wq_capacity q"
    using push q \<open>k \<noteq> 0\<close> by (simp_all add: wq_contents_def wq_capacity_def)
qed

lemma wq_push_when_full:
  assumes "wq_inv q" "wq_capacity q \<le> length (wq_contents q)"
  shows "wq_push x q = (Inl Full, q)"
proof -
  obtain xs k where "waiters q = map Some xs @ replicate k None" "k = 0"
    using wq_packed assms by (metis add_le_same_cancel1 le_zero_eq)
  then show ?thesis using wq_push_packed [of q xs k] by simp
qed

lemma wq_after_pop:
  assumes "wq_inv q" "wq_contents q = x # xs"
  shows "fst (wq_pop q) = Some x" "wq_inv (snd (wq_pop q))" "wq_contents (snd (wq_pop q)) = xs"
    "wq_capacity (snd (wq_pop q)) = wq_capacity q"
proof -
  obtain k where q: "waiters q = map Some (x # xs) @ replicate k None"
    "wq_capacity q = Suc (length xs) + k" using wq_packed assms by (metis length_Cons)
  have pop: "wq_pop q = (Some x, q\<lparr>waiters := map Some xs @ replicate (Suc k) None\<rparr>)"
    using wq_pop_packed [OF q(1)] by simp
  have "wq_inv (q\<lparr>waiters := map Some xs @ replicate (Suc k) None\<rparr>)"
    unfolding wq_inv_iff by (intro exI [of _ xs] exI [of _ "Suc k"]) simp
  then show "wq_inv (snd (wq_pop q))" by (simp only: pop snd_conv)
  show "fst (wq_pop q) = Some x" "wq_contents (snd (wq_pop q)) = xs"
    "wq_capacity (snd (wq_pop q)) = wq_capacity q"
    using pop q by (simp_all add: wq_contents_def wq_capacity_def)
qed

lemma wq_pop_when_empty:
  assumes "wq_inv q" "wq_contents q = []"
  shows "wq_pop q = (None, q)"
proof -
  obtain k where "waiters q = map Some [] @ replicate k None" using wq_packed assms by metis
  from wq_pop_packed [OF this] show ?thesis by simp
qed

interpretation wq: bounded_fifo "\<lambda>x q. (\<not> isl (fst (wq_push x q)), snd (wq_push x q))"
  wq_pop wq_contents wq_capacity wq_inv
proof
  fix q :: wait_queue and x
  assume inv: "wq_inv q"
  show "length (wq_contents q) \<le> wq_capacity q" using wq_packed [OF inv] by (metis le_add1)
  let ?push = "(\<not> isl (fst (wq_push x q)), snd (wq_push x q))"
  show "wq_capacity q \<le> length (wq_contents q) \<Longrightarrow> ?push = (False, q)"
    "wq_inv (snd ?push)" "wq_capacity (snd ?push) = wq_capacity q"
    "length (wq_contents q) < wq_capacity q \<Longrightarrow>
      fst ?push \<and> wq_contents (snd ?push) = wq_contents q @ [x]"
    using wq_after_push [OF inv] wq_push_when_full [OF inv] inv
    by (cases "length (wq_contents q) < wq_capacity q"; simp)+
  show "wq_contents q = [] \<Longrightarrow> wq_pop q = (None, q)" by (rule wq_pop_when_empty [OF inv])
  show "wq_inv (snd (wq_pop q))" "wq_capacity (snd (wq_pop q)) = wq_capacity q"
    using wq_after_pop [OF inv] wq_pop_when_empty [OF inv] inv by (cases "wq_contents q"; simp)+
  show "fst (wq_pop q) = Some x \<and> wq_contents (snd (wq_pop q)) = xs"
    if "wq_contents q = x # xs" for xs
    using wq_after_pop [OF inv that] by simp
qed

text \<open>C29. The wait queue is first in, first out: over every sequence of \<open>push\<close> and \<open>pop\<close>
  calls on a new queue, the tasks that were accepted are the tasks handed out, in the order
  they came, followed by the tasks still waiting, of which there are at most \<open>WAITERS\<close>.\<close>

theorem wait_queue_fifo:
  assumes "fifo_run (\<lambda>x q. (\<not> isl (fst (wq_push x q)), snd (wq_push x q))) wq_pop ops (wq_new n)
             = (accepted, out, q)"
  shows "accepted = out @ wq_contents q \<and> length (wq_contents q) \<le> n"
proof -
  have "wq_contents (wq_new n) = []" "wq_capacity (wq_new n) = n"
    by (simp_all add: wq_contents_def wq_capacity_def wq_new_def)
  then show ?thesis
    using wq.run_order [OF wq_inv_new assms] wq.run_bounded [OF wq_inv_new assms] by simp
qed

theorem wait_queue_fifo_witness:
  "[7, 8] = [7] @ wq_contents \<lparr>waiters = [Some 8, None]\<rparr> \<and>
   length (wq_contents \<lparr>waiters = [Some 8, None]\<rparr>) \<le> 2"
  by (rule wait_queue_fifo [of "[Push 7, Push 8, Push 9, Pop]" 2])
    (simp add: wq_push_def wq_pop_def wq_new_def shift_down_def Let_def numeral_2_eq_2)

end
