(* ===== verification/Bytes.thy ===== *)
theory Bytes
  imports Prelude
begin

text \<open>
  Byte buffers. \<open>slice\<close> is \<open>&b[off..off + n]\<close>, \<open>put_slice\<close> is
  \<open>b[off..off + n].copy_from_slice(data)\<close> and \<open>get_range\<close> is the checked
  \<open>b.get(a..b)\<close>; \<open>le_bytes\<close> and \<open>of_le\<close> are \<open>to_le_bytes\<close> and
  \<open>from_le_bytes\<close> at any width. The lemmas say that an encoder that writes disjoint
  fields is undone by a decoder that reads the same ranges.
\<close>

section \<open>Ranges of a buffer\<close>

definition slice :: "nat \<Rightarrow> nat \<Rightarrow> 'a list \<Rightarrow> 'a list" where
  "slice off n bs = take n (drop off bs)"

definition put_slice :: "nat \<Rightarrow> 'a list \<Rightarrow> 'a list \<Rightarrow> 'a list" where
  "put_slice off data bs = take off bs @ data @ drop (off + length data) bs"

definition get_range :: "nat \<Rightarrow> nat \<Rightarrow> 'a list \<Rightarrow> 'a list option" where
  "get_range a b bs = (if a \<le> b \<and> b \<le> length bs then Some (slice a (b - a) bs) else None)"

text \<open>\<open>slice.split(|byte| *byte == b'/')\<close>.\<close>

fun split_on :: "'a \<Rightarrow> 'a list \<Rightarrow> 'a list list" where
  "split_on c [] = [[]]"
| "split_on c (x # xs) =
    (if x = c then [] # split_on c xs else (x # hd (split_on c xs)) # tl (split_on c xs))"

lemma length_slice [simp]: "length (slice off n bs) = min n (length bs - off)"
  by (simp add: slice_def)

lemma slice_all [simp]: "length bs \<le> n \<Longrightarrow> slice 0 n bs = bs"
  by (simp add: slice_def)

lemma slice_zero [simp]: "slice off 0 bs = []"
  by (simp add: slice_def)

lemma nth_slice [simp]: "\<lbrakk>i < n; off + n \<le> length bs\<rbrakk> \<Longrightarrow> slice off n bs ! i = bs ! (off + i)"
  by (simp add: slice_def)

lemma length_put_slice [simp]:
  "off + length data \<le> length bs \<Longrightarrow> length (put_slice off data bs) = length bs"
  by (simp add: put_slice_def)

lemma nth_put_slice:
  "\<lbrakk>off + length data \<le> length bs; i < length bs\<rbrakk>
    \<Longrightarrow> put_slice off data bs ! i =
        (if off \<le> i \<and> i < off + length data then data ! (i - off) else bs ! i)"
  by (auto simp: put_slice_def nth_append min_def)

lemma slice_put_same [slice_simps]:
  "\<lbrakk>off + n \<le> length bs; n = length data\<rbrakk> \<Longrightarrow> slice off n (put_slice off data bs) = data"
  by (simp add: slice_def put_slice_def)

lemma slice_put_other [slice_simps]:
  assumes "off + length data \<le> length bs" and "b + n \<le> off \<or> off + length data \<le> b"
  shows "slice b n (put_slice off data bs) = slice b n bs"
proof (rule nth_equalityI)
  show "length (slice b n (put_slice off data bs)) = length (slice b n bs)"
    using assms by simp
next
  fix i assume "i < length (slice b n (put_slice off data bs))"
  with assms have i: "i < n" "b + i < length bs" by auto
  then show "slice b n (put_slice off data bs) ! i = slice b n bs ! i"
    using assms by (auto simp: slice_def nth_put_slice)
qed

lemma slice_put_inside:
  assumes "off + length data \<le> length bs" "b + n \<le> length data"
  shows "slice (off + b) n (put_slice off data bs) = slice b n data"
proof (rule nth_equalityI)
  show "length (slice (off + b) n (put_slice off data bs)) = length (slice b n data)"
    using assms by simp
next
  fix i assume "i < length (slice (off + b) n (put_slice off data bs))"
  with assms have "i < n" by simp
  with assms show "slice (off + b) n (put_slice off data bs) ! i = slice b n data ! i"
    by (simp add: nth_put_slice)
qed

lemma nth_put_other [slice_simps]:
  "\<lbrakk>off + length data \<le> length bs; i < off \<or> off + length data \<le> i; i < length bs\<rbrakk>
    \<Longrightarrow> put_slice off data bs ! i = bs ! i"
  by (auto simp: nth_put_slice)

lemma slice_update_other [slice_simps]:
  "i < off \<or> off + n \<le> i \<Longrightarrow> slice off n (bs[i := v]) = slice off n bs"
  by (auto simp: slice_def take_drop drop_update_cancel drop_update_swap)
     (metis add.commute drop_take drop_update_cancel take_update_cancel take_drop)

lemma put_slice_id: "off + n \<le> length bs \<Longrightarrow> put_slice off (slice off n bs) bs = bs"
proof (rule nth_equalityI)
  assume "off + n \<le> length bs"
  then show "length (put_slice off (slice off n bs) bs) = length bs"
    by simp
next
  fix i assume b: "off + n \<le> length bs" and "i < length (put_slice off (slice off n bs) bs)"
  then have "i < length bs" by simp
  with b show "put_slice off (slice off n bs) bs ! i = bs ! i"
    by (auto simp: nth_put_slice)
qed

text \<open>Two writes to disjoint ranges commute, and a write to a prefix is the prefix of the write.\<close>

lemma put_slice_commute:
  assumes "a + length x \<le> length bs" "b + length y \<le> length bs" "a + length x \<le> b"
  shows "put_slice a x (put_slice b y bs) = put_slice b y (put_slice a x bs)"
  using assms by (intro nth_equalityI) (auto simp: nth_put_slice)

lemma slice_put_prefix:
  assumes "off + length w \<le> n" "n \<le> length bs"
  shows "slice 0 n (put_slice off w bs) = put_slice off w (slice 0 n bs)"
  using assms by (intro nth_equalityI) (auto simp: nth_put_slice)

lemma get_range_Some_iff:
  "get_range a b bs = Some xs \<longleftrightarrow> a \<le> b \<and> b \<le> length bs \<and> xs = slice a (b - a) bs"
  by (auto simp: get_range_def)

lemma put_slice_append:
  "off + length a \<le> length out \<Longrightarrow>
    put_slice (off + length a) b (put_slice off a out) = put_slice off (a @ b) out"
  by (simp add: put_slice_def ac_simps)

lemma slice_prefix: "length a = n \<Longrightarrow> slice 0 n (a @ b) = a"
  by (simp add: slice_def)

lemma slice_skip: "length a \<le> off \<Longrightarrow> slice off n (a @ b) = slice (off - length a) n b"
  by (simp add: slice_def)

lemma slice_replicate: "off + n \<le> m \<Longrightarrow> slice off n (replicate m x) = replicate n x"
  by (simp add: slice_def min_def)

text \<open>Overwriting a field of a prefix with what it held before the field was set.\<close>

lemma put_slice_restore:
  assumes "off + length c \<le> n" "n \<le> length h" "length data = length c" "slice off (length c) h = data"
  shows "put_slice off data (slice 0 n (put_slice off c h)) = slice 0 n h"
proof (rule nth_equalityI)
  show "length (put_slice off data (slice 0 n (put_slice off c h))) = length (slice 0 n h)"
    using assms by simp
next
  fix i assume "i < length (put_slice off data (slice 0 n (put_slice off c h)))"
  then have i: "i < n" using assms by simp
  have "data ! (i - off) = h ! i" if "off \<le> i" "i < off + length c"
    using assms that nth_slice [of "i - off" "length c" off h] by auto
  then show "put_slice off data (slice 0 n (put_slice off c h)) ! i = slice 0 n h ! i"
    using assms i by (auto simp: nth_put_slice)
qed

section \<open>Little-endian integers\<close>

definition le_bytes :: "nat \<Rightarrow> 'a::len word \<Rightarrow> bytes" where
  "le_bytes n w = map (\<lambda>i. ucast (drop_bit (8 * i) w)) [0..<n]"

fun of_le :: "bytes \<Rightarrow> 'a::len word" where
  "of_le [] = 0"
| "of_le (b # bs) = ucast b OR push_bit 8 (of_le bs)"

text \<open>Big-endian integers are little-endian ones read backwards.\<close>

definition be_bytes :: "nat \<Rightarrow> 'a::len word \<Rightarrow> bytes" where
  "be_bytes n w = rev (le_bytes n w)"

definition of_be :: "bytes \<Rightarrow> 'a::len word" where
  "of_be bs = of_le (rev bs)"

lemma length_le_bytes [simp]: "length (le_bytes n w) = n"
  by (simp add: le_bytes_def)

lemma length_be_bytes [simp]: "length (be_bytes n w) = n"
  by (simp add: be_bytes_def)

lemma bit_of_le:
  "bit (of_le bs :: 'a::len word) k \<longleftrightarrow>
    k < LENGTH('a) \<and> k div 8 < length bs \<and> bit (bs ! (k div 8)) (k mod 8)"
proof (induction bs arbitrary: k)
  case Nil
  then show ?case by simp
next
  case (Cons b bs)
  show ?case
  proof (cases "k < 8")
    case True
    then show ?thesis
      by (auto simp: bit_or_iff bit_ucast_iff bit_push_bit_iff dest: bit_imp_le_length)
  next
    case False
    then have idx: "k div 8 = Suc ((k - 8) div 8)" "(k - 8) mod 8 = k mod 8"
      by (simp_all add: le_div_geq le_mod_geq)
    have "\<not> bit (ucast b :: 'a word) k"
      using False by (auto simp: bit_ucast_iff dest: bit_imp_le_length)
    then show ?thesis
      using False Cons.IH [of "k - 8"] idx
      by (auto simp: bit_or_iff bit_push_bit_iff)
  qed
qed

lemma bit_nth_le_bytes:
  "i < n \<Longrightarrow> bit (le_bytes n w ! i) j \<longleftrightarrow> j < 8 \<and> bit w (8 * i + j)"
  by (auto simp: le_bytes_def bit_ucast_iff bit_drop_bit_eq)

lemma of_le_le_bytes:
  fixes w :: "'a::len word"
  assumes "LENGTH('a) \<le> 8 * n"
  shows "of_le (le_bytes n w) = w"
proof (rule bit_word_eqI)
  fix k assume "k < LENGTH('a)"
  moreover from this assms have "k div 8 < n" by (simp add: less_mult_imp_div_less mult.commute)
  ultimately show "bit (of_le (le_bytes n w) :: 'a word) k = bit w k"
    by (simp add: bit_of_le bit_nth_le_bytes)
qed

lemma le_bytes_of_le:
  assumes "length bs = n" and "8 * n \<le> LENGTH('a::len)"
  shows "le_bytes n (of_le bs :: 'a word) = bs"
proof (rule nth_equalityI)
  show "length (le_bytes n (of_le bs :: 'a word)) = length bs" using assms by simp
next
  fix i assume "i < length (le_bytes n (of_le bs :: 'a word))"
  then have i: "i < n" by simp
  show "le_bytes n (of_le bs :: 'a word) ! i = bs ! i"
  proof (rule bit_word_eqI)
    fix j assume j: "j < LENGTH(8)"
    then have "(8 * i + j) div 8 = i" "(8 * i + j) mod 8 = j" by auto
    moreover have "8 * i + j < LENGTH('a)" using i j assms(2) by simp
    ultimately show "bit (le_bytes n (of_le bs :: 'a word) ! i) j = bit (bs ! i) j"
      using i j assms(1) by (simp add: bit_nth_le_bytes bit_of_le)
  qed
qed

lemma of_le_roundtrips [simp]:
  "of_le (le_bytes 2 (a :: u16)) = a"
  "of_le (le_bytes 4 (b :: u32)) = b"
  "of_le (le_bytes 8 (c :: u64)) = c"
  by (simp_all add: of_le_le_bytes)

lemma of_be_roundtrips [simp]:
  "of_be (be_bytes 2 (a :: u16)) = a"
  "of_be (be_bytes 4 (b :: u32)) = b"
  by (simp_all add: of_be_def be_bytes_def)

lemma unat_of_le_bound:
  "8 * length bs \<le> LENGTH('a::len) \<Longrightarrow> unat (of_le bs :: 'a word) < 2 ^ (8 * length bs)"
proof -
  assume len: "8 * length bs \<le> LENGTH('a)"
  have "take_bit (8 * length bs) (of_le bs :: 'a word) = of_le bs"
    by (rule bit_word_eqI) (auto simp: bit_take_bit_iff bit_of_le less_mult_imp_div_less)
  then show ?thesis
    by (metis take_bit_nat_less_exp unsigned_take_bit_eq)
qed

section \<open>Arrays of integers\<close>

lemma put_words:
  "off + n * w + w * length cs \<le> length out \<Longrightarrow>
    fold (\<lambda>(i, c) o'. put_slice (off + i * w) (le_bytes w c) o') (enumerate n cs) out
      = put_slice (off + n * w) (concat (map (le_bytes w) cs)) out"
proof (induction cs arbitrary: n out)
  case Nil
  then show ?case by (simp add: put_slice_def)
next
  case (Cons c cs)
  let ?out = "put_slice (off + n * w) (le_bytes w c) out"
  have "fold (\<lambda>(i, c) o'. put_slice (off + i * w) (le_bytes w c) o') (enumerate (Suc n) cs) ?out
      = put_slice (off + Suc n * w) (concat (map (le_bytes w) cs)) ?out"
    using Cons.prems by (intro Cons.IH) simp
  then show ?case
    using put_slice_append [of "off + n * w" "le_bytes w c" out] Cons.prems by (simp add: ac_simps)
qed

lemma length_concat_words [simp]: "length (concat (map (le_bytes w) cs)) = w * length cs"
  by (induction cs) simp_all

lemma slice_concat_words:
  "i < length cs \<Longrightarrow> slice (i * w) w (concat (map (le_bytes w) cs)) = le_bytes w (cs ! i)"
proof (induction cs arbitrary: i)
  case (Cons c cs)
  then show ?case
    by (cases i) (simp_all add: slice_prefix slice_skip)
qed simp

lemma le_bytes_zero [simp]: "le_bytes n 0 = replicate n 0"
  by (simp add: le_bytes_def map_replicate_const)


section \<open>Blocks of one size\<close>

lemma drop_concat_uniform:
  "(\<And>x. x \<in> set xs \<Longrightarrow> length x = c) \<Longrightarrow> drop (k * c) (concat xs) = concat (drop k xs)"
proof (induction xs arbitrary: k)
  case (Cons x xs)
  then show ?case by (cases k) simp_all
qed simp

lemma length_concat_uniform:
  "(\<And>x. x \<in> set xs \<Longrightarrow> length x = c) \<Longrightarrow> length (concat xs) = length xs * c"
  by (induction xs) simp_all

lemma take_concat_uniform:
  assumes len: "\<And>x. x \<in> set xs \<Longrightarrow> length x = c" and k: "k < length xs" and m: "m \<le> c"
  shows "take (k * c + m) (concat xs) = take (k * c) (concat xs) @ take m (xs ! k)"
proof -
  have "take m (drop (k * c) (concat xs)) = take m (xs ! k @ concat (drop (Suc k) xs))"
    using len k by (simp add: drop_concat_uniform Cons_nth_drop_Suc [symmetric])
  also have "\<dots> = take m (xs ! k)" using len [of "xs ! k"] k m by simp
  finally show ?thesis by (simp add: take_add)
qed

section \<open>Records as sequences of fields\<close>

text \<open>
  Writing fields from left to right into a zeroed record turns it into the sequence of its fields and
  gaps; reading a range of such a sequence finds the field that starts there.
\<close>

named_theorems field_simps \<open>normal form of a record written field by field\<close>

lemma put_skip [field_simps]: "length a \<le> off \<Longrightarrow> put_slice off d (a @ b) = a @ put_slice (off - length a) d b"
  by (simp add: put_slice_def)

lemma put_zeros [field_simps]:
  "off + length d \<le> n \<Longrightarrow>
    put_slice off d (replicate n x @ r) = replicate off x @ d @ replicate (n - off - length d) x @ r"
  by (simp add: put_slice_def min_def)

lemma put_first [field_simps]: "put_slice 0 d b = d @ drop (length d) b"
  by (simp add: put_slice_def)

lemma update_skip [field_simps]: "length a \<le> k \<Longrightarrow> (a @ b)[k := v] = a @ b[k - length a := v]"
  by (simp add: list_update_append)

lemma update_zeros [field_simps]:
  "k < n \<Longrightarrow> (replicate n x @ r)[k := v] = replicate k x @ [v] @ replicate (n - k - 1) x @ r"
  by (simp add: list_update_append upd_conv_take_nth_drop min_def)

lemma slice_take [field_simps]: "length a \<le> n \<Longrightarrow> slice 0 n (a @ b) = a @ slice 0 (n - length a) b"
  by (simp add: slice_def)

lemmas field_reads [field_simps] = slice_skip

lemma field_Cons [field_simps]:
  "0 < off \<Longrightarrow> put_slice off d (x # b) = x # put_slice (off - 1) d b"
  "0 < off \<Longrightarrow> slice off n (x # b) = slice (off - 1) n b"
  "0 < n \<Longrightarrow> slice 0 n (x # b) = x # slice 0 (n - 1) b"
  "0 < k \<Longrightarrow> (x # b)[k := v] = x # b[k - 1 := v]"
  by (cases off; cases n; cases k; simp add: put_slice_def slice_def)+

lemma slice_zeros [field_simps]: "off + n \<le> m \<Longrightarrow> slice off n (replicate m x @ r) = replicate n x"
  by (simp add: slice_def min_def)

end
