(* ===== verification/Process.thy ===== *)
theory Process
  imports Abi Bytes
begin

text \<open>
  The process table of \<open>crates/nexos-runtime/src/process.rs\<close>: processes in a slot array,
  their handle tables and working directories. A method that looks a process up with
  \<open>get_mut\<close> and changes it is \<open>with_process\<close> applied to the change. The invariant
  \<open>pt_inv\<close> says that process numbers are unique and that every process has a full handle
  table and an absolute, NUL-free working directory.
\<close>

section \<open>Processes\<close>

datatype process_state =
    PReady
  | PRunning
  | PWaiting (waiting_child: "u32 option")
  | PExited (process_status: i32)

record handle =
  handle_object :: u32
  handle_rights :: u32

record process =
  proc_id :: u32
  proc_parent :: "u32 option"
  proc_state :: process_state
  proc_address_space :: u64
  proc_entry_point :: u64
  proc_user_stack :: u64
  proc_handles :: "handle option list"
  proc_directory :: bytes
  proc_directory_length :: u8

record process_table =
  processes :: "process option list"
  pt_next_id :: u32

definition CURRENT_DIRECTORY_CAPACITY :: nat where
  "CURRENT_DIRECTORY_CAPACITY = 128"

definition current_directory :: "process \<Rightarrow> bytes" where
  "current_directory p = take (unat (proc_directory_length p)) (proc_directory p)"

definition process_handle :: "process \<Rightarrow> nat \<Rightarrow> handle option" where
  "process_handle p d = (if d < length (proc_handles p) then proc_handles p ! d else None)"

section \<open>Operations\<close>

definition pt_new :: "nat \<Rightarrow> process_table" where
  "pt_new n = \<lparr>processes = replicate n None, pt_next_id = 1\<rparr>"

definition process_slot :: "u32 \<Rightarrow> process_table \<Rightarrow> nat option" where
  "process_slot pid t = position (is_some_and (\<lambda>p. proc_id p = pid)) (processes t)"

definition pt_get :: "u32 \<Rightarrow> process_table \<Rightarrow> process option" where
  "pt_get pid t = find (\<lambda>p. proc_id p = pid) (flatten (processes t))"

definition pt_len :: "process_table \<Rightarrow> nat" where
  "pt_len t = length (flatten (processes t))"

definition new_process :: "nat \<Rightarrow> u32 \<Rightarrow> u32 option \<Rightarrow> u64 \<Rightarrow> u64 \<Rightarrow> u64 \<Rightarrow> process" where
  "new_process h pid parent space entry_pt stack =
    \<lparr>proc_id = pid, proc_parent = parent, proc_state = PReady, proc_address_space = space,
     proc_entry_point = entry_pt, proc_user_stack = stack, proc_handles = replicate h None,
     proc_directory = (replicate CURRENT_DIRECTORY_CAPACITY 0)[0 := 0x2F],
     proc_directory_length = 1\<rparr>"

definition pt_create ::
  "nat \<Rightarrow> u32 option \<Rightarrow> u64 \<Rightarrow> u64 \<Rightarrow> u64 \<Rightarrow> process_table \<Rightarrow> (error + u32) \<times> process_table"
  where
  "pt_create h parent space entry_pt stack t =
    (if entry_pt = 0 \<or> stack = 0 then (Inl E_InvalidArgument, t)
     else if is_some_and (\<lambda>pid. pt_get pid t = None) parent then (Inl E_NotFound, t)
     else case position (\<lambda>p. p = None) (processes t) of
            None \<Rightarrow> (Inl E_ProcessLimit, t)
          | Some slot \<Rightarrow>
              (let pid = pt_next_id t in
               (Inr pid,
                t\<lparr>pt_next_id := (case checked_add pid 1 of Some n \<Rightarrow> n | None \<Rightarrow> 1),
                  processes := (processes t)
                    [slot := Some (new_process h pid parent space entry_pt stack)]\<rparr>)))"

text \<open>\<open>self.get_mut(id).ok_or(Error::NotFound)?\<close>, and the change of that process.\<close>

definition with_process ::
  "u32 \<Rightarrow> (process \<Rightarrow> (error + 'a) \<times> process) \<Rightarrow> process_table \<Rightarrow> (error + 'a) \<times> process_table"
  where
  "with_process pid f t =
    (case process_slot pid t of
       None \<Rightarrow> (Inl E_NotFound, t)
     | Some i \<Rightarrow>
         (let (r, p) = f (the (processes t ! i)) in
          (r, t\<lparr>processes := (processes t)[i := Some p]\<rparr>)))"

definition set_state :: "u32 \<Rightarrow> process_state \<Rightarrow> process_table \<Rightarrow> (error + unit) \<times> process_table"
  where
  "set_state pid st = with_process pid (\<lambda>p. (Inr (), p\<lparr>proc_state := st\<rparr>))"

definition set_current_directory ::
  "u32 \<Rightarrow> bytes \<Rightarrow> process_table \<Rightarrow> (error + unit) \<times> process_table" where
  "set_current_directory pid path t =
    (if path = [] \<or> hd path \<noteq> 0x2F \<or> CURRENT_DIRECTORY_CAPACITY \<le> length path \<or> 0 \<in> set path
     then (Inl E_InvalidArgument, t)
     else with_process pid
       (\<lambda>p. let p' = p\<lparr>proc_directory :=
                        put_slice 0 path (replicate (length (proc_directory p)) 0)\<rparr> in
            if length path < 256
            then (Inr (), p'\<lparr>proc_directory_length := of_nat (length path)\<rparr>)
            else (Inl E_NameTooLong, p')) t)"

definition allocate_handle ::
  "u32 \<Rightarrow> handle \<Rightarrow> process_table \<Rightarrow> (error + nat) \<times> process_table" where
  "allocate_handle pid h = with_process pid
    (\<lambda>p. case position (\<lambda>x. x = None) (proc_handles p) of
           None \<Rightarrow> (Inl E_HandleLimit, p)
         | Some d \<Rightarrow> (Inr d, p\<lparr>proc_handles := (proc_handles p)[d := Some h]\<rparr>))"

definition close_handle ::
  "u32 \<Rightarrow> nat \<Rightarrow> process_table \<Rightarrow> (error + handle) \<times> process_table" where
  "close_handle pid d = with_process pid
    (\<lambda>p. if d < length (proc_handles p)
         then (ok_or E_BadHandle (proc_handles p ! d),
               p\<lparr>proc_handles := (proc_handles p)[d := None]\<rparr>)
         else (Inl E_BadHandle, p))"

definition process_exit :: "u32 \<Rightarrow> i32 \<Rightarrow> process_table \<Rightarrow> (error + unit) \<times> process_table" where
  "process_exit pid status = with_process pid
    (\<lambda>p. (Inr (), p\<lparr>proc_state := PExited status,
                    proc_handles := replicate (length (proc_handles p)) None\<rparr>))"

definition process_reap :: "u32 \<Rightarrow> u32 \<Rightarrow> process_table \<Rightarrow> (error + i32) \<times> process_table" where
  "process_reap parent child t =
    (case position (is_some_and (\<lambda>p. proc_id p = child \<and> proc_parent p = Some parent))
            (processes t) of
       None \<Rightarrow> (Inl E_NoChild, t)
     | Some slot \<Rightarrow>
         (case processes t ! slot of
            None \<Rightarrow> (Inl E_NoChild, t)
          | Some p \<Rightarrow>
              (case proc_state p of
                 PExited status \<Rightarrow> (Inr status, t\<lparr>processes := (processes t)[slot := None]\<rparr>)
               | _ \<Rightarrow> (Inl E_WouldBlock, t))))"

section \<open>The invariant\<close>

definition proc_ok :: "nat \<Rightarrow> process \<Rightarrow> bool" where
  "proc_ok h p \<longleftrightarrow>
    length (proc_handles p) = h \<and>
    length (proc_directory p) = CURRENT_DIRECTORY_CAPACITY \<and>
    0 < unat (proc_directory_length p) \<and>
    unat (proc_directory_length p) < CURRENT_DIRECTORY_CAPACITY \<and>
    hd (current_directory p) = 0x2F \<and> 0 \<notin> set (current_directory p)"

definition proc_ids :: "process_table \<Rightarrow> u32 option list" where
  "proc_ids t = map (map_option proc_id) (processes t)"

definition pt_inv :: "nat \<Rightarrow> process_table \<Rightarrow> bool" where
  "pt_inv h t \<longleftrightarrow>
    ids_ok (proc_ids t) (pt_next_id t) \<and>
    (\<forall>p \<in> set (flatten (processes t)). proc_ok h p)"

lemma current_directory_frame [simp]:
  "current_directory (p\<lparr>proc_state := st\<rparr>) = current_directory p"
  "current_directory (p\<lparr>proc_handles := hs\<rparr>) = current_directory p"
  by (simp_all add: current_directory_def)

lemma process_slot_Some:
  assumes "process_slot pid t = Some i"
  shows "i < length (processes t)" "\<exists>p. processes t ! i = Some p \<and> proc_id p = pid"
  using assms by (auto simp: process_slot_def is_some_and_iff dest: position_SomeD)

lemma pt_get_slot:
  "pt_get pid t = (case process_slot pid t of None \<Rightarrow> None | Some i \<Rightarrow> processes t ! i)"
  unfolding pt_get_def process_slot_def by (rule find_flatten_position)

lemma proc_ids_length [simp]: "length (proc_ids t) = length (processes t)"
  by (simp add: proc_ids_def)

lemma proc_ids_nth [simp]:
  "i < length (processes t) \<Longrightarrow> proc_ids t ! i = map_option proc_id (processes t ! i)"
  by (simp add: proc_ids_def)

lemma proc_ids_put [simp]:
  "proc_ids (t\<lparr>processes := (processes t)[i := x]\<rparr>) = (proc_ids t)[i := map_option proc_id x]"
  "proc_ids (t\<lparr>pt_next_id := n, processes := (processes t)[i := x]\<rparr>)
    = (proc_ids t)[i := map_option proc_id x]"
  "proc_ids (t\<lparr>pt_next_id := n\<rparr>) = proc_ids t"
  by (simp_all add: proc_ids_def map_update)

lemma proc_ids_update:
  "\<lbrakk>i < length (processes t); processes t ! i = Some p; proc_id p' = proc_id p\<rbrakk>
    \<Longrightarrow> proc_ids (t\<lparr>processes := (processes t)[i := Some p']\<rparr>) = proc_ids t"
  by (simp add: list_update_same_conv)

lemma pt_get_None_iff: "pt_get pid t = None \<longleftrightarrow> pid \<notin> set (flatten (proc_ids t))"
  by (auto simp: pt_get_def find_None_iff proc_ids_def flatten_map_option)

lemma with_process_cases:
  obtains
    (absent) "pt_get pid t = None" "with_process pid f t = (Inl E_NotFound, t)"
  | (present) i p where "process_slot pid t = Some i" "i < length (processes t)"
      "processes t ! i = Some p" "proc_id p = pid" "pt_get pid t = Some p"
      "with_process pid f t = (fst (f p), t\<lparr>processes := (processes t)[i := Some (snd (f p))]\<rparr>)"
proof (cases "process_slot pid t")
  case None
  then show ?thesis by (intro absent) (simp_all add: pt_get_slot with_process_def)
next
  case (Some i)
  obtain p where "i < length (processes t)" "processes t ! i = Some p" "proc_id p = pid"
    using process_slot_Some [OF Some] by blast
  with Some show ?thesis
    by (intro present [of i p]) (simp_all add: pt_get_slot with_process_def split_beta Let_def)
qed

lemma with_process_next_id [simp]: "pt_next_id (snd (with_process pid f t)) = pt_next_id t"
  by (cases rule: with_process_cases [of pid t f]) auto

lemma with_process_ids:
  "(\<And>p. proc_id (snd (f p)) = proc_id p) \<Longrightarrow> proc_ids (snd (with_process pid f t)) = proc_ids t"
  by (cases rule: with_process_cases [of pid t f]) (auto simp: list_update_same_conv)

lemma with_process_inv:
  assumes inv: "pt_inv h t"
    and f: "\<And>p. proc_ok h p \<Longrightarrow> proc_ok h (snd (f p)) \<and> proc_id (snd (f p)) = proc_id p"
  shows "pt_inv h (snd (with_process pid f t))"
proof (cases rule: with_process_cases [of pid t f])
  case absent
  with inv show ?thesis by simp
next
  case (present i p)
  have p: "proc_ok h p"
    using inv present by (auto simp: pt_inv_def intro: flatten_nth_in)
  have "proc_ids (t\<lparr>processes := (processes t)[i := Some (snd (f p))]\<rparr>) = proc_ids t"
    using present f [OF p] by (intro proc_ids_update) auto
  moreover have "set (flatten ((processes t)[i := Some (snd (f p))]))
      \<subseteq> insert (snd (f p)) (set (flatten (processes t)))"
    using present by (intro set_flatten_update_Some)
  ultimately show ?thesis
    using inv f [OF p] present by (auto simp: pt_inv_def)
qed

lemma new_process_ok: "proc_ok h (new_process h pid parent space entry_pt stack)"
proof -
  have "replicate 128 (0 :: u8) = 0 # replicate 127 0" using replicate_Suc [of 127 "0 :: u8"] by simp
  then show ?thesis
    by (simp add: proc_ok_def new_process_def current_directory_def CURRENT_DIRECTORY_CAPACITY_def)
qed

lemma pt_create_inv:
  assumes inv: "pt_inv h t" and room: "pt_next_id t \<noteq> - 1"
  shows "pt_inv h (snd (pt_create h parent space entry_pt stack t))"
proof (cases "position (\<lambda>p. p = None) (processes t)")
  case None
  with inv show ?thesis by (simp add: pt_create_def)
next
  case (Some i)
  then have i: "i < length (processes t)" "processes t ! i = None" by (auto dest: position_SomeD)
  let ?p = "new_process h (pt_next_id t) parent space entry_pt stack"
  have "ids_ok ((proc_ids t)[i := Some (pt_next_id t)]) (pt_next_id t + 1)"
    using inv i next_number(2) [OF room] by (simp add: pt_inv_def ids_ok_fill)
  moreover have "proc_id ?p = pt_next_id t" by (simp add: new_process_def)
  moreover have "set (flatten ((processes t)[i := Some ?p])) \<subseteq> insert ?p (set (flatten (processes t)))"
    using i by (intro set_flatten_update_Some)
  ultimately show ?thesis
    using inv Some new_process_ok [of h] next_number(1) [OF room]
    by (auto simp: pt_create_def pt_inv_def Let_def)
qed

lemma proc_state_inv: "pt_inv h t \<Longrightarrow> pt_inv h (snd (set_state pid st t))"
  unfolding set_state_def
  by (erule with_process_inv) (simp add: proc_ok_def)

lemma directory_ok:
  assumes "path \<noteq> []" "hd path = 0x2F" "length path < CURRENT_DIRECTORY_CAPACITY" "0 \<notin> set path"
    and "proc_ok h p"
  shows "proc_ok h (p\<lparr>proc_directory := put_slice 0 path (replicate (length (proc_directory p)) 0),
                      proc_directory_length := of_nat (length path)\<rparr>)"
proof -
  have "unat (of_nat (length path) :: u8) = length path"
    using assms(3) by (simp add: unat_of_nat take_bit_eq_mod CURRENT_DIRECTORY_CAPACITY_def)
  with assms show ?thesis
    by (simp add: proc_ok_def current_directory_def put_slice_def)
qed

lemma set_current_directory_inv:
  "pt_inv h t \<Longrightarrow> pt_inv h (snd (set_current_directory pid path t))"
proof -
  assume inv: "pt_inv h t"
  show ?thesis
  proof (cases "path = [] \<or> hd path \<noteq> 0x2F \<or> CURRENT_DIRECTORY_CAPACITY \<le> length path \<or> 0 \<in> set path")
    case True
    with inv show ?thesis by (simp add: set_current_directory_def)
  next
    case False
    then show ?thesis
      unfolding set_current_directory_def using directory_ok [of path h]
      by (simp add: Let_def)
        (rule with_process_inv [OF inv], simp add: CURRENT_DIRECTORY_CAPACITY_def)
  qed
qed

lemma allocate_handle_inv: "pt_inv h t \<Longrightarrow> pt_inv h (snd (allocate_handle pid hdl t))"
  unfolding allocate_handle_def
  by (erule with_process_inv) (simp add: proc_ok_def split: option.split)

lemma close_handle_inv: "pt_inv h t \<Longrightarrow> pt_inv h (snd (close_handle pid d t))"
  unfolding close_handle_def
  by (erule with_process_inv) (simp add: proc_ok_def)

lemma process_exit_inv: "pt_inv h t \<Longrightarrow> pt_inv h (snd (process_exit pid status t))"
  unfolding process_exit_def
  by (erule with_process_inv) (simp add: proc_ok_def)

lemma process_reap_cases:
  obtains
    (unchanged) e where "process_reap parent child t = (Inl e, t)"
  | (reaped) i p status where "i < length (processes t)" "processes t ! i = Some p"
      "proc_id p = child" "proc_parent p = Some parent" "proc_state p = PExited status"
      "process_reap parent child t = (Inr status, t\<lparr>processes := (processes t)[i := None]\<rparr>)"
proof (cases "position (is_some_and (\<lambda>p. proc_id p = child \<and> proc_parent p = Some parent))
          (processes t)")
  case None
  then show ?thesis by (intro unchanged) (simp add: process_reap_def)
next
  case (Some i)
  then obtain p where p: "i < length (processes t)" "processes t ! i = Some p" "proc_id p = child"
    "proc_parent p = Some parent"
    using position_SomeD [OF Some] by (auto simp: is_some_and_iff)
  show ?thesis
  proof (cases "proc_state p")
    case (PExited status)
    with p Some show ?thesis by (intro reaped [of i p status]) (simp_all add: process_reap_def)
  qed (use p Some in \<open>auto intro!: unchanged simp: process_reap_def\<close>)
qed

lemma process_reap_inv: "pt_inv h t \<Longrightarrow> pt_inv h (snd (process_reap parent child t))"
proof (cases rule: process_reap_cases [of parent child t])
  case (reaped i p status)
  assume "pt_inv h t"
  then show ?thesis
    using reaped set_flatten_update_None [of "processes t" i]
    by (simp add: pt_inv_def ids_ok_clear) blast
qed simp


section \<open>Sequences of operations\<close>

datatype process_op =
    PoCreate "u32 option" u64 u64 u64
  | PoSetState u32 process_state
  | PoSetDirectory u32 bytes
  | PoAllocate u32 handle
  | PoClose u32 nat
  | PoExit u32 i32
  | PoReap u32 u32

fun process_exec :: "nat \<Rightarrow> process_op \<Rightarrow> process_table \<Rightarrow> process_table" where
  "process_exec h (PoCreate parent space entry_pt stack) t =
    snd (pt_create h parent space entry_pt stack t)"
| "process_exec h (PoSetState pid st) t = snd (set_state pid st t)"
| "process_exec h (PoSetDirectory pid path) t = snd (set_current_directory pid path t)"
| "process_exec h (PoAllocate pid hdl) t = snd (allocate_handle pid hdl t)"
| "process_exec h (PoClose pid d) t = snd (close_handle pid d t)"
| "process_exec h (PoExit pid status) t = snd (process_exit pid status t)"
| "process_exec h (PoReap parent child) t = snd (process_reap parent child t)"

definition process_run :: "nat \<Rightarrow> process_op list \<Rightarrow> process_table \<Rightarrow> process_table" where
  "process_run h ops t = fold (process_exec h) ops t"

fun is_create :: "process_op \<Rightarrow> bool" where
  "is_create (PoCreate _ _ _ _) = True"
| "is_create _ = False"

lemma process_exec_inv:
  "pt_inv h t \<Longrightarrow> (is_create op \<Longrightarrow> pt_next_id t \<noteq> - 1) \<Longrightarrow> pt_inv h (process_exec h op t)"
  by (cases op) (simp_all add: pt_create_inv proc_state_inv set_current_directory_inv
      allocate_handle_inv close_handle_inv process_exit_inv process_reap_inv)

lemma process_exec_next_id:
  assumes "unat (pt_next_id t) + of_bool (is_create op) < 2 ^ 32"
  shows "unat (pt_next_id (process_exec h op t)) \<le> unat (pt_next_id t) + of_bool (is_create op)"
proof (cases op)
  case (PoCreate parent space entry_pt stack)
  then have "unat (pt_next_id t) + 1 < 2 ^ 32" using assms by simp
  then have "checked_add (pt_next_id t) 1 = Some (pt_next_id t + 1)"
    "unat (pt_next_id t + 1) = unat (pt_next_id t) + 1"
    by (simp_all add: checked_add_def unat_add_fits)
  with PoCreate show ?thesis by (simp add: pt_create_def Let_def split: option.split)
next
  case (PoReap parent child)
  then show ?thesis by (cases rule: process_reap_cases [of parent child t]) auto
qed (simp_all add: set_state_def set_current_directory_def allocate_handle_def close_handle_def
    process_exit_def)

lemma process_run_inv:
  assumes "pt_inv h t" "unat (pt_next_id t) + length (filter is_create ops) < 2 ^ 32"
  shows "pt_inv h (process_run h ops t)"
  using assms
proof (induction ops arbitrary: t)
  case Nil
  then show ?case by (simp add: process_run_def)
next
  case (Cons op ops)
  have room: "unat (pt_next_id t) + of_bool (is_create op) < 2 ^ 32"
    using Cons.prems(2) by (auto split: if_splits)
  then have "is_create op \<Longrightarrow> pt_next_id t \<noteq> - 1" using unat_max [of "pt_next_id t"] by simp
  then have "pt_inv h (process_exec h op t)" using Cons.prems(1) process_exec_inv by blast
  moreover have "unat (pt_next_id (process_exec h op t)) + length (filter is_create ops) < 2 ^ 32"
    using process_exec_next_id [OF room, of h] Cons.prems(2) by (auto split: if_splits)
  ultimately have "pt_inv h (process_run h ops (process_exec h op t))" by (rule Cons.IH)
  then show ?case by (simp add: process_run_def)
qed

section \<open>What the operations do\<close>

lemma pt_get_unique:
  assumes "pt_inv h t" "i < length (processes t)" "processes t ! i = Some p"
  shows "process_slot (proc_id p) t = Some i"
proof -
  have "process_slot (proc_id p) t \<noteq> None"
    using position_exists [OF nth_mem [OF assms(2)], of "is_some_and (\<lambda>q. proc_id q = proc_id p)"]
      assms(3) by (auto simp: process_slot_def)
  then obtain j where j: "process_slot (proc_id p) t = Some j" by blast
  obtain q where "j < length (processes t)" "processes t ! j = Some q" "proc_id q = proc_id p"
    using process_slot_Some [OF j] by blast
  then have "j = i"
    using assms ids_okD [of "proc_ids t" "pt_next_id t" j i "proc_id p"]
    by (simp add: pt_inv_def)
  with j show ?thesis by simp
qed

lemma pt_get_with_process:
  assumes "pt_get pid t = Some p" "proc_id (snd (f p)) = pid"
  shows "pt_get pid (snd (with_process pid f t)) = Some (snd (f p))"
    and "fst (with_process pid f t) = fst (f p)"
proof -
  show "fst (with_process pid f t) = fst (f p)"
    using assms(1) by (cases rule: with_process_cases [of pid t f]) auto
  show "pt_get pid (snd (with_process pid f t)) = Some (snd (f p))"
  proof (cases rule: with_process_cases [of pid t f])
    case absent
    with assms show ?thesis by simp
  next
    case (present i q)
    then have q: "q = p" using assms(1) by simp
    have "process_slot pid (snd (with_process pid f t)) = Some i"
      using present assms(2) q
      by (auto simp: process_slot_def position_Some_iff is_some_and_iff nth_list_update)
    with present q show ?thesis by (simp add: pt_get_slot)
  qed
qed


lemma pt_get_other:
  assumes "i < length (processes t)" "processes t ! i = Some p" "proc_id p \<noteq> pid"
    "\<And>q. x = Some q \<Longrightarrow> proc_id q \<noteq> pid"
  shows "pt_get pid (t\<lparr>processes := (processes t)[i := x]\<rparr>) = pt_get pid t"
proof -
  let ?P = "is_some_and (\<lambda>q. proc_id q = pid)"
  have "map ?P ((processes t)[i := x]) = map ?P (processes t)"
    using assms by (auto simp: map_update list_update_same_conv is_some_and_iff)
  then have pos: "position ?P ((processes t)[i := x]) = position ?P (processes t)"
    by (rule position_map_eq)
  have "\<not> ?P (processes t ! i)" using assms by simp
  then have "position ?P (processes t) \<noteq> Some i" using position_SomeD by metis
  with pos show ?thesis by (auto simp: pt_get_slot process_slot_def split: option.split)
qed

lemma process_reap_result:
  assumes inv: "pt_inv h t"
  shows "process_reap parent child t =
    (case pt_get child t of
       None \<Rightarrow> (Inl E_NoChild, t)
     | Some p \<Rightarrow>
         if proc_parent p \<noteq> Some parent then (Inl E_NoChild, t)
         else case proc_state p of
                PExited status \<Rightarrow>
                  (Inr status, t\<lparr>processes := (processes t)[the (process_slot child t) := None]\<rparr>)
              | _ \<Rightarrow> (Inl E_WouldBlock, t))"
proof -
  let ?P = "is_some_and (\<lambda>p. proc_id p = child \<and> proc_parent p = Some parent)"
  show ?thesis
  proof (cases "process_slot child t")
    case None
    then have "position ?P (processes t) = None"
      by (auto simp: process_slot_def position_None_iff is_some_and_iff)
    with None show ?thesis by (simp add: process_reap_def pt_get_slot)
  next
    case (Some i)
    obtain p where p: "i < length (processes t)" "processes t ! i = Some p" "proc_id p = child"
      using process_slot_Some [OF Some] by blast
    have only: "\<not> ?P (processes t ! j)" if "j < length (processes t)" "j \<noteq> i" for j
    proof
      assume "?P (processes t ! j)"
      then obtain q where "processes t ! j = Some q" "proc_id q = child" by (auto simp: is_some_and_iff)
      then show False using pt_get_unique [OF inv that(1), of q] Some that(2) by simp
    qed
    show ?thesis
    proof (cases "proc_parent p = Some parent")
      case True
      then have "position ?P (processes t) = Some i"
        using p only by (simp add: position_Some_iff)
      with True p Some show ?thesis
        by (simp add: process_reap_def pt_get_slot split: process_state.split)
    next
      case False
      then have "\<not> ?P (processes t ! j)" if "j < length (processes t)" for j
        using only [OF that] p by (cases "j = i") simp_all
      then have "position ?P (processes t) = None"
        by (auto simp: position_None_iff in_set_conv_nth)
      with False p Some show ?thesis by (simp add: process_reap_def pt_get_slot)
    qed
  qed
qed

lemma pt_get_cleared:
  assumes inv: "pt_inv h t" and "process_slot child t = Some i"
  shows "pt_get child (t\<lparr>processes := (processes t)[i := None]\<rparr>) = None"
proof -
  let ?t = "t\<lparr>processes := (processes t)[i := None]\<rparr>"
  have "\<not> is_some_and (\<lambda>p. proc_id p = child) ((processes t)[i := None] ! j)"
    if "j < length (processes t)" for j
    using that pt_get_unique [OF inv, of j] assms(2)
    by (cases "j = i") (auto simp: is_some_and_iff)
  then have "process_slot child ?t = None"
    by (auto simp: process_slot_def position_None_iff in_set_conv_nth)
  then show ?thesis by (simp add: pt_get_slot)
qed

section \<open>The properties\<close>

text \<open>C20. From an empty table, whatever sequence of operations runs, as long as it creates
  fewer than $2^{32} - 1$ processes: process numbers are unique and below \<open>next_id\<close>, every
  handle table keeps its size, and every working directory is absolute, free of NUL bytes and
  shorter than its buffer.\<close>

theorem process_run_invariant:
  assumes "length (filter is_create ops) < 2 ^ 32 - 1"
  shows "pt_inv h (process_run h ops (pt_new n))"
proof (rule process_run_inv)
  show "pt_inv h (pt_new n)"
    by (simp add: pt_inv_def ids_ok_def pt_new_def proc_ids_def)
  show "unat (pt_next_id (pt_new n)) + length (filter is_create ops) < 2 ^ 32"
    using assms by (simp add: pt_new_def)
qed

theorem process_run_invariant_witness:
  "pt_inv 4 (process_run 4 [PoCreate None 1 2 3, PoCreate (Some 1) 1 2 3,
     PoSetDirectory 2 [0x2F, 0x61], PoAllocate 2 \<lparr>handle_object = 5, handle_rights = 1\<rparr>,
     PoClose 2 0, PoExit 2 7, PoReap 1 2] (pt_new 16))"
  by (rule process_run_invariant) simp

text \<open>C30. Handles: \<open>allocate_handle\<close> takes the lowest free descriptor, the process then finds
  the handle there and every other descriptor unchanged, and closing that descriptor returns
  the handle and restores the table exactly.\<close>

theorem handle_lifecycle:
  assumes "pt_get pid t = Some p" and "allocate_handle pid hdl t = (Inr d, t')"
  shows "process_handle p d = None \<and> (\<forall>e < d. process_handle p e \<noteq> None) \<and>
    (\<exists>p'. pt_get pid t' = Some p' \<and>
       (\<forall>e. process_handle p' e = (if e = d then Some hdl else process_handle p e))) \<and>
    close_handle pid d t' = (Inr hdl, t)"
proof -
  let ?f = "\<lambda>p. case position (\<lambda>x. x = None) (proc_handles p) of
           None \<Rightarrow> (Inl E_HandleLimit, p)
         | Some d \<Rightarrow> (Inr d, p\<lparr>proc_handles := (proc_handles p)[d := Some hdl]\<rparr>)"
  have alloc: "with_process pid ?f t = (Inr d, t')" using assms(2) by (simp add: allocate_handle_def)
  obtain i where i: "process_slot pid t = Some i" "i < length (processes t)"
    "processes t ! i = Some p" "proc_id p = pid"
    "fst (?f p) = Inr d" "t' = t\<lparr>processes := (processes t)[i := Some (snd (?f p))]\<rparr>"
    using assms(1) alloc by (cases rule: with_process_cases [of pid t ?f]) auto
  then have pos: "position (\<lambda>x. x = None) (proc_handles p) = Some d" by (auto split: option.splits)
  then have d: "d < length (proc_handles p)" "proc_handles p ! d = None"
    "\<forall>e < d. proc_handles p ! e \<noteq> None"
    by (auto simp: position_Some_iff)
  let ?p = "p\<lparr>proc_handles := (proc_handles p)[d := Some hdl]\<rparr>"
  have t': "t' = t\<lparr>processes := (processes t)[i := Some ?p]\<rparr>" using i pos by simp
  have slot': "process_slot pid t' = Some i"
    using i(1-4) t' by (auto simp: process_slot_def position_Some_iff is_some_and_iff nth_list_update)
  then have get': "pt_get pid t' = Some ?p" using i(2) t' by (simp add: pt_get_slot)
  have same: "p\<lparr>proc_handles := (proc_handles p)[d := None]\<rparr> = p"
    using list_update_id [of "proc_handles p" d] d(2) by simp
  have "close_handle pid d t' = (Inr hdl, t\<lparr>processes := (processes t)[i := Some p]\<rparr>)"
    using slot' i(2) t' d(1) same by (simp add: close_handle_def with_process_def)
  also have "t\<lparr>processes := (processes t)[i := Some p]\<rparr> = t"
    using list_update_id [of "processes t" i] i(3) by simp
  finally show ?thesis
    using get' d by (auto simp: process_handle_def nth_list_update)
qed

theorem handle_lifecycle_witness:
  "close_handle 1 0 (snd (allocate_handle 1 \<lparr>handle_object = 5, handle_rights = 1\<rparr>
      \<lparr>processes = [Some (new_process 2 1 None 0 1 1)], pt_next_id = 2\<rparr>))
    = (Inr \<lparr>handle_object = 5, handle_rights = 1\<rparr>,
       \<lparr>processes = [Some (new_process 2 1 None 0 1 1)], pt_next_id = 2\<rparr>)"
proof -
  let ?t = "\<lparr>processes = [Some (new_process 2 1 None 0 1 1)], pt_next_id = 2\<rparr>"
  let ?h = "\<lparr>handle_object = 5, handle_rights = 1\<rparr>"
  have "pt_get 1 ?t = Some (new_process 2 1 None 0 1 1)"
    by (simp add: pt_get_def new_process_def)
  moreover have "allocate_handle 1 ?h ?t = (Inr 0, snd (allocate_handle 1 ?h ?t))"
    by (simp add: allocate_handle_def with_process_def process_slot_def new_process_def numeral_2_eq_2)
  ultimately show ?thesis using handle_lifecycle by blast
qed

text \<open>C24. Reaping: \<open>reap\<close> answers \<open>NoChild\<close> unless the process exists and names the caller as
  its parent, \<open>WouldBlock\<close> while it has not exited, and otherwise its exit status; it then
  frees the slot, so that the child is gone and a second \<open>reap\<close> answers \<open>NoChild\<close>. No other
  process changes.\<close>

theorem reap_once:
  assumes "pt_inv h t"
  shows "fst (process_reap parent child t) =
      (case pt_get child t of
         None \<Rightarrow> Inl E_NoChild
       | Some p \<Rightarrow>
           if proc_parent p \<noteq> Some parent then Inl E_NoChild
           else case proc_state p of PExited status \<Rightarrow> Inr status | _ \<Rightarrow> Inl E_WouldBlock) \<and>
    (\<forall>status. fst (process_reap parent child t) = Inr status \<longrightarrow>
       pt_get child (snd (process_reap parent child t)) = None \<and>
       process_reap parent child (snd (process_reap parent child t))
         = (Inl E_NoChild, snd (process_reap parent child t))) \<and>
    (\<forall>pid. pid \<noteq> child \<longrightarrow> pt_get pid (snd (process_reap parent child t)) = pt_get pid t)"
proof (intro conjI)
  show "fst (process_reap parent child t) =
      (case pt_get child t of
         None \<Rightarrow> Inl E_NoChild
       | Some p \<Rightarrow>
           if proc_parent p \<noteq> Some parent then Inl E_NoChild
           else case proc_state p of PExited status \<Rightarrow> Inr status | _ \<Rightarrow> Inl E_WouldBlock)"
    by (simp add: process_reap_result [OF assms] split: option.split process_state.split)
  have inv': "pt_inv h (snd (process_reap parent child t))"
    by (rule process_reap_inv [OF assms])
  show "\<forall>status. fst (process_reap parent child t) = Inr status \<longrightarrow>
       pt_get child (snd (process_reap parent child t)) = None \<and>
       process_reap parent child (snd (process_reap parent child t))
         = (Inl E_NoChild, snd (process_reap parent child t))"
  proof (intro allI impI)
    fix status assume r: "fst (process_reap parent child t) = Inr status"
    have "pt_get child (snd (process_reap parent child t)) = None"
    proof (cases rule: process_reap_cases [of parent child t])
      case (unchanged e)
      with r show ?thesis by simp
    next
      case (reaped i p st)
      then have "process_slot child t = Some i" using pt_get_unique [OF assms, of i p] by simp
      with reaped pt_get_cleared [OF assms] show ?thesis by simp
    qed
    with process_reap_result [OF inv'] show
      "pt_get child (snd (process_reap parent child t)) = None \<and>
       process_reap parent child (snd (process_reap parent child t))
         = (Inl E_NoChild, snd (process_reap parent child t))" by simp
  qed
  show "\<forall>pid. pid \<noteq> child \<longrightarrow> pt_get pid (snd (process_reap parent child t)) = pt_get pid t"
  proof (cases rule: process_reap_cases [of parent child t])
    case (reaped i p st)
    then show ?thesis using pt_get_other [of i t p _ None] by auto
  qed simp
qed

theorem reap_once_witness:
  "fst (process_reap 1 2 \<lparr>processes = [None, Some ((new_process 0 2 (Some 1) 0 1 1)
     \<lparr>proc_state := PExited 7\<rparr>)], pt_next_id = 3\<rparr>) = Inr 7"
proof -
  let ?p = "(new_process 0 2 (Some 1) 0 1 1)\<lparr>proc_state := PExited 7\<rparr>"
  let ?t = "\<lparr>processes = [None, Some ?p], pt_next_id = 3\<rparr>"
  have "proc_ok 0 ?p" using new_process_ok [of 0 2 "Some 1" 0 1 1] by (simp add: proc_ok_def)
  moreover have "proc_id ?p = 2" by (simp add: new_process_def)
  ultimately have "pt_inv 0 ?t" by (simp add: pt_inv_def ids_ok_def proc_ids_def)
  from reap_once [OF this, of 1 2] show ?thesis by (simp add: pt_get_def new_process_def)
qed

end
