(* ===== verification/Runtime.thy ===== *)
theory Runtime
  imports Scheduler Process
begin

text \<open>
  \<open>kernel/src/runtime.rs\<close>: the kernel's process table (16 processes of 16 handles) and
  scheduler (32 tasks, a quantum of 5) behind an initialisation flag. Every entry point runs
  with interrupts masked on the only processor, so that each is one step on the record
  \<open>runtime\<close>. The invariant \<open>rt_inv\<close> joins the invariants of the two tables and says that
  every task belongs to a process of the table.
\<close>

section \<open>State and entry points\<close>

record runtime =
  rt_processes :: process_table
  rt_scheduler :: scheduler
  rt_initialized :: bool
  rt_decisions :: u64

record user_process =
  up_process :: u32
  up_task :: u32

definition MAX_PROCESSES :: nat where "MAX_PROCESSES = 16"
definition MAX_HANDLES :: nat where "MAX_HANDLES = 16"
definition MAX_TASKS :: nat where "MAX_TASKS = 32"
definition QUANTUM_TICKS :: u32 where "QUANTUM_TICKS = 5"

definition runtime_static :: runtime where
  "runtime_static =
    \<lparr>rt_processes = pt_new MAX_PROCESSES, rt_scheduler = with_quantum MAX_TASKS QUANTUM_TICKS,
     rt_initialized = False, rt_decisions = 0\<rparr>"

definition entry_context :: "u64 \<Rightarrow> u64 \<Rightarrow> u64 \<Rightarrow> cpu_context" where
  "entry_context space entry_pt stack =
    default_context\<lparr>instruction_pointer := entry_pt, stack_pointer := stack,
                    address_space := space, flags := 0x202\<rparr>"

definition runtime_init :: "u64 \<Rightarrow> u64 \<Rightarrow> u64 \<Rightarrow> runtime \<Rightarrow> bool \<times> runtime" where
  "runtime_init space kernel_entry kernel_stack r =
    (if rt_initialized r then (True, r)
     else
       (case pt_create MAX_HANDLES None space kernel_entry kernel_stack (rt_processes r) of
          (Inl e, ps) \<Rightarrow> (False, r\<lparr>rt_processes := ps\<rparr>)
        | (Inr pid, ps) \<Rightarrow>
            (let ps' = snd (set_state pid PRunning ps);
                 (spawned, sched) =
                   spawn pid (entry_context space kernel_entry kernel_stack) (rt_scheduler r)
             in if isl spawned then (False, r\<lparr>rt_processes := ps', rt_scheduler := sched\<rparr>)
                else (True, r\<lparr>rt_processes := ps', rt_scheduler := snd (schedule 0 sched),
                              rt_initialized := True\<rparr>))))"

definition on_timer_tick :: "u64 \<Rightarrow> runtime \<Rightarrow> runtime" where
  "on_timer_tick now r =
    (if \<not> rt_initialized r then r
     else
       (let before = context_switches (rt_scheduler r);
            sched = snd (tick now (rt_scheduler r));
            r' = r\<lparr>rt_scheduler := sched\<rparr>
        in if context_switches sched \<noteq> before
           then r'\<lparr>rt_decisions := rt_decisions r' + 1\<rparr> else r'))"

text \<open>\<open>with_runtime\<close>: nothing happens before initialisation.\<close>

definition with_runtime ::
  "(process_table \<Rightarrow> scheduler \<Rightarrow> 'a \<times> process_table \<times> scheduler) \<Rightarrow> runtime \<Rightarrow> 'a option \<times> runtime"
  where
  "with_runtime operation r =
    (if \<not> rt_initialized r then (None, r)
     else
       (let (x, ps, sched) = operation (rt_processes r) (rt_scheduler r) in
        (Some x, r\<lparr>rt_processes := ps, rt_scheduler := sched\<rparr>)))"

definition create_user_process ::
  "u64 \<Rightarrow> u64 \<Rightarrow> u64 \<Rightarrow> runtime \<Rightarrow> user_process option \<times> runtime" where
  "create_user_process space entry_pt stack r =
    (let (x, r') = with_runtime
       (\<lambda>ps sched.
          case pt_create MAX_HANDLES None space entry_pt stack ps of
            (Inl e, ps') \<Rightarrow> (None, ps', sched)
          | (Inr pid, ps') \<Rightarrow>
              (case spawn pid (entry_context space entry_pt stack) sched of
                 (Inl e, sched') \<Rightarrow> (None, ps', sched')
               | (Inr tid, sched') \<Rightarrow> (Some \<lparr>up_process = pid, up_task = tid\<rparr>, ps', sched'))) r
     in (Option.bind x (\<lambda>y. y), r'))"

definition finish_user_process :: "user_process \<Rightarrow> i32 \<Rightarrow> runtime \<Rightarrow> bool \<times> runtime" where
  "finish_user_process up status r =
    (let (x, r') = with_runtime
       (\<lambda>ps sched.
          let (done1, ps') = process_exit (up_process up) status ps in
          if isl done1 then (False, ps', sched)
          else let (done2, sched') = exit_task (up_task up) status sched in
               (\<not> isl done2, ps', sched')) r
     in (case x of None \<Rightarrow> False | Some b \<Rightarrow> b, r'))"

definition process_count :: "runtime \<Rightarrow> nat" where
  "process_count r =
    (case fst (with_runtime (\<lambda>ps sched. (pt_len ps, ps, sched)) r) of None \<Rightarrow> 0 | Some n \<Rightarrow> n)"

record process_snapshot =
  ps_id :: u32
  ps_parent :: "u32 option"
  ps_state :: process_state
  ps_entry_point :: u64

definition process_snapshot_at :: "nat \<Rightarrow> runtime \<Rightarrow> process_snapshot option" where
  "process_snapshot_at index r =
    Option.bind
      (fst (with_runtime
        (\<lambda>ps sched.
           let live = flatten (processes ps) in
           (if index < length live
            then Some \<lparr>ps_id = proc_id (live ! index), ps_parent = proc_parent (live ! index),
                       ps_state = proc_state (live ! index),
                       ps_entry_point = proc_entry_point (live ! index)\<rparr>
            else None, ps, sched)) r)) (\<lambda>y. y)"

record scheduler_snapshot =
  ss_tasks :: nat
  ss_current :: "u32 option"
  ss_context_switches :: u64
  ss_timer_decisions :: u64

definition scheduler_snapshot_of :: "runtime \<Rightarrow> scheduler_snapshot" where
  "scheduler_snapshot_of r =
    (case fst (with_runtime
        (\<lambda>ps sched.
           (\<lparr>ss_tasks = task_count sched, ss_current = map_option task_id (current_task sched),
             ss_context_switches = context_switches sched,
             ss_timer_decisions = rt_decisions r\<rparr>, ps, sched)) r) of
       None \<Rightarrow> \<lparr>ss_tasks = 0, ss_current = None, ss_context_switches = 0, ss_timer_decisions = 0\<rparr>
     | Some x \<Rightarrow> x)"

section \<open>Sequences of entry points\<close>

datatype runtime_op =
    RtTick u64
  | RtCreate u64 u64 u64
  | RtFinish user_process i32

fun runtime_exec :: "runtime_op \<Rightarrow> runtime \<Rightarrow> runtime" where
  "runtime_exec (RtTick now) r = on_timer_tick now r"
| "runtime_exec (RtCreate space entry_pt stack) r = snd (create_user_process space entry_pt stack r)"
| "runtime_exec (RtFinish up status) r = snd (finish_user_process up status r)"

definition runtime_run :: "runtime_op list \<Rightarrow> runtime \<Rightarrow> runtime" where
  "runtime_run ops r = fold runtime_exec ops r"

fun is_rt_create :: "runtime_op \<Rightarrow> bool" where
  "is_rt_create (RtCreate _ _ _) = True"
| "is_rt_create _ = False"

section \<open>The processes of the tasks\<close>

lemma position_fresh [simp]: "0 < n \<Longrightarrow> position (\<lambda>x. x = None) (replicate n None) = Some 0"
  by (cases n) simp_all

definition slot_procs :: "scheduler \<Rightarrow> u32 option list" where
  "slot_procs s = map (map_option task_process) (tasks s)"

lemma wake_if_due_process [simp]: "task_process (wake_if_due now t) = task_process t"
  by (simp add: wake_if_due_def split: task_state.split)

lemma slot_procs_update:
  "tasks s ! i = Some t \<Longrightarrow> task_process t' = task_process t \<Longrightarrow>
    map (map_option task_process) ((tasks s)[i := Some t']) = slot_procs s"
  by (cases "i < length (tasks s)")
    (auto simp: slot_procs_def map_update list_update_same_conv list_update_beyond)

lemma slot_procs_frame [simp]:
  "slot_procs (wake_sleepers now s) = slot_procs s"
  "slot_procs (demote_current s) = slot_procs s"
proof -
  show "slot_procs (wake_sleepers now s) = slot_procs s"
    by (simp add: slot_procs_def wake_sleepers_def option.map_comp comp_def)
  show "slot_procs (demote_current s) = slot_procs s"
    using slot_procs_update [of s] unfolding slot_procs_def
    by (simp add: demote_current_def split: option.split)
qed

lemma slot_procs_schedule [simp]: "slot_procs (snd (schedule now s)) = slot_procs s"
proof -
  let ?s = "demote_current (wake_sleepers now s)"
  have s: "slot_procs ?s = slot_procs s" by simp
  show ?thesis
  proof (cases "find_ready_from ?s (next_start ?s)")
    case None
    then show ?thesis using s by (simp add: schedule_def Let_def slot_procs_def)
  next
    case (Some i)
    then obtain t where t: "tasks ?s ! i = Some t"
      using find_ready_from_Some [OF Some] slot_ready_Some by blast
    have "map (map_option task_process) ((tasks ?s)[i := Some (t\<lparr>task_state := Running\<rparr>)]) = slot_procs s"
      using slot_procs_update [OF t, of "t\<lparr>task_state := Running\<rparr>"] s by simp
    with Some t show ?thesis by (simp add: schedule_def Let_def) (simp add: slot_procs_def)
  qed
qed

lemma slot_procs_fields [simp]:
  "slot_procs (s\<lparr>current := c\<rparr>) = slot_procs s"
  "slot_procs (s\<lparr>remaining_ticks := k\<rparr>) = slot_procs s"
  by (simp_all add: slot_procs_def)

lemma slot_procs_tick [simp]: "slot_procs (snd (tick now s)) = slot_procs s"
  by (simp add: tick_def Let_def split: option.split)

lemma slot_procs_exit_task [simp]: "slot_procs (snd (exit_task tid status s)) = slot_procs s"
proof (cases "position (is_some_and (\<lambda>t. task_id t = tid)) (tasks s)")
  case None
  then show ?thesis by (simp add: exit_task_def)
next
  case (Some i)
  then obtain t where t: "tasks s ! i = Some t"
    using position_SomeD [OF Some] by (auto simp: is_some_and_iff)
  have "map (map_option task_process) ((tasks s)[i := Some (t\<lparr>task_state := Exited status\<rparr>)])
      = slot_procs s"
    using slot_procs_update [OF t] by simp
  with Some t show ?thesis by (simp add: exit_task_def Let_def) (simp add: slot_procs_def)
qed


lemma slot_procs_spawn:
  "set (flatten (slot_procs (snd (spawn pid ctx s)))) \<subseteq> insert pid (set (flatten (slot_procs s)))"
proof (cases "position (\<lambda>t. t = None) (tasks s)")
  case None
  then show ?thesis by (auto simp: spawn_def)
next
  case (Some i)
  then have "i < length (slot_procs s)" by (auto simp: slot_procs_def dest: position_SomeD)
  with Some set_flatten_update_Some [of i "slot_procs s" pid] show ?thesis
    by (simp add: spawn_def slot_procs_def map_update Let_def)
qed

lemma tasks_length_frame [simp]:
  "length (tasks (snd (spawn pid ctx s))) = length (tasks s)"
  "length (tasks (snd (exit_task tid status s))) = length (tasks s)"
  by (simp_all add: spawn_def exit_task_def Let_def split: option.split)

lemma slot_procs_length: "slot_procs s' = slot_procs s \<Longrightarrow> length (tasks s') = length (tasks s)"
  unfolding slot_procs_def by (drule arg_cong [of _ _ length]) simp

lemma tasks_length_schedule [simp]: "length (tasks (snd (schedule now s))) = length (tasks s)"
  by (rule slot_procs_length) simp

section \<open>The processes of the table\<close>

lemma proc_ids_frame [simp]:
  "proc_ids (snd (process_exit pid status t)) = proc_ids t"
  "proc_ids (snd (set_state pid st t)) = proc_ids t"
  by (simp_all add: process_exit_def set_state_def with_process_ids)

lemma pt_create_ids:
  "proc_ids (snd (pt_create h parent space entry_pt stack t)) =
    (case fst (pt_create h parent space entry_pt stack t) of
       Inl e \<Rightarrow> proc_ids t
     | Inr pid \<Rightarrow> (proc_ids t)[the (position (\<lambda>p. p = None) (processes t)) := Some pid])"
  by (simp add: pt_create_def Let_def new_process_def split: option.split)

lemma pt_create_slot:
  "fst (pt_create h parent space entry_pt stack t) = Inr pid \<Longrightarrow>
    \<exists>i < length (processes t). position (\<lambda>p. p = None) (processes t) = Some i \<and> processes t ! i = None"
  by (auto simp: pt_create_def split: option.splits if_splits dest: position_SomeD)

lemma set_flatten_fill:
  "i < length xs \<Longrightarrow> xs ! i = None \<Longrightarrow> set (flatten (xs[i := Some x])) = insert x (set (flatten xs))"
  by (induction xs arbitrary: i) (auto split: nat.splits option.splits simp: flatten_Cons)

lemma pt_create_known:
  assumes "fst (pt_create h parent space entry_pt stack t) = Inr pid"
  shows "set (flatten (proc_ids (snd (pt_create h parent space entry_pt stack t))))
          = insert pid (set (flatten (proc_ids t)))"
proof -
  obtain i where "i < length (processes t)" "position (\<lambda>p. p = None) (processes t) = Some i"
    "processes t ! i = None"
    using pt_create_slot [OF assms] by blast
  with assms show ?thesis by (simp add: pt_create_ids set_flatten_fill)
qed

lemma processes_length [simp]:
  "length (processes (snd (process_exit pid status t))) = length (processes t)"
  "length (processes (snd (set_state pid st t))) = length (processes t)"
  "length (processes (snd (pt_create h parent space entry_pt stack t))) = length (processes t)"
proof -
  show "length (processes (snd (process_exit pid status t))) = length (processes t)"
    "length (processes (snd (set_state pid st t))) = length (processes t)"
    by (simp_all flip: proc_ids_length)
  show "length (processes (snd (pt_create h parent space entry_pt stack t))) = length (processes t)"
    by (simp add: pt_create_def Let_def split: option.split)
qed


section \<open>The invariant\<close>

definition rt_inv :: "runtime \<Rightarrow> bool" where
  "rt_inv r \<longleftrightarrow>
    pt_inv MAX_HANDLES (rt_processes r) \<and> sched_inv (rt_scheduler r) \<and>
    length (processes (rt_processes r)) = MAX_PROCESSES \<and>
    length (tasks (rt_scheduler r)) = MAX_TASKS \<and>
    set (flatten (slot_procs (rt_scheduler r))) \<subseteq> set (flatten (proc_ids (rt_processes r)))"

lemma rt_inv_scheduler:
  assumes "rt_inv r" "sched_inv s" "slot_procs s = slot_procs (rt_scheduler r)"
  shows "rt_inv (r\<lparr>rt_scheduler := s\<rparr>)"
  using assms slot_procs_length [OF assms(3)] by (simp add: rt_inv_def)

lemma on_timer_tick_inv:
  assumes "rt_inv r"
  shows "rt_inv (on_timer_tick now r)"
proof -
  have "rt_inv (r\<lparr>rt_scheduler := snd (tick now (rt_scheduler r))\<rparr>)"
    using assms by (intro rt_inv_scheduler) (simp_all add: rt_inv_def tick_inv)
  then show ?thesis using assms by (simp add: on_timer_tick_def Let_def rt_inv_def)
qed

lemma create_step:
  assumes inv: "rt_inv r"
    and room: "pt_next_id (rt_processes r) \<noteq> - 1" "next_id (rt_scheduler r) \<noteq> - 1"
    and new: "pt_create MAX_HANDLES None space entry_pt stack (rt_processes r) = (Inr pid, ps)"
  shows "rt_inv (r\<lparr>rt_processes := ps, rt_scheduler := snd (spawn pid ctx (rt_scheduler r))\<rparr>)"
proof -
  have ps: "ps = snd (pt_create MAX_HANDLES None space entry_pt stack (rt_processes r))"
    and pid: "fst (pt_create MAX_HANDLES None space entry_pt stack (rt_processes r)) = Inr pid"
    using new by simp_all
  have "pt_inv MAX_HANDLES ps" unfolding ps using inv room by (intro pt_create_inv) (simp_all add: rt_inv_def)
  moreover have "sched_inv (snd (spawn pid ctx (rt_scheduler r)))"
    using inv room by (intro spawn_inv) (simp_all add: rt_inv_def)
  moreover have "set (flatten (slot_procs (snd (spawn pid ctx (rt_scheduler r)))))
      \<subseteq> set (flatten (proc_ids ps))"
    using slot_procs_spawn [of pid ctx "rt_scheduler r"] pt_create_known [OF pid] inv
    by (auto simp: ps rt_inv_def)
  ultimately show ?thesis using inv by (simp add: rt_inv_def ps)
qed

lemma create_cases:
  obtains
    (off) "\<not> rt_initialized r" "create_user_process space entry_pt stack r = (None, r)"
  | (no_process) e where "create_user_process space entry_pt stack r = (None, r)"
      "pt_create MAX_HANDLES None space entry_pt stack (rt_processes r) = (Inl e, rt_processes r)"
  | (process) pid ps where
      "pt_create MAX_HANDLES None space entry_pt stack (rt_processes r) = (Inr pid, ps)"
      "snd (create_user_process space entry_pt stack r) = r\<lparr>rt_processes := ps,
         rt_scheduler := snd (spawn pid (entry_context space entry_pt stack) (rt_scheduler r))\<rparr>"
proof (cases "rt_initialized r")
  case False
  then show ?thesis by (intro off) (simp_all add: create_user_process_def with_runtime_def)
next
  case True
  have keep: "ps = rt_processes r"
    if "pt_create MAX_HANDLES None space entry_pt stack (rt_processes r) = (Inl e, ps)" for e ps
    using that by (auto simp: pt_create_def Let_def split: if_splits option.splits)
  show ?thesis
  proof (cases "pt_create MAX_HANDLES None space entry_pt stack (rt_processes r)")
    case (Pair x ps)
    show ?thesis
    proof (cases x)
      case (Inl e)
      with True Pair keep show ?thesis
        by (intro no_process [of e]) (simp_all add: create_user_process_def with_runtime_def)
    next
      case (Inr pid)
      with True Pair show ?thesis
        by (intro process [of pid ps])
          (simp_all add: create_user_process_def with_runtime_def split: prod.split sum.split)
    qed
  qed
qed

lemma create_user_process_inv:
  assumes inv: "rt_inv r"
    and room: "pt_next_id (rt_processes r) \<noteq> - 1" "next_id (rt_scheduler r) \<noteq> - 1"
  shows "rt_inv (snd (create_user_process space entry_pt stack r))"
  using assms create_step [OF inv room]
  by (cases rule: create_cases [of r space entry_pt stack]) auto

lemma finish_shape:
  "snd (finish_user_process up status r) =
    (if \<not> rt_initialized r then r
     else r\<lparr>rt_processes := snd (process_exit (up_process up) status (rt_processes r)),
            rt_scheduler :=
              (if isl (fst (process_exit (up_process up) status (rt_processes r)))
               then rt_scheduler r else snd (exit_task (up_task up) status (rt_scheduler r)))\<rparr>)"
  by (simp add: finish_user_process_def with_runtime_def Let_def split: prod.split)

lemma finish_user_process_inv:
  "rt_inv r \<Longrightarrow> rt_inv (snd (finish_user_process up status r))"
  by (simp add: finish_shape rt_inv_def process_exit_inv exit_task_inv)


text \<open>Both tables hand out at most one number per \<open>create_user_process\<close>.\<close>

definition rt_numbers :: "runtime \<Rightarrow> nat" where
  "rt_numbers r = max (unat (pt_next_id (rt_processes r))) (unat (next_id (rt_scheduler r)))"

lemma rt_numbers_room:
  assumes "rt_numbers r + 1 < 2 ^ 32"
  shows "pt_next_id (rt_processes r) \<noteq> - 1" "next_id (rt_scheduler r) \<noteq> - 1"
  using assms by (auto intro!: unat_max simp: rt_numbers_def)

lemma pt_create_next_id:
  "unat (pt_next_id t) + 1 < 2 ^ 32 \<Longrightarrow>
    unat (pt_next_id (snd (pt_create h parent space entry_pt stack t))) \<le> unat (pt_next_id t) + 1"
  using process_exec_next_id [of t "PoCreate parent space entry_pt stack" h] by simp

lemma runtime_exec_numbers:
  assumes "rt_numbers r + of_bool (is_rt_create op) < 2 ^ 32"
  shows "rt_numbers (runtime_exec op r) \<le> rt_numbers r + of_bool (is_rt_create op)"
proof (cases op)
  case (RtTick now)
  then show ?thesis by (simp add: on_timer_tick_def Let_def rt_numbers_def)
next
  case (RtFinish up status)
  then show ?thesis by (simp add: finish_shape rt_numbers_def process_exit_def)
next
  case (RtCreate space entry_pt stack)
  then have room: "unat (pt_next_id (rt_processes r)) + 1 < 2 ^ 32"
    "unat (next_id (rt_scheduler r)) + 1 < 2 ^ 32"
    using assms by (simp_all add: rt_numbers_def)
  show ?thesis
  proof (cases rule: create_cases [of r space entry_pt stack])
    case (process pid ps)
    then have "unat (pt_next_id ps) \<le> unat (pt_next_id (rt_processes r)) + 1"
      using pt_create_next_id [OF room(1), of MAX_HANDLES None space entry_pt stack] by simp
    moreover have "unat (next_id (snd (spawn pid (entry_context space entry_pt stack) (rt_scheduler r))))
        \<le> unat (next_id (rt_scheduler r)) + 1" by (rule spawn_next_id [OF room(2)])
    ultimately have "rt_numbers (snd (create_user_process space entry_pt stack r)) \<le> rt_numbers r + 1"
      unfolding rt_numbers_def process(2) by (simp add: max_def)
    with RtCreate show ?thesis by simp
  qed (use RtCreate in simp_all)
qed

lemma runtime_exec_inv:
  assumes "rt_inv r" "rt_numbers r + of_bool (is_rt_create op) < 2 ^ 32"
  shows "rt_inv (runtime_exec op r)"
  using assms create_user_process_inv rt_numbers_room on_timer_tick_inv finish_user_process_inv
  by (cases op) auto

lemma runtime_run_inv:
  assumes "rt_inv r" "rt_numbers r + length (filter is_rt_create ops) < 2 ^ 32"
  shows "rt_inv (runtime_run ops r)"
  using assms
proof (induction ops arbitrary: r)
  case Nil
  then show ?case by (simp add: runtime_run_def)
next
  case (Cons op ops)
  have room: "rt_numbers r + of_bool (is_rt_create op) < 2 ^ 32"
    using Cons.prems(2) by (auto split: if_splits)
  have "rt_inv (runtime_exec op r)" using runtime_exec_inv [OF Cons.prems(1) room] .
  moreover have "rt_numbers (runtime_exec op r) + length (filter is_rt_create ops) < 2 ^ 32"
    using runtime_exec_numbers [OF room] Cons.prems(2) by (auto split: if_splits)
  ultimately have "rt_inv (runtime_run ops (runtime_exec op r))" by (rule Cons.IH)
  then show ?case by (simp add: runtime_run_def)
qed

lemma rt_static_inv: "rt_inv runtime_static"
  using process_run_inv [of MAX_HANDLES "pt_new MAX_PROCESSES" "[]"] sched_inv_with_quantum
  by (simp add: rt_inv_def runtime_static_def with_quantum_def slot_procs_def pt_inv_def ids_ok_def
      pt_new_def proc_ids_def)

lemma runtime_init_inv:
  assumes "kernel_entry \<noteq> 0" "kernel_stack \<noteq> 0"
  shows "fst (runtime_init space kernel_entry kernel_stack runtime_static)"
    "rt_inv (snd (runtime_init space kernel_entry kernel_stack runtime_static))"
    "rt_numbers (snd (runtime_init space kernel_entry kernel_stack runtime_static)) = 2"
proof -
  let ?r = runtime_static and ?ctx = "entry_context space kernel_entry kernel_stack"
  obtain ps where create:
    "pt_create MAX_HANDLES None space kernel_entry kernel_stack (rt_processes ?r) = (Inr 1, ps)"
    "pt_next_id ps = 2"
    using assms
    by (simp add: pt_create_def runtime_static_def pt_new_def MAX_PROCESSES_def checked_add_def Let_def)
  obtain s where spawned: "spawn 1 ?ctx (rt_scheduler ?r) = (Inr 1, s)" "next_id s = 2"
    by (simp add: spawn_def runtime_static_def with_quantum_def MAX_TASKS_def checked_add_def Let_def)
  have "rt_inv (?r\<lparr>rt_processes := ps, rt_scheduler := snd (spawn 1 ?ctx (rt_scheduler ?r))\<rparr>)"
    by (rule create_step [OF rt_static_inv _ _ create(1)])
      (simp_all add: runtime_static_def pt_new_def with_quantum_def)
  then have inv: "rt_inv (?r\<lparr>rt_processes := snd (set_state 1 PRunning ps),
      rt_scheduler := snd (schedule 0 s), rt_initialized := True\<rparr>)"
    unfolding spawned(1) by (simp add: rt_inv_def proc_state_inv schedule_inv)
  have "\<not> rt_initialized ?r" by (simp add: runtime_static_def)
  with create spawned have init: "runtime_init space kernel_entry kernel_stack ?r = (True,
      ?r\<lparr>rt_processes := snd (set_state 1 PRunning ps), rt_scheduler := snd (schedule 0 s),
         rt_initialized := True\<rparr>)"
    by (simp add: runtime_init_def)
  show "fst (runtime_init space kernel_entry kernel_stack ?r)"
    "rt_inv (snd (runtime_init space kernel_entry kernel_stack ?r))"
    using inv by (simp_all add: init)
  show "rt_numbers (snd (runtime_init space kernel_entry kernel_stack ?r)) = 2"
    using create(2) spawned(2) by (simp add: init rt_numbers_def set_state_def)
qed

text \<open>No entry point frees a process slot.\<close>

lemma runtime_exec_len:
  "pt_len (rt_processes r) \<le> pt_len (rt_processes (runtime_exec op r))"
proof -
  have len: "pt_len t = length (flatten (proc_ids t))" for t
    by (simp add: pt_len_def proc_ids_def flatten_map_option)
  show ?thesis
  proof (cases op)
    case (RtTick now)
    then show ?thesis by (simp add: on_timer_tick_def Let_def)
  next
    case (RtFinish up status)
    then show ?thesis by (simp add: finish_shape len)
  next
    case (RtCreate space entry_pt stack)
    show ?thesis
    proof (cases rule: create_cases [of r space entry_pt stack])
      case (process pid ps)
      then obtain i where "i < length (processes (rt_processes r))" "processes (rt_processes r) ! i = None"
        "position (\<lambda>p. p = None) (processes (rt_processes r)) = Some i"
        using pt_create_slot [of MAX_HANDLES None space entry_pt stack "rt_processes r" pid] by auto
      then have "length (flatten (proc_ids ps)) = Suc (length (flatten (proc_ids (rt_processes r))))"
        using pt_create_ids [of MAX_HANDLES None space entry_pt stack "rt_processes r"] process(1)
        by (simp add: length_flatten_fill)
      with RtCreate process show ?thesis by (simp add: len)
    qed (use RtCreate in simp_all)
  qed
qed

lemma runtime_run_len: "pt_len (rt_processes r) \<le> pt_len (rt_processes (runtime_run ops r))"
proof (induction ops arbitrary: r)
  case Nil
  then show ?case by (simp add: runtime_run_def)
next
  case (Cons op ops)
  show ?case
    using order_trans [OF runtime_exec_len [of r op] Cons.IH [of "runtime_exec op r"]]
    by (simp add: runtime_run_def)
qed

lemma full_table:
  assumes "pt_len t = length (processes t)"
  shows "position (\<lambda>p. p = None) (processes t) = None"
proof (rule ccontr)
  assume "position (\<lambda>p. p = None) (processes t) \<noteq> None"
  then obtain i where "i < length (processes t)" "processes t ! i = None"
    by (auto dest: position_SomeD)
  then have "length (flatten ((processes t)[i := Some undefined])) = Suc (pt_len t)"
    by (simp add: length_flatten_fill pt_len_def)
  with assms length_flatten_le [of "(processes t)[i := Some undefined]"] show False by simp
qed

lemma runtime_exec_processes_length [simp]:
  "length (processes (rt_processes (runtime_exec op r))) = length (processes (rt_processes r))"
proof (cases op)
  case (RtCreate space entry_pt stack)
  show ?thesis
  proof (cases rule: create_cases [of r space entry_pt stack])
    case (process pid ps)
    then have "ps = snd (pt_create MAX_HANDLES None space entry_pt stack (rt_processes r))" by simp
    with RtCreate process show ?thesis by simp
  qed (use RtCreate in simp_all)
qed (simp_all add: on_timer_tick_def finish_shape Let_def)

lemma runtime_run_processes_length [simp]:
  "length (processes (rt_processes (runtime_run ops r))) = length (processes (rt_processes r))"
  by (induction ops arbitrary: r) (simp_all add: runtime_run_def)

section \<open>The properties\<close>

text \<open>C22. The kernel's tables stay consistent: after \<open>init\<close> and any sequence of timer ticks,
  process creations and process completions (with fewer than $2^{32} - 2$ creations), both
  tables have their size and their invariant, and every task belongs to a process of the
  process table.\<close>

theorem runtime_invariant:
  assumes "kernel_entry \<noteq> 0" and "kernel_stack \<noteq> 0"
    and "length (filter is_rt_create ops) < 2 ^ 32 - 2"
  shows "rt_inv (runtime_run ops (snd (runtime_init space kernel_entry kernel_stack runtime_static)))"
  using runtime_init_inv(2,3) [OF assms(1,2), of space] assms(3)
  by (intro runtime_run_inv) simp_all

theorem runtime_invariant_witness:
  "rt_inv (runtime_run [RtTick 1, RtCreate 7 8 9, RtTick 2,
      RtFinish \<lparr>up_process = 2, up_task = 2\<rparr> 0] (snd (runtime_init 1 2 3 runtime_static)))"
  by (rule runtime_invariant) simp_all

text \<open>C31. Process slots are never reclaimed: no entry point of the kernel lowers the number
  of occupied slots, and once all are occupied, however many of these processes have finished,
  every later \<open>create_user_process\<close> fails.\<close>

theorem process_slots_never_reclaimed:
  "pt_len (rt_processes r) \<le> pt_len (rt_processes (runtime_run ops r)) \<and>
   (pt_len (rt_processes r) = length (processes (rt_processes r)) \<longrightarrow>
      fst (create_user_process space entry_pt stack (runtime_run ops r)) = None)"
proof (intro conjI impI)
  show mono: "pt_len (rt_processes r) \<le> pt_len (rt_processes (runtime_run ops r))"
    by (rule runtime_run_len)
  assume "pt_len (rt_processes r) = length (processes (rt_processes r))"
  then have "pt_len (rt_processes (runtime_run ops r)) = length (processes (rt_processes (runtime_run ops r)))"
    using mono length_flatten_le [of "processes (rt_processes (runtime_run ops r))"]
    by (simp add: pt_len_def)
  from full_table [OF this] show "fst (create_user_process space entry_pt stack (runtime_run ops r)) = None"
    by (simp add: create_user_process_def with_runtime_def pt_create_def)
qed

theorem process_slots_never_reclaimed_witness:
  "fst (create_user_process 1 2 3 (runtime_run [RtFinish \<lparr>up_process = 1, up_task = 1\<rparr> 0]
     \<lparr>rt_processes = \<lparr>processes = [Some (new_process 16 1 None 1 2 3)], pt_next_id = 2\<rparr>,
      rt_scheduler = with_quantum 32 5, rt_initialized = True, rt_decisions = 0\<rparr>)) = None"
  (is "fst (create_user_process 1 2 3 (runtime_run ?ops ?r)) = None")
proof -
  have "pt_len (rt_processes ?r) = length (processes (rt_processes ?r))" by (simp add: pt_len_def)
  with process_slots_never_reclaimed [of ?r ?ops 1 2 3] show ?thesis by blast
qed

end
