(* ===== verification/Block_Device.thy ===== *)
theory Block_Device
  imports Bytes
begin

text \<open>
  \<open>crates/nexos-storage/src/lib.rs\<close>: the errors, the \<open>BlockDevice\<close> trait, the
  in-memory device and the CRC-32 checksum. Code that is generic in \<open>D: BlockDevice\<close>
  takes the methods of \<open>D\<close> as a record \<open>block_ops\<close>. The locale \<open>reliable_device\<close> states
  what a device without faults promises, over the sectors it holds; the memory device is an
  instance, and so are the partitions (\<open>Partition_Device\<close>) and the write-back cache
  (\<open>Cache\<close>) of every instance.
\<close>

section \<open>Errors and the trait\<close>

datatype storage_error =
    S_OutOfBounds
  | S_InvalidBuffer
  | S_ReadOnly
  | S_InvalidMbr
  | S_InvalidGpt
  | S_InvalidPartition
  | S_ChecksumMismatch
  | S_UnsupportedSectorSize
  | S_UnsupportedFilesystem
  | S_CorruptFilesystem
  | S_NotFound
  | S_AlreadyExists
  | S_InvalidName
  | S_NoSpace
  | S_TooLarge
  | S_Timeout
  | S_Busy
  | S_Device

text \<open>
  \<open>read_sectors\<close> fills the caller's buffer: it returns the result, the buffer as it is
  afterwards (also on an error) and the device.
\<close>

record 'd block_ops =
  sector_size :: "'d \<Rightarrow> u32"
  sector_count :: "'d \<Rightarrow> u64"
  read_sectors :: "u64 \<Rightarrow> bytes \<Rightarrow> 'd \<Rightarrow> (storage_error + unit) \<times> bytes \<times> 'd"
  write_sectors :: "u64 \<Rightarrow> bytes \<Rightarrow> 'd \<Rightarrow> (storage_error + unit) \<times> 'd"
  flush_device :: "'d \<Rightarrow> (storage_error + unit) \<times> 'd"

text \<open>The number of bytes of a sector and of sectors, and a read into a fresh zeroed vector.\<close>

definition sector_bytes :: "'d block_ops \<Rightarrow> 'd \<Rightarrow> nat" where
  "sector_bytes ops d = unat (sector_size ops d)"

definition sectors :: "'d block_ops \<Rightarrow> 'd \<Rightarrow> nat" where
  "sectors ops d = unat (sector_count ops d)"

definition read_vec ::
  "'d block_ops \<Rightarrow> u64 \<Rightarrow> nat \<Rightarrow> ('d, storage_error, bytes) action" where
  "read_vec ops lba n d =
    (case read_sectors ops lba (replicate n 0) d of
       (Inl e, _, d') \<Rightarrow> (Inl e, d')
     | (Inr _, buf, d') \<Rightarrow> (Inr buf, d'))"

section \<open>The contract of a device without faults\<close>

text \<open>
  \<open>sec d k\<close> is the content of sector \<open>k\<close>; \<open>same_disk\<close> says that two states of the device
  hold the same sectors.
\<close>

definition same_disk :: "'d block_ops \<Rightarrow> ('d \<Rightarrow> nat \<Rightarrow> bytes) \<Rightarrow> 'd \<Rightarrow> 'd \<Rightarrow> bool" where
  "same_disk ops sec d d' \<longleftrightarrow>
    sector_size ops d' = sector_size ops d \<and> sector_count ops d' = sector_count ops d \<and>
    (\<forall>k < sectors ops d. sec d' k = sec d k)"

text \<open>A transfer of \<open>n\<close> whole sectors from \<open>lba\<close> inside the device.\<close>

definition good_transfer :: "'d block_ops \<Rightarrow> 'd \<Rightarrow> u64 \<Rightarrow> nat \<Rightarrow> nat \<Rightarrow> bool" where
  "good_transfer ops d lba len n \<longleftrightarrow>
    0 < n \<and> len = n * sector_bytes ops d \<and> unat lba + n \<le> sectors ops d"

definition bad_transfer :: "'d block_ops \<Rightarrow> 'd \<Rightarrow> u64 \<Rightarrow> nat \<Rightarrow> bool" where
  "bad_transfer ops d lba len \<longleftrightarrow>
    len mod sector_bytes ops d \<noteq> 0 \<or>
    (0 < len \<and> sectors ops d < unat lba + len div sector_bytes ops d)"

definition sector_range :: "(nat \<Rightarrow> bytes) \<Rightarrow> nat \<Rightarrow> nat \<Rightarrow> bytes" where
  "sector_range f a n = concat (map f [a..<a + n])"

definition put_sectors :: "nat \<Rightarrow> nat \<Rightarrow> nat \<Rightarrow> bytes \<Rightarrow> (nat \<Rightarrow> bytes) \<Rightarrow> nat \<Rightarrow> bytes" where
  "put_sectors ss a n data f k =
    (if a \<le> k \<and> k < a + n then slice ((k - a) * ss) ss data else f k)"

locale reliable_device =
  fixes ops :: "'d block_ops"
    and invar :: "'d \<Rightarrow> bool"
    and sec :: "'d \<Rightarrow> nat \<Rightarrow> bytes"
  assumes geometry: "invar d \<Longrightarrow> 0 < sector_bytes ops d"
    and sec_length: "invar d \<Longrightarrow> k < sectors ops d \<Longrightarrow> length (sec d k) = sector_bytes ops d"
    and read_good: "invar d \<Longrightarrow> good_transfer ops d lba (length buf) n \<Longrightarrow>
      \<exists>d'. read_sectors ops lba buf d = (Inr (), sector_range (sec d) (unat lba) n, d') \<and>
           invar d' \<and> same_disk ops sec d d'"
    and read_bad: "invar d \<Longrightarrow> bad_transfer ops d lba (length buf) \<Longrightarrow>
      \<exists>e buf' d'. read_sectors ops lba buf d = (Inl e, buf', d') \<and> invar d' \<and> same_disk ops sec d d'"
    and write_good: "invar d \<Longrightarrow> good_transfer ops d lba (length data) n \<Longrightarrow>
      \<exists>d'. write_sectors ops lba data d = (Inr (), d') \<and> invar d' \<and>
           sector_size ops d' = sector_size ops d \<and> sector_count ops d' = sector_count ops d \<and>
           (\<forall>k < sectors ops d.
              sec d' k = put_sectors (sector_bytes ops d) (unat lba) n data (sec d) k)"
    and write_bad: "invar d \<Longrightarrow> bad_transfer ops d lba (length data) \<Longrightarrow>
      \<exists>e d'. write_sectors ops lba data d = (Inl e, d') \<and> invar d' \<and> same_disk ops sec d d'"
    and flush_ok: "invar d \<Longrightarrow>
      \<exists>d'. flush_device ops d = (Inr (), d') \<and> invar d' \<and> same_disk ops sec d d'"

section \<open>Ranges of sectors\<close>

lemma same_disk_refl [simp]: "same_disk ops sec d d"
  by (simp add: same_disk_def)

lemma same_disk_sizes:
  "same_disk ops sec d d' \<Longrightarrow>
    sectors ops d' = sectors ops d \<and> sector_bytes ops d' = sector_bytes ops d"
  by (simp add: same_disk_def sectors_def sector_bytes_def)

lemma same_disk_trans:
  "same_disk ops sec d d' \<Longrightarrow> same_disk ops sec d' d'' \<Longrightarrow> same_disk ops sec d d''"
  by (auto simp: same_disk_def sectors_def)

lemma sector_range_Suc [simp]:
  "sector_range f a 0 = []" "sector_range f a (Suc n) = f a @ sector_range f (Suc a) n"
  by (simp_all add: sector_range_def upt_rec)

lemma length_sector_range:
  "(\<And>k. a \<le> k \<Longrightarrow> k < a + n \<Longrightarrow> length (f k) = ss) \<Longrightarrow> length (sector_range f a n) = n * ss"
  by (induction n arbitrary: a) (simp_all add: algebra_simps)

lemma sector_range_cong:
  "(\<And>k. a \<le> k \<Longrightarrow> k < a + n \<Longrightarrow> f k = g k) \<Longrightarrow> sector_range f a n = sector_range g a n"
  by (auto simp: sector_range_def intro!: arg_cong [of _ _ concat])

text \<open>Consecutive slices of a buffer put together.\<close>

lemma sector_range_slices:
  "a + n * ss \<le> length bs \<Longrightarrow> sector_range (\<lambda>k. slice (a + (k - b) * ss) ss bs) b n = slice a (n * ss) bs"
proof (induction n arbitrary: a b)
  case 0
  then show ?case by simp
next
  case (Suc n)
  have "sector_range (\<lambda>k. slice (a + (k - b) * ss) ss bs) (Suc b) n
      = sector_range (\<lambda>k. slice ((a + ss) + (k - Suc b) * ss) ss bs) (Suc b) n"
  proof (rule sector_range_cong)
    fix k assume "Suc b \<le> k"
    then have "k - b = Suc (k - Suc b)" by simp
    then show "slice (a + (k - b) * ss) ss bs = slice ((a + ss) + (k - Suc b) * ss) ss bs"
      by (simp add: add.assoc)
  qed
  also have "\<dots> = slice (a + ss) (n * ss) bs" using Suc by (intro Suc.IH) simp
  finally show ?case
    using Suc.prems by (simp add: slice_def) (metis add.commute drop_drop take_add)
qed

lemma sector_range_put_same:
  assumes "n * ss = length data"
  shows "sector_range (put_sectors ss a n data f) a n = data"
proof -
  have "sector_range (put_sectors ss a n data f) a n
      = sector_range (\<lambda>k. slice (0 + (k - a) * ss) ss data) a n"
    by (rule sector_range_cong) (simp add: put_sectors_def)
  also have "\<dots> = slice 0 (n * ss) data" using assms by (intro sector_range_slices) simp
  finally show ?thesis using assms by simp
qed

lemma sector_range_put_other:
  "a + n \<le> b \<or> b + m \<le> a \<Longrightarrow> sector_range (put_sectors ss a n data f) b m = sector_range f b m"
  by (rule sector_range_cong) (auto simp: put_sectors_def)

lemma transfer_cases:
  "0 < sector_bytes ops d \<Longrightarrow>
    len = 0 \<or> bad_transfer ops d lba len \<or> good_transfer ops d lba len (len div sector_bytes ops d)"
  by (auto simp: bad_transfer_def good_transfer_def not_less div_greater_zero_iff)

section \<open>What every client may conclude\<close>

context reliable_device
begin

lemma read_vec_good:
  assumes "invar d" "good_transfer ops d lba len n"
  shows "\<exists>d'. read_vec ops lba len d = (Inr (sector_range (sec d) (unat lba) n), d') \<and>
              invar d' \<and> same_disk ops sec d d'"
  using read_good [of d lba "replicate len 0" n] assms by (auto simp: read_vec_def)

text \<open>A read after a write returns the data, and a read elsewhere what was there before.\<close>

lemma read_after_write:
  assumes inv: "invar d" and w: "good_transfer ops d lba (length data) n"
    and dw: "write_sectors ops lba data d = (Inr (), d')"
  shows "\<exists>d''. read_vec ops lba (length data) d' = (Inr data, d'')"
    and "good_transfer ops d b len m \<Longrightarrow> unat lba + n \<le> unat b \<or> unat b + m \<le> unat lba \<Longrightarrow>
      \<exists>d''. read_vec ops b len d' = (Inr (sector_range (sec d) (unat b) m), d'')"
proof -
  have d': "invar d'" "sector_size ops d' = sector_size ops d" "sector_count ops d' = sector_count ops d"
    "\<And>k. k < sectors ops d \<Longrightarrow>
       sec d' k = put_sectors (sector_bytes ops d) (unat lba) n data (sec d) k"
    using write_good [OF inv w] dw by auto
  have sizes: "sectors ops d' = sectors ops d" "sector_bytes ops d' = sector_bytes ops d"
    using d' by (simp_all add: sectors_def sector_bytes_def)
  have good: "good_transfer ops d' b' len' m' \<longleftrightarrow> good_transfer ops d b' len' m'" for b' len' m'
    by (simp add: good_transfer_def sizes)
  have "sector_range (sec d') (unat lba) n
      = sector_range (put_sectors (sector_bytes ops d) (unat lba) n data (sec d)) (unat lba) n"
    using w by (intro sector_range_cong d'(4)) (simp add: good_transfer_def)
  also have "\<dots> = data" using w by (intro sector_range_put_same) (simp add: good_transfer_def)
  finally show "\<exists>d''. read_vec ops lba (length data) d' = (Inr data, d'')"
    using read_vec_good [OF d'(1), of lba "length data" n] w good by auto
  assume b: "good_transfer ops d b len m" "unat lba + n \<le> unat b \<or> unat b + m \<le> unat lba"
  have "sector_range (sec d') (unat b) m
      = sector_range (put_sectors (sector_bytes ops d) (unat lba) n data (sec d)) (unat b) m"
    using b(1) by (intro sector_range_cong d'(4)) (simp add: good_transfer_def)
  also have "\<dots> = sector_range (sec d) (unat b) m" using b(2) by (rule sector_range_put_other)
  finally show "\<exists>d''. read_vec ops b len d' = (Inr (sector_range (sec d) (unat b) m), d'')"
    using read_vec_good [OF d'(1), of b len m] b(1) good by auto
qed

end


section \<open>Sequences of requests\<close>

text \<open>What a client sees of a request: the bytes of a read, or that it failed.\<close>

datatype io_op =
    IoRead u64 nat
  | IoWrite u64 bytes
  | IoFlush

fun io_exec :: "'d block_ops \<Rightarrow> io_op \<Rightarrow> 'd \<Rightarrow> bytes option \<times> 'd" where
  "io_exec ops (IoRead lba len) d =
    (case read_vec ops lba len d of (Inl e, d') \<Rightarrow> (None, d') | (Inr bs, d') \<Rightarrow> (Some bs, d'))"
| "io_exec ops (IoWrite lba data) d =
    (case write_sectors ops lba data d of (Inl e, d') \<Rightarrow> (None, d') | (Inr _, d') \<Rightarrow> (Some [], d'))"
| "io_exec ops IoFlush d =
    (case flush_device ops d of (Inl e, d') \<Rightarrow> (None, d') | (Inr _, d') \<Rightarrow> (Some [], d'))"

fun io_run :: "'d block_ops \<Rightarrow> io_op list \<Rightarrow> 'd \<Rightarrow> bytes option list \<times> 'd" where
  "io_run ops [] d = ([], d)"
| "io_run ops (op # io) d =
    (let (r, d') = io_exec ops op d; (rs, d'') = io_run ops io d' in (r # rs, d''))"

fun io_nonempty :: "io_op \<Rightarrow> bool" where
  "io_nonempty (IoRead _ len) = (0 < len)"
| "io_nonempty (IoWrite _ data) = (data \<noteq> [])"
| "io_nonempty IoFlush = True"

text \<open>Two reliable devices that hold the same sectors cannot be told apart.\<close>

definition same_content ::
  "'a block_ops \<Rightarrow> ('a \<Rightarrow> nat \<Rightarrow> bytes) \<Rightarrow> 'b block_ops \<Rightarrow> ('b \<Rightarrow> nat \<Rightarrow> bytes) \<Rightarrow> 'a \<Rightarrow> 'b \<Rightarrow> bool" where
  "same_content ops1 sec1 ops2 sec2 d1 d2 \<longleftrightarrow>
    sector_size ops1 d1 = sector_size ops2 d2 \<and> sector_count ops1 d1 = sector_count ops2 d2 \<and>
    (\<forall>k < sectors ops1 d1. sec1 d1 k = sec2 d2 k)"

lemma same_content_sizes:
  assumes "same_content ops1 sec1 ops2 sec2 d1 d2"
  shows "sectors ops2 d2 = sectors ops1 d1" "sector_bytes ops2 d2 = sector_bytes ops1 d1"
  using assms by (simp_all add: same_content_def sectors_def sector_bytes_def)

lemma same_content_step:
  "same_content ops1 sec1 ops2 sec2 d1 d2 \<Longrightarrow> same_disk ops1 sec1 d1 d1' \<Longrightarrow> same_disk ops2 sec2 d2 d2'
    \<Longrightarrow> same_content ops1 sec1 ops2 sec2 d1' d2'"
  by (auto simp: same_content_def same_disk_def sectors_def)

lemma io_exec_same:
  assumes one: "reliable_device ops1 inv1 sec1" and two: "reliable_device ops2 inv2 sec2"
    and inv: "inv1 d1" "inv2 d2" and rel: "same_content ops1 sec1 ops2 sec2 d1 d2"
    and op: "io_nonempty op"
  shows "fst (io_exec ops1 op d1) = fst (io_exec ops2 op d2) \<and>
    inv1 (snd (io_exec ops1 op d1)) \<and> inv2 (snd (io_exec ops2 op d2)) \<and>
    same_content ops1 sec1 ops2 sec2 (snd (io_exec ops1 op d1)) (snd (io_exec ops2 op d2))"
proof -
  note sz = same_content_sizes [OF rel]
  have ss: "0 < sector_bytes ops1 d1" by (rule reliable_device.geometry [OF one inv(1)])
  have good: "good_transfer ops2 d2 lba len n \<longleftrightarrow> good_transfer ops1 d1 lba len n"
    and bad: "bad_transfer ops2 d2 lba len \<longleftrightarrow> bad_transfer ops1 d1 lba len" for lba len n
    by (simp_all add: good_transfer_def bad_transfer_def sz)
  show ?thesis
  proof (cases op)
    case (IoRead lba len)
    then have "0 < len" using op by simp
    then consider "bad_transfer ops1 d1 lba len" | n where "good_transfer ops1 d1 lba len n"
      using transfer_cases [OF ss, of len lba] by auto
    then show ?thesis
    proof cases
      case 1
      then have "bad_transfer ops2 d2 lba len" using bad by simp
      with 1 reliable_device.read_bad [OF one inv(1), of lba "replicate len 0"]
        reliable_device.read_bad [OF two inv(2), of lba "replicate len 0"] IoRead
        same_content_step [OF rel]
      show ?thesis by (auto simp: read_vec_def)
    next
      case (2 n)
      then obtain d1' d2' where r: "read_vec ops1 lba len d1 = (Inr (sector_range (sec1 d1) (unat lba) n), d1')"
        "inv1 d1'" "same_disk ops1 sec1 d1 d1'"
        "read_vec ops2 lba len d2 = (Inr (sector_range (sec2 d2) (unat lba) n), d2')"
        "inv2 d2'" "same_disk ops2 sec2 d2 d2'"
        using reliable_device.read_vec_good [OF one inv(1)] reliable_device.read_vec_good [OF two inv(2)]
          good by metis
      moreover have "sector_range (sec1 d1) (unat lba) n = sector_range (sec2 d2) (unat lba) n"
        using rel 2 by (intro sector_range_cong) (simp add: same_content_def good_transfer_def)
      ultimately show ?thesis using IoRead same_content_step [OF rel] by simp
    qed
  next
    case (IoWrite lba data)
    then have "0 < length data" using op by simp
    then consider "bad_transfer ops1 d1 lba (length data)"
      | n where "good_transfer ops1 d1 lba (length data) n"
      using transfer_cases [OF ss, of "length data" lba] by auto
    then show ?thesis
    proof cases
      case 1
      then have "bad_transfer ops2 d2 lba (length data)" using bad by simp
      with 1 reliable_device.write_bad [OF one inv(1), of lba data]
        reliable_device.write_bad [OF two inv(2), of lba data] IoWrite same_content_step [OF rel]
      show ?thesis by auto
    next
      case (2 n)
      then obtain d1' d2' where w: "write_sectors ops1 lba data d1 = (Inr (), d1')" "inv1 d1'"
        "sector_size ops1 d1' = sector_size ops1 d1" "sector_count ops1 d1' = sector_count ops1 d1"
        "\<forall>k < sectors ops1 d1. sec1 d1' k = put_sectors (sector_bytes ops1 d1) (unat lba) n data (sec1 d1) k"
        "write_sectors ops2 lba data d2 = (Inr (), d2')" "inv2 d2'"
        "sector_size ops2 d2' = sector_size ops2 d2" "sector_count ops2 d2' = sector_count ops2 d2"
        "\<forall>k < sectors ops2 d2. sec2 d2' k = put_sectors (sector_bytes ops2 d2) (unat lba) n data (sec2 d2) k"
        using reliable_device.write_good [OF one inv(1), of lba data n]
          reliable_device.write_good [OF two inv(2), of lba data n] good by metis
      have "sectors ops1 d1' = sectors ops1 d1" using w(4) by (simp add: sectors_def)
      then have "same_content ops1 sec1 ops2 sec2 d1' d2'"
        using rel w sz by (simp add: same_content_def put_sectors_def)
      with IoWrite w show ?thesis by simp
    qed
  next
    case IoFlush
    with reliable_device.flush_ok [OF one inv(1)] reliable_device.flush_ok [OF two inv(2)]
      same_content_step [OF rel]
    show ?thesis by auto
  qed
qed

lemma io_run_same:
  assumes one: "reliable_device ops1 inv1 sec1" and two: "reliable_device ops2 inv2 sec2"
    and "inv1 d1" "inv2 d2" "same_content ops1 sec1 ops2 sec2 d1 d2" "\<forall>op \<in> set io. io_nonempty op"
  shows "fst (io_run ops1 io d1) = fst (io_run ops2 io d2) \<and>
    inv1 (snd (io_run ops1 io d1)) \<and> inv2 (snd (io_run ops2 io d2)) \<and>
    same_content ops1 sec1 ops2 sec2 (snd (io_run ops1 io d1)) (snd (io_run ops2 io d2))"
  using assms(3-)
proof (induction io arbitrary: d1 d2)
  case Nil
  then show ?case by simp
next
  case (Cons op io)
  let ?d1 = "snd (io_exec ops1 op d1)" and ?d2 = "snd (io_exec ops2 op d2)"
  have step: "fst (io_exec ops1 op d1) = fst (io_exec ops2 op d2)" "inv1 ?d1" "inv2 ?d2"
    "same_content ops1 sec1 ops2 sec2 ?d1 ?d2"
    using io_exec_same [OF one two Cons.prems(1-3), of op] Cons.prems(4) by auto
  from Cons.IH [OF step(2-4)] Cons.prems(4) step(1) show ?case by (simp add: split_beta Let_def)
qed

section \<open>The in-memory device\<close>

record memory_device =
  md_bytes :: bytes
  md_sector_size :: u32
  md_read_only :: bool

definition memory_new :: "u64 \<Rightarrow> u32 \<Rightarrow> storage_error + memory_device" where
  "memory_new count ssize =
    (if ssize < 512 \<or> \<not> is_power_of_two ssize then Inl S_UnsupportedSectorSize
     else bind_res (ok_or S_OutOfBounds (checked_mul count (ucast ssize)))
       (\<lambda>len. Inr \<lparr>md_bytes = replicate (unat len) 0, md_sector_size = ssize, md_read_only = False\<rparr>))"

definition memory_from_bytes :: "bytes \<Rightarrow> u32 \<Rightarrow> storage_error + memory_device" where
  "memory_from_bytes bs ssize =
    (if ssize < 512 \<or> \<not> is_power_of_two ssize \<or> length bs mod unat ssize \<noteq> 0 then Inl S_InvalidBuffer
     else Inr \<lparr>md_bytes = bs, md_sector_size = ssize, md_read_only = False\<rparr>)"

definition set_read_only :: "bool \<Rightarrow> memory_device \<Rightarrow> memory_device" where
  "set_read_only b d = d\<lparr>md_read_only := b\<rparr>"

definition memory_range :: "memory_device \<Rightarrow> u64 \<Rightarrow> nat \<Rightarrow> storage_error + nat \<times> nat" where
  "memory_range d lba len =
    (if len mod unat (md_sector_size d) \<noteq> 0 then Inl S_InvalidBuffer
     else bind_res (ok_or S_OutOfBounds (checked_mul lba (ucast (md_sector_size d))))
       (\<lambda>start.
          if 2 ^ 64 \<le> unat start + len then Inl S_OutOfBounds
          else if length (md_bytes d) < unat start + len then Inl S_OutOfBounds
          else Inr (unat start, unat start + len)))"

definition memory_ops :: "memory_device block_ops" where
  "memory_ops =
    \<lparr>sector_size = md_sector_size,
     sector_count = (\<lambda>d. of_nat (length (md_bytes d)) div ucast (md_sector_size d)),
     read_sectors = (\<lambda>lba buf d.
       case memory_range d lba (length buf) of
         Inl e \<Rightarrow> (Inl e, buf, d)
       | Inr (a, b) \<Rightarrow> (Inr (), slice a (b - a) (md_bytes d), d)),
     write_sectors = (\<lambda>lba data d.
       if md_read_only d then (Inl S_ReadOnly, d)
       else case memory_range d lba (length data) of
              Inl e \<Rightarrow> (Inl e, d)
            | Inr (a, b) \<Rightarrow> (Inr (), d\<lparr>md_bytes := put_slice a data (md_bytes d)\<rparr>)),
     flush_device = (\<lambda>d. (Inr (), d))\<rparr>"

definition memory_inv :: "memory_device \<Rightarrow> bool" where
  "memory_inv d \<longleftrightarrow>
    0 < unat (md_sector_size d) \<and> length (md_bytes d) mod unat (md_sector_size d) = 0 \<and>
    length (md_bytes d) < 2 ^ 64 \<and> \<not> md_read_only d"

definition memory_sec :: "memory_device \<Rightarrow> nat \<Rightarrow> bytes" where
  "memory_sec d k = slice (k * unat (md_sector_size d)) (unat (md_sector_size d)) (md_bytes d)"

lemma memory_sizes:
  assumes "memory_inv d"
  shows "sector_bytes memory_ops d = unat (md_sector_size d)"
    and "length (md_bytes d) = sectors memory_ops d * sector_bytes memory_ops d"
proof -
  let ?ss = "unat (md_sector_size d)"
  have ss: "unat (ucast (md_sector_size d) :: u64) = ?ss" by (rule unat_ucast_up) simp
  have "unat (of_nat (length (md_bytes d)) :: u64) = length (md_bytes d)"
    using assms by (intro unat_of_nat_fits) (simp add: memory_inv_def)
  then have "sectors memory_ops d = length (md_bytes d) div ?ss"
    by (simp add: sectors_def memory_ops_def unat_div_distrib ss)
  then show "sector_bytes memory_ops d = ?ss"
    "length (md_bytes d) = sectors memory_ops d * sector_bytes memory_ops d"
    using assms by (simp_all add: memory_inv_def sector_bytes_def memory_ops_def minus_mod_eq_div_mult [symmetric])
qed


lemma memory_range_good:
  assumes inv: "memory_inv d" and good: "good_transfer memory_ops d lba len n"
  shows "memory_range d lba len
    = Inr (unat lba * unat (md_sector_size d), unat lba * unat (md_sector_size d) + len)"
    and "unat lba * unat (md_sector_size d) + len \<le> length (md_bytes d)"
proof -
  let ?ss = "unat (md_sector_size d)"
  have ss: "unat (ucast (md_sector_size d) :: u64) = ?ss" by (rule unat_ucast_up) simp
  have len: "len = n * ?ss" "unat lba + n \<le> sectors memory_ops d"
    using good by (simp_all add: good_transfer_def memory_sizes [OF inv])
  then have "(unat lba + n) * ?ss \<le> sectors memory_ops d * ?ss" by (intro mult_le_mono1)
  then show fits: "unat lba * ?ss + len \<le> length (md_bytes d)"
    using memory_sizes [OF inv] len(1) by (simp add: algebra_simps)
  then have "unat lba * ?ss < 2 ^ 64" using inv by (simp add: memory_inv_def)
  then have "checked_mul lba (ucast (md_sector_size d)) = Some (lba * ucast (md_sector_size d))"
    "unat (lba * ucast (md_sector_size d)) = unat lba * ?ss"
    by (simp_all add: checked_mul_def unat_mult_fits ss)
  then show "memory_range d lba len = Inr (unat lba * ?ss, unat lba * ?ss + len)"
    using fits inv len(1) by (simp add: memory_range_def memory_inv_def)
qed

lemma memory_range_bad:
  assumes inv: "memory_inv d" and bad: "bad_transfer memory_ops d lba len"
  shows "\<exists>e. memory_range d lba len = Inl e"
proof (cases "len mod unat (md_sector_size d) = 0")
  case False
  then show ?thesis by (simp add: memory_range_def)
next
  case True
  let ?ss = "unat (md_sector_size d)"
  have ss: "unat (ucast (md_sector_size d) :: u64) = ?ss" by (rule unat_ucast_up) simp
  have "sectors memory_ops d < unat lba + len div ?ss"
    using bad True by (simp add: bad_transfer_def memory_sizes [OF inv])
  then have "sectors memory_ops d * ?ss < (unat lba + len div ?ss) * ?ss"
    using inv by (simp add: memory_inv_def)
  also have "\<dots> = unat lba * ?ss + len" using True by (auto simp: algebra_simps)
  finally have out: "length (md_bytes d) < unat lba * ?ss + len"
    using memory_sizes [OF inv] by simp
  show ?thesis
  proof (cases "checked_mul lba (ucast (md_sector_size d) :: u64)")
    case None
    with True show ?thesis by (simp add: memory_range_def)
  next
    case (Some start)
    then have "unat start = unat lba * ?ss" using ss checked_mul_SomeD by metis
    with Some True out show ?thesis by (auto simp: memory_range_def)
  qed
qed

lemma memory_sector_range:
  "a * unat (md_sector_size d) + n * unat (md_sector_size d) \<le> length (md_bytes d) \<Longrightarrow>
    sector_range (memory_sec d) a n
      = slice (a * unat (md_sector_size d)) (n * unat (md_sector_size d)) (md_bytes d)"
proof -
  let ?ss = "unat (md_sector_size d)"
  assume fits: "a * ?ss + n * ?ss \<le> length (md_bytes d)"
  have "sector_range (memory_sec d) a n
      = sector_range (\<lambda>k. slice (a * ?ss + (k - a) * ?ss) ?ss (md_bytes d)) a n"
  proof (rule sector_range_cong)
    fix k assume "a \<le> k"
    then have "a * ?ss + (k - a) * ?ss = k * ?ss" by (simp flip: distrib_right)
    then show "memory_sec d k = slice (a * ?ss + (k - a) * ?ss) ?ss (md_bytes d)"
      by (simp add: memory_sec_def)
  qed
  then show ?thesis using sector_range_slices [OF fits] by simp
qed

lemma memory_put_sectors:
  assumes inv: "memory_inv d" and good: "good_transfer memory_ops d lba (length data) n"
    and k: "k < sectors memory_ops d"
  shows "slice (k * unat (md_sector_size d)) (unat (md_sector_size d))
      (put_slice (unat lba * unat (md_sector_size d)) data (md_bytes d))
    = put_sectors (unat (md_sector_size d)) (unat lba) n data (memory_sec d) k"
proof -
  let ?ss = "unat (md_sector_size d)" and ?a = "unat lba"
  have fits: "?a * ?ss + length data \<le> length (md_bytes d)" by (rule memory_range_good [OF inv good])
  have len: "length data = n * ?ss" using good by (simp add: good_transfer_def memory_sizes [OF inv])
  have "Suc k * ?ss \<le> sectors memory_ops d * ?ss" using k by (intro mult_le_mono1) simp
  then have kfits: "k * ?ss + ?ss \<le> length (md_bytes d)" using memory_sizes [OF inv] by simp
  show ?thesis
  proof (cases "?a \<le> k \<and> k < ?a + n")
    case True
    then have "(k - ?a) * ?ss + ?ss \<le> n * ?ss"
      by (metis Suc_leI add.commute less_diff_conv2 mult_Suc mult_le_mono1)
    moreover have "k * ?ss = ?a * ?ss + (k - ?a) * ?ss" using True by (simp flip: distrib_right)
    ultimately have "slice (k * ?ss) ?ss (put_slice (?a * ?ss) data (md_bytes d))
        = slice ((k - ?a) * ?ss) ?ss data"
      using fits len slice_put_inside [of "?a * ?ss" data "md_bytes d" "(k - ?a) * ?ss" ?ss] by simp
    with True show ?thesis by (simp add: put_sectors_def)
  next
    case False
    then have "Suc k \<le> ?a \<or> ?a + n \<le> k" by auto
    then have "Suc k * ?ss \<le> ?a * ?ss \<or> (?a + n) * ?ss \<le> k * ?ss"
      using mult_le_mono1 by blast
    then have "k * ?ss + ?ss \<le> ?a * ?ss \<or> ?a * ?ss + length data \<le> k * ?ss"
      using len by (auto simp: algebra_simps)
    then show ?thesis using fits False by (auto simp: slice_put_other put_sectors_def memory_sec_def)
  qed
qed

interpretation mem: reliable_device memory_ops memory_inv memory_sec
proof
  fix d :: memory_device
  assume inv: "memory_inv d"
  note sizes = memory_sizes [OF inv]
  let ?ss = "unat (md_sector_size d)"
  show "0 < sector_bytes memory_ops d" using inv sizes(1) by (simp add: memory_inv_def)
  show "length (memory_sec d k) = sector_bytes memory_ops d" if "k < sectors memory_ops d" for k
  proof -
    have "Suc k * ?ss \<le> sectors memory_ops d * ?ss" using that by (intro mult_le_mono1) simp
    then show ?thesis using sizes by (simp add: memory_sec_def)
  qed
  show "\<exists>d'. read_sectors memory_ops lba buf d = (Inr (), sector_range (memory_sec d) (unat lba) n, d') \<and>
        memory_inv d' \<and> same_disk memory_ops memory_sec d d'"
    if good: "good_transfer memory_ops d lba (length buf) n" for lba buf n
  proof -
    have "length buf = n * ?ss" using good sizes(1) by (simp add: good_transfer_def)
    then show ?thesis
      using memory_range_good [OF inv good] memory_sector_range [of "unat lba" d n] inv
      by (simp add: memory_ops_def)
  qed
  show "\<exists>e buf' d'. read_sectors memory_ops lba buf d = (Inl e, buf', d') \<and> memory_inv d' \<and>
        same_disk memory_ops memory_sec d d'"
    if "bad_transfer memory_ops d lba (length buf)" for lba buf
    using memory_range_bad [OF inv that] inv by (auto simp: memory_ops_def)
  show "\<exists>d'. write_sectors memory_ops lba data d = (Inr (), d') \<and> memory_inv d' \<and>
        sector_size memory_ops d' = sector_size memory_ops d \<and>
        sector_count memory_ops d' = sector_count memory_ops d \<and>
        (\<forall>k < sectors memory_ops d. memory_sec d' k
           = put_sectors (sector_bytes memory_ops d) (unat lba) n data (memory_sec d) k)"
    if good: "good_transfer memory_ops d lba (length data) n" for lba data n
  proof -
    let ?d = "d\<lparr>md_bytes := put_slice (unat lba * ?ss) data (md_bytes d)\<rparr>"
    have len: "length (md_bytes ?d) = length (md_bytes d)"
      using memory_range_good(2) [OF inv good] by simp
    have "write_sectors memory_ops lba data d = (Inr (), ?d)"
      using memory_range_good(1) [OF inv good] inv by (simp add: memory_ops_def memory_inv_def)
    moreover have "memory_inv ?d" using inv len by (simp add: memory_inv_def)
    moreover have "sector_count memory_ops ?d = sector_count memory_ops d"
      using len by (simp add: memory_ops_def)
    moreover have "memory_sec ?d k = put_sectors ?ss (unat lba) n data (memory_sec d) k"
      if "k < sectors memory_ops d" for k
      using memory_put_sectors [OF inv good that] by (simp add: memory_sec_def)
    ultimately show ?thesis using sizes(1) by (simp add: memory_ops_def)
  qed
  show "\<exists>e d'. write_sectors memory_ops lba data d = (Inl e, d') \<and> memory_inv d' \<and>
        same_disk memory_ops memory_sec d d'"
    if "bad_transfer memory_ops d lba (length data)" for lba data
    using memory_range_bad [OF inv that] inv by (auto simp: memory_ops_def memory_inv_def)
  show "\<exists>d'. flush_device memory_ops d = (Inr (), d') \<and> memory_inv d' \<and>
        same_disk memory_ops memory_sec d d'"
    using inv by (simp add: memory_ops_def)
qed

end
