(* ===== verification/Partition_Device.thy ===== *)
theory Partition_Device
  imports Block_Device
begin

text \<open>
  \<open>PartitionDevice\<close> of \<open>crates/nexos-storage/src/partition.rs\<close>: a window of sectors of an
  inner device, itself a \<open>BlockDevice\<close>. A partition of a reliable device is a reliable device
  whose sectors are those of the window, and no operation on it touches a sector outside.
\<close>

section \<open>The device\<close>

record 'd partition_device =
  pd_inner :: 'd
  pd_first_lba :: u64
  pd_sector_count :: u64

definition partition_new ::
  "'d block_ops \<Rightarrow> 'd \<Rightarrow> u64 \<Rightarrow> u64 \<Rightarrow> storage_error + 'd partition_device" where
  "partition_new ops inner first count =
    (if count = 0 \<or>
        (case checked_add first count of None \<Rightarrow> True | Some end \<Rightarrow> sector_count ops inner < end)
     then Inl S_InvalidPartition
     else Inr \<lparr>pd_inner = inner, pd_first_lba = first, pd_sector_count = count\<rparr>)"

definition translated_lba ::
  "'d block_ops \<Rightarrow> 'd partition_device \<Rightarrow> u64 \<Rightarrow> nat \<Rightarrow> storage_error + u64" where
  "translated_lba ops p lba len =
    (let ss = unat (sector_size ops (pd_inner p)) in
     if len = 0 \<or> len mod ss \<noteq> 0 then Inl S_InvalidBuffer
     else if 2 ^ 64 \<le> len div ss then Inl S_TooLarge
     else
       (case checked_add lba (of_nat (len div ss)) of
          None \<Rightarrow> Inl S_OutOfBounds
        | Some end \<Rightarrow>
            if pd_sector_count p < end then Inl S_OutOfBounds
            else ok_or S_OutOfBounds (checked_add (pd_first_lba p) lba)))"

definition partition_ops :: "'d block_ops \<Rightarrow> 'd partition_device block_ops" where
  "partition_ops ops =
    \<lparr>sector_size = (\<lambda>p. sector_size ops (pd_inner p)),
     sector_count = pd_sector_count,
     read_sectors = (\<lambda>lba buf p.
       case translated_lba ops p lba (length buf) of
         Inl e \<Rightarrow> (Inl e, buf, p)
       | Inr t \<Rightarrow> (case read_sectors ops t buf (pd_inner p) of
                    (r, buf', d) \<Rightarrow> (r, buf', p\<lparr>pd_inner := d\<rparr>))),
     write_sectors = (\<lambda>lba data p.
       case translated_lba ops p lba (length data) of
         Inl e \<Rightarrow> (Inl e, p)
       | Inr t \<Rightarrow> (case write_sectors ops t data (pd_inner p) of
                    (r, d) \<Rightarrow> (r, p\<lparr>pd_inner := d\<rparr>))),
     flush_device = (\<lambda>p.
       case flush_device ops (pd_inner p) of (r, d) \<Rightarrow> (r, p\<lparr>pd_inner := d\<rparr>))\<rparr>"

section \<open>A window of a reliable device\<close>

definition partition_inv :: "'d block_ops \<Rightarrow> ('d \<Rightarrow> bool) \<Rightarrow> 'd partition_device \<Rightarrow> bool" where
  "partition_inv ops invar p \<longleftrightarrow>
    invar (pd_inner p) \<and>
    unat (pd_first_lba p) + unat (pd_sector_count p) \<le> sectors ops (pd_inner p)"

definition partition_sec :: "('d \<Rightarrow> nat \<Rightarrow> bytes) \<Rightarrow> 'd partition_device \<Rightarrow> nat \<Rightarrow> bytes" where
  "partition_sec sec p k = sec (pd_inner p) (unat (pd_first_lba p) + k)"

lemma partition_sizes [simp]:
  "sector_bytes (partition_ops ops) p = sector_bytes ops (pd_inner p)"
  "sectors (partition_ops ops) p = unat (pd_sector_count p)"
  "sector_size (partition_ops ops) p = sector_size ops (pd_inner p)"
  "sector_count (partition_ops ops) p = pd_sector_count p"
  by (simp_all add: sector_bytes_def sectors_def partition_ops_def)

lemma translated_good:
  assumes good: "good_transfer (partition_ops ops) p lba len n"
    and window: "unat (pd_first_lba p) + unat (pd_sector_count p) \<le> sectors ops (pd_inner p)"
    and ss: "0 < sector_bytes ops (pd_inner p)"
  shows "translated_lba ops p lba len = Inr (pd_first_lba p + lba)"
    and "unat (pd_first_lba p + lba) = unat (pd_first_lba p) + unat lba"
    and "good_transfer ops (pd_inner p) (pd_first_lba p + lba) len n"
proof -
  have n: "0 < n" "len = n * sector_bytes ops (pd_inner p)" "unat lba + n \<le> unat (pd_sector_count p)"
    using good by (simp_all add: good_transfer_def)
  have big: "unat (pd_sector_count p) < 2 ^ 64" "sectors ops (pd_inner p) < 2 ^ 64"
    using unat_bound [of "pd_sector_count p"] unat_bound [of "sector_count ops (pd_inner p)"]
    by (simp_all add: sectors_def)
  have nn: "unat (of_nat n :: u64) = n" using n big by (intro unat_of_nat_fits) simp
  have one: "checked_add lba (of_nat n) = Some (lba + of_nat n)" "unat (lba + of_nat n) = unat lba + n"
    using n big nn by (simp_all add: checked_add_def unat_add_fits)
  have two: "checked_add (pd_first_lba p) lba = Some (pd_first_lba p + lba)"
    and sum: "unat (pd_first_lba p + lba) = unat (pd_first_lba p) + unat lba"
    using n window big by (simp_all add: checked_add_def unat_add_fits)
  show "unat (pd_first_lba p + lba) = unat (pd_first_lba p) + unat lba" by (rule sum)
  have "len div sector_bytes ops (pd_inner p) = n" using n ss by simp
  moreover have "\<not> pd_sector_count p < lba + of_nat n"
    using n(3) one(2) by (simp add: word_less_nat_alt)
  ultimately show "translated_lba ops p lba len = Inr (pd_first_lba p + lba)"
    using n ss one(1) two big by (simp add: translated_lba_def Let_def sector_bytes_def)
  show "good_transfer ops (pd_inner p) (pd_first_lba p + lba) len n"
    using n window sum by (simp add: good_transfer_def)
qed

lemma translated_bad:
  assumes bad: "bad_transfer (partition_ops ops) p lba len"
  shows "\<exists>e. translated_lba ops p lba len = Inl e"
proof (cases "len mod sector_bytes ops (pd_inner p) = 0 \<and> len div sector_bytes ops (pd_inner p) < 2 ^ 64")
  case False
  then show ?thesis by (auto simp: translated_lba_def Let_def sector_bytes_def)
next
  case True
  let ?n = "len div sector_bytes ops (pd_inner p)"
  have out: "unat (pd_sector_count p) < unat lba + ?n" using bad True by (simp add: bad_transfer_def)
  have nn: "unat (of_nat ?n :: u64) = ?n" using True by (intro unat_of_nat_fits) simp
  show ?thesis
  proof (cases "checked_add lba (of_nat ?n :: u64)")
    case None
    then show ?thesis by (auto simp: translated_lba_def Let_def sector_bytes_def)
  next
    case (Some e)
    then have "unat e = unat lba + ?n" using checked_add_SomeD nn by metis
    then have "pd_sector_count p < e" using out by (simp add: word_less_nat_alt)
    with Some show ?thesis by (auto simp: translated_lba_def Let_def sector_bytes_def)
  qed
qed

lemma translated_empty: "translated_lba ops p lba 0 = Inl S_InvalidBuffer"
  by (simp add: translated_lba_def)

lemma partition_sector_range:
  "sector_range (partition_sec sec p) a n = sector_range (sec (pd_inner p)) (unat (pd_first_lba p) + a) n"
proof (induction n arbitrary: a)
  case (Suc n)
  then show ?case using Suc.IH [of "Suc a"] by (simp add: partition_sec_def)
qed simp

context reliable_device
begin

lemma partition_step:
  assumes inv: "partition_inv ops invar p" and d: "invar d" "same_disk ops sec (pd_inner p) d"
  shows "partition_inv ops invar (p\<lparr>pd_inner := d\<rparr>)"
    and "same_disk (partition_ops ops) (partition_sec sec) p (p\<lparr>pd_inner := d\<rparr>)"
proof -
  show "partition_inv ops invar (p\<lparr>pd_inner := d\<rparr>)"
    using inv d same_disk_sizes [OF d(2)] by (simp add: partition_inv_def)
  show "same_disk (partition_ops ops) (partition_sec sec) p (p\<lparr>pd_inner := d\<rparr>)"
    using inv d(2) by (auto simp: same_disk_def partition_inv_def partition_sec_def)
qed

theorem partition_reliable:
  "reliable_device (partition_ops ops) (partition_inv ops invar) (partition_sec sec)"
proof
  fix p
  assume inv: "partition_inv ops invar p"
  then have d: "invar (pd_inner p)"
    and win: "unat (pd_first_lba p) + unat (pd_sector_count p) \<le> sectors ops (pd_inner p)"
    by (simp_all add: partition_inv_def)
  note ss = geometry [OF d]
  note keep = partition_step [OF inv]
  show "0 < sector_bytes (partition_ops ops) p" using ss by simp
  show "length (partition_sec sec p k) = sector_bytes (partition_ops ops) p"
    if "k < sectors (partition_ops ops) p" for k
    using that win sec_length [OF d] by (simp add: partition_sec_def)
  show "\<exists>p'. read_sectors (partition_ops ops) lba buf p
        = (Inr (), sector_range (partition_sec sec p) (unat lba) n, p') \<and>
        partition_inv ops invar p' \<and> same_disk (partition_ops ops) (partition_sec sec) p p'"
    if good: "good_transfer (partition_ops ops) p lba (length buf) n" for lba buf n
  proof -
    note t = translated_good [OF good win ss]
    obtain d' where "read_sectors ops (pd_first_lba p + lba) buf (pd_inner p)
        = (Inr (), sector_range (sec (pd_inner p)) (unat (pd_first_lba p + lba)) n, d')"
      "invar d'" "same_disk ops sec (pd_inner p) d'"
      using read_good [OF d t(3)] by blast
    with t(1,2) keep show ?thesis by (simp add: partition_ops_def [of ops] partition_sector_range)
  qed
  show "\<exists>e buf' p'. read_sectors (partition_ops ops) lba buf p = (Inl e, buf', p') \<and>
        partition_inv ops invar p' \<and> same_disk (partition_ops ops) (partition_sec sec) p p'"
    if "bad_transfer (partition_ops ops) p lba (length buf)" for lba buf
    using translated_bad [OF that] inv by (auto simp: partition_ops_def [of ops])
  show "\<exists>p'. write_sectors (partition_ops ops) lba data p = (Inr (), p') \<and>
        partition_inv ops invar p' \<and>
        sector_size (partition_ops ops) p' = sector_size (partition_ops ops) p \<and>
        sector_count (partition_ops ops) p' = sector_count (partition_ops ops) p \<and>
        (\<forall>k < sectors (partition_ops ops) p. partition_sec sec p' k
           = put_sectors (sector_bytes (partition_ops ops) p) (unat lba) n data (partition_sec sec p) k)"
    if good: "good_transfer (partition_ops ops) p lba (length data) n" for lba data n
  proof -
    note t = translated_good [OF good win ss]
    obtain d' where w: "write_sectors ops (pd_first_lba p + lba) data (pd_inner p) = (Inr (), d')"
      "invar d'" "sector_size ops d' = sector_size ops (pd_inner p)"
      "sector_count ops d' = sector_count ops (pd_inner p)"
      "\<And>k. k < sectors ops (pd_inner p) \<Longrightarrow> sec d' k = put_sectors (sector_bytes ops (pd_inner p))
         (unat (pd_first_lba p + lba)) n data (sec (pd_inner p)) k"
      using write_good [OF d t(3)] by blast
    have "sectors ops d' = sectors ops (pd_inner p)" using w(4) by (simp add: sectors_def)
    then have "partition_inv ops invar (p\<lparr>pd_inner := d'\<rparr>)"
      using w(2) win by (simp add: partition_inv_def)
    moreover have "partition_sec sec (p\<lparr>pd_inner := d'\<rparr>) k
        = put_sectors (sector_bytes ops (pd_inner p)) (unat lba) n data (partition_sec sec p) k"
      if "k < unat (pd_sector_count p)" for k
      using w(5) [of "unat (pd_first_lba p) + k"] that win t(2)
      by (simp add: partition_sec_def put_sectors_def)
    moreover have "write_sectors (partition_ops ops) lba data p = (Inr (), p\<lparr>pd_inner := d'\<rparr>)"
      using w(1) t(1) by (simp add: partition_ops_def)
    ultimately show ?thesis using w(3) by simp
  qed
  show "\<exists>e p'. write_sectors (partition_ops ops) lba data p = (Inl e, p') \<and>
        partition_inv ops invar p' \<and> same_disk (partition_ops ops) (partition_sec sec) p p'"
    if "bad_transfer (partition_ops ops) p lba (length data)" for lba data
    using translated_bad [OF that] inv by (auto simp: partition_ops_def [of ops])
  show "\<exists>p'. flush_device (partition_ops ops) p = (Inr (), p') \<and>
        partition_inv ops invar p' \<and> same_disk (partition_ops ops) (partition_sec sec) p p'"
    using flush_ok [OF d] keep by (force simp: partition_ops_def [of ops])
qed

end

interpretation mem_part: reliable_device "partition_ops memory_ops"
  "partition_inv memory_ops memory_inv" "partition_sec memory_sec"
  by (rule mem.partition_reliable)


lemma partition_new_inv:
  assumes "partition_new ops d first count = Inr p" "invar d"
  shows "partition_inv ops invar p" "pd_inner p = d" "pd_first_lba p = first" "pd_sector_count p = count"
proof -
  obtain e where e: "checked_add first count = Some e" "\<not> sector_count ops d < e"
    and p: "p = \<lparr>pd_inner = d, pd_first_lba = first, pd_sector_count = count\<rparr>"
    using assms(1) by (auto simp: partition_new_def split: if_splits option.splits)
  have "unat first + unat count \<le> sectors ops d"
    using e checked_add_SomeD [OF e(1)] by (simp add: sectors_def word_less_nat_alt)
  then show "partition_inv ops invar p" "pd_inner p = d" "pd_first_lba p = first"
    "pd_sector_count p = count"
    using assms(2) by (simp_all add: partition_inv_def p)
qed

text \<open>C9. A partition is confined to its window: whatever is written through it, and
  whatever the inner device is (as long as it is free of faults), every sector of the disk
  outside the partition keeps its content; inside, a successful write replaces exactly the
  addressed sectors and a refused one changes nothing.\<close>

theorem partition_isolation:
  assumes dev: "reliable_device ops invar sec" and inv: "invar d"
    and new: "partition_new ops d first count = Inr p"
    and w: "write_sectors (partition_ops ops) lba data p = (r, p')"
  shows "(\<forall>k < sectors ops d. k < unat first \<or> unat first + unat count \<le> k \<longrightarrow>
            sec (pd_inner p') k = sec d k) \<and>
         (\<forall>k < unat count. sec (pd_inner p') (unat first + k) =
            (if r = Inr () then put_sectors (sector_bytes ops d) (unat lba)
                 (length data div sector_bytes ops d) data (\<lambda>j. sec d (unat first + j)) k
             else sec d (unat first + k)))"
proof -
  note p = partition_new_inv [where invar = invar, OF new inv]
  have win: "unat (pd_first_lba p) + unat (pd_sector_count p) \<le> sectors ops (pd_inner p)"
    using p(1) by (simp add: partition_inv_def)
  have ss: "0 < sector_bytes ops (pd_inner p)"
    using reliable_device.geometry [OF dev inv] p(2) by simp
  show ?thesis
  proof (cases "translated_lba ops p lba (length data)")
    case (Inl e)
    with w p show ?thesis by (auto simp: partition_ops_def [of ops])
  next
    case (Inr t)
    let ?n = "length data div sector_bytes ops (pd_inner p)"
    have good: "good_transfer (partition_ops ops) p lba (length data) ?n"
      using transfer_cases [of "partition_ops ops" p "length data" lba] ss Inr
        translated_bad [of ops p lba "length data"] translated_empty [of ops p lba] by auto
    note t = translated_good [OF good win ss]
    obtain d' where d': "write_sectors ops (pd_first_lba p + lba) data (pd_inner p) = (Inr (), d')"
      "\<And>k. k < sectors ops (pd_inner p) \<Longrightarrow> sec d' k = put_sectors (sector_bytes ops (pd_inner p))
         (unat (pd_first_lba p + lba)) ?n data (sec (pd_inner p)) k"
      using reliable_device.write_good [OF dev _ t(3)] inv p(2) by blast
    have "p' = p\<lparr>pd_inner := d'\<rparr>" "r = Inr ()"
      using w t(1) d'(1) by (simp_all add: partition_ops_def)
    moreover have "unat lba + ?n \<le> unat count" using good p(4) by (simp add: good_transfer_def)
    ultimately show ?thesis
      using d'(2) p(2-4) t(2) win by (auto simp: put_sectors_def)
  qed
qed

theorem partition_isolation_witness:
  "memory_sec (pd_inner (snd (write_sectors (partition_ops memory_ops) 0 (replicate 512 7)
       \<lparr>pd_inner = \<lparr>md_bytes = replicate 1024 0, md_sector_size = 512, md_read_only = False\<rparr>,
        pd_first_lba = 1, pd_sector_count = 1\<rparr>))) 0
     = memory_sec \<lparr>md_bytes = replicate 1024 0, md_sector_size = 512, md_read_only = False\<rparr> 0"
  (is "memory_sec (pd_inner (snd ?w)) 0 = memory_sec ?d 0")
proof -
  have inv: "memory_inv ?d" by (simp add: memory_inv_def)
  have new: "partition_new memory_ops ?d 1 1
      = Inr \<lparr>pd_inner = ?d, pd_first_lba = 1, pd_sector_count = 1\<rparr>"
    by (simp add: partition_new_def memory_ops_def checked_add_def)
  have "sectors memory_ops ?d = 2" by (simp add: sectors_def memory_ops_def)
  with partition_isolation [OF mem.reliable_device_axioms inv new, of 0 "replicate 512 7" "fst ?w" "snd ?w"]
  show ?thesis by simp
qed

end
