(* ===== verification/Cache.thy ===== *)
theory Cache
  imports Block_Device
begin

text \<open>
  \<open>crates/nexos-storage/src/cache.rs\<close>: the write-back sector cache
  \<open>CachedBlockDevice<D>\<close>, with least-recently-used eviction by a wrapping stamp. Over a
  reliable device it is a reliable device again, whose sectors are those of the cached entries
  and, elsewhere, those of the inner device; after \<open>flush\<close> the inner device holds them all.
\<close>

section \<open>The cache\<close>

record cache_stats =
  cs_hits :: u64
  cs_misses :: u64
  cs_evictions :: u64
  cs_writebacks :: u64

record cache_entry =
  ce_lba :: u64
  ce_bytes :: bytes
  ce_dirty :: bool
  ce_stamp :: u64

record 'd cached_device =
  cd_inner :: 'd
  cd_entries :: "cache_entry list"
  cd_capacity :: nat
  cd_stamp :: u64
  cd_stats :: cache_stats

definition cache_new :: "'d \<Rightarrow> nat \<Rightarrow> storage_error + 'd cached_device" where
  "cache_new inner cap =
    (if cap = 0 then Inl S_InvalidBuffer
     else Inr \<lparr>cd_inner = inner, cd_entries = [], cd_capacity = cap, cd_stamp = 0,
               cd_stats = \<lparr>cs_hits = 0, cs_misses = 0, cs_evictions = 0, cs_writebacks = 0\<rparr>\<rparr>)"

definition touch :: "nat \<Rightarrow> 'd cached_device \<Rightarrow> 'd cached_device" where
  "touch i c =
    (let s = cd_stamp c + 1 in
     c\<lparr>cd_stamp := s, cd_entries := (cd_entries c)[i := (cd_entries c ! i)\<lparr>ce_stamp := s\<rparr>]\<rparr>)"

definition write_back ::
  "'d block_ops \<Rightarrow> nat \<Rightarrow> ('d cached_device, storage_error, unit) action" where
  "write_back ops i c =
    (let e = cd_entries c ! i in
     if ce_dirty e then
       (case write_sectors ops (ce_lba e) (ce_bytes e) (cd_inner c) of
          (Inl err, d) \<Rightarrow> (Inl err, c\<lparr>cd_inner := d\<rparr>)
        | (Inr _, d) \<Rightarrow>
            (Inr (), c\<lparr>cd_inner := d, cd_entries := (cd_entries c)[i := e\<lparr>ce_dirty := False\<rparr>],
                       cd_stats := (cd_stats c)\<lparr>cs_writebacks :=
                         saturating_add (cs_writebacks (cd_stats c)) 1\<rparr>\<rparr>))
     else (Inr (), c))"

text \<open>\<open>min_by_key(|(_, entry)| entry.stamp)\<close>: the first entry with the least stamp.\<close>

definition lru_index :: "cache_entry list \<Rightarrow> nat option" where
  "lru_index es = position (\<lambda>e. \<forall>e' \<in> set es. ce_stamp e \<le> ce_stamp e') es"

text \<open>The slot that a missing sector takes: a new entry, or the evicted one.\<close>

definition claim_slot ::
  "'d block_ops \<Rightarrow> u64 \<Rightarrow> ('d cached_device, storage_error, nat) action" where
  "claim_slot ops lba c =
    (if length (cd_entries c) < cd_capacity c then
       (Inr (length (cd_entries c)),
        c\<lparr>cd_entries := cd_entries c @
            [\<lparr>ce_lba = lba, ce_bytes = replicate (unat (sector_size ops (cd_inner c))) 0,
              ce_dirty = False, ce_stamp = 0\<rparr>]\<rparr>)
     else
       (case lru_index (cd_entries c) of
          None \<Rightarrow> (Inl S_Device, c)
        | Some i \<Rightarrow>
            (case write_back ops i c of
               (Inl err, c') \<Rightarrow> (Inl err, c')
             | (Inr _, c') \<Rightarrow>
                 (Inr i, c'\<lparr>cd_stats := (cd_stats c')\<lparr>cs_evictions :=
                               saturating_add (cs_evictions (cd_stats c')) 1\<rparr>,
                            cd_entries := (cd_entries c')[i := (cd_entries c' ! i)\<lparr>ce_lba := lba\<rparr>]\<rparr>))))"

definition entry_for ::
  "'d block_ops \<Rightarrow> u64 \<Rightarrow> ('d cached_device, storage_error, nat) action" where
  "entry_for ops lba c =
    (case position (\<lambda>e. ce_lba e = lba) (cd_entries c) of
       Some i \<Rightarrow>
         (Inr i, touch i (c\<lparr>cd_stats := (cd_stats c)\<lparr>cs_hits :=
            saturating_add (cs_hits (cd_stats c)) 1\<rparr>\<rparr>))
     | None \<Rightarrow>
         (let c1 = c\<lparr>cd_stats := (cd_stats c)\<lparr>cs_misses :=
            saturating_add (cs_misses (cd_stats c)) 1\<rparr>\<rparr> in
          case claim_slot ops lba c1 of
            (Inl err, c2) \<Rightarrow> (Inl err, c2)
          | (Inr i, c2) \<Rightarrow>
              (case read_sectors ops lba (ce_bytes (cd_entries c2 ! i)) (cd_inner c2) of
                 (r, buf, d) \<Rightarrow>
                   (let c3 = c2\<lparr>cd_inner := d,
                                cd_entries := (cd_entries c2)[i := (cd_entries c2 ! i)\<lparr>ce_bytes := buf\<rparr>]\<rparr>
                    in case r of
                         Inl err \<Rightarrow> (Inl err, c3)
                       | Inr _ \<Rightarrow>
                           (Inr i, touch i (c3\<lparr>cd_entries :=
                              (cd_entries c3)[i := (cd_entries c3 ! i)\<lparr>ce_dirty := False\<rparr>]\<rparr>))))))"

definition validate_transfer ::
  "'d block_ops \<Rightarrow> 'd cached_device \<Rightarrow> u64 \<Rightarrow> nat \<Rightarrow> storage_error + nat" where
  "validate_transfer ops c lba len =
    (let ss = unat (sector_size ops (cd_inner c)) in
     if len = 0 \<or> len mod ss \<noteq> 0 then Inl S_InvalidBuffer
     else if 2 ^ 64 \<le> len div ss then Inl S_TooLarge
     else case checked_add lba (of_nat (len div ss)) of
            None \<Rightarrow> Inl S_OutOfBounds
          | Some end \<Rightarrow> if sector_count ops (cd_inner c) < end then Inl S_OutOfBounds else Inr ss)"

text \<open>The loops over the sector-sized chunks of the buffer, by the list of their offsets.\<close>

fun cache_read_chunks ::
  "'d block_ops \<Rightarrow> nat \<Rightarrow> u64 \<Rightarrow> nat list \<Rightarrow> bytes \<Rightarrow> 'd cached_device
    \<Rightarrow> (storage_error + unit) \<times> bytes \<times> 'd cached_device" where
  "cache_read_chunks ops ss lba [] buf c = (Inr (), buf, c)"
| "cache_read_chunks ops ss lba (off # offs) buf c =
    (case checked_add lba (of_nat off) of
       None \<Rightarrow> (Inl S_OutOfBounds, buf, c)
     | Some s \<Rightarrow>
         (case entry_for ops s c of
            (Inl err, c') \<Rightarrow> (Inl err, buf, c')
          | (Inr i, c') \<Rightarrow>
              cache_read_chunks ops ss lba offs
                (put_slice (off * ss) (ce_bytes (cd_entries c' ! i)) buf) c'))"

fun cache_write_chunks ::
  "'d block_ops \<Rightarrow> nat \<Rightarrow> u64 \<Rightarrow> nat list \<Rightarrow> bytes \<Rightarrow> 'd cached_device
    \<Rightarrow> (storage_error + unit) \<times> 'd cached_device" where
  "cache_write_chunks ops ss lba [] data c = (Inr (), c)"
| "cache_write_chunks ops ss lba (off # offs) data c =
    (case checked_add lba (of_nat off) of
       None \<Rightarrow> (Inl S_OutOfBounds, c)
     | Some s \<Rightarrow>
         (case entry_for ops s c of
            (Inl err, c') \<Rightarrow> (Inl err, c')
          | (Inr i, c') \<Rightarrow>
              cache_write_chunks ops ss lba offs data
                (touch i (c'\<lparr>cd_entries := (cd_entries c')
                   [i := (cd_entries c' ! i)\<lparr>ce_bytes := slice (off * ss) ss data,
                                              ce_dirty := True\<rparr>]\<rparr>))))"

fun write_back_all ::
  "'d block_ops \<Rightarrow> nat list \<Rightarrow> ('d cached_device, storage_error, unit) action" where
  "write_back_all ops [] c = (Inr (), c)"
| "write_back_all ops (i # is) c =
    (case write_back ops i c of
       (Inl err, c') \<Rightarrow> (Inl err, c')
     | (Inr _, c') \<Rightarrow> write_back_all ops is c')"

definition cache_flush ::
  "'d block_ops \<Rightarrow> ('d cached_device, storage_error, unit) action" where
  "cache_flush ops c =
    (case write_back_all ops [0..<length (cd_entries c)] c of
       (Inl err, c') \<Rightarrow> (Inl err, c')
     | (Inr _, c') \<Rightarrow>
         (case flush_device ops (cd_inner c') of (r, d) \<Rightarrow> (r, c'\<lparr>cd_inner := d\<rparr>)))"

definition cache_ops :: "'d block_ops \<Rightarrow> 'd cached_device block_ops" where
  "cache_ops ops =
    \<lparr>sector_size = (\<lambda>c. sector_size ops (cd_inner c)),
     sector_count = (\<lambda>c. sector_count ops (cd_inner c)),
     read_sectors = (\<lambda>lba buf c.
       case validate_transfer ops c lba (length buf) of
         Inl err \<Rightarrow> (Inl err, buf, c)
       | Inr ss \<Rightarrow> cache_read_chunks ops ss lba [0..<length buf div ss] buf c),
     write_sectors = (\<lambda>lba data c.
       case validate_transfer ops c lba (length data) of
         Inl err \<Rightarrow> (Inl err, c)
       | Inr ss \<Rightarrow> cache_write_chunks ops ss lba [0..<length data div ss] data c),
     flush_device = cache_flush ops\<rparr>"

definition into_inner :: "'d block_ops \<Rightarrow> 'd cached_device \<Rightarrow> storage_error + 'd" where
  "into_inner ops c = (case cache_flush ops c of (Inl err, _) \<Rightarrow> Inl err | (Inr _, c') \<Rightarrow> Inr (cd_inner c'))"

section \<open>Entries over a device\<close>

text \<open>
  \<open>overlay es f\<close> is the content that the entries \<open>es\<close> give over a device whose sectors are
  \<open>f\<close>; \<open>entries_ok\<close> says that no sector is cached twice and that a clean entry agrees with
  the device.
\<close>

definition overlay :: "cache_entry list \<Rightarrow> (nat \<Rightarrow> bytes) \<Rightarrow> nat \<Rightarrow> bytes" where
  "overlay es f k =
    (case find (\<lambda>e. unat (ce_lba e) = k) es of Some e \<Rightarrow> ce_bytes e | None \<Rightarrow> f k)"

definition entry_ok :: "nat \<Rightarrow> nat \<Rightarrow> (nat \<Rightarrow> bytes) \<Rightarrow> cache_entry \<Rightarrow> bool" where
  "entry_ok ss n f e \<longleftrightarrow>
    unat (ce_lba e) < n \<and> length (ce_bytes e) = ss \<and>
    (\<not> ce_dirty e \<longrightarrow> ce_bytes e = f (unat (ce_lba e)))"

definition entries_ok :: "nat \<Rightarrow> nat \<Rightarrow> (nat \<Rightarrow> bytes) \<Rightarrow> cache_entry list \<Rightarrow> bool" where
  "entries_ok ss n f es \<longleftrightarrow>
    distinct (map ce_lba es) \<and> (\<forall>i < length es. entry_ok ss n f (es ! i))"

lemma lba_unique:
  assumes "entries_ok ss n f es" "i < length es" "j < length es"
    "unat (ce_lba (es ! i)) = unat (ce_lba (es ! j))"
  shows "i = j"
proof -
  have "map ce_lba es ! i = map ce_lba es ! j" using assms by (simp add: word_unat_eq_iff)
  with assms show ?thesis
    using nth_eq_iff_index_eq [of "map ce_lba es" i j] by (simp add: entries_ok_def)
qed

lemma overlay_hit:
  assumes "entries_ok ss n f es" "i < length es" "unat (ce_lba (es ! i)) = k"
  shows "overlay es f k = ce_bytes (es ! i)"
proof -
  obtain e where e: "find (\<lambda>e. unat (ce_lba e) = k) es = Some e"
    using assms(2,3) by (cases "find (\<lambda>e. unat (ce_lba e) = k) es") (auto simp: find_None_iff)
  then obtain j where "j < length es" "unat (ce_lba (es ! j)) = k" "e = es ! j"
    by (auto simp: find_Some_iff)
  then have "e = es ! i" using lba_unique [OF assms(1), of j i] assms(2,3) by simp
  with e show ?thesis by (simp add: overlay_def)
qed

lemma overlay_miss:
  "(\<And>i. i < length es \<Longrightarrow> unat (ce_lba (es ! i)) \<noteq> k) \<Longrightarrow> overlay es f k = f k"
proof -
  assume "\<And>i. i < length es \<Longrightarrow> unat (ce_lba (es ! i)) \<noteq> k"
  then have "find (\<lambda>e. unat (ce_lba e) = k) es = None" by (auto simp: find_None_iff in_set_conv_nth)
  then show ?thesis by (simp add: overlay_def)
qed

lemma distinct_update:
  assumes "distinct (map ce_lba es)" "i < length es"
    and "\<And>j. j < length es \<Longrightarrow> j \<noteq> i \<Longrightarrow> ce_lba (es ! j) \<noteq> ce_lba e"
  shows "distinct (map ce_lba (es[i := e]))"
  unfolding map_update
proof (rule distinct_list_update [OF assms(1)])
  show "ce_lba e \<notin> set (map ce_lba es) - {map ce_lba es ! i}"
    using assms(2,3) by (auto simp: in_set_conv_nth) metis
qed

lemma entries_ok_update:
  assumes ok: "entries_ok ss n f es" and i: "i < length es" and e: "entry_ok ss n f' e"
    and lba: "\<And>j. j < length es \<Longrightarrow> j \<noteq> i \<Longrightarrow> ce_lba (es ! j) \<noteq> ce_lba e"
    and f': "\<And>j. j < length es \<Longrightarrow> j \<noteq> i \<Longrightarrow> f' (unat (ce_lba (es ! j))) = f (unat (ce_lba (es ! j)))"
  shows "entries_ok ss n f' (es[i := e])"
  using assms distinct_update [of es i e]
  by (auto simp: entries_ok_def entry_ok_def nth_list_update)

text \<open>The content after one entry is replaced.\<close>

lemma overlay_update:
  assumes ok: "entries_ok ss n f es" and ok': "entries_ok ss n f' (es[i := e])" and i: "i < length es"
    and f': "k \<noteq> unat (ce_lba (es ! i)) \<Longrightarrow> f' k = f k"
  shows "overlay (es[i := e]) f' k =
    (if k = unat (ce_lba e) then ce_bytes e
     else if k = unat (ce_lba (es ! i)) then f' k else overlay es f k)"
proof (cases "k = unat (ce_lba e)")
  case True
  then show ?thesis using overlay_hit [OF ok', of i k] i by simp
next
  case False
  show ?thesis
  proof (cases "\<exists>j < length es. j \<noteq> i \<and> unat (ce_lba (es ! j)) = k")
    case True
    then obtain j where j: "j < length es" "j \<noteq> i" "unat (ce_lba (es ! j)) = k" by blast
    then have "k \<noteq> unat (ce_lba (es ! i))" using lba_unique [OF ok i j(1)] by auto
    with False j show ?thesis
      using overlay_hit [OF ok', of j k] overlay_hit [OF ok, of j k] by simp
  next
    case none: False
    then have "overlay (es[i := e]) f' k = f' k"
      using False i by (intro overlay_miss) (auto simp: nth_list_update split: if_splits)
    moreover have "overlay es f k = f k" if "k \<noteq> unat (ce_lba (es ! i))"
      using none that by (intro overlay_miss) metis
    ultimately show ?thesis using False f' by simp
  qed
qed

lemma entries_ok_append:
  assumes ok: "entries_ok ss n f es" and e: "entry_ok ss n f e"
    and new: "\<And>j. j < length es \<Longrightarrow> ce_lba (es ! j) \<noteq> ce_lba e"
  shows "entries_ok ss n f (es @ [e])"
  using assms by (auto simp: entries_ok_def nth_append in_set_conv_nth less_Suc_eq) blast

lemma overlay_append:
  assumes "entries_ok ss n f (es @ [e])" "ce_bytes e = f (unat (ce_lba e))"
  shows "overlay (es @ [e]) f k = overlay es f k"
proof -
  have "find P (es @ [e]) = (case find P es of None \<Rightarrow> if P e then Some e else None | Some x \<Rightarrow> Some x)" for P
    by (induction es) auto
  with assms(2) show ?thesis by (simp add: overlay_def split: option.split)
qed

lemma overlay_cong:
  "(\<And>k. k < n \<Longrightarrow> f' k = f k) \<Longrightarrow> k < n \<Longrightarrow> overlay es f' k = overlay es f k"
  by (simp add: overlay_def split: option.split)

lemma entries_ok_cong:
  "(\<And>k. k < n \<Longrightarrow> f' k = f k) \<Longrightarrow> entries_ok ss n f es \<Longrightarrow> entries_ok ss n f' es"
  by (auto simp: entries_ok_def entry_ok_def)

section \<open>The sectors a cache holds\<close>

definition cache_sec :: "('d \<Rightarrow> nat \<Rightarrow> bytes) \<Rightarrow> 'd cached_device \<Rightarrow> nat \<Rightarrow> bytes" where
  "cache_sec sec c = overlay (cd_entries c) (sec (cd_inner c))"

definition cache_inv ::
  "'d block_ops \<Rightarrow> ('d \<Rightarrow> bool) \<Rightarrow> ('d \<Rightarrow> nat \<Rightarrow> bytes) \<Rightarrow> 'd cached_device \<Rightarrow> bool" where
  "cache_inv ops invar sec c \<longleftrightarrow>
    invar (cd_inner c) \<and> 0 < cd_capacity c \<and> length (cd_entries c) \<le> cd_capacity c \<and>
    entries_ok (sector_bytes ops (cd_inner c)) (sectors ops (cd_inner c)) (sec (cd_inner c))
      (cd_entries c)"

lemma cache_sizes [simp]:
  "sector_bytes (cache_ops ops) c = sector_bytes ops (cd_inner c)"
  "sectors (cache_ops ops) c = sectors ops (cd_inner c)"
  "sector_size (cache_ops ops) c = sector_size ops (cd_inner c)"
  "sector_count (cache_ops ops) c = sector_count ops (cd_inner c)"
  by (simp_all add: sector_bytes_def sectors_def cache_ops_def)


text \<open>Only the stamps and statistics differ.\<close>

lemma touch_entries:
  "i < length (cd_entries c) \<Longrightarrow>
    \<exists>s. cd_entries (touch i c) = (cd_entries c)[i := (cd_entries c ! i)\<lparr>ce_stamp := s\<rparr>]"
  "cd_inner (touch i c) = cd_inner c" "cd_capacity (touch i c) = cd_capacity c"
  by (auto simp: touch_def Let_def)

lemma stamp_overlay: "overlay (es[i := (es ! i)\<lparr>ce_stamp := s\<rparr>]) f = overlay es f"
proof (cases "i < length es")
  case True
  have *: "map (\<lambda>e. (ce_lba e, ce_bytes e)) (es[i := (es ! i)\<lparr>ce_stamp := s\<rparr>])
      = map (\<lambda>e. (ce_lba e, ce_bytes e)) es"
    using True by (simp add: map_update list_update_same_conv)
  have find: "(case find (\<lambda>e. unat (ce_lba e) = k) xs of Some e \<Rightarrow> ce_bytes e | None \<Rightarrow> f k)
      = (case find (\<lambda>p. unat (fst p) = k) (map (\<lambda>e. (ce_lba e, ce_bytes e)) xs) of
           Some p \<Rightarrow> snd p | None \<Rightarrow> f k)" for xs k
    by (induction xs) auto
  show ?thesis unfolding overlay_def fun_eq_iff find * by simp
next
  case False
  then show ?thesis by (simp add: list_update_beyond)
qed


lemma lru_index_exists: "es \<noteq> [] \<Longrightarrow> \<exists>i < length es. lru_index es = Some i"
proof -
  assume "es \<noteq> []"
  then have "Min (ce_stamp ` set es) \<in> ce_stamp ` set es" by (intro Min_in) simp_all
  then obtain e where "e \<in> set es" "ce_stamp e = Min (ce_stamp ` set es)" by auto
  then have "\<exists>i. lru_index es = Some i"
    unfolding lru_index_def by (intro position_exists [of e]) simp_all
  then show ?thesis unfolding lru_index_def by (auto dest: position_SomeD)
qed

lemma cache_methods [simp]:
  "read_sectors (cache_ops ops) lba buf c =
    (case validate_transfer ops c lba (length buf) of
       Inl err \<Rightarrow> (Inl err, buf, c)
     | Inr ss \<Rightarrow> cache_read_chunks ops ss lba [0..<length buf div ss] buf c)"
  "write_sectors (cache_ops ops) lba data c =
    (case validate_transfer ops c lba (length data) of
       Inl err \<Rightarrow> (Inl err, c)
     | Inr ss \<Rightarrow> cache_write_chunks ops ss lba [0..<length data div ss] data c)"
  "flush_device (cache_ops ops) c = cache_flush ops c"
  by (simp_all add: cache_ops_def)

section \<open>The cache of a reliable device\<close>

lemma one_sector [simp]: "sector_range f a 1 = f a"
  using sector_range_Suc(2) [of f a 0] by simp

lemma put_one_sector:
  "length data = ss \<Longrightarrow> put_sectors ss a 1 data f k = (if k = a then data else f k)"
  by (auto simp: put_sectors_def)

context reliable_device
begin

lemma cache_same_disk:
  assumes "sector_size ops (cd_inner c') = sector_size ops (cd_inner c)"
    "sector_count ops (cd_inner c') = sector_count ops (cd_inner c)"
    "\<And>k. k < sectors ops (cd_inner c) \<Longrightarrow> cache_sec sec c' k = cache_sec sec c k"
  shows "same_disk (cache_ops ops) (cache_sec sec) c c'"
  using assms by (simp add: same_disk_def)

lemma touch_inv:
  assumes inv: "cache_inv ops invar sec c" and i: "i < length (cd_entries c)"
  shows "cache_inv ops invar sec (touch i c)" "cache_sec sec (touch i c) = cache_sec sec c"
    "length (cd_entries (touch i c)) = length (cd_entries c)"
    "ce_lba (cd_entries (touch i c) ! i) = ce_lba (cd_entries c ! i)"
    "ce_bytes (cd_entries (touch i c) ! i) = ce_bytes (cd_entries c ! i)"
proof -
  let ?ok = "entries_ok (sector_bytes ops (cd_inner c)) (sectors ops (cd_inner c)) (sec (cd_inner c))"
  obtain s where s: "cd_entries (touch i c) = (cd_entries c)[i := (cd_entries c ! i)\<lparr>ce_stamp := s\<rparr>]"
    using touch_entries(1) [OF i] by blast
  have ok: "?ok (cd_entries c)" using inv by (simp add: cache_inv_def)
  have "?ok (cd_entries (touch i c))"
    unfolding s
  proof (rule entries_ok_update [OF ok i])
    show "entry_ok (sector_bytes ops (cd_inner c)) (sectors ops (cd_inner c)) (sec (cd_inner c))
        ((cd_entries c ! i)\<lparr>ce_stamp := s\<rparr>)"
      using ok i by (simp add: entries_ok_def entry_ok_def)
    show "ce_lba (cd_entries c ! j) \<noteq> ce_lba ((cd_entries c ! i)\<lparr>ce_stamp := s\<rparr>)"
      if "j < length (cd_entries c)" "j \<noteq> i" for j
      using lba_unique [OF ok i that(1)] that(2) by auto
  qed simp
  then show "cache_inv ops invar sec (touch i c)"
    using inv by (simp add: cache_inv_def touch_entries s)
  show "cache_sec sec (touch i c) = cache_sec sec c"
    by (simp add: cache_sec_def touch_entries s stamp_overlay)
  show "length (cd_entries (touch i c)) = length (cd_entries c)"
    "ce_lba (cd_entries (touch i c) ! i) = ce_lba (cd_entries c ! i)"
    "ce_bytes (cd_entries (touch i c) ! i) = ce_bytes (cd_entries c ! i)"
    using i by (simp_all add: s)
qed

lemma write_back_good:
  assumes inv: "cache_inv ops invar sec c" and i: "i < length (cd_entries c)"
  shows "\<exists>c'. write_back ops i c = (Inr (), c') \<and> cache_inv ops invar sec c' \<and>
    same_disk (cache_ops ops) (cache_sec sec) c c' \<and> cd_capacity c' = cd_capacity c \<and>
    cd_entries c' = (cd_entries c)[i := (cd_entries c ! i)\<lparr>ce_dirty := False\<rparr>]"
proof (cases "ce_dirty (cd_entries c ! i)")
  case False
  then have "(cd_entries c ! i)\<lparr>ce_dirty := False\<rparr> = cd_entries c ! i" by simp
  then have "(cd_entries c)[i := (cd_entries c ! i)\<lparr>ce_dirty := False\<rparr>] = cd_entries c"
    by (simp only: list_update_id)
  with False inv show ?thesis by (simp add: write_back_def)
next
  case True
  let ?d = "cd_inner c" and ?es = "cd_entries c" and ?e = "cd_entries c ! i"
  let ?ss = "sector_bytes ops ?d" and ?n = "sectors ops ?d" and ?f = "sec ?d"
  have ok: "entries_ok ?ss ?n ?f ?es" and d: "invar ?d" using inv by (simp_all add: cache_inv_def)
  have e: "unat (ce_lba ?e) < ?n" "length (ce_bytes ?e) = ?ss"
    using ok i by (simp_all add: entries_ok_def entry_ok_def)
  then have "good_transfer ops ?d (ce_lba ?e) (length (ce_bytes ?e)) 1" by (simp add: good_transfer_def)
  then obtain d' where w: "write_sectors ops (ce_lba ?e) (ce_bytes ?e) ?d = (Inr (), d')" "invar d'"
    "sector_size ops d' = sector_size ops ?d" "sector_count ops d' = sector_count ops ?d"
    "\<And>k. k < ?n \<Longrightarrow> sec d' k = (if k = unat (ce_lba ?e) then ce_bytes ?e else ?f k)"
    using write_good [OF d] put_one_sector [OF e(2)] by fastforce
  have sizes: "sector_bytes ops d' = ?ss" "sectors ops d' = ?n"
    using w(3,4) by (simp_all add: sector_bytes_def sectors_def)
  let ?es' = "?es[i := ?e\<lparr>ce_dirty := False\<rparr>]"
  have ok': "entries_ok ?ss ?n (sec d') ?es'"
  proof (rule entries_ok_update [OF ok i])
    show "entry_ok ?ss ?n (sec d') (?e\<lparr>ce_dirty := False\<rparr>)"
      using e w(5) [OF e(1)] by (simp add: entry_ok_def)
    fix j assume j: "j < length ?es" "j \<noteq> i"
    then have "unat (ce_lba (?es ! j)) \<noteq> unat (ce_lba ?e)" using lba_unique [OF ok j(1) i] by blast
    moreover have "unat (ce_lba (?es ! j)) < ?n" using ok j by (simp add: entries_ok_def entry_ok_def)
    ultimately show "ce_lba (?es ! j) \<noteq> ce_lba (?e\<lparr>ce_dirty := False\<rparr>)"
      "sec d' (unat (ce_lba (?es ! j))) = ?f (unat (ce_lba (?es ! j)))"
      using w(5) by auto
  qed
  have view: "overlay ?es' (sec d') k = overlay ?es ?f k" if "k < ?n" for k
    using overlay_update [OF ok ok' i, of k] w(5) [OF that] overlay_hit [OF ok i, of k] by auto
  let ?c' = "c\<lparr>cd_inner := d', cd_entries := ?es',
      cd_stats := (cd_stats c)\<lparr>cs_writebacks := saturating_add (cs_writebacks (cd_stats c)) 1\<rparr>\<rparr>"
  have "write_back ops i c = (Inr (), ?c')" using True w(1) by (simp add: write_back_def)
  moreover have "cache_inv ops invar sec ?c'"
    using inv ok' sizes w(2) by (simp add: cache_inv_def)
  moreover have "same_disk (cache_ops ops) (cache_sec sec) c ?c'"
    using w(3,4) view by (intro cache_same_disk) (simp_all add: cache_sec_def)
  ultimately show ?thesis by simp
qed


text \<open>
  Claiming a slot for a sector that is not cached: once the sector has been read into the
  slot, the cache holds what it held before.
\<close>

lemma claim_slot_good:
  assumes inv: "cache_inv ops invar sec c" and lba: "unat lba < sectors ops (cd_inner c)"
    and new: "\<And>j. j < length (cd_entries c) \<Longrightarrow> ce_lba (cd_entries c ! j) \<noteq> lba"
  shows "\<exists>i c'. claim_slot ops lba c = (Inr i, c') \<and> i < length (cd_entries c') \<and>
    length (cd_entries c') \<le> cd_capacity c' \<and> cd_capacity c' = cd_capacity c \<and> invar (cd_inner c') \<and>
    sector_size ops (cd_inner c') = sector_size ops (cd_inner c) \<and>
    sector_count ops (cd_inner c') = sector_count ops (cd_inner c) \<and>
    length (ce_bytes (cd_entries c' ! i)) = sector_bytes ops (cd_inner c) \<and>
    ce_lba (cd_entries c' ! i) = lba \<and>
    (\<forall>s. let es = (cd_entries c')[i := \<lparr>ce_lba = lba, ce_bytes = sec (cd_inner c') (unat lba),
                                      ce_dirty = False, ce_stamp = s\<rparr>]
         in entries_ok (sector_bytes ops (cd_inner c)) (sectors ops (cd_inner c)) (sec (cd_inner c')) es \<and>
            (\<forall>k < sectors ops (cd_inner c). overlay es (sec (cd_inner c')) k = cache_sec sec c k))"
proof -
  let ?d = "cd_inner c" and ?es = "cd_entries c"
  let ?ss = "sector_bytes ops ?d" and ?n = "sectors ops ?d"
  have ok: "entries_ok ?ss ?n (sec ?d) ?es" and d: "invar ?d" and cap: "length ?es \<le> cd_capacity c"
    and pos: "0 < cd_capacity c"
    using inv by (simp_all add: cache_inv_def)
  show ?thesis
  proof (cases "length ?es < cd_capacity c")
    case True
    let ?new = "\<lambda>s. \<lparr>ce_lba = lba, ce_bytes = sec ?d (unat lba), ce_dirty = False, ce_stamp = s\<rparr>"
    have ok': "entries_ok ?ss ?n (sec ?d) (?es @ [?new s])" for s
      using new lba sec_length [OF d lba] by (intro entries_ok_append [OF ok]) (simp_all add: entry_ok_def)
    have "overlay (?es @ [?new s]) (sec ?d) k = cache_sec sec c k" for s k
      using overlay_append [OF ok'] by (simp add: cache_sec_def)
    then show ?thesis
      using True d ok' by (simp add: claim_slot_def nth_append sector_bytes_def)
  next
    case False
    then have "?es \<noteq> []" using pos cap by auto
    then obtain i where i: "i < length ?es" "lru_index ?es = Some i" using lru_index_exists by blast
    obtain c1 where c1: "write_back ops i c = (Inr (), c1)" "cache_inv ops invar sec c1"
      "same_disk (cache_ops ops) (cache_sec sec) c c1" "cd_capacity c1 = cd_capacity c"
      "cd_entries c1 = ?es[i := (?es ! i)\<lparr>ce_dirty := False\<rparr>]"
      using write_back_good [OF inv i(1)] by blast
    let ?f = "sec (cd_inner c1)" and ?es1 = "cd_entries c1"
    have sizes: "sector_bytes ops (cd_inner c1) = ?ss" "sectors ops (cd_inner c1) = ?n"
      using same_disk_sizes [OF c1(3)] by simp_all
    have ok1: "entries_ok ?ss ?n ?f ?es1" using c1(2) sizes by (simp add: cache_inv_def)
    have i1: "i < length ?es1" using i(1) c1(5) by simp
    have lba1: "ce_lba (?es1 ! j) \<noteq> lba" if "j < length ?es1" for j
      using new [of j] that c1(5) by (cases "j = i") simp_all
    have d1: "invar (cd_inner c1)" using c1(2) by (simp add: cache_inv_def)
    have view: "cache_sec sec c k = overlay ?es1 ?f k" if "k < ?n" for k
      using c1(3) that by (simp add: same_disk_def cache_sec_def)
    have old: "ce_bytes (?es1 ! i) = ?f (unat (ce_lba (?es1 ! i)))" "length (ce_bytes (?es1 ! i)) = ?ss"
      using ok1 i1 c1(5) i(1) by (auto simp: entries_ok_def entry_ok_def)
    let ?new = "\<lambda>s. \<lparr>ce_lba = lba, ce_bytes = ?f (unat lba), ce_dirty = False, ce_stamp = s\<rparr>"
    have ok2: "entries_ok ?ss ?n ?f (?es1[i := ?new s])" for s
      using lba lba1 sec_length [OF d1, of "unat lba"] sizes
      by (intro entries_ok_update [OF ok1 i1]) (simp_all add: entry_ok_def)
    have miss: "overlay ?es1 ?f (unat lba) = ?f (unat lba)"
      using lba1 by (intro overlay_miss) (auto simp: word_unat_eq_iff)
    have "overlay (?es1[i := ?new s]) ?f k = cache_sec sec c k" if "k < ?n" for s k
      using overlay_update [OF ok1 ok2 i1, of k] view [OF that] miss old overlay_hit [OF ok1 i1, of k]
      by auto
    then show ?thesis
      using False i(2) c1(1,3,4) ok2 old(2) d1 i1 cap c1(5)
      by (simp add: claim_slot_def same_disk_def)
  qed
qed


lemma entry_for_good:
  assumes inv: "cache_inv ops invar sec c" and lba: "unat lba < sectors ops (cd_inner c)"
  shows "\<exists>i c'. entry_for ops lba c = (Inr i, c') \<and> cache_inv ops invar sec c' \<and>
    same_disk (cache_ops ops) (cache_sec sec) c c' \<and> i < length (cd_entries c') \<and>
    ce_lba (cd_entries c' ! i) = lba \<and> ce_bytes (cd_entries c' ! i) = cache_sec sec c (unat lba)"
proof (cases "position (\<lambda>e. ce_lba e = lba) (cd_entries c)")
  case (Some i)
  let ?c = "c\<lparr>cd_stats := (cd_stats c)\<lparr>cs_hits := saturating_add (cs_hits (cd_stats c)) 1\<rparr>\<rparr>"
  have inv': "cache_inv ops invar sec ?c" using inv by (simp add: cache_inv_def)
  have i: "i < length (cd_entries ?c)" "ce_lba (cd_entries c ! i) = lba"
    using position_SomeD [OF Some] by simp_all
  have ok: "entries_ok (sector_bytes ops (cd_inner c)) (sectors ops (cd_inner c)) (sec (cd_inner c))
      (cd_entries c)" using inv by (simp add: cache_inv_def)
  have "ce_bytes (cd_entries c ! i) = cache_sec sec c (unat lba)"
    using overlay_hit [OF ok, of i] i by (simp add: cache_sec_def)
  moreover have "same_disk (cache_ops ops) (cache_sec sec) c (touch i ?c)"
    using touch_inv(2) [OF inv' i(1)]
    by (intro cache_same_disk) (simp_all add: touch_entries cache_sec_def)
  ultimately show ?thesis
    using Some touch_inv [OF inv' i(1)] i by (simp add: entry_for_def)
next
  case None
  let ?c1 = "c\<lparr>cd_stats := (cd_stats c)\<lparr>cs_misses := saturating_add (cs_misses (cd_stats c)) 1\<rparr>\<rparr>"
  let ?n = "sectors ops (cd_inner c)" and ?ss = "sector_bytes ops (cd_inner c)"
  have inv1: "cache_inv ops invar sec ?c1" using inv by (simp add: cache_inv_def)
  have new: "ce_lba (cd_entries ?c1 ! j) \<noteq> lba" if "j < length (cd_entries ?c1)" for j
    using None that by (simp add: position_None_iff)
  obtain i c2 where c2: "claim_slot ops lba ?c1 = (Inr i, c2)" "i < length (cd_entries c2)"
    "length (cd_entries c2) \<le> cd_capacity c2" "cd_capacity c2 = cd_capacity c" "invar (cd_inner c2)"
    "sector_size ops (cd_inner c2) = sector_size ops (cd_inner c)"
    "sector_count ops (cd_inner c2) = sector_count ops (cd_inner c)"
    "length (ce_bytes (cd_entries c2 ! i)) = ?ss" "ce_lba (cd_entries c2 ! i) = lba"
    and fill: "\<And>s. entries_ok ?ss ?n (sec (cd_inner c2)) ((cd_entries c2)[i := \<lparr>ce_lba = lba,
        ce_bytes = sec (cd_inner c2) (unat lba), ce_dirty = False, ce_stamp = s\<rparr>])"
      "\<And>s k. k < ?n \<Longrightarrow> overlay ((cd_entries c2)[i := \<lparr>ce_lba = lba,
        ce_bytes = sec (cd_inner c2) (unat lba), ce_dirty = False, ce_stamp = s\<rparr>]) (sec (cd_inner c2)) k
        = cache_sec sec c k"
    using claim_slot_good [OF inv1 _ new] lba by (auto simp: Let_def cache_sec_def)
  have sizes: "sector_bytes ops (cd_inner c2) = ?ss" "sectors ops (cd_inner c2) = ?n"
    using c2(6,7) by (simp_all add: sector_bytes_def sectors_def)
  obtain d where d: "read_sectors ops lba (ce_bytes (cd_entries c2 ! i)) (cd_inner c2)
      = (Inr (), sec (cd_inner c2) (unat lba), d)" "invar d" "same_disk ops sec (cd_inner c2) d"
    using read_good [OF c2(5), of lba "ce_bytes (cd_entries c2 ! i)" 1] c2(8) lba sizes
    by (auto simp: good_transfer_def)
  let ?s = "ce_stamp (cd_entries c2 ! i)"
  let ?e = "\<lparr>ce_lba = lba, ce_bytes = sec (cd_inner c2) (unat lba), ce_dirty = False, ce_stamp = ?s\<rparr>"
  let ?c4 = "c2\<lparr>cd_inner := d, cd_entries := (cd_entries c2)[i := ?e]\<rparr>"
  have dsz: "sector_bytes ops d = ?ss" "sectors ops d = ?n" "sector_size ops d = sector_size ops (cd_inner c)"
    "sector_count ops d = sector_count ops (cd_inner c)"
    using same_disk_sizes [OF d(3)] sizes d(3) c2(6,7) by (simp_all add: same_disk_def)
  have same: "sec d k = sec (cd_inner c2) k" if "k < ?n" for k
    using d(3) that sizes by (simp add: same_disk_def)
  have "entries_ok ?ss ?n (sec d) ((cd_entries c2)[i := ?e])"
    by (rule entries_ok_cong [OF _ fill(1)]) (rule same)
  then have inv4: "cache_inv ops invar sec ?c4"
    using c2(2-5) d(2) dsz inv by (simp add: cache_inv_def)
  have view4: "cache_sec sec ?c4 k = cache_sec sec c k" if "k < ?n" for k
    using fill(2) [OF that, of ?s] overlay_cong [OF same that, where es = "(cd_entries c2)[i := ?e]"]
    by (simp add: cache_sec_def)
  have i4: "i < length (cd_entries ?c4)" using c2(2) by simp
  have "(cd_entries c2 ! i)\<lparr>ce_bytes := sec (cd_inner c2) (unat lba), ce_dirty := False\<rparr> = ?e"
    using c2(9) by simp
  then have run: "entry_for ops lba c = (Inr i, touch i ?c4)"
    using None c2(1,2) d(1) by (simp add: entry_for_def Let_def)
  have hit: "cache_sec sec c (unat lba) = ce_bytes ?e"
    using view4 [OF lba] overlay_hit [of ?ss ?n "sec d" "cd_entries ?c4" i "unat lba"] inv4 i4 dsz
    by (simp add: cache_inv_def cache_sec_def)
  have "same_disk (cache_ops ops) (cache_sec sec) c (touch i ?c4)"
    using touch_inv(2) [OF inv4 i4] view4 dsz
    by (intro cache_same_disk) (simp_all add: touch_entries)
  then show ?thesis
    using run touch_inv [OF inv4 i4] i4 hit by simp
qed


text \<open>Overwriting a cached sector.\<close>

lemma dirty_write:
  assumes inv: "cache_inv ops invar sec c" and i: "i < length (cd_entries c)"
    and lba: "ce_lba (cd_entries c ! i) = lba" and b: "length b = sector_bytes ops (cd_inner c)"
    and c': "c' = touch i (c\<lparr>cd_entries := (cd_entries c)[i := (cd_entries c ! i)\<lparr>ce_bytes := b, ce_dirty := True\<rparr>]\<rparr>)"
  shows "cache_inv ops invar sec c'" "cd_inner c' = cd_inner c"
    "cache_sec sec c' k = (if k = unat lba then b else cache_sec sec c k)"
proof -
  let ?d = "cd_inner c" and ?e = "(cd_entries c ! i)\<lparr>ce_bytes := b, ce_dirty := True\<rparr>"
  let ?c = "c\<lparr>cd_entries := (cd_entries c)[i := ?e]\<rparr>"
  have ok: "entries_ok (sector_bytes ops ?d) (sectors ops ?d) (sec ?d) (cd_entries c)"
    using inv by (simp add: cache_inv_def)
  have ok': "entries_ok (sector_bytes ops ?d) (sectors ops ?d) (sec ?d) ((cd_entries c)[i := ?e])"
  proof (rule entries_ok_update [OF ok i])
    show "entry_ok (sector_bytes ops ?d) (sectors ops ?d) (sec ?d) ?e"
      using ok i b by (simp add: entries_ok_def entry_ok_def)
    show "ce_lba (cd_entries c ! j) \<noteq> ce_lba ?e" if "j < length (cd_entries c)" "j \<noteq> i" for j
      using lba_unique [OF ok i that(1)] that(2) by auto
  qed simp
  then have inv': "cache_inv ops invar sec ?c" using inv by (simp add: cache_inv_def)
  have i': "i < length (cd_entries ?c)" using i by simp
  show "cache_inv ops invar sec c'" "cd_inner c' = cd_inner c"
    unfolding c' using touch_inv(1) [OF inv' i'] by (simp_all add: touch_entries)
  show "cache_sec sec c' k = (if k = unat lba then b else cache_sec sec c k)"
    unfolding c' touch_inv(2) [OF inv' i']
    using overlay_update [OF ok ok' i, of k] lba by (simp add: cache_sec_def)
qed

lemma chunk_lba:
  fixes lba :: u64
  assumes "unat lba + n \<le> sectors ops d" "m < n"
  shows "checked_add lba (of_nat m) = Some (lba + of_nat m)" "unat (lba + of_nat m) = unat lba + m"
proof -
  have "sectors ops d < 2 ^ 64" using unat_bound [of "sector_count ops d"] by (simp add: sectors_def)
  then have "unat (of_nat m :: u64) = m" "unat lba + m < 2 ^ 64"
    using assms by (simp_all add: unat_of_nat_fits)
  then show "checked_add lba (of_nat m) = Some (lba + of_nat m)" "unat (lba + of_nat m) = unat lba + m"
    by (simp_all add: checked_add_def unat_add_fits)
qed

lemma cache_read_chunks_good:
  assumes "cache_inv ops invar sec c" "unat lba + n \<le> sectors ops (cd_inner c)" "m \<le> n"
    and "length buf = n * sector_bytes ops (cd_inner c)"
  shows "\<exists>c'. cache_read_chunks ops (sector_bytes ops (cd_inner c)) lba [m..<n] buf c
      = (Inr (), take (m * sector_bytes ops (cd_inner c)) buf
                   @ sector_range (cache_sec sec c) (unat lba + m) (n - m), c') \<and>
    cache_inv ops invar sec c' \<and> same_disk (cache_ops ops) (cache_sec sec) c c'"
  using assms
proof (induction "n - m" arbitrary: m c buf)
  case 0
  then have "m = n" by simp
  with 0 show ?case by simp
next
  case (Suc k)
  let ?ss = "sector_bytes ops (cd_inner c)" and ?lba = "lba + of_nat m"
  have m: "m < n" using Suc.hyps(2) by simp
  note lba = chunk_lba [OF Suc.prems(2) m]
  obtain i c1 where c1: "entry_for ops ?lba c = (Inr i, c1)" "cache_inv ops invar sec c1"
    "same_disk (cache_ops ops) (cache_sec sec) c c1"
    "ce_bytes (cd_entries c1 ! i) = cache_sec sec c (unat lba + m)"
    using entry_for_good [OF Suc.prems(1), of ?lba] lba(2) m Suc.prems(2) by auto
  let ?b = "cache_sec sec c (unat lba + m)" and ?buf = "put_slice (m * ?ss) (cache_sec sec c (unat lba + m)) buf"
  have sz: "sector_bytes ops (cd_inner c1) = ?ss" "sectors ops (cd_inner c1) = sectors ops (cd_inner c)"
    using same_disk_sizes [OF c1(3)] by simp_all
  have view: "cache_sec sec c1 k = cache_sec sec c k" if "k < sectors ops (cd_inner c)" for k
    using c1(3) that by (simp add: same_disk_def)
  have b: "length ?b = ?ss"
  proof -
    have "entries_ok (sector_bytes ops (cd_inner c)) (sectors ops (cd_inner c)) (sec (cd_inner c)) (cd_entries c)"
      "invar (cd_inner c)" using Suc.prems(1) by (simp_all add: cache_inv_def)
    then show ?thesis using sec_length [of "cd_inner c" "unat lba + m"] m Suc.prems(2)
      by (auto simp: cache_sec_def overlay_def entries_ok_def entry_ok_def find_Some_iff split: option.split)
  qed
  have fit: "m * ?ss + ?ss \<le> length buf"
    using mult_le_mono1 [of "Suc m" n ?ss] m Suc.prems(4) by simp
  then have len: "length ?buf = n * ?ss" using b Suc.prems(4) by simp
  have "k = n - Suc m" using Suc.hyps(2) by simp
  then obtain c' where c': "cache_read_chunks ops ?ss lba [Suc m..<n] ?buf c1
      = (Inr (), take (Suc m * ?ss) ?buf @ sector_range (cache_sec sec c1) (unat lba + Suc m) (n - Suc m), c')"
    "cache_inv ops invar sec c'" "same_disk (cache_ops ops) (cache_sec sec) c1 c'"
    using Suc.hyps(1) [of "Suc m" c1 ?buf] c1(2) Suc.prems(2) m len sz by auto
  have "take (Suc m * ?ss) ?buf = take (m * ?ss) buf @ ?b"
    using b fit by (simp add: put_slice_def)
  moreover have "sector_range (cache_sec sec c1) (unat lba + Suc m) (n - Suc m)
      = sector_range (cache_sec sec c) (unat lba + Suc m) (n - Suc m)"
    using Suc.prems(2) m by (intro sector_range_cong view) simp
  moreover have "sector_range (cache_sec sec c) (unat lba + m) (n - m)
      = ?b @ sector_range (cache_sec sec c) (unat lba + Suc m) (n - Suc m)"
    using sector_range_Suc(2) [of "cache_sec sec c" "unat lba + m" "n - Suc m"] m by (simp add: Suc_diff_Suc)
  ultimately have out: "take (Suc m * ?ss) ?buf @ sector_range (cache_sec sec c1) (unat lba + Suc m) (n - Suc m)
      = take (m * ?ss) buf @ sector_range (cache_sec sec c) (unat lba + m) (n - m)"
    by simp
  have "cache_read_chunks ops ?ss lba [m..<n] buf c = cache_read_chunks ops ?ss lba [Suc m..<n] ?buf c1"
    using m lba(1) c1(1,4) by (simp add: upt_conv_Cons)
  with c' out same_disk_trans [OF c1(3) c'(3)] show ?case by simp
qed

lemma cache_write_chunks_good:
  assumes "cache_inv ops invar sec c" "unat lba + n \<le> sectors ops (cd_inner c)" "m \<le> n"
    and "length data = n * sector_bytes ops (cd_inner c)"
  shows "\<exists>c'. cache_write_chunks ops (sector_bytes ops (cd_inner c)) lba [m..<n] data c = (Inr (), c') \<and>
    cache_inv ops invar sec c' \<and>
    sector_size ops (cd_inner c') = sector_size ops (cd_inner c) \<and>
    sector_count ops (cd_inner c') = sector_count ops (cd_inner c) \<and>
    (\<forall>k < sectors ops (cd_inner c). cache_sec sec c' k =
       (if unat lba + m \<le> k \<and> k < unat lba + n
        then slice ((k - unat lba) * sector_bytes ops (cd_inner c)) (sector_bytes ops (cd_inner c)) data
        else cache_sec sec c k))"
  using assms
proof (induction "n - m" arbitrary: m c)
  case 0
  then have "m = n" by simp
  with 0 show ?case by auto
next
  case (Suc k)
  let ?ss = "sector_bytes ops (cd_inner c)" and ?lba = "lba + of_nat m"
  have m: "m < n" using Suc.hyps(2) by simp
  note lba = chunk_lba [OF Suc.prems(2) m]
  obtain i c1 where c1: "entry_for ops ?lba c = (Inr i, c1)" "cache_inv ops invar sec c1"
    "same_disk (cache_ops ops) (cache_sec sec) c c1" "i < length (cd_entries c1)"
    "ce_lba (cd_entries c1 ! i) = ?lba"
    using entry_for_good [OF Suc.prems(1), of ?lba] lba(2) m Suc.prems(2) by auto
  let ?b = "slice (m * ?ss) ?ss data"
  define c2 where "c2 = touch i (c1\<lparr>cd_entries := (cd_entries c1)
      [i := (cd_entries c1 ! i)\<lparr>ce_bytes := ?b, ce_dirty := True\<rparr>]\<rparr>)"
  have sz: "sector_bytes ops (cd_inner c1) = ?ss" "sectors ops (cd_inner c1) = sectors ops (cd_inner c)"
    using same_disk_sizes [OF c1(3)] by simp_all
  have view: "cache_sec sec c1 k = cache_sec sec c k" if "k < sectors ops (cd_inner c)" for k
    using c1(3) that by (simp add: same_disk_def)
  have fit: "m * ?ss + ?ss \<le> length data"
    using mult_le_mono1 [of "Suc m" n ?ss] m Suc.prems(4) by simp
  then have b: "length ?b = sector_bytes ops (cd_inner c1)" using sz by simp
  note c2 = dirty_write [OF c1(2,4,5) b c2_def]
  have "k = n - Suc m" using Suc.hyps(2) by simp
  then obtain c' where c': "cache_write_chunks ops ?ss lba [Suc m..<n] data c2 = (Inr (), c')"
    "cache_inv ops invar sec c'" "sector_size ops (cd_inner c') = sector_size ops (cd_inner c2)"
    "sector_count ops (cd_inner c') = sector_count ops (cd_inner c2)"
    "\<And>k. k < sectors ops (cd_inner c2) \<Longrightarrow> cache_sec sec c' k =
       (if unat lba + Suc m \<le> k \<and> k < unat lba + n then slice ((k - unat lba) * ?ss) ?ss data
        else cache_sec sec c2 k)"
    using Suc.hyps(1) [of "Suc m" c2] c2(1,2) Suc.prems(2,4) m sz by auto
  have "cache_write_chunks ops ?ss lba [m..<n] data c = cache_write_chunks ops ?ss lba [Suc m..<n] data c2"
    using m lba(1) c1(1) by (simp add: upt_conv_Cons c2_def)
  moreover have "cache_sec sec c' k = (if unat lba + m \<le> k \<and> k < unat lba + n
      then slice ((k - unat lba) * ?ss) ?ss data else cache_sec sec c k)"
    if "k < sectors ops (cd_inner c)" for k
    using c'(5) [of k] c2(2,3) that sz lba(2) view [OF that] m by auto
  moreover have "sector_size ops (cd_inner c') = sector_size ops (cd_inner c)"
    "sector_count ops (cd_inner c') = sector_count ops (cd_inner c)"
    using c'(3,4) c2(2) c1(3) by (simp_all add: same_disk_def)
  ultimately show ?case using c'(1,2) by simp
qed


lemma validate_good:
  assumes inv: "cache_inv ops invar sec c" and good: "good_transfer (cache_ops ops) c lba len n"
  shows "validate_transfer ops c lba len = Inr (sector_bytes ops (cd_inner c))"
    "len div sector_bytes ops (cd_inner c) = n" "unat lba + n \<le> sectors ops (cd_inner c)"
    "len = n * sector_bytes ops (cd_inner c)"
proof -
  let ?d = "cd_inner c"
  have n: "0 < n" "len = n * sector_bytes ops ?d" "unat lba + n \<le> sectors ops ?d"
    using good by (simp_all add: good_transfer_def)
  have ss: "0 < sector_bytes ops ?d" using inv geometry by (simp add: cache_inv_def)
  have big: "sectors ops ?d < 2 ^ 64" using unat_bound [of "sector_count ops ?d"] by (simp add: sectors_def)
  then have nn: "unat (of_nat n :: u64) = n" using n by (intro unat_of_nat_fits) simp
  then have add: "checked_add lba (of_nat n) = Some (lba + of_nat n)"
    "unat (lba + of_nat n) = unat lba + n"
    using n big by (simp_all add: checked_add_def unat_add_fits)
  show div: "len div sector_bytes ops ?d = n" using n ss by simp
  have "\<not> sector_count ops ?d < lba + of_nat n"
    using add(2) n(3) by (simp add: word_less_nat_alt sectors_def)
  then show "validate_transfer ops c lba len = Inr (sector_bytes ops ?d)"
    using n(1,2) ss div add(1) big n(3) by (simp add: validate_transfer_def Let_def sector_bytes_def)
  show "unat lba + n \<le> sectors ops ?d" "len = n * sector_bytes ops ?d" using n by simp_all
qed

lemma validate_bad:
  assumes bad: "bad_transfer (cache_ops ops) c lba len"
  shows "\<exists>e. validate_transfer ops c lba len = Inl e"
proof (cases "len mod sector_bytes ops (cd_inner c) = 0 \<and> len div sector_bytes ops (cd_inner c) < 2 ^ 64")
  case False
  then show ?thesis by (auto simp: validate_transfer_def Let_def sector_bytes_def)
next
  case True
  let ?n = "len div sector_bytes ops (cd_inner c)"
  have out: "sectors ops (cd_inner c) < unat lba + ?n" using bad True by (simp add: bad_transfer_def)
  have nn: "unat (of_nat ?n :: u64) = ?n" using True by (intro unat_of_nat_fits) simp
  show ?thesis
  proof (cases "checked_add lba (of_nat ?n :: u64)")
    case None
    then show ?thesis by (auto simp: validate_transfer_def Let_def sector_bytes_def)
  next
    case (Some e)
    then have "unat e = unat lba + ?n" using checked_add_SomeD nn by metis
    then have "sector_count ops (cd_inner c) < e" using out by (simp add: word_less_nat_alt sectors_def)
    with Some show ?thesis by (auto simp: validate_transfer_def Let_def sector_bytes_def)
  qed
qed

lemma write_back_all_good:
  assumes "cache_inv ops invar sec c" "\<forall>i \<in> set is. i < length (cd_entries c)"
  shows "\<exists>c'. write_back_all ops is c = (Inr (), c') \<and> cache_inv ops invar sec c' \<and>
    same_disk (cache_ops ops) (cache_sec sec) c c' \<and>
    length (cd_entries c') = length (cd_entries c) \<and>
    (\<forall>i < length (cd_entries c). i \<in> set is \<or> \<not> ce_dirty (cd_entries c ! i) \<longrightarrow>
       \<not> ce_dirty (cd_entries c' ! i))"
  using assms
proof (induction "is" arbitrary: c)
  case Nil
  then show ?case by simp
next
  case (Cons i "is")
  have i: "i < length (cd_entries c)" using Cons.prems(2) by simp
  obtain c1 where c1: "write_back ops i c = (Inr (), c1)" "cache_inv ops invar sec c1"
    "same_disk (cache_ops ops) (cache_sec sec) c c1"
    "cd_entries c1 = (cd_entries c)[i := (cd_entries c ! i)\<lparr>ce_dirty := False\<rparr>]"
    using write_back_good [OF Cons.prems(1) i] by blast
  then obtain c' where c': "write_back_all ops is c1 = (Inr (), c')" "cache_inv ops invar sec c'"
    "same_disk (cache_ops ops) (cache_sec sec) c1 c'" "length (cd_entries c') = length (cd_entries c)"
    "\<And>j. j < length (cd_entries c) \<Longrightarrow> j \<in> set is \<or> \<not> ce_dirty (cd_entries c1 ! j) \<Longrightarrow>
       \<not> ce_dirty (cd_entries c' ! j)"
    using Cons.IH [of c1] Cons.prems(2) by auto
  have "\<not> ce_dirty (cd_entries c' ! j)"
    if "j < length (cd_entries c)" "j \<in> set (i # is) \<or> \<not> ce_dirty (cd_entries c ! j)" for j
    using that c'(5) [of j] c1(4) by (cases "j = i") auto
  with c1(1) c' same_disk_trans [OF c1(3) c'(3)] show ?case by simp
qed

lemma clean_overlay:
  assumes "entries_ok ss n f es" "\<forall>i < length es. \<not> ce_dirty (es ! i)"
  shows "overlay es f k = f k"
  using assms by (auto simp: overlay_def entries_ok_def entry_ok_def find_Some_iff split: option.split)

lemma cache_flush_good:
  assumes inv: "cache_inv ops invar sec c"
  shows "\<exists>c'. cache_flush ops c = (Inr (), c') \<and> cache_inv ops invar sec c' \<and>
    same_disk (cache_ops ops) (cache_sec sec) c c' \<and>
    (\<forall>k < sectors ops (cd_inner c). sec (cd_inner c') k = cache_sec sec c k)"
proof -
  obtain c1 where c1: "write_back_all ops [0..<length (cd_entries c)] c = (Inr (), c1)"
    "cache_inv ops invar sec c1" "same_disk (cache_ops ops) (cache_sec sec) c c1"
    "length (cd_entries c1) = length (cd_entries c)"
    "\<forall>i < length (cd_entries c1). \<not> ce_dirty (cd_entries c1 ! i)"
    using write_back_all_good [OF inv, of "[0..<length (cd_entries c)]"] by auto
  let ?d = "cd_inner c1"
  have d: "invar ?d" and ok: "entries_ok (sector_bytes ops ?d) (sectors ops ?d) (sec ?d) (cd_entries c1)"
    using c1(2) by (simp_all add: cache_inv_def)
  obtain d' where d': "flush_device ops ?d = (Inr (), d')" "invar d'" "same_disk ops sec ?d d'"
    using flush_ok [OF d] by blast
  have sz: "sectors ops ?d = sectors ops (cd_inner c)" using same_disk_sizes [OF c1(3)] by simp
  note sz' = same_disk_sizes [OF d'(3)]
  have same: "sec d' k = sec ?d k" if "k < sectors ops ?d" for k
    using d'(3) that by (simp add: same_disk_def)
  have ok': "entries_ok (sector_bytes ops d') (sectors ops d') (sec d') (cd_entries c1)"
    using entries_ok_cong [OF same ok] sz' by simp
  have view: "overlay (cd_entries c1) (sec d') k = cache_sec sec c k"
    if "k < sectors ops (cd_inner c)" for k
    using c1(3) that overlay_cong [OF same, where es = "cd_entries c1"] sz
    by (simp add: same_disk_def cache_sec_def)
  let ?c = "c1\<lparr>cd_inner := d'\<rparr>"
  have "cache_flush ops c = (Inr (), ?c)" using c1(1) d'(1) by (simp add: cache_flush_def)
  moreover have "cache_inv ops invar sec ?c" using c1(2) d'(2) ok' by (simp add: cache_inv_def)
  moreover have "same_disk (cache_ops ops) (cache_sec sec) c ?c"
    using c1(3) d'(3) view by (simp add: same_disk_def cache_sec_def)
  moreover have "sec d' k = cache_sec sec c k" if "k < sectors ops (cd_inner c)" for k
    using view [OF that] clean_overlay [OF ok' c1(5)] by simp
  ultimately show ?thesis by simp
qed

theorem cache_reliable:
  "reliable_device (cache_ops ops) (cache_inv ops invar sec) (cache_sec sec)"
proof
  fix c
  assume inv: "cache_inv ops invar sec c"
  then have d: "invar (cd_inner c)" by (simp add: cache_inv_def)
  show "0 < sector_bytes (cache_ops ops) c" using geometry [OF d] by simp
  show "length (cache_sec sec c k) = sector_bytes (cache_ops ops) c" if "k < sectors (cache_ops ops) c" for k
    using that inv sec_length [OF d]
    by (auto simp: cache_inv_def cache_sec_def overlay_def entries_ok_def entry_ok_def find_Some_iff
        split: option.split)
  show "\<exists>c'. read_sectors (cache_ops ops) lba buf c
        = (Inr (), sector_range (cache_sec sec c) (unat lba) n, c') \<and>
        cache_inv ops invar sec c' \<and> same_disk (cache_ops ops) (cache_sec sec) c c'"
    if "good_transfer (cache_ops ops) c lba (length buf) n" for lba buf n
    using validate_good [OF inv that] cache_read_chunks_good [OF inv, of lba n 0 buf]
    by simp
  show "\<exists>e buf' c'. read_sectors (cache_ops ops) lba buf c = (Inl e, buf', c') \<and>
        cache_inv ops invar sec c' \<and> same_disk (cache_ops ops) (cache_sec sec) c c'"
    if "bad_transfer (cache_ops ops) c lba (length buf)" for lba buf
    using validate_bad [OF that] inv by auto
  show "\<exists>c'. write_sectors (cache_ops ops) lba data c = (Inr (), c') \<and>
        cache_inv ops invar sec c' \<and>
        sector_size (cache_ops ops) c' = sector_size (cache_ops ops) c \<and>
        sector_count (cache_ops ops) c' = sector_count (cache_ops ops) c \<and>
        (\<forall>k < sectors (cache_ops ops) c. cache_sec sec c' k
           = put_sectors (sector_bytes (cache_ops ops) c) (unat lba) n data (cache_sec sec c) k)"
    if "good_transfer (cache_ops ops) c lba (length data) n" for lba data n
    using validate_good [OF inv that] cache_write_chunks_good [OF inv, of lba n 0 data]
    by (simp add: put_sectors_def)
  show "\<exists>e c'. write_sectors (cache_ops ops) lba data c = (Inl e, c') \<and>
        cache_inv ops invar sec c' \<and> same_disk (cache_ops ops) (cache_sec sec) c c'"
    if "bad_transfer (cache_ops ops) c lba (length data)" for lba data
    using validate_bad [OF that] inv by auto
  show "\<exists>c'. flush_device (cache_ops ops) c = (Inr (), c') \<and>
        cache_inv ops invar sec c' \<and> same_disk (cache_ops ops) (cache_sec sec) c c'"
    using cache_flush_good [OF inv] by auto
qed

end

interpretation mem_cache: reliable_device "cache_ops memory_ops"
  "cache_inv memory_ops memory_inv memory_sec" "cache_sec memory_sec"
  by (rule mem.cache_reliable)


lemma cache_new_start:
  assumes dev: "reliable_device ops invar sec" and inv: "invar d" and new: "cache_new d cap = Inr c"
  shows "cache_inv ops invar sec c" "same_content (cache_ops ops) (cache_sec sec) ops sec c d"
  using assms
  by (auto simp: cache_new_def cache_inv_def entries_ok_def same_content_def cache_sec_def overlay_def
      split: if_splits)

section \<open>The properties\<close>

text \<open>C5. The cache is transparent. Over every device without faults, with any capacity, every
  sequence of non-empty reads, writes and flushes through the cache has the results it has on
  the device itself, and taking the device back with \<open>into_inner\<close> gives a device that holds
  exactly the sectors it would hold without the cache.\<close>

theorem cache_transparent:
  assumes dev: "reliable_device ops invar sec" and inv: "invar d" and new: "cache_new d cap = Inr c"
    and io: "\<forall>op \<in> set io. io_nonempty op"
  shows "fst (io_run (cache_ops ops) io c) = fst (io_run ops io d) \<and>
    (\<exists>d'. into_inner ops (snd (io_run (cache_ops ops) io c)) = Inr d' \<and>
          same_disk ops sec (snd (io_run ops io d)) d')"
proof -
  note start = cache_new_start [OF dev inv new]
  let ?c = "snd (io_run (cache_ops ops) io c)" and ?d = "snd (io_run ops io d)"
  have run: "fst (io_run (cache_ops ops) io c) = fst (io_run ops io d)" "cache_inv ops invar sec ?c"
    "same_content (cache_ops ops) (cache_sec sec) ops sec ?c ?d"
    using io_run_same [OF reliable_device.cache_reliable [OF dev] dev start(1) inv start(2) io] by auto
  obtain c' where c': "cache_flush ops ?c = (Inr (), c')"
    "same_disk (cache_ops ops) (cache_sec sec) ?c c'"
    "\<forall>k < sectors ops (cd_inner ?c). sec (cd_inner c') k = cache_sec sec ?c k"
    using reliable_device.cache_flush_good [OF dev run(2)] by blast
  have "same_disk ops sec ?d (cd_inner c')"
    using run(3) c'(2,3) by (auto simp: same_disk_def same_content_def sectors_def)
  with run(1) c'(1) show ?thesis by (simp add: into_inner_def)
qed

theorem cache_transparent_witness:
  "fst (io_run (cache_ops memory_ops) [IoWrite 1 (replicate 512 7), IoRead 0 512, IoRead 1 512]
     \<lparr>cd_inner = \<lparr>md_bytes = replicate 1024 0, md_sector_size = 512, md_read_only = False\<rparr>,
      cd_entries = [], cd_capacity = 1, cd_stamp = 0,
      cd_stats = \<lparr>cs_hits = 0, cs_misses = 0, cs_evictions = 0, cs_writebacks = 0\<rparr>\<rparr>)
   = fst (io_run memory_ops [IoWrite 1 (replicate 512 7), IoRead 0 512, IoRead 1 512]
     \<lparr>md_bytes = replicate 1024 0, md_sector_size = 512, md_read_only = False\<rparr>)"
  (is "fst (io_run _ ?io ?c) = fst (io_run _ _ ?d)")
proof -
  have inv: "memory_inv ?d" by (simp add: memory_inv_def)
  have new: "cache_new ?d 1 = Inr ?c" by (simp add: cache_new_def)
  have "\<forall>op \<in> set ?io. io_nonempty op" by simp
  from cache_transparent [OF mem.reliable_device_axioms inv new this] show ?thesis by blast
qed

section \<open>A device that fails\<close>

text \<open>
  The slot that a missing sector takes, with the bytes it holds and the inner device before the read: a
  new slot of zeroes, or the least recently used one after its write-back, which still holds the bytes
  of the sector it had.
\<close>

definition slot_taken :: "'d block_ops \<Rightarrow> 'd cached_device \<Rightarrow> nat \<Rightarrow> bytes \<Rightarrow> 'd \<Rightarrow> bool" where
  "slot_taken ops c i old d \<longleftrightarrow>
    (if length (cd_entries c) < cd_capacity c
     then i = length (cd_entries c) \<and> old = replicate (unat (sector_size ops (cd_inner c))) 0 \<and> d = cd_inner c
     else lru_index (cd_entries c) = Some i \<and> old = ce_bytes (cd_entries c ! i) \<and>
       (\<exists>w. write_back ops i c = (Inr (), w) \<and> cd_inner w = d))"

lemma write_back_slot:
  assumes "write_back ops i c = (Inr (), w)" "i < length (cd_entries c)"
  shows "\<exists>w'. write_back ops i (c\<lparr>cd_stats := s\<rparr>) = (Inr (), w') \<and> cd_inner w' = cd_inner w \<and>
    map ce_lba (cd_entries w') = map ce_lba (cd_entries c) \<and> ce_bytes (cd_entries w' ! i) = ce_bytes (cd_entries c ! i)"
proof -
  have "map ce_lba ((cd_entries c)[i := (cd_entries c ! i)\<lparr>ce_dirty := False\<rparr>]) = map ce_lba (cd_entries c)"
    using assms(2) by (intro nth_equalityI) (auto simp: nth_list_update)
  then show ?thesis
    using assms by (cases "ce_dirty (cd_entries c ! i)") (auto simp: write_back_def Let_def split: prod.splits sum.splits)
qed

lemma claim_slot_taken:
  assumes slot: "slot_taken ops c i old d" and miss: "lba \<notin> ce_lba ` set (cd_entries c)"
  shows "\<exists>c'. claim_slot ops lba (c\<lparr>cd_stats := s\<rparr>) = (Inr i, c') \<and> cd_inner c' = d \<and>
    i < length (cd_entries c') \<and> ce_bytes (cd_entries c' ! i) = old \<and>
    (\<forall>j < length (cd_entries c'). ce_lba (cd_entries c' ! j) = lba \<longleftrightarrow> j = i)"
proof (cases "length (cd_entries c) < cd_capacity c")
  case True
  then show ?thesis using slot miss by (auto simp: claim_slot_def slot_taken_def nth_append less_Suc_eq)
next
  case False
  then obtain w where l: "lru_index (cd_entries c) = Some i" "old = ce_bytes (cd_entries c ! i)"
    "write_back ops i c = (Inr (), w)" "cd_inner w = d" using slot by (auto simp: slot_taken_def)
  have i: "i < length (cd_entries c)" using l(1) unfolding lru_index_def by (rule position_SomeD)
  obtain w' where w': "write_back ops i (c\<lparr>cd_stats := s\<rparr>) = (Inr (), w')" "cd_inner w' = d"
    "map ce_lba (cd_entries w') = map ce_lba (cd_entries c)" "ce_bytes (cd_entries w' ! i) = old"
    using write_back_slot [OF l(3) i] l by blast
  have len: "length (cd_entries w') = length (cd_entries c)" using map_eq_imp_length_eq [OF w'(3)] .
  have "ce_lba (cd_entries w' ! j) \<noteq> lba" if "j < length (cd_entries w')" for j
    using that len miss arg_cong [OF w'(3), of "\<lambda>xs. xs ! j"] by (auto simp: image_iff)
  then show ?thesis using False l(1) w' i len by (auto simp: claim_slot_def nth_list_update)
qed

lemma one_sector_read:
  assumes "validate_transfer ops c lba (length out) = Inr ss" "length out = ss"
  shows "read_sectors (cache_ops ops) lba out c =
    (case entry_for ops lba c of
       (Inl err, c') \<Rightarrow> (Inl err, out, c')
     | (Inr i, c') \<Rightarrow> (Inr (), put_slice 0 (ce_bytes (cd_entries c' ! i)) out, c'))"
proof -
  have "0 < ss" using assms by (auto simp: validate_transfer_def Let_def split: if_splits)
  then have "[0..<length out div ss] = [0]" using assms(2) by simp
  moreover have "checked_add lba (of_nat 0) = Some lba" using unat_bound [of lba] by (simp add: checked_add_def)
  ultimately show ?thesis using assms(1) by (auto split: prod.splits sum.splits)
qed

text \<open>C32. A failed read poisons the cache, whether the missing sector takes a new slot or the slot of
  another sector. When the device refuses the read, reading the sector through the cache fails with
  that error, but the slot stays under the number of the sector: the next read of the sector succeeds,
  without asking the device, and returns what the failed transfer left in the slot. If the device left
  the buffer alone, these are zeroes or the bytes of the sector that was evicted.\<close>

theorem failed_read_is_cached:
  assumes "lba \<notin> ce_lba ` set (cd_entries c)" and "slot_taken ops c i old d0"
    and "read_sectors ops lba old d0 = (Inl err, left, d)"
    and "validate_transfer ops c lba (length out) = Inr ss" "length out = ss" "length left = ss"
    and "sector_size ops d = sector_size ops (cd_inner c)" "sector_count ops d = sector_count ops (cd_inner c)"
  shows "\<exists>c1 c2. read_sectors (cache_ops ops) lba out c = (Inl err, out, c1) \<and>
    read_sectors (cache_ops ops) lba out c1 = (Inr (), left, c2) \<and> cd_inner c1 = d \<and> cd_inner c2 = d"
proof -
  let ?s = "(cd_stats c)\<lparr>cs_misses := saturating_add (cs_misses (cd_stats c)) 1\<rparr>"
  have miss: "position (\<lambda>e. ce_lba e = lba) (cd_entries c) = None" using assms(1) by (auto simp: position_None_iff)
  obtain c' where c': "claim_slot ops lba (c\<lparr>cd_stats := ?s\<rparr>) = (Inr i, c')" "cd_inner c' = d0"
    "i < length (cd_entries c')" "ce_bytes (cd_entries c' ! i) = old"
    "\<forall>j < length (cd_entries c'). ce_lba (cd_entries c' ! j) = lba \<longleftrightarrow> j = i"
    using claim_slot_taken [OF assms(2,1)] by blast
  define c1 where "c1 = c'\<lparr>cd_inner := d, cd_entries := (cd_entries c')[i := (cd_entries c' ! i)\<lparr>ce_bytes := left\<rparr>]\<rparr>"
  have first: "entry_for ops lba c = (Inl err, c1)"
    using miss c'(1,2,4) assms(3) by (simp add: entry_for_def Let_def c1_def)
  have "position (\<lambda>e. ce_lba e = lba) (cd_entries c1) = Some i"
    using c'(3,5) by (auto simp: c1_def position_Some_iff nth_list_update)
  then obtain c2 where c2: "entry_for ops lba c1 = (Inr i, c2)" "ce_bytes (cd_entries c2 ! i) = left" "cd_inner c2 = d"
    using c'(3) by (simp add: entry_for_def touch_def Let_def c1_def)
  have inner: "cd_inner c1 = d" by (simp add: c1_def)
  have "validate_transfer ops c1 lba (length out) = Inr ss"
    using assms(4) unfolding validate_transfer_def inner assms(7,8) .
  from one_sector_read [OF this assms(5)] c2 assms(5,6)
  have "read_sectors (cache_ops ops) lba out c1 = (Inr (), left, c2)" by (simp add: put_slice_def del: cache_methods)
  moreover have "read_sectors (cache_ops ops) lba out c = (Inl err, out, c1)"
    using one_sector_read [OF assms(4,5)] first by (simp del: cache_methods)
  ultimately show ?thesis using c2(3) inner by blast
qed

text \<open>A device of two sectors that refuses its first read, under a cache of one slot that holds sector
  zero: after the failed read of sector one, the cache answers for it with the bytes of sector zero.\<close>

definition flaky_ops :: "bool block_ops" where
  "flaky_ops =
    \<lparr>sector_size = (\<lambda>_. 512), sector_count = (\<lambda>_. 2),
     read_sectors = (\<lambda>_ buf failed. if failed then (Inr (), replicate 512 9, True) else (Inl S_Timeout, buf, True)),
     write_sectors = (\<lambda>_ _ failed. (Inr (), failed)),
     flush_device = (\<lambda>failed. (Inr (), failed))\<rparr>"

definition flaky_cache :: "bool cached_device" where
  "flaky_cache = \<lparr>cd_inner = False, cd_entries = [\<lparr>ce_lba = 0, ce_bytes = replicate 512 7, ce_dirty = False, ce_stamp = 1\<rparr>],
    cd_capacity = 1, cd_stamp = 1, cd_stats = \<lparr>cs_hits = 0, cs_misses = 1, cs_evictions = 0, cs_writebacks = 0\<rparr>\<rparr>"

theorem failed_read_is_cached_witness:
  "\<exists>c1 c2. read_sectors (cache_ops flaky_ops) 1 (replicate 512 0) flaky_cache = (Inl S_Timeout, replicate 512 0, c1) \<and>
    read_sectors (cache_ops flaky_ops) 1 (replicate 512 0) c1 = (Inr (), replicate 512 7, c2)"
proof -
  have "(1 :: u64) \<notin> ce_lba ` set (cd_entries flaky_cache)" by (simp add: flaky_cache_def)
  moreover have "slot_taken flaky_ops flaky_cache 0 (replicate 512 7) False"
    by (simp add: slot_taken_def flaky_cache_def lru_index_def write_back_def Let_def)
  moreover have "read_sectors flaky_ops 1 (replicate 512 7) False = (Inl S_Timeout, replicate 512 7, True)"
    by (simp add: flaky_ops_def)
  moreover have "validate_transfer flaky_ops flaky_cache 1 (length (replicate 512 (0 :: u8))) = Inr 512"
    by (simp add: validate_transfer_def flaky_ops_def flaky_cache_def checked_add_def)
  ultimately show ?thesis
    using failed_read_is_cached [of 1 flaky_cache flaky_ops 0 "replicate 512 7" False S_Timeout "replicate 512 7" True "replicate 512 0" 512]
    by (auto simp: flaky_ops_def flaky_cache_def simp del: cache_methods)
qed

end
