(* ===== verification/Crc32.thy ===== *)
theory Crc32
  imports Bytes
begin

text \<open>
  The CRC-32 of \<open>nexos-storage/src/lib.rs\<close> and its variant for the GPT header
  (\<open>partition.rs\<close>), which reads the checksum field as zero. One step of the register is
  injective, so that two messages of equal length which differ only inside four consecutive
  bytes never have the same checksum.
\<close>

definition crc_bit :: "u32 \<Rightarrow> u32" where
  "crc_bit crc = drop_bit 1 crc XOR (0xEDB88320 AND (0 - (crc AND 1)))"

definition crc_byte :: "u32 \<Rightarrow> u8 \<Rightarrow> u32" where
  "crc_byte crc b = (crc_bit ^^ 8) (crc XOR ucast b)"

definition crc32 :: "bytes \<Rightarrow> u32" where
  "crc32 bs = NOT (foldl crc_byte (NOT 0) bs)"

definition gpt_header_crc32 :: "bytes \<Rightarrow> u32" where
  "gpt_header_crc32 bs =
    NOT (foldl (\<lambda>crc (i, b). crc_byte crc (if 16 \<le> i \<and> i < 20 then 0 else b)) (NOT 0)
           (enumerate 0 bs))"

lemma crc_mask: "0 - (c AND 1) = (if bit c 0 then - 1 else 0 :: u32)"
proof -
  have "c AND 1 = (if bit c 0 then 1 else 0)"
    by (rule bit_word_eqI) (auto simp: bit_and_iff bit_1_iff intro: gr0I)
  then show ?thesis by simp
qed

lemma crc_bit_if:
  "crc_bit c = (if bit c 0 then drop_bit 1 c XOR 0xEDB88320 else drop_bit 1 c)"
  unfolding crc_bit_def crc_mask by simp

lemma crc_bit_top: "bit (crc_bit c) 31 = bit c 0"
  using bit_imp_le_length [of c 32] by (auto simp: crc_bit_if bit_simps)

lemma crc_bit_inj: "crc_bit c = crc_bit d \<Longrightarrow> c = d"
proof -
  assume eq: "crc_bit c = crc_bit d"
  then have b0: "bit c 0 = bit d 0" using crc_bit_top by metis
  then have "drop_bit 1 c = drop_bit 1 d"
    using eq by (auto simp: crc_bit_if split: if_splits) (metis bit.xor_left_self xor.commute)
  then have "bit c (Suc n) = bit d (Suc n)" for n
    by (metis bit_drop_bit_eq comp_apply plus_1_eq_Suc)
  with b0 show "c = d" by (intro bit_eqI) (metis not0_implies_Suc)
qed


lemma crc_steps_inj: "(crc_bit ^^ n) c = (crc_bit ^^ n) d \<Longrightarrow> c = d"
  by (induction n) (auto dest: crc_bit_inj)

lemma crc_byte_inj: "crc_byte c b = crc_byte d b \<Longrightarrow> c = d"
proof -
  assume "crc_byte c b = crc_byte d b"
  then have "c XOR ucast b = d XOR ucast b" unfolding crc_byte_def by (rule crc_steps_inj)
  then show "c = d" by (metis bit.xor_left_self xor.commute)
qed

lemma crc_foldl_inj: "foldl crc_byte c bs = foldl crc_byte d bs \<Longrightarrow> c = d"
  by (induction bs arbitrary: c d) (auto dest: crc_byte_inj)

text \<open>The register takes its input from the low end: bits that come later may be added earlier.\<close>

lemma crc_bit_shift:
  assumes "\<not> bit d 31"
  shows "crc_bit (c XOR push_bit 1 d) = crc_bit c XOR d"
proof -
  have d: "drop_bit 1 (push_bit 1 d) = d"
  proof (rule bit_word_eqI)
    fix k assume "k < LENGTH(32)"
    with assms show "bit (drop_bit 1 (push_bit 1 d)) k = bit d k"
      unfolding bit_drop_bit_eq comp_apply bit_push_bit_iff by (cases "k = 31") auto
  qed
  have low: "bit (c XOR push_bit 1 d) 0 = bit c 0"
    unfolding bit_xor_iff bit_push_bit_iff by simp
  have rest: "drop_bit 1 (c XOR push_bit 1 d) = drop_bit 1 c XOR d"
    unfolding drop_bit_xor d ..
  show ?thesis
    unfolding crc_bit_if low rest
    by (cases "bit c 0") (simp_all only: if_True if_False simp_thms ac_simps)
qed

lemma crc_steps_shift:
  assumes "\<And>k. 32 - n \<le> k \<Longrightarrow> \<not> bit d k" "n \<le> 32"
  shows "(crc_bit ^^ n) (c XOR push_bit n d) = (crc_bit ^^ n) c XOR d"
  using assms
proof (induction n arbitrary: c)
  case 0
  show ?case by simp
next
  case (Suc n)
  have "\<not> bit (push_bit n d) 31"
    unfolding bit_push_bit_iff using Suc.prems(1) [of "31 - n"] by auto
  then have "crc_bit (c XOR push_bit (Suc n) d) = crc_bit c XOR push_bit n d"
    using crc_bit_shift [of "push_bit n d" c] unfolding push_bit_push_bit by simp
  then have "(crc_bit ^^ Suc n) (c XOR push_bit (Suc n) d) = (crc_bit ^^ n) (crc_bit c XOR push_bit n d)"
    by (simp only: funpow_Suc_right comp_apply)
  also have "\<dots> = (crc_bit ^^ n) (crc_bit c) XOR d"
  proof (rule Suc.IH)
    show "\<not> bit d k" if "32 - n \<le> k" for k using that by (intro Suc.prems(1)) simp
  qed (use Suc.prems(2) in simp)
  finally show ?case by (simp only: funpow_Suc_right comp_apply)
qed

text \<open>A window of at most four bytes enters the register as one little-endian number.\<close>

lemma crc_window:
  "length w \<le> 4 \<Longrightarrow> foldl crc_byte c w = (crc_bit ^^ (8 * length w)) (c XOR of_le w)"
proof (induction w arbitrary: c)
  case Nil
  then show ?case by simp
next
  case (Cons b w)
  have high: "\<not> bit (of_le w :: u32) k" if "32 - 8 \<le> k" for k
    using Cons.prems that unfolding bit_of_le by auto
  have le: "of_le (b # w) = ucast b XOR push_bit 8 (of_le w :: u32)"
    by (rule bit_word_eqI)
      (auto simp: bit_or_iff bit_xor_iff bit_ucast_iff bit_push_bit_iff dest: bit_imp_le_length)
  have "foldl crc_byte c (b # w) = (crc_bit ^^ (8 * length w)) (crc_byte c b XOR of_le w)"
    using Cons by simp
  also have "crc_byte c b XOR of_le w = (crc_bit ^^ 8) ((c XOR ucast b) XOR push_bit 8 (of_le w))"
    unfolding crc_byte_def by (rule crc_steps_shift [symmetric, OF high]) simp_all
  also have "(c XOR ucast b) XOR push_bit 8 (of_le w) = c XOR of_le (b # w)"
    unfolding le by (simp add: xor.assoc)
  also have "(crc_bit ^^ (8 * length w)) ((crc_bit ^^ 8) (c XOR of_le (b # w)))
      = (crc_bit ^^ (8 * length w + 8)) (c XOR of_le (b # w))"
    by (simp only: funpow_add comp_apply)
  also have "8 * length w + 8 = 8 * length (b # w)" by simp
  finally show ?case .
qed


lemma gpt_crc_foldl:
  "foldl (\<lambda>crc (i, b). crc_byte crc (if 16 \<le> i \<and> i < 20 then 0 else b)) c (enumerate n bs)
    = foldl crc_byte c (map (\<lambda>(i, b). if 16 \<le> i \<and> i < 20 then 0 else b) (enumerate n bs))"
  by (induction bs arbitrary: c n) auto

lemma zeroed_field:
  assumes "20 \<le> length bs"
  shows "map (\<lambda>(i, b). if 16 \<le> i \<and> i < 20 then 0 else b) (enumerate 0 bs)
    = put_slice 16 (replicate 4 0) bs"
  using assms by (intro nth_equalityI) (auto simp: nth_enumerate_eq nth_put_slice)

lemma crc32_window:
  assumes "length w \<le> 4" and "length w' = length w"
  shows "crc32 (xs @ w @ ys) = crc32 (xs @ w' @ ys) \<longleftrightarrow> w = w'"
proof
  let ?c = "foldl crc_byte (NOT 0) xs"
  assume "crc32 (xs @ w @ ys) = crc32 (xs @ w' @ ys)"
  then have "foldl crc_byte (NOT 0) (xs @ w @ ys) = foldl crc_byte (NOT 0) (xs @ w' @ ys)"
    unfolding crc32_def by (metis bit.double_compl)
  then have "foldl crc_byte ?c w = foldl crc_byte ?c w'" by (auto dest: crc_foldl_inj)
  then have "?c XOR of_le w = ?c XOR of_le w'"
    using assms by (auto simp: crc_window dest: crc_steps_inj)
  then have "of_le w = (of_le w' :: u32)" by (metis bit.xor_left_self)
  moreover have "le_bytes (length w) (of_le w :: u32) = w" "le_bytes (length w) (of_le w' :: u32) = w'"
    using assms by (simp_all add: le_bytes_of_le)
  ultimately show "w = w'" by metis
qed simp

lemma crc32_put_slice:
  assumes "length w \<le> 4" "off + length w \<le> length bs"
  shows "crc32 (put_slice off w bs) = crc32 bs \<longleftrightarrow> slice off (length w) bs = w"
proof -
  have "bs = take off bs @ slice off (length w) bs @ drop (off + length w) bs"
    by (simp add: slice_def) (metis append_take_drop_id drop_drop add.commute)
  then show ?thesis
    using assms crc32_window [of "slice off (length w) bs" w "take off bs" "drop (off + length w) bs"]
    unfolding put_slice_def by auto
qed

lemma gpt_header_crc32_zeroed: "20 \<le> length bs \<Longrightarrow> gpt_header_crc32 bs = crc32 (put_slice 16 (replicate 4 0) bs)"
  unfolding gpt_header_crc32_def crc32_def gpt_crc_foldl by (simp add: zeroed_field)

section \<open>The properties\<close>

text \<open>A record that carries the checksum of itself with the checksum field zeroed.\<close>

lemma crc32_sealed:
  assumes "off + 4 \<le> n" "n \<le> length h" "slice off 4 h = replicate 4 0"
  defines "s \<equiv> put_slice off (le_bytes 4 (crc32 (slice 0 n h))) h"
  shows "crc32 (put_slice off (replicate 4 0) (slice 0 n s)) = of_le (slice off 4 s)"
proof -
  have "put_slice off (replicate 4 0) (slice 0 n s) = slice 0 n h"
    unfolding s_def using assms(1-3) by (intro put_slice_restore) simp_all
  moreover have "of_le (slice off 4 s) = crc32 (slice 0 n h)"
    unfolding s_def using assms(1,2) by (simp add: slice_put_same)
  ultimately show ?thesis by simp
qed

text \<open>C25. The CRC-32 detects every change that is confined to four consecutive bytes (in
  particular every burst of up to 25 bits): two messages with a common prefix and suffix
  have the same checksum only if the bytes between are the same.\<close>

theorem crc32_detects_bursts:
  assumes "length w \<le> 4" and "length w' = length w"
  shows "crc32 (xs @ w @ ys) = crc32 (xs @ w' @ ys) \<longleftrightarrow> w = w'"
  using assms by (rule crc32_window)

theorem crc32_detects_bursts_witness:
  "crc32 ([1] @ [2, 3] @ [4]) = crc32 ([1] @ [2, 7] @ [4]) \<longleftrightarrow> [2, 3] = [2, 7 :: u8]"
  by (rule crc32_detects_bursts) simp_all

end
