(* ===== verification/Partition_Table.thy ===== *)
theory Partition_Table
  imports Block_Device Crc32
begin

text \<open>
  The MBR and GPT readers of \<open>crates/nexos-storage/src/partition.rs\<close>. Whatever a device
  contains, a table that \<open>read_partition_table\<close> accepts lists partitions that lie inside the
  device, behind its first sector, and do not overlap.
\<close>

section \<open>Tables\<close>

definition le_u32 :: "bytes \<Rightarrow> nat \<Rightarrow> u32" where
  "le_u32 bs off = of_le (slice off 4 bs)"

definition le_u64 :: "bytes \<Rightarrow> nat \<Rightarrow> u64" where
  "le_u64 bs off = of_le (slice off 8 bs)"

definition MBR_SIGNATURE :: bytes where
  "MBR_SIGNATURE = [0x55, 0xAA]"

definition GPT_SIGNATURE :: bytes where
  "GPT_SIGNATURE = [0x45, 0x46, 0x49, 0x20, 0x50, 0x41, 0x52, 0x54]"

definition MAX_GPT_ENTRIES :: u32 where "MAX_GPT_ENTRIES = 4096"
definition MAX_GPT_ENTRY_SIZE :: u32 where "MAX_GPT_ENTRY_SIZE = 4096"

record mbr_partition =
  mbr_bootable :: bool
  mbr_type :: u8
  mbr_first_lba :: u32
  mbr_sector_count :: u32

record gpt_header =
  gh_revision :: u32
  gh_header_size :: u32
  gh_current_lba :: u64
  gh_backup_lba :: u64
  gh_first_usable_lba :: u64
  gh_last_usable_lba :: u64
  gh_disk_guid :: bytes
  gh_entries_lba :: u64
  gh_entry_count :: u32
  gh_entry_size :: u32
  gh_entries_crc32 :: u32

definition guid_is_zero :: "bytes \<Rightarrow> bool" where
  "guid_is_zero g \<longleftrightarrow> g = replicate 16 0"

datatype partition_table_kind = Mbr | Gpt

text \<open>A name is the list of its Unicode scalar values.\<close>

record partition =
  part_index :: u32
  part_first_lba :: u64
  part_sector_count :: u64
  part_bootable :: bool
  part_mbr_type :: "u8 option"
  part_type_guid :: "bytes option"
  part_unique_guid :: "bytes option"
  part_attributes :: u64
  part_name :: "u32 list"

record partition_table =
  pt_kind :: partition_table_kind
  pt_disk_guid :: "bytes option"
  pt_partitions :: "partition list"

section \<open>MBR\<close>

definition mbr_entry :: "bytes \<Rightarrow> nat \<Rightarrow> storage_error + mbr_partition option" where
  "mbr_entry sector i =
    (let entry = slice (446 + i * 16) 16 sector in
     if entry ! 0 \<noteq> 0 \<and> entry ! 0 \<noteq> 0x80 then Inl S_InvalidMbr
     else
       (let ptype = entry ! 4; first = le_u32 entry 8; count = le_u32 entry 12 in
        if ptype = 0 \<and> count = 0 then Inr None
        else if ptype = 0 \<or> count = 0 then Inl S_InvalidMbr
        else Inr (Some \<lparr>mbr_bootable = (entry ! 0 = 0x80), mbr_type = ptype,
                        mbr_first_lba = first, mbr_sector_count = count\<rparr>)))"

definition parse_mbr :: "bytes \<Rightarrow> storage_error + mbr_partition option list" where
  "parse_mbr sector =
    (if length sector < 512 \<or> slice 510 2 sector \<noteq> MBR_SIGNATURE then Inl S_InvalidMbr
     else map_res (mbr_entry sector) [0..<4])"

section \<open>GPT header\<close>

definition parse_gpt_header :: "bytes \<Rightarrow> storage_error + gpt_header" where
  "parse_gpt_header sector =
    (if length sector < 92 \<or> slice 0 8 sector \<noteq> GPT_SIGNATURE then Inl S_InvalidGpt
     else
       (let hsize = le_u32 sector 12; hlen = unat hsize in
        if \<not> (92 \<le> hlen \<and> hlen \<le> length sector) then Inl S_InvalidGpt
        else if gpt_header_crc32 (slice 0 hlen sector) \<noteq> le_u32 sector 16 then Inl S_ChecksumMismatch
        else
          (let h = \<lparr>gh_revision = le_u32 sector 8, gh_header_size = hsize,
                    gh_current_lba = le_u64 sector 24, gh_backup_lba = le_u64 sector 32,
                    gh_first_usable_lba = le_u64 sector 40, gh_last_usable_lba = le_u64 sector 48,
                    gh_disk_guid = slice 56 16 sector, gh_entries_lba = le_u64 sector 72,
                    gh_entry_count = le_u32 sector 80, gh_entry_size = le_u32 sector 84,
                    gh_entries_crc32 = le_u32 sector 88\<rparr> in
           if gh_revision h \<noteq> 0x00010000 \<or> gh_current_lba h = gh_backup_lba h \<or>
              gh_last_usable_lba h < gh_first_usable_lba h \<or> gh_entry_count h = 0 \<or>
              MAX_GPT_ENTRIES < gh_entry_count h \<or>
              \<not> (128 \<le> gh_entry_size h \<and> gh_entry_size h \<le> MAX_GPT_ENTRY_SIZE) \<or>
              gh_entry_size h mod 8 \<noteq> 0
           then Inl S_InvalidGpt else Inr h)))"

section \<open>Validation\<close>

definition validate_partition_bounds :: "u64 \<Rightarrow> u64 \<Rightarrow> u64 \<Rightarrow> storage_error + unit" where
  "validate_partition_bounds first count disk_sectors =
    (if count = 0 \<or> first = 0 \<or>
        (case checked_add first count of None \<Rightarrow> True | Some end \<Rightarrow> disk_sectors < end)
     then Inl S_InvalidPartition else Inr ())"

fun overlap_with :: "u64 \<Rightarrow> u64 \<Rightarrow> partition list \<Rightarrow> storage_error + unit" where
  "overlap_with lfirst lend [] = Inr ()"
| "overlap_with lfirst lend (r # rs) =
    (case checked_add (part_first_lba r) (part_sector_count r) of
       None \<Rightarrow> Inl S_InvalidPartition
     | Some rend \<Rightarrow>
         if lfirst < rend \<and> part_first_lba r < lend then Inl S_InvalidPartition
         else overlap_with lfirst lend rs)"

fun validate_no_overlap :: "partition list \<Rightarrow> storage_error + unit" where
  "validate_no_overlap [] = Inr ()"
| "validate_no_overlap (l # rest) =
    (case checked_add (part_first_lba l) (part_sector_count l) of
       None \<Rightarrow> Inl S_InvalidPartition
     | Some lend \<Rightarrow>
         bind_res (overlap_with (part_first_lba l) lend rest) (\<lambda>_. validate_no_overlap rest))"

section \<open>Reading a table\<close>

definition mbr_row :: "u64 \<Rightarrow> nat \<times> mbr_partition option \<Rightarrow> storage_error + partition option" where
  "mbr_row disk_sectors ie =
    (case snd ie of
       None \<Rightarrow> Inr None
     | Some e \<Rightarrow>
         if mbr_type e = 0xEE then Inl S_InvalidGpt
         else bind_res (validate_partition_bounds (ucast (mbr_first_lba e))
                          (ucast (mbr_sector_count e)) disk_sectors)
           (\<lambda>_. if 2 ^ 32 \<le> fst ie + 1 then Inl S_TooLarge
                else Inr (Some
                  \<lparr>part_index = of_nat (fst ie + 1), part_first_lba = ucast (mbr_first_lba e),
                   part_sector_count = ucast (mbr_sector_count e), part_bootable = mbr_bootable e,
                   part_mbr_type = Some (mbr_type e), part_type_guid = None,
                   part_unique_guid = None, part_attributes = 0, part_name = []\<rparr>)))"

definition read_mbr_table ::
  "u64 \<Rightarrow> mbr_partition option list \<Rightarrow> storage_error + partition_table" where
  "read_mbr_table disk_sectors entries =
    bind_res (map_res (mbr_row disk_sectors) (enumerate 0 entries)) (\<lambda>rows.
    let ps = flatten rows in
    bind_res (validate_no_overlap ps) (\<lambda>_.
      Inr \<lparr>pt_kind = Mbr, pt_disk_guid = None, pt_partitions = ps\<rparr>))"

fun utf16_units :: "bytes \<Rightarrow> u16 list" where
  "utf16_units (a # b # bs) = of_le [a, b] # utf16_units bs"
| "utf16_units _ = []"

definition decode_gpt_name :: "bytes \<Rightarrow> u32 list" where
  "decode_gpt_name bs =
    map (\<lambda>v. if 0xD800 \<le> v \<and> v \<le> 0xDFFF then 0xFFFD else ucast v)
      (takeWhile (\<lambda>v. v \<noteq> 0) (utf16_units bs))"

definition gpt_entry :: "gpt_header \<Rightarrow> nat \<Rightarrow> bytes \<Rightarrow> nat \<Rightarrow> storage_error + partition option" where
  "gpt_entry header esize bs i =
    (let entry = slice (i * esize) esize bs; type_guid = slice 0 16 entry in
     if guid_is_zero type_guid then Inr None
     else
       (let unique_guid = slice 16 16 entry; first = le_u64 entry 32; last = le_u64 entry 40 in
        if guid_is_zero unique_guid \<or> first < gh_first_usable_lba header \<or>
           gh_last_usable_lba header < last \<or> last < first
        then Inl S_InvalidGpt
        else
          bind_res (ok_or S_InvalidGpt
            (Option.bind (checked_sub last first) (\<lambda>v. checked_add v 1))) (\<lambda>count.
          if 2 ^ 32 \<le> i + 1 then Inl S_TooLarge
          else Inr (Some
            \<lparr>part_index = of_nat (i + 1), part_first_lba = first, part_sector_count = count,
             part_bootable = False, part_mbr_type = None, part_type_guid = Some type_guid,
             part_unique_guid = Some unique_guid, part_attributes = le_u64 entry 48,
             part_name = decode_gpt_name (slice 56 (min esize 128 - 56) entry)\<rparr>))))"

text \<open>
  The arithmetic that \<open>read_gpt\<close> does on the header: the length of the entry array in bytes
  and in sectors.
\<close>

definition gpt_geometry :: "gpt_header \<Rightarrow> nat \<Rightarrow> u64 \<Rightarrow> storage_error + u64 \<times> u64" where
  "gpt_geometry header ss disk_sectors =
    (if gh_current_lba header \<noteq> 1 \<or> disk_sectors \<le> gh_backup_lba header \<or>
        disk_sectors \<le> gh_last_usable_lba header \<or> gh_entries_lba header < 2
     then Inl S_InvalidGpt
     else
       bind_res (ok_or S_TooLarge
         (checked_mul (ucast (gh_entry_count header)) (ucast (gh_entry_size header)))) (\<lambda>ebytes.
       bind_res (ok_or S_TooLarge (checked_add ebytes (of_nat (ss - 1)))) (\<lambda>up.
       let esectors = up div of_nat ss in
       if (case checked_add (gh_entries_lba header) esectors of
             None \<Rightarrow> True
           | Some end \<Rightarrow> disk_sectors < end \<or> gh_first_usable_lba header < end)
       then Inl S_InvalidGpt else Inr (ebytes, esectors))))"

definition read_gpt ::
  "'d block_ops \<Rightarrow> nat \<Rightarrow> ('d, storage_error, partition_table) action" where
  "read_gpt ops ss =
    bind_act (read_vec ops 1 ss) (\<lambda>sector.
    bind_act (lift_res (parse_gpt_header sector)) (\<lambda>header.
    bind_act (\<lambda>d. (gpt_geometry header ss (sector_count ops d), d)) (\<lambda>(ebytes, esectors).
    bind_act (lift_res (ok_or S_TooLarge (checked_mul esectors (of_nat ss)))) (\<lambda>transfer.
    bind_act (read_vec ops (gh_entries_lba header) (unat transfer)) (\<lambda>bs.
    if crc32 (slice 0 (unat ebytes) bs) \<noteq> gh_entries_crc32 header
    then fail_act S_ChecksumMismatch
    else
      bind_act (lift_res (map_res (gpt_entry header (unat (gh_entry_size header)) bs)
                  [0..<unat (gh_entry_count header)])) (\<lambda>rows.
      let ps = flatten rows in
      bind_act (lift_res (validate_no_overlap ps)) (\<lambda>_.
      return_act \<lparr>pt_kind = Gpt, pt_disk_guid = Some (gh_disk_guid header),
                  pt_partitions = ps\<rparr>)))))))"

definition read_partition_table ::
  "'d block_ops \<Rightarrow> ('d, storage_error, partition_table) action" where
  "read_partition_table ops d =
    (let ss = unat (sector_size ops d) in
     if ss < 512 then (Inl S_UnsupportedSectorSize, d)
     else
       bind_act (read_vec ops 0 ss) (\<lambda>sector.
       bind_act (lift_res (parse_mbr sector)) (\<lambda>mbr.
       if \<exists>p \<in> set (flatten mbr). mbr_type p = 0xEE then read_gpt ops ss
       else (\<lambda>d. (read_mbr_table (sector_count ops d) mbr, d)))) d)"


section \<open>What an accepted table guarantees\<close>

definition part_end :: "partition \<Rightarrow> nat" where
  "part_end p = unat (part_first_lba p) + unat (part_sector_count p)"

definition parts_disjoint :: "partition \<Rightarrow> partition \<Rightarrow> bool" where
  "parts_disjoint p q \<longleftrightarrow> part_end p \<le> unat (part_first_lba q) \<or> part_end q \<le> unat (part_first_lba p)"

definition part_inside :: "nat \<Rightarrow> partition \<Rightarrow> bool" where
  "part_inside n p \<longleftrightarrow>
    0 < unat (part_first_lba p) \<and> 0 < unat (part_sector_count p) \<and> part_end p \<le> n"

definition table_ok :: "nat \<Rightarrow> partition list \<Rightarrow> bool" where
  "table_ok n ps \<longleftrightarrow> (\<forall>p \<in> set ps. part_inside n p) \<and> sorted_wrt parts_disjoint ps"

lemma overlap_with_sound:
  "overlap_with (part_first_lba l) lend rs = Inr u \<Longrightarrow> unat lend = part_end l \<Longrightarrow>
    \<forall>r \<in> set rs. parts_disjoint l r"
proof (induction rs)
  case (Cons r rs)
  then obtain rend where rend: "checked_add (part_first_lba r) (part_sector_count r) = Some rend"
    "\<not> (part_first_lba l < rend \<and> part_first_lba r < lend)" "overlap_with (part_first_lba l) lend rs = Inr u"
    by (auto split: option.splits if_splits)
  have "unat rend = part_end r" using checked_add_SomeD [OF rend(1)] by (simp add: part_end_def)
  with rend(2) Cons.prems(2) have "parts_disjoint l r"
    by (auto simp: parts_disjoint_def word_less_nat_alt)
  with Cons.IH [OF rend(3) Cons.prems(2)] show ?case by simp
qed simp

lemma validate_no_overlap_sound: "validate_no_overlap ps = Inr u \<Longrightarrow> sorted_wrt parts_disjoint ps"
proof (induction ps)
  case (Cons l rest)
  then obtain lend where lend: "checked_add (part_first_lba l) (part_sector_count l) = Some lend"
    "overlap_with (part_first_lba l) lend rest = Inr ()" "validate_no_overlap rest = Inr u"
    by (auto split: option.splits simp: bind_res_Inr_iff)
  have "unat lend = part_end l" using checked_add_SomeD [OF lend(1)] by (simp add: part_end_def)
  with overlap_with_sound [OF lend(2)] Cons.IH [OF lend(3)] show ?case by simp
qed simp

lemma mbr_row_inside:
  assumes "mbr_row n ie = Inr (Some p)"
  shows "part_inside (unat n) p"
proof -
  have "validate_partition_bounds (part_first_lba p) (part_sector_count p) n = Inr ()"
    using assms by (auto simp: mbr_row_def bind_res_Inr_iff split: option.splits if_splits)
  then obtain m where m: "checked_add (part_first_lba p) (part_sector_count p) = Some m"
    "\<not> n < m" "part_first_lba p \<noteq> 0" "part_sector_count p \<noteq> 0"
    by (auto simp: validate_partition_bounds_def split: if_splits option.splits)
  then have "part_end p \<le> unat n" "0 < unat (part_first_lba p)" "0 < unat (part_sector_count p)"
    using checked_add_SomeD [OF m(1)] by (auto simp: part_end_def word_less_nat_alt unat_gt_0)
  then show ?thesis by (simp add: part_inside_def)
qed

lemma rows_all:
  assumes "map_res f xs = Inr rows" "\<And>x p. f x = Inr (Some p) \<Longrightarrow> Q p" "p \<in> set (flatten rows)"
  shows "Q p"
proof -
  have "Some p \<in> set rows" using assms(3) by (simp add: set_flatten)
  then obtain x where "f x = Inr (Some p)" using map_res_set [OF assms(1)] by blast
  then show ?thesis by (rule assms(2))
qed

lemma read_mbr_table_ok:
  assumes "read_mbr_table n entries = Inr t"
  shows "table_ok (unat n) (pt_partitions t)"
proof -
  obtain rows where rows: "map_res (mbr_row n) (enumerate 0 entries) = Inr rows"
    "validate_no_overlap (flatten rows) = Inr ()" "pt_partitions t = flatten rows"
    using assms by (auto simp: read_mbr_table_def bind_res_Inr_iff Let_def)
  have "part_inside (unat n) p" if "p \<in> set (flatten rows)" for p
    by (rule rows_all [OF rows(1) _ that]) (rule mbr_row_inside)
  with validate_no_overlap_sound [OF rows(2)] rows(3) show ?thesis by (simp add: table_ok_def)
qed

lemma gpt_geometry_ok:
  assumes "gpt_geometry h ss n = Inr r"
  shows "unat (gh_last_usable_lba h) < unat n" "2 \<le> unat (gh_first_usable_lba h)"
proof -
  obtain esectors m where m: "checked_add (gh_entries_lba h) esectors = Some m"
    "\<not> gh_first_usable_lba h < m" and h: "\<not> gh_entries_lba h < 2" "\<not> n \<le> gh_last_usable_lba h"
    using assms by (auto simp: gpt_geometry_def bind_res_Inr_iff Let_def split: if_splits option.splits)
  have "unat m = unat (gh_entries_lba h) + unat esectors" using checked_add_SomeD [OF m(1)] by simp
  moreover have "2 \<le> unat (gh_entries_lba h)" using h(1) by (simp add: word_less_nat_alt)
  ultimately show "2 \<le> unat (gh_first_usable_lba h)" using m(2) by (simp add: word_less_nat_alt)
  show "unat (gh_last_usable_lba h) < unat n" using h(2) by (simp add: word_le_nat_alt)
qed

lemma gpt_entry_inside:
  assumes "gpt_entry h esize bs i = Inr (Some p)" and geo: "gpt_geometry h ss n = Inr r"
  shows "part_inside (unat n) p"
proof -
  obtain last v where e: "\<not> part_first_lba p < gh_first_usable_lba h" "\<not> gh_last_usable_lba h < last"
    "checked_sub last (part_first_lba p) = Some v" "checked_add v 1 = Some (part_sector_count p)"
    using assms(1)
    by (auto simp: gpt_entry_def Let_def bind_res_Inr_iff bind_eq_Some_conv split: if_splits)
  have v: "unat v = unat last - unat (part_first_lba p)" "unat (part_first_lba p) \<le> unat last"
    using checked_sub_SomeD [OF e(3)] by (auto simp: word_le_nat_alt)
  have "unat (part_sector_count p) = unat v + 1" using checked_add_SomeD [OF e(4)] by simp
  with v e(1,2) gpt_geometry_ok [OF geo] show ?thesis
    by (auto simp: part_inside_def part_end_def word_less_nat_alt)
qed

text \<open>A device whose size does not change by reading.\<close>

definition stable_size :: "'d block_ops \<Rightarrow> bool" where
  "stable_size ops \<longleftrightarrow>
    (\<forall>lba buf d. sector_count ops (snd (snd (read_sectors ops lba buf d))) = sector_count ops d)"

lemma read_vec_size:
  "stable_size ops \<Longrightarrow> read_vec ops lba len d = (r, d') \<Longrightarrow> sector_count ops d' = sector_count ops d"
  unfolding stable_size_def read_vec_def
  by (auto split: prod.splits sum.splits) (metis snd_conv)+

lemma read_gpt_ok:
  assumes st: "stable_size ops" and r: "read_gpt ops ss d = (Inr t, d')"
  shows "table_ok (sectors ops d) (pt_partitions t)"
proof -
  obtain sector d1 header d2 ebytes esectors transfer bs d3 rows where
    a: "read_vec ops 1 ss d = (Inr sector, d1)" "gpt_geometry header ss (sector_count ops d1) = Inr (ebytes, esectors)"
    "map_res (gpt_entry header (unat (gh_entry_size header)) bs) [0..<unat (gh_entry_count header)] = Inr rows"
    "validate_no_overlap (flatten rows) = Inr ()" "pt_partitions t = flatten rows"
    using r unfolding read_gpt_def
    by (auto simp: bind_act_Inr_iff Let_def split: if_splits)
  have n: "sector_count ops d1 = sector_count ops d" by (rule read_vec_size [OF st a(1)])
  have "part_inside (sectors ops d) p" if "p \<in> set (flatten rows)" for p
    using rows_all [OF a(3) _ that, of "part_inside (sectors ops d)"] gpt_entry_inside [OF _ a(2)] n
    by (auto simp: sectors_def)
  with validate_no_overlap_sound [OF a(4)] a(5) show ?thesis by (simp add: table_ok_def)
qed

text \<open>C10. A partition table that is accepted is safe to use: whatever bytes a device holds
  (and however its reads fail), when \<open>read_partition_table\<close> succeeds, every partition has at
  least one sector, starts behind the first sector, ends inside the device, and no two
  partitions share a sector.\<close>

theorem partition_table_sound:
  assumes "stable_size ops" and "read_partition_table ops d = (Inr t, d')"
  shows "table_ok (sectors ops d) (pt_partitions t)"
proof -
  let ?ss = "unat (sector_size ops d)"
  obtain sector d1 where r: "read_vec ops 0 ?ss d = (Inr sector, d1)"
    "read_gpt ops ?ss d1 = (Inr t, d') \<or> (\<exists>mbr. read_mbr_table (sector_count ops d1) mbr = Inr t)"
    using assms(2) unfolding read_partition_table_def
    by (auto simp: bind_act_Inr_iff Let_def split: if_splits)
  have n: "sector_count ops d1 = sector_count ops d" by (rule read_vec_size [OF assms(1) r(1)])
  from r(2) show ?thesis
    using read_gpt_ok [OF assms(1), of ?ss d1 t d'] read_mbr_table_ok [of "sector_count ops d1" _ t] n
    by (auto simp: sectors_def)
qed


text \<open>A disk of four sectors with one MBR partition, of type 7, in sectors 1 and 2.\<close>

definition demo_mbr :: bytes where
  "demo_mbr = replicate 446 0 @ [0, 0, 0, 0, 7, 0, 0, 0, 1, 0, 0, 0, 2, 0, 0, 0] @ replicate 48 0 @ [0x55, 0xAA]"

definition demo_disk :: memory_device where
  "demo_disk = \<lparr>md_bytes = demo_mbr @ replicate 1536 0, md_sector_size = 512, md_read_only = False\<rparr>"

lemma demo_mbr_parts:
  "length demo_mbr = 512" "slice 510 2 demo_mbr = MBR_SIGNATURE"
  "slice 446 16 demo_mbr = [0, 0, 0, 0, 7, 0, 0, 0, 1, 0, 0, 0, 2, 0, 0, 0]"
  "slice 462 16 demo_mbr = replicate 16 0" "slice 478 16 demo_mbr = replicate 16 0"
  "slice 494 16 demo_mbr = replicate 16 0"
  by (simp_all add: demo_mbr_def slice_def MBR_SIGNATURE_def)

lemma demo_mbr_read: "parse_mbr demo_mbr = Inr [Some \<lparr>mbr_bootable = False, mbr_type = 7,
    mbr_first_lba = 1, mbr_sector_count = 2\<rparr>, None, None, None]"
proof -
  have zero: "slice a n (replicate 16 (0 :: u8)) = replicate (min n (16 - a)) 0" for a n
    by (simp add: slice_def min.commute)
  have le0: "of_le (replicate k 0) = (0 :: u32)" for k by (induction k) simp_all
  have "mbr_entry demo_mbr 0 = Inr (Some \<lparr>mbr_bootable = False, mbr_type = 7,
      mbr_first_lba = 1, mbr_sector_count = 2\<rparr>)"
    unfolding mbr_entry_def mult_zero_left add_0_right demo_mbr_parts(3)
    by (simp add: le_u32_def slice_def)
  moreover have "mbr_entry demo_mbr 1 = Inr None" "mbr_entry demo_mbr 2 = Inr None" "mbr_entry demo_mbr 3 = Inr None"
    by (simp_all add: mbr_entry_def demo_mbr_parts le_u32_def zero le0)
  moreover have "[0..<4] = [0, 1, 2, 3 :: nat]" by (simp add: upt_rec)
  ultimately show ?thesis by (simp add: parse_mbr_def demo_mbr_parts)
qed

theorem partition_table_sound_witness:
  "stable_size memory_ops \<and> sectors memory_ops demo_disk = 4 \<and>
   (\<exists>t. read_partition_table memory_ops demo_disk = (Inr t, demo_disk) \<and> length (pt_partitions t) = 1 \<and>
        table_ok (sectors memory_ops demo_disk) (pt_partitions t))"
proof -
  have st: "stable_size memory_ops"
    by (auto simp: stable_size_def memory_ops_def split: sum.split)
  have n: "sectors memory_ops demo_disk = 4" "sector_count memory_ops demo_disk = 4"
    by (simp_all add: sectors_def memory_ops_def demo_disk_def demo_mbr_parts)
  have "slice 0 512 (demo_mbr @ replicate 1536 0) = demo_mbr"
    by (simp add: slice_def demo_mbr_parts)
  then have rd: "read_vec memory_ops 0 512 demo_disk = (Inr demo_mbr, demo_disk)"
    by (simp add: read_vec_def memory_ops_def memory_range_def demo_disk_def checked_mul_def demo_mbr_parts)
  have "\<exists>t. read_mbr_table 4 [Some \<lparr>mbr_bootable = False, mbr_type = 7, mbr_first_lba = 1,
      mbr_sector_count = 2\<rparr>, None, None, None] = Inr t \<and> length (pt_partitions t) = 1"
    by (simp add: read_mbr_table_def mbr_row_def validate_partition_bounds_def checked_add_def Let_def)
  then obtain t where t: "read_partition_table memory_ops demo_disk = (Inr t, demo_disk)"
    "length (pt_partitions t) = 1"
    using rd demo_mbr_read n(2)
    by (auto simp: read_partition_table_def Let_def memory_ops_def demo_disk_def bind_act_def)
  with partition_table_sound [OF st t(1)] st n(1) show ?thesis by blast
qed

end
