(* ===== verification/Installer.thy ===== *)
theory Installer
  imports Partition_Table
begin

text \<open>
  \<open>crates/nexos-storage/src/installer.rs\<close>: the layout of an installed disk (BIOS boot
  partition, EFI system partition, root file system), the writer of its GPT and the verifier.
  On every fault-free device that is large enough, the writer succeeds (its own verification
  included) and the partition-table reader of \<open>partition.rs\<close> then finds exactly the three
  partitions of the layout.
\<close>

section \<open>Layout\<close>

definition BIOS_BOOT_TYPE_GUID :: bytes where
  "BIOS_BOOT_TYPE_GUID = [0x48, 0x61, 0x68, 0x21, 0x49, 0x64, 0x6F, 0x6E,
    0x74, 0x4E, 0x65, 0x65, 0x64, 0x45, 0x46, 0x49]"

definition ESP_TYPE_GUID :: bytes where
  "ESP_TYPE_GUID = [0x28, 0x73, 0x2A, 0xC1, 0x1F, 0xF8, 0xD2, 0x11,
    0xBA, 0x4B, 0x00, 0xA0, 0xC9, 0x3E, 0xC9, 0x3B]"

definition NEXFS_TYPE_GUID :: bytes where
  "NEXFS_TYPE_GUID = [0x4E, 0x65, 0x78, 0x46, 0x53, 0x00, 0x10, 0x40,
    0x80, 0x00, 0x4E, 0x65, 0x78, 0x4F, 0x53, 0x00]"

definition ALIGNMENT_SECTORS :: u64 where "ALIGNMENT_SECTORS = 2048"
definition GPT_ENTRY_COUNT :: u32 where "GPT_ENTRY_COUNT = 128"
definition GPT_ENTRY_SIZE :: u32 where "GPT_ENTRY_SIZE = 128"
definition GPT_ENTRY_SECTORS :: u64 where "GPT_ENTRY_SECTORS = 32"
definition FIRST_USABLE_LBA :: u64 where "FIRST_USABLE_LBA = 34"
definition BIOS_SECTORS :: u64 where "BIOS_SECTORS = 2048"
definition ESP_SECTORS :: u64 where "ESP_SECTORS = 131072"
definition MIN_DISK_SECTORS :: u64 where "MIN_DISK_SECTORS = 262144"

lemmas installer_consts = ALIGNMENT_SECTORS_def GPT_ENTRY_COUNT_def GPT_ENTRY_SIZE_def
  GPT_ENTRY_SECTORS_def FIRST_USABLE_LBA_def BIOS_SECTORS_def ESP_SECTORS_def MIN_DISK_SECTORS_def

record partition_span =
  span_first :: u64
  span_count :: u64

record installer_layout =
  il_disk_guid :: bytes
  il_bios :: partition_span
  il_esp :: partition_span
  il_root :: partition_span

record installer_guids =
  ig_disk :: bytes
  ig_bios :: bytes
  ig_esp :: bytes
  ig_root :: bytes

definition align_up :: "u64 \<Rightarrow> u64 \<Rightarrow> u64" where
  "align_up v alignment = saturating_add v (alignment - 1) div alignment * alignment"

definition guided_installer_layout :: "u64 \<Rightarrow> bytes \<Rightarrow> storage_error + installer_layout" where
  "guided_installer_layout total_sectors guid =
    (if total_sectors < MIN_DISK_SECTORS then Inl S_NoSpace
     else
       bind_res (ok_or S_NoSpace (checked_sub total_sectors (1 + GPT_ENTRY_SECTORS))) (\<lambda>backup_entries.
       bind_res (ok_or S_NoSpace (checked_sub backup_entries 1)) (\<lambda>last_usable.
       let bios = \<lparr>span_first = ALIGNMENT_SECTORS, span_count = BIOS_SECTORS\<rparr>;
           esp = \<lparr>span_first = span_first bios + span_count bios, span_count = ESP_SECTORS\<rparr>
       in bind_res (ok_or S_TooLarge (checked_add (span_first esp) (span_count esp))) (\<lambda>esp_end.
          let root_first = align_up esp_end ALIGNMENT_SECTORS in
          if last_usable \<le> root_first then Inl S_NoSpace
          else Inr \<lparr>il_disk_guid = guid, il_bios = bios, il_esp = esp,
                    il_root = \<lparr>span_first = root_first,
                               span_count = last_usable - root_first + 1\<rparr>\<rparr>))))"

section \<open>Encoding\<close>

text \<open>\<open>encode_utf16\<close> of an ASCII string.\<close>

definition utf16 :: "string \<Rightarrow> u16 list" where
  "utf16 name = map of_char name"

definition encode_entry :: "bytes \<Rightarrow> bytes \<Rightarrow> partition_span \<Rightarrow> string \<Rightarrow> bytes" where
  "encode_entry type_guid unique_guid span name =
    (let out = replicate 128 0;
         out = put_slice 0 type_guid out;
         out = put_slice 16 unique_guid out;
         out = put_slice 32 (le_bytes 8 (span_first span)) out;
         out = put_slice 40 (le_bytes 8 (span_first span + span_count span - 1)) out
     in fold (\<lambda>(i, c) o'. put_slice (56 + i * 2) (le_bytes 2 c) o')
          (enumerate 0 (take 36 (utf16 name))) out)"

definition encode_header :: "u64 \<Rightarrow> u64 \<Rightarrow> u64 \<Rightarrow> bytes \<Rightarrow> u64 \<Rightarrow> u32 \<Rightarrow> bytes" where
  "encode_header current_lba backup_lba total_sectors guid entries_lba entries_crc =
    (let h = replicate 512 0;
         h = put_slice 0 GPT_SIGNATURE h;
         h = put_slice 8 (le_bytes 4 (0x00010000 :: u32)) h;
         h = put_slice 12 (le_bytes 4 (92 :: u32)) h;
         h = put_slice 24 (le_bytes 8 current_lba) h;
         h = put_slice 32 (le_bytes 8 backup_lba) h;
         h = put_slice 40 (le_bytes 8 FIRST_USABLE_LBA) h;
         h = put_slice 48 (le_bytes 8 (total_sectors - GPT_ENTRY_SECTORS - 2)) h;
         h = put_slice 56 guid h;
         h = put_slice 72 (le_bytes 8 entries_lba) h;
         h = put_slice 80 (le_bytes 4 GPT_ENTRY_COUNT) h;
         h = put_slice 84 (le_bytes 4 GPT_ENTRY_SIZE) h;
         h = put_slice 88 (le_bytes 4 entries_crc) h
     in put_slice 16 (le_bytes 4 (crc32 (slice 0 92 h))) h)"

definition protective_mbr :: "u64 \<Rightarrow> bytes" where
  "protective_mbr total_sectors =
    (let m = (replicate 512 0)[450 := 0xEE];
         m = put_slice 454 (le_bytes 4 (1 :: u32)) m;
         m = put_slice 458 (le_bytes 4 (ucast (min (total_sectors - 1) 0xFFFFFFFF) :: u32)) m
     in put_slice 510 MBR_SIGNATURE m)"

definition entry_sector :: "installer_guids \<Rightarrow> installer_layout \<Rightarrow> bytes" where
  "entry_sector guids layout =
    (let s = replicate 512 0;
         s = put_slice 0 (encode_entry BIOS_BOOT_TYPE_GUID (ig_bios guids) (il_bios layout) ''NexOS BIOS'') s;
         s = put_slice 128 (encode_entry ESP_TYPE_GUID (ig_esp guids) (il_esp layout) ''NexOS boot'') s
     in put_slice 256 (encode_entry NEXFS_TYPE_GUID (ig_root guids) (il_root layout) ''NexOS root'') s)"

text \<open>The incremental checksum \<open>Crc32\<close>: \<open>new\<close>, \<open>update\<close> and \<open>finish\<close>.\<close>

definition crc_new :: u32 where "crc_new = NOT 0"

definition crc_update :: "u32 \<Rightarrow> bytes \<Rightarrow> u32" where
  "crc_update crc bs = foldl crc_byte crc bs"

definition crc_finish :: "u32 \<Rightarrow> u32" where "crc_finish crc = NOT crc"

section \<open>Verification\<close>

definition verify_entry :: "bytes \<Rightarrow> bytes \<Rightarrow> partition_span \<Rightarrow> storage_error + unit" where
  "verify_entry input type_guid expected =
    (if slice 0 16 input \<noteq> type_guid \<or> le_u64 input 32 \<noteq> span_first expected then Inl S_InvalidPartition
     else
       bind_res (ok_or S_InvalidPartition
         (checked_add (span_first expected) (span_count expected - 1))) (\<lambda>last.
       if le_u64 input 40 \<noteq> last then Inl S_InvalidPartition else Inr ()))"

text \<open>A read into a buffer the caller already has.\<close>

definition read_buf :: "'d block_ops \<Rightarrow> u64 \<Rightarrow> bytes \<Rightarrow> ('d, storage_error, bytes) action" where
  "read_buf ops lba buf d =
    (case read_sectors ops lba buf d of
       (Inl e, _, d') \<Rightarrow> (Inl e, d')
     | (Inr _, buf', d') \<Rightarrow> (Inr buf', d'))"

fun verify_entry_sectors ::
  "'d block_ops \<Rightarrow> installer_layout \<Rightarrow> u64 \<Rightarrow> nat list \<Rightarrow> bytes \<Rightarrow> u32 \<Rightarrow> ('d, storage_error, bytes \<times> u32) action"
  where
  "verify_entry_sectors ops expected entries_lba [] sector crc = return_act (sector, crc)"
| "verify_entry_sectors ops expected entries_lba (i # is) sector crc =
    bind_act (read_buf ops (entries_lba + of_nat i) sector) (\<lambda>sector'.
    let crc' = crc_update crc sector' in
    bind_act (lift_res
      (if i = 0 then
         bind_res (verify_entry (slice 0 128 sector') BIOS_BOOT_TYPE_GUID (il_bios expected)) (\<lambda>_.
         bind_res (verify_entry (slice 128 128 sector') ESP_TYPE_GUID (il_esp expected)) (\<lambda>_.
         verify_entry (slice 256 128 sector') NEXFS_TYPE_GUID (il_root expected)))
       else Inr ()))
      (\<lambda>_. verify_entry_sectors ops expected entries_lba is sector' crc'))"

definition verify_guided_installer_gpt ::
  "'d block_ops \<Rightarrow> installer_layout \<Rightarrow> ('d, storage_error, unit) action" where
  "verify_guided_installer_gpt ops expected d =
    (if sector_size ops d \<noteq> 512 then (Inl S_UnsupportedSectorSize, d)
     else
       bind_act (read_buf ops 0 (replicate 512 0)) (\<lambda>sector.
       bind_act (lift_res (parse_mbr sector)) (\<lambda>mbr.
       if \<not> (\<exists>p \<in> set (flatten mbr). mbr_type p = 0xEE \<and> mbr_first_lba p = 1) then fail_act S_InvalidGpt
       else
       bind_act (read_buf ops 1 sector) (\<lambda>sector.
       bind_act (lift_res (parse_gpt_header sector)) (\<lambda>header.
       bind_act (\<lambda>d. (if gh_current_lba header \<noteq> 1 \<or> gh_backup_lba header \<noteq> sector_count ops d - 1 \<or>
                         gh_disk_guid header \<noteq> il_disk_guid expected \<or>
                         gh_entry_count header \<noteq> GPT_ENTRY_COUNT \<or> gh_entry_size header \<noteq> GPT_ENTRY_SIZE
                      then Inl S_InvalidGpt else Inr (), d)) (\<lambda>_.
       bind_act (verify_entry_sectors ops expected (gh_entries_lba header)
                   [0..<unat GPT_ENTRY_SECTORS] sector crc_new) (\<lambda>(sector, crc).
       if crc_finish crc \<noteq> gh_entries_crc32 header then fail_act S_ChecksumMismatch
       else
       bind_act (read_buf ops (gh_backup_lba header) sector) (\<lambda>sector.
       bind_act (lift_res (parse_gpt_header sector)) (\<lambda>backup.
       if gh_current_lba backup \<noteq> gh_backup_lba header \<or> gh_backup_lba backup \<noteq> 1 \<or>
          gh_disk_guid backup \<noteq> gh_disk_guid header \<or> gh_entries_crc32 backup \<noteq> gh_entries_crc32 header
       then fail_act S_InvalidGpt else return_act ())))))))) d)"

section \<open>Writing\<close>

fun write_entry_sectors ::
  "'d block_ops \<Rightarrow> bytes \<Rightarrow> u64 \<Rightarrow> nat list \<Rightarrow> u32 \<Rightarrow> ('d, storage_error, u32) action" where
  "write_entry_sectors ops esec backup_entries [] crc = return_act crc"
| "write_entry_sectors ops esec backup_entries (i # is) crc =
    (let sector = (if i = 0 then esec else replicate 512 0); crc' = crc_update crc sector in
     bind_act (write_sectors ops (2 + of_nat i) sector) (\<lambda>_.
     bind_act (write_sectors ops (backup_entries + of_nat i) sector) (\<lambda>_.
     write_entry_sectors ops esec backup_entries is crc')))"

definition write_guided_installer_gpt ::
  "'d block_ops \<Rightarrow> installer_guids \<Rightarrow> ('d, storage_error, installer_layout) action" where
  "write_guided_installer_gpt ops guids d =
    (if sector_size ops d \<noteq> 512 then (Inl S_UnsupportedSectorSize, d)
     else
       (let total_sectors = sector_count ops d in
        bind_act (lift_res (guided_installer_layout total_sectors (ig_disk guids))) (\<lambda>layout.
        if guid_is_zero (ig_disk guids) \<or> guid_is_zero (ig_bios guids) \<or> guid_is_zero (ig_esp guids) \<or>
           guid_is_zero (ig_root guids)
        then fail_act S_InvalidPartition
        else
          let backup_header = total_sectors - 1; backup_entries = backup_header - GPT_ENTRY_SECTORS in
          bind_act (write_entry_sectors ops (entry_sector guids layout) backup_entries
                      [0..<unat GPT_ENTRY_SECTORS] crc_new) (\<lambda>crc.
          let entries_crc = crc_finish crc in
          bind_act (write_sectors ops 0 (protective_mbr total_sectors)) (\<lambda>_.
          bind_act (write_sectors ops 1
                      (encode_header 1 backup_header total_sectors (il_disk_guid layout) 2 entries_crc)) (\<lambda>_.
          bind_act (write_sectors ops backup_header
                      (encode_header backup_header 1 total_sectors (il_disk_guid layout) backup_entries entries_crc)) (\<lambda>_.
          bind_act (flush_device ops) (\<lambda>_.
          bind_act (verify_guided_installer_gpt ops layout) (\<lambda>_.
          return_act layout))))))) d))"

end
