(* ===== verification/Installer_Encoding.thy ===== *)
theory Installer_Encoding
  imports Installer
begin

text \<open>
  The bytes of the installer's partition table: the header and the entries survive encoding by
  \<open>installer.rs\<close> and parsing by \<open>partition.rs\<close>.
\<close>

section \<open>The header\<close>

lemma encode_header_round_trip:
  assumes "length guid = 16" "current_lba \<noteq> backup_lba" "34 \<le> total_sectors - 34"
  shows "length (encode_header current_lba backup_lba total_sectors guid entries_lba crc) = 512"
    and "parse_gpt_header (encode_header current_lba backup_lba total_sectors guid entries_lba crc)
      = Inr \<lparr>gh_revision = 0x00010000, gh_header_size = 92, gh_current_lba = current_lba,
             gh_backup_lba = backup_lba, gh_first_usable_lba = 34,
             gh_last_usable_lba = total_sectors - 34, gh_disk_guid = guid,
             gh_entries_lba = entries_lba, gh_entry_count = 128, gh_entry_size = 128,
             gh_entries_crc32 = crc\<rparr>"
proof -
  let ?h = "encode_header current_lba backup_lba total_sectors guid entries_lba crc"
  define h where "h = put_slice 88 (le_bytes 4 crc) (put_slice 84 (le_bytes 4 GPT_ENTRY_SIZE)
    (put_slice 80 (le_bytes 4 GPT_ENTRY_COUNT) (put_slice 72 (le_bytes 8 entries_lba)
    (put_slice 56 guid (put_slice 48 (le_bytes 8 (total_sectors - GPT_ENTRY_SECTORS - 2))
    (put_slice 40 (le_bytes 8 FIRST_USABLE_LBA) (put_slice 32 (le_bytes 8 backup_lba)
    (put_slice 24 (le_bytes 8 current_lba) (put_slice 12 (le_bytes 4 (92 :: u32))
    (put_slice 8 (le_bytes 4 (0x00010000 :: u32)) (put_slice 0 GPT_SIGNATURE
    (replicate 512 (0 :: u8)))))))))))))"
  have enc: "?h = put_slice 16 (le_bytes 4 (crc32 (slice 0 92 h))) h"
    by (simp add: encode_header_def h_def Let_def)
  have sig: "length GPT_SIGNATURE = 8" by (simp add: GPT_SIGNATURE_def)
  have len: "length h = 512" using assms(1) by (simp add: h_def sig)
  have fields: "slice 0 8 h = GPT_SIGNATURE" "slice 8 4 h = le_bytes 4 (0x00010000 :: u32)"
    "slice 12 4 h = le_bytes 4 (92 :: u32)" "slice 24 8 h = le_bytes 8 current_lba"
    "slice 32 8 h = le_bytes 8 backup_lba" "slice 40 8 h = le_bytes 8 FIRST_USABLE_LBA"
    "slice 48 8 h = le_bytes 8 (total_sectors - GPT_ENTRY_SECTORS - 2)" "slice 56 16 h = guid"
    "slice 72 8 h = le_bytes 8 entries_lba" "slice 80 4 h = le_bytes 4 GPT_ENTRY_COUNT"
    "slice 84 4 h = le_bytes 4 GPT_ENTRY_SIZE" "slice 88 4 h = le_bytes 4 crc"
    "slice 16 4 h = replicate 4 0"
    using assms(1) by (simp_all add: h_def sig slice_simps slice_replicate)
  show "length ?h = 512" by (simp add: enc len)
  have f: "slice a n ?h = slice a n h" if "a + n \<le> 16 \<or> 20 \<le> a" for a n
    using that len by (simp add: enc slice_put_other)
  have sum: "gpt_header_crc32 (slice 0 92 ?h) = le_u32 ?h 16"
  proof -
    have "gpt_header_crc32 (slice 0 92 ?h) = crc32 (put_slice 16 (replicate 4 0) (slice 0 92 ?h))"
      by (rule gpt_header_crc32_zeroed) (simp add: enc len)
    also have "put_slice 16 (replicate 4 0) (slice 0 92 ?h) = slice 0 92 h"
      unfolding enc using len fields(13) by (intro put_slice_restore) simp_all
    finally show ?thesis by (simp add: le_u32_def enc len slice_put_same)
  qed
  show "parse_gpt_header ?h
      = Inr \<lparr>gh_revision = 0x00010000, gh_header_size = 92, gh_current_lba = current_lba,
             gh_backup_lba = backup_lba, gh_first_usable_lba = 34,
             gh_last_usable_lba = total_sectors - 34, gh_disk_guid = guid,
             gh_entries_lba = entries_lba, gh_entry_count = 128, gh_entry_size = 128,
             gh_entries_crc32 = crc\<rparr>"
    using assms(2,3) sum
    by (simp add: parse_gpt_header_def \<open>length ?h = 512\<close> f fields le_u32_def le_u64_def Let_def
        installer_consts MAX_GPT_ENTRIES_def MAX_GPT_ENTRY_SIZE_def)
qed

section \<open>The entries\<close>

lemma length_utf16 [simp]: "length (utf16 name) = length name"
  by (simp add: utf16_def)

lemma encode_entry_bytes:
  assumes "length ty = 16" "length un = 16" "length name \<le> 36"
  shows "encode_entry ty un span name = ty @ un @ le_bytes 8 (span_first span) @
    le_bytes 8 (span_first span + span_count span - 1) @ replicate 8 0 @
    concat (map (le_bytes 2) (utf16 name)) @ replicate (72 - 2 * length name) 0"
proof -
  have cs: "take 36 (utf16 name) = utf16 name" "length (utf16 name) = length name"
    using assms(3) by (simp_all add: utf16_def)
  define out where "out = put_slice 40 (le_bytes 8 (span_first span + span_count span - 1))
    (put_slice 32 (le_bytes 8 (span_first span)) (put_slice 16 un (put_slice 0 ty (replicate 128 (0 :: u8)))))"
  have out: "out = ty @ un @ le_bytes 8 (span_first span) @
      le_bytes 8 (span_first span + span_count span - 1) @ replicate 80 0"
    using assms(1,2) unfolding out_def put_slice_def by simp
  have "encode_entry ty un span name = put_slice 56 (concat (map (le_bytes 2) (utf16 name))) out"
    using put_words [where w = 2 and off = 56 and n = 0 and cs = "utf16 name" and out = out] assms cs
    by (simp add: encode_entry_def out_def [symmetric] Let_def) (simp add: out)
  then show ?thesis using assms cs unfolding out by (simp add: put_slice_def)
qed

lemma utf16_units_concat:
  "utf16_units (concat (map (le_bytes 2) cs) @ bs) = cs @ utf16_units bs"
proof (induction cs)
  case (Cons c cs)
  have ab: "le_bytes 2 c = [ucast c, ucast (drop_bit 8 c)]"
    by (simp add: le_bytes_def upt_rec)
  then have "of_le [ucast c, ucast (drop_bit 8 c)] = c" using of_le_roundtrips(1) [of c] by metis
  with Cons ab show ?case by (simp del: of_le.simps)
qed simp

lemma utf16_units_zeros: "utf16_units (replicate (2 * n) 0) = replicate n 0"
  by (induction n) simp_all

lemma unat_of_char_u16: "unat (of_char c :: u16) = of_char c"
proof -
  have "(of_char c :: u16) = of_nat (of_char c)" by (simp only: of_nat_of_char)
  moreover have "(of_char c :: nat) < 2 ^ LENGTH(16)" by (rule order_less_trans [OF nat_of_char_less_256]) simp
  ultimately show ?thesis by (metis unat_of_nat_fits)
qed

lemma decode_encoded_name:
  assumes "\<forall>c \<in> set name. c \<noteq> CHR 0x00" "length name \<le> 36"
  shows "decode_gpt_name (concat (map (le_bytes 2) (utf16 name)) @ replicate (72 - 2 * length name) 0)
    = map of_char name"
proof -
  have nz: "(of_char c :: u16) \<noteq> 0" if "c \<in> set name" for c
  proof
    assume "(of_char c :: u16) = 0"
    then have "(of_char c :: nat) = of_char (CHR 0x00)" using unat_of_char_u16 [of c] by simp
    then show False using assms(1) that by (simp only: of_char_eq_iff)
  qed
  have low: "\<not> 0xD800 \<le> (of_char c :: u16)" for c
    by (simp add: word_le_nat_alt unat_of_char_u16 not_le order_less_trans [OF nat_of_char_less_256])
  have up: "(ucast (of_char c :: u16) :: u32) = of_char c" for c
  proof -
    have "(ucast (of_char c :: u16) :: u32) = of_nat (unat (of_char c :: u16))" by simp
    also have "\<dots> = of_char c" by (simp only: unat_of_char_u16 of_nat_of_char)
    finally show ?thesis .
  qed
  have "72 - 2 * length name = 2 * (36 - length name)" by simp
  then have "utf16_units (concat (map (le_bytes 2) (utf16 name)) @ replicate (72 - 2 * length name) 0)
      = utf16 name @ replicate (36 - length name) 0"
    by (simp only: utf16_units_concat utf16_units_zeros)
  moreover have "takeWhile (\<lambda>v. v \<noteq> 0) (utf16 name @ replicate (36 - length name) 0) = utf16 name"
    using nz by (subst takeWhile_append2) (auto simp: utf16_def takeWhile_replicate)
  ultimately show ?thesis
    unfolding decode_gpt_name_def by (simp add: utf16_def low up)
qed

text \<open>The sectors of the entry array, as one byte string.\<close>

definition installer_entries :: "installer_guids \<Rightarrow> installer_layout \<Rightarrow> bytes list" where
  "installer_entries guids layout =
    [encode_entry BIOS_BOOT_TYPE_GUID (ig_bios guids) (il_bios layout) ''NexOS BIOS'',
     encode_entry ESP_TYPE_GUID (ig_esp guids) (il_esp layout) ''NexOS boot'',
     encode_entry NEXFS_TYPE_GUID (ig_root guids) (il_root layout) ''NexOS root'']"

definition guids_ok :: "installer_guids \<Rightarrow> bool" where
  "guids_ok g \<longleftrightarrow> (\<forall>x \<in> {ig_disk g, ig_bios g, ig_esp g, ig_root g}. length x = 16 \<and> \<not> guid_is_zero x)"

lemma type_guid_length [simp]:
  "length BIOS_BOOT_TYPE_GUID = 16" "length ESP_TYPE_GUID = 16" "length NEXFS_TYPE_GUID = 16"
  by (simp_all add: BIOS_BOOT_TYPE_GUID_def ESP_TYPE_GUID_def NEXFS_TYPE_GUID_def)

lemma hd_nonzero: "hd g \<noteq> 0 \<Longrightarrow> \<not> guid_is_zero g"
  by (auto simp: guid_is_zero_def)

lemma type_guid_nonzero [simp]:
  "\<not> guid_is_zero BIOS_BOOT_TYPE_GUID" "\<not> guid_is_zero ESP_TYPE_GUID" "\<not> guid_is_zero NEXFS_TYPE_GUID"
  by (rule hd_nonzero, simp add: BIOS_BOOT_TYPE_GUID_def ESP_TYPE_GUID_def NEXFS_TYPE_GUID_def)+

lemma length_encode_entry:
  "\<lbrakk>length ty = 16; length un = 16; length name \<le> 36\<rbrakk> \<Longrightarrow> length (encode_entry ty un span name) = 128"
  by (simp add: encode_entry_bytes)

lemma entry_sector_bytes:
  assumes "guids_ok guids"
  shows "entry_sector guids layout = concat (installer_entries guids layout) @ replicate 128 0"
    and "length (concat (installer_entries guids layout)) = 384"
proof -
  have len: "length (encode_entry BIOS_BOOT_TYPE_GUID (ig_bios guids) (il_bios layout) ''NexOS BIOS'') = 128"
    "length (encode_entry ESP_TYPE_GUID (ig_esp guids) (il_esp layout) ''NexOS boot'') = 128"
    "length (encode_entry NEXFS_TYPE_GUID (ig_root guids) (il_root layout) ''NexOS root'') = 128"
    using assms by (simp_all add: guids_ok_def length_encode_entry)
  show "entry_sector guids layout = concat (installer_entries guids layout) @ replicate 128 0"
    by (simp add: entry_sector_def installer_entries_def put_slice_def Let_def len)
  show "length (concat (installer_entries guids layout)) = 384"
    by (simp add: installer_entries_def len)
qed

text \<open>One entry, as the reader sees it.\<close>

definition installed_partition :: "nat \<Rightarrow> bytes \<Rightarrow> bytes \<Rightarrow> partition_span \<Rightarrow> string \<Rightarrow> partition" where
  "installed_partition i ty un span name =
    \<lparr>part_index = of_nat (i + 1), part_first_lba = span_first span, part_sector_count = span_count span,
     part_bootable = False, part_mbr_type = None, part_type_guid = Some ty, part_unique_guid = Some un,
     part_attributes = 0, part_name = map of_char name\<rparr>"

definition span_inside :: "u64 \<Rightarrow> u64 \<Rightarrow> partition_span \<Rightarrow> bool" where
  "span_inside lo hi span \<longleftrightarrow> lo \<le> span_first span \<and> 0 < unat (span_count span) \<and>
    unat (span_first span) + unat (span_count span) \<le> unat hi + 1"

lemma span_last:
  assumes "span_inside lo hi span"
  shows "unat (span_first span + span_count span - 1) = unat (span_first span) + unat (span_count span) - 1"
proof -
  let ?c = "span_count span - 1"
  have c: "unat ?c = unat (span_count span) - 1"
    using assms by (simp add: span_inside_def unat_sub word_le_nat_alt)
  have "unat (span_first span) + unat ?c < 2 ^ LENGTH(64)"
    using assms unat_bound [of hi] by (auto simp: span_inside_def c)
  then have "unat (span_first span + ?c) = unat (span_first span) + unat ?c" by (rule unat_add_fits)
  moreover have "span_first span + ?c = span_first span + span_count span - 1" by simp
  ultimately show ?thesis using assms by (auto simp: c span_inside_def)
qed

lemma gpt_entry_encoded:
  assumes sl: "slice (i * 128) 128 bs = encode_entry ty un span name"
    and ty: "length ty = 16" "\<not> guid_is_zero ty" and un: "length un = 16" "\<not> guid_is_zero un"
    and name: "\<forall>c \<in> set name. c \<noteq> CHR 0x00" "length name \<le> 36" and i: "i < 128"
    and span: "span_inside (gh_first_usable_lba header) (gh_last_usable_lba header) span"
  shows "gpt_entry header 128 bs i = Inr (Some (installed_partition i ty un span name))"
proof -
  let ?e = "encode_entry ty un span name"
  note eb = encode_entry_bytes [OF ty(1) un(1) name(2), of span]
  have f: "slice 0 16 ?e = ty" "slice 16 16 ?e = un" "slice 32 8 ?e = le_bytes 8 (span_first span)"
    "slice 40 8 ?e = le_bytes 8 (span_first span + span_count span - 1)" "slice 48 8 ?e = replicate 8 0"
    "slice 56 72 ?e = concat (map (le_bytes 2) (utf16 name)) @ replicate (72 - 2 * length name) 0"
    unfolding eb using ty(1) un(1) name(2) by (simp_all add: slice_def)
  have zero: "of_le (replicate 8 0) = (0 :: u64)" by (simp add: numeral_eq_Suc)
  note last = span_last [OF span]
  have order: "\<not> span_first span < gh_first_usable_lba header"
    "\<not> gh_last_usable_lba header < span_first span + span_count span - 1"
    "span_first span \<le> span_first span + span_count span - 1"
    using span by (auto simp: span_inside_def word_less_nat_alt word_le_nat_alt last)
  have count: "Option.bind (checked_sub (span_first span + span_count span - 1) (span_first span))
      (\<lambda>v. checked_add v 1) = Some (span_count span)"
  proof -
    have "checked_add (span_count span - 1) 1 = Some (span_count span)"
      using span by (simp add: checked_add_Some_iff span_inside_def unat_sub word_le_nat_alt)
    then show ?thesis using order(3) by (simp add: checked_sub_def algebra_simps)
  qed
  show ?thesis
    using i count order
    by (simp add: gpt_entry_def sl f ty un le_u64_def zero Let_def not_less installed_partition_def
        decode_encoded_name [OF name])
qed

section \<open>The properties\<close>

text \<open>C34. Damage to a GPT header: when a header was accepted and up to four consecutive bytes of it
  behind its checksum field are overwritten, parsing reports \<open>ChecksumMismatch\<close>, unless the bytes
  were overwritten with what they held.\<close>

theorem gpt_header_damage_detected:
  assumes ok: "parse_gpt_header sector = Inr h" and w: "length w \<le> 4"
    and range: "20 \<le> off" "off + length w \<le> unat (gh_header_size h)"
  shows "parse_gpt_header (put_slice off w sector) =
    (if slice off (length w) sector = w then Inr h else Inl S_ChecksumMismatch)"
proof (cases "slice off (length w) sector = w")
  case True
  have "unat (gh_header_size h) \<le> length sector"
    using ok by (auto simp: parse_gpt_header_def Let_def split: if_splits)
  with True range show ?thesis using ok put_slice_id [of off "length w" sector] by simp
next
  case False
  let ?n = "unat (gh_header_size h)" and ?s = "put_slice off w sector"
  have h: "gh_header_size h = le_u32 sector 12" "92 \<le> length sector" "slice 0 8 sector = GPT_SIGNATURE"
    "92 \<le> ?n" "?n \<le> length sector" "gpt_header_crc32 (slice 0 ?n sector) = le_u32 sector 16"
    using ok by (auto simp: parse_gpt_header_def Let_def split: if_splits)
  have same: "slice a m ?s = slice a m sector" if "a + m \<le> 20" for a m
    using that range h(5) by (intro slice_put_other) auto
  have len: "length ?s = length sector" using range h(5) by simp
  have hs: "le_u32 ?s 12 = gh_header_size h" "le_u32 ?s 16 = le_u32 sector 16"
    using same h(1) by (simp_all add: le_u32_def)
  let ?z = "put_slice 16 (replicate 4 0) (slice 0 ?n sector)"
  have "gpt_header_crc32 (slice 0 ?n ?s) = crc32 (put_slice off w ?z)"
    using range h(4,5) by (simp add: gpt_header_crc32_zeroed slice_put_prefix put_slice_commute)
  moreover have "slice off (length w) ?z = slice off (length w) sector"
  proof -
    have "slice off (length w) ?z = slice off (length w) (slice 0 ?n sector)"
      using range h(4,5) by (intro slice_put_other) auto
    also have "\<dots> = slice off (length w) sector"
      using range h(5) by (intro nth_equalityI) auto
    finally show ?thesis .
  qed
  ultimately have "gpt_header_crc32 (slice 0 ?n ?s) \<noteq> crc32 ?z"
    using crc32_put_slice [OF w, of off ?z] False range h(4,5) by simp
  then have "gpt_header_crc32 (slice 0 ?n ?s) \<noteq> le_u32 ?s 16"
    using h(4-6) hs(2) by (simp add: gpt_header_crc32_zeroed)
  then show ?thesis
    using False same [of 0 8] h(2-5) len
    by (simp add: parse_gpt_header_def hs(1) Let_def)
qed

theorem gpt_header_damage_detected_witness:
  "parse_gpt_header (put_slice 88 [1, 1, 1, 1] (encode_header 1 9999 10000 (replicate 16 7) 2 5))
    = Inl S_ChecksumMismatch"
proof -
  let ?s = "encode_header 1 9999 10000 (replicate 16 7) 2 5"
  note ok = encode_header_round_trip(2) [of "replicate 16 7" 1 9999 10000 2 5, simplified]
  have "le_u32 ?s 88 = 5"
    using ok by (auto simp: parse_gpt_header_def Let_def split: if_splits)
  then have "slice 88 4 ?s \<noteq> [1, 1, 1, 1]" by (auto simp: le_u32_def)
  moreover have "length [1, 1, 1, 1 :: u8] = 4" by simp
  ultimately have "slice 88 (length [1, 1, 1, 1 :: u8]) ?s \<noteq> [1, 1, 1, 1]" by (simp only: not_False_eq_True)
  then show ?thesis
    using gpt_header_damage_detected [OF ok, of "[1, 1, 1, 1]" 88] by auto
qed

end
