(* ===== verification/Installer_Readback.thy ===== *)
theory Installer_Readback
  imports Installer_Encoding
begin

text \<open>
  The installer's partition table on a disk: the layout fits, and on every fault-free device the
  writer succeeds, its own verification included, after which the reader of \<open>partition.rs\<close>
  finds exactly the three partitions of the layout.
\<close>

section \<open>The layout\<close>

definition disk_layout :: "u64 \<Rightarrow> bytes \<Rightarrow> installer_layout" where
  "disk_layout n guid =
    \<lparr>il_disk_guid = guid, il_bios = \<lparr>span_first = 2048, span_count = 2048\<rparr>,
     il_esp = \<lparr>span_first = 4096, span_count = 131072\<rparr>,
     il_root = \<lparr>span_first = 135168, span_count = n - 135201\<rparr>\<rparr>"

lemma guided_layout:
  assumes "MIN_DISK_SECTORS \<le> n"
  shows "guided_installer_layout n guid = Inr (disk_layout n guid)"
proof -
  have n: "262144 \<le> unat n" using assms by (simp add: installer_consts word_le_nat_alt)
  have sub: "checked_sub n (1 + GPT_ENTRY_SECTORS) = Some (n - 33)" "checked_sub (n - 33) 1 = Some (n - 34)"
    using n by (simp_all add: checked_sub_def installer_consts word_le_nat_alt unat_sub)
  have add: "checked_add (4096 :: u64) 131072 = Some 135168" by (simp add: checked_add_def)
  have al: "align_up 135168 ALIGNMENT_SECTORS = 135168"
    by (simp add: align_up_def saturating_add_def installer_consts)
  have ok: "\<not> n - 34 \<le> 135168" using n by (simp add: word_le_nat_alt unat_sub)
  show ?thesis
    using assms ok
    by (simp add: guided_installer_layout_def sub al add disk_layout_def Let_def not_le)
       (simp add: installer_consts add al [unfolded installer_consts] not_le)
qed

lemma disk_layout_spans:
  assumes "MIN_DISK_SECTORS \<le> n"
  shows "span_inside 34 (n - 34) (il_bios (disk_layout n g))" "span_inside 34 (n - 34) (il_esp (disk_layout n g))"
    "span_inside 34 (n - 34) (il_root (disk_layout n g))"
proof -
  have n: "262144 \<le> unat n" using assms by (simp add: installer_consts word_le_nat_alt)
  then show "span_inside 34 (n - 34) (il_bios (disk_layout n g))" "span_inside 34 (n - 34) (il_esp (disk_layout n g))"
    "span_inside 34 (n - 34) (il_root (disk_layout n g))"
    by (simp_all add: span_inside_def disk_layout_def unat_sub word_le_nat_alt)
qed

section \<open>The protective record\<close>

lemma parse_protective_mbr:
  assumes "1 < unat n"
  shows "length (protective_mbr n) = 512"
    and "\<exists>c. parse_mbr (protective_mbr n) = Inr
      [Some \<lparr>mbr_bootable = False, mbr_type = 0xEE, mbr_first_lba = 1, mbr_sector_count = c\<rparr>, None, None, None]"
proof -
  let ?c = "ucast (min (n - 1) 0xFFFFFFFF) :: u32"
  have mark: "(replicate 512 (0 :: u8))[450 := 0xEE] = replicate 450 0 @ 0xEE # replicate 61 0"
    by (simp add: upd_conv_take_nth_drop)
  have bytes: "protective_mbr n = replicate 450 0 @ [0xEE, 0, 0, 0] @ le_bytes 4 (1 :: u32) @
      le_bytes 4 ?c @ replicate 48 0 @ MBR_SIGNATURE"
    unfolding protective_mbr_def Let_def mark
    by (simp add: put_slice_def MBR_SIGNATURE_def) (simp add: numeral_eq_Suc)
  show "length (protective_mbr n) = 512" by (simp add: bytes MBR_SIGNATURE_def)
  have "unat ?c = unat (min (n - 1) 0xFFFFFFFF)"
    by (simp add: unsigned_ucast_eq take_bit_nat_eq_self_iff min_def word_le_nat_alt)
  moreover have "unat (n - 1) \<noteq> 0" using assms by (simp add: unat_sub word_le_nat_alt)
  ultimately have c: "?c \<noteq> 0" by (auto simp: min_def split: if_splits)
  have e0: "slice 446 16 (protective_mbr n) = [0, 0, 0, 0, 0xEE, 0, 0, 0] @ le_bytes 4 (1 :: u32) @ le_bytes 4 ?c"
    unfolding bytes by (simp add: slice_def) (simp add: numeral_eq_Suc)
  have e: "slice 462 16 (protective_mbr n) = replicate 16 0" "slice 478 16 (protective_mbr n) = replicate 16 0"
     "slice 494 16 (protective_mbr n) = replicate 16 0" "slice 510 2 (protective_mbr n) = MBR_SIGNATURE"
    unfolding bytes by (simp_all add: slice_def MBR_SIGNATURE_def)
  have four: "[0..<4] = [0, 1, 2, 3]" by (simp add: upt_rec)
  have r0: "mbr_entry (protective_mbr n) 0 = Inr (Some \<lparr>mbr_bootable = False, mbr_type = 0xEE,
      mbr_first_lba = 1, mbr_sector_count = ?c\<rparr>)"
  proof -
    have "slice 8 4 ([0, 0, 0, 0, 0xEE, 0, 0, 0] @ le_bytes 4 (1 :: u32) @ le_bytes 4 ?c) = le_bytes 4 (1 :: u32)"
      "slice 12 4 ([0, 0, 0, 0, 0xEE, 0, 0, 0] @ le_bytes 4 (1 :: u32) @ le_bytes 4 ?c) = le_bytes 4 ?c"
      by (simp_all add: slice_def)
    then show ?thesis using c by (simp add: mbr_entry_def e0 le_u32_def Let_def)
  qed
  have r: "mbr_entry (protective_mbr n) i = Inr None" if "slice (446 + i * 16) 16 (protective_mbr n) = replicate 16 0" for i
    by (simp add: mbr_entry_def that Let_def le_u32_def slice_replicate) (simp add: numeral_eq_Suc)
  show "\<exists>c. parse_mbr (protective_mbr n) = Inr
      [Some \<lparr>mbr_bootable = False, mbr_type = 0xEE, mbr_first_lba = 1, mbr_sector_count = c\<rparr>, None, None, None]"
    unfolding parse_mbr_def four by (simp add: e \<open>length (protective_mbr n) = 512\<close> r0 r)
qed

section \<open>The entry array\<close>

definition entry_at :: "u64 \<Rightarrow> installer_guids \<Rightarrow> nat \<Rightarrow> bytes" where
  "entry_at n guids i = (if i = 0 then entry_sector guids (disk_layout n (ig_disk guids)) else replicate 512 0)"

definition entries_crc :: "u64 \<Rightarrow> installer_guids \<Rightarrow> u32" where
  "entries_crc n guids = crc32 (concat (map (entry_at n guids) [0..<32]))"

definition installed_partitions :: "u64 \<Rightarrow> installer_guids \<Rightarrow> partition list" where
  "installed_partitions n guids =
    (let l = disk_layout n (ig_disk guids) in
     [installed_partition 0 BIOS_BOOT_TYPE_GUID (ig_bios guids) (il_bios l) ''NexOS BIOS'',
      installed_partition 1 ESP_TYPE_GUID (ig_esp guids) (il_esp l) ''NexOS boot'',
      installed_partition 2 NEXFS_TYPE_GUID (ig_root guids) (il_root l) ''NexOS root''])"

lemma concat_replicates:
  "\<forall>x \<in> set xs. f x = replicate n v \<Longrightarrow> concat (map f xs) = replicate (length xs * n) v"
  by (induction xs) (simp_all add: replicate_add)

lemma length_entry_at: "guids_ok guids \<Longrightarrow> length (entry_at n guids i) = 512"
  by (simp add: entry_at_def entry_sector_bytes)

lemma entry_array:
  assumes "guids_ok guids"
  shows "concat (map (entry_at n guids) [0..<32])
    = concat (installer_entries guids (disk_layout n (ig_disk guids))) @ replicate 16000 0"
proof -
  have "[0..<32] = 0 # [1..<32]" by (simp add: upt_conv_Cons)
  moreover have "concat (map (entry_at n guids) [1..<32]) = replicate (31 * 512) 0"
    by (subst concat_replicates [where n = 512 and v = 0]) (auto simp: entry_at_def)
  moreover have "replicate 128 0 @ replicate (31 * 512) 0 = replicate 16000 (0 :: u8)"
    by (simp add: replicate_add [symmetric])
  ultimately show ?thesis by (simp add: entry_at_def entry_sector_bytes(1) [OF assms])
qed

lemma installed_rows:
  assumes g: "guids_ok guids" and n: "MIN_DISK_SECTORS \<le> n"
    and h: "gh_first_usable_lba header = 34" "gh_last_usable_lba header = n - 34"
    and bs: "bs = concat (map (entry_at n guids) [0..<32])"
  shows "map_res (gpt_entry header 128 bs) [0..<128] = Inr (map Some (installed_partitions n guids) @ replicate 125 None)"
proof -
  let ?l = "disk_layout n (ig_disk guids)"
  note spans = disk_layout_spans [OF n, of "ig_disk guids"]
  have len: "length (encode_entry BIOS_BOOT_TYPE_GUID (ig_bios guids) (il_bios ?l) ''NexOS BIOS'') = 128"
    "length (encode_entry ESP_TYPE_GUID (ig_esp guids) (il_esp ?l) ''NexOS boot'') = 128"
    "length (encode_entry NEXFS_TYPE_GUID (ig_root guids) (il_root ?l) ''NexOS root'') = 128"
    using g by (simp_all add: guids_ok_def length_encode_entry)
  have sl: "slice (0 * 128) 128 bs = encode_entry BIOS_BOOT_TYPE_GUID (ig_bios guids) (il_bios ?l) ''NexOS BIOS''"
    "slice (1 * 128) 128 bs = encode_entry ESP_TYPE_GUID (ig_esp guids) (il_esp ?l) ''NexOS boot''"
    "slice (2 * 128) 128 bs = encode_entry NEXFS_TYPE_GUID (ig_root guids) (il_root ?l) ''NexOS root''"
    unfolding bs entry_array [OF g] by (simp_all add: installer_entries_def slice_def len)
  have rest: "gpt_entry header 128 bs i = Inr None" if "3 \<le> i" "i < 128" for i
  proof -
    have "slice (i * 128) 128 bs = slice (i * 128 - 384) 128 (replicate 16000 0)"
      unfolding bs entry_array [OF g] using that entry_sector_bytes(2) [OF g, of ?l]
      by (subst slice_skip) simp_all
    also have "\<dots> = replicate 128 0" using that by (intro slice_replicate) simp
    finally show ?thesis by (simp add: gpt_entry_def guid_is_zero_def slice_replicate Let_def)
  qed
  have first: "gpt_entry header 128 bs 0 = Inr (Some (installed_partitions n guids ! 0))"
    "gpt_entry header 128 bs 1 = Inr (Some (installed_partitions n guids ! 1))"
    "gpt_entry header 128 bs 2 = Inr (Some (installed_partitions n guids ! 2))"
    using g spans h gpt_entry_encoded [OF sl(1)] gpt_entry_encoded [OF sl(2)] gpt_entry_encoded [OF sl(3)]
    by (simp_all add: installed_partitions_def guids_ok_def Let_def)
  have "gpt_entry header 128 bs i = Inr ((map Some (installed_partitions n guids) @ replicate 125 None) ! i)"
    if "i < 128" for i
  proof -
    have three: "length (installed_partitions n guids) = 3" by (simp add: installed_partitions_def Let_def)
    consider "i = 0" | "i = 1" | "i = 2" | "3 \<le> i" by linarith
    then show ?thesis using first rest [OF _ that] that by cases (simp_all add: nth_append three)
  qed
  then show ?thesis by (simp add: map_res_Inr_iff installed_partitions_def Let_def)
qed

lemma installed_no_overlap:
  assumes "MIN_DISK_SECTORS \<le> n"
  shows "validate_no_overlap (installed_partitions n guids) = Inr ()"
proof -
  have n: "262144 \<le> unat n" using assms by (simp add: installer_consts word_le_nat_alt)
  have a: "checked_add (2048 :: u64) 2048 = Some 4096" "checked_add (4096 :: u64) 131072 = Some 135168"
    by (simp_all add: checked_add_def)
  have b: "checked_add 135168 (n - 135201) = Some (n - 33)"
    using n by (simp add: checked_add_Some_iff unat_sub word_le_nat_alt)
  show ?thesis
    by (simp add: installed_partitions_def installed_partition_def disk_layout_def a b Let_def)
qed

section \<open>The disk\<close>

lemma sector_range_from: "sector_range f a n = concat (map (\<lambda>i. f (a + i)) [0..<n])"
proof -
  have "[a..<a + n] = map (\<lambda>i. i + a) [0..<n]" by (simp add: map_add_upt add.commute)
  then show ?thesis by (simp add: sector_range_def comp_def add.commute)
qed

text \<open>What the sectors of an installed disk hold.\<close>

definition installed_disk :: "u64 \<Rightarrow> installer_guids \<Rightarrow> (nat \<Rightarrow> bytes) \<Rightarrow> bool" where
  "installed_disk n guids f \<longleftrightarrow>
    f 0 = protective_mbr n \<and>
    f 1 = encode_header 1 (n - 1) n (ig_disk guids) 2 (entries_crc n guids) \<and>
    f (unat n - 1) = encode_header (n - 1) 1 n (ig_disk guids) (n - 33) (entries_crc n guids) \<and>
    (\<forall>i < 32. f (2 + i) = entry_at n guids i)"

lemma verify_encoded:
  assumes "length ty = 16" "length un = 16" "length name \<le> 36" "span_inside lo hi span"
  shows "verify_entry (encode_entry ty un span name) ty span = Inr ()"
proof -
  let ?e = "encode_entry ty un span name"
  note eb = encode_entry_bytes [OF assms(1-3), of span]
  have f: "slice 0 16 ?e = ty" "slice 32 8 ?e = le_bytes 8 (span_first span)"
    "slice 40 8 ?e = le_bytes 8 (span_first span + span_count span - 1)"
    unfolding eb using assms(1,2) by (simp_all add: slice_def)
  have "checked_add (span_first span) (span_count span - 1) = Some (span_first span + span_count span - 1)"
    using span_last [OF assms(4)] assms(4)
    by (auto simp: checked_add_Some_iff span_inside_def unat_sub word_le_nat_alt)
  then show ?thesis by (simp add: verify_entry_def f le_u64_def)
qed

lemma verify_first_sector:
  assumes g: "guids_ok guids" and n: "MIN_DISK_SECTORS \<le> n"
  shows "verify_entry (slice 0 128 (entry_at n guids 0)) BIOS_BOOT_TYPE_GUID (il_bios (disk_layout n (ig_disk guids))) = Inr ()"
    "verify_entry (slice 128 128 (entry_at n guids 0)) ESP_TYPE_GUID (il_esp (disk_layout n (ig_disk guids))) = Inr ()"
    "verify_entry (slice 256 128 (entry_at n guids 0)) NEXFS_TYPE_GUID (il_root (disk_layout n (ig_disk guids))) = Inr ()"
proof -
  let ?l = "disk_layout n (ig_disk guids)"
  have gl: "length (ig_bios guids) = 16" "length (ig_esp guids) = 16" "length (ig_root guids) = 16"
    using g by (simp_all add: guids_ok_def)
  have "slice 0 128 (entry_at n guids 0) = encode_entry BIOS_BOOT_TYPE_GUID (ig_bios guids) (il_bios ?l) ''NexOS BIOS''"
    "slice 128 128 (entry_at n guids 0) = encode_entry ESP_TYPE_GUID (ig_esp guids) (il_esp ?l) ''NexOS boot''"
    "slice 256 128 (entry_at n guids 0) = encode_entry NEXFS_TYPE_GUID (ig_root guids) (il_root ?l) ''NexOS root''"
    by (simp_all add: entry_at_def entry_sector_bytes(1) [OF g] installer_entries_def slice_def
        length_encode_entry gl)
  then show "verify_entry (slice 0 128 (entry_at n guids 0)) BIOS_BOOT_TYPE_GUID (il_bios ?l) = Inr ()"
    "verify_entry (slice 128 128 (entry_at n guids 0)) ESP_TYPE_GUID (il_esp ?l) = Inr ()"
    "verify_entry (slice 256 128 (entry_at n guids 0)) NEXFS_TYPE_GUID (il_root ?l) = Inr ()"
    using verify_encoded disk_layout_spans [OF n, of "ig_disk guids"] gl by auto
qed

text \<open>Both headers of an installed disk.\<close>

definition installed_header :: "u64 \<Rightarrow> installer_guids \<Rightarrow> u64 \<Rightarrow> u64 \<Rightarrow> u64 \<Rightarrow> gpt_header" where
  "installed_header n guids cur backup entries =
    \<lparr>gh_revision = 0x00010000, gh_header_size = 92, gh_current_lba = cur,
     gh_backup_lba = backup, gh_first_usable_lba = 34,
     gh_last_usable_lba = n - 34, gh_disk_guid = ig_disk guids,
     gh_entries_lba = entries, gh_entry_count = 128, gh_entry_size = 128,
     gh_entries_crc32 = entries_crc n guids\<rparr>"

lemma installed_header_parse:
  assumes g: "guids_ok guids" and n: "MIN_DISK_SECTORS \<le> n" and "cur \<noteq> backup"
  shows "parse_gpt_header (encode_header cur backup n (ig_disk guids) entries (entries_crc n guids))
      = Inr (installed_header n guids cur backup entries)"
    and "length (encode_header cur backup n (ig_disk guids) entries (entries_crc n guids)) = 512"
proof -
  have "34 \<le> n - 34" using n by (simp add: installer_consts word_le_nat_alt unat_sub)
  moreover have "length (ig_disk guids) = 16" using g by (simp add: guids_ok_def)
  ultimately show "parse_gpt_header (encode_header cur backup n (ig_disk guids) entries (entries_crc n guids))
      = Inr (installed_header n guids cur backup entries)"
    "length (encode_header cur backup n (ig_disk guids) entries (entries_crc n guids)) = 512"
    using encode_header_round_trip [of "ig_disk guids" cur backup n] assms(3)
    by (simp_all add: installed_header_def)
qed

text \<open>A state reached by reads only.\<close>

definition quiet ::
  "'d block_ops \<Rightarrow> ('d \<Rightarrow> bool) \<Rightarrow> ('d \<Rightarrow> nat \<Rightarrow> bytes) \<Rightarrow> 'd \<Rightarrow> 'd \<Rightarrow> bool" where
  "quiet ops invar sec d d' \<longleftrightarrow> invar d' \<and> same_disk ops sec d d'"

context reliable_device
begin

lemma quiet_read:
  assumes "quiet ops invar sec d d1" "sector_bytes ops d = 512" "unat lba < sectors ops d" "length buf = 512"
  shows "\<exists>d2. read_buf ops lba buf d1 = (Inr (sec d (unat lba)), d2) \<and> quiet ops invar sec d d2"
proof -
  have d1: "invar d1" "same_disk ops sec d d1" using assms(1) by (simp_all add: quiet_def)
  note sz = same_disk_sizes [OF d1(2)]
  have "good_transfer ops d1 lba (length buf) 1" using assms sz by (simp add: good_transfer_def)
  from read_good [OF d1(1) this] obtain d2
    where r: "read_sectors ops lba buf d1 = (Inr (), sector_range (sec d1) (unat lba) 1, d2)"
      "invar d2" "same_disk ops sec d1 d2" by blast
  have "sector_range (sec d1) (unat lba) 1 = sec d (unat lba)"
    using d1(2) assms(3) by (simp add: same_disk_def)
  with r show ?thesis using same_disk_trans [OF d1(2) r(3)] by (auto simp: read_buf_def quiet_def)
qed

text \<open>Several sectors into a fresh vector.\<close>

lemma quiet_read_vec:
  assumes "quiet ops invar sec d d1" "good_transfer ops d lba len m"
  shows "\<exists>d2. read_vec ops lba len d1 = (Inr (sector_range (sec d) (unat lba) m), d2) \<and> quiet ops invar sec d d2"
proof -
  have d1: "invar d1" "same_disk ops sec d d1" using assms(1) by (simp_all add: quiet_def)
  note sz = same_disk_sizes [OF d1(2)]
  have "good_transfer ops d1 lba len m" using assms sz by (simp add: good_transfer_def)
  from read_vec_good [OF d1(1) this] obtain d2
    where r: "read_vec ops lba len d1 = (Inr (sector_range (sec d1) (unat lba) m), d2)"
      "invar d2" "same_disk ops sec d1 d2" by blast
  have "sector_range (sec d1) (unat lba) m = sector_range (sec d) (unat lba) m"
    using d1(2) assms(2) by (intro sector_range_cong) (simp add: same_disk_def good_transfer_def)
  with r show ?thesis using same_disk_trans [OF d1(2) r(3)] by (auto simp: quiet_def)
qed

lemma verify_loop:
  assumes "sector_bytes ops d = 512"
  shows "\<lbrakk>quiet ops invar sec d d1; \<forall>i \<in> set is. unat elba + i < sectors ops d;
     0 \<in> set is \<longrightarrow>
       verify_entry (slice 0 128 (sec d (unat elba))) BIOS_BOOT_TYPE_GUID (il_bios ex) = Inr () \<and>
       verify_entry (slice 128 128 (sec d (unat elba))) ESP_TYPE_GUID (il_esp ex) = Inr () \<and>
       verify_entry (slice 256 128 (sec d (unat elba))) NEXFS_TYPE_GUID (il_root ex) = Inr ();
     length sector = 512; invar d\<rbrakk> \<Longrightarrow>
    \<exists>s d2. verify_entry_sectors ops ex elba is sector crc d1
        = (Inr (s, foldl crc_byte crc (concat (map (\<lambda>i. sec d (unat elba + i)) is))), d2) \<and>
      quiet ops invar sec d d2 \<and> length s = 512"
proof (induction "is" arbitrary: d1 sector crc)
  case Nil
  then show ?case by auto
next
  case (Cons i js)
  have lba: "unat (elba + of_nat i) = unat elba + i"
  proof -
    have "unat elba + i < 2 ^ LENGTH(64)" using Cons.prems(2) unat_bound [of "sector_count ops d"]
      by (simp add: sectors_def)
    moreover from this have "unat (of_nat i :: u64) = i" by (intro unat_of_nat_fits) simp
    ultimately show ?thesis by (simp add: unat_add_fits)
  qed
  let ?s = "sec d (unat elba + i)"
  obtain d2 where r: "read_buf ops (elba + of_nat i) sector d1 = (Inr ?s, d2)" "quiet ops invar sec d d2"
    using quiet_read [OF Cons.prems(1) assms, of "elba + of_nat i" sector] Cons.prems(2,4) lba by auto
  have len: "length ?s = 512" using sec_length [OF Cons.prems(5)] Cons.prems(2) assms by simp
  obtain s d3 where rec: "verify_entry_sectors ops ex elba js ?s (foldl crc_byte crc ?s) d2
        = (Inr (s, foldl crc_byte (foldl crc_byte crc ?s) (concat (map (\<lambda>i. sec d (unat elba + i)) js))), d3)"
      "quiet ops invar sec d d3" "length s = 512"
    using Cons.IH [OF r(2) _ _ len Cons.prems(5), of "foldl crc_byte crc ?s"] Cons.prems(2,3)
    by (metis list.set_intros(2))
  have chk: "(if i = 0 then
         bind_res (verify_entry (slice 0 128 ?s) BIOS_BOOT_TYPE_GUID (il_bios ex)) (\<lambda>_.
         bind_res (verify_entry (slice 128 128 ?s) ESP_TYPE_GUID (il_esp ex)) (\<lambda>_.
         verify_entry (slice 256 128 ?s) NEXFS_TYPE_GUID (il_root ex)))
       else Inr ()) = Inr ()" using Cons.prems(3) by simp
  show ?case using rec r(1) chk by (simp add: crc_update_def Let_def)
qed

lemma write_sector:
  assumes "invar d" "sector_bytes ops d = 512" "unat lba < sectors ops d" "length data = 512"
  shows "\<exists>d'. write_sectors ops lba data d = (Inr (), d') \<and> invar d' \<and>
    sector_size ops d' = sector_size ops d \<and> sector_count ops d' = sector_count ops d \<and>
    (\<forall>k < sectors ops d. sec d' k = (if k = unat lba then data else sec d k))"
proof -
  have "good_transfer ops d lba (length data) 1" using assms by (simp add: good_transfer_def)
  from write_good [OF assms(1) this] show ?thesis
    using assms(2,4) by (auto simp: put_sectors_def)
qed

text \<open>The loop that writes both copies of the entry array.\<close>

lemma write_loop:
  assumes g: "guids_ok guids" and esec: "esec = entry_sector guids (disk_layout n (ig_disk guids))"
  shows "\<lbrakk>invar d; sector_bytes ops d = 512; \<forall>i \<in> set is. i < 32;
     34 \<le> unat be; unat be + 32 \<le> sectors ops d\<rbrakk> \<Longrightarrow>
    \<exists>d'. write_entry_sectors ops esec be is crc d
        = (Inr (foldl crc_byte crc (concat (map (entry_at n guids) is))), d') \<and> invar d' \<and>
      sector_size ops d' = sector_size ops d \<and> sector_count ops d' = sector_count ops d \<and>
      (\<forall>k < sectors ops d. sec d' k =
        (if 2 \<le> k \<and> k - 2 \<in> set is then entry_at n guids (k - 2)
         else if unat be \<le> k \<and> k - unat be \<in> set is then entry_at n guids (k - unat be)
         else sec d k))"
proof (induction "is" arbitrary: d crc)
  case Nil
  then show ?case by simp
next
  case (Cons i js)
  let ?e = "entry_at n guids i"
  have len: "length ?e = 512" by (rule length_entry_at [OF g])
  have i: "i < 32" using Cons.prems(3) by simp
  then have ui: "unat (of_nat i :: u64) = i" by (intro unat_of_nat_fits) simp
  have lba1: "unat (2 + of_nat i :: u64) = 2 + i" using i ui by (subst unat_add_fits) simp_all
  have lba2: "unat (be + of_nat i) = unat be + i"
    using i ui Cons.prems(5) unat_bound [of "sector_count ops d"]
    by (subst unat_add_fits) (simp_all add: sectors_def)
  obtain d1 where d1: "write_sectors ops (2 + of_nat i) ?e d = (Inr (), d1)" "invar d1"
    "sector_size ops d1 = sector_size ops d" "sector_count ops d1 = sector_count ops d"
    "\<forall>k < sectors ops d. sec d1 k = (if k = 2 + i then ?e else sec d k)"
    using write_sector [OF Cons.prems(1,2), of "2 + of_nat i" ?e] Cons.prems(4,5) i len lba1 by auto
  then have sz1: "sector_bytes ops d1 = 512" "sectors ops d1 = sectors ops d"
    using Cons.prems(2) by (simp_all add: sector_bytes_def sectors_def)
  obtain d2 where d2: "write_sectors ops (be + of_nat i) ?e d1 = (Inr (), d2)" "invar d2"
    "sector_size ops d2 = sector_size ops d" "sector_count ops d2 = sector_count ops d"
    "\<forall>k < sectors ops d. sec d2 k = (if k = unat be + i then ?e else sec d1 k)"
    using write_sector [OF d1(2) sz1(1), of "be + of_nat i" ?e] Cons.prems(4,5) i len lba2 sz1(2) d1(3,4)
    by auto
  then have sz2: "sector_bytes ops d2 = 512" "sectors ops d2 = sectors ops d"
    using Cons.prems(2) by (simp_all add: sector_bytes_def sectors_def)
  obtain d3 where d3: "write_entry_sectors ops esec be js (foldl crc_byte crc ?e) d2
      = (Inr (foldl crc_byte (foldl crc_byte crc ?e) (concat (map (entry_at n guids) js))), d3)" "invar d3"
    "sector_size ops d3 = sector_size ops d" "sector_count ops d3 = sector_count ops d"
    "\<forall>k < sectors ops d. sec d3 k =
        (if 2 \<le> k \<and> k - 2 \<in> set js then entry_at n guids (k - 2)
         else if unat be \<le> k \<and> k - unat be \<in> set js then entry_at n guids (k - unat be)
         else sec d2 k)"
    using Cons.IH [OF d2(2) sz2(1), of "foldl crc_byte crc ?e"] Cons.prems(3-5) sz2(2) d2(3,4) by auto
  have sector: "(if i = 0 then esec else replicate 512 0) = ?e" by (simp add: entry_at_def esec)
  have run: "write_entry_sectors ops esec be (i # js) crc d
      = (Inr (foldl crc_byte crc (concat (map (entry_at n guids) (i # js)))), d3)"
    using d1(1) d2(1) d3(1) by (simp add: sector crc_update_def Let_def)
  have "sec d3 k = (if 2 \<le> k \<and> k - 2 \<in> set (i # js) then entry_at n guids (k - 2)
         else if unat be \<le> k \<and> k - unat be \<in> set (i # js) then entry_at n guids (k - unat be)
         else sec d k)" if "k < sectors ops d" for k
    using that d1(5) d2(5) d3(5) Cons.prems(3,4) by (auto; fastforce)
  with run d3 show ?case by auto
qed

text \<open>The verifier accepts an installed disk.\<close>

lemma verify_installed:
  assumes g: "guids_ok guids" and n: "MIN_DISK_SECTORS \<le> n" and inv: "invar d"
    and sz: "sector_size ops d = 512" "sector_count ops d = n"
    and disk: "installed_disk n guids (sec d)"
  shows "\<exists>d'. verify_guided_installer_gpt ops (disk_layout n (ig_disk guids)) d = (Inr (), d') \<and>
    quiet ops invar sec d d'"
proof -
  let ?l = "disk_layout n (ig_disk guids)"
  have nn: "262144 \<le> unat n" using n by (simp add: installer_consts word_le_nat_alt)
  then have n1: "unat (n - 1) = unat n - 1" "n - 1 \<noteq> 1" by (auto simp: unat_sub word_le_nat_alt)
  have sb: "sector_bytes ops d = 512" "sectors ops d = unat n" using sz by (simp_all add: sector_bytes_def sectors_def)
  note hp = installed_header_parse [OF g n]
  have hl: "length (encode_header 1 (n - 1) n (ig_disk guids) 2 (entries_crc n guids)) = 512"
    using n1(2) by (intro hp(2)) simp
  obtain d1 where r1: "read_buf ops 0 (replicate 512 0) d = (Inr (protective_mbr n), d1)" "quiet ops invar sec d d1"
    using quiet_read [OF _ sb(1), of d 0 "replicate 512 0"] inv nn sb(2) disk
    by (auto simp: quiet_def installed_disk_def)
  obtain c where mbr: "parse_mbr (protective_mbr n) = Inr
      [Some \<lparr>mbr_bootable = False, mbr_type = 0xEE, mbr_first_lba = 1, mbr_sector_count = c\<rparr>, None, None, None]"
    and ml: "length (protective_mbr n) = 512"
    using parse_protective_mbr [of n] nn by auto
  obtain d2 where r2: "read_buf ops 1 (protective_mbr n) d1
      = (Inr (encode_header 1 (n - 1) n (ig_disk guids) 2 (entries_crc n guids)), d2)" "quiet ops invar sec d d2"
    using quiet_read [OF r1(2) sb(1), of 1 "protective_mbr n"] nn sb(2) disk ml by (auto simp: installed_disk_def)
  have cnt: "sector_count ops d2 = n" using r2(2) sz by (simp add: quiet_def same_disk_def)
  have arr: "sec d (2 + i) = entry_at n guids i" if "i < 32" for i using disk that by (simp add: installed_disk_def)
  have crc: "concat (map (\<lambda>i. sec d (unat (2 :: u64) + i)) [0..<32]) = concat (map (entry_at n guids) [0..<32])"
    using arr by (intro arg_cong [where f = concat]) simp
  obtain s d3 where r3: "verify_entry_sectors ops ?l 2 [0..<32] (encode_header 1 (n - 1) n (ig_disk guids) 2 (entries_crc n guids)) crc_new d2
      = (Inr (s, foldl crc_byte crc_new (concat (map (entry_at n guids) [0..<32]))), d3)" "quiet ops invar sec d d3" "length s = 512"
    using verify_loop [OF sb(1) r2(2), of "[0..<32]" 2 ?l
        "encode_header 1 (n - 1) n (ig_disk guids) 2 (entries_crc n guids)" crc_new] nn sb(2) inv arr [of 0]
      verify_first_sector [OF g n] hl unfolding crc by auto
  have fin: "crc_finish (foldl crc_byte crc_new (concat (map (entry_at n guids) [0..<32]))) = entries_crc n guids"
    by (simp add: crc_finish_def crc_new_def entries_crc_def crc32_def)
  obtain d4 where r4: "read_buf ops (n - 1) s d3
      = (Inr (encode_header (n - 1) 1 n (ig_disk guids) (n - 33) (entries_crc n guids)), d4)" "quiet ops invar sec d d4"
    using quiet_read [OF r3(2) sb(1), of "n - 1" s] nn sb(2) disk r3(3) n1 by (auto simp: installed_disk_def)
  show ?thesis
    using r1(1) r2(1) r3(1) r4 hp(1) n1(2)
    by (simp add: verify_guided_installer_gpt_def sz mbr cnt fin installed_header_def installer_consts disk_layout_def)
qed

text \<open>The reader of \<open>partition.rs\<close> finds the three partitions.\<close>

lemma read_installed:
  assumes g: "guids_ok guids" and n: "MIN_DISK_SECTORS \<le> n" and inv: "invar d"
    and sz: "sector_size ops d = 512" "sector_count ops d = n"
    and disk: "installed_disk n guids (sec d)"
  shows "\<exists>d'. read_partition_table ops d =
    (Inr \<lparr>pt_kind = Gpt, pt_disk_guid = Some (ig_disk guids), pt_partitions = installed_partitions n guids\<rparr>, d')"
proof -
  have nn: "262144 \<le> unat n" using n by (simp add: installer_consts word_le_nat_alt)
  then have n1: "unat (n - 1) = unat n - 1" "n - 1 \<noteq> 1" by (auto simp: unat_sub word_le_nat_alt)
  have sb: "sector_bytes ops d = 512" "sectors ops d = unat n" using sz by (simp_all add: sector_bytes_def sectors_def)
  let ?h = "installed_header n guids 1 (n - 1) 2"
  have q: "quiet ops invar sec d d" using inv by (simp add: quiet_def)
  obtain d1 where r1: "read_vec ops 0 512 d = (Inr (protective_mbr n), d1)" "quiet ops invar sec d d1"
    using quiet_read_vec [OF q, of 0 512 1] nn sb disk by (auto simp: good_transfer_def installed_disk_def)
  obtain c where mbr: "parse_mbr (protective_mbr n) = Inr
      [Some \<lparr>mbr_bootable = False, mbr_type = 0xEE, mbr_first_lba = 1, mbr_sector_count = c\<rparr>, None, None, None]"
    using parse_protective_mbr [of n] nn by auto
  obtain d2 where r2: "read_vec ops 1 512 d1
      = (Inr (encode_header 1 (n - 1) n (ig_disk guids) 2 (entries_crc n guids)), d2)" "quiet ops invar sec d d2"
    using quiet_read_vec [OF r1(2), of 1 512 1] nn sb disk by (auto simp: good_transfer_def installed_disk_def)
  have hp: "parse_gpt_header (encode_header 1 (n - 1) n (ig_disk guids) 2 (entries_crc n guids)) = Inr ?h"
    using n1(2) by (intro installed_header_parse [OF g n]) simp
  have cnt: "sector_count ops d2 = n" using r2(2) sz by (simp add: quiet_def same_disk_def)
  have geo: "gpt_geometry ?h 512 n = Inr (16384, 32)"
    using nn by (simp add: gpt_geometry_def installed_header_def word_le_nat_alt word_less_nat_alt unat_sub
        checked_mul_def checked_add_def not_less not_le)
  have arr: "sector_range (sec d) (unat (2 :: u64)) 32 = concat (map (entry_at n guids) [0..<32])"
  proof -
    have "sector_range (sec d) 2 32 = concat (map (\<lambda>i. sec d (2 + i)) [0..<32])" by (rule sector_range_from)
    also have "\<dots> = concat (map (entry_at n guids) [0..<32])"
      using disk by (intro arg_cong [where f = concat]) (simp add: installed_disk_def)
    finally show ?thesis by simp
  qed
  obtain d3 where r3: "read_vec ops 2 16384 d2 = (Inr (concat (map (entry_at n guids) [0..<32])), d3)"
    using quiet_read_vec [OF r2(2), of 2 16384 32] nn sb unfolding arr by (auto simp: good_transfer_def)
  have len: "length (concat (map (entry_at n guids) [0..<32])) = 16384"
    unfolding entry_array [OF g] using entry_sector_bytes(2) [OF g] by simp
  have rows: "map_res (gpt_entry ?h 128 (concat (map (entry_at n guids) [0..<32]))) [0..<128]
      = Inr (map Some (installed_partitions n guids) @ replicate 125 None)"
    by (rule installed_rows [OF g n]) (simp_all add: installed_header_def)
  have flat: "flatten (map Some (installed_partitions n guids)) = installed_partitions n guids"
    by (induction "installed_partitions n guids") (simp_all add: installed_partitions_def Let_def)
  have sel: "gh_entries_lba ?h = 2" "gh_entry_size ?h = 128" "gh_entry_count ?h = 128"
    "gh_entries_crc32 ?h = crc32 (concat (map (entry_at n guids) [0..<32]))" "gh_disk_guid ?h = ig_disk guids"
    by (simp_all add: installed_header_def entries_crc_def)
  have "read_gpt ops 512 d1 =
    (Inr \<lparr>pt_kind = Gpt, pt_disk_guid = Some (ig_disk guids), pt_partitions = installed_partitions n guids\<rparr>, d3)"
    using r2(1) hp r3
    by (simp add: read_gpt_def cnt geo checked_mul_def sel len rows flat
        installed_no_overlap [OF n] Let_def)
  then show ?thesis
    using r1(1) by (simp add: read_partition_table_def sz mbr Let_def)
qed

text \<open>The writer produces an installed disk and leaves everything between the two copies alone.\<close>

lemma write_installed:
  assumes g: "guids_ok guids" and n: "MIN_DISK_SECTORS \<le> n" and inv: "invar d"
    and sz: "sector_size ops d = 512" "sector_count ops d = n"
  shows "\<exists>d'. write_guided_installer_gpt ops guids d = (Inr (disk_layout n (ig_disk guids)), d') \<and> invar d' \<and>
    sector_size ops d' = 512 \<and> sector_count ops d' = n \<and> installed_disk n guids (sec d') \<and>
    (\<forall>k. 34 \<le> k \<and> k < unat n - 33 \<longrightarrow> sec d' k = sec d k)"
proof -
  let ?l = "disk_layout n (ig_disk guids)"
  let ?h1 = "encode_header 1 (n - 1) n (ig_disk guids) 2 (entries_crc n guids)"
  let ?h2 = "encode_header (n - 1) 1 n (ig_disk guids) (n - 33) (entries_crc n guids)"
  have nn: "262144 \<le> unat n" using n by (simp add: installer_consts word_le_nat_alt)
  then have n1: "unat (n - 1) = unat n - 1" "n - 1 \<noteq> 1" "unat (n - 33) = unat n - 33"
    by (auto simp: unat_sub word_le_nat_alt)
  have sb: "sector_bytes ops d = 512" "sectors ops d = unat n" using sz by (simp_all add: sector_bytes_def sectors_def)
  have hl: "length ?h1 = 512" "length ?h2 = 512"
    using n1(2) by (auto intro!: installed_header_parse(2) [OF g n])
  have ml: "length (protective_mbr n) = 512" using parse_protective_mbr(1) [of n] nn by simp
  have pre: "34 \<le> unat (n - 33)" "unat (n - 33) + 32 \<le> sectors ops d" using nn n1(3) sb(2) by simp_all
  obtain d1 where w1: "write_entry_sectors ops (entry_sector guids ?l) (n - 33) [0..<32] crc_new d
        = (Inr (foldl crc_byte crc_new (concat (map (entry_at n guids) [0..<32]))), d1)" "invar d1"
      "sector_size ops d1 = 512" "sector_count ops d1 = n"
      "\<forall>k < unat n. sec d1 k =
        (if 2 \<le> k \<and> k - 2 \<in> set [0..<32] then entry_at n guids (k - 2)
         else if unat n - 33 \<le> k \<and> k - (unat n - 33) \<in> set [0..<32] then entry_at n guids (k - (unat n - 33))
         else sec d k)"
    using write_loop [OF g refl inv sb(1) _ pre, of "[0..<32]" n crc_new] unfolding n1(3) sb(2) sz
    by auto
  have step: "\<exists>e'. write_sectors ops lba data e = (Inr (), e') \<and> invar e' \<and> sector_size ops e' = 512 \<and>
      sector_count ops e' = n \<and> (\<forall>k < unat n. sec e' k = (if k = unat lba then data else sec e k))"
    if "invar e" "sector_size ops e = 512" "sector_count ops e = n" "unat lba < unat n" "length data = 512" for e lba data
    using write_sector [OF that(1), of lba data] that by (simp add: sector_bytes_def sectors_def)
  obtain d2 where w2: "write_sectors ops 0 (protective_mbr n) d1 = (Inr (), d2)" "invar d2"
      "sector_size ops d2 = 512" "sector_count ops d2 = n"
      "\<forall>k < unat n. sec d2 k = (if k = 0 then protective_mbr n else sec d1 k)"
    using step [OF w1(2-4), of 0 "protective_mbr n"] nn ml by auto
  obtain d3 where w3: "write_sectors ops 1 ?h1 d2 = (Inr (), d3)" "invar d3"
      "sector_size ops d3 = 512" "sector_count ops d3 = n"
      "\<forall>k < unat n. sec d3 k = (if k = 1 then ?h1 else sec d2 k)"
    using step [OF w2(2-4), of 1 ?h1] nn hl by auto
  obtain d4 where w4: "write_sectors ops (n - 1) ?h2 d3 = (Inr (), d4)" "invar d4"
      "sector_size ops d4 = 512" "sector_count ops d4 = n"
      "\<forall>k < unat n. sec d4 k = (if k = unat n - 1 then ?h2 else sec d3 k)"
    using step [OF w3(2-4), of "n - 1" ?h2] nn hl n1(1) by auto
  obtain d5 where w5: "flush_device ops d4 = (Inr (), d5)" "invar d5" "sector_size ops d5 = 512"
      "sector_count ops d5 = n" "\<forall>k < unat n. sec d5 k = sec d4 k"
    using flush_ok [OF w4(2)] w4(3,4) by (auto simp: same_disk_def sectors_def)
  have at: "sec d5 k = (if k = unat n - 1 then ?h2 else if k = 1 then ?h1 else if k = 0 then protective_mbr n
      else sec d1 k)" if "k < unat n" for k
    using that w2(5) w3(5) w4(5) w5(5) by simp
  have disk: "installed_disk n guids (sec d5)"
    unfolding installed_disk_def using nn at w1(5) by auto
  obtain d6 where v: "verify_guided_installer_gpt ops ?l d5 = (Inr (), d6)" "quiet ops invar sec d5 d6"
    using verify_installed [OF g n w5(2-4) disk] by auto
  have fin: "crc_finish (foldl crc_byte crc_new (concat (map (entry_at n guids) [0..<32]))) = entries_crc n guids"
    by (simp add: crc_finish_def crc_new_def entries_crc_def crc32_def)
  have gz: "\<not> (guid_is_zero (ig_disk guids) \<or> guid_is_zero (ig_bios guids) \<or> guid_is_zero (ig_esp guids) \<or>
      guid_is_zero (ig_root guids))" using g by (simp add: guids_ok_def)
  have run: "write_guided_installer_gpt ops guids d = (Inr ?l, d6)"
    using gz w1(1) w2(1) w3(1) w4(1) w5(1) v(1)
    by (simp add: write_guided_installer_gpt_def sz guided_layout [OF n] fin Let_def installer_consts disk_layout_def)
  have same: "\<forall>k < unat n. sec d6 k = sec d5 k" "invar d6" "sector_size ops d6 = 512" "sector_count ops d6 = n"
    using v(2) w5(3,4) by (auto simp: quiet_def same_disk_def sectors_def)
  then have "installed_disk n guids (sec d6)" using disk nn by (auto simp: installed_disk_def)
  moreover have "\<forall>k. 34 \<le> k \<and> k < unat n - 33 \<longrightarrow> sec d6 k = sec d k"
    using same(1) at w1(5) nn by auto
  ultimately show ?thesis using run same by auto
qed

end

section \<open>The properties\<close>

text \<open>C33. Layout: disks below 128 MiB are refused with \<open>NoSpace\<close>; every other disk, of whatever
  size, gets three partitions that start on a 1 MiB boundary behind the primary table, follow one
  another without overlap, and end exactly at the last sector before the backup table.\<close>

theorem installer_layout_bounds:
  "case guided_installer_layout n guid of
     Inl e \<Rightarrow> e = S_NoSpace \<and> unat n < 262144
   | Inr l \<Rightarrow> 262144 \<le> unat n \<and> il_disk_guid l = guid \<and>
       (\<forall>s \<in> {il_bios l, il_esp l, il_root l}. 0 < unat (span_count s) \<and> unat (span_first s) mod 2048 = 0) \<and>
       34 \<le> unat (span_first (il_bios l)) \<and>
       unat (span_first (il_bios l)) + unat (span_count (il_bios l)) \<le> unat (span_first (il_esp l)) \<and>
       unat (span_first (il_esp l)) + unat (span_count (il_esp l)) \<le> unat (span_first (il_root l)) \<and>
       unat (span_first (il_root l)) + unat (span_count (il_root l)) = unat n - 33"
proof (cases "MIN_DISK_SECTORS \<le> n")
  case True
  then have n: "262144 \<le> unat n" by (simp add: installer_consts word_le_nat_alt)
  then have "unat (n - 135201) = unat n - 135201" by (simp add: unat_sub word_le_nat_alt)
  with n show ?thesis by (simp add: guided_layout [OF True] disk_layout_def)
next
  case False
  then show ?thesis by (simp add: guided_installer_layout_def installer_consts word_less_nat_alt word_le_nat_alt)
qed

theorem installer_layout_bounds_witness:
  "case guided_installer_layout 262144 [] of
     Inl e \<Rightarrow> False
   | Inr l \<Rightarrow> unat (span_first (il_root l)) + unat (span_count (il_root l)) = 262111"
  using installer_layout_bounds [of 262144 "[]"] by (auto split: sum.splits)

text \<open>C6. Installing and reading back: on every fault-free device with 512-byte sectors and at least
  128 MiB, with four non-zero identifiers, \<open>write_guided_installer_gpt\<close> succeeds (the verification
  it ends with included), changes nothing between the two copies of the table, and
  \<open>read_partition_table\<close> then returns a GPT with the disk's identifier and exactly the three
  partitions of the layout, with their types, identifiers, extents and names.\<close>

theorem guided_install_read_back:
  assumes "reliable_device ops invar sec" and "invar d" and "sector_size ops d = 512"
    and "MIN_DISK_SECTORS \<le> sector_count ops d"
    and "\<forall>g \<in> {ig_disk guids, ig_bios guids, ig_esp guids, ig_root guids}. length g = 16 \<and> \<not> guid_is_zero g"
  shows "\<exists>l d' t d''. write_guided_installer_gpt ops guids d = (Inr l, d') \<and>
    guided_installer_layout (sector_count ops d) (ig_disk guids) = Inr l \<and>
    (\<forall>k. 34 \<le> k \<and> k < sectors ops d - 33 \<longrightarrow> sec d' k = sec d k) \<and>
    read_partition_table ops d' = (Inr t, d'') \<and>
    pt_kind t = Gpt \<and> pt_disk_guid t = Some (ig_disk guids) \<and>
    map (\<lambda>p. (part_type_guid p, part_unique_guid p)) (pt_partitions t) =
      [(Some BIOS_BOOT_TYPE_GUID, Some (ig_bios guids)), (Some ESP_TYPE_GUID, Some (ig_esp guids)),
       (Some NEXFS_TYPE_GUID, Some (ig_root guids))] \<and>
    map (\<lambda>p. \<lparr>span_first = part_first_lba p, span_count = part_sector_count p\<rparr>) (pt_partitions t) =
      [il_bios l, il_esp l, il_root l] \<and>
    map part_name (pt_partitions t) =
      map (map of_char) [''NexOS BIOS'', ''NexOS boot'', ''NexOS root'']"
proof -
  let ?n = "sector_count ops d"
  have g: "guids_ok guids" using assms(5) by (simp add: guids_ok_def)
  obtain d' where w: "write_guided_installer_gpt ops guids d = (Inr (disk_layout ?n (ig_disk guids)), d')"
    "invar d'" "sector_size ops d' = 512" "sector_count ops d' = ?n" "installed_disk ?n guids (sec d')"
    "\<forall>k. 34 \<le> k \<and> k < unat ?n - 33 \<longrightarrow> sec d' k = sec d k"
    using reliable_device.write_installed [OF assms(1) g assms(4,2,3) refl] by blast
  obtain d'' where r: "read_partition_table ops d' =
    (Inr \<lparr>pt_kind = Gpt, pt_disk_guid = Some (ig_disk guids), pt_partitions = installed_partitions ?n guids\<rparr>, d'')"
    using reliable_device.read_installed [OF assms(1) g assms(4) w(2-5)] by blast
  show ?thesis
    by (intro exI conjI, rule w(1), rule guided_layout [OF assms(4)], use w(6) in \<open>simp add: sectors_def\<close>, rule r)
       (simp_all add: installed_partitions_def installed_partition_def disk_layout_def Let_def)
qed

definition demo_guids :: installer_guids where
  "demo_guids = \<lparr>ig_disk = replicate 16 1, ig_bios = replicate 16 2, ig_esp = replicate 16 3,
    ig_root = replicate 16 4\<rparr>"

theorem guided_install_read_back_witness:
  "\<exists>l d' t d''. write_guided_installer_gpt memory_ops demo_guids
      \<lparr>md_bytes = replicate 134217728 0, md_sector_size = 512, md_read_only = False\<rparr> = (Inr l, d') \<and>
    read_partition_table memory_ops d' = (Inr t, d'') \<and>
    map part_name (pt_partitions t) = map (map of_char) [''NexOS BIOS'', ''NexOS boot'', ''NexOS root'']"
proof -
  let ?d = "\<lparr>md_bytes = replicate 134217728 (0 :: u8), md_sector_size = 512, md_read_only = False\<rparr>"
  have dev: "reliable_device memory_ops memory_inv memory_sec" by (rule mem.reliable_device_axioms)
  have inv: "memory_inv ?d" by (simp add: memory_inv_def)
  have ss: "sector_size memory_ops ?d = 512" by (simp add: memory_ops_def)
  have n: "MIN_DISK_SECTORS \<le> sector_count memory_ops ?d" by (simp add: memory_ops_def installer_consts)
  have g: "\<forall>g \<in> {ig_disk demo_guids, ig_bios demo_guids, ig_esp demo_guids, ig_root demo_guids}.
      length g = 16 \<and> \<not> guid_is_zero g"
    by (auto simp: demo_guids_def hd_nonzero)
  show ?thesis using guided_install_read_back [OF dev inv ss n g] by blast
qed

end
