(* ===== verification/Vfs.thy ===== *)
theory Vfs
  imports Abi Bytes "HOL-Library.Sublist"
begin

text \<open>
  \<open>crates/nexos-runtime/src/vfs.rs\<close>: path normalisation into a fixed buffer, the mount table
  and path lookup. The specification works on lists of path components: \<open>normalize\<close> implements
  the resolution of \<open>.\<close> and \<open>..\<close> on such lists with the limits on names, depth and length, and
  \<open>lookup\<close> selects the mount with the longest component prefix and walks the rest.
\<close>

section \<open>Paths\<close>

definition PATH_CAPACITY :: nat where "PATH_CAPACITY = 256"
definition NAME_CAPACITY :: nat where "NAME_CAPACITY = 64"

abbreviation slash :: u8 where "slash \<equiv> 0x2F"
abbreviation dot :: u8 where "dot \<equiv> 0x2E"

record path =
  path_bytes :: bytes
  path_length :: u16

definition path_root :: path where
  "path_root = \<lparr>path_bytes = (replicate PATH_CAPACITY 0)[0 := slash], path_length = 1\<rparr>"

definition as_bytes :: "path \<Rightarrow> bytes" where
  "as_bytes p = take (unat (path_length p)) (path_bytes p)"

definition is_root :: "path \<Rightarrow> bool" where
  "is_root p \<longleftrightarrow> as_bytes p = [slash]"

definition push_byte :: "u8 \<Rightarrow> path \<Rightarrow> error + path" where
  "push_byte b p =
    (let i = unat (path_length p) in
     if i = PATH_CAPACITY then Inl E_NameTooLong
     else Inr (p\<lparr>path_bytes := (path_bytes p)[i := b], path_length := path_length p + 1\<rparr>))"

fun push_bytes :: "bytes \<Rightarrow> path \<Rightarrow> error + path" where
  "push_bytes [] p = Inr p"
| "push_bytes (b # bs) p = bind_res (push_byte b p) (push_bytes bs)"

text \<open>
  The loop state of \<open>append_components\<close>: the path built so far, \<open>component_starts\<close> and
  \<open>component_count\<close>.
\<close>

type_synonym build = "path \<times> u16 list \<times> nat"

fun append_component :: "bytes \<Rightarrow> build \<Rightarrow> error + build" where
  "append_component component (out, starts, count) =
    (if component = [] \<or> component = [dot] then Inr (out, starts, count)
     else if component = [dot, dot] then
       if count \<noteq> 0 then
         let count' = count - 1; out' = out\<lparr>path_length := starts ! count'\<rparr> in
         if path_length out' = 0 then bind_res (push_byte slash out') (\<lambda>o'. Inr (o', starts, count'))
         else Inr (out', starts, count')
       else Inr (out, starts, count)
     else if NAME_CAPACITY < length component \<or> 0 \<in> set component then Inl E_NameTooLong
     else if count = length starts then Inl E_NameTooLong
     else
       let component_start = path_length out in
       bind_res (if \<not> is_root out then push_byte slash out else Inr out) (\<lambda>o1.
       bind_res (push_bytes component o1) (\<lambda>o2. Inr (o2, starts[count := component_start], Suc count))))"

definition append_components :: "bytes \<Rightarrow> build \<Rightarrow> error + build" where
  "append_components input st = fold_res append_component (split_on slash input) st"

definition strip_slash :: "bytes \<Rightarrow> bytes option" where
  "strip_slash p = (case p of [] \<Rightarrow> None | b # bs \<Rightarrow> if b = slash then Some bs else None)"

definition starts_slash :: "bytes \<Rightarrow> bool" where
  "starts_slash p \<longleftrightarrow> p \<noteq> [] \<and> hd p = slash"

definition normalize :: "bytes \<Rightarrow> bytes \<Rightarrow> error + path" where
  "normalize p current_directory =
    bind_res (push_byte slash \<lparr>path_bytes = replicate PATH_CAPACITY 0, path_length = 0\<rparr>) (\<lambda>out.
    bind_res
      (if \<not> starts_slash p then
         if \<not> starts_slash current_directory then Inl E_InvalidArgument
         else append_components (tl current_directory) (out, replicate 64 0, 0)
       else Inr (out, replicate 64 0, 0)) (\<lambda>st.
    bind_res (append_components (case strip_slash p of None \<Rightarrow> p | Some r \<Rightarrow> r) st) (\<lambda>(out, _, _).
    Inr out)))"

section \<open>Mounts\<close>

datatype node_kind = RegularFile | Directory | BlockDevice | CharacterDevice

record node_metadata =
  nm_id :: u64
  nm_kind :: node_kind
  nm_size :: u64
  nm_permissions :: u16

text \<open>The methods of \<open>dyn FileSystem\<close> that the mount table calls.\<close>

record 'f filesystem_ops =
  fs_root :: "'f \<Rightarrow> node_metadata"
  fs_lookup :: "'f \<Rightarrow> u64 \<Rightarrow> bytes \<Rightarrow> error + node_metadata"

record 'f mount =
  mnt_path :: path
  mnt_filesystem :: 'f

type_synonym 'f vfs = "'f mount option list"

definition vfs_new :: "nat \<Rightarrow> 'f vfs" where
  "vfs_new mounts = replicate mounts None"

definition vfs_mount :: "bytes \<Rightarrow> 'f \<Rightarrow> 'f vfs \<Rightarrow> (error + unit) \<times> 'f vfs" where
  "vfs_mount p fs v =
    (case normalize p [slash] of
       Inl e \<Rightarrow> (Inl e, v)
     | Inr np \<Rightarrow>
         if \<exists>m \<in> set (flatten v). mnt_path m = np then (Inl E_AlreadyExists, v)
         else case position (\<lambda>m. m = None) v of
           None \<Rightarrow> (Inl E_MountLimit, v)
         | Some i \<Rightarrow> (Inr (), v[i := Some \<lparr>mnt_path = np, mnt_filesystem = fs\<rparr>]))"

definition vfs_unmount :: "bytes \<Rightarrow> 'f vfs \<Rightarrow> (error + unit) \<times> 'f vfs" where
  "vfs_unmount p v =
    (case normalize p [slash] of
       Inl e \<Rightarrow> (Inl e, v)
     | Inr np \<Rightarrow>
         case position (is_some_and (\<lambda>m. mnt_path m = np)) v of
           None \<Rightarrow> (Inl E_NotFound, v)
         | Some i \<Rightarrow> (Inr (), v[i := None]))"

definition mount_count :: "'f vfs \<Rightarrow> nat" where
  "mount_count v = length (flatten v)"

definition path_has_prefix :: "bytes \<Rightarrow> bytes \<Rightarrow> bool" where
  "path_has_prefix p pre \<longleftrightarrow>
    pre = [slash] \<or> p = pre \<or>
    (length pre < length p \<and> take (length pre) p = pre \<and> p ! length pre = slash)"

definition relative_path :: "bytes \<Rightarrow> bytes \<Rightarrow> bytes" where
  "relative_path p mnt =
    (if mnt = [slash] then (case strip_slash p of None \<Rightarrow> p | Some r \<Rightarrow> r)
     else case strip_slash (if length mnt \<le> length p then drop (length mnt) p else []) of
            None \<Rightarrow> [] | Some r \<Rightarrow> r)"

text \<open>\<open>max_by_key\<close> returns the last of several maxima.\<close>

fun max_by_key :: "('a \<Rightarrow> nat) \<Rightarrow> 'a list \<Rightarrow> 'a option" where
  "max_by_key key [] = None"
| "max_by_key key (x # xs) =
    (case max_by_key key xs of
       None \<Rightarrow> Some x
     | Some y \<Rightarrow> if key x \<le> key y then Some y else Some x)"

definition select_mount :: "'f vfs \<Rightarrow> path \<Rightarrow> 'f mount option" where
  "select_mount v p =
    max_by_key (\<lambda>m. length (as_bytes (mnt_path m)))
      (filter (\<lambda>m. path_has_prefix (as_bytes p) (as_bytes (mnt_path m))) (flatten v))"

fun walk :: "'f filesystem_ops \<Rightarrow> 'f \<Rightarrow> bytes list \<Rightarrow> node_metadata \<Rightarrow> error + node_metadata" where
  "walk ops fs [] node = Inr node"
| "walk ops fs (component # components) node =
    (if component \<noteq> [] then
       if nm_kind node \<noteq> Directory then Inl E_NotDirectory
       else bind_res (fs_lookup ops fs (nm_id node) component) (walk ops fs components)
     else walk ops fs components node)"

definition vfs_lookup ::
  "'f filesystem_ops \<Rightarrow> 'f vfs \<Rightarrow> bytes \<Rightarrow> bytes \<Rightarrow> error + 'f \<times> node_metadata" where
  "vfs_lookup ops v p current_directory =
    bind_res (normalize p current_directory) (\<lambda>np.
    bind_res (ok_or E_NotFound (select_mount v np)) (\<lambda>m.
    bind_res (walk ops (mnt_filesystem m) (split_on slash (relative_path (as_bytes np) (as_bytes (mnt_path m))))
                (fs_root ops (mnt_filesystem m))) (\<lambda>node.
    Inr (mnt_filesystem m, node))))"

section \<open>Specification on components\<close>

definition joined :: "bytes list \<Rightarrow> bytes" where
  "joined cs = concat (map (\<lambda>c. slash # c) cs)"

definition render :: "bytes list \<Rightarrow> bytes" where
  "render cs = (if cs = [] then [slash] else joined cs)"

definition resolve_component :: "bytes \<Rightarrow> bytes list \<Rightarrow> error + bytes list" where
  "resolve_component c stack =
    (if c = [] \<or> c = [dot] then Inr stack
     else if c = [dot, dot] then Inr (butlast stack)
     else if 64 < length c \<or> 0 \<in> set c \<or> 64 \<le> length stack \<or> 256 < length (render (stack @ [c]))
     then Inl E_NameTooLong
     else Inr (stack @ [c]))"

definition resolve :: "bytes \<Rightarrow> bytes \<Rightarrow> error + bytes list" where
  "resolve p current_directory =
    bind_res
      (if starts_slash p then Inr []
       else if starts_slash current_directory then
         fold_res resolve_component (split_on slash current_directory) []
       else Inl E_InvalidArgument)
      (fold_res resolve_component (split_on slash p))"

section \<open>Normalisation implements the specification\<close>

definition path_ok :: "path \<Rightarrow> bool" where
  "path_ok p \<longleftrightarrow> length (path_bytes p) = 256 \<and> unat (path_length p) \<le> 256"

lemma length_as_bytes: "path_ok p \<Longrightarrow> length (as_bytes p) = unat (path_length p)"
  by (simp add: path_ok_def as_bytes_def)

lemma push_byte_cases:
  assumes "path_ok p"
  shows "if length (as_bytes p) = 256 then push_byte b p = Inl E_NameTooLong
    else \<exists>p'. push_byte b p = Inr p' \<and> path_ok p' \<and> as_bytes p' = as_bytes p @ [b]"
proof (cases "unat (path_length p) = 256")
  case True
  then show ?thesis using assms by (simp add: length_as_bytes push_byte_def PATH_CAPACITY_def)
next
  case False
  with assms have len: "unat (path_length p) < 256" by (simp add: path_ok_def)
  then have "unat (path_length p + 1) = unat (path_length p) + 1" by (subst unat_add_fits) simp_all
  with len assms show ?thesis
    by (simp add: length_as_bytes push_byte_def PATH_CAPACITY_def path_ok_def as_bytes_def take_Suc_conv_app_nth)
qed

lemma push_bytes_cases:
  "path_ok p \<Longrightarrow>
    if 256 < length (as_bytes p) + length bs then push_bytes bs p = Inl E_NameTooLong
    else \<exists>p'. push_bytes bs p = Inr p' \<and> path_ok p' \<and> as_bytes p' = as_bytes p @ bs"
proof (induction bs arbitrary: p)
  case Nil
  then show ?case by (simp add: length_as_bytes path_ok_def)
next
  case (Cons b bs)
  show ?case
  proof (cases "length (as_bytes p) = 256")
    case True
    with push_byte_cases [OF Cons.prems, of b] show ?thesis by simp
  next
    case False
    with push_byte_cases [OF Cons.prems, of b] obtain p'
      where "push_byte b p = Inr p'" "path_ok p'" "as_bytes p' = as_bytes p @ [b]" by auto
    with Cons.IH [of p'] show ?thesis by (auto split: if_splits)
  qed
qed

lemma render_snoc: "render (cs @ [c]) = (if cs = [] then [] else render cs) @ slash # c"
  by (simp add: render_def joined_def)

lemma render_length: "\<forall>c \<in> set cs. c \<noteq> [] \<Longrightarrow> render cs = [slash] \<longleftrightarrow> cs = []"
  by (cases cs) (auto simp: render_def joined_def)

text \<open>The loop state of \<open>append_components\<close> against the stack of components.\<close>

definition builds :: "build \<Rightarrow> bytes list \<Rightarrow> bool" where
  "builds st stack \<longleftrightarrow> (case st of (out, starts, count) \<Rightarrow>
     path_ok out \<and> as_bytes out = render stack \<and> count = length stack \<and> length stack \<le> 64 \<and>
     length starts = 64 \<and> (\<forall>c \<in> set stack. c \<noteq> []) \<and>
     (\<forall>i < count. unat (starts ! i) = length (render (take i stack))))"

lemma builds_step:
  assumes "builds st stack"
  shows "case append_component c st of Inl e \<Rightarrow> resolve_component c stack = Inl e
    | Inr st' \<Rightarrow> \<exists>stack'. resolve_component c stack = Inr stack' \<and> builds st' stack'"
proof -
  obtain out starts count where st: "st = (out, starts, count)" by (cases st)
  have b: "path_ok out" "as_bytes out = render stack" "count = length stack" "length stack \<le> 64"
    "length starts = 64" "\<forall>c \<in> set stack. c \<noteq> []"
    "\<forall>i < count. unat (starts ! i) = length (render (take i stack))"
    using assms by (simp_all add: builds_def st)
  have root: "is_root out \<longleftrightarrow> stack = []" using render_length [OF b(6)] b(2) by (simp add: is_root_def)
  consider "c = [] \<or> c = [dot]" | "c = [dot, dot]" "stack = []" | "c = [dot, dot]" "stack \<noteq> []"
    | "c \<noteq> []" "c \<noteq> [dot]" "c \<noteq> [dot, dot]" "64 < length c \<or> 0 \<in> set c \<or> 64 \<le> length stack"
    | "c \<noteq> []" "c \<noteq> [dot]" "c \<noteq> [dot, dot]" "length c \<le> 64" "0 \<notin> set c" "length stack < 64"
    by fastforce
  then show ?thesis
  proof cases
    case 1
    then show ?thesis using assms by (auto simp: st resolve_component_def)
  next
    case 2
    then show ?thesis using assms b(3) by (simp add: st resolve_component_def)
  next
    case 3
    then obtain cs d where stack: "stack = cs @ [d]" by (metis rev_exhaust)
    let ?out = "out\<lparr>path_length := starts ! length cs\<rparr>"
    have start: "unat (starts ! length cs) = length (render cs)" using b(3,7) stack by simp
    have "take (length (render cs)) (render stack) = render cs"
      unfolding stack render_snoc by (auto simp: render_def)
    moreover have "length (render cs) \<le> length (render stack)" unfolding stack render_snoc by (simp add: render_def)
    ultimately have new: "as_bytes ?out = render cs" "path_ok ?out"
      using b(1,2) start length_as_bytes [OF b(1)]
      by (auto simp: as_bytes_def path_ok_def) (metis min.absorb1 take_take)
    have "0 < length (render cs)" by (cases cs) (simp_all add: render_def joined_def)
    then have "starts ! length cs \<noteq> 0" using start by auto
    then show ?thesis using 3 new b stack
      by (simp add: st resolve_component_def builds_def Let_def nth_append)
  next
    case 4
    then show ?thesis using b(3-5) by (auto simp: st resolve_component_def NAME_CAPACITY_def)
  next
    case 5
    let ?pre = "if \<not> is_root out then push_byte slash out else Inr out"
    have unfold: "append_component c st = bind_res ?pre (\<lambda>o1. bind_res (push_bytes c o1)
        (\<lambda>o2. Inr (o2, starts[count := path_length out], Suc count)))"
      using 5 b(3,5) by (simp add: st NAME_CAPACITY_def Let_def)
    have len: "length (render (stack @ [c])) = (if stack = [] then 0 else length (as_bytes out)) + 1 + length c"
      unfolding render_snoc using b(2) by simp
    have res: "resolve_component c stack = (if 256 < length (render (stack @ [c])) then Inl E_NameTooLong
        else Inr (stack @ [c]))" using 5 by (simp add: resolve_component_def)
    show ?thesis
    proof (cases "stack \<noteq> [] \<and> length (as_bytes out) = 256")
      case True
      then have "?pre = Inl E_NameTooLong" using push_byte_cases [OF b(1), of slash] root by simp
      with True len show ?thesis by (simp add: unfold res)
    next
      case False
      have "\<exists>o1. ?pre = Inr o1 \<and> path_ok o1 \<and> as_bytes o1 = (if stack = [] then [] else render stack) @ [slash]"
        using False push_byte_cases [OF b(1), of slash] root b(1,2) by (auto simp: render_def)
      then obtain o1 where o1: "?pre = Inr o1" "path_ok o1"
        "as_bytes o1 = (if stack = [] then [] else render stack) @ [slash]" by blast
      have all: "as_bytes o1 @ c = render (stack @ [c])" using o1(3) by (simp add: render_snoc)
      then have "length (as_bytes o1) + length c = length (render (stack @ [c]))"
        by (metis length_append)
      with push_bytes_cases [OF o1(2), of c] have push:
        "if 256 < length (render (stack @ [c])) then push_bytes c o1 = Inl E_NameTooLong
         else \<exists>o2. push_bytes c o1 = Inr o2 \<and> path_ok o2 \<and> as_bytes o2 = render (stack @ [c])"
        by (simp only: all)
      show ?thesis
      proof (cases "256 < length (render (stack @ [c]))")
        case True
        then show ?thesis using push by (simp add: unfold o1(1) res)
      next
        case small: False
        then obtain o2 where o2: "push_bytes c o1 = Inr o2" "path_ok o2" "as_bytes o2 = render (stack @ [c])"
          using push by auto
        have "builds (o2, starts[count := path_length out], Suc count) (stack @ [c])"
          using o2(2,3) b 5 length_as_bytes [OF b(1)]
          by (auto simp: builds_def nth_list_update less_Suc_eq)
        then show ?thesis using small by (simp add: unfold o1(1) o2(1) res)
      qed
    qed
  qed
qed

lemma split_on_nonempty [simp]: "split_on c xs \<noteq> []"
  by (induction xs) auto

lemma normalize_cases:
  "case normalize p cwd of Inl e \<Rightarrow> resolve p cwd = Inl e
   | Inr np \<Rightarrow> \<exists>stack. resolve p cwd = Inr stack \<and> path_ok np \<and> as_bytes np = render stack"
proof -
  define out where "out = \<lparr>path_bytes = (replicate 256 0)[0 := slash], path_length = 1\<rparr>"
  have push: "push_byte slash \<lparr>path_bytes = replicate PATH_CAPACITY 0, path_length = 0\<rparr> = Inr out"
    by (simp add: push_byte_def PATH_CAPACITY_def out_def)
  have start: "builds (out, replicate 64 0, 0) []"
    by (simp add: builds_def path_ok_def as_bytes_def out_def render_def)
       (simp add: numeral_eq_Suc)
  have app: "case append_components (tl q) st of Inl e \<Rightarrow> fold_res resolve_component (split_on slash q) stack = Inl e
     | Inr st' \<Rightarrow> \<exists>stack'. fold_res resolve_component (split_on slash q) stack = Inr stack' \<and> builds st' stack'"
    if b: "builds st stack" and q: "starts_slash q" for q st stack
  proof -
    obtain r where r: "q = slash # r" using q by (cases q) (auto simp: starts_slash_def)
    then have "fold_res resolve_component (split_on slash q) stack = fold_res resolve_component (split_on slash r) stack"
      by (simp add: resolve_component_def)
    with r show ?thesis
      using fold_res_refines [where R = builds and f = append_component and g = resolve_component and xs = "split_on slash r", OF builds_step b]
      by (simp only: append_components_def list.sel)
  qed
  define base where "base = (if starts_slash p then Inr []
       else if starts_slash cwd then fold_res resolve_component (split_on slash cwd) []
       else Inl E_InvalidArgument)"
  let ?first = "if \<not> starts_slash p then
         if \<not> starts_slash cwd then Inl E_InvalidArgument
         else append_components (tl cwd) (out, replicate 64 0, 0)
       else Inr (out, replicate 64 0, 0)"
  have first: "case ?first of Inl e \<Rightarrow> base = Inl e | Inr st \<Rightarrow> \<exists>stack. base = Inr stack \<and> builds st stack"
    using start app [OF start, of cwd] unfolding base_def by simp
  have norm: "normalize p cwd = bind_res ?first (\<lambda>st. bind_res (append_components
      (case strip_slash p of None \<Rightarrow> p | Some r \<Rightarrow> r) st) (\<lambda>(out, _, _). Inr out))"
    by (simp add: normalize_def push)
  have res: "resolve p cwd = bind_res base (fold_res resolve_component (split_on slash p))"
    by (simp add: resolve_def base_def)
  show ?thesis
  proof (cases ?first)
    case (Inl e)
    then show ?thesis using first unfolding norm res by simp
  next
    case (Inr st)
    then obtain stack where st: "base = Inr stack" "builds st stack" using first by auto
    have "case append_components (case strip_slash p of None \<Rightarrow> p | Some r \<Rightarrow> r) st of
        Inl e \<Rightarrow> fold_res resolve_component (split_on slash p) stack = Inl e
      | Inr st' \<Rightarrow> \<exists>stack'. fold_res resolve_component (split_on slash p) stack = Inr stack' \<and> builds st' stack'"
    proof (cases "starts_slash p")
      case True
      then show ?thesis using app [OF st(2) True] by (cases p) (auto simp: starts_slash_def strip_slash_def)
    next
      case False
      then have "strip_slash p = None" by (auto simp: starts_slash_def strip_slash_def split: list.splits)
      then show ?thesis
        using fold_res_refines [where R = builds and f = append_component and g = resolve_component and xs = "split_on slash p", OF builds_step st(2)]
        by (simp add: append_components_def)
    qed
    then show ?thesis
      unfolding norm res Inr st(1)
      by (auto simp: builds_def split: sum.splits)
  qed
qed

section \<open>Canonical paths\<close>

definition good_name :: "bytes \<Rightarrow> bool" where
  "good_name c \<longleftrightarrow> c \<noteq> [] \<and> c \<noteq> [dot] \<and> c \<noteq> [dot, dot] \<and> length c \<le> 64 \<and> 0 \<notin> set c \<and> slash \<notin> set c"

definition canonical :: "bytes list \<Rightarrow> bool" where
  "canonical cs \<longleftrightarrow> (\<forall>c \<in> set cs. good_name c) \<and> length cs \<le> 64 \<and> length (render cs) \<le> 256"

lemma split_on_slash_free: "c \<in> set (split_on x xs) \<Longrightarrow> x \<notin> set c"
proof (induction xs arbitrary: c)
  case (Cons a xs)
  then show ?case by (cases "split_on x xs") (auto split: if_splits)
qed simp

lemma split_on_append: "split_on x (a @ x # b) = split_on x a @ split_on x b"
proof (induction a)
  case (Cons y a)
  then show ?case by (cases "split_on x a") auto
qed simp

lemma split_on_free: "x \<notin> set a \<Longrightarrow> split_on x a = [a]"
  by (induction a) auto

lemma length_render_butlast: "length (render (butlast cs)) \<le> length (render cs)"
  by (cases cs rule: rev_cases) (auto simp: render_def joined_def)

lemma resolve_component_canonical:
  assumes "canonical stack" "slash \<notin> set c" "resolve_component c stack = Inr stack'"
  shows "canonical stack'"
proof -
  consider "stack' = stack" | "stack' = butlast stack"
    | "stack' = stack @ [c]" "good_name c" "length stack < 64" "length (render (stack @ [c])) \<le> 256"
    using assms(2,3) by (auto simp: resolve_component_def good_name_def not_le not_less split: if_splits)
  then show ?thesis
  proof cases
    case 2
    with assms(1) length_render_butlast [of stack] show ?thesis
      by (auto simp: canonical_def dest: in_set_butlastD)
  qed (use assms(1) in \<open>simp_all add: canonical_def\<close>)
qed

lemma resolve_fold_canonical:
  "canonical stack \<Longrightarrow> \<forall>c \<in> set cs. slash \<notin> set c \<Longrightarrow>
    fold_res resolve_component cs stack = Inr stack' \<Longrightarrow> canonical stack'"
proof (induction cs arbitrary: stack)
  case (Cons c cs)
  then show ?case by (auto simp: bind_res_Inr_iff dest: resolve_component_canonical)
qed simp

lemma canonical_Nil: "canonical []"
  by (simp add: canonical_def render_def)

lemma resolve_canonical: "resolve p cwd = Inr stack \<Longrightarrow> canonical stack"
  using resolve_fold_canonical [OF canonical_Nil] resolve_fold_canonical split_on_slash_free
  by (fastforce simp: resolve_def bind_res_Inr_iff canonical_Nil split: if_splits)

lemma split_joined:
  "\<forall>c \<in> set cs. slash \<notin> set c \<Longrightarrow> split_on slash (joined cs) = [] # cs"
proof (induction cs rule: rev_induct)
  case (snoc c cs)
  then have "split_on slash (joined cs @ slash # c) = [] # cs @ [c]"
    by (simp add: split_on_append split_on_free)
  then show ?case by (simp add: joined_def)
qed (simp add: joined_def)

lemma split_render:
  assumes "canonical cs"
  shows "split_on slash (render cs) = (if cs = [] then [[], []] else [] # cs)"
  using assms split_joined [of cs] by (auto simp: render_def canonical_def good_name_def)

lemma render_prefix_length: "length (render cs) \<le> length (render (cs @ ds))"
proof (induction ds rule: rev_induct)
  case (snoc d ds)
  then show ?case using length_render_butlast [of "cs @ ds @ [d]"] by (simp add: butlast_append) 
qed simp

lemma resolve_walk:
  "canonical (pre @ cs) \<Longrightarrow> fold_res resolve_component cs pre = Inr (pre @ cs)"
proof (induction cs arbitrary: pre)
  case (Cons c cs)
  have "length (render (pre @ [c])) \<le> 256"
    using Cons.prems render_prefix_length [of "pre @ [c]" cs] by (simp add: canonical_def)
  then have "resolve_component c pre = Inr (pre @ [c])"
    using Cons.prems by (auto simp: resolve_component_def canonical_def good_name_def)
  with Cons.IH [of "pre @ [c]"] Cons.prems show ?case by simp
qed simp

lemma resolve_render: "canonical cs \<Longrightarrow> resolve (render cs) cwd = Inr cs"
proof -
  assume c: "canonical cs"
  have "starts_slash (render cs)" by (cases cs) (simp_all add: starts_slash_def render_def joined_def)
  moreover have "fold_res resolve_component (split_on slash (render cs)) [] = Inr cs"
    using resolve_walk [of "[]" cs] c by (simp add: split_render [OF c] resolve_component_def)
  ultimately show ?thesis by (simp add: resolve_def)
qed

section \<open>Lookup implements the longest component prefix\<close>

lemma joined_append [simp]: "joined (xs @ ys) = joined xs @ joined ys"
  by (simp add: joined_def)

lemma render_inj: "canonical s \<Longrightarrow> canonical m \<Longrightarrow> render s = render m \<Longrightarrow> s = m"
  by (metis resolve_render sum.inject(2))

lemma has_prefix_render:
  assumes s: "canonical s" and m: "canonical m"
  shows "path_has_prefix (render s) (render m) \<longleftrightarrow> prefix m s"
proof (cases "m = []")
  case True
  then show ?thesis by (simp add: path_has_prefix_def render_def)
next
  case False
  have free: "\<forall>c \<in> set s. slash \<notin> set c" "\<forall>c \<in> set m. slash \<notin> set c"
    using s m by (auto simp: canonical_def good_name_def)
  have nr: "render m \<noteq> [slash]" using render_length [of m] m False by (auto simp: canonical_def good_name_def)
  have rm: "render m = joined m" using False by (simp add: render_def)
  show ?thesis
  proof
    assume "path_has_prefix (render s) (render m)"
    then consider "render s = render m"
      | "length (render m) < length (render s)" "take (length (render m)) (render s) = render m"
        "render s ! length (render m) = slash"
      using nr by (auto simp: path_has_prefix_def)
    then show "prefix m s"
    proof cases
      case 1
      then show ?thesis using render_inj [OF s m] by simp
    next
      case 2
      have "s \<noteq> []" using 2(1) rm False by (cases m) (auto simp: render_def joined_def)
      then have rs: "render s = joined s" by (simp add: render_def)
      obtain r where "joined s = joined m @ slash # r"
        using 2 id_take_nth_drop [of "length (render m)" "render s"] unfolding rs rm by auto
      then have "[] # s = ([] # m) @ split_on slash r"
        using split_joined [OF free(1)] split_joined [OF free(2)] by (simp add: split_on_append)
      then show ?thesis by (auto simp: prefix_def)
    qed
  next
    assume "prefix m s"
    then obtain t where t: "s = m @ t" by (auto simp: prefix_def)
    show "path_has_prefix (render s) (render m)"
    proof (cases t)
      case Nil
      then show ?thesis by (simp add: t path_has_prefix_def)
    next
      case (Cons c cs)
      then have "render s = render m @ slash # c @ joined cs" using False by (simp add: t render_def joined_def)
      then show ?thesis by (simp add: path_has_prefix_def nth_append)
    qed
  qed
qed

lemma relative_render:
  assumes s: "canonical s" and t: "s = m @ t"
  shows "filter (\<lambda>c. c \<noteq> []) (split_on slash (relative_path (render s) (render m))) = t"
proof -
  have good: "\<forall>c \<in> set s. slash \<notin> set c \<and> c \<noteq> []" using s by (auto simp: canonical_def good_name_def)
  have split: "split_on slash r = cs" if "joined cs = slash # r" "\<forall>c \<in> set cs. slash \<notin> set c" for cs r
    using split_joined [OF that(2)] that(1) by simp
  have rel: "relative_path (render s) (render m) = (if t = [] then [] else tl (joined t))"
  proof (cases "m = []")
    case True
    then show ?thesis using t by (cases t) (auto simp: relative_path_def render_def strip_slash_def joined_def)
  next
    case False
    have "render m \<noteq> [slash]" using render_length [of m] good t False by auto
    moreover have "render s = joined m @ joined t" "render m = joined m" using t False by (simp_all add: render_def)
    ultimately show ?thesis by (cases t) (auto simp: relative_path_def strip_slash_def joined_def)
  qed
  show ?thesis
  proof (cases t)
    case Nil
    then show ?thesis by (simp add: rel)
  next
    case (Cons c cs)
    then have "joined t = slash # tl (joined t)" by (simp add: joined_def)
    then have "split_on slash (tl (joined t)) = t" using good t by (intro split) auto
    moreover have "filter (\<lambda>c. c \<noteq> []) t = t" using good t by (auto simp: filter_id_conv)
    ultimately show ?thesis using Cons by (simp add: rel)
  qed
qed

text \<open>The specification of \<open>lookup\<close>: components of a path, descent, and the mount choice.\<close>

definition components_of :: "path \<Rightarrow> bytes list" where
  "components_of p = filter (\<lambda>c. c \<noteq> []) (split_on slash (as_bytes p))"

fun descend :: "'f filesystem_ops \<Rightarrow> 'f \<Rightarrow> bytes list \<Rightarrow> node_metadata \<Rightarrow> error + node_metadata" where
  "descend ops fs [] node = Inr node"
| "descend ops fs (c # cs) node =
    (if nm_kind node = Directory then bind_res (fs_lookup ops fs (nm_id node) c) (descend ops fs cs)
     else Inl E_NotDirectory)"

definition longest_mount :: "'f vfs \<Rightarrow> bytes list \<Rightarrow> 'f mount option" where
  "longest_mount v cs =
    max_by_key (\<lambda>m. length (components_of (mnt_path m)))
      (filter (\<lambda>m. prefix (components_of (mnt_path m)) cs) (flatten v))"

definition vfs_ok :: "'f vfs \<Rightarrow> bool" where
  "vfs_ok v \<longleftrightarrow> (\<forall>m \<in> set (flatten v). \<exists>cs. canonical cs \<and> as_bytes (mnt_path m) = render cs)"

lemma components_render: "canonical cs \<Longrightarrow> as_bytes p = render cs \<Longrightarrow> components_of p = cs"
  by (auto simp: components_of_def split_render canonical_def good_name_def filter_id_conv)

lemma walk_descend: "walk ops fs cs node = descend ops fs (filter (\<lambda>c. c \<noteq> []) cs) node"
proof (induction cs arbitrary: node)
  case (Cons c cs)
  then have "walk ops fs cs = descend ops fs (filter (\<lambda>c. c \<noteq> []) cs)" by auto
  then show ?case by simp
qed simp

lemma max_by_key_in: "max_by_key k xs = Some x \<Longrightarrow> x \<in> set xs"
  by (induction xs arbitrary: x) (auto split: option.splits if_splits)

lemma max_by_key_cong:
  "\<forall>x \<in> set xs. \<forall>y \<in> set xs. k x \<le> k y \<longleftrightarrow> k' x \<le> k' y \<Longrightarrow> max_by_key k xs = max_by_key k' xs"
proof (induction xs)
  case (Cons a xs)
  then have "max_by_key k xs = max_by_key k' xs" by simp
  with Cons.prems max_by_key_in [of k' xs] show ?case by (auto split: option.split)
qed simp

lemma render_shorter:
  assumes "canonical s" "prefix a s" "prefix b s"
  shows "length (render a) \<le> length (render b) \<longleftrightarrow> length a \<le> length b"
proof -
  have strict: "length (render c) < length (render (c @ d # ds))" if "\<forall>x \<in> set (c @ d # ds). x \<noteq> []" for c d ds
    using that by (cases d) (auto simp: render_def joined_def)
  have ne: "\<forall>x \<in> set s. x \<noteq> []" using assms(1) by (auto simp: canonical_def good_name_def)
  consider t where "b = a @ t" | d ds where "a = b @ d # ds"
    using assms(2,3) by (metis append_Nil2 list.exhaust prefix_def prefix_same_cases)
  then show ?thesis
  proof cases
    case 1
    then show ?thesis using render_prefix_length by simp
  next
    case 2
    then have "\<forall>x \<in> set (b @ d # ds). x \<noteq> []" using ne assms(2) set_mono_prefix by blast
    with strict [of b d ds] 2 show ?thesis by simp
  qed
qed

lemma select_longest:
  assumes v: "vfs_ok v" and s: "canonical s" "as_bytes np = render s"
  shows "select_mount v np = longest_mount v s"
proof -
  have pre: "path_has_prefix (as_bytes np) (as_bytes (mnt_path m)) \<longleftrightarrow> prefix (components_of (mnt_path m)) s"
    if "m \<in> set (flatten v)" for m
    using v that has_prefix_render [OF s(1)] components_render by (fastforce simp: vfs_ok_def s(2))
  then have flt: "filter (\<lambda>m. path_has_prefix (as_bytes np) (as_bytes (mnt_path m))) (flatten v)
      = filter (\<lambda>m. prefix (components_of (mnt_path m)) s) (flatten v)"
    by (rule filter_cong [OF refl])
  have key: "length (as_bytes (mnt_path m)) \<le> length (as_bytes (mnt_path m')) \<longleftrightarrow>
      length (components_of (mnt_path m)) \<le> length (components_of (mnt_path m'))"
    if "m \<in> set (flatten v)" "prefix (components_of (mnt_path m)) s"
      "m' \<in> set (flatten v)" "prefix (components_of (mnt_path m')) s" for m m'
    using v that render_shorter [OF s(1)] components_render by (metis vfs_ok_def)
  show ?thesis
    unfolding select_mount_def longest_mount_def flt by (rule max_by_key_cong) (auto simp: key)
qed

lemma vfs_lookup_components:
  assumes "vfs_ok v"
  shows "vfs_lookup ops v p cwd =
    bind_res (resolve p cwd) (\<lambda>s.
    bind_res (ok_or E_NotFound (longest_mount v s)) (\<lambda>m.
    bind_res (descend ops (mnt_filesystem m) (drop (length (components_of (mnt_path m))) s)
                (fs_root ops (mnt_filesystem m))) (\<lambda>node. Inr (mnt_filesystem m, node))))"
proof (cases "normalize p cwd")
  case (Inl e)
  then show ?thesis using normalize_cases [of p cwd] by (simp add: vfs_lookup_def)
next
  case (Inr np)
  then obtain s where s: "resolve p cwd = Inr s" "as_bytes np = render s"
    using normalize_cases [of p cwd] by auto
  have c: "canonical s" by (rule resolve_canonical [OF s(1)])
  note sel = select_longest [OF assms c s(2)]
  show ?thesis
  proof (cases "longest_mount v s")
    case None
    then show ?thesis using Inr s sel by (simp add: vfs_lookup_def)
  next
    case (Some m)
    then have m: "m \<in> set (flatten v)" "prefix (components_of (mnt_path m)) s"
      using max_by_key_in by (fastforce simp: longest_mount_def)+
    obtain cs where cs: "canonical cs" "as_bytes (mnt_path m) = render cs" using assms m(1) by (auto simp: vfs_ok_def)
    then obtain t where t: "s = cs @ t" using m(2) components_render [OF cs] by (auto simp: prefix_def)
    have "walk ops (mnt_filesystem m) (split_on slash (relative_path (as_bytes np) (as_bytes (mnt_path m)))) node
      = descend ops (mnt_filesystem m) (drop (length (components_of (mnt_path m))) s) node" for node
      using relative_render [OF c t] by (simp add: walk_descend s(2) cs(2) components_render [OF cs] t)
    then show ?thesis using Inr s sel Some by (simp add: vfs_lookup_def)
  qed
qed

text \<open>Every mount table that mounting and unmounting can produce.\<close>

datatype 'f vfs_op = VoMount bytes 'f | VoUnmount bytes

fun vfs_exec :: "'f vfs_op \<Rightarrow> 'f vfs \<Rightarrow> 'f vfs" where
  "vfs_exec (VoMount p fs) v = snd (vfs_mount p fs v)"
| "vfs_exec (VoUnmount p) v = snd (vfs_unmount p v)"

lemma vfs_exec_ok: "vfs_ok v \<Longrightarrow> vfs_ok (vfs_exec op v)"
proof (cases op)
  case (VoMount p fs)
  assume v: "vfs_ok v"
  show ?thesis
  proof (cases "normalize p [slash]")
    case (Inr np)
    then obtain s where "resolve p [slash] = Inr s" "as_bytes np = render s"
      using normalize_cases [of p "[slash]"] by auto
    then show ?thesis using VoMount Inr v resolve_canonical
      by (fastforce simp: vfs_mount_def vfs_ok_def set_flatten dest: set_update_subset_insert [THEN subsetD] split: option.splits)
  qed (use VoMount v in \<open>simp add: vfs_mount_def\<close>)
next
  case (VoUnmount p)
  assume "vfs_ok v"
  with VoUnmount show ?thesis
    by (auto simp: vfs_unmount_def vfs_ok_def set_flatten dest: set_update_subset_insert [THEN subsetD] split: sum.splits option.splits)
qed

lemma vfs_run_ok: "vfs_ok (fold vfs_exec ops (vfs_new n))"
proof -
  have "vfs_ok (vfs_new n)" by (simp add: vfs_new_def vfs_ok_def)
  then show ?thesis by (induction ops rule: rev_induct) (auto intro: vfs_exec_ok)
qed

section \<open>The properties\<close>

text \<open>C8. Normalisation implements the resolution of path components: for every path and working
  directory, \<open>normalize\<close> returns the text of the resolved component list, or the error of the
  specification: \<open>InvalidArgument\<close> for a relative path without an absolute directory,
  \<open>NameTooLong\<close> when a name has more than 64 bytes or a NUL, the depth exceeds 64 or the text
  exceeds 256 bytes.\<close>

theorem normalize_refines:
  "map_sum id as_bytes (normalize p cwd) = map_sum id render (resolve p cwd)"
  using normalize_cases [of p cwd] by (auto split: sum.splits)

text \<open>Normal forms: a normalised path consists of at most 64 names, none of them empty, \<open>.\<close> or
  \<open>..\<close>, none with a slash or a NUL, and normalising it again, from any directory, gives the same
  text.\<close>

lemma normalize_idempotent:
  assumes "normalize p cwd = Inr np"
  shows "(\<exists>cs. as_bytes np = render cs \<and> length cs \<le> 64 \<and>
      (\<forall>c \<in> set cs. c \<notin> {[], [dot], [dot, dot]} \<and> length c \<le> 64 \<and> slash \<notin> set c \<and> 0 \<notin> set c)) \<and>
    map_sum id as_bytes (normalize (as_bytes np) cwd') = Inr (as_bytes np)"
proof -
  obtain s where s: "resolve p cwd = Inr s" "as_bytes np = render s"
    using normalize_cases [of p cwd] assms by auto
  have c: "canonical s" by (rule resolve_canonical [OF s(1)])
  have "map_sum id as_bytes (normalize (as_bytes np) cwd') = Inr (as_bytes np)"
    using normalize_cases [of "render s" cwd'] resolve_render [OF c] s(2) by (auto split: sum.splits)
  with c s(2) show ?thesis by (auto simp: canonical_def good_name_def)
qed

text \<open>C17. Lookup: in every mount table reached by mounting and unmounting, looking up a path selects,
  among the mounts whose components are a prefix of the resolved path, one with the most
  components, and walks exactly the remaining components from the root of its file system, through
  directories only; every error is the one of this specification.\<close>

theorem lookup_longest_prefix:
  "vfs_lookup ops (fold vfs_exec history (vfs_new n)) p cwd =
    bind_res (resolve p cwd) (\<lambda>s.
    bind_res (ok_or E_NotFound (longest_mount (fold vfs_exec history (vfs_new n)) s)) (\<lambda>m.
    bind_res (descend ops (mnt_filesystem m) (drop (length (components_of (mnt_path m))) s)
                (fs_root ops (mnt_filesystem m))) (\<lambda>node. Inr (mnt_filesystem m, node))))"
  by (rule vfs_lookup_components [OF vfs_run_ok])

text \<open>C35. Two mounts at one place: \<open>mount\<close> compares the whole path buffers, and \<open>..\<close> leaves the bytes
  of the name it removes behind. After a file system is mounted at the root, a second one is
  accepted at \<open>/a/..\<close>, which is the root too.\<close>

theorem root_mounted_twice:
  assumes "2 \<le> n"
  shows "\<exists>v m1 m2. vfs_mount [slash] fs1 (vfs_new n) = (Inr (), v) \<and>
    vfs_mount [slash, 0x61, slash, dot, dot] fs2 v = (Inr (), [Some m1, Some m2] @ replicate (n - 2) None) \<and>
    as_bytes (mnt_path m1) = [slash] \<and> as_bytes (mnt_path m2) = [slash]"
proof -
  obtain k where n: "n = Suc (Suc k)" using assms by (metis add_2_eq_Suc le_Suc_ex)
  let ?buf = "(replicate 256 (0 :: u8))[0 := slash]"
  let ?p2 = "\<lparr>path_bytes = ?buf[1 := 0x61], path_length = 1\<rparr>"
  have n1: "normalize [slash] [slash] = Inr path_root"
    by (simp add: normalize_def push_byte_def starts_slash_def strip_slash_def append_components_def
        PATH_CAPACITY_def path_root_def)
  have r: "is_root \<lparr>path_bytes = ?buf, path_length = 1\<rparr>"
    by (simp add: is_root_def as_bytes_def numeral_eq_Suc)
  have n2: "normalize [slash, 0x61, slash, dot, dot] [slash] = Inr ?p2"
    by (simp add: normalize_def push_byte_def starts_slash_def strip_slash_def append_components_def
        PATH_CAPACITY_def NAME_CAPACITY_def Let_def r)
  have ne: "path_root \<noteq> ?p2"
  proof
    assume "path_root = ?p2"
    then have "?buf ! 1 = ?buf[1 := 0x61] ! 1" by (simp add: path_root_def PATH_CAPACITY_def)
    then show False by simp
  qed
  have b: "as_bytes path_root = [slash]" "as_bytes ?p2 = [slash]"
    by (simp_all add: as_bytes_def path_root_def PATH_CAPACITY_def numeral_eq_Suc)
  show ?thesis
    using n1 n2 ne b by (simp add: vfs_mount_def vfs_new_def n)
qed

theorem root_mounted_twice_witness:
  "fst (vfs_mount [slash, 0x61, slash, dot, dot] (2 :: nat) (snd (vfs_mount [slash] 1 (vfs_new 4)))) = Inr ()"
  using root_mounted_twice [of 4 1 "2 :: nat"] by auto

end
