(* ===== verification/Elf.thy ===== *)
theory Elf
  imports Bytes
begin

text \<open>
  \<open>crates/nexos-runtime/src/elf.rs\<close>: the ELF parser. An image that \<open>parse\<close> accepts has only
  segments that lie in user space, whose file data lie in the image, that are never writable and
  executable at once, and its entry point is inside an executable one; loading it cannot meet an
  invalid header any more.
\<close>

section \<open>Definitions\<close>

definition ELF_HEADER_SIZE :: nat where "ELF_HEADER_SIZE = 64"
definition PROGRAM_HEADER_SIZE :: nat where "PROGRAM_HEADER_SIZE = 56"
definition ELF_MACHINE_X86_64 :: u16 where "ELF_MACHINE_X86_64 = 0x3E"
definition USER_ADDRESS_LIMIT :: u64 where "USER_ADDRESS_LIMIT = 0x0000800000000000"
definition MAX_PROGRAM_HEADERS :: u16 where "MAX_PROGRAM_HEADERS = 128"

lemmas elf_consts = ELF_HEADER_SIZE_def PROGRAM_HEADER_SIZE_def ELF_MACHINE_X86_64_def
  USER_ADDRESS_LIMIT_def MAX_PROGRAM_HEADERS_def

datatype elf_error =
    TruncatedHeader | BadMagic | UnsupportedClass | UnsupportedByteOrder | UnsupportedVersion
  | UnsupportedType | UnsupportedMachine | InvalidHeaderSize | InvalidProgramHeaderSize
  | InvalidProgramHeaderCount | ProgramHeaderTableOutOfBounds | SegmentOutOfBounds
  | SegmentAddressOverflow | SegmentOutsideUserSpace | InvalidSegmentAlignment
  | WritableExecutableSegment | MissingLoadSegment | EntryPointNotExecutable

record load_segment =
  ls_virtual_address :: u64
  ls_memory_size :: u64
  ls_file_data :: bytes
  ls_alignment :: u64
  ls_writable :: bool
  ls_executable :: bool

datatype 't load_error = InvalidImage elf_error | Target 't

record elf_image =
  ei_bytes :: bytes
  ei_entry :: u64
  ei_program_header_offset :: nat
  ei_program_header_count :: u16

text \<open>\<open>read_u16\<close>, \<open>read_u32\<close> and \<open>read_u64\<close>: \<open>None\<close> outside the image.\<close>

definition read_le :: "nat \<Rightarrow> bytes \<Rightarrow> nat \<Rightarrow> 'a::len word option" where
  "read_le n bs off =
    (if off + n < 2 ^ 64 then map_option of_le (get_range off (off + n) bs) else None)"

definition read_u16 :: "bytes \<Rightarrow> nat \<Rightarrow> u16 option" where "read_u16 = read_le 2"
definition read_u32 :: "bytes \<Rightarrow> nat \<Rightarrow> u32 option" where "read_u32 = read_le 4"
definition read_u64 :: "bytes \<Rightarrow> nat \<Rightarrow> u64 option" where "read_u64 = read_le 8"

definition load_segment_at :: "elf_image \<Rightarrow> nat \<Rightarrow> elf_error + load_segment option" where
  "load_segment_at img index =
    (let bs = ei_bytes img; offset = ei_program_header_offset img + index * PROGRAM_HEADER_SIZE in
     if read_u32 bs offset \<noteq> Some 1 then Inr None
     else
       bind_res (ok_or SegmentOutOfBounds (read_u32 bs (offset + 4))) (\<lambda>flags.
       bind_res (ok_or SegmentOutOfBounds (read_u64 bs (offset + 8))) (\<lambda>file_offset.
       bind_res (ok_or SegmentOutOfBounds (read_u64 bs (offset + 16))) (\<lambda>virtual_address.
       bind_res (ok_or SegmentOutOfBounds (read_u64 bs (offset + 32))) (\<lambda>file_size.
       bind_res (ok_or SegmentOutOfBounds (read_u64 bs (offset + 40))) (\<lambda>memory_size.
       bind_res (ok_or SegmentOutOfBounds (read_u64 bs (offset + 48))) (\<lambda>alignment.
       if memory_size < file_size then Inl SegmentOutOfBounds
       else
         bind_res (ok_or SegmentOutOfBounds (checked_add file_offset file_size)) (\<lambda>file_end.
         bind_res (ok_or SegmentOutOfBounds (get_range (unat file_offset) (unat file_end) bs)) (\<lambda>file_data.
         bind_res (ok_or SegmentAddressOverflow (checked_add virtual_address memory_size)) (\<lambda>virtual_end.
         if USER_ADDRESS_LIMIT \<le> virtual_address \<or> USER_ADDRESS_LIMIT < virtual_end
         then Inl SegmentOutsideUserSpace
         else if 1 < alignment \<and>
           (\<not> is_power_of_two alignment \<or> virtual_address mod alignment \<noteq> file_offset mod alignment)
         then Inl InvalidSegmentAlignment
         else
           (let writable = (flags AND 2 \<noteq> 0); executable = (flags AND 1 \<noteq> 0) in
            if writable \<and> executable then Inl WritableExecutableSegment
            else Inr (Some
              \<lparr>ls_virtual_address = virtual_address, ls_memory_size = memory_size,
               ls_file_data = file_data, ls_alignment = alignment,
               ls_writable = writable, ls_executable = executable\<rparr>))))))))))))"

text \<open>The loop of \<open>validate_load_segments\<close> over the header indices, with its two flags.\<close>

definition validate_step :: "elf_image \<Rightarrow> nat \<Rightarrow> bool \<times> bool \<Rightarrow> elf_error + bool \<times> bool" where
  "validate_step img index flags =
    bind_res (load_segment_at img index) (\<lambda>seg.
    case seg of
      None \<Rightarrow> Inr flags
    | Some s \<Rightarrow>
        if ls_executable s \<and> ls_virtual_address s \<le> ei_entry img then
          bind_res (ok_or SegmentAddressOverflow
              (checked_add (ls_virtual_address s) (ls_memory_size s))) (\<lambda>end.
          Inr (True, if ei_entry img < end then True else snd flags))
        else Inr (True, snd flags))"

definition validate_load_segments :: "elf_image \<Rightarrow> elf_error + unit" where
  "validate_load_segments img =
    bind_res (fold_res (validate_step img) [0..<unat (ei_program_header_count img)] (False, False))
      (\<lambda>(has_load_segment, entry_is_executable).
        if \<not> has_load_segment then Inl MissingLoadSegment
        else if \<not> entry_is_executable then Inl EntryPointNotExecutable
        else Inr ())"

definition elf_parse :: "bytes \<Rightarrow> elf_error + elf_image" where
  "elf_parse bs =
    (if length bs < ELF_HEADER_SIZE then Inl TruncatedHeader
     else if slice 0 4 bs \<noteq> [0x7F, 0x45, 0x4C, 0x46] then Inl BadMagic
     else if bs ! 4 \<noteq> 2 then Inl UnsupportedClass
     else if bs ! 5 \<noteq> 1 then Inl UnsupportedByteOrder
     else if bs ! 6 \<noteq> 1 \<or> read_u32 bs 20 \<noteq> Some 1 then Inl UnsupportedVersion
     else
       bind_res (ok_or TruncatedHeader (read_u16 bs 16)) (\<lambda>elf_type.
       if \<not> (elf_type = 2 \<or> elf_type = 3) then Inl UnsupportedType
       else if read_u16 bs 18 \<noteq> Some ELF_MACHINE_X86_64 then Inl UnsupportedMachine
       else if read_u16 bs 52 \<noteq> Some 64 then Inl InvalidHeaderSize
       else if read_u16 bs 54 \<noteq> Some 56 then Inl InvalidProgramHeaderSize
       else
         bind_res (ok_or TruncatedHeader (read_u16 bs 56)) (\<lambda>count.
         if count = 0 \<or> MAX_PROGRAM_HEADERS < count then Inl InvalidProgramHeaderCount
         else
           bind_res (ok_or TruncatedHeader (read_u64 bs 32)) (\<lambda>phoff.
           let table_end = unat phoff + unat count * PROGRAM_HEADER_SIZE in
           if 2 ^ 64 \<le> table_end \<or> length bs < table_end then Inl ProgramHeaderTableOutOfBounds
           else
             bind_res (ok_or TruncatedHeader (read_u64 bs 24)) (\<lambda>entry.
             let img = \<lparr>ei_bytes = bs, ei_entry = entry, ei_program_header_offset = unat phoff,
                        ei_program_header_count = count\<rparr> in
             bind_res (validate_load_segments img) (\<lambda>_. Inr img))))))"

text \<open>The iterator \<open>LoadSegments\<close>: one call of \<open>next\<close>, and all of them.\<close>

function load_next :: "elf_image \<Rightarrow> nat \<Rightarrow> load_segment option \<times> nat" where
  "load_next img index =
    (if index < unat (ei_program_header_count img) then
       (case load_segment_at img index of
          Inr (Some s) \<Rightarrow> (Some s, Suc index)
        | Inr None \<Rightarrow> load_next img (Suc index)
        | Inl _ \<Rightarrow> (None, Suc index))
     else (None, index))"
  by pat_completeness auto
termination
  by (relation "measure (\<lambda>(img, i). unat (ei_program_header_count img) - i)") auto

declare load_next.simps [simp del]

text \<open>\<open>load_into\<close>, with the target's \<open>load_segment\<close> as a parameter.\<close>

fun load_from ::
  "('t \<Rightarrow> load_segment \<Rightarrow> ('e + unit) \<times> 't) \<Rightarrow> elf_image \<Rightarrow> nat list \<Rightarrow> 't \<Rightarrow> ('e load_error + u64) \<times> 't"
  where
  "load_from target img [] t = (Inr (ei_entry img), t)"
| "load_from target img (index # rest) t =
    (case load_segment_at img index of
       Inl e \<Rightarrow> (Inl (InvalidImage e), t)
     | Inr None \<Rightarrow> load_from target img rest t
     | Inr (Some s) \<Rightarrow>
         (case target t s of
            (Inl e, t') \<Rightarrow> (Inl (Target e), t')
          | (Inr _, t') \<Rightarrow> load_from target img rest t'))"

definition load_into ::
  "('t \<Rightarrow> load_segment \<Rightarrow> ('e + unit) \<times> 't) \<Rightarrow> elf_image \<Rightarrow> 't \<Rightarrow> ('e load_error + u64) \<times> 't" where
  "load_into target img t = load_from target img [0..<unat (ei_program_header_count img)] t"

section \<open>What an accepted image guarantees\<close>

definition segment_safe :: "bytes \<Rightarrow> load_segment \<Rightarrow> bool" where
  "segment_safe bs s \<longleftrightarrow>
    unat (ls_virtual_address s) + unat (ls_memory_size s) \<le> 2 ^ 47 \<and>
    length (ls_file_data s) \<le> unat (ls_memory_size s) \<and>
    (\<exists>off. off + length (ls_file_data s) \<le> length bs \<and> ls_file_data s = slice off (length (ls_file_data s)) bs \<and>
       (1 < unat (ls_alignment s) \<longrightarrow>
          unat (ls_virtual_address s) mod unat (ls_alignment s) = off mod unat (ls_alignment s))) \<and>
    \<not> (ls_writable s \<and> ls_executable s)"

lemma load_segment_safe:
  assumes "load_segment_at img i = Inr (Some s)"
  shows "segment_safe (ei_bytes img) s"
proof -
  obtain flags foff va fsize msize al fend fdata vend where
    s: "s = \<lparr>ls_virtual_address = va, ls_memory_size = msize, ls_file_data = fdata, ls_alignment = al,
            ls_writable = (flags AND 2 \<noteq> (0 :: u32)), ls_executable = (flags AND 1 \<noteq> 0)\<rparr>"
    and size: "\<not> msize < fsize" and fend: "checked_add foff fsize = Some fend"
    and fdata: "get_range (unat foff) (unat fend) (ei_bytes img) = Some fdata"
    and vend: "checked_add va msize = Some vend" "\<not> USER_ADDRESS_LIMIT < vend"
    and al: "\<not> (1 < al \<and> (\<not> is_power_of_two al \<or> va mod al \<noteq> foff mod al))"
    and wx: "\<not> (flags AND 2 \<noteq> 0 \<and> flags AND 1 \<noteq> 0)"
    using assms unfolding load_segment_at_def Let_def
    by (auto simp: bind_res_Inr_iff split: if_splits)
  have e: "unat fend = unat foff + unat fsize" "unat vend = unat va + unat msize"
    using fend vend(1) by (simp_all add: checked_add_SomeD)
  have d: "fdata = slice (unat foff) (unat fsize) (ei_bytes img)" "unat foff + unat fsize \<le> length (ei_bytes img)"
    using fdata e by (auto simp: get_range_Some_iff)
  have "unat va mod unat al = unat foff mod unat al" if "1 < unat al"
    using al that by (auto simp: word_less_nat_alt unat_mod_distrib dest!: arg_cong [where f = unat])
  then show ?thesis
    using size vend(2) wx e d
    by (auto simp: s segment_safe_def USER_ADDRESS_LIMIT_def word_less_nat_alt intro!: exI [of _ "unat foff"])
qed

text \<open>The segments of an image, in header order.\<close>

definition segments_of :: "elf_image \<Rightarrow> load_segment list" where
  "segments_of img = concat (map (\<lambda>i. case load_segment_at img i of Inr (Some s) \<Rightarrow> [s] | _ \<Rightarrow> [])
     [0..<unat (ei_program_header_count img)])"

definition entry_inside :: "elf_image \<Rightarrow> load_segment \<Rightarrow> bool" where
  "entry_inside img s \<longleftrightarrow> ls_executable s \<and> unat (ls_virtual_address s) \<le> unat (ei_entry img) \<and>
    unat (ei_entry img) < unat (ls_virtual_address s) + unat (ls_memory_size s)"

lemma validate_fold:
  "fold_res (validate_step img) is (has, ent) = Inr (has', ent') \<Longrightarrow>
    (\<forall>i \<in> set is. \<exists>o'. load_segment_at img i = Inr o') \<and>
    (has' \<longrightarrow> has \<or> (\<exists>i \<in> set is. \<exists>s. load_segment_at img i = Inr (Some s))) \<and>
    (ent' \<longrightarrow> ent \<or> (\<exists>i \<in> set is. \<exists>s. load_segment_at img i = Inr (Some s) \<and> entry_inside img s))"
proof (induction "is" arbitrary: has ent)
  case (Cons i js)
  then obtain h e where step: "validate_step img i (has, ent) = Inr (h, e)"
    and rest: "fold_res (validate_step img) js (h, e) = Inr (has', ent')"
    by (auto simp: bind_res_Inr_iff)
  from step have "(\<exists>o'. load_segment_at img i = Inr o') \<and>
      (h \<longrightarrow> has \<or> (\<exists>s. load_segment_at img i = Inr (Some s))) \<and>
      (e \<longrightarrow> ent \<or> (\<exists>s. load_segment_at img i = Inr (Some s) \<and> entry_inside img s))"
    by (auto simp: validate_step_def bind_res_Inr_iff entry_inside_def word_le_nat_alt word_less_nat_alt
        dest!: checked_add_SomeD split: option.splits if_splits)
  with Cons.IH [OF rest] show ?case by auto
qed simp

lemma load_from_valid:
  assumes "\<forall>i \<in> set is. \<exists>o'. load_segment_at img i = Inr o'"
  shows "fst (load_from target img is t) \<noteq> Inl (InvalidImage e)"
  using assms
proof (induction "is" arbitrary: t)
  case (Cons i js)
  then obtain o' where "load_segment_at img i = Inr o'" by auto
  with Cons show ?case by (auto split: option.split prod.split sum.split)
qed simp

lemma load_from_collect:
  assumes "\<forall>i \<in> set is. \<exists>o'. load_segment_at img i = Inr o'"
  shows "load_from (\<lambda>t s. (Inr (), t @ [s])) img is t =
    (Inr (ei_entry img), t @ concat (map (\<lambda>i. case load_segment_at img i of Inr (Some s) \<Rightarrow> [s] | _ \<Rightarrow> []) is))"
  using assms
proof (induction "is" arbitrary: t)
  case (Cons i js)
  then obtain o' where "load_segment_at img i = Inr o'" by auto
  with Cons show ?case by (cases o') simp_all
qed simp

text \<open>Calling \<open>next\<close> until it returns \<open>None\<close>.\<close>

lemma load_next_advances:
  "load_next img i = (Some s, j) \<Longrightarrow> i < j \<and> j \<le> unat (ei_program_header_count img)"
proof (induction img i arbitrary: s j rule: load_next.induct)
  case (1 img i)
  show ?case
    using 1 load_next.simps [of img i]
    by (auto split: if_splits sum.splits option.splits) (metis Suc_lessD)
qed

function load_all :: "elf_image \<Rightarrow> nat \<Rightarrow> load_segment list" where
  "load_all img i = (case load_next img i of (None, j) \<Rightarrow> [] | (Some s, j) \<Rightarrow> s # load_all img j)"
  by pat_completeness auto
termination
  by (relation "measure (\<lambda>(img, i). unat (ei_program_header_count img) - i)")
     (auto dest!: load_next_advances [OF sym])

declare load_all.simps [simp del]

lemma load_all_segments:
  assumes "\<forall>i < unat (ei_program_header_count img). \<exists>o'. load_segment_at img i = Inr o'"
  shows "load_all img i = concat (map (\<lambda>i. case load_segment_at img i of Inr (Some s) \<Rightarrow> [s] | _ \<Rightarrow> [])
     [i..<unat (ei_program_header_count img)])"
proof (induction "unat (ei_program_header_count img) - i" arbitrary: i)
  case 0
  then show ?case by (simp add: load_all.simps load_next.simps)
next
  case (Suc k)
  then have i: "i < unat (ei_program_header_count img)" by simp
  then obtain o' where o': "load_segment_at img i = Inr o'" using assms by auto
  have IH: "load_all img (Suc i) = concat (map (\<lambda>i. case load_segment_at img i of Inr (Some s) \<Rightarrow> [s] | _ \<Rightarrow> [])
     [Suc i..<unat (ei_program_header_count img)])" using Suc.hyps by (intro Suc.hyps) simp
  have up: "[i..<unat (ei_program_header_count img)] = i # [Suc i..<unat (ei_program_header_count img)]"
    using i by (simp add: upt_conv_Cons)
  show ?case
  proof (cases o')
    case None
    then have "load_next img i = load_next img (Suc i)" using i o' load_next.simps [of img i] by simp
    then have "load_all img i = load_all img (Suc i)"
      using load_all.simps [of img i] load_all.simps [of img "Suc i"] by simp
    then show ?thesis using IH up o' None by simp
  next
    case (Some s)
    then have "load_next img i = (Some s, Suc i)" using i o' load_next.simps [of img i] by simp
    then have "load_all img i = s # load_all img (Suc i)" using load_all.simps [of img i] by simp
    then show ?thesis using IH up o' Some by simp
  qed
qed

section \<open>The properties\<close>

text \<open>C11. An image that \<open>parse\<close> accepts is safe to load: every load segment lies below the user-space
  limit without wrapping, its file data lie in the image, are congruent to the address modulo the
  alignment and fit the segment, no segment is writable and executable, and the entry point is
  inside an executable segment. The iterator and \<open>load_into\<close> deliver exactly these segments, in
  header order, and \<open>load_into\<close> never meets an invalid header, whatever the target does.\<close>

theorem elf_parse_safe:
  assumes "elf_parse bs = Inr img"
  shows "(\<forall>s \<in> set (segments_of img). segment_safe bs s) \<and>
    (\<exists>s \<in> set (segments_of img). entry_inside img s) \<and>
    load_all img 0 = segments_of img \<and>
    load_into (\<lambda>t s. (Inr () :: 'e + unit, t @ [s])) img [] = (Inr (ei_entry img), segments_of img) \<and>
    (\<forall>(target :: 't \<Rightarrow> load_segment \<Rightarrow> ('e + unit) \<times> 't) t e. fst (load_into target img t) \<noteq> Inl (InvalidImage e))"
proof -
  have img: "ei_bytes img = bs" "validate_load_segments img = Inr ()"
    using assms unfolding elf_parse_def Let_def by (auto simp: bind_res_Inr_iff split: if_splits)
  let ?is = "[0..<unat (ei_program_header_count img)]"
  obtain h e where "fold_res (validate_step img) ?is (False, False) = Inr (h, e)" "h" "e"
    using img(2) by (auto simp: validate_load_segments_def bind_res_Inr_iff split: if_splits)
  from validate_fold [OF this(1)] this(2,3)
  have all: "\<forall>i \<in> set ?is. \<exists>o'. load_segment_at img i = Inr o'"
    and ent: "\<exists>i \<in> set ?is. \<exists>s. load_segment_at img i = Inr (Some s) \<and> entry_inside img s" by auto
  have mem: "s \<in> set (segments_of img) \<longleftrightarrow> (\<exists>i \<in> set ?is. load_segment_at img i = Inr (Some s))" for s
    by (force simp: segments_of_def split: sum.splits option.splits)
  show ?thesis
  proof (intro conjI allI)
    show "\<forall>s \<in> set (segments_of img). segment_safe bs s" using load_segment_safe img(1) mem by metis
    show "\<exists>s \<in> set (segments_of img). entry_inside img s" using ent mem by metis
    show "load_all img 0 = segments_of img"
      unfolding segments_of_def using all by (intro load_all_segments) simp
    show "load_into (\<lambda>t s. (Inr () :: 'e + unit, t @ [s])) img [] = (Inr (ei_entry img), segments_of img)"
      by (simp add: load_into_def segments_of_def load_from_collect [OF all])
    show "fst (load_into target img t) \<noteq> Inl (InvalidImage e)"
      for target :: "'t \<Rightarrow> load_segment \<Rightarrow> ('e + unit) \<times> 't" and t e
      unfolding load_into_def by (rule load_from_valid [OF all])
  qed
qed

definition demo_elf :: bytes where
  "demo_elf =
  [127, 69, 76, 70, 2, 1, 1, 0, 0, 0, 0, 0, 0, 0, 0, 0,
   2, 0, 62, 0, 1, 0, 0, 0, 120, 0, 64, 0, 0, 0, 0, 0,
   64, 0, 0, 0, 0, 0, 0, 0, 0, 0, 0, 0, 0, 0, 0, 0,
   0, 0, 0, 0, 64, 0, 56, 0, 1, 0, 0, 0, 0, 0, 0, 0,
   1, 0, 0, 0, 5, 0, 0, 0, 0, 0, 0, 0, 0, 0, 0, 0,
   0, 0, 64, 0, 0, 0, 0, 0, 0, 0, 0, 0, 0, 0, 0, 0,
   128, 0, 0, 0, 0, 0, 0, 0, 128, 0, 0, 0, 0, 0, 0, 0,
   0, 16, 0, 0, 0, 0, 0, 0, 0, 0, 0, 0, 0, 0, 0, 0]"

lemma demo_elf_parses:
  "elf_parse demo_elf = Inr \<lparr>ei_bytes = demo_elf, ei_entry = 0x400078, ei_program_header_offset = 64,
     ei_program_header_count = 1\<rparr>"
proof -
  have len: "length demo_elf = 128" by (simp add: demo_elf_def)
  have h: "read_u32 demo_elf 20 = Some 1" "read_u16 demo_elf 16 = Some 2" "read_u16 demo_elf 18 = Some 62"
    "read_u16 demo_elf 52 = Some 64" "read_u16 demo_elf 54 = Some 56" "read_u16 demo_elf 56 = Some 1"
    "read_u64 demo_elf 32 = Some 64" "read_u64 demo_elf 24 = Some 0x400078"
    "read_u32 demo_elf 64 = Some 1" "read_u32 demo_elf 68 = Some 5" "read_u64 demo_elf 72 = Some 0"
    "read_u64 demo_elf 80 = Some 0x400000" "read_u64 demo_elf 96 = Some 128" "read_u64 demo_elf 104 = Some 128"
    "read_u64 demo_elf 112 = Some 4096"
    by (simp_all add: read_u16_def read_u32_def read_u64_def read_le_def get_range_def slice_def demo_elf_def)
  let ?img = "\<lparr>ei_bytes = demo_elf, ei_entry = 0x400078, ei_program_header_offset = 64,
     ei_program_header_count = 1\<rparr>"
  have seg: "load_segment_at ?img 0 = Inr (Some \<lparr>ls_virtual_address = 0x400000, ls_memory_size = 128,
      ls_file_data = demo_elf, ls_alignment = 4096, ls_writable = False, ls_executable = True\<rparr>)"
    by (simp add: load_segment_at_def Let_def h elf_consts checked_add_def get_range_def len is_power_of_two_def)
  have "validate_load_segments ?img = Inr ()"
    by (simp add: validate_load_segments_def validate_step_def seg checked_add_def)
  moreover have "slice 0 4 demo_elf = [0x7F, 0x45, 0x4C, 0x46]" "demo_elf ! 4 = 2" "demo_elf ! 5 = 1" "demo_elf ! 6 = 1"
    by (simp_all add: demo_elf_def slice_def)
  ultimately show ?thesis by (simp add: elf_parse_def len h elf_consts Let_def)
qed

theorem elf_parse_safe_witness:
  "\<exists>img. elf_parse demo_elf = Inr img \<and> (\<exists>s \<in> set (segments_of img). entry_inside img s) \<and>
    (\<forall>s \<in> set (segments_of img). segment_safe demo_elf s)"
proof -
  note safe = elf_parse_safe [OF demo_elf_parses, where 'e = unit and 't = unit]
  from demo_elf_parses conjunct1 [OF conjunct2 [OF safe]] conjunct1 [OF safe] show ?thesis
    by (intro exI conjI)
qed

end
