(* ===== verification/Frames.thy ===== *)
theory Frames
  imports Bytes
begin

text \<open>
  \<open>kernel/src/memory.rs\<close>: the boot-time allocator of physical frames. The memory map of the boot
  loader is a list of entries; on every map whose usable entries do not overlap, the frames handed
  out are page aligned, above the first MiB, inside the usable entries and never handed out twice.
\<close>

section \<open>Definitions\<close>

definition FRAME_SIZE :: u64 where "FRAME_SIZE = 4096"
definition LOW_MEMORY_END :: u64 where "LOW_MEMORY_END = 0x100000"
definition MAX_RANGES :: nat where "MAX_RANGES = 64"

text \<open>An entry of the boot loader's map; \<open>me_usable\<close> is \<open>type_ == MEMMAP_USABLE\<close>.\<close>

record memmap_entry =
  me_base :: u64
  me_length :: u64
  me_usable :: bool

record frame_range =
  fr_next :: u64
  fr_end :: u64

record frame_allocator =
  fa_ranges :: "frame_range list"
  fa_range_count :: nat
  fa_current_range :: nat
  fa_total_frames :: u64
  fa_allocated_frames :: u64

definition frame_align_up :: "u64 \<Rightarrow> u64 \<Rightarrow> u64" where
  "frame_align_up v alignment = saturating_add v (alignment - 1) AND NOT (alignment - 1)"

definition frame_align_down :: "u64 \<Rightarrow> u64 \<Rightarrow> u64" where
  "frame_align_down v alignment = v AND NOT (alignment - 1)"

definition add_entry :: "memmap_entry \<Rightarrow> frame_allocator \<Rightarrow> frame_allocator" where
  "add_entry e a =
    (if \<not> me_usable e \<or> fa_range_count a = MAX_RANGES then a
     else
       (let start = frame_align_up (max (me_base e) LOW_MEMORY_END) FRAME_SIZE;
            end = frame_align_down (saturating_add (me_base e) (me_length e)) FRAME_SIZE in
        if end \<le> start then a
        else a\<lparr>fa_ranges := (fa_ranges a)[fa_range_count a := \<lparr>fr_next = start, fr_end = end\<rparr>],
               fa_range_count := fa_range_count a + 1,
               fa_total_frames := fa_total_frames a + (end - start) div FRAME_SIZE\<rparr>))"

definition from_memory_map :: "memmap_entry list \<Rightarrow> frame_allocator" where
  "from_memory_map entries =
    fold add_entry entries
      \<lparr>fa_ranges = replicate MAX_RANGES \<lparr>fr_next = 0, fr_end = 0\<rparr>, fa_range_count = 0,
       fa_current_range = 0, fa_total_frames = 0, fa_allocated_frames = 0\<rparr>"

function allocate_frame :: "frame_allocator \<Rightarrow> u64 option \<times> frame_allocator" where
  "allocate_frame a =
    (if fa_current_range a < fa_range_count a then
       (let i = fa_current_range a; r = fa_ranges a ! i in
        if fr_next r < fr_end r then
          (Some (fr_next r),
           a\<lparr>fa_ranges := (fa_ranges a)[i := r\<lparr>fr_next := fr_next r + FRAME_SIZE\<rparr>],
             fa_allocated_frames := fa_allocated_frames a + 1\<rparr>)
        else allocate_frame (a\<lparr>fa_current_range := i + 1\<rparr>))
     else (None, a))"
  by pat_completeness auto
termination
  by (relation "measure (\<lambda>a. fa_range_count a - fa_current_range a)") auto

function contiguous_loop :: "u64 \<Rightarrow> frame_allocator \<Rightarrow> u64 option \<times> frame_allocator" where
  "contiguous_loop n a =
    (if fa_current_range a < fa_range_count a then
       (let i = fa_current_range a; r = fa_ranges a ! i in
        case checked_mul n FRAME_SIZE of
          None \<Rightarrow> (None, a)
        | Some byte_count \<Rightarrow>
            (case checked_add (fr_next r) byte_count of
               None \<Rightarrow> (None, a)
             | Some allocation_end \<Rightarrow>
                 if allocation_end \<le> fr_end r then
                   (Some (fr_next r),
                    a\<lparr>fa_ranges := (fa_ranges a)[i := r\<lparr>fr_next := allocation_end\<rparr>],
                      fa_allocated_frames := fa_allocated_frames a + n\<rparr>)
                 else contiguous_loop n (a\<lparr>fa_current_range := i + 1\<rparr>)))
     else (None, a))"
  by pat_completeness auto
termination
  by (relation "measure (\<lambda>(n, a). fa_range_count a - fa_current_range a)") auto

declare allocate_frame.simps [simp del]
declare contiguous_loop.simps [simp del]

definition allocate_contiguous :: "u64 \<Rightarrow> frame_allocator \<Rightarrow> u64 option \<times> frame_allocator" where
  "allocate_contiguous n a = (if n = 0 then (None, a) else contiguous_loop n a)"

definition usable_mebibytes :: "frame_allocator \<Rightarrow> u64" where
  "usable_mebibytes a = fa_total_frames a * FRAME_SIZE div 1024 div 1024"

section \<open>Alignment\<close>

lemma and_not_mask: "v AND NOT (mask n) = push_bit n (drop_bit n v)" for v :: "'a::len word"
  by (intro bit_word_eqI) (auto simp: bit_and_iff bit_not_iff bit_mask_iff bit_push_bit_iff bit_drop_bit_eq)

lemma and_page: "unat (v AND - 4096 :: u64) = unat v div 4096 * 4096"
proof -
  have m: "(- 4096 :: u64) = NOT (mask 12)" by (simp add: mask_eq_exp_minus_1)
  have "v AND - 4096 = push_bit 12 (drop_bit 12 v)" unfolding m by (rule and_not_mask)
  also have "\<dots> = v - take_bit 12 v" using bits_ident [of 12 v] by (metis add_diff_cancel_right')
  finally have sub: "v AND - 4096 = v - take_bit 12 v" .
  have low: "unat (take_bit 12 v) = unat v mod 4096"
    unfolding unsigned_take_bit_eq by (simp add: take_bit_eq_mod)
  then have "take_bit 12 v \<le> v" by (simp add: word_le_nat_alt)
  then show ?thesis unfolding sub by (simp add: unat_sub low minus_mod_eq_div_mult)
qed

lemma frame_align_down_unat: "unat (frame_align_down v FRAME_SIZE) = unat v div 4096 * 4096"
  by (simp add: frame_align_down_def FRAME_SIZE_def and_page)

lemma frame_align_up_unat:
  "unat (frame_align_up v FRAME_SIZE) = min (unat v + 4095) (2 ^ 64 - 1) div 4096 * 4096"
  by (simp add: frame_align_up_def FRAME_SIZE_def and_page unat_saturating_add)

section \<open>Ownership of memory\<close>

text \<open>Addresses are natural numbers here; an allocation is its first address and its number of frames.\<close>

definition entry_span :: "memmap_entry \<Rightarrow> nat set" where
  "entry_span e = (if me_usable e then {max (unat (me_base e)) 0x100000..<unat (me_base e) + unat (me_length e)} else {})"

definition map_disjoint :: "memmap_entry list \<Rightarrow> bool" where
  "map_disjoint entries \<longleftrightarrow> sorted_wrt (\<lambda>e e'. entry_span e \<inter> entry_span e' = {}) entries"

definition range_span :: "frame_range \<Rightarrow> nat set" where
  "range_span r = {unat (fr_next r)..<unat (fr_end r)}"

definition extent :: "nat \<times> nat \<Rightarrow> nat set" where
  "extent x = {fst x..<fst x + 4096 * snd x}"

definition range_ok :: "memmap_entry list \<Rightarrow> frame_range \<Rightarrow> bool" where
  "range_ok entries r \<longleftrightarrow> unat (fr_next r) mod 4096 = 0 \<and> unat (fr_end r) mod 4096 = 0 \<and>
    unat (fr_next r) \<le> unat (fr_end r) \<and> (\<exists>e \<in> set entries. range_span r \<subseteq> entry_span e)"

definition alloc_ok :: "memmap_entry list \<Rightarrow> nat \<times> nat \<Rightarrow> bool" where
  "alloc_ok entries x \<longleftrightarrow> fst x mod 4096 = 0 \<and> 0 < snd x \<and> (\<exists>e \<in> set entries. extent x \<subseteq> entry_span e)"

definition pool_ok :: "memmap_entry list \<Rightarrow> frame_range list \<Rightarrow> (nat \<times> nat) list \<Rightarrow> bool" where
  "pool_ok entries rs allocs \<longleftrightarrow>
    (\<forall>r \<in> set rs. range_ok entries r) \<and> (\<forall>x \<in> set allocs. alloc_ok entries x) \<and>
    sorted_wrt (\<lambda>r r'. range_span r \<inter> range_span r' = {}) rs \<and>
    sorted_wrt (\<lambda>x y. extent x \<inter> extent y = {}) allocs \<and>
    (\<forall>r \<in> set rs. \<forall>x \<in> set allocs. range_span r \<inter> extent x = {})"

definition frames_ok :: "memmap_entry list \<Rightarrow> frame_allocator \<Rightarrow> (nat \<times> nat) list \<Rightarrow> bool" where
  "frames_ok entries a allocs \<longleftrightarrow> length (fa_ranges a) = MAX_RANGES \<and> fa_range_count a \<le> MAX_RANGES \<and>
    pool_ok entries (take (fa_range_count a) (fa_ranges a)) allocs"

lemma sorted_wrt_update:
  assumes "sorted_wrt R xs" "i < length xs" "\<And>y. R (xs ! i) y \<Longrightarrow> R v y" "\<And>y. R y (xs ! i) \<Longrightarrow> R y v"
  shows "sorted_wrt R (xs[i := v])"
  using assms by (auto simp: sorted_wrt_iff_nth_less nth_list_update)

lemma pool_take:
  assumes ok: "pool_ok entries rs allocs" and i: "i < length rs" and n: "0 < n"
    and fit: "unat (fr_next (rs ! i)) + 4096 * n \<le> unat (fr_end (rs ! i))"
    and r': "unat (fr_next r') = unat (fr_next (rs ! i)) + 4096 * n" "fr_end r' = fr_end (rs ! i)"
  shows "pool_ok entries (rs[i := r']) (allocs @ [(unat (fr_next (rs ! i)), n)])"
proof -
  let ?r = "rs ! i" and ?x = "(unat (fr_next (rs ! i)), n)"
  have r: "?r \<in> set rs" using i by simp
  have sub: "extent ?x \<subseteq> range_span ?r" "range_span r' \<subseteq> range_span ?r" "range_span r' \<inter> extent ?x = {}"
    using fit r' by (auto simp: extent_def range_span_def)
  have okr: "range_ok entries ?r" using ok r by (simp add: pool_ok_def)
  have r'ok: "range_ok entries r'" using okr sub(2) fit r' by (auto simp: range_ok_def)
  have xok: "alloc_ok entries ?x" using okr sub(1) n by (auto simp: range_ok_def alloc_ok_def)
  have other: "range_span s \<inter> extent ?x = {}" if s: "s \<in> set (rs[i := r'])" for s
  proof -
    obtain j where j: "j < length rs" "s = (if j = i then r' else rs ! j)"
      using s by (auto simp: in_set_conv_nth nth_list_update)
    show ?thesis
    proof (cases "j = i")
      case False
      then have "range_span (rs ! j) \<inter> range_span ?r = {}"
        using ok i j(1) by (auto simp: pool_ok_def sorted_wrt_iff_nth_less) (metis linorder_neqE_nat disjoint_iff)+
      then show ?thesis using False j(2) sub(1) by auto
    qed (use j(2) sub(3) in simp)
  qed
  have ranges: "\<forall>s \<in> set (rs[i := r']). range_ok entries s"
    using ok r'ok set_update_subset_insert [of rs i r'] by (auto simp: pool_ok_def)
  have sorted: "sorted_wrt (\<lambda>r r'. range_span r \<inter> range_span r' = {}) (rs[i := r'])"
    using ok i sub(2) by (intro sorted_wrt_update) (auto simp: pool_ok_def)
  have old: "range_span s \<inter> extent y = {}" if "s \<in> set (rs[i := r'])" "y \<in> set allocs" for s y
    using that ok sub(2) r set_update_subset_insert [of rs i r'] by (auto simp: pool_ok_def) blast+
  have new: "extent y \<inter> extent ?x = {}" if "y \<in> set allocs" for y
    using that ok r sub(1) by (auto simp: pool_ok_def) blast
  show ?thesis
    using ranges sorted xok other old new ok by (auto simp: pool_ok_def sorted_wrt_append)
qed

section \<open>The operations keep ownership\<close>

lemma entry_range:
  assumes "frame_align_up (max (me_base e) LOW_MEMORY_END) FRAME_SIZE
    < frame_align_down (saturating_add (me_base e) (me_length e)) FRAME_SIZE" (is "?s < ?e")
    and "me_usable e"
  shows "range_ok [e] \<lparr>fr_next = ?s, fr_end = ?e\<rparr>"
proof -
  let ?b = "max (unat (me_base e)) 0x100000"
  have b: "unat (max (me_base e) LOW_MEMORY_END) = ?b"
    by (simp add: LOW_MEMORY_END_def max_def word_le_nat_alt)
  have s: "unat ?s = min (?b + 4095) (2 ^ 64 - 1) div 4096 * 4096"
    unfolding frame_align_up_unat b ..
  have e: "unat ?e = min (unat (me_base e) + unat (me_length e)) (2 ^ 64 - 1) div 4096 * 4096"
    unfolding frame_align_down_unat unat_saturating_add by simp
  have less: "unat ?s < unat ?e" using assms(1) by (simp add: word_less_nat_alt)
  have "unat ?e \<le> (2 ^ 64 - 1) div 4096 * 4096"
    unfolding e by (intro mult_le_mono1 div_le_mono) simp
  then have "\<not> 2 ^ 64 - 1 \<le> ?b + 4095" using less s by auto
  then have "unat ?s = (?b + 4095) div 4096 * 4096" unfolding s by (simp add: min_def)
  then have lo: "?b \<le> unat ?s" by linarith
  have "unat ?e \<le> min (unat (me_base e) + unat (me_length e)) (2 ^ 64 - 1)" unfolding e by (rule div_times_less_eq_dividend)
  then have hi: "unat ?e \<le> unat (me_base e) + unat (me_length e)" by simp
  have "unat ?s mod 4096 = 0" "unat ?e mod 4096 = 0" unfolding s e by simp_all
  then show ?thesis
    using lo hi less assms(2) by (auto simp: range_ok_def range_span_def entry_span_def)
qed

lemma range_ok_mono: "range_ok es r \<Longrightarrow> set es \<subseteq> set es' \<Longrightarrow> range_ok es' r"
  by (auto simp: range_ok_def)

lemma add_entry_ok:
  assumes ok: "frames_ok done a []" and dis: "map_disjoint (done @ [e])"
  shows "frames_ok (done @ [e]) (add_entry e a) []"
proof -
  let ?s = "frame_align_up (max (me_base e) LOW_MEMORY_END) FRAME_SIZE"
  let ?e = "frame_align_down (saturating_add (me_base e) (me_length e)) FRAME_SIZE"
  let ?r = "\<lparr>fr_next = ?s, fr_end = ?e\<rparr>"
  let ?rs = "take (fa_range_count a) (fa_ranges a)"
  have old: "length (fa_ranges a) = MAX_RANGES" "fa_range_count a \<le> MAX_RANGES" "pool_ok done ?rs []"
    using ok by (simp_all add: frames_ok_def)
  have mono: "pool_ok (done @ [e]) ?rs []" using old(3) range_ok_mono [of "done" _ "done @ [e]"]
    by (auto simp: pool_ok_def)
  show ?thesis
  proof (cases "me_usable e \<and> fa_range_count a \<noteq> MAX_RANGES \<and> \<not> ?e \<le> ?s")
    case False
    then show ?thesis using old mono by (auto simp: add_entry_def frames_ok_def Let_def)
  next
    case True
    then have room: "fa_range_count a < MAX_RANGES" using old(2) by simp
    have r: "range_ok [e] ?r" using True by (intro entry_range) (simp_all add: not_le)
    have "range_span q \<inter> range_span ?r = {}" if "q \<in> set ?rs" for q
    proof -
      obtain e' where "e' \<in> set done" "range_span q \<subseteq> entry_span e'"
        using old(3) \<open>q \<in> set ?rs\<close> by (auto simp: pool_ok_def range_ok_def)
      moreover have "entry_span e' \<inter> entry_span e = {}"
        using dis \<open>e' \<in> set done\<close> by (simp add: map_disjoint_def sorted_wrt_append)
      moreover have "range_span ?r \<subseteq> entry_span e" using r by (simp add: range_ok_def)
      ultimately show ?thesis by blast
    qed
    then have pool: "pool_ok (done @ [e]) (?rs @ [?r]) []"
      using mono range_ok_mono [OF r, of "done @ [e]"] by (auto simp: pool_ok_def sorted_wrt_append)
    have "take (fa_range_count a + 1) ((fa_ranges a)[fa_range_count a := ?r]) = ?rs @ [?r]"
      using room old(1) by (simp add: take_Suc_conv_app_nth)
    then show ?thesis using True old pool room by (simp add: add_entry_def frames_ok_def Let_def)
  qed
qed

lemma from_memory_map_ok:
  assumes "map_disjoint entries"
  shows "frames_ok entries (from_memory_map entries) []"
proof -
  have "frames_ok (d @ es) (fold add_entry es a) []" if "frames_ok d a []" "map_disjoint (d @ es)" for d es a
    using that
  proof (induction es arbitrary: d a)
    case (Cons e es)
    then have "map_disjoint (d @ [e])" by (simp add: map_disjoint_def sorted_wrt_append)
    then have "frames_ok (d @ [e]) (add_entry e a) []" using Cons.prems(1) by (rule add_entry_ok [rotated])
    then show ?case using Cons.IH [of "d @ [e]"] Cons.prems(2) by simp
  qed simp
  moreover have "frames_ok [] \<lparr>fa_ranges = replicate MAX_RANGES \<lparr>fr_next = 0, fr_end = 0\<rparr>, fa_range_count = 0,
       fa_current_range = 0, fa_total_frames = 0, fa_allocated_frames = 0\<rparr> []"
    by (simp add: frames_ok_def pool_ok_def)
  ultimately show ?thesis
    using assms unfolding from_memory_map_def by (metis append_Nil)
qed

text \<open>Every allocation is the head of one range; a failed one only moves \<open>current_range\<close>.\<close>

definition takes :: "frame_allocator \<Rightarrow> nat \<Rightarrow> u64 option \<Rightarrow> frame_allocator \<Rightarrow> bool" where
  "takes a n res a' \<longleftrightarrow> fa_range_count a' = fa_range_count a \<and>
    (case res of
       None \<Rightarrow> fa_ranges a' = fa_ranges a
     | Some s \<Rightarrow> \<exists>i r'. i < fa_range_count a \<and> s = fr_next (fa_ranges a ! i) \<and>
         unat (fr_next (fa_ranges a ! i)) + 4096 * n \<le> unat (fr_end (fa_ranges a ! i)) \<and>
         unat (fr_next r') = unat (fr_next (fa_ranges a ! i)) + 4096 * n \<and>
         fr_end r' = fr_end (fa_ranges a ! i) \<and> fa_ranges a' = (fa_ranges a)[i := r'])"

lemma takes_current [simp]: "takes (a\<lparr>fa_current_range := c\<rparr>) n r a' = takes a n r a'"
  by (simp add: takes_def cong: option.case_cong)

lemma takes_ok:
  assumes ok: "frames_ok entries a allocs" and n: "0 < n" and t: "takes a n res a'"
  shows "frames_ok entries a' (allocs @ (case res of None \<Rightarrow> [] | Some s \<Rightarrow> [(unat s, n)]))"
proof (cases res)
  case None
  then show ?thesis using ok t by (simp add: takes_def frames_ok_def)
next
  case (Some s)
  then obtain i r' where i: "i < fa_range_count a" "s = fr_next (fa_ranges a ! i)"
    "unat (fr_next (fa_ranges a ! i)) + 4096 * n \<le> unat (fr_end (fa_ranges a ! i))"
    "unat (fr_next r') = unat (fr_next (fa_ranges a ! i)) + 4096 * n"
    "fr_end r' = fr_end (fa_ranges a ! i)" "fa_ranges a' = (fa_ranges a)[i := r']"
    "fa_range_count a' = fa_range_count a"
    using t by (auto simp: takes_def)
  have "pool_ok entries (take (fa_range_count a) (fa_ranges a)) allocs" using ok by (simp add: frames_ok_def)
  from pool_take [OF this, of i n r'] i n ok show ?thesis
    by (simp add: frames_ok_def Some take_update_swap)
qed

lemma range_fits_page:
  assumes "frames_ok entries a allocs" "i < fa_range_count a" "fr_next (fa_ranges a ! i) < fr_end (fa_ranges a ! i)"
  shows "unat (fr_next (fa_ranges a ! i)) + 4096 \<le> unat (fr_end (fa_ranges a ! i))"
proof -
  have "fa_ranges a ! i \<in> set (take (fa_range_count a) (fa_ranges a))"
    using assms(1,2) by (auto simp: frames_ok_def in_set_conv_nth)
  then have "range_ok entries (fa_ranges a ! i)" using assms(1) by (auto simp: frames_ok_def pool_ok_def)
  then obtain x y where "unat (fr_next (fa_ranges a ! i)) = 4096 * x" "unat (fr_end (fa_ranges a ! i)) = 4096 * y"
    by (auto simp: range_ok_def mod_eq_0_iff_dvd elim!: dvdE)
  then show ?thesis using assms(3) by (simp add: word_less_nat_alt)
qed

lemma allocate_frame_takes:
  "frames_ok entries a allocs \<Longrightarrow> takes a 1 (fst (allocate_frame a)) (snd (allocate_frame a))"
proof (induction a rule: allocate_frame.induct)
  case (1 a)
  let ?i = "fa_current_range a"
  let ?r = "fa_ranges a ! ?i"
  show ?case
  proof (cases "?i < fa_range_count a")
    case False
    then show ?thesis by (simp add: allocate_frame.simps [of a] takes_def)
  next
    case i: True
    show ?thesis
    proof (cases "fr_next ?r < fr_end ?r")
      case True
      have fit: "unat (fr_next ?r) + 4096 \<le> unat (fr_end ?r)" by (rule range_fits_page [OF 1(2) i True])
      then have "unat (fr_next ?r + FRAME_SIZE) = unat (fr_next ?r) + 4096"
        using unat_bound [of "fr_end ?r"] by (subst unat_add_fits) (simp_all add: FRAME_SIZE_def)
      then show ?thesis using i True fit
        by (auto simp: allocate_frame.simps [of a] takes_def Let_def
            intro!: exI [of _ ?i] exI [of _ "?r\<lparr>fr_next := fr_next ?r + FRAME_SIZE\<rparr>"])
    next
      case False
      let ?a = "a\<lparr>fa_current_range := ?i + 1\<rparr>"
      have "allocate_frame a = allocate_frame ?a" using i False by (simp add: allocate_frame.simps [of a] Let_def)
      moreover have "takes ?a 1 (fst (allocate_frame ?a)) (snd (allocate_frame ?a))"
        using 1 i False by (intro 1(1)) (simp_all add: frames_ok_def)
      ultimately show ?thesis by simp
    qed
  qed
qed

lemma contiguous_loop_takes:
  "takes a (unat n) (fst (contiguous_loop n a)) (snd (contiguous_loop n a))"
proof (induction n a rule: contiguous_loop.induct)
  case (1 n a)
  let ?i = "fa_current_range a"
  let ?r = "fa_ranges a ! ?i"
  consider "\<not> ?i < fa_range_count a" | "?i < fa_range_count a" "checked_mul n FRAME_SIZE = None"
    | b where "?i < fa_range_count a" "checked_mul n FRAME_SIZE = Some b" "checked_add (fr_next ?r) b = None"
    | b e where "?i < fa_range_count a" "checked_mul n FRAME_SIZE = Some b" "checked_add (fr_next ?r) b = Some e"
      "e \<le> fr_end ?r"
    | b e where "?i < fa_range_count a" "checked_mul n FRAME_SIZE = Some b" "checked_add (fr_next ?r) b = Some e"
      "\<not> e \<le> fr_end ?r"
    by fastforce
  then show ?case
  proof cases
    case (4 b e)
    have "unat b = 4096 * unat n" using checked_mul_SomeD [OF 4(2)] by (simp add: FRAME_SIZE_def)
    then have e: "unat e = unat (fr_next ?r) + 4096 * unat n" using checked_add_SomeD [OF 4(3)] by simp
    show ?thesis using 4 e
      by (auto simp: contiguous_loop.simps [of n a] takes_def Let_def word_le_nat_alt
          intro!: exI [of _ ?i] exI [of _ "?r\<lparr>fr_next := e\<rparr>"])
  next
    case (5 b e)
    let ?a = "a\<lparr>fa_current_range := ?i + 1\<rparr>"
    have "contiguous_loop n a = contiguous_loop n ?a" using 5 by (simp add: contiguous_loop.simps [of n a] Let_def)
    moreover have "takes ?a (unat n) (fst (contiguous_loop n ?a)) (snd (contiguous_loop n ?a))"
      using 5 by (intro 1) simp_all
    ultimately show ?thesis by simp
  qed (simp_all add: contiguous_loop.simps [of n a] takes_def Let_def)
qed

section \<open>Sequences of requests\<close>

datatype frame_op = FrameOne | FrameMany u64

fun frame_exec :: "frame_op \<Rightarrow> frame_allocator \<Rightarrow> (nat \<times> nat) list \<times> frame_allocator" where
  "frame_exec FrameOne a =
    (let (r, a') = allocate_frame a in (case r of None \<Rightarrow> [] | Some s \<Rightarrow> [(unat s, 1)], a'))"
| "frame_exec (FrameMany n) a =
    (let (r, a') = allocate_contiguous n a in (case r of None \<Rightarrow> [] | Some s \<Rightarrow> [(unat s, unat n)], a'))"

fun frame_run :: "frame_op list \<Rightarrow> frame_allocator \<Rightarrow> (nat \<times> nat) list \<times> frame_allocator" where
  "frame_run [] a = ([], a)"
| "frame_run (op # rest) a =
    (let (xs, a') = frame_exec op a; (ys, a'') = frame_run rest a' in (xs @ ys, a''))"

lemma frame_exec_ok:
  assumes "frames_ok entries a allocs"
  shows "frames_ok entries (snd (frame_exec op a)) (allocs @ fst (frame_exec op a))"
proof (cases op)
  case FrameOne
  show ?thesis using takes_ok [OF assms _ allocate_frame_takes [OF assms]]
    by (simp add: FrameOne case_prod_beta Let_def)
next
  case (FrameMany n)
  show ?thesis
  proof (cases "n = 0")
    case True
    then show ?thesis using assms by (simp add: FrameMany allocate_contiguous_def)
  next
    case False
    then have "0 < unat n" by (simp add: unat_gt_0)
    with takes_ok [OF assms _ contiguous_loop_takes] False show ?thesis
      by (simp add: FrameMany allocate_contiguous_def case_prod_beta Let_def)
  qed
qed

lemma frame_run_ok:
  "frames_ok entries a allocs \<Longrightarrow> frames_ok entries (snd (frame_run ops a)) (allocs @ fst (frame_run ops a))"
proof (induction ops arbitrary: a allocs)
  case (Cons op ops)
  from Cons.IH [OF frame_exec_ok [OF Cons.prems]] show ?case by (simp add: case_prod_beta Let_def)
qed simp

section \<open>The properties\<close>

text \<open>C15. Frames are never shared: when the usable entries of the memory map do not overlap, every
  sequence of \<open>allocate\<close> and \<open>allocate_contiguous\<close> hands out page-aligned blocks that lie above the
  first MiB inside a usable entry, and no two of them overlap.\<close>

theorem frames_never_shared:
  assumes "map_disjoint entries"
  shows "(\<forall>x \<in> set (fst (frame_run ops (from_memory_map entries))).
      fst x mod 4096 = 0 \<and> 0x100000 \<le> fst x \<and>
      (\<exists>e \<in> set entries. me_usable e \<and> unat (me_base e) \<le> fst x \<and>
         fst x + 4096 * snd x \<le> unat (me_base e) + unat (me_length e))) \<and>
    sorted_wrt (\<lambda>x y. fst x + 4096 * snd x \<le> fst y \<or> fst y + 4096 * snd y \<le> fst x)
      (fst (frame_run ops (from_memory_map entries)))"
proof -
  let ?xs = "fst (frame_run ops (from_memory_map entries))"
  have ok: "\<forall>x \<in> set ?xs. alloc_ok entries x" "sorted_wrt (\<lambda>x y. extent x \<inter> extent y = {}) ?xs"
    using frame_run_ok [OF from_memory_map_ok [OF assms], of ops] by (simp_all add: frames_ok_def pool_ok_def)
  have "sorted_wrt (\<lambda>x y. fst x + 4096 * snd x \<le> fst y \<or> fst y + 4096 * snd y \<le> fst x) ?xs"
    using ok(1) by (intro sorted_wrt_mono_rel [OF _ ok(2)]) (auto simp: alloc_ok_def extent_def)
  moreover have "fst x mod 4096 = 0 \<and> 0x100000 \<le> fst x \<and>
      (\<exists>e \<in> set entries. me_usable e \<and> unat (me_base e) \<le> fst x \<and>
         fst x + 4096 * snd x \<le> unat (me_base e) + unat (me_length e))" if "x \<in> set ?xs" for x
    using ok(1) that by (fastforce simp: alloc_ok_def extent_def entry_span_def split: if_splits)
  ultimately show ?thesis by blast
qed

theorem frames_never_shared_witness:
  "sorted_wrt (\<lambda>x y. fst x + 4096 * snd x \<le> fst y \<or> fst y + 4096 * snd y \<le> fst x)
     (fst (frame_run [FrameOne, FrameMany 3, FrameOne]
        (from_memory_map [\<lparr>me_base = 0, me_length = 0x9F000, me_usable = True\<rparr>,
           \<lparr>me_base = 0x9F000, me_length = 0x61000, me_usable = False\<rparr>,
           \<lparr>me_base = 0x100000, me_length = 0x800000, me_usable = True\<rparr>])))"
  by (rule conjunct2 [OF frames_never_shared]) (auto simp: map_disjoint_def entry_span_def)

lemma contiguous_fails:
  assumes "\<forall>r \<in> set (take (fa_range_count a) (fa_ranges a)). unat (fr_next r) + unat n * 4096 < 2 ^ 64"
    and "fa_range_count a \<le> length (fa_ranges a)" and "fst (contiguous_loop n a) = None"
  shows "fa_range_count a \<le> fa_current_range (snd (contiguous_loop n a)) \<and>
    fa_range_count (snd (contiguous_loop n a)) = fa_range_count a \<and> fa_ranges (snd (contiguous_loop n a)) = fa_ranges a"
  using assms
proof (induction n a rule: contiguous_loop.induct)
  case (1 n a)
  let ?i = "fa_current_range a"
  let ?r = "fa_ranges a ! ?i"
  show ?case
  proof (cases "?i < fa_range_count a")
    case False
    then show ?thesis by (simp add: contiguous_loop.simps [of n a])
  next
    case i: True
    then have "?r \<in> set (take (fa_range_count a) (fa_ranges a))" using 1(3) by (auto simp: in_set_conv_nth)
    then have fits: "unat (fr_next ?r) + unat n * 4096 < 2 ^ 64" using 1(2) by blast
    then have b: "checked_mul n FRAME_SIZE = Some (n * FRAME_SIZE)" by (simp add: checked_mul_def FRAME_SIZE_def)
    then have "unat (n * FRAME_SIZE) = unat n * 4096" using checked_mul_SomeD [OF b] by (simp add: FRAME_SIZE_def)
    then have e: "checked_add (fr_next ?r) (n * FRAME_SIZE) = Some (fr_next ?r + n * FRAME_SIZE)"
      using fits by (simp add: checked_add_def)
    have big: "\<not> fr_next ?r + n * FRAME_SIZE \<le> fr_end ?r"
      using 1(4) i b e by (auto simp: contiguous_loop.simps [of n a] Let_def split: if_splits)
    then have "contiguous_loop n a = contiguous_loop n (a\<lparr>fa_current_range := ?i + 1\<rparr>)"
      using i b e by (simp add: contiguous_loop.simps [of n a] Let_def)
    then show ?thesis using 1(1) [OF i refl refl b e big] 1(2-4) by simp
  qed
qed

text \<open>C36. A request that is too large uses up the allocator: when \<open>allocate_contiguous\<close> fails because no
  remaining range is long enough, it has skipped all of them, and every later request fails
  and leaves the allocator as it is, even one for a single frame and although the ranges still have free frames.\<close>

theorem failed_contiguous_exhausts:
  assumes "\<forall>r \<in> set (take (fa_range_count a) (fa_ranges a)). unat (fr_next r) + unat n * 4096 < 2 ^ 64"
    and "fa_range_count a \<le> length (fa_ranges a)" and "n \<noteq> 0" and "allocate_contiguous n a = (None, a')"
  shows "fa_ranges a' = fa_ranges a \<and> allocate_frame a' = (None, a') \<and> allocate_contiguous m a' = (None, a')"
proof -
  have "contiguous_loop n a = (None, a')" using assms(3,4) by (simp add: allocate_contiguous_def)
  with contiguous_fails [OF assms(1,2)]
  have "fa_range_count a' \<le> fa_current_range a'" "fa_ranges a' = fa_ranges a" by simp_all
  then show ?thesis
    by (simp add: allocate_frame.simps [of a'] allocate_contiguous_def contiguous_loop.simps [of m a'])
qed

theorem failed_contiguous_exhausts_witness:
  "\<exists>a a'. from_memory_map [\<lparr>me_base = 0x100000, me_length = 0x10000, me_usable = True\<rparr>] = a \<and>
     fa_total_frames a = 16 \<and> allocate_contiguous 17 a = (None, a') \<and> fst (allocate_frame a') = None"
proof -
  let ?a = "\<lparr>fa_ranges = (replicate 64 \<lparr>fr_next = 0, fr_end = 0\<rparr>)[0 := \<lparr>fr_next = 0x100000, fr_end = 0x110000\<rparr>],
      fa_range_count = Suc 0, fa_current_range = 0, fa_total_frames = 16, fa_allocated_frames = 0\<rparr>"
  have a: "from_memory_map [\<lparr>me_base = 0x100000, me_length = 0x10000, me_usable = True\<rparr>] = ?a"
    by (simp add: from_memory_map_def add_entry_def MAX_RANGES_def FRAME_SIZE_def LOW_MEMORY_END_def
        frame_align_up_def frame_align_down_def saturating_add_def)
  have t: "take 1 (fa_ranges ?a) = [\<lparr>fr_next = 0x100000, fr_end = 0x110000\<rparr>]"
    by (simp add: numeral_eq_Suc)
  have big: "allocate_contiguous 17 ?a = (None, ?a\<lparr>fa_current_range := Suc 0\<rparr>)"
    unfolding allocate_contiguous_def
    by (subst contiguous_loop.simps, subst contiguous_loop.simps)
       (simp add: checked_mul_def checked_add_def FRAME_SIZE_def)
  have "fst (allocate_frame (?a\<lparr>fa_current_range := Suc 0\<rparr>)) = None"
    using failed_contiguous_exhausts [OF _ _ _ big] t by simp
  with a big show ?thesis by auto
qed

end
