(* ===== verification/Heap.thy ===== *)
theory Heap
  imports Frames
begin

text \<open>
  \<open>kernel/src/heap.rs\<close>: the kernel heap, a table of segments that tile the heap. Live allocations
  are disjoint and aligned, the accounting is exact, and freeing everything gives back one free
  segment.
\<close>

section \<open>Definitions\<close>

definition HEAP_PAGES :: u64 where "HEAP_PAGES = 4096"
definition MAX_SEGMENTS :: nat where "MAX_SEGMENTS = 128"

record segment =
  seg_offset :: u64
  seg_size :: u64
  seg_free :: bool

definition SEGMENT_EMPTY :: segment where
  "SEGMENT_EMPTY = \<lparr>seg_offset = 0, seg_size = 0, seg_free = False\<rparr>"

record kernel_heap =
  kh_physical_start :: u64
  kh_virtual_start :: u64
  kh_size :: u64
  kh_segments :: "segment list"
  kh_segment_count :: nat
  kh_used :: u64
  kh_peak_used :: u64
  kh_active_allocations :: u64
  kh_total_allocations :: u64
  kh_deallocations :: u64

definition heap_initialize :: "u64 \<Rightarrow> frame_allocator \<Rightarrow> kernel_heap option \<times> frame_allocator" where
  "heap_initialize hhdm_offset a =
    (case allocate_contiguous HEAP_PAGES a of
       (None, a') \<Rightarrow> (None, a')
     | (Some physical_start, a') \<Rightarrow>
         (case checked_add hhdm_offset physical_start of
            None \<Rightarrow> (None, a')
          | Some virtual_start \<Rightarrow>
              (Some
                \<lparr>kh_physical_start = physical_start, kh_virtual_start = virtual_start,
                 kh_size = HEAP_PAGES * FRAME_SIZE,
                 kh_segments = (replicate MAX_SEGMENTS SEGMENT_EMPTY)
                   [0 := \<lparr>seg_offset = 0, seg_size = HEAP_PAGES * FRAME_SIZE, seg_free = True\<rparr>],
                 kh_segment_count = 1, kh_used = 0, kh_peak_used = 0, kh_active_allocations = 0,
                 kh_total_allocations = 0, kh_deallocations = 0\<rparr>, a')))"

text \<open>\<open>replace_segment\<close> shifts the segments behind \<open>index\<close> up, last one first.\<close>

definition replace_segment :: "nat \<Rightarrow> segment list \<Rightarrow> kernel_heap \<Rightarrow> bool \<times> kernel_heap" where
  "replace_segment index replacement h =
    (let additional = length replacement - 1 in
     if MAX_SEGMENTS < kh_segment_count h + additional then (False, h)
     else
       (let shifted = fold (\<lambda>pos segs. segs[pos + additional := segs ! pos])
                        (rev [index + 1..<kh_segment_count h]) (kh_segments h) in
        (True, h\<lparr>kh_segments := put_slice index replacement shifted,
                 kh_segment_count := kh_segment_count h + additional\<rparr>)))"

definition remove_segment :: "nat \<Rightarrow> kernel_heap \<Rightarrow> kernel_heap" where
  "remove_segment index h =
    (let shifted = fold (\<lambda>pos segs. segs[pos := segs ! (pos + 1)])
                     [index..<kh_segment_count h - 1] (kh_segments h);
         count = kh_segment_count h - 1 in
     h\<lparr>kh_segment_count := count, kh_segments := shifted[count := SEGMENT_EMPTY]\<rparr>)"

text \<open>
  The arithmetic of \<open>allocate\<close> on one free segment, every step checked: the aligned address and
  offset, the end of the allocation and of the segment.
\<close>

definition heap_place :: "kernel_heap \<Rightarrow> segment \<Rightarrow> u64 \<Rightarrow> u64 \<Rightarrow> (u64 \<times> u64 \<times> u64 \<times> u64) option" where
  "heap_place h s sz align =
    Option.bind (checked_add (kh_virtual_start h) (seg_offset s)) (\<lambda>segment_address.
    Option.bind (checked_add segment_address (align - 1)) (\<lambda>up.
    let aligned_address = up AND NOT (align - 1) in
    Option.bind (checked_sub aligned_address (kh_virtual_start h)) (\<lambda>aligned_offset.
    Option.bind (checked_add aligned_offset sz) (\<lambda>allocation_end.
    Option.bind (checked_add (seg_offset s) (seg_size s)) (\<lambda>segment_end.
    Some (aligned_address, aligned_offset, allocation_end, segment_end))))))"

text \<open>The one to three segments that replace a free one.\<close>

definition carve :: "segment \<Rightarrow> u64 \<Rightarrow> u64 \<Rightarrow> u64 \<Rightarrow> u64 \<Rightarrow> segment list" where
  "carve s sz aligned_offset allocation_end segment_end =
    (let prefix_size = aligned_offset - seg_offset s; suffix_size = segment_end - allocation_end in
     (if prefix_size \<noteq> 0 then [\<lparr>seg_offset = seg_offset s, seg_size = prefix_size, seg_free = True\<rparr>] else []) @
     [\<lparr>seg_offset = aligned_offset, seg_size = sz, seg_free = False\<rparr>] @
     (if suffix_size \<noteq> 0 then [\<lparr>seg_offset = allocation_end, seg_size = suffix_size, seg_free = True\<rparr>] else []))"

text \<open>The scan of \<open>allocate\<close> over the segment indices.\<close>

fun heap_scan :: "u64 \<Rightarrow> u64 \<Rightarrow> nat list \<Rightarrow> kernel_heap \<Rightarrow> u64 option \<times> kernel_heap" where
  "heap_scan sz align [] h = (None, h)"
| "heap_scan sz align (index # rest) h =
    (let s = kh_segments h ! index in
     if \<not> seg_free s then heap_scan sz align rest h
     else
       (case heap_place h s sz align of
          None \<Rightarrow> (None, h)
        | Some (aligned_address, aligned_offset, allocation_end, segment_end) \<Rightarrow>
            if segment_end < allocation_end then heap_scan sz align rest h
            else
              (case replace_segment index (carve s sz aligned_offset allocation_end segment_end) h of
                 (False, h') \<Rightarrow> (None, h')
               | (True, h') \<Rightarrow>
                   (if aligned_address = 0 then None else Some aligned_address,
                    h'\<lparr>kh_used := kh_used h' + sz,
                       kh_peak_used := max (kh_peak_used h') (kh_used h' + sz),
                       kh_active_allocations := kh_active_allocations h' + 1,
                       kh_total_allocations := kh_total_allocations h' + 1\<rparr>))))"

definition heap_allocate :: "u64 \<Rightarrow> u64 \<Rightarrow> kernel_heap \<Rightarrow> u64 option \<times> kernel_heap" where
  "heap_allocate sz align h =
    (if sz = 0 \<or> \<not> is_power_of_two align then (None, h)
     else heap_scan sz align [0..<kh_segment_count h] h)"

definition merge_left :: "nat \<Rightarrow> kernel_heap \<Rightarrow> nat \<times> kernel_heap" where
  "merge_left index h =
    (if 0 < index \<and> seg_free (kh_segments h ! (index - 1)) then
       (index - 1, remove_segment index (h\<lparr>kh_segments := (kh_segments h)
          [index - 1 := (kh_segments h ! (index - 1))
             \<lparr>seg_size := seg_size (kh_segments h ! (index - 1)) + seg_size (kh_segments h ! index)\<rparr>]\<rparr>))
     else (index, h))"

definition merge_right :: "nat \<Rightarrow> kernel_heap \<Rightarrow> kernel_heap" where
  "merge_right index h =
    (if index + 1 < kh_segment_count h \<and> seg_free (kh_segments h ! (index + 1)) then
       remove_segment (index + 1) (h\<lparr>kh_segments := (kh_segments h)
          [index := (kh_segments h ! index)
             \<lparr>seg_size := seg_size (kh_segments h ! index) + seg_size (kh_segments h ! (index + 1))\<rparr>]\<rparr>)
     else h)"

definition heap_deallocate :: "u64 \<Rightarrow> kernel_heap \<Rightarrow> bool \<times> kernel_heap" where
  "heap_deallocate address h =
    (case checked_sub address (kh_virtual_start h) of
       None \<Rightarrow> (False, h)
     | Some offset \<Rightarrow>
         (case position (\<lambda>s. \<not> seg_free s \<and> seg_offset s = offset)
                 (take (kh_segment_count h) (kh_segments h)) of
            None \<Rightarrow> (False, h)
          | Some index \<Rightarrow>
              (let s = kh_segments h ! index;
                   h1 = h\<lparr>kh_segments := (kh_segments h)[index := s\<lparr>seg_free := True\<rparr>],
                          kh_used := kh_used h - seg_size s,
                          kh_active_allocations := kh_active_allocations h - 1,
                          kh_deallocations := kh_deallocations h + 1\<rparr>;
                   (index', h2) = merge_left index h1
               in (True, merge_right index' h2))))"

definition free_bytes :: "kernel_heap \<Rightarrow> u64" where
  "free_bytes h = sum_list (map seg_size (filter seg_free (take (kh_segment_count h) (kh_segments h))))"

definition largest_free_block :: "kernel_heap \<Rightarrow> u64" where
  "largest_free_block h =
    fold max (map seg_size (filter seg_free (take (kh_segment_count h) (kh_segments h)))) 0"

text \<open>The global allocator: \<open>None\<close> until it is initialised, null pointers as address 0.\<close>

type_synonym global_heap = "kernel_heap option"

definition global_initialize :: "kernel_heap \<Rightarrow> global_heap \<Rightarrow> bool \<times> global_heap" where
  "global_initialize h g = (case g of None \<Rightarrow> (True, Some h) | Some _ \<Rightarrow> (False, g))"

definition with_heap :: "(kernel_heap \<Rightarrow> 'a \<times> kernel_heap) \<Rightarrow> global_heap \<Rightarrow> 'a option \<times> global_heap" where
  "with_heap f g = (case g of None \<Rightarrow> (None, None) | Some h \<Rightarrow> (let (x, h') = f h in (Some x, Some h')))"

definition global_alloc :: "u64 \<Rightarrow> u64 \<Rightarrow> global_heap \<Rightarrow> u64 \<times> global_heap" where
  "global_alloc sz align g =
    (let (r, g') = with_heap (heap_allocate sz align) g in
     (case r of Some (Some p) \<Rightarrow> p | _ \<Rightarrow> 0, g'))"

definition global_dealloc :: "u64 \<Rightarrow> global_heap \<Rightarrow> global_heap" where
  "global_dealloc p g = (if p = 0 then g else snd (with_heap (heap_deallocate p) g))"

section \<open>The segment table as a list\<close>

definition segs :: "kernel_heap \<Rightarrow> segment list" where
  "segs h = take (kh_segment_count h) (kh_segments h)"

definition table_ok :: "kernel_heap \<Rightarrow> bool" where
  "table_ok h \<longleftrightarrow> length (kh_segments h) = MAX_SEGMENTS \<and> kh_segment_count h \<le> MAX_SEGMENTS"

text \<open>Two heaps that differ in the segment table only.\<close>

definition same_rest :: "kernel_heap \<Rightarrow> kernel_heap \<Rightarrow> bool" where
  "same_rest h h' \<longleftrightarrow> h' = h\<lparr>kh_segments := kh_segments h', kh_segment_count := kh_segment_count h'\<rparr>"

lemma same_rest_fields:
  assumes "same_rest h h'"
  shows "kh_virtual_start h' = kh_virtual_start h" "kh_size h' = kh_size h" "kh_used h' = kh_used h"
    "kh_active_allocations h' = kh_active_allocations h"
proof -
  have eq: "h' = h\<lparr>kh_segments := kh_segments h', kh_segment_count := kh_segment_count h'\<rparr>"
    using assms by (simp only: same_rest_def)
  show "kh_virtual_start h' = kh_virtual_start h" by (subst eq) simp
  show "kh_size h' = kh_size h" by (subst eq) simp
  show "kh_used h' = kh_used h" by (subst eq) simp
  show "kh_active_allocations h' = kh_active_allocations h" by (subst eq) simp
qed

lemma shift_up:
  "a \<le> b \<Longrightarrow> b + d \<le> length xs \<Longrightarrow>
    fold (\<lambda>pos xs. xs[pos + d := xs ! pos]) (rev [a..<b]) xs = take (a + d) xs @ slice a (b - a) xs @ drop (b + d) xs"
proof (induction b arbitrary: xs)
  case 0
  then show ?case by simp
next
  case (Suc b)
  show ?case
  proof (cases "a = Suc b")
    case True
    then show ?thesis by simp
  next
    case False
    then have ab: "a \<le> b" using Suc.prems by simp
    let ?xs = "xs[b + d := xs ! b]"
    have "fold (\<lambda>pos xs. xs[pos + d := xs ! pos]) (rev [a..<Suc b]) xs
        = take (a + d) ?xs @ slice a (b - a) ?xs @ drop (b + d) ?xs"
      using Suc.IH [OF ab, of ?xs] Suc.prems ab by simp
    also have "take (a + d) ?xs = take (a + d) xs" using ab by simp
    also have "slice a (b - a) ?xs = slice a (b - a) xs" using ab by (simp add: slice_update_other)
    also have "drop (b + d) ?xs = xs ! b # drop (Suc b + d) xs"
      using Suc.prems by (simp add: drop_update_swap) (simp add: Cons_nth_drop_Suc [symmetric])
    also have "slice a (b - a) xs @ xs ! b # drop (Suc b + d) xs = slice a (Suc b - a) xs @ drop (Suc b + d) xs"
      using ab Suc.prems by (simp add: slice_def Suc_diff_le take_Suc_conv_app_nth)
    finally show ?thesis .
  qed
qed

lemma copy_next:
  "length ys = b \<Longrightarrow> (ys @ x # y # zs)[b := (ys @ x # y # zs) ! Suc b] = ys @ y # y # zs"
  by (auto simp: nth_append)

lemma shift_down:
  "a \<le> b \<Longrightarrow> b < length xs \<Longrightarrow>
    fold (\<lambda>pos xs. xs[pos := xs ! (pos + 1)]) [a..<b] xs = take a xs @ slice (a + 1) (b - a) xs @ drop b xs"
proof (induction b)
  case 0
  then show ?case by simp
next
  case (Suc b)
  show ?case
  proof (cases "a = Suc b")
    case True
    then show ?thesis by simp
  next
    case False
    then have ab: "a \<le> b" using Suc.prems by simp
    let ?ys = "take a xs @ slice (a + 1) (b - a) xs"
    have len: "length ?ys = b" using ab Suc.prems by simp
    have d: "drop b xs = xs ! b # xs ! Suc b # drop (Suc (Suc b)) xs"
      using Suc.prems by (simp add: Cons_nth_drop_Suc)
    have "fold (\<lambda>pos xs. xs[pos := xs ! (pos + 1)]) [a..<Suc b] xs
        = (?ys @ drop b xs)[b := (?ys @ drop b xs) ! Suc b]"
      using Suc.IH [OF ab] Suc.prems ab by simp
    also have "\<dots> = ?ys @ xs ! Suc b # xs ! Suc b # drop (Suc (Suc b)) xs"
      unfolding d by (rule copy_next [OF len])
    also have "\<dots> = take a xs @ slice (a + 1) (Suc b - a) xs @ drop (Suc b) xs"
      using ab Suc.prems by (simp add: slice_def Suc_diff_le take_Suc_conv_app_nth Cons_nth_drop_Suc)
    finally show ?thesis .
  qed
qed

lemma segs_split:
  assumes "table_ok h" "segs h = p @ s # q"
  shows "kh_segments h = p @ s # q @ drop (kh_segment_count h) (kh_segments h)"
    "kh_segment_count h = length p + Suc (length q)" "kh_segments h ! length p = s"
proof -
  show full: "kh_segments h = p @ s # q @ drop (kh_segment_count h) (kh_segments h)"
    using assms(2) append_take_drop_id [of "kh_segment_count h" "kh_segments h"] by (simp add: segs_def)
  show "kh_segment_count h = length p + Suc (length q)"
    using assms by (auto simp: segs_def table_ok_def dest!: arg_cong [where f = length])
  show "kh_segments h ! length p = s" by (subst full) (simp add: nth_append)
qed

lemma replace_segment_list:
  assumes ok: "table_ok h" and xs: "segs h = p @ s # q" and r: "r \<noteq> []"
  shows "if MAX_SEGMENTS < length (segs h) + (length r - 1) then replace_segment (length p) r h = (False, h)
    else \<exists>h'. replace_segment (length p) r h = (True, h') \<and> table_ok h' \<and> segs h' = p @ r @ q \<and> same_rest h h'"
proof -
  note sp = segs_split [OF ok xs]
  let ?n = "kh_segment_count h" and ?d = "length r - 1"
  have len: "length (segs h) = ?n" using ok by (simp add: segs_def table_ok_def)
  show ?thesis
  proof (cases "MAX_SEGMENTS < ?n + ?d")
    case True
    then show ?thesis by (simp add: len replace_segment_def)
  next
    case False
    let ?sh = "fold (\<lambda>pos segs. segs[pos + ?d := segs ! pos]) (rev [length p + 1..<?n]) (kh_segments h)"
    have sh: "?sh = take (length p + 1 + ?d) (kh_segments h) @ slice (length p + 1) (?n - (length p + 1)) (kh_segments h)
        @ drop (?n + ?d) (kh_segments h)"
      using sp(2) ok False by (intro shift_up) (simp_all add: table_ok_def)
    have q: "slice (length p + 1) (?n - (length p + 1)) (kh_segments h) = q"
      by (subst sp(1)) (simp add: slice_def sp(2))
    have tp: "take (length p) ?sh = p"
      unfolding sh by (subst sp(1)) (use sp(2) ok False in \<open>simp add: table_ok_def\<close>)
    have lr: "length p + length r = length p + 1 + ?d" using r by (cases r) auto
    have lt: "length (take (length p + 1 + ?d) (kh_segments h)) = length p + 1 + ?d"
      using sp(2) ok False by (simp add: table_ok_def)
    have dp: "drop (length p + length r) ?sh = q @ drop (?n + ?d) (kh_segments h)"
      unfolding sh q lr using lt by simp
    have "put_slice (length p) r ?sh = p @ r @ q @ drop (?n + ?d) (kh_segments h)"
      unfolding put_slice_def tp dp ..
    moreover have "?n + ?d = length (p @ r @ q)" using sp(2) r by (cases r) auto
    ultimately show ?thesis
      using False ok by (auto simp: len replace_segment_def Let_def table_ok_def segs_def same_rest_def)
  qed
qed

lemma remove_segment_list:
  assumes ok: "table_ok h" and xs: "segs h = p @ s # q"
  shows "table_ok (remove_segment (length p) h)" "segs (remove_segment (length p) h) = p @ q"
    "same_rest h (remove_segment (length p) h)"
proof -
  note sp = segs_split [OF ok xs]
  let ?n = "kh_segment_count h"
  let ?sh = "fold (\<lambda>pos segs. segs[pos := segs ! (pos + 1)]) [length p..<?n - 1] (kh_segments h)"
  have sh: "?sh = take (length p) (kh_segments h) @ slice (length p + 1) (?n - 1 - length p) (kh_segments h)
      @ drop (?n - 1) (kh_segments h)"
    using sp(2) ok by (intro shift_down) (simp_all add: table_ok_def)
  have q: "slice (length p + 1) (?n - 1 - length p) (kh_segments h) = q"
    by (subst sp(1)) (simp add: slice_def sp(2))
  have tp: "take (length p) (kh_segments h) = p" by (subst sp(1)) simp
  have "take (?n - 1) (?sh[?n - 1 := SEGMENT_EMPTY]) = p @ q"
    unfolding sh q tp using sp(2) by simp
  moreover have "length ?sh = length (kh_segments h)"
    unfolding sh q tp using sp(2) ok by (simp add: table_ok_def)
  ultimately show "table_ok (remove_segment (length p) h)" "segs (remove_segment (length p) h) = p @ q"
    using ok sp(2) by (simp_all add: remove_segment_def Let_def table_ok_def segs_def)
  show "same_rest h (remove_segment (length p) h)"
    by (simp add: same_rest_def remove_segment_def Let_def)
qed

section \<open>Tilings\<close>

fun tiles :: "nat \<Rightarrow> segment list \<Rightarrow> nat \<Rightarrow> bool" where
  "tiles a [] b \<longleftrightarrow> a = b"
| "tiles a (s # ss) b \<longleftrightarrow> unat (seg_offset s) = a \<and> 0 < unat (seg_size s) \<and> tiles (a + unat (seg_size s)) ss b"

lemma tiles_append: "tiles a (xs @ ys) c \<longleftrightarrow> (\<exists>b. tiles a xs b \<and> tiles b ys c)"
  by (induction xs arbitrary: a) auto

lemma tiles_le: "tiles a xs b \<Longrightarrow> a \<le> b"
  by (induction xs arbitrary: a) fastforce+

lemma tiles_strict: "tiles a xs b \<Longrightarrow> xs \<noteq> [] \<Longrightarrow> a < b"
  by (cases xs) (auto dest: tiles_le)

lemma tiles_bounds: "tiles a xs b \<Longrightarrow> s \<in> set xs \<Longrightarrow> a \<le> unat (seg_offset s) \<and> unat (seg_offset s) + unat (seg_size s) \<le> b"
proof (induction xs arbitrary: a)
  case (Cons t xs)
  show ?case
  proof (cases "s = t")
    case True
    then show ?thesis using Cons.prems tiles_le by auto
  next
    case False
    then show ?thesis using Cons.IH [of "a + unat (seg_size t)"] Cons.prems by auto
  qed
qed simp

lemma tiles_pos: "tiles a xs b \<Longrightarrow> s \<in> set xs \<Longrightarrow> 0 < unat (seg_size s)"
  by (induction xs arbitrary: a) auto

definition apart :: "segment \<Rightarrow> segment \<Rightarrow> bool" where
  "apart s t \<longleftrightarrow> \<not> (seg_free s \<and> seg_free t)"

definition alloc_sizes :: "segment list \<Rightarrow> nat" where
  "alloc_sizes xs = sum_list (map (unat \<circ> seg_size) (filter (\<lambda>s. \<not> seg_free s) xs))"

lemma alloc_sizes_append [simp]: "alloc_sizes (xs @ ys) = alloc_sizes xs + alloc_sizes ys"
  by (simp add: alloc_sizes_def)

lemma alloc_sizes_le: "tiles a xs b \<Longrightarrow> alloc_sizes xs \<le> b - a"
proof (induction xs arbitrary: a)
  case (Cons s xs)
  then have "alloc_sizes xs \<le> b - (a + unat (seg_size s))" "a + unat (seg_size s) \<le> b" by (auto dest: tiles_le)
  then show ?case by (auto simp: alloc_sizes_def)
qed (simp add: alloc_sizes_def)

text \<open>The invariant of the heap.\<close>

definition heap_ok :: "kernel_heap \<Rightarrow> bool" where
  "heap_ok h \<longleftrightarrow> table_ok h \<and> kh_virtual_start h \<noteq> 0 \<and> 0 < unat (kh_size h) \<and> tiles 0 (segs h) (unat (kh_size h)) \<and>
    successively apart (segs h) \<and> unat (kh_used h) = alloc_sizes (segs h) \<and>
    unat (kh_active_allocations h) = length (filter (\<lambda>s. \<not> seg_free s) (segs h))"

text \<open>The live allocations: offset and size.\<close>

definition live :: "kernel_heap \<Rightarrow> (nat \<times> nat) list" where
  "live h = map (\<lambda>s. (unat (seg_offset s), unat (seg_size s))) (filter (\<lambda>s. \<not> seg_free s) (segs h))"

section \<open>Allocation\<close>

lemma carve_ok:
  assumes t: "tiles a [s] b" and lo: "unat (seg_offset s) \<le> unat aoff" and sz: "0 < unat sz"
    and ends: "unat aend = unat aoff + unat sz" "unat send = unat (seg_offset s) + unat (seg_size s)" "aend \<le> send"
  shows "tiles a (carve s sz aoff aend send) b"
    and "successively apart (carve s sz aoff aend send)"
    and "filter (\<lambda>s. \<not> seg_free s) (carve s sz aoff aend send) = [\<lparr>seg_offset = aoff, seg_size = sz, seg_free = False\<rparr>]"
    and "carve s sz aoff aend send \<noteq> []" "length (carve s sz aoff aend send) \<le> 3"
    and "alloc_sizes (carve s sz aoff aend send) = unat sz"
proof -
  have sub: "unat (aoff - seg_offset s) = unat aoff - unat (seg_offset s)" "unat (send - aend) = unat send - unat aend"
    using lo ends(3) by (simp_all add: unat_sub word_le_nat_alt)
  have e: "unat aend \<le> unat send" using ends(3) by (simp add: word_le_nat_alt)
  have zero: "aoff - seg_offset s = 0 \<longleftrightarrow> unat aoff = unat (seg_offset s)" "send - aend = 0 \<longleftrightarrow> unat send = unat aend"
    using sub lo e by (auto simp: word_unat_eq_iff)
  show "tiles a (carve s sz aoff aend send) b"
    unfolding carve_def Let_def zero using t lo sz ends(1,2) e sub by (auto simp: tiles_append)
  show "successively apart (carve s sz aoff aend send)"
    by (auto simp: carve_def Let_def apart_def)
  show "filter (\<lambda>s. \<not> seg_free s) (carve s sz aoff aend send) = [\<lparr>seg_offset = aoff, seg_size = sz, seg_free = False\<rparr>]"
    by (simp add: carve_def Let_def)
  then show "alloc_sizes (carve s sz aoff aend send) = unat sz" by (simp add: alloc_sizes_def)
  show "carve s sz aoff aend send \<noteq> []" "length (carve s sz aoff aend send) \<le> 3"
    by (simp_all add: carve_def Let_def)
qed

lemma carve_ends:
  assumes "seg_free s"
  shows "apart t s \<Longrightarrow> apart t (hd (carve s sz aoff aend send))"
    "apart s t \<Longrightarrow> apart (last (carve s sz aoff aend send)) t"
  using assms by (auto simp: carve_def apart_def Let_def)

lemma heap_place_SomeD:
  assumes "heap_place h s sz align = Some (addr, aoff, aend, send)" "is_power_of_two align"
  shows "unat align dvd unat addr" "unat addr = unat (kh_virtual_start h) + unat aoff"
    "unat (seg_offset s) \<le> unat aoff" "unat aend = unat aoff + unat sz"
    "unat send = unat (seg_offset s) + unat (seg_size s)"
proof -
  obtain saddr up where c: "checked_add (kh_virtual_start h) (seg_offset s) = Some saddr"
    "checked_add saddr (align - 1) = Some up" "addr = up AND NOT (align - 1)"
    "checked_sub addr (kh_virtual_start h) = Some aoff" "checked_add aoff sz = Some aend"
    "checked_add (seg_offset s) (seg_size s) = Some send"
    using assms(1) by (auto simp: heap_place_def Let_def bind_eq_Some_conv)
  note al = align_up_power [OF assms(2) c(2)]
  show "unat align dvd unat addr" using al(1) c(3) by simp
  show p: "unat addr = unat (kh_virtual_start h) + unat aoff"
    using checked_sub_SomeD [OF c(4)] by (simp add: word_le_nat_alt)
  show "unat (seg_offset s) \<le> unat aoff"
    using al(2) c(3) p checked_add_SomeD [OF c(1)] by simp
  show "unat aend = unat aoff + unat sz" "unat send = unat (seg_offset s) + unat (seg_size s)"
    using c(5,6) by (simp_all add: checked_add_SomeD)
qed

text \<open>Replacing a free segment by its parts, in the whole table.\<close>

lemma replace_free:
  assumes ok: "heap_ok h" and xs: "segs h = p @ s # q" and s: "seg_free s"
    and pl: "heap_place h s sz align = Some (addr, aoff, aend, send)" "is_power_of_two align" "0 < unat sz"
      "\<not> send < aend"
    and h': "table_ok h'" "segs h' = p @ carve s sz aoff aend send @ q" "same_rest h h'"
    and h'': "h'' = h'\<lparr>kh_used := kh_used h' + sz, kh_peak_used := pk,
        kh_active_allocations := kh_active_allocations h' + 1, kh_total_allocations := tot\<rparr>"
  shows "heap_ok h''" "set (live h'') = insert (unat aoff, unat sz) (set (live h))"
    "length (live h'') = Suc (length (live h))" "kh_virtual_start h'' = kh_virtual_start h"
    "kh_size h'' = kh_size h"
proof -
  let ?c = "carve s sz aoff aend send" and ?n = "unat (kh_size h)"
  note d = heap_place_SomeD [OF pl(1,2)]
  obtain b1 b2 where t: "tiles 0 p b1" "tiles b1 [s] b2" "tiles b2 q ?n"
    using ok xs tiles_append [of 0 p "s # q" ?n] tiles_append [of _ "[s]" q ?n] by (auto simp: heap_ok_def)
  note c = carve_ok [OF t(2) d(3) pl(3) d(4,5)]
  have le: "aend \<le> send" using pl(4) by simp
  note c = c [OF le]
  have seg'': "segs h'' = p @ ?c @ q" "table_ok h''" using h' h'' by (simp_all add: segs_def table_ok_def)
  note f = same_rest_fields [OF h'(3)]
  have k: "kh_used h'' = kh_used h + sz" "kh_active_allocations h'' = kh_active_allocations h + 1"
    "kh_size h'' = kh_size h" "kh_virtual_start h'' = kh_virtual_start h" using f h'' by simp_all
  have tile: "tiles 0 (p @ ?c @ q) ?n" using t c(1) by (auto simp: tiles_append)
  have suc: "successively apart (p @ ?c @ q)"
    using ok xs c(2,4) carve_ends [OF s]
    by (auto simp: heap_ok_def successively_append_iff successively_Cons)
  have used: "alloc_sizes (p @ ?c @ q) = alloc_sizes (segs h) + unat sz"
    using c(6) s by (simp add: xs) (simp add: alloc_sizes_def)
  have "unat (kh_used h + sz) = unat (kh_used h) + unat sz"
    using alloc_sizes_le [OF tile] used ok unat_bound [of "kh_size h"]
    by (intro unat_add_fits) (simp add: heap_ok_def)
  then have used'': "unat (kh_used h'') = alloc_sizes (segs h'')"
    using used ok unfolding k seg'' by (simp add: heap_ok_def)
  have act: "length (filter (\<lambda>s. \<not> seg_free s) (segs h'')) = Suc (length (filter (\<lambda>s. \<not> seg_free s) (segs h)))"
    using c(3) s by (simp add: seg'' xs)
  have small: "length (filter (\<lambda>s. \<not> seg_free s) (segs h)) \<le> 128"
    using ok length_filter_le [of "\<lambda>s. \<not> seg_free s" "segs h"] by (simp add: heap_ok_def table_ok_def segs_def MAX_SEGMENTS_def)
  have "unat (kh_active_allocations h + 1) = unat (kh_active_allocations h) + 1"
    using small ok by (subst unat_add_fits) (auto simp: heap_ok_def)
  then have act'': "unat (kh_active_allocations h'') = length (filter (\<lambda>s. \<not> seg_free s) (segs h''))"
    using act ok unfolding k by (simp add: heap_ok_def)
  show "heap_ok h''"
    using tile suc used'' act'' seg'' ok unfolding heap_ok_def k by simp
  show "set (live h'') = insert (unat aoff, unat sz) (set (live h))"
    using c(3) s by (auto simp: live_def seg'' xs)
  show "length (live h'') = Suc (length (live h))"
    using act by (simp add: live_def)
  show "kh_virtual_start h'' = kh_virtual_start h" by (rule k(4))
  show "kh_size h'' = kh_size h" by (rule k(3))
qed

text \<open>What an allocation does: nothing, or one more live block at the returned address.\<close>

definition alloc_step :: "u64 \<Rightarrow> u64 \<Rightarrow> kernel_heap \<Rightarrow> u64 option \<times> kernel_heap \<Rightarrow> bool" where
  "alloc_step sz align h r \<longleftrightarrow>
    (case fst r of
       None \<Rightarrow> snd r = h
     | Some p \<Rightarrow> heap_ok (snd r) \<and> unat align dvd unat p \<and> kh_virtual_start (snd r) = kh_virtual_start h \<and>
         kh_size (snd r) = kh_size h \<and> unat (kh_virtual_start h) \<le> unat p \<and> length (live (snd r)) = Suc (length (live h)) \<and>
         set (live (snd r)) = insert (unat p - unat (kh_virtual_start h), unat sz) (set (live h)))"

lemma heap_scan_step:
  assumes ok: "heap_ok h" and al: "is_power_of_two align" and sz: "0 < unat sz"
  shows "\<forall>i \<in> set is. i < length (segs h) \<Longrightarrow> alloc_step sz align h (heap_scan sz align is h)"
proof (induction "is")
  case Nil
  then show ?case by (simp add: alloc_step_def)
next
  case (Cons i js)
  have i: "i < length (segs h)" using Cons.prems by simp
  let ?s = "kh_segments h ! i"
  have IH: "alloc_step sz align h (heap_scan sz align js h)" using Cons by simp
  have tok: "table_ok h" using ok by (simp add: heap_ok_def)
  have s: "segs h ! i = ?s" using i by (simp add: segs_def)
  obtain p q where pq: "segs h = p @ ?s # q" "length p = i"
    using id_take_nth_drop [OF i] i s by (metis length_take min.absorb2 less_imp_le)
  consider (full) "\<not> seg_free ?s" | (stuck) "seg_free ?s" "heap_place h ?s sz align = None"
    | (place) addr aoff aend send where "seg_free ?s" "heap_place h ?s sz align = Some (addr, aoff, aend, send)"
    by (metis not_Some_eq prod_cases4)
  then show ?case
  proof cases
    case full
    then show ?thesis using IH by (simp add: Let_def)
  next
    case stuck
    then show ?thesis by (simp add: alloc_step_def Let_def)
  next
    case pl: place
    note d = heap_place_SomeD [OF pl(2) al]
    let ?c = "carve ?s sz aoff aend send"
    show ?thesis
    proof (cases "send < aend")
      case True
      then show ?thesis using pl IH by (simp add: Let_def)
    next
      case fits: False
      have ne: "?c \<noteq> []" by (simp add: carve_def Let_def)
      from replace_segment_list [OF tok pq(1) ne] pq(2)
      consider "replace_segment i ?c h = (False, h)"
        | h' where "replace_segment i ?c h = (True, h')" "table_ok h'" "segs h' = p @ ?c @ q" "same_rest h h'"
        by (auto split: if_splits)
      then show ?thesis
      proof cases
        case 1
        then show ?thesis using pl fits by (simp add: alloc_step_def Let_def)
      next
        case (2 h')
        let ?h = "h'\<lparr>kh_used := kh_used h' + sz, kh_peak_used := max (kh_peak_used h') (kh_used h' + sz),
            kh_active_allocations := kh_active_allocations h' + 1, kh_total_allocations := kh_total_allocations h' + 1\<rparr>"
        note r = replace_free [OF ok pq(1) pl al sz fits 2(2-4) refl]
        have "addr \<noteq> 0" using d(2) ok by (auto simp: heap_ok_def unat_eq_0)
        then have "heap_scan sz align (i # js) h = (Some addr, ?h)" using pl fits 2(1) by (simp add: Let_def)
        then show ?thesis using r d(1,2) by (simp add: alloc_step_def)
      qed
    qed
  qed
qed

lemma heap_allocate_step:
  assumes "heap_ok h"
  shows "alloc_step sz align h (heap_allocate sz align h)"
proof (cases "sz = 0 \<or> \<not> is_power_of_two align")
  case True
  then show ?thesis by (simp add: heap_allocate_def alloc_step_def)
next
  case False
  then have "0 < unat sz" by (simp add: unat_gt_0)
  with False assms show ?thesis
    by (auto simp: heap_allocate_def segs_def heap_ok_def table_ok_def intro!: heap_scan_step [OF assms])
qed

section \<open>Release\<close>

lemma segs_update:
  assumes "table_ok h" "segs h = p @ s # q"
  shows "table_ok (h\<lparr>kh_segments := (kh_segments h)[length p := s']\<rparr>)"
    "segs (h\<lparr>kh_segments := (kh_segments h)[length p := s']\<rparr>) = p @ s' # q"
  using assms by (simp_all add: table_ok_def segs_def take_update_swap)

definition grown :: "segment \<Rightarrow> segment \<Rightarrow> segment" where
  "grown s t = s\<lparr>seg_size := seg_size s + seg_size t\<rparr>"

lemma merge_left_list:
  assumes ok: "table_ok h" and xs: "segs h = p @ s # q"
  shows "p = [] \<or> \<not> seg_free (last p) \<Longrightarrow> merge_left (length p) h = (length p, h)"
    and "p = p' @ [l] \<Longrightarrow> seg_free l \<Longrightarrow> \<exists>h'. merge_left (length p) h = (length p', h') \<and> table_ok h' \<and>
      segs h' = p' @ grown l s # q \<and> same_rest h h'"
proof -
  note sp = segs_split [OF ok xs]
  have last: "kh_segments h ! (length p - 1) = last p" if "p \<noteq> []"
    by (subst sp(1)) (use that in \<open>simp add: nth_append last_conv_nth\<close>)
  show "merge_left (length p) h = (length p, h)" if "p = [] \<or> \<not> seg_free (last p)"
    using that last by (auto simp: merge_left_def)
  assume p: "p = p' @ [l]" and l: "seg_free l"
  let ?h = "h\<lparr>kh_segments := (kh_segments h)[length p' := grown l s]\<rparr>"
  have xs': "segs h = p' @ l # s # q" using xs p by simp
  note up = segs_update [OF ok xs', of "grown l s"]
  have up2: "segs ?h = (p' @ [grown l s]) @ s # q" using up(2) by simp
  note rm = remove_segment_list [OF up(1) up2]
  have "merge_left (length p) h = (length p', remove_segment (length (p' @ [grown l s])) ?h)"
    using last sp(3) p l by (simp add: merge_left_def grown_def)
  moreover have "same_rest h (remove_segment (length (p' @ [grown l s])) ?h)"
    using rm(3) by (simp add: same_rest_def)
  ultimately show "\<exists>h'. merge_left (length p) h = (length p', h') \<and> table_ok h' \<and>
      segs h' = p' @ grown l s # q \<and> same_rest h h'"
    using rm(1,2) by auto
qed

lemma merge_right_list:
  assumes ok: "table_ok h" and xs: "segs h = p @ s # q"
  shows "q = [] \<or> \<not> seg_free (hd q) \<Longrightarrow> merge_right (length p) h = h"
    and "q = r # q' \<Longrightarrow> seg_free r \<Longrightarrow> table_ok (merge_right (length p) h) \<and>
      segs (merge_right (length p) h) = p @ grown s r # q' \<and> same_rest h (merge_right (length p) h)"
proof -
  note sp = segs_split [OF ok xs]
  have nxt: "kh_segments h ! (length p + 1) = hd q" if "q \<noteq> []"
    by (subst sp(1)) (use that in \<open>cases q; simp add: nth_append\<close>)
  have more: "length p + 1 < kh_segment_count h \<longleftrightarrow> q \<noteq> []" using sp(2) by auto
  show "merge_right (length p) h = h" if "q = [] \<or> \<not> seg_free (hd q)"
    using that nxt more by (auto simp: merge_right_def)
  assume q: "q = r # q'" and r: "seg_free r"
  let ?h = "h\<lparr>kh_segments := (kh_segments h)[length p := grown s r]\<rparr>"
  note up = segs_update [OF ok xs, of "grown s r"]
  have up2: "segs ?h = (p @ [grown s r]) @ r # q'" using up(2) q by simp
  note rm = remove_segment_list [OF up(1) up2]
  have "merge_right (length p) h = remove_segment (length (p @ [grown s r])) ?h"
    using nxt more sp(3) q r by (simp add: merge_right_def grown_def)
  moreover have "same_rest h (remove_segment (length (p @ [grown s r])) ?h)"
    using rm(3) by (simp add: same_rest_def)
  ultimately show "table_ok (merge_right (length p) h) \<and>
      segs (merge_right (length p) h) = p @ grown s r # q' \<and> same_rest h (merge_right (length p) h)"
    using rm(1,2) by auto
qed

lemma tiles_grown:
  assumes "tiles a (l # s # xs) b" "b < 2 ^ 64"
  shows "tiles a (grown l s # xs) b"
proof -
  have "a + unat (seg_size l) + unat (seg_size s) \<le> b" using assms(1) tiles_le by auto
  then have "unat (seg_size l + seg_size s) = unat (seg_size l) + unat (seg_size s)"
    using assms(2) by (intro unat_add_fits) simp
  with assms(1) show ?thesis by (simp add: grown_def add.assoc)
qed

lemma tiles_grown_mid:
  assumes "tiles a (p @ l # s # xs) b" "b < 2 ^ 64"
  shows "tiles a (p @ grown l s # xs) b"
  using assms tiles_grown unfolding tiles_append by blast

lemma grown_free [simp]: "seg_free (grown s t) = seg_free s"
  by (simp add: grown_def)

text \<open>A released segment: free, inside a tiling, with any neighbours.\<close>

definition released :: "kernel_heap \<Rightarrow> segment list \<Rightarrow> segment \<Rightarrow> segment list \<Rightarrow> nat \<Rightarrow> bool" where
  "released h p s q n \<longleftrightarrow> table_ok h \<and> segs h = p @ s # q \<and> seg_free s \<and> tiles 0 (p @ s # q) n \<and>
    successively apart p \<and> successively apart q"

lemma merge_left_released:
  assumes r: "released h p s q n" and n: "n < 2 ^ 64"
  shows "\<exists>p1 s1 h1. merge_left (length p) h = (length p1, h1) \<and> released h1 p1 s1 q n \<and> same_rest h h1 \<and>
    (p1 = [] \<or> \<not> seg_free (last p1)) \<and> filter (\<lambda>s. \<not> seg_free s) p1 = filter (\<lambda>s. \<not> seg_free s) p"
proof -
  have h: "table_ok h" "segs h = p @ s # q" using r by (simp_all add: released_def)
  show ?thesis
  proof (cases "p = [] \<or> \<not> seg_free (last p)")
    case True
    from merge_left_list(1) [OF h True] r True show ?thesis by (auto simp: same_rest_def)
  next
    case False
    then obtain p' l where p: "p = p' @ [l]" "seg_free l" by (cases p rule: rev_cases) auto
    obtain h1 where m: "merge_left (length p) h = (length p', h1)" "table_ok h1" "segs h1 = p' @ grown l s # q"
      "same_rest h h1" using merge_left_list(2) [OF h p] by blast
    have "tiles 0 (p' @ grown l s # q) n" using r p n by (intro tiles_grown_mid) (simp_all add: released_def)
    moreover have "successively apart p'" "p' = [] \<or> \<not> seg_free (last p')"
      using r p by (auto simp: released_def successively_append_iff apart_def)
    ultimately have "released h1 p' (grown l s) q n" using m p r by (simp add: released_def)
    with m p \<open>p' = [] \<or> \<not> seg_free (last p')\<close> show ?thesis by auto
  qed
qed

lemma merge_right_released:
  assumes r: "released h p s q n" and n: "n < 2 ^ 64" and p: "p = [] \<or> \<not> seg_free (last p)"
  shows "table_ok (merge_right (length p) h) \<and> tiles 0 (segs (merge_right (length p) h)) n \<and>
    successively apart (segs (merge_right (length p) h)) \<and> same_rest h (merge_right (length p) h) \<and>
    filter (\<lambda>s. \<not> seg_free s) (segs (merge_right (length p) h))
      = filter (\<lambda>s. \<not> seg_free s) p @ filter (\<lambda>s. \<not> seg_free s) q"
proof -
  have h: "table_ok h" "segs h = p @ s # q" using r by (simp_all add: released_def)
  have left: "successively apart (p @ [t])" for t
    using r p by (auto simp: released_def successively_append_iff apart_def)
  show ?thesis
  proof (cases "q = [] \<or> \<not> seg_free (hd q)")
    case True
    have "successively apart (p @ s # q)"
      using left [of s] r True by (cases q) (auto simp: released_def successively_append_iff apart_def)
    with merge_right_list(1) [OF h True] r show ?thesis by (simp add: released_def same_rest_def)
  next
    case False
    then obtain t q' where q: "q = t # q'" "seg_free t" by (cases q) auto
    have m: "table_ok (merge_right (length p) h)" "segs (merge_right (length p) h) = p @ grown s t # q'"
      "same_rest h (merge_right (length p) h)" using merge_right_list(2) [OF h q] by simp_all
    have "tiles 0 (p @ grown s t # q') n" using r q n by (intro tiles_grown_mid) (simp_all add: released_def)
    moreover have "successively apart (p @ grown s t # q')"
      using left [of "grown s t"] r q by (cases q') (auto simp: released_def successively_append_iff apart_def)
    ultimately show ?thesis using m r q by (simp add: released_def)
  qed
qed

lemma tiles_offset_unique:
  assumes "tiles a (p @ s # q) b" "t \<in> set p \<or> t \<in> set q"
  shows "unat (seg_offset t) \<noteq> unat (seg_offset s)"
proof -
  obtain c where c: "tiles a p c" "unat (seg_offset s) = c" "0 < unat (seg_size s)"
    "tiles (c + unat (seg_size s)) q b" using assms(1) by (auto simp: tiles_append)
  have "0 < unat (seg_size t)" using assms tiles_pos by fastforce
  with assms(2) c tiles_bounds [OF c(1), of t] tiles_bounds [OF c(4), of t] show ?thesis by auto
qed

definition free_step :: "u64 \<Rightarrow> kernel_heap \<Rightarrow> bool \<times> kernel_heap \<Rightarrow> bool" where
  "free_step addr h r \<longleftrightarrow>
    (if kh_virtual_start h \<le> addr \<and> unat addr - unat (kh_virtual_start h) \<in> fst ` set (live h)
     then fst r \<and> heap_ok (snd r) \<and> kh_virtual_start (snd r) = kh_virtual_start h \<and>
       kh_size (snd r) = kh_size h \<and> length (live h) = Suc (length (live (snd r))) \<and>
       set (live (snd r)) = {x \<in> set (live h). fst x \<noteq> unat addr - unat (kh_virtual_start h)}
     else r = (False, h))"

lemma heap_deallocate_step:
  assumes ok: "heap_ok h"
  shows "free_step addr h (heap_deallocate addr h)"
proof (cases "checked_sub addr (kh_virtual_start h)")
  case None
  then show ?thesis by (auto simp: free_step_def heap_deallocate_def checked_sub_def split: if_splits)
next
  case (Some off)
  then have off: "kh_virtual_start h \<le> addr" "unat off = unat addr - unat (kh_virtual_start h)"
    by (auto dest: checked_sub_SomeD)
  let ?P = "\<lambda>s. \<not> seg_free s \<and> seg_offset s = off"
  have known: "unat off \<in> fst ` set (live h) \<longleftrightarrow> (\<exists>s \<in> set (segs h). ?P s)"
    by (auto simp: live_def image_iff word_unat_eq_iff)
  show ?thesis
  proof (cases "position ?P (segs h)")
    case None
    then have "unat off \<notin> fst ` set (live h)" unfolding known by (auto simp: position_None_iff)
    then show ?thesis using Some None off by (simp add: free_step_def heap_deallocate_def segs_def)
  next
    case pos: (Some i)
    then have i: "i < length (segs h)" "\<not> seg_free (segs h ! i)" "seg_offset (segs h ! i) = off"
      by (auto dest: position_SomeD)
    let ?s = "kh_segments h ! i" and ?n = "unat (kh_size h)"
    have tok: "table_ok h" using ok by (simp add: heap_ok_def)
    have s: "segs h ! i = ?s" using i(1) by (simp add: segs_def)
    obtain p q where pq: "segs h = p @ ?s # q" "length p = i"
      using id_take_nth_drop [OF i(1)] i(1) s by (metis length_take min.absorb2 less_imp_le)
    let ?s1 = "?s\<lparr>seg_free := True\<rparr>"
    let ?h1 = "h\<lparr>kh_segments := (kh_segments h)[i := ?s1], kh_used := kh_used h - seg_size ?s,
        kh_active_allocations := kh_active_allocations h - 1, kh_deallocations := kh_deallocations h + 1\<rparr>"
    have n: "?n < 2 ^ 64" using unat_bound [of "kh_size h"] by simp
    have tile: "tiles 0 (p @ ?s # q) ?n" using ok pq(1) by (simp add: heap_ok_def)
    have "segs ?h1 = p @ ?s1 # q" "table_ok ?h1"
      using segs_update [OF tok pq(1), of ?s1] pq(2) by (simp_all add: segs_def table_ok_def)
    moreover have "tiles 0 (p @ ?s1 # q) ?n" using tile by (simp add: tiles_append)
    moreover have "successively apart p" "successively apart q"
      using ok pq(1) by (auto simp: heap_ok_def successively_append_iff successively_Cons)
    ultimately have rel: "released ?h1 p ?s1 q ?n" by (simp add: released_def)
    obtain p1 s1 h2 where l: "merge_left (length p) ?h1 = (length p1, h2)" "released h2 p1 s1 q ?n" "same_rest ?h1 h2"
      "p1 = [] \<or> \<not> seg_free (last p1)" "filter (\<lambda>s. \<not> seg_free s) p1 = filter (\<lambda>s. \<not> seg_free s) p"
      using merge_left_released [OF rel n] by blast
    let ?h3 = "merge_right (length p1) h2"
    have r: "table_ok ?h3" "tiles 0 (segs ?h3) ?n" "successively apart (segs ?h3)" "same_rest h2 ?h3"
      "filter (\<lambda>s. \<not> seg_free s) (segs ?h3) = filter (\<lambda>s. \<not> seg_free s) p @ filter (\<lambda>s. \<not> seg_free s) q"
      using merge_right_released [OF l(2) n l(4)] l(5) by simp_all
    have run: "heap_deallocate addr h = (True, ?h3)"
      using Some pos l(1) pq(2) by (simp add: heap_deallocate_def segs_def Let_def)
    note f = same_rest_fields [OF l(3)] same_rest_fields [OF r(4)]
    have old: "filter (\<lambda>s. \<not> seg_free s) (segs h) = filter (\<lambda>s. \<not> seg_free s) p @ ?s # filter (\<lambda>s. \<not> seg_free s) q"
      using i(2) s by (simp add: pq(1))
    have used: "unat (kh_used h) = alloc_sizes (segs ?h3) + unat (seg_size ?s)"
      using ok old by (simp add: heap_ok_def alloc_sizes_def r(5))
    have act: "unat (kh_active_allocations h) = Suc (length (filter (\<lambda>s. \<not> seg_free s) (segs ?h3)))"
      using ok old by (simp add: heap_ok_def r(5))
    have "unat (kh_used h - seg_size ?s) = alloc_sizes (segs ?h3)"
      using used by (simp add: unat_sub word_le_nat_alt)
    moreover have "unat (kh_active_allocations h - 1) = length (filter (\<lambda>s. \<not> seg_free s) (segs ?h3))"
      using act by (simp add: unat_sub word_le_nat_alt)
    ultimately have "heap_ok ?h3" using r(1-3) ok f by (simp add: heap_ok_def)
    moreover have "length (live h) = Suc (length (live ?h3))" by (simp add: live_def r(5) old)
    moreover have "set (live ?h3) = {x \<in> set (live h). fst x \<noteq> unat off}"
    proof -
      have so: "unat (seg_offset ?s) = unat off" using i(3) s by simp
      have "unat (seg_offset t) \<noteq> unat off" if "t \<in> set p \<or> t \<in> set q" for t
        using tiles_offset_unique [OF tile that] so by simp
      then show ?thesis using so by (auto simp: live_def r(5) old)
    qed
    moreover have "unat off \<in> fst ` set (live h)" using i(3) s by (auto simp: live_def old image_iff)
    ultimately show ?thesis using run off f by (simp add: free_step_def)
  qed
qed

section \<open>Sequences of requests\<close>

lemma tiles_sorted:
  "tiles a xs b \<Longrightarrow> sorted_wrt (\<lambda>s t. unat (seg_offset s) + unat (seg_size s) \<le> unat (seg_offset t)) xs"
proof (induction xs arbitrary: a)
  case (Cons s xs)
  then have "tiles (a + unat (seg_size s)) xs b" by simp
  with Cons tiles_bounds [OF this] show ?case by auto
qed simp

lemma live_sorted:
  assumes "heap_ok h"
  shows "sorted_wrt (\<lambda>x y. fst x + snd x \<le> fst y) (live h)"
    and "x \<in> set (live h) \<Longrightarrow> 0 < snd x \<and> fst x + snd x \<le> unat (kh_size h)"
    and "distinct (map fst (live h))" "distinct (live h)"
    and "unat (kh_used h) = sum_list (map snd (live h))" "unat (kh_active_allocations h) = length (live h)"
proof -
  have t: "tiles 0 (segs h) (unat (kh_size h))" using assms by (simp add: heap_ok_def)
  show sorted: "sorted_wrt (\<lambda>x y. fst x + snd x \<le> fst y) (live h)"
    unfolding live_def sorted_wrt_map using tiles_sorted [OF t] by (simp add: sorted_wrt_filter)
  show pos: "0 < snd x \<and> fst x + snd x \<le> unat (kh_size h)" if "x \<in> set (live h)" for x
    using that tiles_bounds [OF t] tiles_pos [OF t] by (auto simp: live_def)
  have "distinct (map fst xs)" if "sorted_wrt (\<lambda>x y. fst x + snd x \<le> fst y) xs" "\<forall>x \<in> set xs. 0 < snd x"
    for xs :: "(nat \<times> nat) list"
    using that by (induction xs) fastforce+
  with sorted pos show d: "distinct (map fst (live h))" by blast
  then show "distinct (live h)" by (simp add: distinct_map)
  show "unat (kh_used h) = sum_list (map snd (live h))"
    using assms by (simp add: heap_ok_def alloc_sizes_def live_def comp_def)
  show "unat (kh_active_allocations h) = length (live h)" using assms by (simp add: heap_ok_def live_def)
qed

text \<open>
  A client's view: the set of blocks (address, size, alignment) it was handed and has not given
  back, updated from the results of the calls alone.
\<close>

datatype heap_op = HAlloc u64 u64 | HFree u64

fun heap_exec :: "heap_op \<Rightarrow> kernel_heap \<times> (nat \<times> nat \<times> nat) set \<Rightarrow> kernel_heap \<times> (nat \<times> nat \<times> nat) set" where
  "heap_exec (HAlloc sz align) (h, B) =
    (case heap_allocate sz align h of
       (None, h') \<Rightarrow> (h', B)
     | (Some p, h') \<Rightarrow> (h', insert (unat p, unat sz, unat align) B))"
| "heap_exec (HFree p) (h, B) =
    (case heap_deallocate p h of
       (False, h') \<Rightarrow> (h', B)
     | (True, h') \<Rightarrow> (h', {x \<in> B. fst x \<noteq> unat p}))"

definition client_ok :: "kernel_heap \<times> (nat \<times> nat \<times> nat) set \<Rightarrow> bool" where
  "client_ok hB \<longleftrightarrow> (case hB of (h, B) \<Rightarrow> heap_ok h \<and> inj_on fst B \<and>
     (\<lambda>x. (fst x - unat (kh_virtual_start h), fst (snd x))) ` B = set (live h) \<and>
     (\<forall>x \<in> B. unat (kh_virtual_start h) \<le> fst x \<and> snd (snd x) dvd fst x))"

lemma client_alloc:
  assumes ok: "client_ok (h, B)" and a: "heap_allocate sz align h = (Some p, h')"
  shows "client_ok (h', insert (unat p, unat sz, unat align) B)"
proof -
  let ?v = "unat (kh_virtual_start h)"
  let ?f = "\<lambda>x :: nat \<times> nat \<times> nat. (fst x - ?v, fst (snd x))"
  have B: "heap_ok h" "inj_on fst B" "?f ` B = set (live h)" "\<forall>x \<in> B. ?v \<le> fst x \<and> snd (snd x) dvd fst x"
    using ok by (simp_all add: client_ok_def)
  have s: "heap_ok h'" "unat align dvd unat p" "kh_virtual_start h' = kh_virtual_start h" "?v \<le> unat p"
    "length (live h') = Suc (length (live h))" "set (live h') = insert (unat p - ?v, unat sz) (set (live h))"
    using heap_allocate_step [OF B(1), of sz align] a by (simp_all add: alloc_step_def)
  have "card (fst ` set (live h')) = length (live h')" "card (fst ` set (live h)) = length (live h)"
    using live_sorted(3) [OF s(1)] live_sorted(3) [OF B(1)] distinct_card by fastforce+
  then have new: "unat p - ?v \<notin> fst ` set (live h)"
    using s(5,6) by (metis (no_types) card_insert_if finite_imageI finite_set fst_conv image_insert n_not_Suc_n)
  have "unat p \<notin> fst ` B"
  proof
    assume "unat p \<in> fst ` B"
    then obtain x where "x \<in> B" "fst x = unat p" by auto
    then have "?f x \<in> set (live h)" using B(3) by blast
    then have "fst (?f x) \<in> fst ` set (live h)" by (rule imageI)
    then show False using new \<open>fst x = unat p\<close> by simp
  qed
  then have "inj_on fst (insert (unat p, unat sz, unat align) B)" using B(2) by (simp add: inj_on_insert) blast
  then show ?thesis using s B by (simp add: client_ok_def)
qed

lemma client_free:
  assumes ok: "client_ok (h, B)" and a: "heap_deallocate p h = (True, h')"
  shows "client_ok (h', {x \<in> B. fst x \<noteq> unat p})"
proof -
  let ?v = "unat (kh_virtual_start h)"
  let ?f = "\<lambda>x :: nat \<times> nat \<times> nat. (fst x - ?v, fst (snd x))"
  have B: "heap_ok h" "inj_on fst B" "?f ` B = set (live h)" "\<forall>x \<in> B. ?v \<le> fst x \<and> snd (snd x) dvd fst x"
    using ok by (simp_all add: client_ok_def)
  have s: "heap_ok h'" "kh_virtual_start h' = kh_virtual_start h" "?v \<le> unat p"
    "set (live h') = {x \<in> set (live h). fst x \<noteq> unat p - ?v}"
    using heap_deallocate_step [OF B(1), of p] a by (auto simp: free_step_def word_le_nat_alt split: if_splits)
  have "?f ` {x \<in> B. fst x \<noteq> unat p} = {y \<in> ?f ` B. fst y \<noteq> unat p - ?v}" using B(4) s(3) by fastforce
  moreover have "inj_on fst {x \<in> B. fst x \<noteq> unat p}" using B(2) by (rule inj_on_subset) auto
  ultimately show ?thesis using s B by (simp add: client_ok_def)
qed

lemma client_exec: "client_ok hB \<Longrightarrow> client_ok (heap_exec op hB)"
proof -
  assume ok: "client_ok hB"
  obtain h B where hB: "hB = (h, B)" by (cases hB)
  have h: "heap_ok h" using ok by (simp add: client_ok_def hB)
  show "client_ok (heap_exec op hB)"
  proof (cases op)
    case (HAlloc sz align)
    then show ?thesis using ok client_alloc [of h B] heap_allocate_step [OF h, of sz align]
      by (auto simp: hB alloc_step_def split: prod.splits option.splits)
  next
    case (HFree p)
    then show ?thesis using ok client_free [of h B] heap_deallocate_step [OF h, of p]
      by (auto simp: hB free_step_def split: prod.splits bool.splits if_splits)
  qed
qed

lemma client_run: "client_ok hB \<Longrightarrow> client_ok (fold heap_exec ops hB)"
  by (induction ops arbitrary: hB) (simp_all add: client_exec)

lemma heap_initialize_client:
  assumes "heap_initialize hhdm a = (Some h, a')" "kh_virtual_start h \<noteq> 0"
  shows "client_ok (h, {})" "kh_size h = 16777216"
proof -
  have h: "kh_size h = 16777216" "kh_segment_count h = 1" "kh_used h = 0" "kh_active_allocations h = 0"
    "kh_segments h = (replicate 128 SEGMENT_EMPTY)[0 := \<lparr>seg_offset = 0, seg_size = 16777216, seg_free = True\<rparr>]"
    using assms(1) by (auto simp: heap_initialize_def HEAP_PAGES_def FRAME_SIZE_def MAX_SEGMENTS_def split: prod.splits option.splits)
  have "segs h = [\<lparr>seg_offset = 0, seg_size = 16777216, seg_free = True\<rparr>]"
    by (simp add: segs_def h numeral_eq_Suc)
  then show "client_ok (h, {})"
    using assms(2) h by (simp add: client_ok_def heap_ok_def table_ok_def live_def MAX_SEGMENTS_def alloc_sizes_def)
  show "kh_size h = 16777216" by (rule h(1))
qed

lemma exec_frame:
  assumes "client_ok hB"
  shows "kh_virtual_start (fst (heap_exec op hB)) = kh_virtual_start (fst hB) \<and>
    kh_size (fst (heap_exec op hB)) = kh_size (fst hB)"
proof -
  obtain h B where hB: "hB = (h, B)" by (cases hB)
  have h: "heap_ok h" using assms by (simp add: client_ok_def hB)
  show ?thesis
  proof (cases op)
    case (HAlloc sz align)
    then show ?thesis using heap_allocate_step [OF h, of sz align]
      by (auto simp: hB alloc_step_def split: prod.splits option.splits)
  next
    case (HFree p)
    then show ?thesis using heap_deallocate_step [OF h, of p]
      by (auto simp: hB free_step_def split: prod.splits bool.splits if_splits)
  qed
qed

lemma run_frame:
  "client_ok hB \<Longrightarrow> kh_virtual_start (fst (fold heap_exec ops hB)) = kh_virtual_start (fst hB) \<and>
    kh_size (fst (fold heap_exec ops hB)) = kh_size (fst hB)"
  by (induction ops arbitrary: hB) (simp_all add: client_exec exec_frame)

section \<open>The properties\<close>

text \<open>C4. The heap is sound for its clients: after any sequence of allocations and releases, valid or
  not, on the heap that \<open>initialize\<close> sets up, the blocks a client was handed and has not given back
  lie inside the 16 MiB of the heap, have the requested alignment, never overlap, and the counters
  \<open>used\<close> and \<open>active_allocations\<close> are exactly their total size and number.\<close>

theorem heap_blocks_sound:
  assumes init: "heap_initialize hhdm a = (Some h0, a')" "kh_virtual_start h0 \<noteq> 0"
    and run: "fold heap_exec ops (h0, {}) = (h, B)"
  shows "(\<forall>(p, n, align) \<in> B. 0 < n \<and> align dvd p \<and>
      unat (kh_virtual_start h0) \<le> p \<and> p + n \<le> unat (kh_virtual_start h0) + 16777216) \<and>
    (\<forall>x \<in> B. \<forall>y \<in> B. x \<noteq> y \<longrightarrow> fst x + fst (snd x) \<le> fst y \<or> fst y + fst (snd y) \<le> fst x) \<and>
    unat (kh_used h) = (\<Sum>(p, n, align) \<in> B. n) \<and> unat (kh_active_allocations h) = card B"
proof -
  note ini = heap_initialize_client [OF init]
  let ?v = "unat (kh_virtual_start h0)"
  let ?f = "\<lambda>x :: nat \<times> nat \<times> nat. (fst x - ?v, fst (snd x))"
  have c: "client_ok (h, B)" using client_run [OF ini(1), of ops] run by simp
  have v: "kh_virtual_start h = kh_virtual_start h0" "kh_size h = 16777216"
    using run_frame [OF ini(1), of ops] run ini(2) by simp_all
  have B: "heap_ok h" "inj_on fst B" "?f ` B = set (live h)" "\<forall>x \<in> B. ?v \<le> fst x \<and> snd (snd x) dvd fst x"
    using c v by (simp_all add: client_ok_def)
  note l = live_sorted [OF B(1)]
  have inj: "inj_on ?f B"
  proof (rule inj_onI)
    fix x y assume "x \<in> B" "y \<in> B" "?f x = ?f y"
    then have "fst x = fst y" using B(4) by (simp add: eq_diff_iff)
    with \<open>x \<in> B\<close> \<open>y \<in> B\<close> B(2) show "x = y" by (simp add: inj_on_def)
  qed
  have mem: "?f x \<in> set (live h)" if "x \<in> B" for x using B(3) that by blast
  have in_heap: "0 < fst (snd x) \<and> fst x + fst (snd x) \<le> ?v + 16777216" if "x \<in> B" for x
    using l(2) [OF mem [OF that]] B(4) that v by auto
  have apart: "fst x + fst (snd x) \<le> fst y \<or> fst y + fst (snd y) \<le> fst x"
    if xy: "x \<in> B" "y \<in> B" "x \<noteq> y" for x y
  proof -
    have ne: "?f x \<noteq> ?f y" using inj xy unfolding inj_on_def by blast
    obtain i where i: "i < length (live h)" "live h ! i = ?f x" using mem [OF xy(1)] unfolding in_set_conv_nth by blast
    obtain j where j: "j < length (live h)" "live h ! j = ?f y" using mem [OF xy(2)] unfolding in_set_conv_nth by blast
    have "i < j \<or> j < i" using ne i(2) j(2) by (cases i j rule: linorder_cases) auto
    then have "fst (?f x) + snd (?f x) \<le> fst (?f y) \<or> fst (?f y) + snd (?f y) \<le> fst (?f x)"
    proof
      assume "i < j"
      then show ?thesis using l(1) i j unfolding sorted_wrt_iff_nth_less by fastforce
    next
      assume "j < i"
      then show ?thesis using l(1) i j unfolding sorted_wrt_iff_nth_less by fastforce
    qed
    moreover have "?v \<le> fst x" "?v \<le> fst y" using B(4) xy by blast+
    ultimately show ?thesis by (simp only: fst_conv snd_conv) linarith
  qed
  have "(\<Sum>x \<in> B. fst (snd x)) = (\<Sum>y \<in> ?f ` B. snd y)" using inj by (subst sum.reindex) simp_all
  also have "\<dots> = unat (kh_used h)" unfolding B(3) using l(4,5) by (simp add: sum_list_distinct_conv_sum_set)
  finally have used: "unat (kh_used h) = (\<Sum>(p, n, align) \<in> B. n)" by (simp add: case_prod_beta)
  have "card B = card (set (live h))" using inj B(3) card_image by fastforce
  then have "unat (kh_active_allocations h) = card B" using l(4,6) by (simp add: distinct_card)
  with used apart in_heap B(4) show ?thesis by auto
qed

text \<open>C23. Nothing is lost: once every block has been given back, whatever the order, the heap is one free
  segment of the full size again and nothing is in use.\<close>

theorem heap_coalesces:
  assumes init: "heap_initialize hhdm a = (Some h0, a')" "kh_virtual_start h0 \<noteq> 0"
    and run: "fold heap_exec ops (h0, {}) = (h, {})"
  shows "kh_segment_count h = 1 \<and>
    kh_segments h ! 0 = \<lparr>seg_offset = 0, seg_size = 16777216, seg_free = True\<rparr> \<and>
    kh_used h = 0 \<and> kh_active_allocations h = 0"
proof -
  note ini = heap_initialize_client [OF init]
  have c: "client_ok (h, {})" using client_run [OF ini(1), of ops] run by simp
  have size: "kh_size h = 16777216" using run_frame [OF ini(1), of ops] run ini(2) by simp
  have h: "heap_ok h" "live h = []" using c by (auto simp: client_ok_def)
  have free: "\<forall>s \<in> set (segs h). seg_free s" using h(2) by (auto simp: live_def filter_empty_conv)
  have t: "tiles 0 (segs h) 16777216" "successively apart (segs h)" using h(1) size by (simp_all add: heap_ok_def)
  obtain s where s: "segs h = [s]"
  proof (cases "segs h")
    case Nil
    then show ?thesis using t(1) by simp
  next
    case (Cons x xs)
    then show ?thesis using that t(2) free by (cases xs) (auto simp: apart_def)
  qed
  have tok: "table_ok h" using h(1) by (simp add: heap_ok_def)
  note sp = segs_split [of h "[]" s "[]"]
  have "unat (seg_offset s) = 0" "unat (seg_size s) = 16777216" "seg_free s" using t(1) free s by simp_all
  then have "s = \<lparr>seg_offset = 0, seg_size = 16777216, seg_free = True\<rparr>"
    by (cases s) (simp add: word_unat_eq_iff)
  moreover have "unat (kh_used h) = 0" "unat (kh_active_allocations h) = 0"
    using live_sorted(5,6) [OF h(1)] h(2) by simp_all
  ultimately show ?thesis using sp tok s by (simp add: unat_eq_0)
qed

section \<open>A heap in high memory\<close>

definition demo_frames :: frame_allocator where
  "demo_frames = \<lparr>fa_ranges = [\<lparr>fr_next = 0x100000, fr_end = 0x4000000\<rparr>], fa_range_count = 1,
     fa_current_range = 0, fa_total_frames = 0x3F00, fa_allocated_frames = 0\<rparr>"

definition demo_heap :: kernel_heap where
  "demo_heap =
    \<lparr>kh_physical_start = 0x100000, kh_virtual_start = 0xFFFF800000100000, kh_size = 16777216,
     kh_segments = \<lparr>seg_offset = 0, seg_size = 16777216, seg_free = True\<rparr> # replicate 127 SEGMENT_EMPTY,
     kh_segment_count = 1, kh_used = 0, kh_peak_used = 0, kh_active_allocations = 0,
     kh_total_allocations = 0, kh_deallocations = 0\<rparr>"

lemma demo_heap_init: "fst (heap_initialize 0xFFFF800000000000 demo_frames) = Some demo_heap"
proof -
  have r: "(replicate MAX_SEGMENTS SEGMENT_EMPTY)[0 := s] = s # replicate 127 SEGMENT_EMPTY" for s
    by (simp add: MAX_SEGMENTS_def numeral_eq_Suc)
  have "fst (allocate_contiguous HEAP_PAGES demo_frames) = Some 0x100000"
    unfolding allocate_contiguous_def
    by (subst contiguous_loop.simps) (simp add: demo_frames_def HEAP_PAGES_def checked_mul_def checked_add_def FRAME_SIZE_def)
  then obtain a where a: "allocate_contiguous HEAP_PAGES demo_frames = (Some 0x100000, a)"
    by (metis prod.collapse)
  show ?thesis unfolding heap_initialize_def r a
    by (simp add: demo_heap_def checked_add_def HEAP_PAGES_def FRAME_SIZE_def)
qed

lemma demo_heap_cycle:
  "\<exists>h. fold heap_exec [HAlloc 64 16, HAlloc 0 8, HFree 0xFFFF800000100000] (demo_heap, {}) = (h, {})"
proof -
  let ?a = "\<lparr>seg_offset = 0, seg_size = 64, seg_free = False\<rparr> :: segment"
  let ?b = "\<lparr>seg_offset = 64, seg_size = 16777152, seg_free = True\<rparr> :: segment"
  let ?h = "demo_heap\<lparr>kh_segments := ?a # ?b # replicate 126 SEGMENT_EMPTY, kh_segment_count := 2,
      kh_used := 64, kh_peak_used := 64, kh_active_allocations := 1, kh_total_allocations := 1\<rparr>"
  have a: "heap_allocate 64 16 demo_heap = (Some 0xFFFF800000100000, ?h)"
    by (simp add: heap_allocate_def demo_heap_def is_power_of_two_def heap_place_def checked_add_def checked_sub_def
        carve_def replace_segment_def MAX_SEGMENTS_def put_slice_def Let_def)
  have f: "fst (heap_deallocate 0xFFFF800000100000 ?h)"
    by (simp add: heap_deallocate_def demo_heap_def checked_sub_def merge_left_def merge_right_def Let_def)
  have z: "heap_allocate 0 8 ?h = (None, ?h)" by (simp add: heap_allocate_def)
  show ?thesis using a f z by (auto split: prod.splits bool.splits)
qed

theorem heap_coalesces_witness:
  "\<exists>h. fold heap_exec [HAlloc 64 16, HAlloc 0 8, HFree 0xFFFF800000100000] (demo_heap, {}) = (h, {}) \<and>
    kh_segment_count h = 1 \<and> kh_used h = 0"
proof -
  obtain h where run: "fold heap_exec [HAlloc 64 16, HAlloc 0 8, HFree 0xFFFF800000100000] (demo_heap, {}) = (h, {})"
    using demo_heap_cycle by blast
  obtain a' where init: "heap_initialize 0xFFFF800000000000 demo_frames = (Some demo_heap, a')"
    using demo_heap_init by (metis prod.collapse)
  have "kh_virtual_start demo_heap \<noteq> 0" by (simp add: demo_heap_def)
  from heap_coalesces [OF init this run] run show ?thesis by blast
qed

theorem heap_blocks_sound_witness:
  "\<exists>h B. fold heap_exec [HAlloc 64 16, HAlloc 100 4096, HFree 3] (demo_heap, {}) = (h, B) \<and>
    (\<forall>x \<in> B. \<forall>y \<in> B. x \<noteq> y \<longrightarrow> fst x + fst (snd x) \<le> fst y \<or> fst y + fst (snd y) \<le> fst x) \<and>
    unat (kh_active_allocations h) = card B"
proof -
  obtain h B where run: "fold heap_exec [HAlloc 64 16, HAlloc 100 4096, HFree 3] (demo_heap, {}) = (h, B)"
    by (metis surj_pair)
  obtain a' where init: "heap_initialize 0xFFFF800000000000 demo_frames = (Some demo_heap, a')"
    using demo_heap_init by (metis prod.collapse)
  have "kh_virtual_start demo_heap \<noteq> 0" by (simp add: demo_heap_def)
  from heap_blocks_sound [OF init this run] run show ?thesis by blast
qed

end
