(* ===== verification/Ps2.thy ===== *)
theory Ps2
  imports Fifo Bytes
begin

text \<open>
  \<open>kernel/src/ps2.rs\<close>: the ring buffers between the interrupt handler and the monitor, the
  keyboard translation and the mouse packet decoder. The ring is an instance of the bounded FIFO
  contract, and it stays one when the loads and stores of the producer and the consumer interleave
  arbitrarily. Port I/O is not modelled.
\<close>

section \<open>The ring buffer\<close>

definition QUEUE_CAPACITY :: nat where "QUEUE_CAPACITY = 256"

record scancode_queue =
  sq_bytes :: bytes
  sq_head :: nat
  sq_tail :: nat

definition queue_static :: scancode_queue where
  "queue_static = \<lparr>sq_bytes = replicate QUEUE_CAPACITY 0, sq_head = 0, sq_tail = 0\<rparr>"

definition enqueue_ps2 :: "u8 \<Rightarrow> scancode_queue \<Rightarrow> scancode_queue" where
  "enqueue_ps2 b q =
    (let tail = sq_tail q; next = (tail + 1) mod QUEUE_CAPACITY in
     if next = sq_head q then q
     else q\<lparr>sq_bytes := (sq_bytes q)[tail := b], sq_tail := next\<rparr>)"

definition dequeue_ps2 :: "scancode_queue \<Rightarrow> u8 option \<times> scancode_queue" where
  "dequeue_ps2 q =
    (let head = sq_head q in
     if head = sq_tail q then (None, q)
     else (Some (sq_bytes q ! head), q\<lparr>sq_head := (head + 1) mod QUEUE_CAPACITY\<rparr>))"

section \<open>Keyboard\<close>

record keyboard =
  kb_shift :: bool
  kb_caps_lock :: bool
  kb_extended :: bool

definition keyboard_new :: keyboard where
  "keyboard_new = \<lparr>kb_shift = False, kb_caps_lock = False, kb_extended = False\<rparr>"

definition scancode_table :: "(u8 \<times> u8) list" where
  "scancode_table =
  [(0x02, 0x31), (0x03, 0x32), (0x04, 0x33), (0x05, 0x34), (0x06, 0x35), (0x07, 0x36),
   (0x08, 0x37), (0x09, 0x38), (0x0A, 0x39), (0x0B, 0x30), (0x0C, 0x2D), (0x0D, 0x3D),
   (0x10, 0x71), (0x11, 0x77), (0x12, 0x65), (0x13, 0x72), (0x14, 0x74), (0x15, 0x79),
   (0x16, 0x75), (0x17, 0x69), (0x18, 0x6F), (0x19, 0x70), (0x1A, 0x5B), (0x1B, 0x5D),
   (0x1E, 0x61), (0x1F, 0x73), (0x20, 0x64), (0x21, 0x66), (0x22, 0x67), (0x23, 0x68),
   (0x24, 0x6A), (0x25, 0x6B), (0x26, 0x6C), (0x27, 0x3B), (0x28, 0x27), (0x29, 0x60),
   (0x2B, 0x5C), (0x2C, 0x7A), (0x2D, 0x78), (0x2E, 0x63), (0x2F, 0x76), (0x30, 0x62),
   (0x31, 0x6E), (0x32, 0x6D), (0x33, 0x2C), (0x34, 0x2E), (0x35, 0x2F)]"

definition map_scancode :: "u8 \<Rightarrow> u8 option" where
  "map_scancode code = map_of scancode_table code"

definition shift_table :: "(u8 \<times> u8) list" where
  "shift_table =
  [(0x31, 0x21), (0x32, 0x40), (0x33, 0x23), (0x34, 0x24), (0x35, 0x25), (0x36, 0x5E),
   (0x37, 0x26), (0x38, 0x2A), (0x39, 0x28), (0x30, 0x29), (0x2D, 0x5F), (0x3D, 0x2B),
   (0x5B, 0x7B), (0x5D, 0x7D), (0x3B, 0x3A), (0x27, 0x22), (0x60, 0x7E), (0x5C, 0x7C),
   (0x2C, 0x3C), (0x2E, 0x3E), (0x2F, 0x3F)]"

definition is_lowercase :: "u8 \<Rightarrow> bool" where
  "is_lowercase c \<longleftrightarrow> 0x61 \<le> c \<and> c \<le> 0x7A"

definition apply_shift :: "u8 \<Rightarrow> bool \<Rightarrow> bool \<Rightarrow> u8" where
  "apply_shift c shift caps_lock =
    (if is_lowercase c then if shift \<noteq> caps_lock then c - 0x20 else c
     else if \<not> shift then c
     else case map_of shift_table c of None \<Rightarrow> c | Some d \<Rightarrow> d)"

definition kb_translate :: "u8 \<Rightarrow> keyboard \<Rightarrow> u8 option \<times> keyboard" where
  "kb_translate scancode k =
    (if scancode = 0xE0 then (None, k\<lparr>kb_extended := True\<rparr>)
     else if kb_extended k then (None, k\<lparr>kb_extended := False\<rparr>)
     else
       (let released = (scancode AND 0x80 \<noteq> 0); code = scancode AND 0x7F in
        if code = 0x2A \<or> code = 0x36 then (None, k\<lparr>kb_shift := \<not> released\<rparr>)
        else if code = 0x3A \<and> \<not> released then (None, k\<lparr>kb_caps_lock := \<not> kb_caps_lock k\<rparr>)
        else if released then (None, k)
        else if code = 0x0E then (Some 8, k)
        else if code = 0x1C then (Some 0x0A, k)
        else if code = 0x39 then (Some 0x20, k)
        else
          (case map_scancode code of
             None \<Rightarrow> (None, k)
           | Some base \<Rightarrow> (Some (apply_shift base (kb_shift k) (kb_caps_lock k)), k))))"

definition read_character ::
  "keyboard \<Rightarrow> scancode_queue \<Rightarrow> u8 option \<times> keyboard \<times> scancode_queue" where
  "read_character k q =
    (case dequeue_ps2 q of
       (None, q') \<Rightarrow> (None, k, q')
     | (Some b, q') \<Rightarrow> (let (r, k') = kb_translate b k in (r, k', q')))"

section \<open>Mouse\<close>

record mouse_event =
  ev_delta_x :: int
  ev_delta_y :: int
  ev_buttons :: u8

record mouse =
  ms_packet :: bytes
  ms_packet_index :: nat
  ms_total_events :: u64
  ms_latest :: "mouse_event option"

definition mouse_new :: mouse where
  "mouse_new = \<lparr>ms_packet = replicate 3 0, ms_packet_index = 0, ms_total_events = 0, ms_latest = None\<rparr>"

text \<open>The body of the loop of \<open>drain\<close> for one byte.\<close>

definition mouse_byte :: "u8 \<Rightarrow> mouse \<Rightarrow> mouse" where
  "mouse_byte b m =
    (if ms_packet_index m = 0 \<and> b AND 0x08 = 0 then m
     else
       (let m1 = m\<lparr>ms_packet := (ms_packet m)[ms_packet_index m := b], ms_packet_index := ms_packet_index m + 1\<rparr> in
        if ms_packet_index m1 = length (ms_packet m1) then
          (let m2 = m1\<lparr>ms_packet_index := 0\<rparr>; p = ms_packet m2 in
           if p ! 0 AND 0xC0 = 0 then
             (let dx = int (unat (p ! 1)) - (if p ! 0 AND 0x10 \<noteq> 0 then 256 else 0);
                  dy = int (unat (p ! 2)) - (if p ! 0 AND 0x20 \<noteq> 0 then 256 else 0) in
              m2\<lparr>ms_latest := Some \<lparr>ev_delta_x = dx, ev_delta_y = - dy, ev_buttons = p ! 0 AND 7\<rparr>,
                 ms_total_events := ms_total_events m2 + 1\<rparr>)
           else m2)
        else m1))"

partial_function (option) mouse_drain :: "mouse \<Rightarrow> scancode_queue \<Rightarrow> (mouse \<times> scancode_queue) option" where
  "mouse_drain m q =
    (case dequeue_ps2 q of
       (None, q') \<Rightarrow> Some (m, q')
     | (Some b, q') \<Rightarrow> mouse_drain (mouse_byte b m) q')"

section \<open>The ring as a bounded FIFO\<close>

definition sq_inv :: "scancode_queue \<Rightarrow> bool" where
  "sq_inv q \<longleftrightarrow> length (sq_bytes q) = 256 \<and> sq_head q < 256 \<and> sq_tail q < 256"

definition sq_length :: "scancode_queue \<Rightarrow> nat" where
  "sq_length q = (if sq_head q \<le> sq_tail q then sq_tail q - sq_head q else sq_tail q + 256 - sq_head q)"

definition sq_contents :: "scancode_queue \<Rightarrow> bytes" where
  "sq_contents q = map (\<lambda>i. sq_bytes q ! ((sq_head q + i) mod 256)) [0..<sq_length q]"

definition sq_push :: "u8 \<Rightarrow> scancode_queue \<Rightarrow> bool \<times> scancode_queue" where
  "sq_push b q = ((sq_tail q + 1) mod 256 \<noteq> sq_head q, enqueue_ps2 b q)"

lemma length_sq_contents [simp]: "length (sq_contents q) = sq_length q"
  by (simp add: sq_contents_def)

lemma wrap: "x < 512 \<Longrightarrow> x mod 256 = (if x < 256 then x else x - 256)" for x :: nat
  by (simp add: mod_if)

lemma sq_invD: "sq_inv q \<Longrightarrow> sq_head q < 256" "sq_inv q \<Longrightarrow> sq_tail q < 256"
  "sq_inv q \<Longrightarrow> length (sq_bytes q) = 256"
  by (simp_all add: sq_inv_def)

lemma sq_length_less: "sq_inv q \<Longrightarrow> sq_length q < 256"
  using sq_invD [of q] by (auto simp: sq_length_def)

lemma sq_empty: "sq_inv q \<Longrightarrow> sq_head q = sq_tail q \<longleftrightarrow> sq_length q = 0"
  using sq_invD [of q] by (auto simp: sq_length_def)

lemma sq_full: "sq_inv q \<Longrightarrow> (sq_tail q + 1) mod 256 = sq_head q \<longleftrightarrow> sq_length q = 255"
  using sq_invD [of q] by (subst wrap) (auto simp: sq_length_def)

lemma sq_slot: "sq_inv q \<Longrightarrow> (sq_head q + sq_length q) mod 256 = sq_tail q"
  using sq_invD [of q] by (subst wrap) (auto simp: sq_length_def)

lemma sq_slots_differ:
  assumes "sq_inv q" "i < sq_length q"
  shows "(sq_head q + i) mod 256 \<noteq> sq_tail q"
  using sq_invD [OF assms(1)] sq_length_less [OF assms(1)] assms(2)
  by (subst wrap) (auto simp: sq_length_def split: if_splits)

lemma sq_grow:
  assumes "sq_inv q" "sq_length q \<noteq> 255"
  shows "sq_length (q\<lparr>sq_tail := (sq_tail q + 1) mod 256\<rparr>) = Suc (sq_length q)"
proof -
  have w: "(sq_tail q + 1) mod 256 = (if sq_tail q + 1 < 256 then sq_tail q + 1 else sq_tail q + 1 - 256)"
    using sq_invD [OF assms(1)] by (intro wrap) simp
  show ?thesis
    using sq_invD [OF assms(1)] assms(2) by (auto simp: sq_length_def w [unfolded Suc_eq_plus1 [symmetric]] split: if_splits)
qed

lemma sq_shrink:
  assumes "sq_inv q" "sq_length q \<noteq> 0"
  shows "sq_length (q\<lparr>sq_head := (sq_head q + 1) mod 256\<rparr>) = sq_length q - 1"
proof -
  have w: "(sq_head q + 1) mod 256 = (if sq_head q + 1 < 256 then sq_head q + 1 else sq_head q + 1 - 256)"
    using sq_invD [OF assms(1)] by (intro wrap) simp
  show ?thesis
    using sq_invD [OF assms(1)] assms(2) by (auto simp: sq_length_def w [unfolded Suc_eq_plus1 [symmetric]] split: if_splits)
qed

lemma contents_write:
  assumes "sq_inv q"
  shows "sq_contents (q\<lparr>sq_bytes := (sq_bytes q)[sq_tail q := b]\<rparr>) = sq_contents q"
proof -
  have "sq_length (q\<lparr>sq_bytes := (sq_bytes q)[sq_tail q := b]\<rparr>) = sq_length q" by (simp add: sq_length_def)
  then show ?thesis
    using not_sym [OF sq_slots_differ [OF assms]] by (simp add: sq_contents_def)
qed

lemma contents_publish:
  assumes inv: "sq_inv q" and room: "sq_length q \<noteq> 255"
  shows "sq_contents (q\<lparr>sq_tail := (sq_tail q + 1) mod 256\<rparr>) = sq_contents q @ [sq_bytes q ! sq_tail q]"
proof -
  have "sq_length (q\<lparr>sq_tail := (sq_tail q + 1) mod 256\<rparr>) = Suc (sq_length q)"
    using sq_grow [OF inv room] .
  then show ?thesis using sq_slot [OF inv] by (simp add: sq_contents_def)
qed

lemma contents_take:
  assumes inv: "sq_inv q" and ne: "sq_length q \<noteq> 0"
  shows "sq_contents q = sq_bytes q ! sq_head q # sq_contents (q\<lparr>sq_head := (sq_head q + 1) mod 256\<rparr>)"
proof -
  obtain n where n: "sq_length q = Suc n" using ne by (cases "sq_length q") auto
  have h: "sq_head q < 256" using inv by (simp add: sq_inv_def)
  have len: "sq_length (q\<lparr>sq_head := (sq_head q + 1) mod 256\<rparr>) = n" using sq_shrink [OF inv ne] n by simp
  have shift: "((sq_head q + 1) mod 256 + i) mod 256 = (sq_head q + Suc i) mod 256" for i
    by (simp add: mod_add_left_eq)
  show ?thesis
    unfolding sq_contents_def len n map_upt_Suc using h shift by simp
qed

interpretation ps2: bounded_fifo sq_push dequeue_ps2 sq_contents "\<lambda>q. 255" sq_inv
proof
  fix q :: scancode_queue and x assume inv: "sq_inv q"
  {
    assume "length (sq_contents q) < 255"
    then have room: "sq_length q \<noteq> 255" by simp
    let ?q = "q\<lparr>sq_bytes := (sq_bytes q)[sq_tail q := x]\<rparr>"
    have inv': "sq_inv ?q" "sq_length ?q \<noteq> 255" using inv room by (simp add: sq_inv_def, simp add: sq_length_def split: if_splits)
    have "enqueue_ps2 x q = ?q\<lparr>sq_tail := (sq_tail ?q + 1) mod 256\<rparr>"
      using sq_full [OF inv] room by (simp add: enqueue_ps2_def QUEUE_CAPACITY_def Let_def)
    then have "sq_contents (enqueue_ps2 x q) = sq_contents q @ [x]"
      using contents_publish [OF inv'] contents_write [OF inv] inv by (simp add: sq_inv_def)
    then show "fst (sq_push x q) \<and> sq_contents (snd (sq_push x q)) = sq_contents q @ [x]"
      using sq_full [OF inv] room by (simp add: sq_push_def)
  }
  {
    assume "255 \<le> length (sq_contents q)"
    then have "sq_length q = 255" using sq_length_less [OF inv] by simp
    then show "sq_push x q = (False, q)"
      using sq_full [OF inv] by (simp add: sq_push_def enqueue_ps2_def QUEUE_CAPACITY_def Let_def)
  }
  show "sq_inv (snd (sq_push x q))"
    using inv by (simp add: sq_push_def enqueue_ps2_def QUEUE_CAPACITY_def Let_def sq_inv_def)
  show "dequeue_ps2 q = (None, q)" if "sq_contents q = []"
    using that sq_empty [OF inv] length_sq_contents [of q] by (simp add: dequeue_ps2_def)
  show "fst (dequeue_ps2 q) = Some x \<and> sq_contents (snd (dequeue_ps2 q)) = xs" if "sq_contents q = x # xs" for xs
    using that sq_empty [OF inv] length_sq_contents [of q] contents_take [OF inv]
    by (auto simp: dequeue_ps2_def QUEUE_CAPACITY_def Let_def)
  show "sq_inv (snd (dequeue_ps2 q))"
    using inv by (simp add: dequeue_ps2_def QUEUE_CAPACITY_def Let_def sq_inv_def)
  show "length (sq_contents q) \<le> 255" using sq_length_less [OF inv] by simp
qed simp_all

section \<open>Interleaved access\<close>

text \<open>
  The interrupt handler may run between any two memory accesses of \<open>dequeue\<close>, and on another
  processor between any two of either function. Each load and store is a step; the program counters
  hold the local variables. The ghost fields record the bytes published and the bytes returned.
\<close>

datatype producer_pc = PIdle | PTail u8 nat | PRoom u8 nat | PWritten u8 nat

datatype consumer_pc = CIdle | CHead nat | CReady nat | CByte nat u8

record ring_state =
  rg_queue :: scancode_queue
  rg_producer :: producer_pc
  rg_consumer :: consumer_pc
  rg_published :: bytes
  rg_returned :: bytes

definition ring_init :: ring_state where
  "ring_init = \<lparr>rg_queue = queue_static, rg_producer = PIdle, rg_consumer = CIdle, rg_published = [], rg_returned = []\<rparr>"

inductive ring_step :: "ring_state \<Rightarrow> ring_state \<Rightarrow> bool" where
  load_tail: "rg_producer s = PIdle \<Longrightarrow> ring_step s (s\<lparr>rg_producer := PTail b (sq_tail (rg_queue s))\<rparr>)"
| drop_full: "rg_producer s = PTail b t \<Longrightarrow> (t + 1) mod QUEUE_CAPACITY = sq_head (rg_queue s) \<Longrightarrow>
    ring_step s (s\<lparr>rg_producer := PIdle\<rparr>)"
| see_room: "rg_producer s = PTail b t \<Longrightarrow> (t + 1) mod QUEUE_CAPACITY \<noteq> sq_head (rg_queue s) \<Longrightarrow>
    ring_step s (s\<lparr>rg_producer := PRoom b t\<rparr>)"
| write_slot: "rg_producer s = PRoom b t \<Longrightarrow>
    ring_step s (s\<lparr>rg_queue := (rg_queue s)\<lparr>sq_bytes := (sq_bytes (rg_queue s))[t := b]\<rparr>, rg_producer := PWritten b t\<rparr>)"
| publish_tail: "rg_producer s = PWritten b t \<Longrightarrow>
    ring_step s (s\<lparr>rg_queue := (rg_queue s)\<lparr>sq_tail := (t + 1) mod QUEUE_CAPACITY\<rparr>, rg_producer := PIdle,
      rg_published := rg_published s @ [b]\<rparr>)"
| load_head: "rg_consumer s = CIdle \<Longrightarrow> ring_step s (s\<lparr>rg_consumer := CHead (sq_head (rg_queue s))\<rparr>)"
| see_empty: "rg_consumer s = CHead h \<Longrightarrow> h = sq_tail (rg_queue s) \<Longrightarrow> ring_step s (s\<lparr>rg_consumer := CIdle\<rparr>)"
| see_byte: "rg_consumer s = CHead h \<Longrightarrow> h \<noteq> sq_tail (rg_queue s) \<Longrightarrow> ring_step s (s\<lparr>rg_consumer := CReady h\<rparr>)"
| read_slot: "rg_consumer s = CReady h \<Longrightarrow> ring_step s (s\<lparr>rg_consumer := CByte h (sq_bytes (rg_queue s) ! h)\<rparr>)"
| publish_head: "rg_consumer s = CByte h b \<Longrightarrow>
    ring_step s (s\<lparr>rg_queue := (rg_queue s)\<lparr>sq_head := (h + 1) mod QUEUE_CAPACITY\<rparr>, rg_consumer := CIdle,
      rg_returned := rg_returned s @ [b]\<rparr>)"

fun producer_ok :: "producer_pc \<Rightarrow> scancode_queue \<Rightarrow> bool" where
  "producer_ok PIdle q \<longleftrightarrow> True"
| "producer_ok (PTail b t) q \<longleftrightarrow> t = sq_tail q"
| "producer_ok (PRoom b t) q \<longleftrightarrow> t = sq_tail q \<and> sq_length q < 255"
| "producer_ok (PWritten b t) q \<longleftrightarrow> t = sq_tail q \<and> sq_length q < 255 \<and> sq_bytes q ! t = b"

fun consumer_ok :: "consumer_pc \<Rightarrow> scancode_queue \<Rightarrow> bool" where
  "consumer_ok CIdle q \<longleftrightarrow> True"
| "consumer_ok (CHead h) q \<longleftrightarrow> h = sq_head q"
| "consumer_ok (CReady h) q \<longleftrightarrow> h = sq_head q \<and> sq_contents q \<noteq> []"
| "consumer_ok (CByte h b) q \<longleftrightarrow> h = sq_head q \<and> sq_contents q \<noteq> [] \<and> hd (sq_contents q) = b"

definition ring_inv :: "ring_state \<Rightarrow> bool" where
  "ring_inv s \<longleftrightarrow> sq_inv (rg_queue s) \<and> producer_ok (rg_producer s) (rg_queue s) \<and>
    consumer_ok (rg_consumer s) (rg_queue s) \<and> rg_published s = rg_returned s @ sq_contents (rg_queue s)"

lemma ring_init_inv: "ring_inv ring_init"
  by (simp add: ring_inv_def ring_init_def queue_static_def sq_inv_def sq_contents_def sq_length_def QUEUE_CAPACITY_def)

lemma contents_Nil_iff: "sq_contents q = [] \<longleftrightarrow> sq_length q = 0"
  using length_sq_contents [of q] by (metis length_0_conv)

lemma consumer_ok_write:
  "sq_inv q \<Longrightarrow> consumer_ok c (q\<lparr>sq_bytes := (sq_bytes q)[sq_tail q := b]\<rparr>) = consumer_ok c q"
  by (cases c) (simp_all add: contents_write)

lemma consumer_ok_publish:
  "sq_inv q \<Longrightarrow> sq_length q < 255 \<Longrightarrow> consumer_ok c q \<Longrightarrow> consumer_ok c (q\<lparr>sq_tail := (sq_tail q + 1) mod 256\<rparr>)"
  using contents_publish [of q] by (cases c) auto

lemma producer_ok_take:
  "sq_inv q \<Longrightarrow> sq_contents q \<noteq> [] \<Longrightarrow> producer_ok p q \<Longrightarrow> producer_ok p (q\<lparr>sq_head := (sq_head q + 1) mod 256\<rparr>)"
  using sq_shrink [of q] by (cases p) (auto simp: contents_Nil_iff)

lemma ring_step_inv:
  assumes "ring_step s t" "ring_inv s"
  shows "ring_inv t"
  using assms
proof cases
  case (see_room b u)
  then show ?thesis using assms(2) sq_full [of "rg_queue s"] sq_length_less [of "rg_queue s"]
    by (auto simp: ring_inv_def QUEUE_CAPACITY_def)
next
  case (write_slot b u)
  then have u: "u = sq_tail (rg_queue s)" "sq_inv (rg_queue s)" "sq_length (rg_queue s) < 255"
    using assms(2) by (auto simp: ring_inv_def)
  then show ?thesis using assms(2) write_slot sq_invD [OF u(2)]
    by (auto simp: ring_inv_def consumer_ok_write contents_write) (auto simp: sq_inv_def sq_length_def)
next
  case (publish_tail b u)
  then have u: "u = sq_tail (rg_queue s)" "sq_inv (rg_queue s)" "sq_length (rg_queue s) < 255"
      "sq_bytes (rg_queue s) ! u = b"
    using assms(2) by (auto simp: ring_inv_def)
  then show ?thesis
    using assms(2) publish_tail contents_publish [OF u(2)] consumer_ok_publish [OF u(2,3)]
    by (simp add: ring_inv_def QUEUE_CAPACITY_def) (simp add: sq_inv_def)
next
  case (see_byte h)
  then show ?thesis using assms(2) sq_empty [of "rg_queue s"]
    by (auto simp: ring_inv_def contents_Nil_iff)
next
  case (read_slot h)
  then show ?thesis using assms(2) contents_take [of "rg_queue s"]
    by (auto simp: ring_inv_def contents_Nil_iff)
next
  case (publish_head h b)
  then have u: "h = sq_head (rg_queue s)" "sq_inv (rg_queue s)" "sq_contents (rg_queue s) \<noteq> []"
      "hd (sq_contents (rg_queue s)) = b"
    using assms(2) by (auto simp: ring_inv_def)
  have c: "sq_contents (rg_queue s) = b # sq_contents ((rg_queue s)\<lparr>sq_head := (h + 1) mod 256\<rparr>)"
    using contents_take [OF u(2)] u(1,3,4) contents_Nil_iff by (metis list.sel(1))
  show ?thesis
    using assms(2) publish_head producer_ok_take [OF u(2,3)] u c
    by (simp add: ring_inv_def QUEUE_CAPACITY_def) (simp add: sq_inv_def)
qed (auto simp: ring_inv_def)

lemma ring_reachable_inv: "ring_step\<^sup>*\<^sup>* ring_init s \<Longrightarrow> ring_inv s"
  by (induction rule: rtranclp_induct) (auto intro: ring_init_inv ring_step_inv)

section \<open>Draining the mouse queue\<close>

declare mouse_drain.simps [code]

lemma drain_folds:
  "sq_inv q \<Longrightarrow> \<exists>q'. mouse_drain m q = Some (fold mouse_byte (sq_contents q) m, q') \<and> sq_contents q' = [] \<and> sq_inv q'"
proof (induction "sq_contents q" arbitrary: q m)
  case Nil
  then show ?case using ps2.pop_empty [of q] by (subst mouse_drain.simps) auto
next
  case (Cons b bs)
  obtain q1 where p: "dequeue_ps2 q = (Some b, q1)" "sq_contents q1 = bs" "sq_inv q1"
    using ps2.pop_first [OF Cons.prems Cons.hyps(2) [symmetric]] ps2.pop_invar [OF Cons.prems]
    by (cases "dequeue_ps2 q") auto
  have step: "mouse_drain m q = mouse_drain (mouse_byte b m) q1"
    by (subst mouse_drain.simps) (simp add: p(1))
  show ?case
    using Cons.hyps(1) [OF p(2) [symmetric] p(3), of "mouse_byte b m"] p(2)
    by (simp add: step Cons.hyps(2) [symmetric])
qed

text \<open>A report of the device: the sign and button bits with bit 3 set, then the low bytes of the movement.\<close>

definition mouse_report :: "int \<Rightarrow> int \<Rightarrow> u8 \<Rightarrow> bytes" where
  "mouse_report dx dy buttons =
    [0x08 OR (if dx < 0 then 0x10 else 0) OR (if dy < 0 then 0x20 else 0) OR (buttons AND 7), word_of_int dx, word_of_int dy]"

lemma low_three_bits: "(b :: u8) AND 7 \<in> {0, 1, 2, 3, 4, 5, 6, 7}"
proof -
  have "b AND 7 \<le> 7" by (rule word_and_le1)
  then have "unat (b AND 7) \<le> 7" by (simp add: word_le_nat_alt)
  moreover have "b AND 7 = of_nat (unat (b AND 7))" by (simp add: of_nat_unat)
  ultimately obtain n :: nat where n: "n \<le> 7" "b AND 7 = of_nat n" by blast
  from n(1) have "n = 0 \<or> n = 1 \<or> n = 2 \<or> n = 3 \<or> n = 4 \<or> n = 5 \<or> n = 6 \<or> n = 7" by linarith
  then show ?thesis unfolding n(2) by (elim disjE) simp_all
qed

lemma report_flags:
  fixes b :: u8 and neg_x neg_y :: bool
  defines "f \<equiv> 0x08 OR (if neg_x then 0x10 else 0) OR (if neg_y then 0x20 else 0) OR (b AND 7)"
  shows "f AND 8 \<noteq> 0" "f AND 0xC0 = 0" "f AND 0x10 \<noteq> 0 \<longleftrightarrow> neg_x" "f AND 0x20 \<noteq> 0 \<longleftrightarrow> neg_y" "f AND 7 = b AND 7"
  unfolding f_def using low_three_bits [of b] by (auto split: if_splits)

lemma unat_word_of_int: "unat (word_of_int k :: u8) = nat (k mod 256)"
  by (simp add: unat_eq_nat_uint uint_word_of_int)

lemma nine_bit_delta:
  "- 256 \<le> d \<Longrightarrow> d < 256 \<Longrightarrow> int (unat (word_of_int d :: u8)) - (if d < 0 then 256 else 0) = d"
  by (simp add: unat_word_of_int) (smt (verit) mod_pos_pos_trivial mod_add_self2)

definition mouse_inv :: "mouse \<Rightarrow> bool" where
  "mouse_inv m \<longleftrightarrow> length (ms_packet m) = 3 \<and> ms_packet_index m < 3 \<and>
    (case ms_latest m of None \<Rightarrow> True
     | Some e \<Rightarrow> - 256 \<le> ev_delta_x e \<and> ev_delta_x e \<le> 255 \<and> - 255 \<le> ev_delta_y e \<and> ev_delta_y e \<le> 256 \<and> ev_buttons e \<le> 7)"

lemma byte_bounds: "0 \<le> int (unat (b :: u8))" "int (unat (b :: u8)) \<le> 255"
  using unsigned_less [of b, where 'a = int] by simp_all

lemma byte_low: "- 256 \<le> uint (b :: u8)" "- uint (b :: u8) \<le> 256"
  by (rule order_trans [of _ 0]; simp)+

lemma mouse_byte_inv: "mouse_inv m \<Longrightarrow> mouse_inv (mouse_byte b m)"
  using byte_bounds [of "(ms_packet m)[2 := b] ! 1"] byte_bounds [of b]
  by (auto simp: mouse_inv_def mouse_byte_def Let_def word_and_le1 byte_low split: option.splits)

lemma fold_mouse_inv: "mouse_inv m \<Longrightarrow> mouse_inv (fold mouse_byte bs m)"
  by (induction bs arbitrary: m) (auto intro: mouse_byte_inv)

lemma mouse_report_decodes:
  assumes "length (ms_packet m) = 3" "ms_packet_index m = 0"
    and "- 256 \<le> dx" "dx < 256" "- 256 \<le> dy" "dy < 256"
  shows "fold mouse_byte (mouse_report dx dy b) m =
    m\<lparr>ms_packet := mouse_report dx dy b, ms_total_events := ms_total_events m + 1,
      ms_latest := Some \<lparr>ev_delta_x = dx, ev_delta_y = - dy, ev_buttons = b AND 7\<rparr>\<rparr>"
proof -
  obtain p0 p1 p2 where p: "ms_packet m = [p0, p1, p2]"
    using assms(1) by (auto simp: numeral_eq_Suc length_Suc_conv)
  note f = report_flags [where neg_x = "dx < 0" and neg_y = "dy < 0" and b = b]
  define flags where "flags = 0x08 OR (if dx < 0 then 0x10 else 0) OR (if dy < 0 then 0x20 else 0) OR (b AND 7)"
  show ?thesis
    unfolding mouse_report_def flags_def [symmetric]
    using f [folded flags_def] nine_bit_delta [of dx] nine_bit_delta [of dy] assms p
    by (simp add: mouse_byte_def)
qed

type_synonym report = "int \<times> int \<times> u8"

definition report_bytes :: "report list \<Rightarrow> bytes" where
  "report_bytes rs = concat (map (\<lambda>(dx, dy, b). mouse_report dx dy b) rs)"

definition report_in_range :: "report \<Rightarrow> bool" where
  "report_in_range r \<longleftrightarrow> (case r of (dx, dy, b) \<Rightarrow> - 256 \<le> dx \<and> dx < 256 \<and> - 256 \<le> dy \<and> dy < 256)"

definition report_event :: "report \<Rightarrow> mouse_event" where
  "report_event r = (case r of (dx, dy, b) \<Rightarrow> \<lparr>ev_delta_x = dx, ev_delta_y = - dy, ev_buttons = b AND 7\<rparr>)"

lemma fold_reports:
  assumes "list_all report_in_range rs" "length (ms_packet m) = 3" "ms_packet_index m = 0"
  shows "let m' = fold mouse_byte (report_bytes rs) m in
    length (ms_packet m') = 3 \<and> ms_packet_index m' = 0 \<and>
    ms_total_events m' = ms_total_events m + of_nat (length rs) \<and>
    ms_latest m' = (if rs = [] then ms_latest m else Some (report_event (last rs)))"
  using assms
proof (induction rs arbitrary: m)
  case Nil
  then show ?case by (simp add: report_bytes_def)
next
  case (Cons r rs)
  obtain dx dy b where r: "r = (dx, dy, b)" by (cases r)
  define m1 where "m1 = fold mouse_byte (mouse_report dx dy b) m"
  have m1: "m1 = m\<lparr>ms_packet := mouse_report dx dy b, ms_total_events := ms_total_events m + 1, ms_latest := Some (report_event r)\<rparr>"
    unfolding m1_def using Cons.prems by (subst mouse_report_decodes) (auto simp: r report_in_range_def report_event_def)
  have "length (ms_packet m1) = 3" "ms_packet_index m1 = 0" using Cons.prems by (simp_all add: m1 mouse_report_def)
  from Cons.IH [OF _ this] Cons.prems
  show ?case by (simp add: report_bytes_def r m1_def [symmetric] Let_def) (simp add: m1 r)
qed

section \<open>Keyboard state\<close>

lemma make_code_split: "(b :: u8) = (b AND 0x80) OR (b AND 0x7F)"
proof -
  have "(0x80 OR 0x7F :: u8) = - 1" by simp
  then have "b = b AND (0x80 OR 0x7F)" by (simp only: and.right_neutral)
  then show ?thesis by (simp only: bit.conj_disj_distrib)
qed

lemma make_code: "b AND 0x7F = 0x3A \<and> b AND 0x80 = 0 \<longleftrightarrow> b = (0x3A :: u8)"
  using make_code_split [of b] by auto

lemma scancodes_ascii: "map_scancode c = Some d \<Longrightarrow> d < 0x80"
proof -
  assume "map_scancode c = Some d"
  then have "(c, d) \<in> set scancode_table" unfolding map_scancode_def by (rule map_of_SomeD)
  moreover have "list_all (\<lambda>(c, d). d < 0x80) scancode_table" by (simp add: scancode_table_def)
  ultimately show ?thesis by (auto simp: list_all_iff)
qed

lemma apply_shift_ascii: "c < 0x80 \<Longrightarrow> apply_shift c s l < 0x80"
proof -
  assume c: "c < 0x80"
  have "list_all (\<lambda>(c, d). d < 0x80) shift_table" by (simp add: shift_table_def)
  then have "map_of shift_table c = Some d \<Longrightarrow> d < 0x80" for d
    by (auto simp: list_all_iff dest: map_of_SomeD)
  moreover have "c - 0x20 < 0x80" if l: "is_lowercase c"
  proof -
    have "0x20 \<le> c" using l by (auto simp: is_lowercase_def elim: order_trans [rotated])
    then have "unat (c - 0x20) = unat c - 0x20" by (simp add: unat_sub)
    then show ?thesis using c by (simp add: word_less_nat_alt)
  qed
  ultimately show ?thesis using c by (auto simp: apply_shift_def split: option.split)
qed

text \<open>The keyboard only hands ASCII bytes to the monitor.\<close>

lemma translate_ascii: "kb_translate b k = (Some c, k') \<Longrightarrow> c < 0x80"
  using scancodes_ascii apply_shift_ascii
  by (auto simp: kb_translate_def Let_def split: if_splits option.splits)

text \<open>Caps lock counts the presses of its key, and only those, outside extended sequences.\<close>

lemma caps_lock_parity:
  assumes "0xE0 \<notin> set bs" "\<not> kb_extended k"
  shows "kb_caps_lock (fold (\<lambda>b k. snd (kb_translate b k)) bs k) = (kb_caps_lock k \<noteq> odd (count_list bs 0x3A))"
  using assms
proof (induction bs arbitrary: k)
  case Nil
  then show ?case by simp
next
  case (Cons b bs)
  let ?k = "snd (kb_translate b k)"
  have "\<not> kb_extended ?k" "kb_caps_lock ?k = (kb_caps_lock k \<noteq> (b = 0x3A))"
    using Cons.prems make_code [of b] by (auto simp: kb_translate_def Let_def split: option.split)
  then show ?case using Cons.IH [of ?k] Cons.prems by auto
qed

section \<open>Properties\<close>

text \<open>C16. The ring stays a FIFO under every interleaving of the loads and stores of the interrupt
  handler with those of the reader: the bytes returned are a prefix of the bytes published, in
  order and without repetition, and what is between them is in the ring; the slot the producer
  overwrites is never one the consumer may still read; the indices stay in range and at most 255
  bytes are held.
\<close>

theorem ring_interleaving_fifo:
  assumes "ring_step\<^sup>*\<^sup>* ring_init s"
  shows "rg_published s = rg_returned s @ sq_contents (rg_queue s) \<and>
    sq_head (rg_queue s) < 256 \<and> sq_tail (rg_queue s) < 256 \<and> sq_length (rg_queue s) \<le> 255 \<and>
    (\<forall>b t i. rg_producer s = PRoom b t \<longrightarrow> i < sq_length (rg_queue s) \<longrightarrow> (sq_head (rg_queue s) + i) mod 256 \<noteq> t)"
  using ring_reachable_inv [OF assms] sq_length_less [of "rg_queue s"] sq_slots_differ [of "rg_queue s"]
  by (auto simp: ring_inv_def sq_inv_def)

theorem ring_interleaving_fifo_witness:
  "let s = ring_init\<lparr>rg_producer := PTail 7 0\<rparr>\<lparr>rg_consumer := CHead 0\<rparr>\<lparr>rg_producer := PRoom 7 0\<rparr> in
   ring_step\<^sup>*\<^sup>* ring_init s \<and> rg_published s = rg_returned s @ sq_contents (rg_queue s)"
proof -
  let ?a = "ring_init\<lparr>rg_producer := PTail 7 0\<rparr>"
  let ?b = "?a\<lparr>rg_consumer := CHead 0\<rparr>"
  let ?c = "?b\<lparr>rg_producer := PRoom 7 0\<rparr>"
  have 1: "ring_step ring_init ?a"
    using load_tail [of ring_init 7] by (simp add: ring_init_def queue_static_def)
  have 2: "ring_step ?a ?b"
    using load_head [of ?a] by (simp add: ring_init_def queue_static_def)
  have 3: "ring_step ?b ?c"
    using see_room [of ?b 7 0] by (simp add: ring_init_def queue_static_def QUEUE_CAPACITY_def)
  have run: "ring_step\<^sup>*\<^sup>* ring_init ?c"
    using 1 2 3 by (meson converse_rtranclp_into_rtranclp rtranclp.rtrancl_refl)
  show ?thesis using run ring_interleaving_fifo [OF run] by (simp only: Let_def simp_thms)
qed

text \<open>Draining the mouse queue terminates from every well-formed state, leaves the queue empty,
  and keeps the decoder well formed: the packet index is below 3, so no write is out of bounds, and
  the deltas of the latest event lie in \<open>-256..255\<close> and \<open>-255..256\<close>, so no \<open>i16\<close> operation overflows.
\<close>

lemma mouse_drain_terminates:
  assumes "sq_inv q" "mouse_inv m"
  shows "\<exists>m' q'. mouse_drain m q = Some (m', q') \<and> mouse_inv m' \<and> sq_contents q' = [] \<and> sq_inv q'"
  using drain_folds [OF assms(1)] fold_mouse_inv [OF assms(2)] by blast

text \<open>C37. The decoder inverts the device's report format: when the queue holds a sequence of reports
  of nine-bit movements, draining it from an aligned decoder counts every report, stays aligned, and
  leaves the movement of the last report as the latest event, with the vertical axis flipped.
\<close>

theorem mouse_reports_decoded:
  assumes "sq_inv q" "sq_contents q = report_bytes rs" "list_all report_in_range rs"
    and "length (ms_packet m) = 3" "ms_packet_index m = 0"
  shows "\<exists>m' q'. mouse_drain m q = Some (m', q') \<and> sq_contents q' = [] \<and> ms_packet_index m' = 0 \<and>
    ms_total_events m' = ms_total_events m + of_nat (length rs) \<and>
    ms_latest m' = (if rs = [] then ms_latest m else Some (report_event (last rs)))"
  using drain_folds [OF assms(1), of m] fold_reports [OF assms(3-5)] by (auto simp: assms(2) Let_def)

lemma sq_example_contents:
  "sq_contents \<lparr>sq_bytes = [0x18, 0xFE, 0x05] @ replicate 253 0, sq_head = 0, sq_tail = 3\<rparr> = [0x18, 0xFE, 0x05]"
proof -
  have "[0..<3] = [0, 1, 2 :: nat]" by (simp add: upt_rec)
  then show ?thesis by (simp add: sq_contents_def sq_length_def)
qed

theorem mouse_reports_decoded_witness:
  "let q = \<lparr>sq_bytes = [0x18, 0xFE, 0x05] @ replicate 253 0, sq_head = 0, sq_tail = 3\<rparr> in
   \<exists>m' q'. mouse_drain mouse_new q = Some (m', q') \<and>
     ms_latest m' = Some \<lparr>ev_delta_x = - 2, ev_delta_y = - 5, ev_buttons = 0\<rparr> \<and> ms_total_events m' = 1"
proof -
  let ?q = "\<lparr>sq_bytes = [0x18, 0xFE, 0x05] @ replicate 253 0, sq_head = 0, sq_tail = 3\<rparr>"
  have 1: "sq_inv ?q" by (simp add: sq_inv_def)
  have 2: "sq_contents ?q = report_bytes [(- 2, 5, 0)]"
    unfolding sq_example_contents by (simp add: report_bytes_def mouse_report_def)
  show ?thesis
    using mouse_reports_decoded [OF 1 2, of mouse_new]
    by (auto simp: report_in_range_def mouse_new_def report_event_def Let_def)
qed

end
