(* ===== verification/Nexfs_Layout.thy ===== *)
theory Nexfs_Layout
  imports Crc32 Block_Device
begin

text \<open>
  The on-disk records of NexFS: the superblock of \<open>crates/nexfs/src/lib.rs\<close>, the inodes and
  directory entries of \<open>crates/nexfs/src/layout.rs\<close> and the allocation bitmaps. Every record is
  sealed with a checksum; decoding what was encoded gives the record back. A Rust \<open>str\<close> is its
  UTF-8 bytes.
\<close>

section \<open>Constants and errors\<close>

definition MAGIC :: bytes where "MAGIC = [0x4E, 0x45, 0x58, 0x46, 0x53, 0x01, 0x00, 0x00]"
definition VERSION :: u32 where "VERSION = 1"
definition BLOCK_SIZE :: nat where "BLOCK_SIZE = 4096"
definition SUPERBLOCK_BLOCK :: u64 where "SUPERBLOCK_BLOCK = 1"
definition CLEAN_FLAG :: u32 where "CLEAN_FLAG = 1"
definition INODE_SIZE :: nat where "INODE_SIZE = 256"
definition DIRECT_BLOCKS :: nat where "DIRECT_BLOCKS = 12"
definition DIR_ENTRY_SIZE :: nat where "DIR_ENTRY_SIZE = 256"
definition MAX_NAME_LENGTH :: nat where "MAX_NAME_LENGTH = 240"
definition MIN_BLOCKS :: u64 where "MIN_BLOCKS = 32"
definition BLOCK_SIZE_U32 :: u32 where "BLOCK_SIZE_U32 = 4096"
definition BLOCK_SIZE_U64 :: u64 where "BLOCK_SIZE_U64 = 4096"
definition INODES_PER_BLOCK :: u64 where "INODES_PER_BLOCK = of_nat (BLOCK_SIZE div INODE_SIZE)"
definition BITMAP_BITS_PER_BLOCK :: u64 where "BITMAP_BITS_PER_BLOCK = of_nat (BLOCK_SIZE * 8)"
definition MAX_INODE_TABLE_BLOCKS :: u64 where
  "MAX_INODE_TABLE_BLOCKS = BITMAP_BITS_PER_BLOCK div INODES_PER_BLOCK"
definition INDIRECT_POINTERS :: nat where "INDIRECT_POINTERS = BLOCK_SIZE div 8"
definition MAX_FILE_BLOCKS :: nat where "MAX_FILE_BLOCKS = DIRECT_BLOCKS + INDIRECT_POINTERS"

definition INODE_MAGIC :: bytes where "INODE_MAGIC = [0x4E, 0x58, 0x49, 0x4E]"
definition INODE_CHECKSUM_OFFSET :: nat where "INODE_CHECKSUM_OFFSET = INODE_SIZE - 4"
definition DIRECTORY_CHECKSUM_OFFSET :: nat where "DIRECTORY_CHECKSUM_OFFSET = DIR_ENTRY_SIZE - 4"
definition DIRECTORY_NAME_OFFSET :: nat where "DIRECTORY_NAME_OFFSET = 12"

lemmas nexfs_consts =
  MAGIC_def VERSION_def BLOCK_SIZE_def SUPERBLOCK_BLOCK_def CLEAN_FLAG_def INODE_SIZE_def DIRECT_BLOCKS_def
  DIR_ENTRY_SIZE_def MAX_NAME_LENGTH_def MIN_BLOCKS_def BLOCK_SIZE_U32_def BLOCK_SIZE_U64_def
  INODES_PER_BLOCK_def BITMAP_BITS_PER_BLOCK_def MAX_INODE_TABLE_BLOCKS_def INDIRECT_POINTERS_def
  MAX_FILE_BLOCKS_def INODE_MAGIC_def INODE_CHECKSUM_OFFSET_def DIRECTORY_CHECKSUM_OFFSET_def
  DIRECTORY_NAME_OFFSET_def

datatype fs_error =
    F_Storage storage_error
  | F_TooSmall
  | F_UnsupportedBlockSize
  | F_InvalidMagic
  | F_UnsupportedVersion
  | F_InvalidLayout
  | F_ChecksumMismatch
  | F_Dirty
  | F_NotFound
  | F_AlreadyExists
  | F_NotDirectory
  | F_IsDirectory
  | F_DirectoryNotEmpty
  | F_InvalidName
  | F_InvalidPath
  | F_NoSpace
  | F_FileTooLarge
  | F_TooLarge
  | F_CorruptInode
  | F_CorruptDirectory
  | F_Busy

section \<open>Fields\<close>

definition put_u16 :: "nat \<Rightarrow> u16 \<Rightarrow> bytes \<Rightarrow> bytes" where "put_u16 offset v bs = put_slice offset (le_bytes 2 v) bs"
definition put_u32 :: "nat \<Rightarrow> u32 \<Rightarrow> bytes \<Rightarrow> bytes" where "put_u32 offset v bs = put_slice offset (le_bytes 4 v) bs"
definition put_u64 :: "nat \<Rightarrow> u64 \<Rightarrow> bytes \<Rightarrow> bytes" where "put_u64 offset v bs = put_slice offset (le_bytes 8 v) bs"
definition get_u16 :: "bytes \<Rightarrow> nat \<Rightarrow> u16" where "get_u16 bs offset = of_le (slice offset 2 bs)"
definition get_u32 :: "bytes \<Rightarrow> nat \<Rightarrow> u32" where "get_u32 bs offset = of_le (slice offset 4 bs)"
definition get_u64 :: "bytes \<Rightarrow> nat \<Rightarrow> u64" where "get_u64 bs offset = of_le (slice offset 8 bs)"

lemmas field_defs = put_u16_def put_u32_def put_u64_def get_u16_def get_u32_def get_u64_def

definition div_ceil :: "u64 \<Rightarrow> u64 \<Rightarrow> u64" where
  "div_ceil a b = (if a mod b \<noteq> 0 then a div b + 1 else a div b)"

section \<open>Superblock\<close>

record superblock =
  sb_version :: u32
  sb_block_size :: u32
  sb_total_blocks :: u64
  sb_inode_bitmap_block :: u64
  sb_block_bitmap_block :: u64
  sb_inode_table_block :: u64
  sb_data_start_block :: u64
  sb_root_inode :: u64
  sb_flags :: u32
  sb_generation :: u64
  sb_uuid :: bytes

definition block_bitmap_blocks :: "superblock \<Rightarrow> u64" where
  "block_bitmap_blocks sb = div_ceil (sb_total_blocks sb) BITMAP_BITS_PER_BLOCK"

definition is_clean :: "superblock \<Rightarrow> bool" where
  "is_clean sb \<longleftrightarrow> sb_flags sb AND CLEAN_FLAG \<noteq> 0"

definition sb_validate :: "superblock \<Rightarrow> fs_error + unit" where
  "sb_validate sb =
    (if sb_version sb \<noteq> VERSION then Inl F_UnsupportedVersion
     else if sb_block_size sb \<noteq> BLOCK_SIZE_U32 then Inl F_UnsupportedBlockSize
     else
       bind_res (ok_or F_InvalidLayout (checked_sub (sb_data_start_block sb) (sb_inode_table_block sb)))
         (\<lambda>inode_table_blocks.
       if sb_total_blocks sb < MIN_BLOCKS \<or> sb_inode_bitmap_block sb \<noteq> 2 \<or> sb_block_bitmap_block sb \<noteq> 3 \<or>
          sb_inode_table_block sb \<noteq> sb_block_bitmap_block sb + block_bitmap_blocks sb \<or>
          inode_table_blocks = 0 \<or> MAX_INODE_TABLE_BLOCKS < inode_table_blocks \<or>
          sb_total_blocks sb \<le> sb_data_start_block sb \<or> sb_root_inode sb \<noteq> 1
       then Inl F_InvalidLayout else Inr ()))"

definition inode_count :: "superblock \<Rightarrow> fs_error + u64" where
  "inode_count sb =
    ok_or F_InvalidLayout
      (case checked_sub (sb_data_start_block sb) (sb_inode_table_block sb) of
         None \<Rightarrow> None
       | Some blocks \<Rightarrow>
         (case checked_mul blocks INODES_PER_BLOCK of
            None \<Rightarrow> None
          | Some count \<Rightarrow>
            if sb_root_inode sb < count \<and> count \<le> BITMAP_BITS_PER_BLOCK then Some count else None))"

definition sb_encode :: "superblock \<Rightarrow> bytes \<Rightarrow> fs_error + bytes" where
  "sb_encode sb out =
    (if length out < BLOCK_SIZE then Inl F_UnsupportedBlockSize
     else
       let out = put_slice 0 (replicate BLOCK_SIZE 0) out;
           out = put_slice 0 MAGIC out;
           out = put_u32 8 (sb_version sb) out;
           out = put_u32 12 (sb_block_size sb) out;
           out = put_u64 16 (sb_total_blocks sb) out;
           out = put_u64 24 (sb_inode_bitmap_block sb) out;
           out = put_u64 32 (sb_block_bitmap_block sb) out;
           out = put_u64 40 (sb_inode_table_block sb) out;
           out = put_u64 48 (sb_data_start_block sb) out;
           out = put_u64 56 (sb_root_inode sb) out;
           out = put_u32 64 (sb_flags sb) out;
           out = put_u64 72 (sb_generation sb) out;
           out = put_slice 80 (sb_uuid sb) out;
           out = put_u32 96 0 out
       in Inr (put_u32 96 (crc32 (slice 0 100 out)) out))"

definition sb_decode :: "bytes \<Rightarrow> fs_error + superblock" where
  "sb_decode input =
    (if length input < BLOCK_SIZE then Inl F_UnsupportedBlockSize
     else if slice 0 8 input \<noteq> MAGIC then Inl F_InvalidMagic
     else if crc32 (put_u32 96 0 (slice 0 100 input)) \<noteq> get_u32 input 96 then Inl F_ChecksumMismatch
     else
       let sb = \<lparr>sb_version = get_u32 input 8, sb_block_size = get_u32 input 12,
                 sb_total_blocks = get_u64 input 16, sb_inode_bitmap_block = get_u64 input 24,
                 sb_block_bitmap_block = get_u64 input 32, sb_inode_table_block = get_u64 input 40,
                 sb_data_start_block = get_u64 input 48, sb_root_inode = get_u64 input 56,
                 sb_flags = get_u32 input 64, sb_generation = get_u64 input 72,
                 sb_uuid = slice 80 16 input\<rparr>
       in bind_res (sb_validate sb) (\<lambda>_. Inr sb))"

section \<open>Inodes\<close>

datatype file_type = Regular | Directory

definition file_type_code :: "file_type \<Rightarrow> u8" where
  "file_type_code k = (case k of Regular \<Rightarrow> 1 | Directory \<Rightarrow> 2)"

definition file_type_decode :: "u8 \<Rightarrow> fs_error + file_type" where
  "file_type_decode v = (if v = 1 then Inr Regular else if v = 2 then Inr Directory else Inl F_CorruptInode)"

record inode =
  ino_kind :: file_type
  ino_permissions :: u16
  ino_size :: u64
  ino_created :: u64
  ino_modified :: u64
  ino_direct_blocks :: "u64 list"
  ino_indirect_block :: u64
  ino_block_count :: u64
  ino_generation :: u64

definition inode_new :: "file_type \<Rightarrow> u16 \<Rightarrow> u64 \<Rightarrow> inode" where
  "inode_new kind permissions timestamp =
    \<lparr>ino_kind = kind, ino_permissions = permissions, ino_size = 0, ino_created = timestamp,
     ino_modified = timestamp, ino_direct_blocks = replicate DIRECT_BLOCKS 0, ino_indirect_block = 0,
     ino_block_count = 0, ino_generation = timestamp\<rparr>"

definition inode_encode :: "inode \<Rightarrow> bytes \<Rightarrow> fs_error + bytes" where
  "inode_encode i out =
    (if length out < INODE_SIZE then Inl F_UnsupportedBlockSize
     else
       let out = put_slice 0 (replicate INODE_SIZE 0) out;
           out = put_slice 0 INODE_MAGIC out;
           out = out[4 := file_type_code (ino_kind i)];
           out = put_u16 6 (ino_permissions i) out;
           out = put_u64 8 (ino_size i) out;
           out = put_u64 16 (ino_created i) out;
           out = put_u64 24 (ino_modified i) out;
           out = fold (\<lambda>(k, b) out. put_slice (32 + k * 8) (le_bytes 8 b) out) (enumerate 0 (ino_direct_blocks i)) out;
           out = put_u64 128 (ino_indirect_block i) out;
           out = put_u64 136 (ino_block_count i) out;
           out = put_u64 144 (ino_generation i) out;
           out = put_u32 INODE_CHECKSUM_OFFSET 0 out
       in Inr (put_u32 INODE_CHECKSUM_OFFSET (crc32 (slice 0 INODE_SIZE out)) out))"

definition inode_decode :: "bytes \<Rightarrow> fs_error + inode" where
  "inode_decode input =
    (if length input < INODE_SIZE \<or> slice 0 4 input \<noteq> INODE_MAGIC then Inl F_CorruptInode
     else if crc32 (put_u32 INODE_CHECKSUM_OFFSET 0 (slice 0 INODE_SIZE input)) \<noteq> get_u32 input INODE_CHECKSUM_OFFSET
     then Inl F_ChecksumMismatch
     else
       let direct_blocks = map (\<lambda>k. get_u64 input (32 + k * 8)) [0..<DIRECT_BLOCKS] in
       bind_res (file_type_decode (input ! 4)) (\<lambda>kind.
       Inr \<lparr>ino_kind = kind, ino_permissions = get_u16 input 6, ino_size = get_u64 input 8,
            ino_created = get_u64 input 16, ino_modified = get_u64 input 24,
            ino_direct_blocks = direct_blocks, ino_indirect_block = get_u64 input 128,
            ino_block_count = get_u64 input 136, ino_generation = get_u64 input 144\<rparr>))"

section \<open>Directory entries\<close>

text \<open>\<open>str::from_utf8\<close> accepts exactly the well-formed UTF-8 sequences.\<close>

definition utf8_tail :: "u8 \<Rightarrow> bool" where
  "utf8_tail b \<longleftrightarrow> 0x80 \<le> b \<and> b \<le> 0xBF"

fun utf8_valid :: "bytes \<Rightarrow> bool" where
  "utf8_valid [] \<longleftrightarrow> True"
| "utf8_valid (a # bs) \<longleftrightarrow>
    (if a < 0x80 then utf8_valid bs
     else if 0xC2 \<le> a \<and> a \<le> 0xDF then
       (case bs of b # r \<Rightarrow> utf8_tail b \<and> utf8_valid r | _ \<Rightarrow> False)
     else if 0xE0 \<le> a \<and> a \<le> 0xEF then
       (case bs of b # c # r \<Rightarrow>
            utf8_tail b \<and> (a = 0xE0 \<longrightarrow> 0xA0 \<le> b) \<and> (a = 0xED \<longrightarrow> b \<le> 0x9F) \<and> utf8_tail c \<and> utf8_valid r
        | _ \<Rightarrow> False)
     else if 0xF0 \<le> a \<and> a \<le> 0xF4 then
       (case bs of b # c # d # r \<Rightarrow>
            utf8_tail b \<and> (a = 0xF0 \<longrightarrow> 0x90 \<le> b) \<and> (a = 0xF4 \<longrightarrow> b \<le> 0x8F) \<and> utf8_tail c \<and> utf8_tail d \<and> utf8_valid r
        | _ \<Rightarrow> False)
     else False)"

record directory_entry =
  de_inode :: u64
  de_kind :: file_type
  de_name :: bytes

definition validate_name :: "bytes \<Rightarrow> fs_error + unit" where
  "validate_name name =
    (if name = [] \<or> MAX_NAME_LENGTH < length name \<or> name = [0x2E] \<or> name = [0x2E, 0x2E] \<or>
        list_ex (\<lambda>b. b = 0x2F \<or> b = 0) name
     then Inl F_InvalidName else Inr ())"

definition de_new :: "u64 \<Rightarrow> file_type \<Rightarrow> bytes \<Rightarrow> fs_error + directory_entry" where
  "de_new ino kind name =
    bind_res (validate_name name) (\<lambda>_. Inr \<lparr>de_inode = ino, de_kind = kind, de_name = name\<rparr>)"

definition de_encode :: "directory_entry \<Rightarrow> bytes \<Rightarrow> fs_error + bytes" where
  "de_encode e out =
    bind_res (validate_name (de_name e)) (\<lambda>_.
    if length out < DIR_ENTRY_SIZE then Inl F_UnsupportedBlockSize
    else
      let out = put_slice 0 (replicate DIR_ENTRY_SIZE 0) out;
          out = put_u64 0 (de_inode e) out;
          out = out[8 := file_type_code (de_kind e)]
      in if 255 < length (de_name e) then Inl F_InvalidName
         else
           let out = out[9 := of_nat (length (de_name e))];
               out = put_slice DIRECTORY_NAME_OFFSET (de_name e) out;
               out = put_u32 DIRECTORY_CHECKSUM_OFFSET 0 out
           in Inr (put_u32 DIRECTORY_CHECKSUM_OFFSET (crc32 (slice 0 DIR_ENTRY_SIZE out)) out))"

definition de_decode :: "bytes \<Rightarrow> fs_error + directory_entry" where
  "de_decode input =
    (if length input < DIR_ENTRY_SIZE then Inl F_CorruptDirectory
     else if crc32 (put_u32 DIRECTORY_CHECKSUM_OFFSET 0 (slice 0 DIR_ENTRY_SIZE input)) \<noteq>
             get_u32 input DIRECTORY_CHECKSUM_OFFSET
     then Inl F_ChecksumMismatch
     else
       let ino = get_u64 input 0; len = unat (input ! 9) in
       if ino = 0 then Inl F_CorruptDirectory
       else if len = 0 \<or> MAX_NAME_LENGTH < len then Inl F_InvalidName
       else
         let name = slice DIRECTORY_NAME_OFFSET len input in
         if \<not> utf8_valid name then Inl F_InvalidName
         else
           bind_res (validate_name name) (\<lambda>_.
           case file_type_decode (input ! 8) of
             Inl _ \<Rightarrow> Inl F_CorruptDirectory
           | Inr kind \<Rightarrow> Inr \<lparr>de_inode = ino, de_kind = kind, de_name = name\<rparr>))"

definition data_blocks_for_size :: "u64 \<Rightarrow> u64" where
  "data_blocks_for_size n = div_ceil n (of_nat BLOCK_SIZE)"

section \<open>Bitmaps\<close>

definition bitmap_bit :: "bytes \<Rightarrow> u64 \<Rightarrow> fs_error + bool" where
  "bitmap_bit bm k =
    (let byte = unat (k div 8); shift = unat (k mod 8) in
     if byte < length bm then Inr (bm ! byte AND push_bit shift 1 \<noteq> 0) else Inl F_InvalidLayout)"

definition set_bitmap_bit :: "u64 \<Rightarrow> bool \<Rightarrow> bytes \<Rightarrow> fs_error + bytes" where
  "set_bitmap_bit k v bm =
    (let byte = unat (k div 8); shift = unat (k mod 8) in
     if byte < length bm then
       Inr (bm[byte := (if v then bm ! byte OR push_bit shift 1 else bm ! byte AND NOT (push_bit shift 1))])
     else Inl F_InvalidLayout)"

section \<open>Round trips\<close>

definition sb_ok :: "superblock \<Rightarrow> bool" where
  "sb_ok sb \<longleftrightarrow> sb_validate sb = Inr () \<and> length (sb_uuid sb) = 16"

definition name_ok :: "bytes \<Rightarrow> bool" where
  "name_ok name \<longleftrightarrow> validate_name name = Inr () \<and> utf8_valid name"

lemma file_type_round_trip [simp]: "file_type_decode (file_type_code k) = Inr k"
  by (cases k) (simp_all add: file_type_code_def file_type_decode_def)

definition sb_fields :: "superblock \<Rightarrow> u32 \<Rightarrow> bytes" where
  "sb_fields sb crc = MAGIC @ le_bytes 4 (sb_version sb) @ le_bytes 4 (sb_block_size sb) @
    le_bytes 8 (sb_total_blocks sb) @ le_bytes 8 (sb_inode_bitmap_block sb) @ le_bytes 8 (sb_block_bitmap_block sb) @
    le_bytes 8 (sb_inode_table_block sb) @ le_bytes 8 (sb_data_start_block sb) @ le_bytes 8 (sb_root_inode sb) @
    le_bytes 4 (sb_flags sb) @ replicate 4 0 @ le_bytes 8 (sb_generation sb) @ sb_uuid sb @ le_bytes 4 crc"

lemma length_magic [simp]: "length MAGIC = 8" "length INODE_MAGIC = 4"
  by (simp_all add: MAGIC_def INODE_MAGIC_def)

lemma sb_encode_fields:
  assumes uuid: "length (sb_uuid sb) = 16" and len: "4096 \<le> length out"
  shows "sb_encode sb out = Inr (sb_fields sb (crc32 (sb_fields sb 0)) @ replicate 3996 0 @ drop 4096 out)"
proof -
  have "\<not> length out < BLOCK_SIZE" using len by (simp add: BLOCK_SIZE_def)
  moreover have "put_slice 0 (replicate BLOCK_SIZE 0) out = replicate 4096 0 @ drop 4096 out"
    by (simp add: put_first BLOCK_SIZE_def)
  ultimately show ?thesis
    by (simp add: sb_encode_def Let_def field_defs field_simps uuid sb_fields_def)
qed

lemma sb_round_trip:
  assumes ok: "sb_ok sb" and len: "4096 \<le> length out"
  shows "\<exists>b. sb_encode sb out = Inr b \<and> length b = length out \<and> sb_decode b = Inr sb \<and> drop 4096 b = drop 4096 out"
proof -
  have uuid: "length (sb_uuid sb) = 16" using ok by (simp add: sb_ok_def)
  define b where "b = sb_fields sb (crc32 (sb_fields sb 0)) @ replicate 3996 0 @ drop 4096 out"
  have len: "length b = length out" "drop 4096 b = drop 4096 out" "4096 \<le> length b"
    using len uuid by (simp_all add: b_def sb_fields_def)
  have "put_u32 96 0 (slice 0 100 b) = sb_fields sb 0"
    by (simp add: b_def sb_fields_def slice_prefix uuid field_simps field_defs)
  then have "sb_decode b = Inr sb"
    using ok len(3) uuid
    by (simp add: sb_decode_def BLOCK_SIZE_def sb_ok_def)
       (simp add: b_def sb_fields_def field_defs field_simps Let_def, cases sb, simp)
  then show ?thesis using sb_encode_fields [OF uuid] assms(2) len by (simp add: b_def)
qed

definition inode_fields :: "inode \<Rightarrow> u32 \<Rightarrow> bytes" where
  "inode_fields i crc = INODE_MAGIC @ [file_type_code (ino_kind i)] @ replicate 1 0 @ le_bytes 2 (ino_permissions i) @
    le_bytes 8 (ino_size i) @ le_bytes 8 (ino_created i) @ le_bytes 8 (ino_modified i) @
    concat (map (le_bytes 8) (ino_direct_blocks i)) @ le_bytes 8 (ino_indirect_block i) @
    le_bytes 8 (ino_block_count i) @ le_bytes 8 (ino_generation i) @ replicate 100 0 @ le_bytes 4 crc"

lemma length_inode_fields: "length (ino_direct_blocks i) = 12 \<Longrightarrow> length (inode_fields i crc) = 256"
  by (simp add: inode_fields_def)

lemma inode_encode_fields:
  assumes d: "length (ino_direct_blocks i) = 12" and len: "256 \<le> length out"
  shows "inode_encode i out = Inr (inode_fields i (crc32 (inode_fields i 0)) @ drop 256 out)"
proof -
  have big: "\<not> length out < INODE_SIZE" using len by (simp add: INODE_SIZE_def)
  have z: "put_slice 0 (replicate INODE_SIZE 0) out = replicate 256 0 @ drop 256 out"
    by (simp add: put_first INODE_SIZE_def)
  have blocks: "fold (\<lambda>(k, b) out. put_slice (32 + k * 8) (le_bytes 8 b) out) (enumerate 0 (ino_direct_blocks i)) out'
      = put_slice 32 (concat (map (le_bytes 8) (ino_direct_blocks i))) out'" if "256 \<le> length out'" for out'
    using put_words [where w = 8 and off = 32 and n = 0 and cs = "ino_direct_blocks i" and out = out'] d that by simp
  show ?thesis
    using big unfolding inode_encode_def z Let_def field_defs
    by (simp add: field_simps blocks len d inode_fields_def INODE_CHECKSUM_OFFSET_def INODE_SIZE_def)
qed

lemma inode_round_trip:
  assumes d: "length (ino_direct_blocks i) = 12" and len: "256 \<le> length out"
  shows "\<exists>b. inode_encode i out = Inr b \<and> length b = length out \<and> inode_decode b = Inr i \<and> drop 256 b = drop 256 out"
proof -
  define b where "b = inode_fields i (crc32 (inode_fields i 0)) @ drop 256 out"
  have len: "length b = length out" "drop 256 b = drop 256 out" "256 \<le> length b"
    using len d by (simp_all add: b_def length_inode_fields)
  have crc: "put_u32 252 0 (slice 0 256 b) = inode_fields i 0"
    by (simp add: b_def inode_fields_def d field_simps field_defs)
  have blocks: "map (\<lambda>k. get_u64 b (32 + k * 8)) [0..<12] = ino_direct_blocks i"
  proof (rule nth_equalityI)
    fix k assume "k < length (map (\<lambda>k. get_u64 b (32 + k * 8)) [0..<12])"
    then have k: "k < 12" by simp
    define r where "r = le_bytes 8 (ino_indirect_block i) @ le_bytes 8 (ino_block_count i) @ le_bytes 8 (ino_generation i) @
      replicate 100 0 @ le_bytes 4 (crc32 (inode_fields i 0)) @ drop 256 out"
    have "slice (32 + k * 8) 8 b = slice (k * 8) 8 (concat (map (le_bytes 8) (ino_direct_blocks i)) @ r)"
      by (simp add: b_def inode_fields_def field_simps r_def)
    also have "\<dots> = slice (k * 8) 8 (concat (map (le_bytes 8) (ino_direct_blocks i)))"
      using k d by (simp add: slice_def)
    finally show "map (\<lambda>k. get_u64 b (32 + k * 8)) [0..<12] ! k = ino_direct_blocks i ! k"
      using k d by (simp add: get_u64_def slice_concat_words)
  qed (simp add: d)
  have "inode_decode b = Inr i"
    using len(3) d crc
    by (simp add: inode_decode_def INODE_CHECKSUM_OFFSET_def INODE_SIZE_def DIRECT_BLOCKS_def blocks)
       (simp add: b_def inode_fields_def field_defs field_simps nth_append)
  then show ?thesis using inode_encode_fields [OF d assms(2)] len by (simp add: b_def)
qed

definition de_fields :: "directory_entry \<Rightarrow> u32 \<Rightarrow> bytes" where
  "de_fields e crc = le_bytes 8 (de_inode e) @ [file_type_code (de_kind e)] @ [of_nat (length (de_name e))] @ replicate 2 0 @
    de_name e @ replicate (240 - length (de_name e)) 0 @ le_bytes 4 crc"

lemma name_okD:
  assumes "name_ok name"
  shows "0 < length name" "length name \<le> 240" "validate_name name = Inr ()" "utf8_valid name"
  using assms by (auto simp: name_ok_def validate_name_def MAX_NAME_LENGTH_def split: if_splits)

lemma length_de_fields: "length (de_name e) \<le> 240 \<Longrightarrow> length (de_fields e crc) = 256"
  by (simp add: de_fields_def)

lemma de_encode_fields:
  assumes n: "validate_name (de_name e) = Inr ()" "length (de_name e) \<le> 240" and len: "256 \<le> length out"
  shows "de_encode e out = Inr (de_fields e (crc32 (de_fields e 0)) @ drop 256 out)"
proof -
  have big: "\<not> length out < DIR_ENTRY_SIZE" using len by (simp add: DIR_ENTRY_SIZE_def)
  have z: "put_slice 0 (replicate DIR_ENTRY_SIZE 0) out = replicate 256 0 @ drop 256 out"
    by (simp add: put_first DIR_ENTRY_SIZE_def)
  show ?thesis
    using big n unfolding de_encode_def z Let_def field_defs
    by (simp add: field_simps len de_fields_def DIRECTORY_CHECKSUM_OFFSET_def DIR_ENTRY_SIZE_def DIRECTORY_NAME_OFFSET_def)
qed

lemma de_round_trip:
  assumes n: "name_ok (de_name e)" and ino: "de_inode e \<noteq> 0" and len: "256 \<le> length out"
  shows "\<exists>b. de_encode e out = Inr b \<and> length b = length out \<and> de_decode b = Inr e \<and> drop 256 b = drop 256 out"
proof -
  note nm = name_okD [OF n]
  define b where "b = de_fields e (crc32 (de_fields e 0)) @ drop 256 out"
  have len: "length b = length out" "drop 256 b = drop 256 out" "256 \<le> length b"
    using len nm(2) by (simp_all add: b_def length_de_fields)
  have crc: "put_u32 252 0 (slice 0 256 b) = de_fields e 0"
    using nm(2) by (simp add: b_def de_fields_def field_simps field_defs)
  have ln: "unat (of_nat (length (de_name e)) :: u8) = length (de_name e)"
    using nm(2) by (intro unat_of_nat_fits) simp
  have "de_decode b = Inr e"
    using len(3) crc nm ln ino
    by (simp add: de_decode_def DIRECTORY_CHECKSUM_OFFSET_def DIR_ENTRY_SIZE_def DIRECTORY_NAME_OFFSET_def MAX_NAME_LENGTH_def Let_def)
       (simp add: b_def de_fields_def field_defs field_simps nth_append)
  then show ?thesis using de_encode_fields [OF nm(3,2) assms(3)] len by (simp add: b_def)
qed

section \<open>Properties\<close>

text \<open>C38. The on-disk records survive encoding: a valid superblock, an inode and a directory entry with a
  valid name are decoded to themselves from every buffer they are encoded into, with their checksums.\<close>

theorem nexfs_records_round_trip:
  assumes "sb_validate sb = Inr ()" "length (sb_uuid sb) = 16" "4096 \<le> length out1"
    and "length (ino_direct_blocks i) = 12" "256 \<le> length out2"
    and "validate_name (de_name e) = Inr ()" "utf8_valid (de_name e)" "de_inode e \<noteq> 0" "256 \<le> length out3"
  shows "bind_res (sb_encode sb out1) sb_decode = Inr sb \<and>
    bind_res (inode_encode i out2) inode_decode = Inr i \<and>
    bind_res (de_encode e out3) de_decode = Inr e"
  using sb_round_trip [of sb out1] inode_round_trip [of i out2] de_round_trip [of e out3] assms
  by (auto simp: sb_ok_def name_ok_def)

theorem nexfs_records_round_trip_witness:
  "let sb = \<lparr>sb_version = 1, sb_block_size = 4096, sb_total_blocks = 64, sb_inode_bitmap_block = 2,
     sb_block_bitmap_block = 3, sb_inode_table_block = 4, sb_data_start_block = 8, sb_root_inode = 1,
     sb_flags = 1, sb_generation = 7, sb_uuid = replicate 16 9\<rparr>;
     i = (inode_new Regular 0x1A4 5)\<lparr>ino_size := 77\<rparr>;
     e = \<lparr>de_inode = 3, de_kind = Regular, de_name = [0x61, 0xC3, 0xA9]\<rparr> in
   bind_res (sb_encode sb (replicate 4096 0)) sb_decode = Inr sb \<and>
   bind_res (inode_encode i (replicate 256 0)) inode_decode = Inr i \<and>
   bind_res (de_encode e (replicate 256 0)) de_decode = Inr e"
  unfolding Let_def
  by (rule nexfs_records_round_trip)
     (simp_all add: sb_validate_def nexfs_consts block_bitmap_blocks_def div_ceil_def checked_sub_def inode_new_def
        validate_name_def utf8_tail_def)

end
