(* ===== verification/Nexfs_Check.thy ===== *)
theory Nexfs_Check
  imports Nexfs_Layout
begin

text \<open>
  \<open>crates/nexfs/src/lib.rs\<close> over any block device: formatting a volume and the consistency check
  that every mount runs first. The lemmas relate the check to the blocks of a fault-free device.
\<close>

section \<open>Blocks\<close>

text \<open>The integers \<open>a..b\<close>, a result computed from the device alone, and \<open>From<StorageError>\<close>.\<close>

definition u64_range :: "u64 \<Rightarrow> u64 \<Rightarrow> u64 list" where
  "u64_range a b = map of_nat [unat a..<unat b]"

definition ask :: "('s \<Rightarrow> 'e + 'a) \<Rightarrow> ('s, 'e, 'a) action" where
  "ask f s = (f s, s)"

lemma ask_simps [simp]: "ask f s = (f s, s)"
  by (simp add: ask_def)

abbreviation io :: "('d, storage_error, 'a) action \<Rightarrow> ('d, fs_error, 'a) action" where
  "io m \<equiv> map_err F_Storage m"

definition sectors_per_block :: "'d block_ops \<Rightarrow> 'd \<Rightarrow> fs_error + u64" where
  "sectors_per_block ops d =
    (let ss = sector_size ops d in
     if ss = 0 \<or> BLOCK_SIZE_U32 mod ss \<noteq> 0 then Inl F_UnsupportedBlockSize
     else Inr (ucast (BLOCK_SIZE_U32 div ss)))"

definition device_bytes :: "'d block_ops \<Rightarrow> 'd \<Rightarrow> fs_error + u64" where
  "device_bytes ops d = ok_or F_TooSmall (checked_mul (sector_count ops d) (ucast (sector_size ops d)))"

definition fs_read_block :: "'d block_ops \<Rightarrow> superblock \<Rightarrow> u64 \<Rightarrow> nat \<Rightarrow> ('d, fs_error, bytes) action" where
  "fs_read_block ops sb block len =
    (if len \<noteq> BLOCK_SIZE \<or> sb_total_blocks sb \<le> block then fail_act F_InvalidLayout
     else bind_act (ask (sectors_per_block ops)) (\<lambda>spb. io (read_vec ops (block * spb) len)))"

definition read_superblock :: "'d block_ops \<Rightarrow> ('d, fs_error, superblock) action" where
  "read_superblock ops =
    bind_act (ask (sectors_per_block ops)) (\<lambda>spb.
    bind_act (io (read_vec ops (SUPERBLOCK_BLOCK * spb) BLOCK_SIZE)) (\<lambda>block.
    lift_res (sb_decode block)))"

definition write_superblock :: "'d block_ops \<Rightarrow> superblock \<Rightarrow> ('d, fs_error, unit) action" where
  "write_superblock ops sb =
    bind_act (ask (sectors_per_block ops)) (\<lambda>spb.
    bind_act (lift_res (sb_encode sb (replicate BLOCK_SIZE 0))) (\<lambda>block.
    io (write_sectors ops (SUPERBLOCK_BLOCK * spb) block)))"

definition fs_read_inode :: "'d block_ops \<Rightarrow> superblock \<Rightarrow> u64 \<Rightarrow> ('d, fs_error, inode) action" where
  "fs_read_inode ops sb n =
    bind_act (lift_res (inode_count sb)) (\<lambda>count.
    if count \<le> n then fail_act F_InvalidLayout
    else
      bind_act (lift_res (ok_or F_InvalidLayout (checked_mul n (of_nat INODE_SIZE)))) (\<lambda>byte_offset.
      let block_number = sb_inode_table_block sb + byte_offset div BLOCK_SIZE_U64;
          offset = unat (byte_offset mod BLOCK_SIZE_U64) in
      bind_act (fs_read_block ops sb block_number BLOCK_SIZE) (\<lambda>block.
      lift_res (inode_decode (slice offset INODE_SIZE block)))))"

section \<open>Formatting\<close>

definition clamp :: "u64 \<Rightarrow> u64 \<Rightarrow> u64 \<Rightarrow> u64" where
  "clamp x lo hi = (if x < lo then lo else if hi < x then hi else x)"

text \<open>The bits of one block of the block bitmap: everything before the data region is in use.\<close>

definition reserved_bits :: "u64 \<Rightarrow> u64 \<Rightarrow> fs_error + bytes" where
  "reserved_bits data_start index =
    bind_res (ok_or F_TooLarge (checked_mul index BITMAP_BITS_PER_BLOCK)) (\<lambda>first_bit.
    bind_res (ok_or F_TooLarge (checked_add first_bit BITMAP_BITS_PER_BLOCK)) (\<lambda>next_bit.
    fold_res (\<lambda>block. set_bitmap_bit (block - first_bit) True)
      (u64_range first_bit (min data_start next_bit)) (replicate BLOCK_SIZE 0)))"

definition format_superblock :: "u64 \<Rightarrow> bytes \<Rightarrow> fs_error + superblock" where
  "format_superblock total_blocks uuid =
    (if total_blocks < MIN_BLOCKS then Inl F_TooSmall
     else
       let inode_table_block = 3 + div_ceil total_blocks BITMAP_BITS_PER_BLOCK;
           inode_table_blocks = clamp (total_blocks div 256) 4 MAX_INODE_TABLE_BLOCKS;
           data_start_block = inode_table_block + inode_table_blocks
       in if total_blocks \<le> data_start_block then Inl F_TooSmall
          else
            let sb = \<lparr>sb_version = VERSION, sb_block_size = BLOCK_SIZE_U32, sb_total_blocks = total_blocks,
                      sb_inode_bitmap_block = 2, sb_block_bitmap_block = 3, sb_inode_table_block = inode_table_block,
                      sb_data_start_block = data_start_block, sb_root_inode = 1, sb_flags = CLEAN_FLAG,
                      sb_generation = 1, sb_uuid = uuid\<rparr>
            in bind_res (sb_validate sb) (\<lambda>_. Inr sb))"

definition fs_format :: "'d block_ops \<Rightarrow> bytes \<Rightarrow> ('d, fs_error, superblock) action" where
  "fs_format ops uuid =
    bind_act (ask (sectors_per_block ops)) (\<lambda>spb.
    bind_act (ask (device_bytes ops)) (\<lambda>device_size.
    bind_act (lift_res (format_superblock (device_size div BLOCK_SIZE_U64) uuid)) (\<lambda>sb.
    bind_act (write_superblock ops (sb\<lparr>sb_flags := sb_flags sb AND NOT CLEAN_FLAG\<rparr>)) (\<lambda>_.
    bind_act (io (flush_device ops)) (\<lambda>_.
    bind_act (fold_act (\<lambda>block _. io (write_sectors ops (block * spb) (replicate BLOCK_SIZE 0)))
      (u64_range (sb_inode_bitmap_block sb) (sb_data_start_block sb)) ()) (\<lambda>_.
    bind_act (lift_res (set_bitmap_bit 0 True (replicate BLOCK_SIZE 0))) (\<lambda>bitmap.
    bind_act (lift_res (set_bitmap_bit (sb_root_inode sb) True bitmap)) (\<lambda>inode_bitmap.
    bind_act (io (write_sectors ops (sb_inode_bitmap_block sb * spb) inode_bitmap)) (\<lambda>_.
    bind_act (fold_act (\<lambda>index _.
        bind_act (lift_res (reserved_bits (sb_data_start_block sb) index)) (\<lambda>block_bitmap.
        io (write_sectors ops ((sb_block_bitmap_block sb + index) * spb) block_bitmap)))
      (u64_range 0 (block_bitmap_blocks sb)) ()) (\<lambda>_.
    let root = inode_new Directory 0x1ED (sb_generation sb); inode_block = replicate BLOCK_SIZE 0 in
    bind_act (lift_res (inode_encode root (slice INODE_SIZE INODE_SIZE inode_block))) (\<lambda>encoded.
    bind_act (io (write_sectors ops (sb_inode_table_block sb * spb) (put_slice INODE_SIZE encoded inode_block))) (\<lambda>_.
    bind_act (write_superblock ops sb) (\<lambda>_.
    bind_act (io (flush_device ops)) (\<lambda>_.
    return_act sb))))))))))))))"

section \<open>The consistency check\<close>

record check_report =
  cr_superblock :: superblock
  cr_allocated_inodes :: u64
  cr_allocated_blocks :: u64
  cr_files :: u64
  cr_directories :: u64
  cr_directory_entries :: u64

text \<open>The first steps of \<open>check_detailed\<close> and \<open>inspect_superblock\<close>: a clean superblock that fits the device.\<close>

definition clean_superblock :: "'d block_ops \<Rightarrow> ('d, fs_error, superblock) action" where
  "clean_superblock ops =
    bind_act (read_superblock ops) (\<lambda>sb.
    if \<not> is_clean sb then fail_act F_Dirty
    else
      bind_act (ask (device_bytes ops)) (\<lambda>size.
      if size div BLOCK_SIZE_U64 < sb_total_blocks sb then fail_act F_InvalidLayout else return_act sb))"

definition read_inode_bitmap :: "'d block_ops \<Rightarrow> superblock \<Rightarrow> ('d, fs_error, bytes) action" where
  "read_inode_bitmap ops sb =
    bind_act (fs_read_block ops sb (sb_inode_bitmap_block sb) BLOCK_SIZE) (\<lambda>bitmap.
    bind_act (lift_res (bitmap_bit bitmap 0)) (\<lambda>zero.
    if \<not> zero then fail_act F_InvalidLayout
    else
      bind_act (lift_res (bitmap_bit bitmap (sb_root_inode sb))) (\<lambda>root.
      if \<not> root then fail_act F_InvalidLayout else return_act bitmap)))"

definition inspect_superblock :: "'d block_ops \<Rightarrow> ('d, fs_error, superblock) action" where
  "inspect_superblock ops =
    bind_act (clean_superblock ops) (\<lambda>sb.
    bind_act (read_inode_bitmap ops sb) (\<lambda>_.
    bind_act (fs_read_inode ops sb (sb_root_inode sb)) (\<lambda>root.
    if ino_kind root \<noteq> Directory then fail_act F_InvalidLayout else return_act sb)))"

definition read_bitmap_block :: "'d block_ops \<Rightarrow> superblock \<Rightarrow> u64 \<Rightarrow> bytes \<Rightarrow> ('d, fs_error, bytes) action" where
  "read_bitmap_block ops sb index bm =
    bind_act (lift_res (ok_or F_TooLarge (checked_mul index (of_nat BLOCK_SIZE)))) (\<lambda>start.
    bind_act (fs_read_block ops sb (sb_block_bitmap_block sb + index) BLOCK_SIZE) (\<lambda>block.
    return_act (put_slice (unat start) block bm)))"

definition read_block_bitmap :: "'d block_ops \<Rightarrow> superblock \<Rightarrow> ('d, fs_error, bytes) action" where
  "read_block_bitmap ops sb =
    bind_act (lift_res (ok_or F_TooLarge (checked_mul (block_bitmap_blocks sb) (of_nat BLOCK_SIZE)))) (\<lambda>bitmap_length.
    fold_act (read_bitmap_block ops sb) (u64_range 0 (block_bitmap_blocks sb)) (replicate (unat bitmap_length) 0))"

definition claim_reserved :: "bytes \<Rightarrow> u64 \<Rightarrow> bytes \<Rightarrow> fs_error + bytes" where
  "claim_reserved bm block owners =
    bind_res (bitmap_bit bm block) (\<lambda>used.
    if \<not> used \<or> owners ! unat block \<noteq> 0 then Inl F_InvalidLayout
    else Inr (owners[unat block := 1]))"

definition claim_data_block :: "superblock \<Rightarrow> bytes \<Rightarrow> u64 \<Rightarrow> bytes \<Rightarrow> fs_error + bytes" where
  "claim_data_block sb bm block owners =
    (if block < sb_data_start_block sb \<or> sb_total_blocks sb \<le> block then Inl F_InvalidLayout
     else
       bind_res (bitmap_bit bm block) (\<lambda>used.
       if \<not> used then Inl F_InvalidLayout
       else if length owners \<le> unat block then Inl F_InvalidLayout
       else if owners ! unat block \<noteq> 0 then Inl F_InvalidLayout
       else Inr (owners[unat block := 2])))"

text \<open>The pointers up to \<open>count\<close> are claimed, the others must be zero.\<close>

definition claim_pointer :: "superblock \<Rightarrow> bytes \<Rightarrow> nat \<Rightarrow> nat \<times> u64 \<Rightarrow> bytes \<Rightarrow> fs_error + bytes" where
  "claim_pointer sb bm count p owners =
    (let (index, pointer) = p in
     if index < count then claim_data_block sb bm pointer owners
     else if pointer \<noteq> 0 then Inl F_CorruptInode
     else Inr owners)"

definition validate_inode_blocks ::
  "'d block_ops \<Rightarrow> superblock \<Rightarrow> bytes \<Rightarrow> bytes \<Rightarrow> inode \<Rightarrow> ('d, fs_error, bytes) action" where
  "validate_inode_blocks ops sb bm owners i =
    (let expected = data_blocks_for_size (ino_size i) in
     if expected \<noteq> ino_block_count i \<or> of_nat MAX_FILE_BLOCKS < expected then fail_act F_CorruptInode
     else
       let direct_count = min expected (of_nat DIRECT_BLOCKS) in
       bind_act (lift_res (fold_res (claim_pointer sb bm (unat direct_count))
         (enumerate 0 (ino_direct_blocks i)) owners)) (\<lambda>owners.
       if expected \<le> of_nat DIRECT_BLOCKS then
         if ino_indirect_block i \<noteq> 0 then fail_act F_CorruptInode else return_act owners
       else
         bind_act (lift_res (claim_data_block sb bm (ino_indirect_block i) owners)) (\<lambda>owners.
         bind_act (fs_read_block ops sb (ino_indirect_block i) BLOCK_SIZE) (\<lambda>pointers.
         lift_res (fold_res (claim_pointer sb bm (unat (expected - of_nat DIRECT_BLOCKS)))
           (map (\<lambda>k. (k, get_u64 pointers (k * 8))) [0..<INDIRECT_POINTERS]) owners)))))"

record scan_state =
  sc_owners :: bytes
  sc_inodes :: "inode option list"
  sc_allocated :: u64
  sc_files :: u64
  sc_directories :: u64

definition scan_inode ::
  "'d block_ops \<Rightarrow> superblock \<Rightarrow> bytes \<Rightarrow> bytes \<Rightarrow> u64 \<Rightarrow> scan_state \<Rightarrow> ('d, fs_error, scan_state) action" where
  "scan_inode ops sb inode_bitmap block_bitmap n s =
    bind_act (lift_res (bitmap_bit inode_bitmap n)) (\<lambda>used.
    if \<not> used then return_act s
    else
      bind_act (fs_read_inode ops sb n) (\<lambda>i.
      if n = sb_root_inode sb \<and> ino_kind i \<noteq> Directory then fail_act F_InvalidLayout
      else if ino_kind i = Directory \<and> ino_size i mod of_nat DIR_ENTRY_SIZE \<noteq> 0 then fail_act F_CorruptDirectory
      else
        bind_act (validate_inode_blocks ops sb block_bitmap (sc_owners s) i) (\<lambda>owners.
        return_act
          \<lparr>sc_owners = owners, sc_inodes = (sc_inodes s)[unat n := Some i], sc_allocated = sc_allocated s + 1,
           sc_files = (if ino_kind i = Regular then sc_files s + 1 else sc_files s),
           sc_directories = (if ino_kind i = Directory then sc_directories s + 1 else sc_directories s)\<rparr>)))"

definition check_data_bit :: "bytes \<Rightarrow> bytes \<Rightarrow> u64 \<Rightarrow> unit \<Rightarrow> fs_error + unit" where
  "check_data_bit bm owners block u =
    bind_res (bitmap_bit bm block) (\<lambda>allocated.
    if allocated \<noteq> (owners ! unat block = 2) then Inl F_InvalidLayout else Inr ())"

definition check_clear_bit :: "bytes \<Rightarrow> u64 \<Rightarrow> unit \<Rightarrow> fs_error + unit" where
  "check_clear_bit bm k u =
    bind_res (bitmap_bit bm k) (\<lambda>set. if set then Inl F_InvalidLayout else Inr ())"

definition read_all_inode_data :: "'d block_ops \<Rightarrow> superblock \<Rightarrow> inode \<Rightarrow> ('d, fs_error, bytes) action" where
  "read_all_inode_data ops sb i =
    (let len = unat (ino_size i) in
     if len = 0 then return_act []
     else
       bind_act (if of_nat DIRECT_BLOCKS < ino_block_count i
                 then bind_act (fs_read_block ops sb (ino_indirect_block i) BLOCK_SIZE) (\<lambda>b. return_act (Some b))
                 else return_act None) (\<lambda>indirect.
       fold_act (\<lambda>index out.
           bind_act (lift_res
             (if index < DIRECT_BLOCKS then Inr (ino_direct_blocks i ! index)
              else bind_res (ok_or F_CorruptInode indirect) (\<lambda>pointers.
                Inr (get_u64 pointers ((index - DIRECT_BLOCKS) * 8))))) (\<lambda>block_number.
           bind_act (fs_read_block ops sb block_number BLOCK_SIZE) (\<lambda>block.
           return_act (out @ take (min BLOCK_SIZE (len - index * BLOCK_SIZE)) block))))
         [0..<(len + BLOCK_SIZE - 1) div BLOCK_SIZE] []))"

text \<open>
  The walk through the directory tree. \<open>reached\<close> is the set of the indices whose flag is set, and
  \<open>pending\<close> is the stack with its top first.
\<close>

record walk_state =
  wk_reached :: "nat set"
  wk_pending :: "u64 list"
  wk_entries :: u64

definition inode_slot :: "inode option list \<Rightarrow> u64 \<Rightarrow> inode option" where
  "inode_slot inodes n = (if unat n < length inodes then inodes ! unat n else None)"

definition visit_entry ::
  "superblock \<Rightarrow> u64 \<Rightarrow> inode option list \<Rightarrow> bytes \<Rightarrow> bytes set \<times> walk_state \<Rightarrow> fs_error + bytes set \<times> walk_state" where
  "visit_entry sb count inodes encoded s =
    (let (names, w) = s in
     bind_res (de_decode encoded) (\<lambda>e.
     let w = w\<lparr>wk_entries := wk_entries w + 1\<rparr> in
     if de_name e \<in> names then Inl F_CorruptDirectory
     else if de_inode e = sb_root_inode sb \<or> count \<le> de_inode e then Inl F_CorruptDirectory
     else
       bind_res (ok_or F_CorruptDirectory (inode_slot inodes (de_inode e))) (\<lambda>target.
       if ino_kind target \<noteq> de_kind e \<or> unat (de_inode e) \<in> wk_reached w then Inl F_CorruptDirectory
       else
         Inr (insert (de_name e) names,
           w\<lparr>wk_reached := insert (unat (de_inode e)) (wk_reached w),
             wk_pending := (if ino_kind target = Directory then de_inode e # wk_pending w else wk_pending w)\<rparr>))))"

definition entry_chunks :: "bytes \<Rightarrow> bytes list" where
  "entry_chunks contents = map (\<lambda>k. slice (k * DIR_ENTRY_SIZE) DIR_ENTRY_SIZE contents) [0..<length contents div DIR_ENTRY_SIZE]"

definition visit_directory ::
  "'d block_ops \<Rightarrow> superblock \<Rightarrow> u64 \<Rightarrow> inode option list \<Rightarrow> u64 \<Rightarrow> walk_state \<Rightarrow> ('d, fs_error, walk_state) action" where
  "visit_directory ops sb count inodes n w =
    bind_act (lift_res (ok_or F_CorruptDirectory (inode_slot inodes n))) (\<lambda>directory.
    if ino_kind directory \<noteq> Directory then fail_act F_NotDirectory
    else
      bind_act (read_all_inode_data ops sb directory) (\<lambda>contents.
      if length contents mod DIR_ENTRY_SIZE \<noteq> 0 then fail_act F_CorruptDirectory
      else
        bind_act (lift_res (fold_res (visit_entry sb count inodes) (entry_chunks contents) ({}, w))) (\<lambda>(names, w).
        return_act w)))"

definition unreached :: "inode option list \<Rightarrow> nat set \<Rightarrow> nat" where
  "unreached inodes reached = card ({..<length inodes} - reached)"

lemma visit_entry_measure:
  assumes "visit_entry sb count inodes c (names, w) = Inr (names', w')"
  shows "2 * unreached inodes (wk_reached w') + length (wk_pending w')
    \<le> 2 * unreached inodes (wk_reached w) + length (wk_pending w)"
proof -
  obtain k where k: "k < length inodes" "k \<notin> wk_reached w" "wk_reached w' = insert k (wk_reached w)"
    "length (wk_pending w') \<le> Suc (length (wk_pending w))"
    using assms by (auto simp: visit_entry_def bind_res_Inr_iff inode_slot_def Let_def split: if_splits)
  have "{..<length inodes} - wk_reached w = insert k ({..<length inodes} - wk_reached w')"
    using k by auto
  moreover have "k \<notin> {..<length inodes} - wk_reached w'" using k by simp
  ultimately have "unreached inodes (wk_reached w) = Suc (unreached inodes (wk_reached w'))"
    by (simp add: unreached_def)
  with k show ?thesis by simp
qed

lemma visit_entries_measure:
  assumes "fold_res (visit_entry sb count inodes) cs s = Inr s'"
  shows "2 * unreached inodes (wk_reached (snd s')) + length (wk_pending (snd s'))
    \<le> 2 * unreached inodes (wk_reached (snd s)) + length (wk_pending (snd s))"
  using assms
proof (induction cs arbitrary: s)
  case (Cons c cs)
  then obtain t where t: "visit_entry sb count inodes c s = Inr t" "fold_res (visit_entry sb count inodes) cs t = Inr s'"
    by (auto simp: bind_res_Inr_iff)
  show ?case using Cons.IH [OF t(2)] visit_entry_measure [of sb count inodes c "fst s" "snd s" "fst t" "snd t"] t(1) by simp
qed simp

lemma visit_directory_measure:
  assumes "visit_directory ops sb count inodes n w d = (Inr w', d')"
  shows "2 * unreached inodes (wk_reached w') + length (wk_pending w')
    \<le> 2 * unreached inodes (wk_reached w) + length (wk_pending w)"
  using assms visit_entries_measure
  by (fastforce simp: visit_directory_def bind_act_Inr_iff split: if_splits prod.splits)

function walk_directories ::
  "'d block_ops \<Rightarrow> superblock \<Rightarrow> u64 \<Rightarrow> inode option list \<Rightarrow> walk_state \<Rightarrow> ('d, fs_error, walk_state) action" where
  "walk_directories ops sb count inodes w d =
    (case wk_pending w of
       [] \<Rightarrow> (Inr w, d)
     | n # rest \<Rightarrow>
       (case visit_directory ops sb count inodes n (w\<lparr>wk_pending := rest\<rparr>) d of
          (Inl e, d') \<Rightarrow> (Inl e, d')
        | (Inr w', d') \<Rightarrow> walk_directories ops sb count inodes w' d'))"
  by pat_completeness auto
termination
proof (relation "measure (\<lambda>(ops, sb, count, inodes, w, d). 2 * unreached inodes (wk_reached w) + length (wk_pending w))", goal_cases)
  case 1
  then show ?case by simp
next
  case (2 ops sb count inodes w d n rest r d' w')
  then have "visit_directory ops sb count inodes n (w\<lparr>wk_pending := rest\<rparr>) d = (Inr w', d')" by simp
  from visit_directory_measure [OF this] 2(1) show ?case by simp
qed

definition check_reached :: "bytes \<Rightarrow> nat set \<Rightarrow> u64 \<Rightarrow> unit \<Rightarrow> fs_error + unit" where
  "check_reached inode_bitmap reached n u =
    (if unat n div 8 < length inode_bitmap then
       bind_res (bitmap_bit inode_bitmap n) (\<lambda>used.
       if used \<and> unat n \<notin> reached then Inl F_InvalidLayout else Inr ())
     else Inr ())"

definition count_ones :: "u8 \<Rightarrow> u64" where
  "count_ones b = of_nat (length (filter (bit b) [0..<8]))"

definition check_detailed :: "'d block_ops \<Rightarrow> ('d, fs_error, check_report) action" where
  "check_detailed ops =
    bind_act (clean_superblock ops) (\<lambda>sb.
    bind_act (lift_res (inode_count sb)) (\<lambda>count.
    bind_act (read_inode_bitmap ops sb) (\<lambda>inode_bitmap.
    bind_act (read_block_bitmap ops sb) (\<lambda>block_bitmap.
    bind_act (lift_res (fold_res (claim_reserved block_bitmap) (u64_range 0 (sb_data_start_block sb))
      (replicate (unat (sb_total_blocks sb)) 0))) (\<lambda>owners.
    bind_act (fold_act (scan_inode ops sb inode_bitmap block_bitmap) (u64_range 1 count)
      \<lparr>sc_owners = owners, sc_inodes = replicate (unat count) None, sc_allocated = 0, sc_files = 0, sc_directories = 0\<rparr>) (\<lambda>s.
    bind_act (lift_res (fold_res (check_data_bit block_bitmap (sc_owners s))
      (u64_range (sb_data_start_block sb) (sb_total_blocks sb)) ())) (\<lambda>_.
    bind_act (lift_res (fold_res (check_clear_bit block_bitmap)
      (u64_range (sb_total_blocks sb) (of_nat (length block_bitmap) * 8)) ())) (\<lambda>_.
    bind_act (lift_res (fold_res (check_clear_bit inode_bitmap) (u64_range count BITMAP_BITS_PER_BLOCK) ())) (\<lambda>_.
    bind_act (walk_directories ops sb count (sc_inodes s)
      \<lparr>wk_reached = {unat (sb_root_inode sb)}, wk_pending = [sb_root_inode sb], wk_entries = 0\<rparr>) (\<lambda>w.
    bind_act (lift_res (fold_res (check_reached inode_bitmap (wk_reached w)) (u64_range 1 count) ())) (\<lambda>_.
    return_act
      \<lparr>cr_superblock = sb, cr_allocated_inodes = sc_allocated s,
       cr_allocated_blocks = foldl (+) 0 (map count_ones block_bitmap), cr_files = sc_files s,
       cr_directories = sc_directories s, cr_directory_entries = wk_entries w\<rparr>)))))))))))"

definition fs_check :: "'d block_ops \<Rightarrow> ('d, fs_error, superblock) action" where
  "fs_check ops = bind_act (check_detailed ops) (\<lambda>report. return_act (cr_superblock report))"

end
