(* ===== verification/Nexfs_Volume.thy ===== *)
theory Nexfs_Volume
  imports Nexfs_Check
begin

text \<open>
  \<open>crates/nexfs/src/volume.rs\<close>: a mounted NexFS volume and all its operations. The state is the device
  together with the superblock in memory; every method is an action on it, so that the writes made
  before a failure are kept. A method that takes \<open>&mut Inode\<close> returns the changed inode, which its
  callers drop when it fails. Paths and names are the UTF-8 bytes of the \<open>str\<close>.
\<close>

section \<open>The volume and its blocks\<close>

definition DEFAULT_FILE_PERMISSIONS :: u16 where "DEFAULT_FILE_PERMISSIONS = 0x1A4"
definition DEFAULT_DIRECTORY_PERMISSIONS :: u16 where "DEFAULT_DIRECTORY_PERMISSIONS = 0x1ED"

record file_stat =
  st_inode :: u64
  st_kind :: file_type
  st_permissions :: u16
  st_size :: u64
  st_created :: u64
  st_modified :: u64
  st_blocks :: u64

record 'd nexfs =
  vol_device :: 'd
  vol_superblock :: superblock

text \<open>An operation of the device under the volume.\<close>

definition on_device :: "('d, fs_error, 'a) action \<Rightarrow> ('d nexfs, fs_error, 'a) action" where
  "on_device m v = (case m (vol_device v) of (r, d) \<Rightarrow> (r, v\<lparr>vol_device := d\<rparr>))"

text \<open>\<open>read_sectors\<close> into a buffer that the caller provides.\<close>

definition read_into :: "'d block_ops \<Rightarrow> u64 \<Rightarrow> bytes \<Rightarrow> ('d, storage_error, bytes) action" where
  "read_into ops lba buf d =
    (case read_sectors ops lba buf d of
       (Inl e, _, d') \<Rightarrow> (Inl e, d')
     | (Inr _, buf', d') \<Rightarrow> (Inr buf', d'))"

definition vol_read_block :: "'d block_ops \<Rightarrow> u64 \<Rightarrow> bytes \<Rightarrow> ('d nexfs, fs_error, bytes) action" where
  "vol_read_block ops block output v =
    (if length output \<noteq> BLOCK_SIZE \<or> sb_total_blocks (vol_superblock v) \<le> block then fail_act F_InvalidLayout
     else on_device (bind_act (ask (sectors_per_block ops)) (\<lambda>spb. io (read_into ops (block * spb) output)))) v"

definition vol_write_block :: "'d block_ops \<Rightarrow> u64 \<Rightarrow> bytes \<Rightarrow> ('d nexfs, fs_error, unit) action" where
  "vol_write_block ops block input v =
    (if length input \<noteq> BLOCK_SIZE \<or> sb_total_blocks (vol_superblock v) \<le> block then fail_act F_InvalidLayout
     else on_device (bind_act (ask (sectors_per_block ops)) (\<lambda>spb. io (write_sectors ops (block * spb) input)))) v"

definition next_timestamp :: "('d nexfs, fs_error, u64) action" where
  "next_timestamp v =
    (let generation = saturating_add (sb_generation (vol_superblock v)) 1 in
     (Inr generation, v\<lparr>vol_superblock := (vol_superblock v)\<lparr>sb_generation := generation\<rparr>\<rparr>))"

definition finish_mutation :: "'d block_ops \<Rightarrow> ('d nexfs, fs_error, unit) action" where
  "finish_mutation ops v =
    on_device (bind_act (write_superblock ops (vol_superblock v)) (\<lambda>_. io (flush_device ops))) v"

abbreviation superblock_of :: "('d nexfs, fs_error, superblock) action" where
  "superblock_of \<equiv> \<lambda>v. (Inr (vol_superblock v), v)"

section \<open>The bitmaps\<close>

definition bit_is_set :: "bytes \<Rightarrow> u64 \<Rightarrow> fs_error + bool" where
  "bit_is_set bitmap k =
    (let byte = unat (k div 8); shift = unat (k mod 8) in
     if byte < length bitmap then Inr (bitmap ! byte AND push_bit shift 1 \<noteq> 0) else Inl F_InvalidLayout)"

definition set_bit_to :: "bytes \<Rightarrow> u64 \<Rightarrow> bool \<Rightarrow> fs_error + bytes" where
  "set_bit_to bitmap k value =
    (let byte = unat (k div 8); shift = unat (k mod 8) in
     if byte < length bitmap then
       (if value then Inr (bitmap[byte := bitmap ! byte OR push_bit shift 1])
        else Inr (bitmap[byte := bitmap ! byte AND NOT (push_bit shift 1)]))
     else Inl F_InvalidLayout)"

definition inode_allocated :: "'d block_ops \<Rightarrow> u64 \<Rightarrow> ('d nexfs, fs_error, bool) action" where
  "inode_allocated ops n =
    bind_act superblock_of (\<lambda>sb.
    bind_act (lift_res (inode_count sb)) (\<lambda>count.
    if count \<le> n then fail_act F_InvalidLayout
    else
      bind_act (vol_read_block ops (sb_inode_bitmap_block sb) (replicate BLOCK_SIZE 0)) (\<lambda>bitmap.
      lift_res (bit_is_set bitmap n))))"

definition set_inode_allocated :: "'d block_ops \<Rightarrow> u64 \<Rightarrow> bool \<Rightarrow> ('d nexfs, fs_error, unit) action" where
  "set_inode_allocated ops n allocated =
    bind_act superblock_of (\<lambda>sb.
    bind_act (lift_res (inode_count sb)) (\<lambda>count.
    if count \<le> n then fail_act F_InvalidLayout
    else
      bind_act (vol_read_block ops (sb_inode_bitmap_block sb) (replicate BLOCK_SIZE 0)) (\<lambda>bitmap.
      bind_act (lift_res (set_bit_to bitmap n allocated)) (\<lambda>bitmap.
      vol_write_block ops (sb_inode_bitmap_block sb) bitmap))))"

definition block_allocated :: "'d block_ops \<Rightarrow> u64 \<Rightarrow> ('d nexfs, fs_error, bool) action" where
  "block_allocated ops block =
    bind_act superblock_of (\<lambda>sb.
    if sb_total_blocks sb \<le> block then fail_act F_InvalidLayout
    else
      let bits_per_block = of_nat (BLOCK_SIZE * 8);
          bitmap_block = sb_block_bitmap_block sb + block div bits_per_block in
      bind_act (vol_read_block ops bitmap_block (replicate BLOCK_SIZE 0)) (\<lambda>bitmap.
      lift_res (bit_is_set bitmap (block mod bits_per_block))))"

definition set_block_allocated :: "'d block_ops \<Rightarrow> u64 \<Rightarrow> bool \<Rightarrow> ('d nexfs, fs_error, unit) action" where
  "set_block_allocated ops block allocated =
    bind_act superblock_of (\<lambda>sb.
    if block < sb_data_start_block sb \<or> sb_total_blocks sb \<le> block then fail_act F_InvalidLayout
    else
      let bits_per_block = of_nat (BLOCK_SIZE * 8);
          bitmap_block = sb_block_bitmap_block sb + block div bits_per_block in
      bind_act (vol_read_block ops bitmap_block (replicate BLOCK_SIZE 0)) (\<lambda>bitmap.
      bind_act (lift_res (set_bit_to bitmap (block mod bits_per_block) allocated)) (\<lambda>bitmap.
      vol_write_block ops bitmap_block bitmap)))"

text \<open>The two allocators take the first free number of their range.\<close>

fun first_free_inode :: "'d block_ops \<Rightarrow> u64 list \<Rightarrow> ('d nexfs, fs_error, u64) action" where
  "first_free_inode ops [] = fail_act F_NoSpace"
| "first_free_inode ops (n # ns) =
    bind_act (inode_allocated ops n) (\<lambda>used.
    if \<not> used then bind_act (set_inode_allocated ops n True) (\<lambda>_. return_act n)
    else first_free_inode ops ns)"

definition allocate_inode :: "'d block_ops \<Rightarrow> ('d nexfs, fs_error, u64) action" where
  "allocate_inode ops =
    bind_act superblock_of (\<lambda>sb.
    bind_act (lift_res (inode_count sb)) (\<lambda>count.
    first_free_inode ops (u64_range 2 count)))"

fun first_free_block :: "'d block_ops \<Rightarrow> u64 list \<Rightarrow> ('d nexfs, fs_error, u64) action" where
  "first_free_block ops [] = fail_act F_NoSpace"
| "first_free_block ops (b # bs) =
    bind_act (block_allocated ops b) (\<lambda>used.
    if \<not> used then
      bind_act (set_block_allocated ops b True) (\<lambda>_.
      bind_act (vol_write_block ops b (replicate BLOCK_SIZE 0)) (\<lambda>_.
      return_act b))
    else first_free_block ops bs)"

definition allocate_block :: "'d block_ops \<Rightarrow> ('d nexfs, fs_error, u64) action" where
  "allocate_block ops =
    bind_act superblock_of (\<lambda>sb.
    first_free_block ops (u64_range (sb_data_start_block sb) (sb_total_blocks sb)))"

section \<open>The inode table\<close>

definition inode_location :: "superblock \<Rightarrow> u64 \<Rightarrow> fs_error + u64 \<times> nat" where
  "inode_location sb n =
    bind_res (inode_count sb) (\<lambda>count.
    if count \<le> n then Inl F_InvalidLayout
    else
      bind_res (ok_or F_InvalidLayout (checked_mul n (of_nat INODE_SIZE))) (\<lambda>byte_offset.
      Inr (sb_inode_table_block sb + byte_offset div of_nat BLOCK_SIZE, unat (byte_offset mod of_nat BLOCK_SIZE))))"

definition vol_read_inode :: "'d block_ops \<Rightarrow> u64 \<Rightarrow> ('d nexfs, fs_error, inode) action" where
  "vol_read_inode ops n =
    bind_act (inode_allocated ops n) (\<lambda>used.
    if \<not> used then fail_act F_NotFound
    else
      bind_act superblock_of (\<lambda>sb.
      bind_act (lift_res (inode_location sb n)) (\<lambda>(block_number, offset).
      bind_act (vol_read_block ops block_number (replicate BLOCK_SIZE 0)) (\<lambda>block.
      lift_res (inode_decode (slice offset INODE_SIZE block))))))"

definition vol_write_inode :: "'d block_ops \<Rightarrow> u64 \<Rightarrow> inode \<Rightarrow> ('d nexfs, fs_error, unit) action" where
  "vol_write_inode ops n i =
    bind_act superblock_of (\<lambda>sb.
    bind_act (lift_res (inode_location sb n)) (\<lambda>(block_number, offset).
    bind_act (vol_read_block ops block_number (replicate BLOCK_SIZE 0)) (\<lambda>block.
    bind_act (lift_res (inode_encode i (slice offset INODE_SIZE block))) (\<lambda>encoded.
    vol_write_block ops block_number (put_slice offset encoded block)))))"

definition clear_inode :: "'d block_ops \<Rightarrow> u64 \<Rightarrow> ('d nexfs, fs_error, unit) action" where
  "clear_inode ops n =
    bind_act superblock_of (\<lambda>sb.
    bind_act (lift_res (inode_location sb n)) (\<lambda>(block_number, offset).
    bind_act (vol_read_block ops block_number (replicate BLOCK_SIZE 0)) (\<lambda>block.
    vol_write_block ops block_number (put_slice offset (replicate INODE_SIZE 0) block))))"

section \<open>The blocks of a file\<close>

definition data_block :: "'d block_ops \<Rightarrow> inode \<Rightarrow> u64 \<Rightarrow> ('d nexfs, fs_error, u64 option) action" where
  "data_block ops i index =
    (if ino_block_count i \<le> index then return_act None
     else if index < of_nat DIRECT_BLOCKS then
       (let block = ino_direct_blocks i ! unat index in
        if block = 0 then fail_act F_CorruptInode else return_act (Some block))
     else if ino_indirect_block i = 0 then fail_act F_CorruptInode
     else
       let pointer_index = unat (index - of_nat DIRECT_BLOCKS) in
       if INDIRECT_POINTERS \<le> pointer_index then fail_act F_FileTooLarge
       else
         bind_act (vol_read_block ops (ino_indirect_block i) (replicate BLOCK_SIZE 0)) (\<lambda>pointers.
         let block = of_le (slice (pointer_index * 8) 8 pointers) in
         if block = 0 then fail_act F_CorruptInode else return_act (Some block)))"

text \<open>One round of the loop of \<open>ensure_data_blocks\<close>: a new block at the end of the file.\<close>

definition add_block :: "'d block_ops \<Rightarrow> inode \<Rightarrow> ('d nexfs, fs_error, inode) action" where
  "add_block ops i =
    (let index = ino_block_count i in
     bind_act (allocate_block ops) (\<lambda>block.
     if index < of_nat DIRECT_BLOCKS then
       return_act (i\<lparr>ino_direct_blocks := (ino_direct_blocks i)[unat index := block], ino_block_count := index + 1\<rparr>)
     else
       bind_act (if ino_indirect_block i = 0 then allocate_block ops else return_act (ino_indirect_block i)) (\<lambda>indirect.
       bind_act (vol_read_block ops indirect (replicate BLOCK_SIZE 0)) (\<lambda>pointers.
       let pointer_index = unat (index - of_nat DIRECT_BLOCKS) in
       if INDIRECT_POINTERS \<le> pointer_index then fail_act F_FileTooLarge
       else
         bind_act (vol_write_block ops indirect (put_slice (pointer_index * 8) (le_bytes 8 block) pointers)) (\<lambda>_.
         return_act (i\<lparr>ino_indirect_block := indirect, ino_block_count := index + 1\<rparr>))))))"

lemma add_block_count: "add_block ops i v = (Inr j, v') \<Longrightarrow> ino_block_count j = ino_block_count i + 1"
  by (auto simp: add_block_def Let_def bind_act_Inr_iff split: if_splits)

lemma unat_succ_less: "a < b \<Longrightarrow> unat (a + 1) = Suc (unat a)" for a b :: u64
  using unat_add_fits [of a 1] unat_bound [of b] by (simp add: word_less_nat_alt)

function ensure_blocks_loop :: "'d block_ops \<Rightarrow> u64 \<Rightarrow> inode \<Rightarrow> ('d nexfs, fs_error, inode) action" where
  "ensure_blocks_loop ops count i v =
    (if ino_block_count i < count
     then bind_act (add_block ops i) (\<lambda>i. ensure_blocks_loop ops count i) v
     else (Inr i, v))"
  by pat_completeness auto

termination
proof (relation "measure (\<lambda>(ops, count, i, v). unat count - unat (ino_block_count i))")
  fix ops :: "'d block_ops" and count and i :: inode and v j v'
  assume less: "ino_block_count i < count" and step: "add_block ops i v = (Inr j, v')"
  have "unat (ino_block_count i + 1) = Suc (unat (ino_block_count i))" by (rule unat_succ_less [OF less])
  then show "((ops, count, j, v'), ops, count, i, v) \<in> measure (\<lambda>(ops, count, i, v). unat count - unat (ino_block_count i))"
    using less add_block_count [OF step] by (simp add: word_less_nat_alt)
qed auto

definition ensure_data_blocks :: "'d block_ops \<Rightarrow> inode \<Rightarrow> u64 \<Rightarrow> ('d nexfs, fs_error, inode) action" where
  "ensure_data_blocks ops i count =
    (if of_nat MAX_FILE_BLOCKS < count then fail_act F_FileTooLarge else ensure_blocks_loop ops count i)"

text \<open>One round of the loop of \<open>truncate_inode_blocks\<close>: the last block of the file is released.\<close>

definition drop_block :: "'d block_ops \<Rightarrow> inode \<Rightarrow> ('d nexfs, fs_error, inode) action" where
  "drop_block ops i =
    (let index = ino_block_count i - 1 in
     bind_act (data_block ops i index) (\<lambda>found.
     bind_act (lift_res (ok_or F_CorruptInode found)) (\<lambda>block.
     bind_act (set_block_allocated ops block False) (\<lambda>_.
     if index < of_nat DIRECT_BLOCKS then
       return_act (i\<lparr>ino_direct_blocks := (ino_direct_blocks i)[unat index := 0], ino_block_count := index\<rparr>)
     else
       bind_act (vol_read_block ops (ino_indirect_block i) (replicate BLOCK_SIZE 0)) (\<lambda>pointers.
       let pointer_index = unat (index - of_nat DIRECT_BLOCKS) in
       bind_act (vol_write_block ops (ino_indirect_block i) (put_slice (pointer_index * 8) (replicate 8 0) pointers)) (\<lambda>_.
       return_act (i\<lparr>ino_block_count := index\<rparr>)))))))"

lemma drop_block_count: "drop_block ops i v = (Inr j, v') \<Longrightarrow> ino_block_count j = ino_block_count i - 1"
  by (auto simp: drop_block_def Let_def bind_act_Inr_iff split: if_splits)

function drop_blocks_loop :: "'d block_ops \<Rightarrow> u64 \<Rightarrow> inode \<Rightarrow> ('d nexfs, fs_error, inode) action" where
  "drop_blocks_loop ops keep i v =
    (if keep < ino_block_count i
     then bind_act (drop_block ops i) (\<lambda>i. drop_blocks_loop ops keep i) v
     else (Inr i, v))"
  by pat_completeness auto

termination
proof (relation "measure (\<lambda>(ops, keep, i, v). unat (ino_block_count i))")
  fix ops :: "'d block_ops" and keep and i :: inode and v j v'
  assume less: "keep < ino_block_count i" and step: "drop_block ops i v = (Inr j, v')"
  have "1 \<le> ino_block_count i" "0 < unat (ino_block_count i)" using less by (simp_all add: word_less_nat_alt word_le_nat_alt)
  then show "((ops, keep, j, v'), ops, keep, i, v) \<in> measure (\<lambda>(ops, keep, i, v). unat (ino_block_count i))"
    using drop_block_count [OF step] by (simp add: unat_sub)
qed auto

definition truncate_inode_blocks :: "'d block_ops \<Rightarrow> inode \<Rightarrow> u64 \<Rightarrow> ('d nexfs, fs_error, inode) action" where
  "truncate_inode_blocks ops i keep =
    (if ino_block_count i < keep then ensure_data_blocks ops i keep
     else
       bind_act (drop_blocks_loop ops keep i) (\<lambda>i.
       if ino_block_count i \<le> of_nat DIRECT_BLOCKS \<and> ino_indirect_block i \<noteq> 0 then
         bind_act (set_block_allocated ops (ino_indirect_block i) False) (\<lambda>_.
         return_act (i\<lparr>ino_indirect_block := 0\<rparr>))
       else return_act i))"

definition ensure_file_size_supported :: "u64 \<Rightarrow> fs_error + unit" where
  "ensure_file_size_supported n =
    (if of_nat MAX_FILE_BLOCKS < data_blocks_for_size n then Inl F_FileTooLarge else Inr ())"

section \<open>Reading and writing the data of an inode\<close>

text \<open>
  The block buffer lives across the rounds of the loops. \<open>read_inode_data\<close> returns the number of
  bytes and the filled buffer; on an error the callers drop the buffer.
\<close>

lemma within_block: "unat (x mod of_nat BLOCK_SIZE :: u64) < BLOCK_SIZE"
  by (simp add: BLOCK_SIZE_def unat_mod)

lemma block_progress:
  "k < n \<Longrightarrow> n - (k + min (BLOCK_SIZE - unat (x mod of_nat BLOCK_SIZE :: u64)) (n - k)) < n - k"
  using within_block [of x] by linarith

function read_data_loop ::
  "'d block_ops \<Rightarrow> inode \<Rightarrow> u64 \<Rightarrow> nat \<Rightarrow> nat \<Rightarrow> bytes \<Rightarrow> bytes \<Rightarrow> ('d nexfs, fs_error, nat \<times> bytes) action" where
  "read_data_loop ops i offset len completed block output v =
    (if completed < len then
       (let absolute = offset + of_nat completed;
            block_index = absolute div of_nat BLOCK_SIZE;
            within = unat (absolute mod of_nat BLOCK_SIZE) in
        bind_act (data_block ops i block_index) (\<lambda>found.
        bind_act (lift_res (ok_or F_CorruptInode found)) (\<lambda>block_number.
        bind_act (vol_read_block ops block_number block) (\<lambda>block.
        let amount = min (BLOCK_SIZE - within) (len - completed) in
        read_data_loop ops i offset len (completed + amount) block
          (put_slice completed (slice within amount block) output)))) v)
     else (Inr (completed, output), v))"
  by pat_completeness auto

termination
  by (relation "measure (\<lambda>(ops, i, offset, len, completed, block, output, v). len - completed)")
     (auto simp: Let_def block_progress)

definition read_inode_data :: "'d block_ops \<Rightarrow> inode \<Rightarrow> u64 \<Rightarrow> bytes \<Rightarrow> ('d nexfs, fs_error, nat \<times> bytes) action" where
  "read_inode_data ops i offset output =
    (if ino_size i \<le> offset \<or> output = [] then return_act (0, output)
     else
       let available = ino_size i - offset;
           len = min (length output) (unat available) in
       read_data_loop ops i offset len 0 (replicate BLOCK_SIZE 0) output)"

function write_data_loop ::
  "'d block_ops \<Rightarrow> inode \<Rightarrow> u64 \<Rightarrow> bytes \<Rightarrow> nat \<Rightarrow> bytes \<Rightarrow> ('d nexfs, fs_error, unit) action" where
  "write_data_loop ops i offset input completed block v =
    (if completed < length input then
       (let absolute = offset + of_nat completed;
            block_index = absolute div of_nat BLOCK_SIZE;
            within = unat (absolute mod of_nat BLOCK_SIZE) in
        bind_act (data_block ops i block_index) (\<lambda>found.
        bind_act (lift_res (ok_or F_CorruptInode found)) (\<lambda>block_number.
        let amount = min (BLOCK_SIZE - within) (length input - completed) in
        bind_act (if within \<noteq> 0 \<or> amount \<noteq> BLOCK_SIZE then vol_read_block ops block_number block
                  else return_act (replicate (length block) 0)) (\<lambda>block.
        let block = put_slice within (slice completed amount input) block in
        bind_act (vol_write_block ops block_number block) (\<lambda>_.
        write_data_loop ops i offset input (completed + amount) block)))) v)
     else (Inr (), v))"
  by pat_completeness auto

termination
  by (relation "measure (\<lambda>(ops, i, offset, input, completed, block, v). length input - completed)")
     (auto simp: Let_def block_progress)

definition write_inode_data :: "'d block_ops \<Rightarrow> inode \<Rightarrow> u64 \<Rightarrow> bytes \<Rightarrow> ('d nexfs, fs_error, inode) action" where
  "write_inode_data ops i offset input =
    (if input = [] then return_act i
     else
       bind_act (lift_res (ok_or F_FileTooLarge (checked_add offset (of_nat (length input))))) (\<lambda>stop.
       bind_act (lift_res (ensure_file_size_supported stop)) (\<lambda>_.
       bind_act (ensure_data_blocks ops i (data_blocks_for_size stop)) (\<lambda>i.
       bind_act (write_data_loop ops i offset input 0 (replicate BLOCK_SIZE 0)) (\<lambda>_.
       return_act i)))))"

function zero_range_loop :: "'d block_ops \<Rightarrow> u64 \<Rightarrow> u64 \<Rightarrow> nat \<Rightarrow> inode \<Rightarrow> ('d nexfs, fs_error, inode) action" where
  "zero_range_loop ops offset len completed i v =
    (if completed < unat len then
       (let amount = min (unat len - completed) BLOCK_SIZE in
        bind_act (write_inode_data ops i (offset + of_nat completed) (replicate amount 0)) (\<lambda>i.
        zero_range_loop ops offset len (completed + amount) i) v)
     else (Inr i, v))"
  by pat_completeness auto

termination
  by (relation "measure (\<lambda>(ops, offset, len, completed, i, v). unat len - completed)") (auto simp: BLOCK_SIZE_def)

definition zero_range :: "'d block_ops \<Rightarrow> inode \<Rightarrow> u64 \<Rightarrow> u64 \<Rightarrow> ('d nexfs, fs_error, inode) action" where
  "zero_range ops i offset len =
    (if len = 0 then return_act i
     else
       bind_act (lift_res (ok_or F_FileTooLarge (checked_add offset len))) (\<lambda>stop.
       bind_act (lift_res (ensure_file_size_supported stop)) (\<lambda>_.
       bind_act (ensure_data_blocks ops i (data_blocks_for_size stop)) (\<lambda>i.
       zero_range_loop ops offset len 0 i))))"

section \<open>Directories and paths\<close>

definition read_entry ::
  "'d block_ops \<Rightarrow> inode \<Rightarrow> nat \<Rightarrow> directory_entry list \<times> bytes \<Rightarrow> ('d nexfs, fs_error, directory_entry list \<times> bytes) action" where
  "read_entry ops i index s =
    (let (entries, encoded) = s in
     bind_act (read_inode_data ops i (of_nat (index * DIR_ENTRY_SIZE)) encoded) (\<lambda>(n, encoded).
     if n \<noteq> DIR_ENTRY_SIZE then fail_act F_CorruptDirectory
     else bind_act (lift_res (de_decode encoded)) (\<lambda>e. return_act (entries @ [e], encoded))))"

definition read_directory :: "'d block_ops \<Rightarrow> inode \<Rightarrow> ('d nexfs, fs_error, directory_entry list) action" where
  "read_directory ops i =
    (if ino_kind i \<noteq> Directory then fail_act F_NotDirectory
     else if ino_size i mod of_nat DIR_ENTRY_SIZE \<noteq> 0 then fail_act F_CorruptDirectory
     else
       let entry_count = unat (ino_size i div of_nat DIR_ENTRY_SIZE) in
       bind_act (fold_act (read_entry ops i) [0..<entry_count] ([], replicate DIR_ENTRY_SIZE 0)) (\<lambda>(entries, _).
       return_act entries))"

definition write_entry ::
  "'d block_ops \<Rightarrow> directory_entry \<Rightarrow> inode \<times> bytes \<Rightarrow> ('d nexfs, fs_error, inode \<times> bytes) action" where
  "write_entry ops e s =
    (let (i, encoded) = s in
     bind_act (lift_res (de_encode e encoded)) (\<lambda>encoded.
     bind_act (write_inode_data ops i (ino_size i) encoded) (\<lambda>i.
     return_act (i\<lparr>ino_size := ino_size i + of_nat DIR_ENTRY_SIZE\<rparr>, encoded))))"

definition replace_directory :: "'d block_ops \<Rightarrow> inode \<Rightarrow> directory_entry list \<Rightarrow> ('d nexfs, fs_error, inode) action" where
  "replace_directory ops i entries =
    (if ino_kind i \<noteq> Directory then fail_act F_NotDirectory
     else
       bind_act (lift_res (ok_or F_TooLarge (checked_mul (of_nat (length entries)) (of_nat DIR_ENTRY_SIZE)))) (\<lambda>new_size.
       bind_act (lift_res (ensure_file_size_supported new_size)) (\<lambda>_.
       bind_act (truncate_inode_blocks ops i 0) (\<lambda>i.
       bind_act (fold_act (write_entry ops) entries (i\<lparr>ino_size := 0\<rparr>, replicate DIR_ENTRY_SIZE 0)) (\<lambda>(i, _).
       return_act i)))))"

definition path_slash :: u8 where "path_slash = 0x2F"

definition trim_end_slashes :: "bytes \<Rightarrow> bytes" where
  "trim_end_slashes p = rev (dropWhile (\<lambda>b. b = path_slash) (rev p))"

definition trim_slashes :: "bytes \<Rightarrow> bytes" where
  "trim_slashes p = trim_end_slashes (dropWhile (\<lambda>b. b = path_slash) p)"

text \<open>\<open>rsplit_once('/')\<close>: the parts before and after the last slash.\<close>

definition rsplit_slash :: "bytes \<Rightarrow> (bytes \<times> bytes) option" where
  "rsplit_slash p =
    (if path_slash \<in> set p then
       Some (rev (tl (dropWhile (\<lambda>b. b \<noteq> path_slash) (rev p))), rev (takeWhile (\<lambda>b. b \<noteq> path_slash) (rev p)))
     else None)"

definition split_parent :: "bytes \<Rightarrow> fs_error + bytes \<times> bytes" where
  "split_parent p =
    (let trimmed = trim_end_slashes p in
     if trimmed = [] \<or> trimmed = [path_slash] then Inl F_Busy
     else
       let (parent, name) =
         (case rsplit_slash trimmed of
            None \<Rightarrow> ([path_slash], trimmed)
          | Some (parent, name) \<Rightarrow> (if parent = [] then [path_slash] else parent, name)) in
       bind_res (validate_name name) (\<lambda>_. Inr (parent, name)))"

definition resolve_step :: "'d block_ops \<Rightarrow> bytes \<Rightarrow> u64 \<Rightarrow> ('d nexfs, fs_error, u64) action" where
  "resolve_step ops component current =
    (if component = [] \<or> component = [0x2E] then return_act current
     else if component = [0x2E, 0x2E] then fail_act F_InvalidPath
     else
       bind_act (lift_res (validate_name component)) (\<lambda>_.
       bind_act (vol_read_inode ops current) (\<lambda>i.
       bind_act (read_directory ops i) (\<lambda>entries.
       lift_res (ok_or F_NotFound (map_option de_inode (find (\<lambda>e. de_name e = component) entries)))))))"

definition vol_resolve :: "'d block_ops \<Rightarrow> bytes \<Rightarrow> ('d nexfs, fs_error, u64) action" where
  "vol_resolve ops p =
    bind_act superblock_of (\<lambda>sb.
    let current = sb_root_inode sb; trimmed = trim_slashes p in
    if trimmed = [] then return_act current
    else fold_act (resolve_step ops) (split_on path_slash trimmed) current)"

text \<open>
  The search of \<open>directory_contains\<close>. \<open>pending\<close> is the stack with its top first; \<open>None\<close> stands for
  the return from inside the loop over the entries.
\<close>

fun push_directories :: "u64 \<Rightarrow> directory_entry list \<Rightarrow> u64 list \<Rightarrow> u64 list option" where
  "push_directories target [] pending = Some pending"
| "push_directories target (e # es) pending =
    (if de_inode e = target then None
     else push_directories target es (if de_kind e = Directory then de_inode e # pending else pending))"

lemma mark_visited:
  assumes "k < length visited" "\<not> visited ! k"
  shows "length (filter Not (visited[k := True])) < length (filter Not visited)"
proof -
  have "visited = take k visited @ False # drop (Suc k) visited" using assms id_take_nth_drop [of k visited] by simp
  then have "length (filter Not visited) = length (filter Not (take k visited)) + Suc (length (filter Not (drop (Suc k) visited)))"
    by (metis filter_append length_append filter.simps(2) length_Cons)
  then show ?thesis using assms(1) by (simp add: upd_conv_take_nth_drop)
qed

function contains_loop ::
  "'d block_ops \<Rightarrow> u64 \<Rightarrow> bool list \<Rightarrow> u64 list \<Rightarrow> ('d nexfs, fs_error, bool) action" where
  "contains_loop ops target visited [] v = (Inr False, v)"
| "contains_loop ops target visited (current # pending) v =
    (let index = unat current in
     if length visited \<le> index \<or> visited ! index then contains_loop ops target visited pending v
     else
       bind_act (vol_read_inode ops current) (\<lambda>i.
       bind_act (read_directory ops i) (\<lambda>entries v.
       case push_directories target entries pending of
         None \<Rightarrow> (Inr True, v)
       | Some pending \<Rightarrow> contains_loop ops target (visited[index := True]) pending v)) v)"
  by pat_completeness auto

termination
  by (relation "(\<lambda>(ops, target, visited, pending, v). length (filter Not visited)) <*mlex*>
       measure (\<lambda>(ops, target, visited, pending, v). length pending)")
     (auto simp: wf_mlex mlex_prod_def mark_visited)

definition directory_contains :: "'d block_ops \<Rightarrow> u64 \<Rightarrow> u64 \<Rightarrow> ('d nexfs, fs_error, bool) action" where
  "directory_contains ops directory target =
    (if directory = target then return_act True
     else
       bind_act superblock_of (\<lambda>sb.
       bind_act (lift_res (inode_count sb)) (\<lambda>count.
       contains_loop ops target (replicate (unat count) False) [directory])))"

section \<open>The operations on paths\<close>

text \<open>\<open>mount\<close> acts on the device; the volume is the device with the superblock it returns.\<close>

definition fs_mount :: "'d block_ops \<Rightarrow> ('d, fs_error, superblock) action" where
  "fs_mount ops =
    bind_act (check_detailed ops) (\<lambda>report.
    let sb = cr_superblock report;
        sb = sb\<lparr>sb_flags := sb_flags sb AND NOT CLEAN_FLAG\<rparr>;
        sb = sb\<lparr>sb_generation := saturating_add (sb_generation sb) 1\<rparr> in
    bind_act (write_superblock ops sb) (\<lambda>_.
    bind_act (io (flush_device ops)) (\<lambda>_.
    return_act sb)))"

definition unmount :: "'d block_ops \<Rightarrow> ('d nexfs, fs_error, superblock) action" where
  "unmount ops =
    bind_act (on_device (io (flush_device ops))) (\<lambda>_.
    bind_act superblock_of (\<lambda>sb.
    let sb = sb\<lparr>sb_flags := sb_flags sb OR CLEAN_FLAG\<rparr>;
        sb = sb\<lparr>sb_generation := saturating_add (sb_generation sb) 1\<rparr> in
    bind_act (on_device (write_superblock ops sb)) (\<lambda>_.
    bind_act (on_device (io (flush_device ops))) (\<lambda>_.
    return_act sb))))"

definition vol_stat :: "'d block_ops \<Rightarrow> bytes \<Rightarrow> ('d nexfs, fs_error, file_stat) action" where
  "vol_stat ops p =
    bind_act (vol_resolve ops p) (\<lambda>n.
    bind_act (vol_read_inode ops n) (\<lambda>i.
    return_act \<lparr>st_inode = n, st_kind = ino_kind i, st_permissions = ino_permissions i, st_size = ino_size i,
      st_created = ino_created i, st_modified = ino_modified i, st_blocks = ino_block_count i\<rparr>))"

definition read_dir :: "'d block_ops \<Rightarrow> bytes \<Rightarrow> ('d nexfs, fs_error, directory_entry list) action" where
  "read_dir ops p =
    bind_act (vol_resolve ops p) (\<lambda>n.
    bind_act (vol_read_inode ops n) (\<lambda>i.
    read_directory ops i))"

definition read_file :: "'d block_ops \<Rightarrow> bytes \<Rightarrow> u64 \<Rightarrow> bytes \<Rightarrow> ('d nexfs, fs_error, nat \<times> bytes) action" where
  "read_file ops p offset output =
    bind_act (vol_resolve ops p) (\<lambda>n.
    bind_act (vol_read_inode ops n) (\<lambda>i.
    if ino_kind i \<noteq> Regular then fail_act F_IsDirectory
    else read_inode_data ops i offset output))"

text \<open>A change of an inode ends with a new timestamp and the inode written back.\<close>

definition stamped :: "inode \<Rightarrow> u64 \<Rightarrow> inode" where
  "stamped i timestamp = i\<lparr>ino_modified := timestamp, ino_generation := timestamp\<rparr>"

definition write_file :: "'d block_ops \<Rightarrow> bytes \<Rightarrow> u64 \<Rightarrow> bytes \<Rightarrow> ('d nexfs, fs_error, nat) action" where
  "write_file ops p offset input =
    bind_act (vol_resolve ops p) (\<lambda>n.
    bind_act (vol_read_inode ops n) (\<lambda>i.
    if ino_kind i \<noteq> Regular then fail_act F_IsDirectory
    else
      bind_act (lift_res (ok_or F_FileTooLarge (checked_add offset (of_nat (length input))))) (\<lambda>stop.
      bind_act (lift_res (ensure_file_size_supported stop)) (\<lambda>_.
      bind_act (if ino_size i < offset then zero_range ops i (ino_size i) (offset - ino_size i)
                else return_act i) (\<lambda>i.
      bind_act (write_inode_data ops i offset input) (\<lambda>i.
      bind_act next_timestamp (\<lambda>timestamp.
      bind_act (vol_write_inode ops n (stamped (i\<lparr>ino_size := max (ino_size i) stop\<rparr>) timestamp)) (\<lambda>_.
      bind_act (finish_mutation ops) (\<lambda>_.
      return_act (length input))))))))))"

definition vol_truncate :: "'d block_ops \<Rightarrow> bytes \<Rightarrow> u64 \<Rightarrow> ('d nexfs, fs_error, unit) action" where
  "vol_truncate ops p new_size =
    bind_act (vol_resolve ops p) (\<lambda>n.
    bind_act (vol_read_inode ops n) (\<lambda>i.
    if ino_kind i \<noteq> Regular then fail_act F_IsDirectory
    else
      bind_act (lift_res (ensure_file_size_supported new_size)) (\<lambda>_.
      bind_act
        (if ino_size i < new_size then zero_range ops i (ino_size i) (new_size - ino_size i)
         else if new_size < ino_size i then
           bind_act (truncate_inode_blocks ops i (data_blocks_for_size new_size)) (\<lambda>i.
           if new_size \<noteq> 0 \<and> new_size mod of_nat BLOCK_SIZE \<noteq> 0 then
             bind_act (data_block ops i (new_size div of_nat BLOCK_SIZE)) (\<lambda>found.
             bind_act (lift_res (ok_or F_CorruptInode found)) (\<lambda>block_number.
             bind_act (vol_read_block ops block_number (replicate BLOCK_SIZE 0)) (\<lambda>block.
             let start = unat (new_size mod of_nat BLOCK_SIZE) in
             bind_act (vol_write_block ops block_number (put_slice start (replicate (length block - start) 0) block)) (\<lambda>_.
             return_act i))))
           else return_act i)
         else return_act i) (\<lambda>i.
      bind_act next_timestamp (\<lambda>timestamp.
      bind_act (vol_write_inode ops n (stamped (i\<lparr>ino_size := new_size\<rparr>) timestamp)) (\<lambda>_.
      finish_mutation ops))))))"

definition vol_create :: "'d block_ops \<Rightarrow> bytes \<Rightarrow> file_type \<Rightarrow> u16 \<Rightarrow> ('d nexfs, fs_error, u64) action" where
  "vol_create ops p kind permissions =
    bind_act (lift_res (split_parent p)) (\<lambda>(parent_path, name).
    bind_act (lift_res (validate_name name)) (\<lambda>_.
    bind_act (vol_resolve ops parent_path) (\<lambda>parent_number.
    bind_act (vol_read_inode ops parent_number) (\<lambda>parent.
    if ino_kind parent \<noteq> Directory then fail_act F_NotDirectory
    else
      bind_act (read_directory ops parent) (\<lambda>entries.
      if list_ex (\<lambda>e. de_name e = name) entries then fail_act F_AlreadyExists
      else
        bind_act (allocate_inode ops) (\<lambda>n.
        bind_act next_timestamp (\<lambda>timestamp.
        bind_act (vol_write_inode ops n (inode_new kind permissions timestamp)) (\<lambda>_.
        bind_act (lift_res (de_new n kind name)) (\<lambda>e.
        bind_act (replace_directory ops parent (entries @ [e])) (\<lambda>parent.
        bind_act (vol_write_inode ops parent_number (stamped parent timestamp)) (\<lambda>_.
        bind_act (finish_mutation ops) (\<lambda>_.
        return_act n))))))))))))"

definition create_file :: "'d block_ops \<Rightarrow> bytes \<Rightarrow> ('d nexfs, fs_error, u64) action" where
  "create_file ops p = vol_create ops p Regular DEFAULT_FILE_PERMISSIONS"

definition create_dir :: "'d block_ops \<Rightarrow> bytes \<Rightarrow> ('d nexfs, fs_error, u64) action" where
  "create_dir ops p = vol_create ops p Directory DEFAULT_DIRECTORY_PERMISSIONS"

text \<open>\<open>Vec::swap_remove\<close> moves the last element into the gap.\<close>

definition swap_remove :: "nat \<Rightarrow> 'a list \<Rightarrow> 'a list" where
  "swap_remove k xs = butlast (xs[k := last xs])"

definition vol_remove :: "'d block_ops \<Rightarrow> bytes \<Rightarrow> ('d nexfs, fs_error, unit) action" where
  "vol_remove ops p =
    bind_act (lift_res (split_parent p)) (\<lambda>(parent_path, name).
    bind_act (vol_resolve ops parent_path) (\<lambda>parent_number.
    bind_act superblock_of (\<lambda>sb.
    if parent_number = sb_root_inode sb \<and> name = [] then fail_act F_Busy
    else
      bind_act (vol_read_inode ops parent_number) (\<lambda>parent.
      bind_act (read_directory ops parent) (\<lambda>entries.
      bind_act (lift_res (ok_or F_NotFound (position (\<lambda>e. de_name e = name) entries))) (\<lambda>k.
      let target_number = de_inode (entries ! k) in
      if target_number = sb_root_inode sb then fail_act F_Busy
      else
        bind_act (vol_read_inode ops target_number) (\<lambda>target.
        bind_act (if ino_kind target = Directory then read_directory ops target else return_act []) (\<lambda>inside.
        if inside \<noteq> [] then fail_act F_DirectoryNotEmpty
        else
          bind_act (replace_directory ops parent (swap_remove k entries)) (\<lambda>parent.
          bind_act next_timestamp (\<lambda>timestamp.
          bind_act (vol_write_inode ops parent_number (stamped parent timestamp)) (\<lambda>_.
          bind_act (truncate_inode_blocks ops target 0) (\<lambda>_.
          bind_act (clear_inode ops target_number) (\<lambda>_.
          bind_act (set_inode_allocated ops target_number False) (\<lambda>_.
          finish_mutation ops))))))))))))))"

definition vol_rename :: "'d block_ops \<Rightarrow> bytes \<Rightarrow> bytes \<Rightarrow> ('d nexfs, fs_error, unit) action" where
  "vol_rename ops source destination =
    bind_act (lift_res (split_parent source)) (\<lambda>(source_parent_path, source_name).
    bind_act (lift_res (split_parent destination)) (\<lambda>(destination_parent_path, destination_name).
    bind_act (lift_res (validate_name destination_name)) (\<lambda>_.
    bind_act (vol_resolve ops source_parent_path) (\<lambda>source_parent_number.
    bind_act (vol_resolve ops destination_parent_path) (\<lambda>destination_parent_number.
    bind_act (vol_read_inode ops source_parent_number) (\<lambda>source_parent.
    bind_act (read_directory ops source_parent) (\<lambda>source_entries.
    bind_act (lift_res (ok_or F_NotFound (position (\<lambda>e. de_name e = source_name) source_entries))) (\<lambda>k.
    let source_entry = source_entries ! k in
    bind_act superblock_of (\<lambda>sb.
    if de_inode source_entry = sb_root_inode sb then fail_act F_Busy
    else
      bind_act (if destination_parent_number = source_parent_number then return_act source_parent
                else vol_read_inode ops destination_parent_number) (\<lambda>destination_parent.
      bind_act (if destination_parent_number = source_parent_number then return_act source_entries
                else read_directory ops destination_parent) (\<lambda>destination_entries.
      if list_ex (\<lambda>e. de_name e = destination_name) destination_entries then fail_act F_AlreadyExists
      else
        bind_act (if de_kind source_entry = Directory
                  then directory_contains ops (de_inode source_entry) destination_parent_number
                  else return_act False) (\<lambda>inside.
        if inside then fail_act F_InvalidPath
        else
          bind_act
            (if source_parent_number = destination_parent_number then
               bind_act (replace_directory ops source_parent
                   (source_entries[k := source_entry\<lparr>de_name := destination_name\<rparr>])) (\<lambda>source_parent.
               bind_act next_timestamp (\<lambda>timestamp.
               vol_write_inode ops source_parent_number (stamped source_parent timestamp)))
             else
               bind_act (lift_res (de_new (de_inode source_entry) (de_kind source_entry) destination_name)) (\<lambda>e.
               bind_act (replace_directory ops destination_parent (destination_entries @ [e])) (\<lambda>destination_parent.
               bind_act next_timestamp (\<lambda>timestamp.
               bind_act (vol_write_inode ops destination_parent_number (stamped destination_parent timestamp)) (\<lambda>_.
               bind_act (replace_directory ops source_parent (swap_remove k source_entries)) (\<lambda>source_parent.
               vol_write_inode ops source_parent_number (stamped source_parent timestamp))))))) (\<lambda>_.
          finish_mutation ops)))))))))))))"

end
