(* ===== verification/Action_Logic.thy ===== *)
theory Action_Logic
  imports Prelude
begin

text \<open>
  A program logic for the actions of the model: \<open>triple P m Q E\<close> says that from a state that
  satisfies \<open>P\<close> the action \<open>m\<close> returns a value and a state that satisfy \<open>Q\<close>, or fails with an
  error and a state that satisfy \<open>E\<close>. With \<open>E = fails_never\<close> it says that \<open>m\<close> succeeds.
\<close>

definition triple ::
  "('s \<Rightarrow> bool) \<Rightarrow> ('s, 'e, 'a) action \<Rightarrow> ('a \<Rightarrow> 's \<Rightarrow> bool) \<Rightarrow> ('e \<Rightarrow> 's \<Rightarrow> bool) \<Rightarrow> bool" where
  "triple P m Q E \<longleftrightarrow> (\<forall>s. P s \<longrightarrow> (case m s of (Inl e, s') \<Rightarrow> E e s' | (Inr x, s') \<Rightarrow> Q x s'))"

abbreviation fails_never :: "'e \<Rightarrow> 's \<Rightarrow> bool" where "fails_never \<equiv> \<lambda>_ _. False"
abbreviation fails_any :: "'e \<Rightarrow> 's \<Rightarrow> bool" where "fails_any \<equiv> \<lambda>_ _. True"

named_theorems triple_rules \<open>rules for the constructs of an action\<close>

lemma tripleI:
  assumes "\<And>s x s'. P s \<Longrightarrow> m s = (Inr x, s') \<Longrightarrow> Q x s'"
    and "\<And>s e s'. P s \<Longrightarrow> m s = (Inl e, s') \<Longrightarrow> E e s'"
  shows "triple P m Q E"
  using assms by (auto simp: triple_def split: prod.splits sum.splits)

lemma tripleD: "triple P m Q E \<Longrightarrow> P s \<Longrightarrow> m s = (Inr x, s') \<Longrightarrow> Q x s'"
  by (force simp: triple_def)

lemma triple_errorD: "triple P m Q E \<Longrightarrow> P s \<Longrightarrow> m s = (Inl e, s') \<Longrightarrow> E e s'"
  by (force simp: triple_def)

lemma triple_succeeds:
  assumes "triple P m Q fails_never" "P s"
  shows "\<exists>x s'. m s = (Inr x, s') \<and> Q x s'"
proof (cases "m s")
  case (Pair r s')
  then show ?thesis using assms by (cases r) (auto simp: triple_def)
qed

lemma triple_conseq:
  "triple P m Q E \<Longrightarrow> (\<And>s. P' s \<Longrightarrow> P s) \<Longrightarrow> (\<And>x s. Q x s \<Longrightarrow> Q' x s) \<Longrightarrow> (\<And>e s. E e s \<Longrightarrow> E' e s)
    \<Longrightarrow> triple P' m Q' E'"
  by (fastforce simp: triple_def split: prod.splits sum.splits)

lemma triple_pre: "triple P m Q E \<Longrightarrow> (\<And>s. P' s \<Longrightarrow> P s) \<Longrightarrow> triple P' m Q E"
  by (erule triple_conseq) auto

lemma triple_post: "triple P m Q E \<Longrightarrow> (\<And>x s. Q x s \<Longrightarrow> Q' x s) \<Longrightarrow> triple P m Q' E"
  by (erule triple_conseq) auto

lemma triple_assume: "(A \<Longrightarrow> triple P m Q E) \<Longrightarrow> triple (\<lambda>s. P s \<and> A) m Q E"
  by (auto simp: triple_def)

lemma triple_exists: "(\<And>x. triple (P x) m Q E) \<Longrightarrow> triple (\<lambda>s. \<exists>x. P x s) m Q E"
  by (rule tripleI) (blast dest: tripleD, blast dest: triple_errorD)

text \<open>Facts that do not mention the state are kept.\<close>

lemma triple_frame: "triple P m Q E \<Longrightarrow> triple (\<lambda>s. P s \<and> A) m (\<lambda>x s. Q x s \<and> A) E"
  by (auto simp: triple_def split: prod.splits sum.splits)

lemma triple_bind [triple_rules]:
  assumes "triple P m R E" "\<And>x. triple (R x) (f x) Q E"
  shows "triple P (bind_act m f) Q E"
  using assms by (fastforce simp: triple_def bind_act_def split: prod.splits sum.splits)

lemma triple_return [triple_rules]: "triple (Q x) (return_act x) Q E"
  by (simp add: triple_def)

lemma triple_fail [triple_rules]: "triple (E e) (fail_act e) Q E"
  by (simp add: triple_def)

lemma triple_lift:
  "triple (\<lambda>s. case r of Inl e \<Rightarrow> E e s | Inr x \<Rightarrow> Q x s) (lift_res r) Q E"
  by (auto simp: triple_def split: sum.splits)

lemma triple_lift_any: "triple P (lift_res r) (\<lambda>x s. P s \<and> r = Inr x) fails_any"
  by (auto simp: triple_def split: sum.splits)

lemma triple_lift_ok: "r = Inr x \<Longrightarrow> triple P (lift_res r) (\<lambda>y s. P s \<and> y = x) E"
  by (auto simp: triple_def)

lemma triple_fail_any: "triple P (fail_act e) Q fails_any"
  by (simp add: triple_def)

lemma triple_map_err: "triple P m Q (\<lambda>e. E (h e)) \<Longrightarrow> triple P (map_err h m) Q E"
  by (auto simp: triple_def map_err_def split: prod.splits sum.splits)

lemma triple_if:
  "(c \<Longrightarrow> triple P m Q E) \<Longrightarrow> (\<not> c \<Longrightarrow> triple P m' Q E) \<Longrightarrow> triple P (if c then m else m') Q E"
  by simp

lemma triple_fold:
  assumes "\<And>k b. k < length xs \<Longrightarrow> triple (I k b) (f (xs ! k) b) (I (Suc k)) E"
  shows "triple (I 0 b) (fold_act f xs b) (I (length xs)) E"
  using assms
proof (induction xs arbitrary: I b)
  case Nil
  then show ?case by (simp add: triple_def)
next
  case (Cons x xs)
  have "triple (I 0 b) (f x b) (I 1) E" using Cons.prems [of 0 b] by simp
  moreover have "triple (I 1 c) (fold_act f xs c) (I (length (x # xs))) E" for c
    using Cons.IH [of "\<lambda>k. I (Suc k)" c] Cons.prems [of "Suc _"] by simp
  ultimately show ?case by (auto intro: triple_bind)
qed

text \<open>The same for the pure loops.\<close>

lemma fold_res_invariant:
  assumes "fold_res f xs b = Inr c" "I 0 b"
    and "\<And>k b b'. k < length xs \<Longrightarrow> I k b \<Longrightarrow> f (xs ! k) b = Inr b' \<Longrightarrow> I (Suc k) b'"
  shows "I (length xs) c"
  using assms
proof (induction xs arbitrary: I b)
  case Nil
  then show ?case by simp
next
  case (Cons x xs)
  obtain b' where b': "f x b = Inr b'" "fold_res f xs b' = Inr c"
    using Cons.prems(1) by (auto simp: bind_res_Inr_iff)
  have "I 1 b'" using Cons.prems(3) [of 0 b b'] Cons.prems(2) b'(1) by simp
  then show ?case
    using Cons.IH [of b' "\<lambda>k. I (Suc k)"] b'(2) Cons.prems(3) [of "Suc _"] by simp
qed

lemma fold_res_succeeds:
  assumes "I 0 b"
    and "\<And>k b. k < length xs \<Longrightarrow> I k b \<Longrightarrow> \<exists>b'. f (xs ! k) b = Inr b' \<and> I (Suc k) b'"
  shows "\<exists>c. fold_res f xs b = Inr c \<and> I (length xs) c"
  using assms
proof (induction xs arbitrary: I b)
  case Nil
  then show ?case by simp
next
  case (Cons x xs)
  obtain b' where b': "f x b = Inr b'" "I 1 b'" using Cons.prems(2) [of 0 b] Cons.prems(1) by auto
  then show ?case
    using Cons.IH [of "\<lambda>k. I (Suc k)" b'] Cons.prems(2) [of "Suc _"] by simp
qed

text \<open>A loop without state is a conjunction.\<close>

lemma fold_res_unit:
  fixes f :: "'a \<Rightarrow> unit \<Rightarrow> 'e + unit"
  shows "fold_res f xs u = Inr v \<longleftrightarrow> (\<forall>x \<in> set xs. f x () = Inr ())"
  by (induction xs) (auto simp: bind_res_Inr_iff)

end
