(* ===== verification/Nexfs_Blocks.thy ===== *)
theory Nexfs_Blocks
  imports Nexfs_Check Action_Logic
begin

text \<open>
  The blocks of a NexFS volume on a fault-free device: reading and writing whole blocks, and the
  bits of a bitmap.
\<close>

section \<open>Bitmaps\<close>

definition bm_bit :: "bytes \<Rightarrow> nat \<Rightarrow> bool" where
  "bm_bit bm k \<longleftrightarrow> bit (bm ! (k div 8)) (k mod 8)"

lemma unat_div8: "unat (k div 8 :: u64) = unat k div 8" "unat (k mod 8 :: u64) = unat k mod 8"
  by (simp_all add: unat_div unat_mod)

lemma bitmap_bit_eq: "bitmap_bit bm k = (if unat k div 8 < length bm then Inr (bm_bit bm (unat k)) else Inl F_InvalidLayout)"
  by (simp add: bitmap_bit_def Let_def unat_div8 and_exp_eq_0_iff_not_bit bm_bit_def)

lemma set_bitmap_bit_ok:
  assumes "unat k div 8 < length bm"
  shows "\<exists>bm'. set_bitmap_bit k v bm = Inr bm' \<and> length bm' = length bm \<and>
    (\<forall>j < 8 * length bm. bm_bit bm' j \<longleftrightarrow> (if j = unat k then v else bm_bit bm j))"
proof -
  define x where "x = (if v then bm ! (unat k div 8) OR push_bit (unat k mod 8) 1 else bm ! (unat k div 8) AND NOT (push_bit (unat k mod 8) 1))"
  have x: "bit x j \<longleftrightarrow> (if j = unat k mod 8 then v else bit (bm ! (unat k div 8)) j)" if "j < 8" for j
    using that by (auto simp: x_def bit_or_iff bit_and_iff bit_not_iff bit_exp_iff)
  have "bm_bit (bm[unat k div 8 := x]) j \<longleftrightarrow> (if j = unat k then v else bm_bit bm j)" if "j < 8 * length bm" for j
  proof (cases "j div 8 = unat k div 8")
    case True
    then have "j = unat k \<longleftrightarrow> j mod 8 = unat k mod 8" by (metis div_mult_mod_eq)
    then show ?thesis using True assms x [of "j mod 8"] by (simp add: bm_bit_def)
  next
    case False
    then show ?thesis by (auto simp: bm_bit_def)
  qed
  then show ?thesis using assms by (auto simp: set_bitmap_bit_def Let_def unat_div8 x_def)
qed

lemma bm_bit_zeros: "k < 8 * n \<Longrightarrow> \<not> bm_bit (replicate n 0) k"
  by (simp add: bm_bit_def less_mult_imp_div_less mult.commute)

section \<open>The view of a device as blocks\<close>

definition block_sectors :: "'d block_ops \<Rightarrow> 'd \<Rightarrow> nat" where
  "block_sectors ops d = 4096 div sector_bytes ops d"

definition blk :: "'d block_ops \<Rightarrow> ('d \<Rightarrow> nat \<Rightarrow> bytes) \<Rightarrow> 'd \<Rightarrow> nat \<Rightarrow> bytes" where
  "blk ops sec d b = sector_range (sec d) (b * block_sectors ops d) (block_sectors ops d)"

text \<open>The device has whole blocks, at least \<open>n\<close> of them.\<close>

definition holds_blocks :: "'d block_ops \<Rightarrow> 'd \<Rightarrow> nat \<Rightarrow> bool" where
  "holds_blocks ops d n \<longleftrightarrow> sector_bytes ops d dvd 4096 \<and> n * block_sectors ops d \<le> sectors ops d"

lemma sectors_per_block_eq:
  "sectors_per_block ops d =
    (if sector_bytes ops d dvd 4096 then Inr (of_nat (block_sectors ops d)) else Inl F_UnsupportedBlockSize)"
proof -
  have m: "unat ((4096 :: u32) mod w) = 4096 mod unat w" "unat ((4096 :: u32) div w) = 4096 div unat w" for w :: u32
    by (simp_all add: unat_mod unat_div)
  have dvd: "(4096 :: u32) mod w = 0 \<longleftrightarrow> unat w dvd 4096" for w :: u32
    using m(1) [of w] by (metis dvd_eq_mod_eq_0 unsigned_0 unat_eq_zero)
  have zero: "sector_size ops d = 0 \<Longrightarrow> \<not> sector_bytes ops d dvd 4096" by (simp add: sector_bytes_def)
  have "(ucast ((4096 :: u32) div w) :: u64) = of_nat (4096 div unat w)" for w :: u32
    using m(2) [of w] by (metis of_nat_unat)
  then show ?thesis
    using zero by (auto simp: sectors_per_block_def BLOCK_SIZE_U32_def Let_def dvd block_sectors_def sector_bytes_def)
qed

lemma block_sectors_bounds:
  assumes "sector_bytes ops d dvd 4096"
  shows "0 < block_sectors ops d" "block_sectors ops d \<le> 4096" "block_sectors ops d * sector_bytes ops d = 4096"
  using assms dvd_imp_le [OF assms] by (auto simp: block_sectors_def dvd_div_mult_self div_greater_zero_iff intro!: Nat.gr0I)

lemma block_lba:
  assumes "holds_blocks ops d n" "unat b < n"
  shows "unat (b * of_nat (block_sectors ops d) :: u64) = unat b * block_sectors ops d"
    "unat b * block_sectors ops d + block_sectors ops d \<le> sectors ops d"
proof -
  have bs: "block_sectors ops d \<le> 4096" using assms(1) by (simp add: holds_blocks_def block_sectors_bounds)
  have "Suc (unat b) * block_sectors ops d \<le> n * block_sectors ops d" using assms(2) by (intro mult_le_mono1) simp
  also have "\<dots> \<le> sectors ops d" using assms(1) by (simp add: holds_blocks_def)
  finally show le: "unat b * block_sectors ops d + block_sectors ops d \<le> sectors ops d" by simp
  have "sectors ops d < 2 ^ LENGTH(64)" by (simp only: sectors_def unat_bound)
  then have "unat b * block_sectors ops d < 2 ^ LENGTH(64)" using le by linarith
  moreover have "unat (of_nat (block_sectors ops d) :: u64) = block_sectors ops d"
    using bs by (intro unat_of_nat_fits) simp
  ultimately show "unat (b * of_nat (block_sectors ops d) :: u64) = unat b * block_sectors ops d"
    by (simp add: unat_mult_fits)
qed

lemma holds_blocks_same: "same_disk ops sec d d' \<Longrightarrow> holds_blocks ops d' n = holds_blocks ops d n"
  by (simp add: holds_blocks_def block_sectors_def same_disk_sizes)

lemma blk_same:
  assumes "same_disk ops sec d d'" "holds_blocks ops d n" "b < n"
  shows "blk ops sec d' b = blk ops sec d b"
proof -
  have bs: "block_sectors ops d' = block_sectors ops d"
    using same_disk_sizes [OF assms(1)] by (simp add: block_sectors_def)
  have "Suc b * block_sectors ops d \<le> n * block_sectors ops d" using assms(3) by (intro mult_le_mono1) simp
  then have "b * block_sectors ops d + block_sectors ops d \<le> sectors ops d"
    using assms(2) by (simp add: holds_blocks_def)
  then show ?thesis
    unfolding blk_def bs using assms(1) by (intro sector_range_cong) (simp add: same_disk_def)
qed

context reliable_device
begin

text \<open>A device state with the same content as \<open>d0\<close>.\<close>

definition at_disk :: "'d \<Rightarrow> 'd \<Rightarrow> bool" where
  "at_disk d0 d \<longleftrightarrow> invar d \<and> same_disk ops sec d0 d"

lemma length_blk: "invar d \<Longrightarrow> holds_blocks ops d n \<Longrightarrow> b < n \<Longrightarrow> length (blk ops sec d b) = 4096"
proof -
  assume inv: "invar d" and h: "holds_blocks ops d n" and b: "b < n"
  have "Suc b * block_sectors ops d \<le> n * block_sectors ops d" using b by (intro mult_le_mono1) simp
  then have le: "b * block_sectors ops d + block_sectors ops d \<le> sectors ops d"
    using h by (simp add: holds_blocks_def)
  have "length (blk ops sec d b) = block_sectors ops d * sector_bytes ops d"
    unfolding blk_def using le by (intro length_sector_range sec_length [OF inv]) simp
  then show ?thesis using h block_sectors_bounds(3) [of ops d] by (simp add: holds_blocks_def)
qed

lemma block_transfer:
  assumes "holds_blocks ops d n" "unat b < n"
  shows "good_transfer ops d (b * of_nat (block_sectors ops d)) 4096 (block_sectors ops d)"
  using assms block_lba [OF assms] block_sectors_bounds [of ops d]
  by (simp add: good_transfer_def holds_blocks_def)

lemma read_vec_block:
  assumes "at_disk d0 d" "holds_blocks ops d0 n" "unat b < n"
  shows "\<exists>d'. read_vec ops (b * of_nat (block_sectors ops d0)) 4096 d = (Inr (blk ops sec d0 (unat b)), d') \<and> at_disk d0 d'"
proof -
  have inv: "invar d" and same: "same_disk ops sec d0 d" using assms(1) by (simp_all add: at_disk_def)
  have h: "holds_blocks ops d n" using assms(2) holds_blocks_same [OF same] by simp
  have bs: "block_sectors ops d = block_sectors ops d0"
    using same_disk_sizes [OF same] by (simp add: block_sectors_def)
  obtain d' where r: "read_vec ops (b * of_nat (block_sectors ops d)) 4096 d =
      (Inr (sector_range (sec d) (unat (b * of_nat (block_sectors ops d))) (block_sectors ops d)), d')"
    "invar d'" "same_disk ops sec d d'"
    using read_vec_good [OF inv block_transfer [OF h assms(3)]] by blast
  have "sector_range (sec d) (unat (b * of_nat (block_sectors ops d))) (block_sectors ops d) = blk ops sec d0 (unat b)"
    using blk_same [OF same assms(2,3)] block_lba(1) [OF h assms(3)] by (simp add: blk_def)
  then show ?thesis using r same same_disk_trans [OF same r(3)] by (auto simp: bs at_disk_def)
qed

lemma ask_spb:
  assumes "at_disk d0 d"
  shows "sectors_per_block ops d = sectors_per_block ops d0"
  using assms same_disk_sizes [of ops sec d0 d] by (simp add: at_disk_def sectors_per_block_eq block_sectors_def)

lemma read_block_ok:
  assumes "holds_blocks ops d0 (unat (sb_total_blocks sb))" "b < sb_total_blocks sb"
  shows "triple (at_disk d0) (fs_read_block ops sb b BLOCK_SIZE) (\<lambda>x d. at_disk d0 d \<and> x = blk ops sec d0 (unat b)) E"
proof -
  have b: "unat b < unat (sb_total_blocks sb)" using assms(2) by (simp add: word_less_nat_alt)
  have "\<exists>d'. fs_read_block ops sb b BLOCK_SIZE d = (Inr (blk ops sec d0 (unat b)), d') \<and> at_disk d0 d'"
    if d: "at_disk d0 d" for d
    using read_vec_block [OF d assms(1) b] assms ask_spb [OF d]
    by (auto simp: fs_read_block_def BLOCK_SIZE_def sectors_per_block_eq holds_blocks_def not_le)
  then show ?thesis by (intro tripleI) fastforce+
qed

text \<open>Whatever the block number, a successful read returns a block of the volume.\<close>

lemma read_block_any:
  assumes "holds_blocks ops d0 (unat (sb_total_blocks sb))"
  shows "triple (at_disk d0) (fs_read_block ops sb b n)
    (\<lambda>x d. at_disk d0 d \<and> b < sb_total_blocks sb \<and> n = BLOCK_SIZE \<and> x = blk ops sec d0 (unat b)) fails_any"
proof (cases "n \<noteq> BLOCK_SIZE \<or> sb_total_blocks sb \<le> b")
  case True
  then show ?thesis by (auto simp: fs_read_block_def intro: triple_fail_any)
next
  case False
  then have b: "b < sb_total_blocks sb" "n = BLOCK_SIZE" by (simp_all add: not_le)
  show ?thesis
    using triple_post [OF read_block_ok [OF assms b(1), of fails_any]] b by simp
qed

end

end
