(* ===== verification/Nexfs_Fsck.thy ===== *)
theory Nexfs_Fsck
  imports Nexfs_Blocks
begin

text \<open>
  What the consistency check of \<open>crates/nexfs/src/lib.rs\<close> establishes: the blocks of a volume that
  passes it form a file system whose inodes own disjoint blocks, whose bitmaps are exact, and whose
  directories form a tree.
\<close>

section \<open>The geometry of a valid superblock\<close>

definition bitmap_blocks :: "superblock \<Rightarrow> nat" where
  "bitmap_blocks sb = (unat (sb_total_blocks sb) + 32767) div 32768"

definition total_of :: "superblock \<Rightarrow> nat" where "total_of sb = unat (sb_total_blocks sb)"
definition table_of :: "superblock \<Rightarrow> nat" where "table_of sb = unat (sb_inode_table_block sb)"
definition data_of :: "superblock \<Rightarrow> nat" where "data_of sb = unat (sb_data_start_block sb)"
definition inodes_of :: "superblock \<Rightarrow> nat" where "inodes_of sb = 16 * (data_of sb - table_of sb)"

lemmas geometry_defs = total_of_def table_of_def data_of_def inodes_of_def

lemma unat_div_ceil:
  assumes "b \<noteq> 0"
  shows "unat (div_ceil a b) = (unat a + unat b - 1) div unat b"
proof -
  have b: "0 < unat b" using assms by (simp add: unat_gt_0)
  have q: "unat (a div b) = unat a div unat b" "unat (a mod b) = unat a mod unat b" by (simp_all add: unat_div unat_mod)
  have split: "unat a = unat b * (unat a div unat b) + unat a mod unat b" by simp
  show ?thesis
  proof (cases "a mod b = 0")
    case True
    then have "unat a mod unat b = 0" using q(2) by simp
    then have "unat a + unat b - 1 = (unat b - 1) + unat b * (unat a div unat b)" using split b by linarith
    then have "(unat a + unat b - 1) div unat b = unat a div unat b"
      using b by (simp only: div_mult_self2 [OF gr_implies_not0 [OF b]]) simp
    then show ?thesis using True q(1) by (simp add: div_ceil_def)
  next
    case False
    then have m: "0 < unat a mod unat b" using q(2) by (metis unat_eq_zero gr0I)
    then have "unat a + unat b - 1 = (unat a mod unat b - 1) + unat b * Suc (unat a div unat b)"
      using split b m unfolding mult_Suc_right by linarith
    moreover have "unat a mod unat b - 1 < unat b" using b m mod_less_divisor [OF b, of "unat a"] by linarith
    ultimately have "(unat a + unat b - 1) div unat b = Suc (unat a div unat b)"
      using b by (simp only: div_mult_self2 [OF gr_implies_not0 [OF b]]) simp
    moreover have "unat a div unat b < 2 ^ LENGTH(64) - 1"
    proof -
      have "unat b \<noteq> 1" using m by (metis mod_by_1 less_numeral_extra(3) One_nat_def mod_by_Suc_0)
      then have "unat a div unat b \<le> unat a div 2" using b by (intro div_le_mono2) linarith+
      moreover have "unat a < 2 ^ 64" using unat_bound [of a] by simp
      ultimately show ?thesis by simp
    qed
    then have "unat (a div b + 1) = Suc (unat a div unat b)"
      using unat_add_fits [of "a div b" 1] q(1) by simp
    ultimately show ?thesis using False by (simp add: div_ceil_def)
  qed
qed

lemma unat_block_bitmap_blocks: "unat (block_bitmap_blocks sb) = bitmap_blocks sb"
  by (simp add: block_bitmap_blocks_def unat_div_ceil nexfs_consts bitmap_blocks_def)

lemma bitmap_blocks_bound: "bitmap_blocks sb \<le> 2 ^ 49" "total_of sb \<le> 32768 * bitmap_blocks sb"
    "32768 * bitmap_blocks sb < total_of sb + 32768"
  using unat_bound [of "sb_total_blocks sb"] by (simp_all add: bitmap_blocks_def total_of_def)

lemma sb_validD:
  assumes "sb_validate sb = Inr ()"
  shows "32 \<le> total_of sb" "sb_inode_bitmap_block sb = 2" "sb_block_bitmap_block sb = 3" "sb_root_inode sb = 1"
    "table_of sb = 3 + bitmap_blocks sb" "table_of sb < data_of sb" "data_of sb \<le> table_of sb + 2048"
    "data_of sb < total_of sb"
proof -
  have v: "sb_inode_table_block sb \<le> sb_data_start_block sb" "\<not> sb_total_blocks sb < MIN_BLOCKS"
    "sb_inode_bitmap_block sb = 2" "sb_block_bitmap_block sb = 3" "sb_root_inode sb = 1"
    "sb_inode_table_block sb = 3 + block_bitmap_blocks sb"
    "sb_data_start_block sb - sb_inode_table_block sb \<noteq> 0"
    "sb_data_start_block sb - sb_inode_table_block sb \<le> MAX_INODE_TABLE_BLOCKS"
    "sb_data_start_block sb < sb_total_blocks sb"
    using assms by (auto simp: sb_validate_def bind_res_Inr_iff checked_sub_def not_less not_le split: if_splits)
  have max: "unat MAX_INODE_TABLE_BLOCKS = 2048" by (simp add: nexfs_consts)
  have diff: "unat (sb_data_start_block sb - sb_inode_table_block sb) = data_of sb - table_of sb"
    using v(1) by (simp add: unat_sub geometry_defs)
  show "32 \<le> total_of sb" using v(2) by (simp add: total_of_def MIN_BLOCKS_def word_less_nat_alt not_less)
  show "sb_inode_bitmap_block sb = 2" "sb_block_bitmap_block sb = 3" "sb_root_inode sb = 1" using v by simp_all
  have "unat (3 + block_bitmap_blocks sb) = unat (3 :: u64) + unat (block_bitmap_blocks sb)"
    using bitmap_blocks_bound(1) [of sb] by (intro unat_add_fits) (simp add: unat_block_bitmap_blocks)
  then show "table_of sb = 3 + bitmap_blocks sb" by (simp add: table_of_def v(6) unat_block_bitmap_blocks)
  have "0 < unat (sb_data_start_block sb - sb_inode_table_block sb)" using v(7) by (simp add: unat_gt_0)
  then show "table_of sb < data_of sb" using diff by simp
  have "unat (sb_data_start_block sb - sb_inode_table_block sb) \<le> 2048" using v(8) max by (simp add: word_le_nat_alt)
  then show "data_of sb \<le> table_of sb + 2048" using diff by simp
  show "data_of sb < total_of sb" using v(9) by (simp add: geometry_defs word_less_nat_alt)
qed

lemma inode_count_valid:
  assumes "sb_validate sb = Inr ()"
  shows "\<exists>c. inode_count sb = Inr c \<and> unat c = inodes_of sb" "16 \<le> inodes_of sb" "inodes_of sb \<le> 32768"
proof -
  note v = sb_validD [OF assms]
  show le: "16 \<le> inodes_of sb" "inodes_of sb \<le> 32768" using v(6,7) by (simp_all add: inodes_of_def)
  define k where "k = sb_data_start_block sb - sb_inode_table_block sb"
  have sub: "checked_sub (sb_data_start_block sb) (sb_inode_table_block sb) = Some k"
    using v(6) by (simp add: checked_sub_def k_def word_le_nat_alt geometry_defs)
  have k: "unat k = data_of sb - table_of sb"
    using v(6) by (simp add: k_def unat_sub word_le_nat_alt geometry_defs)
  have "unat (INODES_PER_BLOCK) = 16" by (simp add: nexfs_consts)
  then have mul: "checked_mul k INODES_PER_BLOCK = Some (k * INODES_PER_BLOCK)" "unat (k * INODES_PER_BLOCK) = inodes_of sb"
    using k le(2) by (simp_all add: checked_mul_def unat_mult_fits inodes_of_def)
  have "sb_root_inode sb < k * INODES_PER_BLOCK" "k * INODES_PER_BLOCK \<le> BITMAP_BITS_PER_BLOCK"
    using mul(2) le v(4) by (simp_all add: word_less_nat_alt word_le_nat_alt) (simp add: nexfs_consts)
  then show "\<exists>c. inode_count sb = Inr c \<and> unat c = inodes_of sb"
    using mul by (simp add: inode_count_def sub)
qed

section \<open>The file system in the blocks\<close>

text \<open>\<open>B\<close> is the content of the blocks of a volume.\<close>

type_synonym blocks = "nat \<Rightarrow> bytes"

definition block_bitmap :: "blocks \<Rightarrow> superblock \<Rightarrow> bytes" where
  "block_bitmap B sb = concat (map B [3..<3 + bitmap_blocks sb])"

definition inode_at :: "blocks \<Rightarrow> superblock \<Rightarrow> nat \<Rightarrow> fs_error + inode" where
  "inode_at B sb n = inode_decode (slice (n * 256 mod 4096) 256 (B (table_of sb + n * 256 div 4096)))"

text \<open>The inode of an allocated inode number.\<close>

definition node :: "blocks \<Rightarrow> superblock \<Rightarrow> nat \<Rightarrow> inode option" where
  "node B sb n =
    (if 1 \<le> n \<and> n < inodes_of sb \<and> bm_bit (B 2) n
     then (case inode_at B sb n of Inl _ \<Rightarrow> None | Inr i \<Rightarrow> Some i) else None)"

definition pointers :: "blocks \<Rightarrow> inode \<Rightarrow> u64 list" where
  "pointers B i = map (\<lambda>k. get_u64 (B (unat (ino_indirect_block i))) (k * 8)) [0..<512]"

definition data_blocks :: "blocks \<Rightarrow> inode \<Rightarrow> nat list" where
  "data_blocks B i = map unat (take (unat (ino_block_count i)) (ino_direct_blocks i @ pointers B i))"

definition indirect_blocks :: "inode \<Rightarrow> nat list" where
  "indirect_blocks i = (if unat (ino_block_count i) \<le> 12 then [] else [unat (ino_indirect_block i)])"

definition inode_blocks :: "blocks \<Rightarrow> inode \<Rightarrow> nat list" where
  "inode_blocks B i = indirect_blocks i @ data_blocks B i"

definition owned_by :: "blocks \<Rightarrow> superblock \<Rightarrow> nat \<Rightarrow> nat set" where
  "owned_by B sb n = (case node B sb n of None \<Rightarrow> {} | Some i \<Rightarrow> set (inode_blocks B i))"

definition inode_contents :: "blocks \<Rightarrow> inode \<Rightarrow> bytes" where
  "inode_contents B i = take (unat (ino_size i)) (concat (map B (data_blocks B i)))"

definition inode_entries :: "blocks \<Rightarrow> inode \<Rightarrow> fs_error + directory_entry list" where
  "inode_entries B i = map_res de_decode (entry_chunks (inode_contents B i))"

text \<open>An inode whose pointers are distinct blocks of the data region, exactly as many as its size needs.\<close>

definition inode_valid :: "blocks \<Rightarrow> superblock \<Rightarrow> inode \<Rightarrow> bool" where
  "inode_valid B sb i \<longleftrightarrow>
    length (ino_direct_blocks i) = 12 \<and>
    unat (ino_block_count i) = (unat (ino_size i) + 4095) div 4096 \<and> unat (ino_block_count i) \<le> 524 \<and>
    distinct (inode_blocks B i) \<and> (\<forall>b \<in> set (inode_blocks B i). data_of sb \<le> b \<and> b < total_of sb) \<and>
    (\<forall>p \<in> set (drop (unat (ino_block_count i)) (ino_direct_blocks i)). p = 0) \<and>
    (if unat (ino_block_count i) \<le> 12 then ino_indirect_block i = 0
     else \<forall>p \<in> set (drop (unat (ino_block_count i) - 12) (pointers B i)). p = 0) \<and>
    (ino_kind i = Directory \<longrightarrow> unat (ino_size i) mod 256 = 0)"

lemma unat_data_blocks: "unat (data_blocks_for_size n) = (unat n + 4095) div 4096"
  by (simp add: data_blocks_for_size_def unat_div_ceil BLOCK_SIZE_def)

lemma inode_decode_direct: "inode_decode b = Inr i \<Longrightarrow> length (ino_direct_blocks i) = 12"
  by (auto simp: inode_decode_def Let_def bind_res_Inr_iff DIRECT_BLOCKS_def split: if_splits)

lemma sb_decode_valid: "sb_decode b = Inr sb \<Longrightarrow> sb_validate sb = Inr ()"
  by (auto simp: sb_decode_def Let_def bind_res_Inr_iff split: if_splits)

lemma length_u64_range [simp]: "length (u64_range a b) = unat b - unat a"
  by (simp add: u64_range_def)

lemma nth_u64_range [simp]: "k < unat b - unat a \<Longrightarrow> u64_range a b ! k = of_nat (unat a + k)"
  by (simp add: u64_range_def)

lemma unat_in_range:
  assumes "n < unat (b :: u64)"
  shows "unat (of_nat n :: u64) = n"
  using assms unat_bound [of b] by (intro unat_of_nat_fits) linarith

lemma set_u64_range: "x \<in> set (u64_range a b) \<longleftrightarrow> a \<le> x \<and> x < b"
proof -
  have "x \<in> of_nat ` {unat a..<unat b} \<longleftrightarrow> unat a \<le> unat x \<and> unat x < unat b"
  proof
    assume "x \<in> of_nat ` {unat a..<unat b}"
    then show "unat a \<le> unat x \<and> unat x < unat b" using unat_in_range by auto
  next
    assume "unat a \<le> unat x \<and> unat x < unat b"
    then have "unat x \<in> {unat a..<unat b}" by simp
    moreover have "x = of_nat (unat x)" by simp
    ultimately show "x \<in> of_nat ` {unat a..<unat b}" by (rule rev_image_eqI)
  qed
  then show ?thesis by (simp add: u64_range_def word_le_nat_alt word_less_nat_alt)
qed

section \<open>Claiming blocks\<close>

text \<open>The owner table: 1 for the reserved blocks, 2 for those of \<open>S\<close>, 0 for the others.\<close>

definition owner_table :: "superblock \<Rightarrow> nat set \<Rightarrow> bytes \<Rightarrow> bool" where
  "owner_table sb S owners \<longleftrightarrow> length owners = total_of sb \<and>
    (\<forall>b < total_of sb. owners ! b = (if b < data_of sb then 1 else if b \<in> S then 2 else 0))"

definition claimable :: "superblock \<Rightarrow> bytes \<Rightarrow> nat set \<Rightarrow> nat list \<Rightarrow> bool" where
  "claimable sb bm S bs \<longleftrightarrow> distinct bs \<and> set bs \<inter> S = {} \<and>
    (\<forall>b \<in> set bs. data_of sb \<le> b \<and> b < total_of sb \<and> bm_bit bm b)"

lemma claim_data_block_ok:
  assumes "claim_data_block sb bm p owners = Inr owners'" "owner_table sb S owners"
  shows "owner_table sb (insert (unat p) S) owners'" "claimable sb bm S [unat p]"
proof -
  have p: "data_of sb \<le> unat p" "unat p < total_of sb" "bm_bit bm (unat p)" "owners ! unat p = 0"
      "owners' = owners[unat p := 2]"
    using assms(1) by (auto simp: claim_data_block_def bind_res_Inr_iff bitmap_bit_eq geometry_defs
        word_less_nat_alt word_le_nat_alt not_less not_le split: if_splits)
  then have "unat p \<notin> S" using assms(2) by (auto simp: owner_table_def)
  with p show "claimable sb bm S [unat p]" by (simp add: claimable_def)
  show "owner_table sb (insert (unat p) S) owners'"
    using assms(2) p(1,2) by (auto simp: owner_table_def p(5) nth_list_update)
qed

lemma claimable_append:
  "claimable sb bm S xs \<Longrightarrow> claimable sb bm (S \<union> set xs) ys \<Longrightarrow> claimable sb bm S (xs @ ys)"
  by (auto simp: claimable_def)

lemma claim_pointers_ok:
  assumes "fold_res (claim_pointer sb bm c) (enumerate k ps) owners = Inr owners'" "owner_table sb S owners"
  shows "owner_table sb (S \<union> set (map unat (take (c - k) ps))) owners' \<and>
    claimable sb bm S (map unat (take (c - k) ps)) \<and> (\<forall>p \<in> set (drop (c - k) ps). p = 0)"
  using assms
proof (induction ps arbitrary: k owners S)
  case Nil
  then show ?case by (simp add: claimable_def)
next
  case (Cons p ps)
  obtain o1 where o1: "claim_pointer sb bm c (k, p) owners = Inr o1"
    "fold_res (claim_pointer sb bm c) (enumerate (Suc k) ps) o1 = Inr owners'"
    using Cons.prems(1) by (auto simp: bind_res_Inr_iff)
  show ?case
  proof (cases "k < c")
    case True
    then have "claim_data_block sb bm p owners = Inr o1" using o1(1) by (simp add: claim_pointer_def)
    note c = claim_data_block_ok [OF this Cons.prems(2)]
    have take: "take (c - k) (p # ps) = p # take (c - Suc k) ps" "drop (c - k) (p # ps) = drop (c - Suc k) ps"
      using True by (simp_all add: Suc_diff_Suc [symmetric])
    show ?thesis
      using Cons.IH [OF o1(2) c(1)] claimable_append [OF c(2), of "map unat (take (c - Suc k) ps)"] by (simp add: take)
  next
    case False
    then have "o1 = owners" "p = 0" using o1(1) by (auto simp: claim_pointer_def split: if_splits)
    then show ?thesis using Cons.IH [OF o1(2), of S] Cons.prems(2) False by simp
  qed
qed

lemma claim_reserved_ok:
  assumes "fold_res (claim_reserved bm) (u64_range 0 (sb_data_start_block sb)) (replicate (total_of sb) 0) = Inr owners"
    and "data_of sb \<le> total_of sb"
  shows "owner_table sb {} owners \<and> (\<forall>b < data_of sb. bm_bit bm b)"
proof -
  define I where "I = (\<lambda>k owners. length owners = total_of sb \<and>
    (\<forall>b < total_of sb. owners ! b = (if b < k then 1 else (0 :: u8))) \<and> (\<forall>b < k. bm_bit bm b))"
  have "I (length (u64_range 0 (sb_data_start_block sb))) owners"
  proof (rule fold_res_invariant [OF assms(1)])
    show "I 0 (replicate (total_of sb) 0)" by (simp add: I_def)
  next
    fix k b b' assume k: "k < length (u64_range 0 (sb_data_start_block sb))" and I: "I k b"
      and step: "claim_reserved bm (u64_range 0 (sb_data_start_block sb) ! k) b = Inr b'"
    have u: "unat (of_nat k :: u64) = k" using k unat_in_range [of k "sb_data_start_block sb"] by simp
    have s: "bm_bit bm k" "b' = b[k := 1]"
      using step k by (auto simp: claim_reserved_def bind_res_Inr_iff bitmap_bit_eq u split: if_splits)
    show "I (Suc k) b'" using I s k assms(2) by (auto simp: I_def nth_list_update less_Suc_eq data_of_def)
  qed
  then show ?thesis by (auto simp: I_def owner_table_def data_of_def)
qed

section \<open>The reads of the check\<close>

lemma pointer_list: "map (\<lambda>k. (k, get_u64 b (k * 8))) [0..<n] = enumerate 0 (map (\<lambda>k. get_u64 b (k * 8)) [0..<n])"
  by (rule nth_equalityI) (simp_all add: nth_enumerate_eq)

lemma valid_blocks:
  assumes "length (ino_direct_blocks i) = 12" "unat (ino_block_count i) \<le> 524"
  shows "inode_blocks B i = indirect_blocks i @ map unat (take (min 12 (unat (ino_block_count i))) (ino_direct_blocks i)) @
    map unat (take (unat (ino_block_count i) - 12) (pointers B i))"
  using assms by (simp add: inode_blocks_def data_blocks_def min_def)

context reliable_device
begin

lemma read_vec_any:
  assumes d: "at_disk d0 d" and dvd: "sector_bytes ops d0 dvd 4096"
    and r: "read_vec ops (1 * of_nat (block_sectors ops d0)) 4096 d = (Inr x, d')"
  shows "x = blk ops sec d0 1 \<and> at_disk d0 d'"
proof -
  have inv: "invar d" and same: "same_disk ops sec d0 d" using d by (simp_all add: at_disk_def)
  have sz: "sector_bytes ops d = sector_bytes ops d0" "sectors ops d = sectors ops d0"
    using same_disk_sizes [OF same] by simp_all
  note bs = block_sectors_bounds [OF dvd]
  let ?lba = "of_nat (block_sectors ops d0) :: u64"
  have "\<not> bad_transfer ops d ?lba 4096"
  proof
    assume "bad_transfer ops d ?lba 4096"
    then have "\<exists>e buf' d'. read_sectors ops ?lba (replicate 4096 0) d = (Inl e, buf', d')"
      using read_bad [OF inv, of ?lba "replicate 4096 0"] by auto
    then show False using r by (auto simp: read_vec_def)
  qed
  moreover have "0 < sector_bytes ops d" by (rule geometry [OF inv])
  moreover have div: "4096 div sector_bytes ops d = block_sectors ops d0" using sz by (simp add: block_sectors_def)
  ultimately have "unat ?lba + block_sectors ops d0 \<le> sectors ops d0"
    using dvd sz by (simp add: bad_transfer_def not_less)
  moreover have "unat ?lba = block_sectors ops d0" using bs(2) by (intro unat_of_nat_fits) simp
  ultimately have "holds_blocks ops d0 2" using dvd by (simp add: holds_blocks_def)
  from read_vec_block [OF d this, of 1] r show ?thesis by simp
qed

lemma clean_superblock_any:
  "triple (at_disk d0) (clean_superblock ops)
    (\<lambda>sb d. at_disk d0 d \<and> sb_decode (blk ops sec d0 1) = Inr sb \<and> is_clean sb \<and> holds_blocks ops d0 (total_of sb)) fails_any"
proof (rule tripleI)
  fix d sb d' assume d: "at_disk d0 d" and r: "clean_superblock ops d = (Inr sb, d')"
  have same: "same_disk ops sec d0 d" using d by (simp add: at_disk_def)
  obtain spb block d1 where s: "sectors_per_block ops d = Inr spb"
    "read_vec ops (SUPERBLOCK_BLOCK * spb) BLOCK_SIZE d = (Inr block, d1)" "sb_decode block = Inr sb" "is_clean sb"
    and size: "\<exists>n. device_bytes ops d1 = Inr n \<and> sb_total_blocks sb \<le> n div BLOCK_SIZE_U64" "d' = d1"
    using r by (auto simp: clean_superblock_def read_superblock_def bind_act_Inr_iff map_err_Inr_iff not_less split: if_splits)
  have dvd: "sector_bytes ops d0 dvd 4096" and spb: "spb = of_nat (block_sectors ops d0)"
    using s(1) ask_spb [OF d] by (auto simp: sectors_per_block_eq split: if_splits)
  have b: "block = blk ops sec d0 1" "at_disk d0 d1"
    using read_vec_any [OF d dvd, of block d1] s(2) by (simp_all add: spb nexfs_consts)
  then have sz: "sector_bytes ops d1 = sector_bytes ops d0" "sectors ops d1 = sectors ops d0"
    using same_disk_sizes [of ops sec d0 d1] by (simp_all add: at_disk_def)
  obtain n where n: "device_bytes ops d1 = Inr n" "sb_total_blocks sb \<le> n div BLOCK_SIZE_U64" using size by blast
  have un: "unat n = sectors ops d0 * sector_bytes ops d0"
    using n(1) sz by (auto simp: device_bytes_def sectors_def sector_bytes_def unat_ucast_up dest: checked_mul_SomeD)
  have "total_of sb \<le> unat n div 4096"
    using n(2) by (simp add: total_of_def word_le_nat_alt BLOCK_SIZE_U64_def unat_div)
  also have "\<dots> = sectors ops d0 div block_sectors ops d0"
    using block_sectors_bounds [OF dvd] un
    by (metis div_mult_mult2 mult_0_right mult_eq_0_iff zero_neq_numeral)
  finally have "total_of sb * block_sectors ops d0 \<le> sectors ops d0"
    by (meson dual_order.trans mult_le_mono1 div_times_less_eq_dividend)
  then show "at_disk d0 d' \<and> sb_decode (blk ops sec d0 1) = Inr sb \<and> is_clean sb \<and> holds_blocks ops d0 (total_of sb)"
    using b s(3,4) size(2) dvd by (simp add: holds_blocks_def)
qed simp

definition volume_at :: "'d \<Rightarrow> superblock \<Rightarrow> bool" where
  "volume_at d0 sb \<longleftrightarrow> invar d0 \<and> sb_validate sb = Inr () \<and> holds_blocks ops d0 (total_of sb)"

lemma volumeD:
  assumes "volume_at d0 sb"
  shows "invar d0" "sb_validate sb = Inr ()" "holds_blocks ops d0 (total_of sb)"
  using assms by (simp_all add: volume_at_def)

lemmas geo = sb_validD [OF volumeD(2)]

lemma length_B: "volume_at d0 sb \<Longrightarrow> b < total_of sb \<Longrightarrow> length (blk ops sec d0 b) = 4096"
  by (rule length_blk [OF volumeD(1,3)])

lemma read_any:
  assumes vol: "volume_at d0 sb"
  shows "triple (at_disk d0) (fs_read_block ops sb b n)
    (\<lambda>x d. at_disk d0 d \<and> b < sb_total_blocks sb \<and> x = blk ops sec d0 (unat b)) fails_any"
  by (rule triple_post [OF read_block_any]) (use volumeD(3) [OF vol] in \<open>simp_all add: total_of_def\<close>)

lemma read_ok:
  assumes vol: "volume_at d0 sb" and "unat b < total_of sb"
  shows "triple (at_disk d0) (fs_read_block ops sb b BLOCK_SIZE) (\<lambda>x d. at_disk d0 d \<and> x = blk ops sec d0 (unat b)) E"
  by (rule read_block_ok) (use volumeD(3) [OF vol] assms(2) in \<open>simp_all add: total_of_def word_less_nat_alt\<close>)

lemma inode_bitmap_any:
  assumes vol: "volume_at d0 sb"
  shows "triple (at_disk d0) (read_inode_bitmap ops sb)
    (\<lambda>x d. at_disk d0 d \<and> x = blk ops sec d0 2 \<and> bm_bit x 0 \<and> bm_bit x 1) fails_any"
proof (rule tripleI)
  fix d x d' assume d: "at_disk d0 d" and r: "read_inode_bitmap ops sb d = (Inr x, d')"
  then have "fs_read_block ops sb 2 BLOCK_SIZE d = (Inr x, d')" "bitmap_bit x 0 = Inr True" "bitmap_bit x 1 = Inr True"
    using geo(2,4) [OF vol] by (auto simp: read_inode_bitmap_def bind_act_Inr_iff split: if_splits)
  moreover from this(1) have "at_disk d0 d' \<and> x = blk ops sec d0 2" using tripleD [OF read_any [OF vol] d, of 2] by simp
  ultimately show "at_disk d0 d' \<and> x = blk ops sec d0 2 \<and> bm_bit x 0 \<and> bm_bit x 1"
    by (auto simp: bitmap_bit_eq split: if_splits)
qed simp

lemma length_blocks:
  assumes "volume_at d0 sb" "a + k \<le> total_of sb"
  shows "length (concat (map (blk ops sec d0) [a..<a + k])) = k * 4096"
proof -
  have "map length (map (blk ops sec d0) [a..<a + k]) = replicate k 4096"
    using assms by (intro nth_equalityI) (simp_all add: length_B [OF assms(1)])
  then show ?thesis by (simp add: length_concat sum_list_replicate)
qed

lemma block_bitmap_ok:
  assumes vol: "volume_at d0 sb"
  shows "triple (at_disk d0) (read_block_bitmap ops sb) (\<lambda>x d. at_disk d0 d \<and> x = block_bitmap (blk ops sec d0) sb) E"
proof -
  let ?n = "bitmap_blocks sb" and ?B = "blk ops sec d0"
  define I where "I = (\<lambda>k bm d. at_disk d0 d \<and> bm = concat (map ?B [3..<3 + k]) @ replicate ((?n - k) * 4096) 0)"
  note g = geo [OF vol]
  have small: "unat (of_nat k :: u64) = k" "checked_mul (of_nat k :: u64) (of_nat BLOCK_SIZE) = Some (of_nat k * of_nat BLOCK_SIZE)"
      "unat (of_nat k * of_nat BLOCK_SIZE :: u64) = k * 4096" "unat (3 + of_nat k :: u64) = 3 + k" if "k \<le> ?n" for k
  proof -
    show uk: "unat (of_nat k :: u64) = k" using that bitmap_blocks_bound(1) [of sb] by (intro unat_of_nat_fits) simp
    show "checked_mul (of_nat k :: u64) (of_nat BLOCK_SIZE) = Some (of_nat k * of_nat BLOCK_SIZE)"
      "unat (of_nat k * of_nat BLOCK_SIZE :: u64) = k * 4096" "unat (3 + of_nat k :: u64) = 3 + k"
      using that uk bitmap_blocks_bound(1) [of sb] unat_mult_fits [of "of_nat k :: u64" 4096] unat_add_fits [of 3 "of_nat k :: u64"]
      by (simp_all add: checked_mul_def BLOCK_SIZE_def)
  qed
  have step: "triple (I k bm) (read_bitmap_block ops sb (of_nat k) bm) (I (Suc k)) E" if k: "k < ?n" for k bm
  proof -
    have lb: "length (?B (3 + k)) = 4096" using k g(5,6,8) length_B [OF vol] by simp
    have e: "[3..<3 + Suc k] = [3..<3 + k] @ [3 + k]" by (simp only: add_Suc_right upt_Suc_append le_add1)
    have put: "put_slice (k * 4096) (?B (3 + k)) (concat (map ?B [3..<3 + k]) @ replicate ((?n - k) * 4096) 0) =
        concat (map ?B [3..<3 + Suc k]) @ replicate ((?n - Suc k) * 4096) 0"
      unfolding e using length_blocks [OF vol, of 3 k] k lb g(5,6,8) by (simp add: put_skip put_first diff_mult_distrib)
    have rd: "triple (at_disk d0) (fs_read_block ops sb (3 + of_nat k) BLOCK_SIZE) (\<lambda>x d. at_disk d0 d \<and> x = ?B (3 + k)) E"
      using read_ok [OF vol, of "3 + of_nat k" E] k small(4) [of k] g(5,6,8) by simp
    have "triple (\<lambda>d. at_disk d0 d \<and> bm = concat (map ?B [3..<3 + k]) @ replicate ((?n - k) * 4096) 0)
        (bind_act (fs_read_block ops sb (3 + of_nat k) BLOCK_SIZE) (\<lambda>block. return_act (put_slice (k * 4096) block bm)))
        (\<lambda>x d. at_disk d0 d \<and> x = concat (map ?B [3..<3 + Suc k]) @ replicate ((?n - Suc k) * 4096) 0) E"
      by (rule triple_bind [OF triple_frame [OF rd]]) (auto simp: triple_def put)
    then show ?thesis
      using small(2,3) [of k] k g(3) by (simp add: I_def read_bitmap_block_def triple_def bind_act_def)
  qed
  have fold: "triple (I 0 bm) (fold_act (read_bitmap_block ops sb) (u64_range 0 (block_bitmap_blocks sb)) bm) (I ?n) E" for bm
    using triple_fold [of "u64_range 0 (block_bitmap_blocks sb)" I "read_bitmap_block ops sb" E bm] step
    by (simp add: unat_block_bitmap_blocks)
  have nb: "block_bitmap_blocks sb = of_nat ?n" using unat_block_bitmap_blocks [of sb] by (metis word_unat_eq_iff small(1) order_refl)
  have "triple (at_disk d0) (read_block_bitmap ops sb) (I ?n) E"
    unfolding read_block_bitmap_def
    by (rule triple_bind [OF triple_lift_ok [where x = "of_nat ?n * of_nat BLOCK_SIZE"]])
       (use small(2,3) [of ?n] in \<open>simp_all add: nb\<close>, rule triple_pre [OF fold [unfolded nb]], simp add: I_def)
  then show ?thesis by (rule triple_post) (simp add: I_def block_bitmap_def)
qed

lemmas block_bitmap_any = block_bitmap_ok [where E = fails_any]

lemma read_inode_any:
  assumes vol: "volume_at d0 sb"
  shows "triple (at_disk d0) (fs_read_inode ops sb n)
    (\<lambda>i d. at_disk d0 d \<and> unat n < inodes_of sb \<and> inode_at (blk ops sec d0) sb (unat n) = Inr i) fails_any"
proof (rule tripleI)
  fix d i d' assume d: "at_disk d0 d" and r: "fs_read_inode ops sb n d = (Inr i, d')"
  note g = geo [OF vol]
  obtain c where c: "inode_count sb = Inr c" "unat c = inodes_of sb"
    using inode_count_valid(1) [OF volumeD(2) [OF vol]] by blast
  obtain off block where s: "n < c" "checked_mul n (of_nat INODE_SIZE) = Some off"
    "fs_read_block ops sb (sb_inode_table_block sb + off div BLOCK_SIZE_U64) BLOCK_SIZE d = (Inr block, d')"
    "inode_decode (slice (unat (off mod BLOCK_SIZE_U64)) INODE_SIZE block) = Inr i"
    using r c(1) by (auto simp: fs_read_inode_def bind_act_Inr_iff Let_def not_le split: if_splits)
  have n: "unat n < inodes_of sb" using s(1) c(2) by (simp add: word_less_nat_alt)
  have off: "unat off = unat n * 256" using checked_mul_SomeD [OF s(2)] by (simp add: INODE_SIZE_def)
  have um: "unat (off mod BLOCK_SIZE_U64) = unat n * 256 mod 4096" "unat (off div BLOCK_SIZE_U64) = unat n * 256 div 4096"
    by (simp_all add: unat_mod unat_div off BLOCK_SIZE_U64_def)
  have "unat n * 256 div 4096 \<le> data_of sb - table_of sb" using n by (simp add: inodes_of_def)
  then have "unat (sb_inode_table_block sb + off div BLOCK_SIZE_U64) = table_of sb + unat n * 256 div 4096"
    using g(6,8) um(2) unat_bound [of "sb_total_blocks sb"]
    by (subst unat_add_fits) (simp_all add: table_of_def total_of_def)
  then have "at_disk d0 d' \<and> block = blk ops sec d0 (table_of sb + unat n * 256 div 4096)"
    using tripleD [OF read_any [OF vol] d s(3)] by simp
  then show "at_disk d0 d' \<and> unat n < inodes_of sb \<and> inode_at (blk ops sec d0) sb (unat n) = Inr i"
    using s(4) n by (simp add: inode_at_def um(1) INODE_SIZE_def)
qed simp

lemma validate_inode_any:
  assumes vol: "volume_at d0 sb" and own: "owner_table sb S owners" and dir: "length (ino_direct_blocks i) = 12"
    and kind: "ino_kind i = Directory \<Longrightarrow> unat (ino_size i) mod 256 = 0"
  shows "triple (at_disk d0) (validate_inode_blocks ops sb bm owners i)
    (\<lambda>owners' d. at_disk d0 d \<and> owner_table sb (S \<union> set (inode_blocks (blk ops sec d0) i)) owners' \<and>
      claimable sb bm S (inode_blocks (blk ops sec d0) i) \<and> inode_valid (blk ops sec d0) sb i) fails_any"
proof (rule tripleI)
  let ?B = "blk ops sec d0"
  fix d owners' d' assume d: "at_disk d0 d" and r: "validate_inode_blocks ops sb bm owners i d = (Inr owners', d')"
  define n where "n = unat (ino_block_count i)"
  have e: "data_blocks_for_size (ino_size i) = ino_block_count i" "\<not> of_nat MAX_FILE_BLOCKS < ino_block_count i"
    using r by (auto simp: validate_inode_blocks_def Let_def split: if_splits)
  have n: "n = (unat (ino_size i) + 4095) div 4096" "n \<le> 524"
    using unat_data_blocks [of "ino_size i"] e by (simp_all add: n_def not_less word_le_nat_alt nexfs_consts)
  have dc: "unat (min (ino_block_count i) (of_nat DIRECT_BLOCKS)) = min n 12"
    by (simp add: min_def n_def word_le_nat_alt DIRECT_BLOCKS_def)
  obtain o1 where o1: "fold_res (claim_pointer sb bm (min n 12)) (enumerate 0 (ino_direct_blocks i)) owners = Inr o1"
    and rest: "(if ino_block_count i \<le> of_nat DIRECT_BLOCKS then
         if ino_indirect_block i \<noteq> 0 then fail_act F_CorruptInode else return_act o1
       else
         bind_act (lift_res (claim_data_block sb bm (ino_indirect_block i) o1)) (\<lambda>owners.
         bind_act (fs_read_block ops sb (ino_indirect_block i) BLOCK_SIZE) (\<lambda>pointers.
         lift_res (fold_res (claim_pointer sb bm (unat (ino_block_count i - of_nat DIRECT_BLOCKS)))
           (map (\<lambda>k. (k, get_u64 pointers (k * 8))) [0..<INDIRECT_POINTERS]) owners)))) d = (Inr owners', d')"
    using r e by (auto simp: validate_inode_blocks_def Let_def bind_act_Inr_iff dc)
  let ?direct = "map unat (take (min n 12) (ino_direct_blocks i))"
  have c1: "owner_table sb (S \<union> set ?direct) o1" "claimable sb bm S ?direct"
    "\<forall>p \<in> set (drop (min n 12) (ino_direct_blocks i)). p = 0"
    using claim_pointers_ok [OF o1 own] by simp_all
  have z: "\<forall>p \<in> set (drop n (ino_direct_blocks i)). p = 0" using c1(3) dir by (cases "n \<le> 12") (simp_all add: min_def)
  show "at_disk d0 d' \<and> owner_table sb (S \<union> set (inode_blocks ?B i)) owners' \<and>
      claimable sb bm S (inode_blocks ?B i) \<and> inode_valid ?B sb i"
  proof (cases "n \<le> 12")
    case True
    then have "ino_block_count i \<le> of_nat DIRECT_BLOCKS" by (simp add: n_def word_le_nat_alt DIRECT_BLOCKS_def)
    then have s: "owners' = o1" "d' = d" "ino_indirect_block i = 0" using rest by (auto split: if_splits)
    have b: "inode_blocks ?B i = ?direct"
      using True dir n(2) by (simp add: valid_blocks n_def indirect_blocks_def)
    have "inode_valid ?B sb i"
      using n dir c1(2) z s(3) True kind by (auto simp: inode_valid_def b n_def claimable_def)
    then show ?thesis using s d c1 by (simp add: b)
  next
    case False
    then have big: "\<not> ino_block_count i \<le> of_nat DIRECT_BLOCKS" by (simp add: n_def word_le_nat_alt DIRECT_BLOCKS_def)
    have un: "unat (ino_block_count i - of_nat DIRECT_BLOCKS) = n - 12"
      using big by (subst unat_sub) (simp_all add: n_def DIRECT_BLOCKS_def)
    obtain o2 ptrs where s: "claim_data_block sb bm (ino_indirect_block i) o1 = Inr o2"
      "fs_read_block ops sb (ino_indirect_block i) BLOCK_SIZE d = (Inr ptrs, d')"
      "fold_res (claim_pointer sb bm (n - 12)) (enumerate 0 (map (\<lambda>k. get_u64 ptrs (k * 8)) [0..<512])) o2 = Inr owners'"
      using rest big by (auto simp: bind_act_Inr_iff un pointer_list INDIRECT_POINTERS_def BLOCK_SIZE_def)
    have ptrs: "at_disk d0 d'" "map (\<lambda>k. get_u64 ptrs (k * 8)) [0..<512] = pointers ?B i"
      using tripleD [OF read_any [OF vol] d s(2)] by (simp_all add: pointers_def)
    note c2 = claim_data_block_ok [OF s(1) c1(1)]
    let ?ind = "map unat (take (n - 12) (pointers ?B i))"
    have c3: "owner_table sb (insert (unat (ino_indirect_block i)) (S \<union> set ?direct) \<union> set ?ind) owners'"
      "claimable sb bm (insert (unat (ino_indirect_block i)) (S \<union> set ?direct)) ?ind"
      "\<forall>p \<in> set (drop (n - 12) (pointers ?B i)). p = 0"
      using claim_pointers_ok [OF s(3) c2(1)] by (simp_all add: ptrs(2))
    have b: "inode_blocks ?B i = unat (ino_indirect_block i) # ?direct @ ?ind"
      using False dir n(2) by (simp add: valid_blocks n_def indirect_blocks_def min_def)
    have cl: "claimable sb bm S (inode_blocks ?B i)"
      unfolding b using c1(2) c2(2) c3(2) by (auto simp: claimable_def)
    have "inode_valid ?B sb i"
      using n dir cl z c3(3) False kind by (auto simp: inode_valid_def n_def claimable_def)
    moreover have "S \<union> set (inode_blocks ?B i) = insert (unat (ino_indirect_block i)) (S \<union> set ?direct) \<union> set ?ind"
      by (auto simp: b)
    ultimately show ?thesis using ptrs(1) c3(1) cl by simp
  qed
qed simp

end

end
