(* ===== verification/Nexfs_Sound.thy ===== *)
theory Nexfs_Sound
  imports Nexfs_Fsck
begin

text \<open>
  Soundness of the consistency check of \<open>crates/nexfs/src/lib.rs\<close>: the scan of the inode table and the
  walk through the directories, and what a volume that passes both looks like.
\<close>

section \<open>The scan of the inode table\<close>

text \<open>What the scan has established after the inodes up to \<open>k\<close>.\<close>

definition scanned :: "blocks \<Rightarrow> superblock \<Rightarrow> nat \<Rightarrow> scan_state \<Rightarrow> bool" where
  "scanned B sb k s \<longleftrightarrow>
    owner_table sb (\<Union>n \<in> {1..k}. owned_by B sb n) (sc_owners s) \<and>
    length (sc_inodes s) = inodes_of sb \<and>
    (\<forall>n < inodes_of sb. sc_inodes s ! n = (if n \<le> k then node B sb n else None)) \<and>
    (\<forall>n \<in> {1..k}. bm_bit (B 2) n \<longrightarrow> (\<exists>i. node B sb n = Some i \<and> inode_valid B sb i \<and> (n = 1 \<longrightarrow> ino_kind i = Directory))) \<and>
    (\<forall>m \<in> {1..k}. \<forall>n \<in> {1..k}. m \<noteq> n \<longrightarrow> owned_by B sb m \<inter> owned_by B sb n = {}) \<and>
    (\<forall>n \<in> {1..k}. \<forall>b \<in> owned_by B sb n. data_of sb \<le> b \<and> b < total_of sb \<and> bm_bit (block_bitmap B sb) b)"

lemma scanned_skip:
  assumes "scanned B sb k s" "\<not> bm_bit (B 2) (Suc k)"
  shows "scanned B sb (Suc k) s"
proof -
  have none: "node B sb (Suc k) = None" "owned_by B sb (Suc k) = {}" using assms(2) by (simp_all add: node_def owned_by_def)
  have ran: "{1..Suc k} = insert (Suc k) {1..k}" by auto
  show ?thesis
    using assms none unfolding scanned_def ran by (auto simp: le_Suc_eq)
qed

lemma scanned_add:
  assumes "scanned B sb k s" "Suc k < inodes_of sb" "bm_bit (B 2) (Suc k)"
    and i: "inode_at B sb (Suc k) = Inr i" "inode_valid B sb i" "Suc k = 1 \<longrightarrow> ino_kind i = Directory"
    and own: "owner_table sb ((\<Union>n \<in> {1..k}. owned_by B sb n) \<union> set (inode_blocks B i)) owners"
    and cl: "claimable sb (block_bitmap B sb) (\<Union>n \<in> {1..k}. owned_by B sb n) (inode_blocks B i)"
    and s': "sc_owners s' = owners" "sc_inodes s' = (sc_inodes s)[Suc k := Some i]"
  shows "scanned B sb (Suc k) s'"
proof -
  have node: "node B sb (Suc k) = Some i" using assms(2,3) i(1) by (simp add: node_def)
  then have owned: "owned_by B sb (Suc k) = set (inode_blocks B i)" by (simp add: owned_by_def)
  have ran: "{1..Suc k} = insert (Suc k) {1..k}" by auto
  have disj: "owned_by B sb n \<inter> set (inode_blocks B i) = {}" if "n \<in> {1..k}" for n
    using cl that unfolding claimable_def by blast
  have un: "(\<Union>n \<in> {1..Suc k}. owned_by B sb n) = (\<Union>n \<in> {1..k}. owned_by B sb n) \<union> set (inode_blocks B i)"
    unfolding ran by (auto simp: owned)
  note sc = assms(1) [unfolded scanned_def]
  show ?thesis
    unfolding scanned_def un s'
  proof (intro conjI)
    show "owner_table sb ((\<Union>n \<in> {1..k}. owned_by B sb n) \<union> set (inode_blocks B i)) owners" by (rule own)
    show "length ((sc_inodes s)[Suc k := Some i]) = inodes_of sb" using sc by simp
    show "\<forall>n<inodes_of sb. (sc_inodes s)[Suc k := Some i] ! n = (if n \<le> Suc k then node B sb n else None)"
      using sc assms(2) node by (auto simp: nth_list_update le_Suc_eq)
    show "\<forall>n\<in>{1..Suc k}. bm_bit (B 2) n \<longrightarrow>
       (\<exists>i. node B sb n = Some i \<and> inode_valid B sb i \<and> (n = 1 \<longrightarrow> ino_kind i = Directory))"
      unfolding ran using sc node i by auto
    show "\<forall>m\<in>{1..Suc k}. \<forall>n\<in>{1..Suc k}. m \<noteq> n \<longrightarrow> owned_by B sb m \<inter> owned_by B sb n = {}"
      unfolding ran using sc disj owned by (auto simp: Int_commute)
    show "\<forall>n\<in>{1..Suc k}. \<forall>b\<in>owned_by B sb n. data_of sb \<le> b \<and> b < total_of sb \<and> bm_bit (block_bitmap B sb) b"
      unfolding ran using sc cl owned by (auto simp: claimable_def)
  qed
qed

context reliable_device
begin

lemma scan_inode_any:
  assumes vol: "volume_at d0 sb" and k: "Suc k < inodes_of sb" and uk: "unat w = Suc k"
  shows "triple (\<lambda>d. at_disk d0 d \<and> scanned (blk ops sec d0) sb k s)
    (scan_inode ops sb (blk ops sec d0 2) (block_bitmap (blk ops sec d0) sb) w s)
    (\<lambda>s' d. at_disk d0 d \<and> scanned (blk ops sec d0) sb (Suc k) s') fails_any"
proof (rule tripleI)
  let ?B = "blk ops sec d0"
  fix d s' d' assume pre: "at_disk d0 d \<and> scanned ?B sb k s"
    and r: "scan_inode ops sb (?B 2) (block_bitmap ?B sb) w s d = (Inr s', d')"
  note g = geo [OF vol]
  show "at_disk d0 d' \<and> scanned ?B sb (Suc k) s'"
  proof (cases "bm_bit (?B 2) (Suc k)")
    case False
    then have "s' = s \<and> d' = d" using r by (auto simp: scan_inode_def bind_act_Inr_iff bitmap_bit_eq uk split: if_splits)
    then show ?thesis using pre scanned_skip False by auto
  next
    case True
    have "bitmap_bit (?B 2) w = Inr True"
      using r True by (auto simp: scan_inode_def bind_act_Inr_iff bitmap_bit_eq uk split: if_splits)
    then obtain i d1 where s1: "fs_read_inode ops sb w d = (Inr i, d1)"
      and rest: "(if w = sb_root_inode sb \<and> ino_kind i \<noteq> Directory then fail_act F_InvalidLayout
        else if ino_kind i = Directory \<and> ino_size i mod of_nat DIR_ENTRY_SIZE \<noteq> 0 then fail_act F_CorruptDirectory
        else
          bind_act (validate_inode_blocks ops sb (block_bitmap ?B sb) (sc_owners s) i) (\<lambda>owners.
          return_act
            \<lparr>sc_owners = owners, sc_inodes = (sc_inodes s)[unat w := Some i], sc_allocated = sc_allocated s + 1,
             sc_files = (if ino_kind i = Regular then sc_files s + 1 else sc_files s),
             sc_directories = (if ino_kind i = Directory then sc_directories s + 1 else sc_directories s)\<rparr>)) d1 = (Inr s', d')"
      using r by (simp add: scan_inode_def bind_act_Inr_iff [of "fs_read_inode ops sb w"]) blast
    have s2: "w = sb_root_inode sb \<longrightarrow> ino_kind i = Directory" "ino_kind i = Directory \<longrightarrow> ino_size i mod of_nat DIR_ENTRY_SIZE = 0"
      using rest by (simp_all split: if_splits)
    obtain owners where s3: "validate_inode_blocks ops sb (block_bitmap ?B sb) (sc_owners s) i d1 = (Inr owners, d')"
      "sc_owners s' = owners" "sc_inodes s' = (sc_inodes s)[Suc k := Some i]"
      using rest by (auto simp: bind_act_Inr_iff uk split: if_splits)
    note s = s1 s2 s3
    have i: "at_disk d0 d1" "inode_at ?B sb (Suc k) = Inr i"
      using tripleD [OF read_inode_any [OF vol] _ s(1)] pre uk by auto
    have size: "unat (ino_size i) mod 256 = 0" if "ino_kind i = Directory"
    proof -
      have "unat (ino_size i) mod 256 = unat (ino_size i mod 256)" by (simp add: unat_mod)
      also have "ino_size i mod 256 = 0" using s(3) that by (simp add: DIR_ENTRY_SIZE_def)
      finally show ?thesis by simp
    qed
    have own: "owner_table sb (\<Union>n \<in> {1..k}. owned_by ?B sb n) (sc_owners s)" using pre by (simp add: scanned_def)
    have dir: "length (ino_direct_blocks i) = 12" using i(2) inode_decode_direct by (simp add: inode_at_def)
    have v: "at_disk d0 d'" "owner_table sb ((\<Union>n \<in> {1..k}. owned_by ?B sb n) \<union> set (inode_blocks ?B i)) owners"
      "claimable sb (block_bitmap ?B sb) (\<Union>n \<in> {1..k}. owned_by ?B sb n) (inode_blocks ?B i)" "inode_valid ?B sb i"
      using tripleD [OF validate_inode_any [OF vol own dir size] i(1) s(4)] by simp_all
    have "Suc k = 1 \<longrightarrow> w = 1" using uk by (auto simp: word_unat_eq_iff)
    then have "Suc k = 1 \<longrightarrow> ino_kind i = Directory" using s(2) g(4) by auto
    then show ?thesis using v pre scanned_add [OF _ k True i(2) v(4) _ v(2,3) s(5,6)] by blast
  qed
qed simp

lemma read_all_any:
  assumes vol: "volume_at d0 sb" and val: "inode_valid (blk ops sec d0) sb i"
  shows "triple (at_disk d0) (read_all_inode_data ops sb i)
    (\<lambda>x d. at_disk d0 d \<and> x = inode_contents (blk ops sec d0) i) fails_any"
proof (cases "unat (ino_size i) = 0")
  case True
  then show ?thesis by (auto simp: read_all_inode_data_def inode_contents_def triple_def)
next
  case False
  let ?B = "blk ops sec d0" and ?len = "unat (ino_size i)" and ?n = "unat (ino_block_count i)"
  let ?db = "data_blocks ?B i"
  have v: "length (ino_direct_blocks i) = 12" "?n = (?len + 4095) div 4096" "?n \<le> 524"
    using val by (simp_all add: inode_valid_def)
  have ldb: "length ?db = ?n" using v by (simp add: data_blocks_def pointers_def)
  have lb: "length x = 4096" if "x \<in> set (map ?B ?db)" for x
    using that val length_B [OF vol] by (auto simp: inode_valid_def inode_blocks_def)
  define ind where "ind = (if 12 < ?n then Some (?B (unat (ino_indirect_block i))) else None)"
  have big: "of_nat DIRECT_BLOCKS < ino_block_count i \<longleftrightarrow> 12 < ?n"
    by (simp add: word_less_nat_alt DIRECT_BLOCKS_def)
  define body where "body = (\<lambda>indirect index out.
      bind_act (lift_res
        (if index < DIRECT_BLOCKS then Inr (ino_direct_blocks i ! index)
         else bind_res (ok_or F_CorruptInode indirect) (\<lambda>pointers.
           Inr (get_u64 pointers ((index - DIRECT_BLOCKS) * 8))))) (\<lambda>block_number.
      bind_act (fs_read_block ops sb block_number BLOCK_SIZE) (\<lambda>block.
      return_act (out @ take (min BLOCK_SIZE (?len - index * BLOCK_SIZE)) block))))"
  define I where "I = (\<lambda>k out d. at_disk d0 d \<and> out = take (min ?len (k * 4096)) (concat (map ?B ?db)))"
  have step: "triple (I k out) (body ind k out) (I (Suc k)) fails_any" if k: "k < ?n" for k out
  proof (rule tripleI)
    fix d x d' assume I: "I k out d" and r: "body ind k out d = (Inr x, d')"
    obtain p block where s: "(if k < DIRECT_BLOCKS then Inr (ino_direct_blocks i ! k)
         else bind_res (ok_or F_CorruptInode ind) (\<lambda>ps. Inr (get_u64 ps ((k - DIRECT_BLOCKS) * 8)))) = Inr p"
      "fs_read_block ops sb p BLOCK_SIZE d = (Inr block, d')"
      "x = out @ take (min BLOCK_SIZE (?len - k * BLOCK_SIZE)) block"
      using r unfolding body_def bind_act_Inr_iff by auto
    have p: "unat p = ?db ! k"
      using s(1) k v(1,3)
      by (auto simp: data_blocks_def pointers_def ind_def DIRECT_BLOCKS_def nth_append split: if_splits)
    have b: "at_disk d0 d'" "block = ?B (?db ! k)" using tripleD [OF read_any [OF vol] _ s(2)] I p by (auto simp: I_def)
    have kl: "k * 4096 < ?len" using k v(2) by linarith
    have "take (k * 4096 + min 4096 (?len - k * 4096)) (concat (map ?B ?db)) =
        take (k * 4096) (concat (map ?B ?db)) @ take (min 4096 (?len - k * 4096)) (map ?B ?db ! k)"
      using lb k ldb by (intro take_concat_uniform) simp_all
    moreover have "k * 4096 + min 4096 (?len - k * 4096) = min ?len (Suc k * 4096)" using kl unfolding mult_Suc by arith
    ultimately show "I (Suc k) x d'" using I b kl s(3) k ldb by (simp add: I_def BLOCK_SIZE_def)
  qed simp
  have all: "triple (I 0 []) (fold_act (body ind) [0..<?n] []) (I ?n) fails_any"
    using triple_fold [of "[0..<?n]" I "body ind" fails_any "[]"] step by simp
  have len: "min ?len (?n * 4096) = ?len" using v(2) by linarith
  have n: "(?len + BLOCK_SIZE - 1) div BLOCK_SIZE = ?n" using v(2) by (simp add: BLOCK_SIZE_def)
  have eq: "read_all_inode_data ops sb i =
    bind_act (if 12 < ?n then bind_act (fs_read_block ops sb (ino_indirect_block i) BLOCK_SIZE) (\<lambda>b. return_act (Some b))
      else return_act None) (\<lambda>indirect. fold_act (body indirect) [0..<?n] [])"
    using False unfolding read_all_inode_data_def Let_def n big body_def by (simp only: if_False)
  show ?thesis
    unfolding eq
  proof (rule triple_bind [where R = "\<lambda>x d. at_disk d0 d \<and> x = ind"])
    show "triple (at_disk d0) (if 12 < ?n then bind_act (fs_read_block ops sb (ino_indirect_block i) BLOCK_SIZE) (\<lambda>b. return_act (Some b))
        else return_act None) (\<lambda>x d. at_disk d0 d \<and> x = ind) fails_any"
    proof (cases "12 < ?n")
      case True
      then show ?thesis
        by (simp add: ind_def, intro triple_bind [OF read_any [OF vol]]) (auto simp: triple_def)
    next
      case False
      then show ?thesis by (simp add: ind_def triple_def)
    qed
    fix x
    have "triple (\<lambda>d. at_disk d0 d) (fold_act (body ind) [0..<?n] []) (\<lambda>x d. at_disk d0 d \<and> x = inode_contents ?B i) fails_any"
      by (rule triple_conseq [OF all]) (use len in \<open>simp_all add: I_def inode_contents_def\<close>)
    then show "triple (\<lambda>d. at_disk d0 d \<and> x = ind) (fold_act (body x) [0..<?n] [])
        (\<lambda>x d. at_disk d0 d \<and> x = inode_contents ?B i) fails_any"
      by (auto simp: triple_def)
  qed
qed

end

section \<open>The walk through the directories\<close>

text \<open>The inode numbers a directory names, and the relation from a directory to what it names.\<close>

definition children :: "blocks \<Rightarrow> superblock \<Rightarrow> nat \<Rightarrow> nat list" where
  "children B sb n =
    (case node B sb n of
       None \<Rightarrow> []
     | Some i \<Rightarrow>
       if ino_kind i = Directory
       then (case inode_entries B i of Inl _ \<Rightarrow> [] | Inr es \<Rightarrow> map (\<lambda>e. unat (de_inode e)) es)
       else [])"

definition child_rel :: "blocks \<Rightarrow> superblock \<Rightarrow> (nat \<times> nat) set" where
  "child_rel B sb = {(p, c). c \<in> set (children B sb p)}"

definition is_directory :: "blocks \<Rightarrow> superblock \<Rightarrow> nat \<Rightarrow> bool" where
  "is_directory B sb n \<longleftrightarrow> (\<exists>i. node B sb n = Some i \<and> ino_kind i = Directory)"

text \<open>A directory that can be read, with distinct names of allocated inodes of the right kind.\<close>

definition entry_sound :: "blocks \<Rightarrow> superblock \<Rightarrow> directory_entry \<Rightarrow> bool" where
  "entry_sound B sb e \<longleftrightarrow> 1 < unat (de_inode e) \<and>
    (\<exists>t. node B sb (unat (de_inode e)) = Some t \<and> ino_kind t = de_kind e)"

definition directory_sound :: "blocks \<Rightarrow> superblock \<Rightarrow> nat \<Rightarrow> bool" where
  "directory_sound B sb n \<longleftrightarrow>
    (\<exists>i es. node B sb n = Some i \<and> ino_kind i = Directory \<and> inode_entries B i = Inr es \<and>
      distinct (map de_name es) \<and> (\<forall>e \<in> set es. entry_sound B sb e))"

text \<open>The state of the walk after the directories \<open>D\<close>.\<close>

definition walked :: "blocks \<Rightarrow> superblock \<Rightarrow> nat list \<Rightarrow> walk_state \<Rightarrow> bool" where
  "walked B sb D w \<longleftrightarrow>
    (let named = 1 # concat (map (children B sb) D) in
     distinct named \<and> wk_reached w = set named \<and>
     distinct (D @ map unat (wk_pending w)) \<and>
     (\<forall>n \<in> set D. directory_sound B sb n) \<and>
     set D \<union> unat ` set (wk_pending w) = {n \<in> set named. is_directory B sb n} \<and>
     (\<forall>n \<in> set named. node B sb n \<noteq> None \<and> (1, n) \<in> (child_rel B sb)\<^sup>*))"

text \<open>The loop over the entries of one directory.\<close>

definition entries_seen ::
  "blocks \<Rightarrow> superblock \<Rightarrow> walk_state \<Rightarrow> directory_entry list \<Rightarrow> bytes set \<times> walk_state \<Rightarrow> bool" where
  "entries_seen B sb w0 es s \<longleftrightarrow>
    fst s = de_name ` set es \<and> distinct (map de_name es) \<and>
    distinct (map (\<lambda>e. unat (de_inode e)) es) \<and> (\<lambda>e. unat (de_inode e)) ` set es \<inter> wk_reached w0 = {} \<and>
    (\<forall>e \<in> set es. entry_sound B sb e) \<and>
    wk_reached (snd s) = wk_reached w0 \<union> (\<lambda>e. unat (de_inode e)) ` set es \<and>
    wk_pending (snd s) = rev (map de_inode (filter (\<lambda>e. de_kind e = Directory) es)) @ wk_pending w0"

lemma visit_entry_seen:
  assumes slot: "\<And>n. inode_slot inodes n = node B sb (unat n)" and root: "sb_root_inode sb = 1"
    and seen: "entries_seen B sb w0 es s" and v: "visit_entry sb count inodes c s = Inr s'"
  shows "\<exists>e. de_decode c = Inr e \<and> entries_seen B sb w0 (es @ [e]) s'"
proof -
  obtain names w where s: "s = (names, w)" by (cases s)
  obtain e t where e: "de_decode c = Inr e" "de_name e \<notin> names" "de_inode e \<noteq> 1"
    "node B sb (unat (de_inode e)) = Some t" "ino_kind t = de_kind e" "unat (de_inode e) \<notin> wk_reached w"
    "fst s' = insert (de_name e) names" "wk_reached (snd s') = insert (unat (de_inode e)) (wk_reached w)"
    "wk_pending (snd s') = (if de_kind e = Directory then de_inode e # wk_pending w else wk_pending w)"
    using v root by (auto simp: visit_entry_def s bind_res_Inr_iff Let_def slot split: if_splits)
  have "unat (de_inode e) \<noteq> 1" using e(3) by (metis unsigned_1 word_unat_eq_iff)
  moreover have "1 \<le> unat (de_inode e)" using e(4) by (auto simp: node_def split: if_splits)
  ultimately have "entry_sound B sb e" using e(4,5) by (auto simp: entry_sound_def)
  then show ?thesis using seen e s by (auto simp: entries_seen_def)
qed

lemma visit_entries_seen:
  assumes slot: "\<And>n. inode_slot inodes n = node B sb (unat n)" and root: "sb_root_inode sb = 1"
    and "entries_seen B sb w0 es s" "fold_res (visit_entry sb count inodes) cs s = Inr s'"
  shows "\<exists>es'. map_res de_decode cs = Inr es' \<and> entries_seen B sb w0 (es @ es') s'"
  using assms(3,4)
proof (induction cs arbitrary: es s)
  case Nil
  then show ?case by simp
next
  case (Cons c cs)
  obtain s1 where s1: "visit_entry sb count inodes c s = Inr s1" "fold_res (visit_entry sb count inodes) cs s1 = Inr s'"
    using Cons.prems(2) by (auto simp: bind_res_Inr_iff)
  obtain e where e: "de_decode c = Inr e" "entries_seen B sb w0 (es @ [e]) s1"
    using visit_entry_seen [OF slot root Cons.prems(1) s1(1)] by blast
  show ?case using Cons.IH [OF e(2) s1(2)] e(1) by auto
qed

lemma walked_visit:
  assumes w: "walked B sb D (w\<lparr>wk_pending := p # rest\<rparr>)"
    and i: "node B sb (unat p) = Some i" "ino_kind i = Directory" "inode_entries B i = Inr es"
    and seen: "entries_seen B sb (w\<lparr>wk_pending := rest\<rparr>) es (names, w')"
  shows "walked B sb (D @ [unat p]) w'"
proof -
  let ?named = "1 # concat (map (children B sb) D)" and ?cs = "map (\<lambda>e. unat (de_inode e)) es"
  have ch: "children B sb (unat p) = ?cs" using i by (simp add: children_def)
  have W: "distinct ?named" "wk_reached w = set ?named" "distinct (D @ unat p # map unat rest)"
    "\<forall>n \<in> set D. directory_sound B sb n"
    "set D \<union> insert (unat p) (unat ` set rest) = {n \<in> set ?named. is_directory B sb n}"
    "\<forall>n \<in> set ?named. node B sb n \<noteq> None \<and> (1, n) \<in> (child_rel B sb)\<^sup>*"
    using w by (simp_all add: walked_def Let_def)
  have S: "distinct (map de_name es)" "distinct ?cs" "set ?cs \<inter> set ?named = {}" "\<forall>e \<in> set es. entry_sound B sb e"
    "wk_reached w' = set ?named \<union> set ?cs"
    "wk_pending w' = rev (map de_inode (filter (\<lambda>e. de_kind e = Directory) es)) @ rest"
    using seen W(2) by (simp_all add: entries_seen_def)
  have p: "unat p \<in> set ?named" using W(5) by blast
  have dirs: "unat ` de_inode ` {e \<in> set es. de_kind e = Directory} = {n \<in> set ?cs. is_directory B sb n}"
  proof -
    have "is_directory B sb (unat (de_inode e)) \<longleftrightarrow> de_kind e = Directory" if "e \<in> set es" for e
      using S(4) that by (auto simp: entry_sound_def is_directory_def)
    then show ?thesis by auto
  qed
  have named: "1 # concat (map (children B sb) (D @ [unat p])) = ?named @ ?cs" by (simp add: ch)
  have dist: "distinct (D @ [unat p] @ map unat (wk_pending w'))"
  proof -
    define N where "N = map unat (rev (map de_inode (filter (\<lambda>e. de_kind e = Directory) es)))"
    have sub: "set (D @ unat p # map unat rest) \<subseteq> set ?named" using W(5) by auto
    have "distinct (map (\<lambda>e. unat (de_inode e)) (filter (\<lambda>e. de_kind e = Directory) es))"
      using S(2) by (rule distinct_map_filter)
    then have N: "distinct N" by (simp add: N_def rev_map [symmetric] comp_def)
    have "set N \<subseteq> set ?cs" by (auto simp: N_def)
    then have "set N \<inter> set (D @ unat p # map unat rest) = {}" using S(3) sub by blast
    moreover have "map unat (wk_pending w') = N @ map unat rest" by (simp add: S(6) N_def)
    ultimately show ?thesis using W(3) N by auto
  qed
  have reach: "(1, n) \<in> (child_rel B sb)\<^sup>*" if "n \<in> set ?cs" for n
  proof -
    have "(unat p, n) \<in> child_rel B sb" using that by (simp add: child_rel_def ch)
    moreover have "(1, unat p) \<in> (child_rel B sb)\<^sup>*" using W(6) p by blast
    ultimately show ?thesis by (rule rtrancl_into_rtrancl [rotated])
  qed
  have nodes: "node B sb n \<noteq> None" if "n \<in> set ?cs" for n using S(4) that by (auto simp: entry_sound_def)
  have sound: "directory_sound B sb (unat p)" using i S(1,4) by (auto simp: directory_sound_def)
  have pend: "set (D @ [unat p]) \<union> unat ` set (wk_pending w') = {n \<in> set (?named @ ?cs). is_directory B sb n}"
  proof -
    have "unat ` set (wk_pending w') = unat ` de_inode ` {e \<in> set es. de_kind e = Directory} \<union> unat ` set rest"
      by (simp add: S(6) image_Un)
    then have "set (D @ [unat p]) \<union> unat ` set (wk_pending w') =
        (set D \<union> insert (unat p) (unat ` set rest)) \<union> {n \<in> set ?cs. is_directory B sb n}"
      unfolding dirs by auto
    then show ?thesis unfolding W(5) by auto
  qed
  show ?thesis
    unfolding walked_def Let_def named
    using W(1,4,6) S(2,3,5) dist sound pend reach nodes by (auto simp del: concat.simps)
qed

context reliable_device
begin

lemma visit_directory_walked:
  assumes vol: "volume_at d0 sb" and d: "at_disk d0 d"
    and slot: "\<And>n. inode_slot inodes n = node (blk ops sec d0) sb (unat n)"
    and valid: "\<And>n i. node (blk ops sec d0) sb n = Some i \<Longrightarrow> inode_valid (blk ops sec d0) sb i"
    and w: "walked (blk ops sec d0) sb D w" "wk_pending w = p # rest"
    and v: "visit_directory ops sb count inodes p (w\<lparr>wk_pending := rest\<rparr>) d = (Inr w', d')"
  shows "at_disk d0 d' \<and> walked (blk ops sec d0) sb (D @ [unat p]) w'"
proof -
  let ?B = "blk ops sec d0"
  obtain i contents names where s: "node ?B sb (unat p) = Some i" "ino_kind i = Directory"
    "read_all_inode_data ops sb i d = (Inr contents, d')"
    "fold_res (visit_entry sb count inodes) (entry_chunks contents) ({}, w\<lparr>wk_pending := rest\<rparr>) = Inr (names, w')"
    using v by (auto simp: visit_directory_def bind_act_Inr_iff slot split: if_splits)
  have c: "at_disk d0 d'" "contents = inode_contents ?B i"
    using tripleD [OF read_all_any [OF vol valid [OF s(1)]] d s(3)] by simp_all
  have "entries_seen ?B sb (w\<lparr>wk_pending := rest\<rparr>) [] ({}, w\<lparr>wk_pending := rest\<rparr>)" by (simp add: entries_seen_def)
  from visit_entries_seen [OF slot geo(4) [OF vol] this s(4)]
  obtain es where es: "inode_entries ?B i = Inr es" "entries_seen ?B sb (w\<lparr>wk_pending := rest\<rparr>) es (names, w')"
    by (auto simp: inode_entries_def c(2))
  have "w\<lparr>wk_pending := p # rest\<rparr> = w" using w(2) by (cases w) simp
  then have "walked ?B sb D (w\<lparr>wk_pending := p # rest\<rparr>)" using w(1) by simp
  then show ?thesis using walked_visit [OF _ s(1,2) es] c(1) by blast
qed

lemma walk_directories_walked:
  assumes vol: "volume_at d0 sb"
    and slot: "\<And>n. inode_slot inodes n = node (blk ops sec d0) sb (unat n)"
    and valid: "\<And>n i. node (blk ops sec d0) sb n = Some i \<Longrightarrow> inode_valid (blk ops sec d0) sb i"
    and "at_disk d0 d" "walked (blk ops sec d0) sb D w" "walk_directories ops sb count inodes w d = (Inr w', d')"
  shows "\<exists>D'. at_disk d0 d' \<and> walked (blk ops sec d0) sb D' w' \<and> wk_pending w' = []"
  using assms(4-6)
proof (induction "2 * unreached inodes (wk_reached w) + length (wk_pending w)" arbitrary: w d D rule: less_induct)
  case (less w d D)
  show ?case
  proof (cases "wk_pending w")
    case Nil
    then show ?thesis using less(2-4) by (subst (asm) walk_directories.simps) auto
  next
    case (Cons p rest)
    obtain w1 d1 where s: "visit_directory ops sb count inodes p (w\<lparr>wk_pending := rest\<rparr>) d = (Inr w1, d1)"
      "walk_directories ops sb count inodes w1 d1 = (Inr w', d')"
      using less(4) Cons by (subst (asm) (2) walk_directories.simps) (auto split: prod.splits sum.splits)
    have v: "at_disk d0 d1" "walked (blk ops sec d0) sb (D @ [unat p]) w1"
      using visit_directory_walked [OF vol less(2) slot valid less(3) Cons s(1)] by simp_all
    have "2 * unreached inodes (wk_reached w1) + length (wk_pending w1) < 2 * unreached inodes (wk_reached w) + length (wk_pending w)"
      using visit_directory_measure [OF s(1)] Cons by simp
    then show ?thesis using less(1) [OF _ v s(2)] by simp
  qed
qed

end

section \<open>Consistent file systems\<close>

definition fs_consistent :: "blocks \<Rightarrow> superblock \<Rightarrow> bool" where
  "fs_consistent B sb \<longleftrightarrow>
    (\<forall>n. 1 \<le> n \<and> n < inodes_of sb \<and> bm_bit (B 2) n \<longrightarrow> (\<exists>i. node B sb n = Some i \<and> inode_valid B sb i)) \<and>
    (\<forall>m n. m \<noteq> n \<longrightarrow> owned_by B sb m \<inter> owned_by B sb n = {}) \<and>
    (\<forall>b < total_of sb. bm_bit (block_bitmap B sb) b \<longleftrightarrow> b < data_of sb \<or> (\<exists>n. b \<in> owned_by B sb n)) \<and>
    is_directory B sb 1 \<and>
    (\<forall>n. is_directory B sb n \<longrightarrow> directory_sound B sb n) \<and>
    (\<forall>n. node B sb n \<noteq> None \<longrightarrow> (1, n) \<in> (child_rel B sb)\<^sup>*) \<and>
    (\<forall>n. node B sb n \<noteq> None \<and> n \<noteq> 1 \<longrightarrow> (\<exists>!p. n \<in> set (children B sb p))) \<and>
    (\<forall>p. distinct (children B sb p))"

lemma distinct_concat_unique:
  "distinct (concat (map f D)) \<Longrightarrow> distinct D \<Longrightarrow> p \<in> set D \<Longrightarrow> q \<in> set D \<Longrightarrow> x \<in> set (f p) \<Longrightarrow> x \<in> set (f q) \<Longrightarrow> p = q"
  by (induction D) auto

lemma walk_tree:
  assumes w: "walked B sb D w" "wk_pending w = []"
    and all: "\<And>n. node B sb n \<noteq> None \<Longrightarrow> n \<in> wk_reached w"
  shows "is_directory B sb n \<longrightarrow> directory_sound B sb n"
    and "node B sb n \<noteq> None \<longrightarrow> (1, n) \<in> (child_rel B sb)\<^sup>*"
    and "node B sb n \<noteq> None \<and> n \<noteq> 1 \<longrightarrow> (\<exists>!p. n \<in> set (children B sb p))"
    and "distinct (children B sb p)"
proof -
  let ?cs = "concat (map (children B sb) D)"
  have W: "distinct (1 # ?cs)" "wk_reached w = set (1 # ?cs)" "distinct D"
    "\<forall>n \<in> set D. directory_sound B sb n" "set D = {n \<in> set (1 # ?cs). is_directory B sb n}"
    "\<forall>n \<in> set (1 # ?cs). (1, n) \<in> (child_rel B sb)\<^sup>*"
    using w(1) unfolding walked_def Let_def w(2) list.map(1) append_Nil2 list.set(1) image_empty Un_empty_right by blast+
  have dirs: "n \<in> set D \<longleftrightarrow> is_directory B sb n" for n
  proof -
    have "is_directory B sb n \<Longrightarrow> n \<in> set (1 # ?cs)" using W(2) all [of n] by (auto simp: is_directory_def)
    then show ?thesis using W(5) by blast
  qed
  have none: "children B sb n = []" if "n \<notin> set D" for n
    using that dirs [of n] by (auto simp: children_def is_directory_def split: option.splits)
  show "is_directory B sb n \<longrightarrow> directory_sound B sb n" using W(4) dirs by blast
  show "node B sb n \<noteq> None \<longrightarrow> (1, n) \<in> (child_rel B sb)\<^sup>*" using W(2,6) all by blast
  show "distinct (children B sb p)"
  proof (cases "p \<in> set D")
    case True
    then show ?thesis using W(1) by (auto simp: distinct_concat_iff)
  qed (simp add: none)
  show "node B sb n \<noteq> None \<and> n \<noteq> 1 \<longrightarrow> (\<exists>!p. n \<in> set (children B sb p))"
  proof
    assume n: "node B sb n \<noteq> None \<and> n \<noteq> 1"
    then have "n \<in> set ?cs" using all W(2) by auto
    then obtain p where p: "p \<in> set D" "n \<in> set (children B sb p)" by auto
    have "q = p" if "n \<in> set (children B sb q)" for q
    proof -
      have "q \<in> set D" using that none by fastforce
      then show ?thesis using distinct_concat_unique [OF _ W(3) _ p(1) that p(2)] W(1) by simp
    qed
    with p show "\<exists>!p. n \<in> set (children B sb p)" by blast
  qed
qed

context reliable_device
begin

lemma check_sound:
  assumes inv: "invar d0" and r: "check_detailed ops d0 = (Inr report, d')"
  defines "sb \<equiv> cr_superblock report"
  shows "sb_decode (blk ops sec d0 1) = Inr sb \<and> is_clean sb \<and> holds_blocks ops d0 (total_of sb) \<and>
    invar d' \<and> same_disk ops sec d0 d' \<and> fs_consistent (blk ops sec d0) sb"
proof -
  let ?B = "blk ops sec d0" and ?bm = "block_bitmap (blk ops sec d0) sb"
  obtain count ibm bbm d1 d2 d3 owners s d4 w where
    c: "clean_superblock ops d0 = (Inr sb, d1)" "inode_count sb = Inr count"
      "read_inode_bitmap ops sb d1 = (Inr ibm, d2)" "read_block_bitmap ops sb d2 = (Inr bbm, d3)"
      "fold_res (claim_reserved bbm) (u64_range 0 (sb_data_start_block sb)) (replicate (unat (sb_total_blocks sb)) 0) = Inr owners"
      "fold_act (scan_inode ops sb ibm bbm) (u64_range 1 count)
        \<lparr>sc_owners = owners, sc_inodes = replicate (unat count) None, sc_allocated = 0, sc_files = 0, sc_directories = 0\<rparr> d3 = (Inr s, d4)"
      "fold_res (check_data_bit bbm (sc_owners s)) (u64_range (sb_data_start_block sb) (sb_total_blocks sb)) () = Inr ()"
      "walk_directories ops sb count (sc_inodes s)
        \<lparr>wk_reached = {unat (sb_root_inode sb)}, wk_pending = [sb_root_inode sb], wk_entries = 0\<rparr> d4 = (Inr w, d')"
      "fold_res (check_reached ibm (wk_reached w)) (u64_range 1 count) () = Inr ()"
    using r unfolding check_detailed_def bind_act_Inr_iff act_simps sb_def by force
  have at0: "at_disk d0 d0" using inv by (simp add: at_disk_def)
  have cl: "at_disk d0 d1" "sb_decode (?B 1) = Inr sb" "is_clean sb" "holds_blocks ops d0 (total_of sb)"
    using tripleD [OF clean_superblock_any at0 c(1)] by simp_all
  have vol: "volume_at d0 sb" using inv cl sb_decode_valid by (simp add: volume_at_def)
  note g = geo [OF vol] and ic = inode_count_valid [OF volumeD(2) [OF vol]]
  have count: "unat count = inodes_of sb" using ic(1) c(2) by auto
  have ibm: "at_disk d0 d2" "ibm = ?B 2" "bm_bit (?B 2) 1"
    using tripleD [OF inode_bitmap_any [OF vol] cl(1) c(3)] by auto
  have bbm: "at_disk d0 d3" "bbm = ?bm"
    using tripleD [OF block_bitmap_any [OF vol] ibm(1) c(4)] by simp_all
  have own: "owner_table sb {} owners" "\<forall>b < data_of sb. bm_bit ?bm b"
    using claim_reserved_ok [of bbm sb owners] c(5) g(8) by (simp_all add: bbm(2) total_of_def data_of_def)
  let ?N = "inodes_of sb"
  define I where "I = (\<lambda>k s d. at_disk d0 d \<and> scanned ?B sb k s)"
  have fold: "triple (I 0 s0) (fold_act (scan_inode ops sb ibm bbm) (u64_range 1 count) s0) (I (length (u64_range 1 count))) fails_any" for s0
  proof (rule triple_fold)
    fix k b assume k: "k < length (u64_range 1 count)"
    then have "unat (u64_range 1 count ! k) = Suc k" using unat_in_range [of "Suc k" count] by simp
    then show "triple (I k b) (scan_inode ops sb ibm bbm (u64_range 1 count ! k) b) (I (Suc k)) fails_any"
      unfolding I_def ibm(2) bbm(2) by (rule scan_inode_any [OF vol, rotated]) (use k count in simp)
  qed
  have "I 0 \<lparr>sc_owners = owners, sc_inodes = replicate (unat count) None, sc_allocated = 0, sc_files = 0, sc_directories = 0\<rparr> d3"
    using bbm(1) own(1) count by (simp add: I_def scanned_def node_def)
  from tripleD [OF fold this c(6)] have "I (?N - 1) s d4" using count by simp
  then have sc: "at_disk d0 d4" "scanned ?B sb (?N - 1) s" by (simp_all add: I_def)
  have node_le: "1 \<le> n \<and> n \<le> ?N - 1" "bm_bit (?B 2) n" if "node ?B sb n = Some i" for n i
    using that by (auto simp: node_def split: if_splits)
  have valid: "inode_valid ?B sb i" if "node ?B sb n = Some i" for n i
    using sc(2) node_le [OF that] that by (fastforce simp: scanned_def)
  have slot: "inode_slot (sc_inodes s) n = node ?B sb (unat n)" for n
    using sc(2) by (auto simp: inode_slot_def scanned_def node_def)
  have one: "is_directory ?B sb 1"
    using sc(2) ibm(3) ic(2) by (auto simp: scanned_def is_directory_def)
  have "walked ?B sb [] \<lparr>wk_reached = {unat (sb_root_inode sb)}, wk_pending = [sb_root_inode sb], wk_entries = 0\<rparr>"
    using one by (auto simp: walked_def g(4) is_directory_def)
  from walk_directories_walked [OF vol slot _ sc(1) this c(8)] valid
  obtain D where D: "at_disk d0 d'" "walked ?B sb D w" "wk_pending w = []" by blast
  have reached: "n \<in> wk_reached w" if "node ?B sb n \<noteq> None" for n
  proof -
    have n: "1 \<le> n" "n < ?N" "bm_bit (?B 2) n" using node_le that by fastforce+
    let ?k = "of_nat n :: u64"
    have un: "unat ?k = n" using unat_in_range [of n count] n(2) count by simp
    have "?k \<in> set (u64_range 1 count)" using n count un by (simp add: set_u64_range word_le_nat_alt word_less_nat_alt)
    then have "check_reached ibm (wk_reached w) ?k () = Inr ()" using c(9) by (simp add: fold_res_unit)
    moreover have "length (?B 2) = 4096" using length_B [OF vol] g(1) by simp
    ultimately show ?thesis using n ic(3) by (auto simp: check_reached_def ibm(2) un bitmap_bit_eq split: if_splits)
  qed
  note tree = walk_tree [OF D(2,3) reached]
  have owned: "owned_by ?B sb n = {}" if "n \<notin> {1..?N - 1}" for n
    using that by (auto simp: owned_by_def node_def)
  have bits: "bm_bit ?bm b \<longleftrightarrow> b < data_of sb \<or> (\<exists>n. b \<in> owned_by ?B sb n)" if b: "b < total_of sb" for b
  proof (cases "b < data_of sb")
    case True
    then show ?thesis using own(2) by blast
  next
    case False
    let ?k = "of_nat b :: u64"
    have un: "unat ?k = b" using unat_in_range [of b "sb_total_blocks sb"] b by (simp add: total_of_def)
    have "?k \<in> set (u64_range (sb_data_start_block sb) (sb_total_blocks sb))"
      using b False un by (simp add: set_u64_range word_le_nat_alt word_less_nat_alt geometry_defs)
    then have "check_data_bit bbm (sc_owners s) ?k () = Inr ()" using c(7) by (simp add: fold_res_unit)
    then have "bm_bit ?bm b \<longleftrightarrow> sc_owners s ! b = 2"
      by (auto simp: check_data_bit_def bind_res_Inr_iff bitmap_bit_eq un bbm(2) split: if_splits)
    also have "\<dots> \<longleftrightarrow> b \<in> (\<Union>n \<in> {1..?N - 1}. owned_by ?B sb n)"
      using sc(2) b False by (simp add: scanned_def owner_table_def)
    also have "\<dots> \<longleftrightarrow> (\<exists>n. b \<in> owned_by ?B sb n)" using owned by blast
    finally show ?thesis using False by simp
  qed
  have disj: "owned_by ?B sb m \<inter> owned_by ?B sb n = {}" if "m \<noteq> n" for m n
    using sc(2) owned [of m] owned [of n] that unfolding scanned_def by blast
  have alloc: "\<exists>i. node ?B sb n = Some i \<and> inode_valid ?B sb i" if "1 \<le> n \<and> n < ?N \<and> bm_bit (?B 2) n" for n
    using sc(2) that by (auto simp: scanned_def)
  have "fs_consistent ?B sb"
    unfolding fs_consistent_def
    by (intro conjI) (use alloc in blast, use disj in blast, use bits in blast, rule one, (use tree in blast)+)
  then show ?thesis using cl D(1) by (simp add: at_disk_def)
qed
end

end
