(* ===== verification/Nexfs_Format.thy ===== *)
theory Nexfs_Format
  imports Nexfs_Sound
begin

text \<open>
  Formatting a volume: what the blocks hold afterwards, and that the consistency check accepts them.
\<close>

section \<open>Writing blocks\<close>

context reliable_device
begin

text \<open>A state of the device \<open>d0\<close> whose first \<open>n\<close> blocks hold \<open>F\<close>.\<close>

definition holding :: "'d \<Rightarrow> nat \<Rightarrow> blocks \<Rightarrow> 'd \<Rightarrow> bool" where
  "holding d0 n F d \<longleftrightarrow> invar d \<and> sector_size ops d = sector_size ops d0 \<and> sector_count ops d = sector_count ops d0 \<and>
    (\<forall>b < n. blk ops sec d b = F b)"

lemma holding_sizes:
  assumes "holding d0 n F d"
  shows "block_sectors ops d = block_sectors ops d0" "holds_blocks ops d n = holds_blocks ops d0 n"
    "sectors_per_block ops d = sectors_per_block ops d0"
  using assms by (simp_all add: holding_def block_sectors_def sector_bytes_def holds_blocks_def sectors_def sectors_per_block_eq)

lemma holding_same: "holding d0 n F d \<Longrightarrow> holds_blocks ops d0 n \<Longrightarrow> invar d' \<Longrightarrow> same_disk ops sec d d' \<Longrightarrow> holding d0 n F d'"
  using blk_same [of ops sec d d' n] holding_sizes(2) [of d0 n F d] by (auto simp: holding_def same_disk_def)

lemma holds_blocks_bound: "holds_blocks ops d n \<Longrightarrow> n < 2 ^ 64"
proof -
  assume h: "holds_blocks ops d n"
  have "n \<le> n * block_sectors ops d" using h block_sectors_bounds(1) [of ops d] by (simp add: holds_blocks_def)
  also have "\<dots> \<le> sectors ops d" using h by (simp add: holds_blocks_def)
  also have "\<dots> < 2 ^ 64" using unat_bound [of "sector_count ops d"] by (simp add: sectors_def)
  finally show ?thesis .
qed

lemma write_holding:
  assumes h: "holds_blocks ops d0 n" and b: "unat b < n" and data: "length data = 4096" and d: "holding d0 n F d"
  shows "\<exists>d'. write_sectors ops (b * of_nat (block_sectors ops d0)) data d = (Inr (), d') \<and> holding d0 n (F(unat b := data)) d'"
proof -
  let ?k = "block_sectors ops d0"
  have inv: "invar d" using d by (simp add: holding_def)
  note sz = holding_sizes [OF d]
  have hd: "holds_blocks ops d n" using sz h by simp
  obtain d' where w: "write_sectors ops (b * of_nat ?k) data d = (Inr (), d')" "invar d'"
    "sector_size ops d' = sector_size ops d" "sector_count ops d' = sector_count ops d"
    "\<forall>k < sectors ops d. sec d' k = put_sectors (sector_bytes ops d) (unat b * ?k) ?k data (sec d) k"
    using write_good [OF inv, of "b * of_nat ?k" data ?k] block_transfer [OF hd b] block_lba(1) [OF hd b] data sz(1) by auto
  have bs: "block_sectors ops d' = ?k" using w(3) sz(1) by (simp add: block_sectors_def sector_bytes_def)
  have "blk ops sec d' c = (if c = unat b then data else blk ops sec d c)" if c: "c < n" for c
  proof -
    have "Suc c * ?k \<le> n * ?k" using c by (intro mult_le_mono1) simp
    then have le: "c * ?k + ?k \<le> sectors ops d" using hd sz(1) by (simp add: holds_blocks_def)
    have "blk ops sec d' c = sector_range (put_sectors (sector_bytes ops d) (unat b * ?k) ?k data (sec d)) (c * ?k) ?k"
      unfolding blk_def bs using w(5) le by (intro sector_range_cong) simp
    also have "\<dots> = (if c = unat b then data else blk ops sec d c)"
    proof (cases "c = unat b")
      case True
      then show ?thesis using data hd block_sectors_bounds(3) [of ops d] sz(1)
        by (simp add: sector_range_put_same holds_blocks_def)
    next
      case False
      then have "c < unat b \<or> unat b < c" by linarith
      then have "Suc c * ?k \<le> unat b * ?k \<or> Suc (unat b) * ?k \<le> c * ?k" by (meson Suc_leI mult_le_mono1)
      then have "unat b * ?k + ?k \<le> c * ?k \<or> c * ?k + ?k \<le> unat b * ?k" by auto
      then show ?thesis using False by (simp add: sector_range_put_other blk_def sz(1))
    qed
    finally show ?thesis .
  qed
  then show ?thesis using w d by (auto simp: holding_def)
qed

lemma io_write_holding:
  assumes "holds_blocks ops d0 n" "unat b < n" "length data = 4096"
  shows "triple (holding d0 n F) (io (write_sectors ops (b * of_nat (block_sectors ops d0)) data))
    (\<lambda>_. holding d0 n (F(unat b := data))) E"
proof (rule triple_map_err, rule tripleI)
  fix s x s' assume "holding d0 n F s" "write_sectors ops (b * of_nat (block_sectors ops d0)) data s = (Inr x, s')"
  then show "holding d0 n (F(unat b := data)) s'" using write_holding [OF assms] by fastforce
next
  fix s e s' assume "holding d0 n F s" "write_sectors ops (b * of_nat (block_sectors ops d0)) data s = (Inl e, s')"
  then show "E (F_Storage e) s'" using write_holding [OF assms] by fastforce
qed

lemma io_flush_holding:
  assumes "holds_blocks ops d0 n"
  shows "triple (holding d0 n F) (io (flush_device ops)) (\<lambda>_. holding d0 n F) E"
proof (rule triple_map_err, rule tripleI)
  fix s x s' assume s: "holding d0 n F s" and f: "flush_device ops s = (Inr x, s')"
  then show "holding d0 n F s'" using flush_ok [of s] holding_same [OF s assms] by (auto simp: holding_def)
next
  fix s e s' assume s: "holding d0 n F s" and f: "flush_device ops s = (Inl e, s')"
  then show "E (F_Storage e) s'" using flush_ok [of s] by (auto simp: holding_def)
qed

lemma ask_spb_holding:
  assumes "holds_blocks ops d0 n"
  shows "triple (holding d0 n F) (ask (sectors_per_block ops)) (\<lambda>x d. holding d0 n F d \<and> x = of_nat (block_sectors ops d0)) E"
  using assms holding_sizes(3) by (auto simp: triple_def sectors_per_block_eq holds_blocks_def)

end

section \<open>The geometry of a fresh volume\<close>

lemma sb_validate_flags [simp]:
  "sb_validate (sb\<lparr>sb_flags := f\<rparr>) = sb_validate sb" "sb_validate (sb\<lparr>sb_generation := v\<rparr>) = sb_validate sb"
  by (simp_all add: sb_validate_def block_bitmap_blocks_def)

lemma format_superblock_ok:
  assumes "32 \<le> unat n"
  shows "\<exists>sb. format_superblock n uuid = Inr sb \<and> sb_validate sb = Inr () \<and> sb_total_blocks sb = n \<and>
    sb_uuid sb = uuid \<and> sb_flags sb = CLEAN_FLAG \<and> sb_generation sb = 1"
proof -
  define nb where "nb = (unat n + 32767) div 32768"
  define it where "it = clamp (n div 256) 4 MAX_INODE_TABLE_BLOCKS"
  define tb where "tb = 3 + div_ceil n BITMAP_BITS_PER_BLOCK"
  have nb: "unat (div_ceil n BITMAP_BITS_PER_BLOCK) = nb" by (simp add: unat_div_ceil nexfs_consts nb_def)
  have n: "unat n < 2 ^ 64" using unat_bound [of n] by simp
  have tb: "unat tb = 3 + nb" using nb n unat_add_fits [of 3 "div_ceil n BITMAP_BITS_PER_BLOCK"] by (simp add: tb_def nb_def)
  have max: "MAX_INODE_TABLE_BLOCKS = 2048" by (simp add: nexfs_consts)
  have it: "unat it = (if unat n div 256 < 4 then 4 else if 2048 < unat n div 256 then 2048 else unat n div 256)"
    by (simp add: it_def clamp_def max word_less_nat_alt unat_div)
  have sum: "3 + nb + unat it < unat n" using assms by (simp add: it nb_def) linarith
  have ds: "unat (tb + it) = 3 + nb + unat it" using sum n tb unat_add_fits [of tb it] by simp
  have small: "4 \<le> unat it" "unat it \<le> 2048" by (auto simp: it)
  have chk: "checked_sub (tb + it) tb = Some it" using ds tb by (simp add: checked_sub_def word_le_nat_alt)
  have ok: "\<not> n \<le> tb + it" "\<not> n < MIN_BLOCKS" "it \<noteq> 0" "\<not> MAX_INODE_TABLE_BLOCKS < it"
    using ds sum small assms by (auto simp: word_le_nat_alt word_less_nat_alt MIN_BLOCKS_def max)
  let ?sb = "\<lparr>sb_version = VERSION, sb_block_size = BLOCK_SIZE_U32, sb_total_blocks = n,
    sb_inode_bitmap_block = 2, sb_block_bitmap_block = 3, sb_inode_table_block = tb,
    sb_data_start_block = tb + it, sb_root_inode = 1, sb_flags = CLEAN_FLAG, sb_generation = 1, sb_uuid = uuid\<rparr>"
  have "sb_validate ?sb = Inr ()"
    using ok chk by (simp add: sb_validate_def block_bitmap_blocks_def tb_def)
  then show ?thesis
    using ok by (simp add: format_superblock_def Let_def tb_def [symmetric] it_def [symmetric])
qed

section \<open>The bitmaps of a fresh volume\<close>

lemma reserved_bits_ok:
  assumes small: "unat idx * 32768 + 32768 < 2 ^ 64"
  shows "\<exists>bm. reserved_bits ds idx = Inr bm \<and> length bm = 4096 \<and> (\<forall>j < 32768. bm_bit bm j \<longleftrightarrow> unat idx * 32768 + j < unat ds)"
proof -
  let ?f = "idx * 32768"
  have f: "checked_mul idx BITMAP_BITS_PER_BLOCK = Some ?f" "unat ?f = unat idx * 32768"
    using small unat_mult_fits [of idx 32768] by (simp_all add: checked_mul_def nexfs_consts)
  have e: "checked_add ?f BITMAP_BITS_PER_BLOCK = Some (?f + 32768)" "unat (?f + 32768) = unat idx * 32768 + 32768"
    using small f(2) unat_add_fits [of ?f 32768] by (simp_all add: checked_add_def nexfs_consts)
  let ?stop = "min ds (?f + 32768)"
  have len: "length (u64_range ?f ?stop) = min (unat ds) (unat idx * 32768 + 32768) - unat idx * 32768"
    using e f by (simp add: min_def word_le_nat_alt)
  define I where "I = (\<lambda>k bm. length bm = 4096 \<and> (\<forall>j < 32768. bm_bit bm j \<longleftrightarrow> j < k))"
  have "\<exists>bm. fold_res (\<lambda>block. set_bitmap_bit (block - ?f) True) (u64_range ?f ?stop) (replicate BLOCK_SIZE 0) = Inr bm \<and>
      I (length (u64_range ?f ?stop)) bm"
  proof (rule fold_res_succeeds)
    show "I 0 (replicate BLOCK_SIZE 0)" by (simp add: I_def BLOCK_SIZE_def bm_bit_zeros)
  next
    fix k bm assume k: "k < length (u64_range ?f ?stop)" and I: "I k bm"
    have k2: "k < 32768" using k len by linarith
    have "u64_range ?f ?stop ! k - ?f = of_nat k" using k by simp
    moreover have uk: "unat (of_nat k :: u64) = k" using k2 by (intro unat_of_nat_fits) simp
    moreover have "k div 8 < length bm" using I k2 by (simp add: I_def)
    ultimately show "\<exists>b'. set_bitmap_bit (u64_range ?f ?stop ! k - ?f) True bm = Inr b' \<and> I (Suc k) b'"
      using set_bitmap_bit_ok [of "of_nat k" bm True] I by (auto simp: I_def less_Suc_eq)
  qed
  then obtain bm where bm: "fold_res (\<lambda>block. set_bitmap_bit (block - ?f) True) (u64_range ?f ?stop) (replicate BLOCK_SIZE 0) = Inr bm"
    "length bm = 4096" "\<And>j. j < 32768 \<Longrightarrow> bm_bit bm j \<longleftrightarrow> j < length (u64_range ?f ?stop)"
    by (auto simp: I_def)
  have "j < length (u64_range ?f ?stop) \<longleftrightarrow> unat idx * 32768 + j < unat ds" if "j < 32768" for j
    unfolding len using that by linarith
  then show ?thesis using bm f(1) e(1) by (simp add: reserved_bits_def)
qed

lemma bm_bit_concat:
  assumes len: "\<And>x. x \<in> set xs \<Longrightarrow> length x = 4096" and b: "b < 32768 * length xs"
  shows "bm_bit (concat xs) b = bm_bit (xs ! (b div 32768)) (b mod 32768)"
proof -
  let ?k = "b div 32768"
  have k: "?k < length xs" using b by (simp add: less_mult_imp_div_less mult.commute)
  have eq: "b = b mod 32768 + 8 * (?k * 4096)" by simp
  have idx: "b div 8 = ?k * 4096 + b mod 32768 div 8" "b mod 8 = b mod 32768 mod 8"
    by (subst (1) eq, subst div_mult_self2; simp) (subst (1) eq, rule mod_mult_self2)
  have l: "b mod 32768 div 8 < 4096" by (rule less_mult_imp_div_less) simp
  have "concat xs ! (b div 8) = drop (?k * 4096) (concat xs) ! (b mod 32768 div 8)"
    using length_concat_uniform [of xs 4096] len k l by (simp add: idx(1))
  also have "drop (?k * 4096) (concat xs) = xs ! ?k @ concat (drop (Suc ?k) xs)"
    using len k by (simp add: drop_concat_uniform Cons_nth_drop_Suc [symmetric])
  also have "\<dots> ! (b mod 32768 div 8) = xs ! ?k ! (b mod 32768 div 8)" using len [of "xs ! ?k"] k l by (simp add: nth_append)
  finally show ?thesis unfolding bm_bit_def idx(2) by simp
qed

section \<open>Formatting\<close>

definition root_inode_new :: inode where "root_inode_new = inode_new Directory 0x1ED 1"

text \<open>What a fresh volume holds.\<close>

definition fresh :: "blocks \<Rightarrow> superblock \<Rightarrow> bool" where
  "fresh F sb \<longleftrightarrow> sb_decode (F 1) = Inr sb \<and> sb_validate sb = Inr () \<and> is_clean sb \<and>
    (\<forall>j < 32768. bm_bit (F 2) j \<longleftrightarrow> j < 2) \<and>
    (\<forall>i < bitmap_blocks sb. \<forall>j < 32768. bm_bit (F (3 + i)) j \<longleftrightarrow> i * 32768 + j < data_of sb) \<and>
    inode_at F sb 1 = Inr root_inode_new"

context reliable_device
begin

lemma write_superblock_holding:
  assumes h: "holds_blocks ops d0 n" "1 < n" and enc: "sb_encode sb (replicate 4096 0) = Inr bytes" "length bytes = 4096"
  shows "triple (holding d0 n F) (write_superblock ops sb) (\<lambda>_. holding d0 n (F(1 := bytes))) E"
  unfolding write_superblock_def
proof (rule triple_bind [OF ask_spb_holding [OF h(1)]], rule triple_bind)
  fix spb :: u64
  show "triple (\<lambda>d. holding d0 n F d \<and> spb = of_nat (block_sectors ops d0)) (lift_res (sb_encode sb (replicate BLOCK_SIZE 0)))
     (\<lambda>b d. (holding d0 n F d \<and> spb = of_nat (block_sectors ops d0)) \<and> b = bytes) E"
    by (rule triple_lift_ok) (simp add: enc(1) BLOCK_SIZE_def)
  fix b
  show "triple (\<lambda>d. (holding d0 n F d \<and> spb = of_nat (block_sectors ops d0)) \<and> b = bytes)
     (io (write_sectors ops (SUPERBLOCK_BLOCK * spb) b)) (\<lambda>_. holding d0 n (F(1 := bytes))) E"
    using io_write_holding [OF h(1), of 1 bytes F E] h(2) enc(2) by (auto simp: triple_def SUPERBLOCK_BLOCK_def)
qed

lemma zero_blocks_holding:
  assumes h: "holds_blocks ops d0 n" and "unat b \<le> n"
  shows "triple (holding d0 n F) (fold_act (\<lambda>block _. io (write_sectors ops (block * of_nat (block_sectors ops d0)) (replicate BLOCK_SIZE 0)))
      (u64_range a b) ()) (\<lambda>_. holding d0 n (\<lambda>c. if unat a \<le> c \<and> c < unat b then replicate 4096 0 else F c)) E"
proof -
  define G where "G = (\<lambda>k c. if unat a \<le> c \<and> c < unat a + k then replicate 4096 0 else F c)"
  have "triple (holding d0 n (G 0)) (fold_act (\<lambda>block _. io (write_sectors ops (block * of_nat (block_sectors ops d0)) (replicate BLOCK_SIZE 0)))
      (u64_range a b) ()) (\<lambda>_. holding d0 n (G (length (u64_range a b)))) E"
  proof (rule triple_fold [where I = "\<lambda>k _. holding d0 n (G k)"])
    fix k u assume k: "k < length (u64_range a b)"
    have uk: "unat (u64_range a b ! k) = unat a + k" using k unat_in_range [of "unat a + k" b] by simp
    have "(G k)(unat a + k := replicate 4096 0) = G (Suc k)" by (rule ext) (auto simp: G_def)
    then show "triple (holding d0 n (G k)) (io (write_sectors ops (u64_range a b ! k * of_nat (block_sectors ops d0)) (replicate BLOCK_SIZE 0)))
        (\<lambda>_. holding d0 n (G (Suc k))) E"
      using io_write_holding [OF h, of "u64_range a b ! k" "replicate 4096 0" "G k" E] uk k assms(2)
      by (simp add: BLOCK_SIZE_def)
  qed
  moreover have "G 0 = F" by (rule ext) (auto simp: G_def)
  moreover have "G (length (u64_range a b)) = (\<lambda>c. if unat a \<le> c \<and> c < unat b then replicate 4096 0 else F c)"
    by (rule ext) (auto simp: G_def)
  ultimately show ?thesis by simp
qed

lemma bitmap_blocks_holding:
  assumes h: "holds_blocks ops d0 n" and "3 + nb \<le> n" and nb: "unat w = nb"
    and bits: "\<And>i. i < nb \<Longrightarrow> reserved_bits ds (of_nat i) = Inr (rb i) \<and> length (rb i) = 4096"
  shows "triple (holding d0 n F) (fold_act (\<lambda>index _. bind_act (lift_res (reserved_bits ds index)) (\<lambda>bm.
        io (write_sectors ops ((3 + index) * of_nat (block_sectors ops d0)) bm))) (u64_range 0 w) ())
    (\<lambda>_. holding d0 n (\<lambda>c. if 3 \<le> c \<and> c < 3 + nb then rb (c - 3) else F c)) E"
proof -
  define G where "G = (\<lambda>k c. if 3 \<le> c \<and> c < 3 + k then rb (c - 3) else F c)"
  have "triple (holding d0 n (G 0)) (fold_act (\<lambda>index _. bind_act (lift_res (reserved_bits ds index)) (\<lambda>bm.
        io (write_sectors ops ((3 + index) * of_nat (block_sectors ops d0)) bm))) (u64_range 0 w) ())
      (\<lambda>_. holding d0 n (G (length (u64_range 0 w)))) E"
  proof (rule triple_fold [where I = "\<lambda>k _. holding d0 n (G k)"])
    fix k u assume k: "k < length (u64_range 0 w)"
    then have kn: "k < nb" using nb by simp
    have uk: "unat (of_nat k :: u64) = k" using k unat_in_range [of k w] by simp
    have u3: "unat (3 + of_nat k :: u64) = 3 + k"
      using kn assms(2) uk unat_add_fits [of 3 "of_nat k :: u64"] holds_blocks_bound [OF h] by simp
    have upd: "(G k)(3 + k := rb k) = G (Suc k)" by (rule ext) (auto simp: G_def)
    have "triple (holding d0 n (G k)) (io (write_sectors ops ((3 + of_nat k) * of_nat (block_sectors ops d0)) (rb k)))
        (\<lambda>_. holding d0 n (G (Suc k))) E"
      using io_write_holding [OF h, of "3 + of_nat k" "rb k" "G k" E] u3 bits [OF kn] kn assms(2) by (simp add: upd)
    then show "triple (holding d0 n (G k)) (bind_act (lift_res (reserved_bits ds (u64_range 0 w ! k))) (\<lambda>bm.
        io (write_sectors ops ((3 + u64_range 0 w ! k) * of_nat (block_sectors ops d0)) bm))) (\<lambda>_. holding d0 n (G (Suc k))) E"
      using k bits [OF kn] by (simp add: triple_def bind_act_def)
  qed
  moreover have "G 0 = F" by (rule ext) (auto simp: G_def)
  ultimately show ?thesis using nb by (simp add: G_def)
qed

lemma format_fresh:
  assumes inv: "invar d0" and h: "holds_blocks ops d0 n" and dev: "device_bytes ops d0 = Inr bytes" "unat bytes div 4096 = n"
    and n: "32 \<le> n" and uuid: "length uuid = 16"
  shows "\<exists>sb F d'. fs_format ops uuid d0 = (Inr sb, d') \<and> total_of sb = n \<and> sb_uuid sb = uuid \<and> holding d0 n F d' \<and> fresh F sb"
proof -
  let ?spb = "of_nat (block_sectors ops d0) :: u64" and ?z = "replicate 4096 0 :: bytes"
  have tot: "unat (bytes div BLOCK_SIZE_U64) = n" using dev(2) by (simp add: BLOCK_SIZE_U64_def unat_div)
  obtain sb where sb: "format_superblock (bytes div BLOCK_SIZE_U64) uuid = Inr sb" "sb_validate sb = Inr ()"
    "sb_total_blocks sb = bytes div BLOCK_SIZE_U64" "sb_uuid sb = uuid" "sb_flags sb = CLEAN_FLAG" "sb_generation sb = 1"
    using format_superblock_ok [of "bytes div BLOCK_SIZE_U64" uuid] n tot by auto
  note g = sb_validD [OF sb(2)]
  have tsb: "total_of sb = n" using sb(3) tot by (simp add: total_of_def)
  let ?dirty = "sb\<lparr>sb_flags := sb_flags sb AND NOT CLEAN_FLAG\<rparr>"
  have "sb_ok sb" "sb_ok ?dirty" using sb(2,4) uuid by (simp_all add: sb_ok_def)
  from sb_round_trip [OF this(1), of ?z] sb_round_trip [OF this(2), of ?z]
  obtain e1 e2 where e1: "sb_encode sb ?z = Inr e1" "length e1 = 4096" "sb_decode e1 = Inr sb"
    and e2: "sb_encode ?dirty ?z = Inr e2" "length e2 = 4096" by auto
  obtain i0 where i0: "set_bitmap_bit 0 True ?z = Inr i0" "length i0 = 4096" "\<And>j. j < 32768 \<Longrightarrow> bm_bit i0 j \<longleftrightarrow> j = 0"
    using set_bitmap_bit_ok [of 0 ?z True] bm_bit_zeros [of _ 4096] by auto
  obtain ibm where ibm: "set_bitmap_bit 1 True i0 = Inr ibm" "length ibm = 4096" "\<And>j. j < 32768 \<Longrightarrow> bm_bit ibm j \<longleftrightarrow> j = 1 \<or> j = 0"
    using set_bitmap_bit_ok [of 1 i0 True] i0 by auto
  have rbx: "\<exists>bm. reserved_bits (sb_data_start_block sb) (of_nat i) = Inr bm \<and> length bm = 4096 \<and>
      (\<forall>j < 32768. bm_bit bm j \<longleftrightarrow> i * 32768 + j < data_of sb)" if i: "i < bitmap_blocks sb" for i
  proof -
    have "n < 2 ^ 53" using tot unat_bound [of bytes] by (simp add: BLOCK_SIZE_U64_def unat_div)
    then have b: "i * 32768 + 32768 < 2 ^ 64" using i bitmap_blocks_bound(3) [of sb] tsb by simp
    then have u: "unat (of_nat i :: u64) = i" by (intro unat_of_nat_fits) simp
    show ?thesis using reserved_bits_ok [of "of_nat i" "sb_data_start_block sb"] b by (simp add: u data_of_def)
  qed
  define rb where "rb = (\<lambda>i. SOME bm. reserved_bits (sb_data_start_block sb) (of_nat i) = Inr bm \<and> length bm = 4096 \<and>
      (\<forall>j < 32768. bm_bit bm j \<longleftrightarrow> i * 32768 + j < data_of sb))"
  have rb: "reserved_bits (sb_data_start_block sb) (of_nat i) = Inr (rb i)" "length (rb i) = 4096"
    "\<forall>j < 32768. bm_bit (rb i) j \<longleftrightarrow> i * 32768 + j < data_of sb" if "i < bitmap_blocks sb" for i
    using someI_ex [OF rbx [OF that]] by (simp_all add: rb_def)
  obtain enc where enc: "inode_encode (inode_new Directory 0x1ED (sb_generation sb)) (slice 256 256 ?z) = Inr enc"
    "length enc = 256" "inode_decode enc = Inr root_inode_new"
    using inode_round_trip [of root_inode_new "slice 256 256 ?z"]
    by (auto simp: root_inode_new_def inode_new_def sb(6) DIRECT_BLOCKS_def)
  let ?ib = "put_slice 256 enc ?z"
  have lib: "length ?ib = 4096" using enc(2) by simp
  have g0: "holding d0 n (blk ops sec d0) d0" using inv by (simp add: holding_def)
  have n1: "1 < n" "2 < n" using n by simp_all
  obtain F1 d1 where d1: "write_superblock ops ?dirty d0 = (Inr (), d1)" "holding d0 n F1 d1"
    using triple_succeeds [OF write_superblock_holding [OF h n1(1) e2] g0] by auto
  obtain d2 where d2: "io (flush_device ops) d1 = (Inr (), d2)" "holding d0 n F1 d2"
    using triple_succeeds [OF io_flush_holding [OF h] d1(2)] by auto
  have ds: "unat (sb_data_start_block sb) \<le> n" using g(8) tsb by (simp add: data_of_def)
  obtain F3 d3 where d3: "fold_act (\<lambda>block _. io (write_sectors ops (block * ?spb) (replicate BLOCK_SIZE 0)))
      (u64_range 2 (sb_data_start_block sb)) () d2 = (Inr (), d3)" "holding d0 n F3 d3"
    using triple_succeeds [OF zero_blocks_holding [OF h ds, where a = 2] d2(2)] by auto
  define F4 where "F4 = F3(2 := ibm)"
  obtain d4 where d4: "io (write_sectors ops (2 * ?spb) ibm) d3 = (Inr (), d4)" "holding d0 n F4 d4"
    using triple_succeeds [OF io_write_holding [OF h, of 2 ibm] d3(2)] ibm(2) n1 by (auto simp: F4_def)
  have nb: "3 + bitmap_blocks sb \<le> n" "unat (block_bitmap_blocks sb) = bitmap_blocks sb"
    using g(5,6,8) tsb by (simp_all add: unat_block_bitmap_blocks)
  define F5 where "F5 = (\<lambda>c. if 3 \<le> c \<and> c < 3 + bitmap_blocks sb then rb (c - 3) else F4 c)"
  obtain d5 where d5: "fold_act (\<lambda>index _. bind_act (lift_res (reserved_bits (sb_data_start_block sb) index)) (\<lambda>bm.
      io (write_sectors ops ((3 + index) * ?spb) bm))) (u64_range 0 (block_bitmap_blocks sb)) () d4 = (Inr (), d5)"
    "holding d0 n F5 d5"
    using triple_succeeds [OF bitmap_blocks_holding [OF h nb, where rb = rb and ds = "sb_data_start_block sb"] d4(2)] rb(1,2) unfolding F5_def by auto
  have tb: "unat (sb_inode_table_block sb) < n" using g(6,8) tsb by (simp add: geometry_defs)
  define F6 where "F6 = F5(table_of sb := ?ib)"
  obtain d6 where d6: "io (write_sectors ops (sb_inode_table_block sb * ?spb) ?ib) d5 = (Inr (), d6)"
    "holding d0 n F6 d6"
    using triple_succeeds [OF io_write_holding [OF h tb lib] d5(2)] by (auto simp: table_of_def F6_def)
  define F where "F = F6(1 := e1)"
  obtain d7 where d7: "write_superblock ops sb d6 = (Inr (), d7)" "holding d0 n F d7"
    using triple_succeeds [OF write_superblock_holding [OF h n1(1) e1(1,2)] d6(2)] by (auto simp: F_def)
  obtain d8 where d8: "io (flush_device ops) d7 = (Inr (), d8)" "holding d0 n F d8"
    using triple_succeeds [OF io_flush_holding [OF h] d7(2)] by auto
  have spb: "sectors_per_block ops d0 = Inr ?spb" using h by (simp add: sectors_per_block_eq holds_blocks_def)
  have run: "fs_format ops uuid d0 = (Inr sb, d8)"
    unfolding fs_format_def
    using spb dev(1) sb(1) d1(1) d2(1) d3(1) d4(1) d5(1) d6(1) d7(1) d8(1) g(2-4) i0(1) ibm(1) enc(1)
    by (simp add: BLOCK_SIZE_def INODE_SIZE_def Let_def)
  have t3: "table_of sb = 3 + bitmap_blocks sb" by (rule g(5))
  have "F 2 = ibm" "\<And>i. i < bitmap_blocks sb \<Longrightarrow> F (3 + i) = rb i" "F 1 = e1" "F (table_of sb) = ?ib"
    by (simp_all add: F_def F6_def F5_def F4_def t3)
  moreover have "slice 256 256 ?ib = enc" using enc(2) by (simp add: slice_put_same)
  moreover have "is_clean sb" by (simp add: is_clean_def sb(5) CLEAN_FLAG_def)
  ultimately have "fresh F sb"
    using e1(3) sb(2) ibm(3) rb(3) enc(3) by (auto simp: fresh_def inode_at_def)
  then show ?thesis using run tsb sb(4) d8(2) by blast
qed

end

section \<open>The check of a fresh volume\<close>

lemma fresh_cong:
  assumes "fresh F sb" "\<And>b. b < total_of sb \<Longrightarrow> G b = F b"
  shows "fresh G sb"
proof -
  have g: "32 \<le> total_of sb" "table_of sb = 3 + bitmap_blocks sb" "table_of sb < data_of sb" "data_of sb < total_of sb"
    using assms(1) sb_validD [of sb] by (simp_all add: fresh_def)
  have "G 1 = F 1" "G 2 = F 2" "\<And>i. i < bitmap_blocks sb \<Longrightarrow> G (3 + i) = F (3 + i)" "G (table_of sb) = F (table_of sb)"
    using g by (simp_all add: assms(2))
  then show ?thesis using assms(1) by (simp add: fresh_def inode_at_def)
qed

lemma fresh_bits:
  assumes fr: "fresh B sb" and len: "\<And>b. b < total_of sb \<Longrightarrow> length (B b) = 4096" and b: "b < 32768 * bitmap_blocks sb"
  shows "bm_bit (block_bitmap B sb) b \<longleftrightarrow> b < data_of sb"
proof -
  have g: "table_of sb = 3 + bitmap_blocks sb" "table_of sb < data_of sb" "data_of sb < total_of sb"
    using fr sb_validD [of sb] by (simp_all add: fresh_def)
  have k: "b div 32768 < bitmap_blocks sb" using b by (simp add: less_mult_imp_div_less mult.commute)
  have "bm_bit (block_bitmap B sb) b = bm_bit (map B [3..<3 + bitmap_blocks sb] ! (b div 32768)) (b mod 32768)"
    unfolding block_bitmap_def using g b by (intro bm_bit_concat) (auto simp: len)
  also have "\<dots> \<longleftrightarrow> b div 32768 * 32768 + b mod 32768 < data_of sb"
    using fr k by (simp add: fresh_def)
  finally show ?thesis by simp
qed

lemma claim_zero_pointers: "fold_res (claim_pointer sb bm 0) (enumerate k (replicate n 0)) owners = Inr owners"
  by (induction n arbitrary: k) (simp_all add: claim_pointer_def)

lemma claim_reserved_succeeds:
  assumes "\<And>b. b < data_of sb \<Longrightarrow> bm_bit bm b" "data_of sb \<le> total_of sb" "total_of sb \<le> 8 * length bm"
  shows "\<exists>owners. fold_res (claim_reserved bm) (u64_range 0 (sb_data_start_block sb)) (replicate (total_of sb) 0) = Inr owners"
proof -
  define I where "I = (\<lambda>k owners. length owners = total_of sb \<and> (\<forall>b. k \<le> b \<and> b < total_of sb \<longrightarrow> owners ! b = (0 :: u8)))"
  have "\<exists>owners. fold_res (claim_reserved bm) (u64_range 0 (sb_data_start_block sb)) (replicate (total_of sb) 0) = Inr owners \<and>
      I (length (u64_range 0 (sb_data_start_block sb))) owners"
  proof (rule fold_res_succeeds)
    show "I 0 (replicate (total_of sb) 0)" by (simp add: I_def)
  next
    fix k owners assume k: "k < length (u64_range 0 (sb_data_start_block sb))" and I: "I k owners"
    have u: "unat (of_nat k :: u64) = k" using k unat_in_range [of k "sb_data_start_block sb"] by simp
    have kt: "k < data_of sb" "k < total_of sb" using k assms(2) by (simp_all add: data_of_def)
    then have "k div 8 < length bm" using assms(3) by (simp add: less_mult_imp_div_less mult.commute)
    then show "\<exists>b'. claim_reserved bm (u64_range 0 (sb_data_start_block sb) ! k) owners = Inr b' \<and> I (Suc k) b'"
      using k kt I assms(1) by (auto simp: claim_reserved_def bitmap_bit_eq u I_def)
  qed
  then show ?thesis by blast
qed

context reliable_device
begin

lemma read_inode_eq:
  assumes vol: "volume_at d0 sb" and n: "unat n < inodes_of sb" and i: "inode_at (blk ops sec d0) sb (unat n) = Inr i"
  shows "triple (at_disk d0) (fs_read_inode ops sb n) (\<lambda>x d. at_disk d0 d \<and> x = i) E"
proof -
  note g = geo [OF vol]
  obtain c where c: "inode_count sb = Inr c" "unat c = inodes_of sb"
    using inode_count_valid(1) [OF volumeD(2) [OF vol]] by blast
  have "inodes_of sb \<le> 32768" by (rule inode_count_valid(3) [OF volumeD(2) [OF vol]])
  then have mul: "checked_mul n (of_nat INODE_SIZE) = Some (n * 256)" "unat (n * 256) = unat n * 256"
    using n unat_mult_fits [of n 256] by (simp_all add: checked_mul_def INODE_SIZE_def)
  let ?b = "sb_inode_table_block sb + n * 256 div BLOCK_SIZE_U64"
  have um: "unat (n * 256 mod BLOCK_SIZE_U64) = unat n * 256 mod 4096" "unat (n * 256 div BLOCK_SIZE_U64) = unat n * 256 div 4096"
    by (simp_all add: unat_mod unat_div mul(2) BLOCK_SIZE_U64_def)
  have lt: "unat n * 256 div 4096 < data_of sb - table_of sb" using n by (simp add: inodes_of_def)
  have ub: "unat ?b = table_of sb + unat n * 256 div 4096"
    using lt g(6,8) um(2) unat_bound [of "sb_total_blocks sb"]
    by (subst unat_add_fits) (simp_all add: table_of_def total_of_def)
  have "triple (at_disk d0) (fs_read_block ops sb ?b BLOCK_SIZE) (\<lambda>x d. at_disk d0 d \<and> x = blk ops sec d0 (unat ?b)) E"
    using ub lt g(8) by (intro read_ok [OF vol]) simp
  then have "triple (at_disk d0) (bind_act (fs_read_block ops sb ?b BLOCK_SIZE)
      (\<lambda>block. lift_res (inode_decode (slice (unat (n * 256 mod BLOCK_SIZE_U64)) INODE_SIZE block)))) (\<lambda>x d. at_disk d0 d \<and> x = i) E"
    by (rule triple_bind) (use i in \<open>auto simp: triple_def inode_at_def ub um(1) INODE_SIZE_def\<close>)
  moreover have "\<not> c \<le> n" using c(2) n by (simp add: word_le_nat_alt)
  ultimately show ?thesis using c(1) mul(1) by (simp add: fs_read_inode_def triple_def bind_act_def Let_def)
qed

lemma check_fresh:
  assumes inv: "invar d0" and h: "holds_blocks ops d0 (total_of sb)" and fr: "fresh (blk ops sec d0) sb"
    and dev: "device_bytes ops d0 = Inr bytes" "total_of sb \<le> unat bytes div 4096"
  shows "\<exists>report d'. check_detailed ops d0 = (Inr report, d') \<and> cr_superblock report = sb \<and>
    cr_allocated_inodes report = 1 \<and> cr_files report = 0 \<and> cr_directories report = 1 \<and> cr_directory_entries report = 0"
proof -
  let ?B = "blk ops sec d0"
  have vol: "volume_at d0 sb" using inv h fr by (simp add: volume_at_def fresh_def)
  note g = geo [OF vol] and ic = inode_count_valid [OF volumeD(2) [OF vol]]
  have at0: "at_disk d0 d0" using inv by (simp add: at_disk_def)
  obtain count where count: "inode_count sb = Inr count" "unat count = inodes_of sb" using ic(1) by blast
  have "unat (1 :: u64) < total_of sb" using g(1) by simp
  from read_vec_block [OF at0 h this] obtain d1 where
    d1: "read_vec ops (of_nat (block_sectors ops d0)) 4096 d0 = (Inr (?B 1), d1)" "at_disk d0 d1" by auto
  have spb: "sectors_per_block ops d0 = Inr (of_nat (block_sectors ops d0))"
    using h by (simp add: sectors_per_block_eq holds_blocks_def)
  have "device_bytes ops d1 = Inr bytes"
    using dev(1) d1(2) by (simp add: device_bytes_def at_disk_def same_disk_def)
  moreover have "\<not> bytes div BLOCK_SIZE_U64 < sb_total_blocks sb"
    using dev(2) by (simp add: word_less_nat_alt BLOCK_SIZE_U64_def unat_div total_of_def)
  ultimately have c1: "clean_superblock ops d0 = (Inr sb, d1)"
    using d1(1) spb fr
    by (simp add: clean_superblock_def read_superblock_def fresh_def SUPERBLOCK_BLOCK_def BLOCK_SIZE_def)
  have l2: "length (?B 2) = 4096" using length_B [OF vol] g(1) by simp
  have "unat (2 :: u64) < total_of sb" using g(1) by simp
  from triple_succeeds [OF read_ok [OF vol this] d1(2)] obtain d2 where
    d2: "fs_read_block ops sb 2 BLOCK_SIZE d1 = (Inr (?B 2), d2)" "at_disk d0 d2" by auto
  have ib: "bm_bit (?B 2) j \<longleftrightarrow> j < 2" if "j < 32768" for j using fr that by (simp add: fresh_def)
  have c2: "read_inode_bitmap ops sb d1 = (Inr (?B 2), d2)"
    using d2(1) g(2,4) l2 by (auto simp: read_inode_bitmap_def bitmap_bit_eq ib)
  let ?bm = "block_bitmap ?B sb"
  from triple_succeeds [OF block_bitmap_ok [OF vol] d2(2)] obtain d3 where
    d3: "read_block_bitmap ops sb d2 = (Inr ?bm, d3)" "at_disk d0 d3" by auto
  have lbm: "length ?bm = bitmap_blocks sb * 4096" unfolding block_bitmap_def using g(5,6,8) by (intro length_blocks [OF vol]) simp
  have bits: "bm_bit ?bm b \<longleftrightarrow> b < data_of sb" if "b < 32768 * bitmap_blocks sb" for b
    using fresh_bits [OF fr length_B [OF vol] that] .
  have cap: "total_of sb \<le> 32768 * bitmap_blocks sb" by (rule bitmap_blocks_bound(2))
  obtain owners where ow: "fold_res (claim_reserved ?bm) (u64_range 0 (sb_data_start_block sb)) (replicate (unat (sb_total_blocks sb)) 0) = Inr owners"
    using claim_reserved_succeeds [of sb ?bm] bits cap g(8) lbm by (auto simp: total_of_def [symmetric])
  have own: "owner_table sb {} owners"
    using claim_reserved_ok [of ?bm sb owners] ow g(8) by (simp add: total_of_def [symmetric] less_imp_le)
  define s0 where "s0 = \<lparr>sc_owners = owners, sc_inodes = replicate (unat count) None, sc_allocated = 0, sc_files = 0, sc_directories = 0\<rparr>"
  define s1 where "s1 = \<lparr>sc_owners = owners, sc_inodes = (replicate (unat count) None)[1 := Some root_inode_new], sc_allocated = 1, sc_files = 0, sc_directories = 1\<rparr>"
  define I where "I = (\<lambda>(k :: nat) s d. at_disk d0 d \<and> s = (if k = 0 then s0 else s1))"
  have val: "validate_inode_blocks ops sb ?bm owners root_inode_new = return_act owners"
  proof -
    have "data_blocks_for_size 0 = 0" by (simp add: data_blocks_for_size_def div_ceil_def)
    then show ?thesis
      by (simp add: validate_inode_blocks_def root_inode_new_def inode_new_def claim_zero_pointers)
         (simp add: bind_act_def fun_eq_iff)
  qed
  have step: "triple (I k s) (scan_inode ops sb (?B 2) ?bm w s) (I (Suc k)) fails_never"
    if k: "Suc k < inodes_of sb" and w: "unat w = Suc k" for k s w
  proof (cases "k = 0")
    case True
    then have w1: "w = 1" using w by (simp add: word_unat_eq_iff)
    have rd: "triple (at_disk d0) (fs_read_inode ops sb 1) (\<lambda>x d. at_disk d0 d \<and> x = root_inode_new) fails_never"
      using fr ic(2) by (intro read_inode_eq [OF vol]) (simp_all add: fresh_def)
    have "\<exists>d'. scan_inode ops sb (?B 2) ?bm 1 s0 d = (Inr s1, d') \<and> at_disk d0 d'" if d: "at_disk d0 d" for d
    proof -
      obtain d' where "fs_read_inode ops sb 1 d = (Inr root_inode_new, d')" "at_disk d0 d'"
        using triple_succeeds [OF rd d] by auto
      moreover have "ino_kind root_inode_new = Directory" "ino_size root_inode_new = 0"
        by (simp_all add: root_inode_new_def inode_new_def)
      ultimately show ?thesis
        using ib [of 1] l2 val by (simp add: s0_def s1_def scan_inode_def bitmap_bit_eq)
    qed
    then show ?thesis using True by (fastforce simp: I_def w1 triple_def)
  next
    case False
    then have "bitmap_bit (?B 2) w = Inr False" using ib [of "Suc k"] w k ic(3) l2 by (simp add: bitmap_bit_eq)
    then show ?thesis using False by (auto simp: I_def scan_inode_def triple_def bind_act_def)
  qed
  have "triple (I 0 s0) (fold_act (scan_inode ops sb (?B 2) ?bm) (u64_range 1 count) s0) (I (length (u64_range 1 count))) fails_never"
  proof (rule triple_fold)
    fix k b assume k: "k < length (u64_range 1 count)"
    then have "unat (u64_range 1 count ! k) = Suc k" using unat_in_range [of "Suc k" count] by simp
    then show "triple (I k b) (scan_inode ops sb (?B 2) ?bm (u64_range 1 count ! k) b) (I (Suc k)) fails_never"
      using k count by (intro step) simp_all
  qed
  moreover have "I 0 s0 d3" using d3(2) by (simp add: I_def)
  ultimately obtain s d4 where "fold_act (scan_inode ops sb (?B 2) ?bm) (u64_range 1 count) s0 d3 = (Inr s, d4)"
    "I (length (u64_range 1 count)) s d4" using triple_succeeds by fast
  then have d4: "fold_act (scan_inode ops sb (?B 2) ?bm) (u64_range 1 count) s0 d3 = (Inr s1, d4)" "at_disk d0 d4"
    using count ic(2) by (auto simp: I_def)
  have f1: "fold_res (check_data_bit ?bm owners) (u64_range (sb_data_start_block sb) (sb_total_blocks sb)) () = Inr ()"
    unfolding fold_res_unit
  proof
    fix b assume "b \<in> set (u64_range (sb_data_start_block sb) (sb_total_blocks sb))"
    then have b: "data_of sb \<le> unat b" "unat b < total_of sb"
      by (simp_all add: set_u64_range word_le_nat_alt word_less_nat_alt geometry_defs)
    then have "owners ! unat b = 0" "\<not> bm_bit ?bm (unat b)" "unat b div 8 < length ?bm"
      using own bits [of "unat b"] cap lbm by (auto simp: owner_table_def)
    then show "check_data_bit ?bm owners b () = Inr ()" by (simp add: check_data_bit_def bitmap_bit_eq)
  qed
  have bb: "bitmap_blocks sb * 32768 < 2 ^ 64" using bitmap_blocks_bound(3) [of sb] dev(2) unat_bound [of bytes] by simp
  have ulen: "unat (of_nat (length ?bm) * 8 :: u64) = bitmap_blocks sb * 32768"
    using bb unat_of_nat_fits [of "bitmap_blocks sb * 4096", where 'a = 64] unat_mult_fits [of "of_nat (bitmap_blocks sb * 4096) :: u64" 8]
    by (simp add: lbm)
  have f2: "fold_res (check_clear_bit ?bm) (u64_range (sb_total_blocks sb) (of_nat (length ?bm) * 8)) () = Inr ()"
    unfolding fold_res_unit
  proof
    fix b assume "b \<in> set (u64_range (sb_total_blocks sb) (of_nat (length ?bm) * 8))"
    then have b: "total_of sb \<le> unat b" "unat b < bitmap_blocks sb * 32768"
      using ulen by (simp_all add: set_u64_range word_le_nat_alt word_less_nat_alt geometry_defs)
    then show "check_clear_bit ?bm b () = Inr ()"
      using bits [of "unat b"] g(8) lbm by (simp add: check_clear_bit_def bitmap_bit_eq)
  qed
  have f3: "fold_res (check_clear_bit (?B 2)) (u64_range count BITMAP_BITS_PER_BLOCK) () = Inr ()"
    unfolding fold_res_unit
  proof
    fix b assume "b \<in> set (u64_range count BITMAP_BITS_PER_BLOCK)"
    then have "16 \<le> unat b" "unat b < 32768"
      using count ic(2) by (simp_all add: set_u64_range word_le_nat_alt word_less_nat_alt nexfs_consts)
    then show "check_clear_bit (?B 2) b () = Inr ()" using l2 by (simp add: check_clear_bit_def bitmap_bit_eq ib)
  qed
  define w0 where "w0 = \<lparr>wk_reached = {unat (sb_root_inode sb)}, wk_pending = [sb_root_inode sb], wk_entries = 0\<rparr>"
  define w1 where "w1 = \<lparr>wk_reached = {1}, wk_pending = [], wk_entries = 0\<rparr>"
  have slot: "inode_slot (sc_inodes s1) 1 = Some root_inode_new" using count(2) ic(2) by (simp add: inode_slot_def s1_def)
  have walk: "walk_directories ops sb count (sc_inodes s1) w0 d4 = (Inr w1, d4)"
    by (subst walk_directories.simps)
       (simp add: w0_def w1_def g(4) visit_directory_def slot read_all_inode_data_def root_inode_new_def inode_new_def
          entry_chunks_def walk_directories.simps)
  have f4: "fold_res (check_reached (?B 2) (wk_reached w1)) (u64_range 1 count) () = Inr ()"
    unfolding fold_res_unit
  proof
    fix b assume "b \<in> set (u64_range 1 count)"
    then have "1 \<le> unat b" "unat b < 32768"
      using count ic(3) by (simp_all add: set_u64_range word_le_nat_alt word_less_nat_alt)
    then show "check_reached (?B 2) (wk_reached w1) b () = Inr ()"
      using l2 by (auto simp: check_reached_def bitmap_bit_eq ib w1_def)
  qed
  have "check_detailed ops d0 = (Inr \<lparr>cr_superblock = sb, cr_allocated_inodes = 1,
      cr_allocated_blocks = foldl (+) 0 (map count_ones ?bm), cr_files = 0, cr_directories = 1, cr_directory_entries = 0\<rparr>, d4)"
    unfolding check_detailed_def
    using c1 count(1) c2 d3(1) ow d4(1) [unfolded s0_def] f1 f2 f3 walk [unfolded w0_def] f4
    by (simp add: s1_def w1_def)
  then show ?thesis by auto
qed

lemma format_checked:
  assumes inv: "invar d0" and h: "holds_blocks ops d0 n" and dev: "device_bytes ops d0 = Inr bytes" "unat bytes div 4096 = n"
    and n: "32 \<le> n" and uuid: "length uuid = 16"
  shows "\<exists>sb d1 report d2. fs_format ops uuid d0 = (Inr sb, d1) \<and> total_of sb = n \<and> sb_uuid sb = uuid \<and> invar d1 \<and>
    check_detailed ops d1 = (Inr report, d2) \<and> cr_superblock report = sb \<and>
    cr_allocated_inodes report = 1 \<and> cr_files report = 0 \<and> cr_directories report = 1 \<and> cr_directory_entries report = 0"
proof -
  obtain sb F d1 where f: "fs_format ops uuid d0 = (Inr sb, d1)" "total_of sb = n" "sb_uuid sb = uuid" "holding d0 n F d1" "fresh F sb"
    using format_fresh [OF assms] by blast
  have "fresh (blk ops sec d1) sb"
    using f(2,4) by (intro fresh_cong [OF f(5)]) (simp add: holding_def)
  moreover have "device_bytes ops d1 = Inr bytes" using f(4) dev(1) by (simp add: holding_def device_bytes_def)
  moreover have "invar d1" "holds_blocks ops d1 (total_of sb)" using f(2,4) h holding_sizes(2) [OF f(4)] by (simp_all add: holding_def)
  ultimately show ?thesis using f(1-3) dev(2) check_fresh [of d1 sb bytes] by fastforce
qed

end

section \<open>Formatting and checking\<close>

definition sample_disk :: memory_device where
  "sample_disk = \<lparr>md_bytes = replicate 131072 0, md_sector_size = 512, md_read_only = False\<rparr>"

lemma sample_disk_ok:
  "memory_inv sample_disk" "holds_blocks memory_ops sample_disk 32" "device_bytes memory_ops sample_disk = Inr 131072"
  by (simp_all add: sample_disk_def memory_inv_def holds_blocks_def block_sectors_def sector_bytes_def sectors_def
      memory_ops_def device_bytes_def checked_mul_def)

text \<open>C12. Formatting succeeds on every reliable device whose sectors divide a block and that has at least
  32 blocks, and the consistency check of the formatted device succeeds: it reports the superblock that
  formatting returned, one allocated inode, which is an empty directory, and no file.\<close>

theorem nexfs_format_checks:
  assumes "reliable_device ops invar sec" "invar d" "holds_blocks ops d n"
    "device_bytes ops d = Inr bytes" "unat bytes div 4096 = n" "32 \<le> n" "length uuid = 16"
  shows "\<exists>sb d' report d''. fs_format ops uuid d = (Inr sb, d') \<and> total_of sb = n \<and> sb_uuid sb = uuid \<and>
    check_detailed ops d' = (Inr report, d'') \<and> cr_superblock report = sb \<and> cr_allocated_inodes report = 1 \<and>
    cr_files report = 0 \<and> cr_directories report = 1 \<and> cr_directory_entries report = 0"
  using reliable_device.format_checked [OF assms] by blast

theorem nexfs_format_checks_witness:
  "\<exists>sb d' report d''. fs_format memory_ops (replicate 16 7) sample_disk = (Inr sb, d') \<and> total_of sb = 32 \<and>
    check_detailed memory_ops d' = (Inr report, d'') \<and> cr_superblock report = sb"
  using nexfs_format_checks [OF mem.reliable_device_axioms sample_disk_ok, of "replicate 16 7"] by fastforce

text \<open>C2. The consistency check is sound and does not change the device: when it returns a report, the
  device holds a clean, valid superblock and a consistent file system. No block belongs to two inodes
  or to the reserved area and an inode, the block bitmap marks exactly the blocks in use, every
  allocated inode is valid, and the directories form a tree from the root that reaches every allocated
  inode through one entry.\<close>

theorem nexfs_check_sound:
  assumes "reliable_device ops invar sec" "invar d" "check_detailed ops d = (Inr report, d')"
  shows "sb_decode (blk ops sec d 1) = Inr (cr_superblock report) \<and> is_clean (cr_superblock report) \<and>
    holds_blocks ops d (total_of (cr_superblock report)) \<and> same_disk ops sec d d' \<and>
    fs_consistent (blk ops sec d) (cr_superblock report)"
  using reliable_device.check_sound [OF assms] by blast

theorem nexfs_check_sound_witness:
  "\<exists>d (report :: check_report). fs_consistent (blk memory_ops memory_sec d) (cr_superblock report) \<and> total_of (cr_superblock report) = 32 \<and>
    cr_allocated_inodes report = 1"
proof -
  obtain d1 report d2 where "total_of (cr_superblock report) = 32" "memory_inv d1"
    "check_detailed memory_ops d1 = (Inr report, d2)" "cr_allocated_inodes report = 1"
    using mem.format_checked [OF sample_disk_ok, of "replicate 16 7"] by fastforce
  then show ?thesis using nexfs_check_sound [OF mem.reliable_device_axioms, of d1 report d2] by blast
qed

end
