(* ===== verification/Nexfs_Store.thy ===== *)
theory Nexfs_Store
  imports Nexfs_Volume Nexfs_Format
begin

text \<open>
  The lowest layer of a mounted volume: its blocks, the two bitmaps with their allocators and the
  inode table, specified on the contents of the blocks.
\<close>

section \<open>More rules for actions\<close>

lemma triple_bind_val:
  assumes "triple P m (\<lambda>x s. R s \<and> A x) E" "\<And>x. A x \<Longrightarrow> triple R (f x) Q E"
  shows "triple P (bind_act m f) Q E"
  by (rule triple_bind [OF assms(1)]) (use assms(2) in \<open>auto intro: triple_assume\<close>)

lemma triple_bind_ex:
  assumes "triple P m (\<lambda>x s. \<exists>F. R F s \<and> A x F) E" "\<And>x F. A x F \<Longrightarrow> triple (R F) (f x) Q E"
  shows "triple P (bind_act m f) Q E"
  by (rule triple_bind [OF assms(1)]) (use assms(2) in \<open>auto intro!: triple_exists triple_assume\<close>)

lemma triple_bind_res: "r = Inr x \<Longrightarrow> triple P (f x) Q E \<Longrightarrow> triple P (bind_act (lift_res r) f) Q E"
  by (simp add: triple_def bind_act_def)

lemma triple_return_val: "(\<And>s. P s \<Longrightarrow> Q x s) \<Longrightarrow> triple P (return_act x) Q E"
  by (simp add: triple_def)

lemma triple_same: "triple P m' Q E \<Longrightarrow> (\<And>s. P s \<Longrightarrow> m s = m' s) \<Longrightarrow> triple P m Q E"
  by (simp add: triple_def)

section \<open>The blocks in use\<close>

definition blocks_ok :: "superblock \<Rightarrow> blocks \<Rightarrow> bool" where
  "blocks_ok sb F \<longleftrightarrow> (\<forall>b < total_of sb. length (F b) = 4096)"

definition used :: "blocks \<Rightarrow> superblock \<Rightarrow> nat \<Rightarrow> bool" where
  "used F sb b \<longleftrightarrow> bm_bit (block_bitmap F sb) b"

definition bitmap_area :: "superblock \<Rightarrow> nat set" where
  "bitmap_area sb = {3..<3 + bitmap_blocks sb}"

lemma blocks_ok_upd: "blocks_ok sb F \<Longrightarrow> length x = 4096 \<Longrightarrow> blocks_ok sb (F(b := x))"
  by (simp add: blocks_ok_def)

lemma used_bit:
  assumes "blocks_ok sb F" "sb_validate sb = Inr ()" "b < total_of sb"
  shows "used F sb b = bm_bit (F (3 + b div 32768)) (b mod 32768)"
proof -
  note g = sb_validD [OF assms(2)]
  have b: "b < 32768 * bitmap_blocks sb" using assms(3) bitmap_blocks_bound(2) [of sb] by linarith
  then have k: "b div 32768 < bitmap_blocks sb" by (simp add: less_mult_imp_div_less mult.commute)
  have "used F sb b = bm_bit (map F [3..<3 + bitmap_blocks sb] ! (b div 32768)) (b mod 32768)"
    unfolding used_def block_bitmap_def using assms(1) g b by (intro bm_bit_concat) (auto simp: blocks_ok_def)
  then show ?thesis using k by simp
qed

lemma used_cong: "(\<And>x. x \<in> bitmap_area sb \<Longrightarrow> F' x = F x) \<Longrightarrow> used F' sb b = used F sb b"
  by (auto simp: used_def block_bitmap_def bitmap_area_def intro!: arg_cong [where f = "\<lambda>x. bm_bit (concat x) b"])

text \<open>The bit of one block changes.\<close>

definition marked :: "superblock \<Rightarrow> nat \<Rightarrow> bool \<Rightarrow> blocks \<Rightarrow> blocks \<Rightarrow> bool" where
  "marked sb b val F F' \<longleftrightarrow> blocks_ok sb F' \<and> (\<forall>x. x \<notin> bitmap_area sb \<longrightarrow> F' x = F x) \<and>
    (\<forall>k < total_of sb. used F' sb k = (if k = b then val else used F sb k))"

lemma bit_is_set_eq: "bit_is_set bm k = bitmap_bit bm k"
  by (simp add: bit_is_set_def bitmap_bit_def)

lemma set_bit_to_eq: "set_bit_to bm k val = set_bitmap_bit k val bm"
  by (simp add: set_bit_to_def set_bitmap_bit_def Let_def)

text \<open>
  The changes of the volume: a block or an inode number taken, a slot of the inode table written.
\<close>

definition block_taken :: "superblock \<Rightarrow> nat \<Rightarrow> blocks \<Rightarrow> blocks \<Rightarrow> bool" where
  "block_taken sb b F F' \<longleftrightarrow> data_of sb \<le> b \<and> b < total_of sb \<and> \<not> used F sb b \<and> F' b = replicate 4096 0 \<and> blocks_ok sb F' \<and>
    (\<forall>x. x \<notin> bitmap_area sb \<and> x \<noteq> b \<longrightarrow> F' x = F x) \<and> (\<forall>k < total_of sb. used F' sb k \<longleftrightarrow> k = b \<or> used F sb k)"

definition inode_marked :: "superblock \<Rightarrow> nat \<Rightarrow> bool \<Rightarrow> blocks \<Rightarrow> blocks \<Rightarrow> bool" where
  "inode_marked sb n val F F' \<longleftrightarrow> blocks_ok sb F' \<and> (\<forall>x. x \<noteq> 2 \<longrightarrow> F' x = F x) \<and>
    (\<forall>k < 32768. bm_bit (F' 2) k = (if k = n then val else bm_bit (F 2) k))"

definition slot_written :: "superblock \<Rightarrow> nat \<Rightarrow> blocks \<Rightarrow> blocks \<Rightarrow> bool" where
  "slot_written sb n F F' \<longleftrightarrow> blocks_ok sb F' \<and> (\<forall>x. x \<notin> {table_of sb..<data_of sb} \<longrightarrow> F' x = F x) \<and>
    (\<forall>m. m \<noteq> n \<longrightarrow> inode_at F' sb m = inode_at F sb m)"

abbreviation with_generation :: "superblock \<Rightarrow> superblock" where
  "with_generation sb \<equiv> sb\<lparr>sb_generation := saturating_add (sb_generation sb) 1\<rparr>"

context reliable_device
begin

definition vol_good :: "'d \<Rightarrow> superblock \<Rightarrow> bool" where
  "vol_good d0 sb \<longleftrightarrow> holds_blocks ops d0 (total_of sb) \<and> sb_ok sb"

definition vol_at :: "'d \<Rightarrow> superblock \<Rightarrow> blocks \<Rightarrow> 'd nexfs \<Rightarrow> bool" where
  "vol_at d0 sb F v \<longleftrightarrow> vol_superblock v = sb \<and> holding d0 (total_of sb) F (vol_device v)"

lemma vol_goodD:
  assumes "vol_good d0 sb"
  shows "holds_blocks ops d0 (total_of sb)" "sb_validate sb = Inr ()"
  using assms by (simp_all add: vol_good_def sb_ok_def)

lemmas vgeo = sb_validD [OF vol_goodD(2)]

lemma vol_at_blocks: "vol_good d0 sb \<Longrightarrow> vol_at d0 sb F v \<Longrightarrow> blocks_ok sb F"
  using length_blk [of "vol_device v" "total_of sb"] holding_sizes(2) [of d0 "total_of sb" F "vol_device v"]
  by (auto simp: vol_good_def vol_at_def blocks_ok_def holding_def)

lemma on_device_triple:
  assumes "triple (holding d0 (total_of sb) F) m (\<lambda>x d. holding d0 (total_of sb) F' d \<and> A x) (\<lambda>e d. False)"
  shows "triple (vol_at d0 sb F) (on_device m) (\<lambda>x v. vol_at d0 sb F' v \<and> A x) E"
proof -
  have "\<exists>x v'. on_device m v = (Inr x, v') \<and> vol_at d0 sb F' v' \<and> A x" if "vol_at d0 sb F v" for v
    using triple_succeeds [OF assms, of "vol_device v"] that by (auto simp: on_device_def vol_at_def)
  then show ?thesis by (intro tripleI) fastforce+
qed

lemma superblock_of_triple [simp]:
  "triple (vol_at d0 sb F) (bind_act superblock_of f) Q E = triple (vol_at d0 sb F) (f sb) Q E"
  by (auto simp: triple_def bind_act_def vol_at_def)

lemma read_into_holding:
  assumes h: "holds_blocks ops d0 n" "unat b < n" and buf: "length buf = 4096"
  shows "triple (holding d0 n F) (io (read_into ops (b * of_nat (block_sectors ops d0)) buf))
    (\<lambda>x d. holding d0 n F d \<and> x = F (unat b)) E"
proof -
  have "\<exists>d'. read_into ops (b * of_nat (block_sectors ops d0)) buf d = (Inr (F (unat b)), d') \<and> holding d0 n F d'"
    if d: "holding d0 n F d" for d
  proof -
    note sz = holding_sizes [OF d]
    have inv: "invar d" and hd: "holds_blocks ops d n" using d sz h(1) by (simp_all add: holding_def)
    obtain d' where r: "read_sectors ops (b * of_nat (block_sectors ops d)) buf d =
        (Inr (), sector_range (sec d) (unat (b * of_nat (block_sectors ops d))) (block_sectors ops d), d')"
      "invar d'" "same_disk ops sec d d'"
      using read_good [OF inv, of "b * of_nat (block_sectors ops d)" buf] block_transfer [OF hd h(2)] buf by auto
    have "sector_range (sec d) (unat (b * of_nat (block_sectors ops d))) (block_sectors ops d) = F (unat b)"
      using d h(2) block_lba(1) [OF hd h(2)] by (simp add: holding_def blk_def)
    then show ?thesis using r holding_same [OF d h(1) r(2,3)] sz(1) by (simp add: read_into_def)
  qed
  then show ?thesis by (intro triple_map_err tripleI) fastforce+
qed

lemma read_block_at:
  assumes g: "vol_good d0 sb" and "unat b < total_of sb" "length buf = 4096"
  shows "triple (vol_at d0 sb F) (vol_read_block ops b buf) (\<lambda>x v. vol_at d0 sb F v \<and> x = F (unat b)) E"
proof -
  have "triple (vol_at d0 sb F) (on_device (bind_act (ask (sectors_per_block ops)) (\<lambda>spb. io (read_into ops (b * spb) buf))))
      (\<lambda>x v. vol_at d0 sb F v \<and> x = F (unat b)) E"
    by (intro on_device_triple triple_bind_val [OF ask_spb_holding [OF vol_goodD(1) [OF g]]])
       (simp add: read_into_holding [OF vol_goodD(1) [OF g]] assms)
  then show ?thesis
    by (rule triple_same) (use assms in \<open>auto simp: vol_read_block_def vol_at_def total_of_def BLOCK_SIZE_def word_le_nat_alt\<close>)
qed

lemma write_block_at:
  assumes g: "vol_good d0 sb" and "unat b < total_of sb" "length data = 4096"
  shows "triple (vol_at d0 sb F) (vol_write_block ops b data) (\<lambda>_. vol_at d0 sb (F(unat b := data))) E"
proof -
  have "triple (vol_at d0 sb F) (on_device (bind_act (ask (sectors_per_block ops)) (\<lambda>spb. io (write_sectors ops (b * spb) data))))
      (\<lambda>x v. vol_at d0 sb (F(unat b := data)) v \<and> True) E"
    by (intro on_device_triple triple_bind_val [OF ask_spb_holding [OF vol_goodD(1) [OF g]]])
       (simp add: io_write_holding [OF vol_goodD(1) [OF g]] assms del: fun_upd_apply)
  then have "triple (vol_at d0 sb F) (on_device (bind_act (ask (sectors_per_block ops)) (\<lambda>spb. io (write_sectors ops (b * spb) data))))
      (\<lambda>_. vol_at d0 sb (F(unat b := data))) E" by simp
  then show ?thesis
    by (rule triple_same) (use assms in \<open>auto simp: vol_write_block_def vol_at_def total_of_def BLOCK_SIZE_def word_le_nat_alt\<close>)
qed

lemma triple_vol:
  assumes "vol_good d0 sb" "blocks_ok sb F \<Longrightarrow> triple (vol_at d0 sb F) m Q E"
  shows "triple (vol_at d0 sb F) m Q E"
  using vol_at_blocks [OF assms(1)] assms(2) by (auto simp: triple_def)

text \<open>The position of the bit of a block.\<close>

lemma bitmap_position:
  assumes g: "vol_good d0 sb" and b: "unat b < total_of sb"
  shows "unat (sb_block_bitmap_block sb + b div of_nat (BLOCK_SIZE * 8)) = 3 + unat b div 32768"
    "unat (b mod of_nat (BLOCK_SIZE * 8)) = unat b mod 32768"
    "3 + unat b div 32768 \<in> bitmap_area sb" "3 + unat b div 32768 < total_of sb" "unat b mod 32768 div 8 < 4096"
proof -
  note geo = vgeo [OF g]
  have "unat b < 32768 * bitmap_blocks sb" using b bitmap_blocks_bound(2) [of sb] by linarith
  then have k: "unat b div 32768 < bitmap_blocks sb" by (simp add: less_mult_imp_div_less mult.commute)
  have d: "unat (b div 32768) = unat b div 32768" "unat (b mod 32768) = unat b mod 32768" by (simp_all add: unat_div unat_mod)
  show "unat (sb_block_bitmap_block sb + b div of_nat (BLOCK_SIZE * 8)) = 3 + unat b div 32768"
    using d(1) geo(3) k bitmap_blocks_bound(1) [of sb] unat_add_fits [of 3 "b div 32768"] by (simp add: BLOCK_SIZE_def)
  show "unat (b mod of_nat (BLOCK_SIZE * 8)) = unat b mod 32768" using d(2) by (simp add: BLOCK_SIZE_def)
  show "3 + unat b div 32768 \<in> bitmap_area sb" "3 + unat b div 32768 < total_of sb"
    using k geo by (simp_all add: bitmap_area_def)
  show "unat b mod 32768 div 8 < 4096" by (rule less_mult_imp_div_less) simp
qed

lemma block_allocated_at:
  assumes g: "vol_good d0 sb" and b: "unat b < total_of sb"
  shows "triple (vol_at d0 sb F) (block_allocated ops b) (\<lambda>x v. vol_at d0 sb F v \<and> x = used F sb (unat b)) E"
proof (rule triple_vol [OF g])
  assume ok: "blocks_ok sb F"
  note p = bitmap_position [OF assms]
  let ?w = "sb_block_bitmap_block sb + b div of_nat (BLOCK_SIZE * 8)"
  have "triple (vol_at d0 sb F) (vol_read_block ops ?w (replicate BLOCK_SIZE 0)) (\<lambda>x v. vol_at d0 sb F v \<and> x = F (unat ?w)) E"
    using p by (intro read_block_at [OF g]) (simp_all add: BLOCK_SIZE_def)
  then have "triple (vol_at d0 sb F) (bind_act (vol_read_block ops ?w (replicate BLOCK_SIZE 0)) (\<lambda>bitmap.
      lift_res (bit_is_set bitmap (b mod of_nat (BLOCK_SIZE * 8))))) (\<lambda>x v. vol_at d0 sb F v \<and> x = used F sb (unat b)) E"
    by (rule triple_bind_val)
       (rule triple_lift_ok, use ok p in \<open>simp add: bit_is_set_eq bitmap_bit_eq used_bit [OF ok vol_goodD(2) [OF g] b] blocks_ok_def\<close>)
  then show ?thesis using b by (simp add: block_allocated_def Let_def total_of_def word_le_nat_alt)
qed

lemma marked_write:
  assumes ok: "blocks_ok sb F" and g: "vol_good d0 sb" and b: "unat b < total_of sb"
    and bm: "set_bitmap_bit (b mod of_nat (BLOCK_SIZE * 8)) val (F (3 + unat b div 32768)) = Inr bm"
  shows "length bm = 4096 \<and> marked sb (unat b) val F (F(3 + unat b div 32768 := bm))"
proof -
  note p = bitmap_position [OF g b]
  have len: "length (F (3 + unat b div 32768)) = 4096" using ok p(4) by (simp add: blocks_ok_def)
  have "unat (b mod of_nat (BLOCK_SIZE * 8)) div 8 < length (F (3 + unat b div 32768))" using p(2,5) len by simp
  from set_bitmap_bit_ok [OF this, of val] bm p(2) len
  have bits: "length bm = 4096" "\<forall>j < 32768. bm_bit bm j \<longleftrightarrow> (if j = unat b mod 32768 then val else bm_bit (F (3 + unat b div 32768)) j)"
    by auto
  have ok': "blocks_ok sb (F(3 + unat b div 32768 := bm))" by (rule blocks_ok_upd [OF ok bits(1)])
  have "used (F(3 + unat b div 32768 := bm)) sb k = (if k = unat b then val else used F sb k)" if k: "k < total_of sb" for k
  proof -
    have "k = unat b \<longleftrightarrow> k div 32768 = unat b div 32768 \<and> k mod 32768 = unat b mod 32768" by (metis div_mult_mod_eq)
    then show ?thesis
      using bits(2) used_bit [OF ok vol_goodD(2) [OF g] k] used_bit [OF ok' vol_goodD(2) [OF g] k] by auto
  qed
  then show ?thesis using ok' bits(1) p(3) by (auto simp: marked_def)
qed

lemma set_block_allocated_at:
  assumes g: "vol_good d0 sb" and b: "data_of sb \<le> unat b" "unat b < total_of sb"
  shows "triple (vol_at d0 sb F) (set_block_allocated ops b val) (\<lambda>_ v. \<exists>F'. vol_at d0 sb F' v \<and> marked sb (unat b) val F F') E"
proof (rule triple_vol [OF g])
  assume ok: "blocks_ok sb F"
  define w where "w = sb_block_bitmap_block sb + b div of_nat (BLOCK_SIZE * 8)"
  define k where "k = b mod of_nat (BLOCK_SIZE * 8)"
  note p = bitmap_position [OF g b(2), folded w_def k_def]
  have "unat k div 8 < length (F (3 + unat b div 32768))" using p ok by (simp add: blocks_ok_def)
  then obtain bm where bm: "set_bitmap_bit k val (F (3 + unat b div 32768)) = Inr bm" using set_bitmap_bit_ok by blast
  note m = marked_write [OF ok g b(2) bm [unfolded k_def]]
  have r: "triple (vol_at d0 sb F) (vol_read_block ops w (replicate BLOCK_SIZE 0)) (\<lambda>x v. vol_at d0 sb F v \<and> x = F (unat w)) E"
    using p by (intro read_block_at [OF g]) (simp_all add: BLOCK_SIZE_def)
  have "triple (vol_at d0 sb F) (vol_write_block ops w bm) (\<lambda>_. vol_at d0 sb (F(unat w := bm))) E"
    using p m by (intro write_block_at [OF g]) simp_all
  then have "triple (vol_at d0 sb F) (bind_act (lift_res (set_bit_to (F (unat w)) k val)) (vol_write_block ops w))
      (\<lambda>_. vol_at d0 sb (F(unat w := bm))) E"
    using bm p(1) by (intro triple_bind_res) (simp_all add: set_bit_to_eq)
  then have "triple (vol_at d0 sb F) (bind_act (vol_read_block ops w (replicate BLOCK_SIZE 0)) (\<lambda>bitmap.
      bind_act (lift_res (set_bit_to bitmap k val)) (vol_write_block ops w))) (\<lambda>_. vol_at d0 sb (F(unat w := bm))) E"
    by (intro triple_bind_val [OF r]) simp
  then have "triple (vol_at d0 sb F) (set_block_allocated ops b val) (\<lambda>_. vol_at d0 sb (F(unat w := bm))) E"
    using b unfolding set_block_allocated_def Let_def w_def k_def superblock_of_triple
    by (simp add: total_of_def data_of_def word_le_nat_alt word_less_nat_alt not_le)
  then show ?thesis by (rule triple_post) (use m p(1) in auto)
qed

text \<open>The allocator of blocks.\<close>

lemma first_free_block_at:
  assumes g: "vol_good d0 sb" and bs: "\<And>b. b \<in> set bs \<Longrightarrow> data_of sb \<le> unat b \<and> unat b < total_of sb"
  shows "triple (vol_at d0 sb F) (first_free_block ops bs) (\<lambda>b v. \<exists>F'. vol_at d0 sb F' v \<and> block_taken sb (unat b) F F')
    (\<lambda>e v. e = F_NoSpace \<and> vol_at d0 sb F v \<and> (\<forall>b \<in> set bs. used F sb (unat b)))"
  using bs
proof (induction bs)
  case Nil
  then show ?case by (simp add: triple_def)
next
  case (Cons b bs)
  let ?E = "\<lambda>e v. e = F_NoSpace \<and> vol_at d0 sb F v \<and> (\<forall>c \<in> set (b # bs). used F sb (unat c))"
  have b: "data_of sb \<le> unat b" "unat b < total_of sb" using Cons.prems [of b] by simp_all
  have area: "unat b \<notin> bitmap_area sb" using b(1) vgeo(5,6) [OF g] by (simp add: bitmap_area_def)
  have taken: "block_taken sb (unat b) F (F'(unat b := replicate 4096 0))" if "\<not> used F sb (unat b)" "marked sb (unat b) True F F'" for F'
  proof -
    have "used (F'(unat b := replicate 4096 0)) sb k = used F' sb k" for k using area by (intro used_cong) auto
    then show ?thesis using that b area by (auto simp: block_taken_def marked_def blocks_ok_def)
  qed
  show ?case
    unfolding first_free_block.simps
  proof (rule triple_bind_val [OF block_allocated_at [OF g b(2)]], rule triple_if)
    fix x assume x: "x = used F sb (unat b)"
    show "triple (vol_at d0 sb F) (bind_act (set_block_allocated ops b True) (\<lambda>_.
        bind_act (vol_write_block ops b (replicate BLOCK_SIZE 0)) (\<lambda>_. return_act b)))
      (\<lambda>b v. \<exists>F'. vol_at d0 sb F' v \<and> block_taken sb (unat b) F F') ?E" if "\<not> x"
    proof (rule triple_bind_ex [OF set_block_allocated_at [OF g b]])
      fix F' assume "marked sb (unat b) True F F'"
      then have t: "block_taken sb (unat b) F (F'(unat b := replicate 4096 0))" using taken that x by blast
      show "triple (vol_at d0 sb F') (bind_act (vol_write_block ops b (replicate BLOCK_SIZE 0)) (\<lambda>_. return_act b))
        (\<lambda>b v. \<exists>F'. vol_at d0 sb F' v \<and> block_taken sb (unat b) F F') ?E"
        by (rule triple_bind [OF write_block_at [OF g b(2)]]) (use t in \<open>auto simp: BLOCK_SIZE_def intro!: triple_return_val\<close>)
    qed
    show "triple (vol_at d0 sb F) (first_free_block ops bs) (\<lambda>b v. \<exists>F'. vol_at d0 sb F' v \<and> block_taken sb (unat b) F F') ?E" if "\<not> \<not> x"
      using Cons that x by (auto intro!: triple_conseq [OF Cons.IH])
  qed
qed

lemma allocate_block_at:
  assumes g: "vol_good d0 sb"
  shows "triple (vol_at d0 sb F) (allocate_block ops) (\<lambda>b v. \<exists>F'. vol_at d0 sb F' v \<and> block_taken sb (unat b) F F')
    (\<lambda>e v. e = F_NoSpace \<and> vol_at d0 sb F v \<and> (\<forall>b. data_of sb \<le> b \<and> b < total_of sb \<longrightarrow> used F sb b))"
proof -
  let ?bs = "u64_range (sb_data_start_block sb) (sb_total_blocks sb)"
  have all: "\<forall>b. data_of sb \<le> b \<and> b < total_of sb \<longrightarrow> used F sb b" if "\<forall>b \<in> set ?bs. used F sb (unat b)"
  proof (intro allI impI)
    fix b assume b: "data_of sb \<le> b \<and> b < total_of sb"
    then have u: "unat (of_nat b :: u64) = b" using unat_in_range [of b "sb_total_blocks sb"] by (simp add: total_of_def)
    then have "of_nat b \<in> set ?bs" using b by (simp add: set_u64_range word_le_nat_alt word_less_nat_alt geometry_defs)
    then show "used F sb b" using that u by auto
  qed
  have "triple (vol_at d0 sb F) (first_free_block ops ?bs) (\<lambda>b v. \<exists>F'. vol_at d0 sb F' v \<and> block_taken sb (unat b) F F')
    (\<lambda>e v. e = F_NoSpace \<and> vol_at d0 sb F v \<and> (\<forall>b \<in> set ?bs. used F sb (unat b)))"
    by (rule first_free_block_at [OF g]) (simp add: set_u64_range word_le_nat_alt word_less_nat_alt geometry_defs)
  then show ?thesis by (simp add: allocate_block_def, elim triple_conseq) (use all in auto)
qed

text \<open>The bitmap of inodes.\<close>

lemma inode_bitmap_block: "vol_good d0 sb \<Longrightarrow> unat (sb_inode_bitmap_block sb) = 2 \<and> 2 < total_of sb"
  using vgeo(1,2) [of d0 sb] by simp

lemma inode_allocated_at:
  assumes g: "vol_good d0 sb" and n: "unat n < inodes_of sb"
  shows "triple (vol_at d0 sb F) (inode_allocated ops n) (\<lambda>x v. vol_at d0 sb F v \<and> x = bm_bit (F 2) (unat n)) E"
proof (rule triple_vol [OF g])
  assume ok: "blocks_ok sb F"
  note i = inode_bitmap_block [OF g]
  obtain c where c: "inode_count sb = Inr c" "unat c = inodes_of sb" "inodes_of sb \<le> 32768"
    using inode_count_valid [OF vol_goodD(2) [OF g]] by blast
  have l: "unat n div 8 < 4096" using n c(3) by (intro less_mult_imp_div_less) simp
  have "triple (vol_at d0 sb F) (vol_read_block ops (sb_inode_bitmap_block sb) (replicate BLOCK_SIZE 0))
      (\<lambda>x v. vol_at d0 sb F v \<and> x = F (unat (sb_inode_bitmap_block sb))) E"
    using i by (intro read_block_at [OF g]) (simp_all add: BLOCK_SIZE_def)
  then have "triple (vol_at d0 sb F) (bind_act (vol_read_block ops (sb_inode_bitmap_block sb) (replicate BLOCK_SIZE 0)) (\<lambda>bitmap.
      lift_res (bit_is_set bitmap n))) (\<lambda>x v. vol_at d0 sb F v \<and> x = bm_bit (F 2) (unat n)) E"
    by (rule triple_bind_val) (rule triple_lift_ok, use ok i l in \<open>simp add: bit_is_set_eq bitmap_bit_eq blocks_ok_def\<close>)
  then show ?thesis using c(1,2) n unfolding inode_allocated_def superblock_of_triple
    by (intro triple_bind_res [OF c(1)]) (simp add: word_le_nat_alt)
qed

lemma set_inode_allocated_at:
  assumes g: "vol_good d0 sb" and n: "unat n < inodes_of sb"
  shows "triple (vol_at d0 sb F) (set_inode_allocated ops n val) (\<lambda>_ v. \<exists>F'. vol_at d0 sb F' v \<and> inode_marked sb (unat n) val F F') E"
proof (rule triple_vol [OF g])
  assume ok: "blocks_ok sb F"
  define w where "w = sb_inode_bitmap_block sb"
  note i = inode_bitmap_block [OF g, folded w_def]
  obtain c where c: "inode_count sb = Inr c" "unat c = inodes_of sb" "inodes_of sb \<le> 32768"
    using inode_count_valid [OF vol_goodD(2) [OF g]] by blast
  have len: "length (F 2) = 4096" using ok i by (simp add: blocks_ok_def)
  have l: "unat n div 8 < 4096" using n c(3) by (intro less_mult_imp_div_less) simp
  then obtain bm where bm: "set_bitmap_bit n val (F 2) = Inr bm" "length bm = 4096"
    "\<forall>j < 32768. bm_bit bm j \<longleftrightarrow> (if j = unat n then val else bm_bit (F 2) j)"
    using set_bitmap_bit_ok [of n "F 2" val] len by auto
  have r: "triple (vol_at d0 sb F) (vol_read_block ops w (replicate BLOCK_SIZE 0)) (\<lambda>x v. vol_at d0 sb F v \<and> x = F 2) E"
    using i read_block_at [OF g, of w "replicate BLOCK_SIZE 0"] by (simp add: BLOCK_SIZE_def)
  have "triple (vol_at d0 sb F) (vol_write_block ops w bm) (\<lambda>_. vol_at d0 sb (F(2 := bm))) E"
    using i bm(2) write_block_at [OF g, of w bm F E] by simp
  then have "triple (vol_at d0 sb F) (bind_act (lift_res (set_bit_to (F 2) n val)) (vol_write_block ops w))
      (\<lambda>_. vol_at d0 sb (F(2 := bm))) E"
    using bm by (intro triple_bind_res) (simp_all add: set_bit_to_eq)
  then have "triple (vol_at d0 sb F) (bind_act (vol_read_block ops w (replicate BLOCK_SIZE 0)) (\<lambda>bitmap.
      bind_act (lift_res (set_bit_to bitmap n val)) (vol_write_block ops w))) (\<lambda>_. vol_at d0 sb (F(2 := bm))) E"
    by (intro triple_bind_val [OF r]) simp
  then have "triple (vol_at d0 sb F) (set_inode_allocated ops n val) (\<lambda>_. vol_at d0 sb (F(2 := bm))) E"
    unfolding set_inode_allocated_def superblock_of_triple w_def
    by (intro triple_bind_res [OF c(1)]) (use c(2) n in \<open>simp add: word_le_nat_alt\<close>)
  moreover have "inode_marked sb (unat n) val F (F(2 := bm))"
    using bm blocks_ok_upd [OF ok bm(2), of 2] by (simp add: inode_marked_def)
  ultimately show ?thesis by (elim triple_post) auto
qed

lemma first_free_inode_at:
  assumes g: "vol_good d0 sb" and ns: "\<And>n. n \<in> set ns \<Longrightarrow> unat n < inodes_of sb"
  shows "triple (vol_at d0 sb F) (first_free_inode ops ns)
    (\<lambda>n v. \<exists>F'. vol_at d0 sb F' v \<and> n \<in> set ns \<and> \<not> bm_bit (F 2) (unat n) \<and> inode_marked sb (unat n) True F F')
    (\<lambda>e v. e = F_NoSpace \<and> vol_at d0 sb F v \<and> (\<forall>n \<in> set ns. bm_bit (F 2) (unat n)))"
  using ns
proof (induction ns)
  case Nil
  then show ?case by (simp add: triple_def)
next
  case (Cons n ns)
  have n: "unat n < inodes_of sb" using Cons.prems [of n] by simp
  show ?case
    unfolding first_free_inode.simps
    by (rule triple_bind_val [OF inode_allocated_at [OF g n]], rule triple_if)
       (auto intro!: triple_bind_ex [OF set_inode_allocated_at [OF g n]] triple_return_val triple_conseq [OF Cons.IH] simp: Cons.prems)
qed

lemma allocate_inode_at:
  assumes g: "vol_good d0 sb"
  shows "triple (vol_at d0 sb F) (allocate_inode ops)
    (\<lambda>n v. \<exists>F'. vol_at d0 sb F' v \<and> 2 \<le> unat n \<and> unat n < inodes_of sb \<and> \<not> bm_bit (F 2) (unat n) \<and> inode_marked sb (unat n) True F F')
    (\<lambda>e v. e = F_NoSpace \<and> vol_at d0 sb F v \<and> (\<forall>n. 2 \<le> n \<and> n < inodes_of sb \<longrightarrow> bm_bit (F 2) n))"
proof -
  obtain c where c: "inode_count sb = Inr c" "unat c = inodes_of sb"
    using inode_count_valid [OF vol_goodD(2) [OF g]] by blast
  have in_range: "n \<in> set (u64_range 2 c) \<longleftrightarrow> 2 \<le> unat n \<and> unat n < inodes_of sb" for n
    using c(2) by (simp add: set_u64_range word_le_nat_alt word_less_nat_alt)
  have all: "\<forall>n. 2 \<le> n \<and> n < inodes_of sb \<longrightarrow> bm_bit (F 2) n" if "\<forall>n \<in> set (u64_range 2 c). bm_bit (F 2) (unat n)"
  proof (intro allI impI)
    fix n assume n: "2 \<le> n \<and> n < inodes_of sb"
    then have u: "unat (of_nat n :: u64) = n" using unat_in_range [of n c] c(2) by simp
    then have "of_nat n \<in> set (u64_range 2 c)" using n in_range by simp
    then show "bm_bit (F 2) n" using that u by auto
  qed
  have "triple (vol_at d0 sb F) (first_free_inode ops (u64_range 2 c))
    (\<lambda>n v. \<exists>F'. vol_at d0 sb F' v \<and> n \<in> set (u64_range 2 c) \<and> \<not> bm_bit (F 2) (unat n) \<and> inode_marked sb (unat n) True F F')
    (\<lambda>e v. e = F_NoSpace \<and> vol_at d0 sb F v \<and> (\<forall>n \<in> set (u64_range 2 c). bm_bit (F 2) (unat n)))"
    by (rule first_free_inode_at [OF g]) (simp add: in_range)
  then have "triple (vol_at d0 sb F) (first_free_inode ops (u64_range 2 c))
    (\<lambda>n v. \<exists>F'. vol_at d0 sb F' v \<and> 2 \<le> unat n \<and> unat n < inodes_of sb \<and> \<not> bm_bit (F 2) (unat n) \<and> inode_marked sb (unat n) True F F')
    (\<lambda>e v. e = F_NoSpace \<and> vol_at d0 sb F v \<and> (\<forall>n. 2 \<le> n \<and> n < inodes_of sb \<longrightarrow> bm_bit (F 2) n))"
    by (rule triple_conseq) (use all in_range in auto)
  then show ?thesis unfolding allocate_inode_def superblock_of_triple by (intro triple_bind_res [OF c(1)])
qed

text \<open>The inode table.\<close>

lemma inode_location_at:
  assumes g: "vol_good d0 sb" and n: "unat n < inodes_of sb"
  shows "\<exists>w. inode_location sb n = Inr (w, unat n * 256 mod 4096) \<and> unat w = table_of sb + unat n * 256 div 4096 \<and>
    unat w < data_of sb"
proof -
  note geo = vgeo [OF g]
  obtain c where c: "inode_count sb = Inr c" "unat c = inodes_of sb" "inodes_of sb \<le> 32768"
    using inode_count_valid [OF vol_goodD(2) [OF g]] by blast
  have mul: "checked_mul n (of_nat INODE_SIZE) = Some (n * 256)" "unat (n * 256) = unat n * 256"
    using n c(3) unat_mult_fits [of n 256] by (simp_all add: checked_mul_def INODE_SIZE_def)
  have um: "unat (n * 256 mod of_nat BLOCK_SIZE) = unat n * 256 mod 4096" "unat (n * 256 div of_nat BLOCK_SIZE) = unat n * 256 div 4096"
    by (simp_all add: unat_mod unat_div mul(2) BLOCK_SIZE_def)
  have lt: "unat n * 256 div 4096 < data_of sb - table_of sb" using n by (simp add: inodes_of_def)
  have "unat (sb_inode_table_block sb + n * 256 div of_nat BLOCK_SIZE) = table_of sb + unat n * 256 div 4096"
    using lt geo(6,8) um(2) unat_bound [of "sb_total_blocks sb"]
    by (subst unat_add_fits) (simp_all add: table_of_def total_of_def)
  then show ?thesis using c(1,2) n lt mul(1) um by (simp add: inode_location_def word_le_nat_alt)
qed

lemma read_inode_at:
  assumes g: "vol_good d0 sb" and n: "node F sb (unat n) = Some i"
  shows "triple (vol_at d0 sb F) (vol_read_inode ops n) (\<lambda>x v. vol_at d0 sb F v \<and> x = i) E"
proof -
  have nd: "unat n < inodes_of sb" "bm_bit (F 2) (unat n)" "inode_at F sb (unat n) = Inr i"
    using n by (auto simp: node_def split: if_splits sum.splits)
  obtain w where w: "inode_location sb n = Inr (w, unat n * 256 mod 4096)" "unat w = table_of sb + unat n * 256 div 4096"
    "unat w < data_of sb" using inode_location_at [OF g nd(1)] by blast
  have "unat w < total_of sb" using w(3) vgeo(8) [OF g] by linarith
  then have "triple (vol_at d0 sb F) (vol_read_block ops w (replicate BLOCK_SIZE 0)) (\<lambda>x v. vol_at d0 sb F v \<and> x = F (unat w)) E"
    by (intro read_block_at [OF g]) (simp_all add: BLOCK_SIZE_def)
  then have "triple (vol_at d0 sb F) (bind_act (vol_read_block ops w (replicate BLOCK_SIZE 0)) (\<lambda>block.
      lift_res (inode_decode (slice (unat n * 256 mod 4096) INODE_SIZE block)))) (\<lambda>x v. vol_at d0 sb F v \<and> x = i) E"
    by (rule triple_bind_val) (rule triple_lift_ok, use nd(3) w(2) in \<open>simp add: inode_at_def INODE_SIZE_def\<close>)
  then have "triple (vol_at d0 sb F) (bind_act superblock_of (\<lambda>sb. bind_act (lift_res (inode_location sb n)) (\<lambda>(block_number, offset).
      bind_act (vol_read_block ops block_number (replicate BLOCK_SIZE 0)) (\<lambda>block.
      lift_res (inode_decode (slice offset INODE_SIZE block)))))) (\<lambda>x v. vol_at d0 sb F v \<and> x = i) E"
    unfolding superblock_of_triple by (intro triple_bind_res [OF w(1)]) simp
  then show ?thesis
    unfolding vol_read_inode_def by (intro triple_bind_val [OF inode_allocated_at [OF g nd(1)]]) (simp add: nd(2))
qed

lemma slot_offset: "m * 256 mod 4096 = 256 * (m mod 16)" "m * 256 mod 4096 + 256 \<le> 4096" for m :: nat
proof -
  show eq: "m * 256 mod 4096 = 256 * (m mod 16)" using mult_mod_right [of 256 m 16] by (simp add: mult.commute)
  have "m mod 16 < 16" by simp
  then show "m * 256 mod 4096 + 256 \<le> 4096" unfolding eq by linarith
qed

lemma slot_written_upd:
  assumes ok: "blocks_ok sb F" and g: "vol_good d0 sb" and n: "n < inodes_of sb" and enc: "length enc = 256"
  defines "b \<equiv> table_of sb + n * 256 div 4096"
  shows "length (put_slice (n * 256 mod 4096) enc (F b)) = 4096 \<and>
    slot_written sb n F (F(b := put_slice (n * 256 mod 4096) enc (F b))) \<and>
    inode_at (F(b := put_slice (n * 256 mod 4096) enc (F b))) sb n = inode_decode enc"
proof -
  have lt: "n * 256 div 4096 < data_of sb - table_of sb" using n by (simp add: inodes_of_def)
  then have b: "table_of sb \<le> b" "b < data_of sb" "b < total_of sb" using vgeo(8) [OF g] by (simp_all add: b_def)
  have len: "length (F b) = 4096" using ok b by (simp add: blocks_ok_def)
  note fits = slot_offset(2)
  have lp: "length (put_slice (n * 256 mod 4096) enc (F b)) = 4096" by (simp only: length_put_slice len enc fits)
  have "inode_at (F(b := put_slice (n * 256 mod 4096) enc (F b))) sb m = inode_at F sb m" if "m \<noteq> n" for m
  proof (cases "m div 16 = n div 16")
    case True
    then have "m mod 16 \<noteq> n mod 16" using that by (metis div_mult_mod_eq)
    then have "m mod 16 < n mod 16 \<or> n mod 16 < m mod 16" by linarith
    then have apart: "m * 256 mod 4096 + 256 \<le> n * 256 mod 4096 \<or> n * 256 mod 4096 + 256 \<le> m * 256 mod 4096"
      unfolding slot_offset(1) by linarith
    then have "slice (m * 256 mod 4096) 256 (put_slice (n * 256 mod 4096) enc (F b)) = slice (m * 256 mod 4096) 256 (F b)"
      using enc len fits [of n] fits [of m] by (intro slice_put_other) auto
    then show ?thesis using True by (simp add: inode_at_def b_def)
  next
    case False
    then show ?thesis by (simp add: inode_at_def b_def)
  qed
  moreover have "blocks_ok sb (F(b := put_slice (n * 256 mod 4096) enc (F b)))" by (rule blocks_ok_upd [OF ok lp])
  moreover have "slice (n * 256 mod 4096) 256 (put_slice (n * 256 mod 4096) enc (F b)) = enc"
    by (intro slice_put_same) (simp_all only: len enc fits)
  ultimately show ?thesis using lp b by (auto simp: slot_written_def inode_at_def b_def)
qed

lemma write_inode_at:
  assumes g: "vol_good d0 sb" and n: "unat n < inodes_of sb" and i: "length (ino_direct_blocks i) = 12"
  shows "triple (vol_at d0 sb F) (vol_write_inode ops n i)
    (\<lambda>_ v. \<exists>F'. vol_at d0 sb F' v \<and> slot_written sb (unat n) F F' \<and> inode_at F' sb (unat n) = Inr i) E"
proof (rule triple_vol [OF g])
  assume ok: "blocks_ok sb F"
  define off where "off = unat n * 256 mod 4096"
  obtain w where w: "inode_location sb n = Inr (w, off)" "unat w = table_of sb + unat n * 256 div 4096"
    "unat w < data_of sb" using inode_location_at [OF g n] by (auto simp: off_def)
  have wt: "unat w < total_of sb" using w(3) vgeo(8) [OF g] by linarith
  have off: "off + 256 \<le> 4096" unfolding off_def by (rule slot_offset(2))
  have "length (F (unat w)) = 4096" using ok wt by (simp add: blocks_ok_def)
  then obtain enc where enc: "inode_encode i (slice off 256 (F (unat w))) = Inr enc" "length enc = 256" "inode_decode enc = Inr i"
    using inode_round_trip [OF i, of "slice off 256 (F (unat w))"] off by auto
  note u = slot_written_upd [OF ok g n enc(2), folded w(2) off_def]
  have "triple (vol_at d0 sb F) (vol_read_block ops w (replicate BLOCK_SIZE 0)) (\<lambda>x v. vol_at d0 sb F v \<and> x = F (unat w)) E"
    using wt by (intro read_block_at [OF g]) (simp_all add: BLOCK_SIZE_def)
  moreover have "triple (vol_at d0 sb F) (bind_act (lift_res (inode_encode i (slice off INODE_SIZE (F (unat w))))) (\<lambda>encoded.
      vol_write_block ops w (put_slice off encoded (F (unat w))))) (\<lambda>_. vol_at d0 sb (F(unat w := put_slice off enc (F (unat w))))) E"
    using enc(1) wt u write_block_at [OF g, of w "put_slice off enc (F (unat w))" F E]
    by (intro triple_bind_res [where x = enc]) (simp_all add: INODE_SIZE_def)
  ultimately have "triple (vol_at d0 sb F) (vol_write_inode ops n i) (\<lambda>_. vol_at d0 sb (F(unat w := put_slice off enc (F (unat w))))) E"
    unfolding vol_write_inode_def superblock_of_triple by (intro triple_bind_res [OF w(1)]) (auto intro: triple_bind_val)
  then show ?thesis by (rule triple_post) (use u enc(3) in auto)
qed

lemma clear_inode_at:
  assumes g: "vol_good d0 sb" and n: "unat n < inodes_of sb"
  shows "triple (vol_at d0 sb F) (clear_inode ops n) (\<lambda>_ v. \<exists>F'. vol_at d0 sb F' v \<and> slot_written sb (unat n) F F') E"
proof (rule triple_vol [OF g])
  assume ok: "blocks_ok sb F"
  define off where "off = unat n * 256 mod 4096"
  obtain w where w: "inode_location sb n = Inr (w, off)" "unat w = table_of sb + unat n * 256 div 4096"
    "unat w < data_of sb" using inode_location_at [OF g n] by (auto simp: off_def)
  have wt: "unat w < total_of sb" using w(3) vgeo(8) [OF g] by linarith
  have "length (replicate INODE_SIZE 0 :: bytes) = 256" by (simp add: INODE_SIZE_def)
  note u = slot_written_upd [OF ok g n this, folded w(2) off_def]
  have "triple (vol_at d0 sb F) (vol_read_block ops w (replicate BLOCK_SIZE 0)) (\<lambda>x v. vol_at d0 sb F v \<and> x = F (unat w)) E"
    using wt by (intro read_block_at [OF g]) (simp_all add: BLOCK_SIZE_def)
  then have "triple (vol_at d0 sb F) (clear_inode ops n) (\<lambda>_. vol_at d0 sb (F(unat w := put_slice off (replicate INODE_SIZE 0) (F (unat w))))) E"
    unfolding clear_inode_def superblock_of_triple
    using u wt write_block_at [OF g, of w "put_slice off (replicate INODE_SIZE 0) (F (unat w))" F E]
    by (intro triple_bind_res [OF w(1)]) (auto intro: triple_bind_val)
  then show ?thesis by (rule triple_post) (use u in auto)
qed

text \<open>The end of a change: a new generation, and the superblock written.\<close>

lemma next_timestamp_at:
  "triple (vol_at d0 sb F) next_timestamp (\<lambda>t v. vol_at d0 (with_generation sb) F v \<and> t = sb_generation (with_generation sb)) E"
  by (simp add: triple_def next_timestamp_def vol_at_def Let_def total_of_def)

lemma finish_mutation_at:
  assumes g: "vol_good d0 sb"
  shows "triple (vol_at d0 sb F) (finish_mutation ops)
    (\<lambda>_ v. \<exists>b. vol_at d0 sb (F(1 := b)) v \<and> length b = 4096 \<and> sb_decode b = Inr sb) E"
proof -
  obtain b where b: "sb_encode sb (replicate 4096 0) = Inr b" "length b = 4096" "sb_decode b = Inr sb"
    using sb_round_trip [of sb "replicate 4096 0"] g by (auto simp: vol_good_def)
  have "1 < total_of sb" using vgeo(1) [OF g] by simp
  then have "triple (vol_at d0 sb F) (on_device (bind_act (write_superblock ops sb) (\<lambda>_. io (flush_device ops))))
      (\<lambda>_ v. vol_at d0 sb (F(1 := b)) v \<and> True) E"
    by (intro on_device_triple triple_bind [OF write_superblock_holding [OF vol_goodD(1) [OF g] _ b(1,2)]])
       (simp_all add: io_flush_holding [OF vol_goodD(1) [OF g]] del: fun_upd_apply)
  then have "triple (vol_at d0 sb F) (finish_mutation ops) (\<lambda>_ v. vol_at d0 sb (F(1 := b)) v \<and> True) E"
    by (rule triple_same) (simp add: finish_mutation_def vol_at_def)
  then show ?thesis by (rule triple_post) (use b in auto)
qed

end

end
