(* ===== verification/Nexfs_Files.thy ===== *)
theory Nexfs_Files
  imports Nexfs_Store
begin

text \<open>
  The files of a mounted volume: the blocks of an inode, growing and shrinking them, and reading and
  writing the bytes in them, specified as operations on one byte string per inode.
\<close>

section \<open>The blocks of an inode\<close>

definition count_of :: "inode \<Rightarrow> nat" where "count_of i = unat (ino_block_count i)"

text \<open>An inode whose pointers are distinct data blocks in use, with zeros behind them.\<close>

definition file_ok :: "blocks \<Rightarrow> superblock \<Rightarrow> inode \<Rightarrow> bool" where
  "file_ok F sb i \<longleftrightarrow>
    length (ino_direct_blocks i) = 12 \<and> count_of i \<le> 524 \<and> distinct (inode_blocks F i) \<and>
    (\<forall>b \<in> set (inode_blocks F i). data_of sb \<le> b \<and> b < total_of sb \<and> used F sb b) \<and>
    (\<forall>p \<in> set (drop (count_of i) (ino_direct_blocks i)). p = 0) \<and>
    (if count_of i \<le> 12 then ino_indirect_block i = 0 else \<forall>p \<in> set (drop (count_of i - 12) (pointers F i)). p = 0)"

definition file_data :: "blocks \<Rightarrow> inode \<Rightarrow> bytes" where
  "file_data F i = concat (map F (data_blocks F i))"

definition same_meta :: "inode \<Rightarrow> inode \<Rightarrow> bool" where
  "same_meta i j \<longleftrightarrow> ino_kind j = ino_kind i \<and> ino_permissions j = ino_permissions i \<and> ino_size j = ino_size i \<and>
    ino_created j = ino_created i \<and> ino_modified j = ino_modified i \<and> ino_generation j = ino_generation i"

lemma length_pointers [simp]: "length (pointers F i) = 512"
  by (simp add: pointers_def)

lemma pointers_cong: "F' (unat (ino_indirect_block i)) = F (unat (ino_indirect_block i)) \<Longrightarrow> pointers F' i = pointers F i"
  by (simp add: pointers_def)

lemma length_data_blocks: "file_ok F sb i \<Longrightarrow> length (data_blocks F i) = count_of i"
proof -
  assume "file_ok F sb i"
  then have "length (ino_direct_blocks i @ pointers F i) = 524" "count_of i \<le> 524" by (simp_all add: file_ok_def)
  then show ?thesis by (simp only: data_blocks_def count_of_def length_map length_take min_absorb2)
qed

lemma nth_data_blocks:
  "file_ok F sb i \<Longrightarrow> k < count_of i \<Longrightarrow>
    data_blocks F i ! k = unat (if k < 12 then ino_direct_blocks i ! k else pointers F i ! (k - 12))"
  by (auto simp: data_blocks_def file_ok_def count_of_def nth_append)

lemma data_blocks_cong:
  assumes "file_ok F sb i" "count_of i \<le> 12 \<or> F' (unat (ino_indirect_block i)) = F (unat (ino_indirect_block i))"
  shows "data_blocks F' i = data_blocks F i"
  using assms(2)
proof
  have "length (ino_direct_blocks i) = 12" using assms(1) by (simp add: file_ok_def)
  then show ?thesis if "count_of i \<le> 12" using that by (simp add: data_blocks_def count_of_def)
next
  show ?thesis if "F' (unat (ino_indirect_block i)) = F (unat (ino_indirect_block i))"
    using pointers_cong [of F' i F] that by (simp only: data_blocks_def)
qed

lemma data_block_range:
  assumes "file_ok F sb i" "b \<in> set (data_blocks F i)"
  shows "data_of sb \<le> b" "b < total_of sb" "used F sb b" "b \<notin> set (indirect_blocks i)"
  using assms by (auto simp: file_ok_def inode_blocks_def)

lemma indirect_range:
  assumes "file_ok F sb i" "12 < count_of i"
  shows "data_of sb \<le> unat (ino_indirect_block i)" "unat (ino_indirect_block i) < total_of sb"
    "used F sb (unat (ino_indirect_block i))" "unat (ino_indirect_block i) \<notin> set (data_blocks F i)"
  using assms by (auto simp: file_ok_def inode_blocks_def indirect_blocks_def count_of_def)

lemma get_put_u64:
  assumes "length x = 4096" "k < 512" "p < 512"
  shows "get_u64 (put_slice (p * 8) (le_bytes 8 w) x) (k * 8) = (if k = p then w else get_u64 x (k * 8))"
proof (cases "k = p")
  case True
  then show ?thesis using assms by (simp add: get_u64_def slice_put_same of_le_roundtrips)
next
  case False
  then have "k * 8 + 8 \<le> p * 8 \<or> p * 8 + 8 \<le> k * 8" by linarith
  then show ?thesis using assms False by (simp add: get_u64_def slice_put_other)
qed

lemma of_le_zeros: "(of_le (replicate 8 0) :: u64) = 0"
  using of_le_roundtrips(3) [of 0] by simp

lemma pointers_put:
  assumes "length x = 4096" "p < 512" "F' (unat (ino_indirect_block j)) = put_slice (p * 8) (le_bytes 8 w) x"
  shows "pointers F' j = (map (\<lambda>k. get_u64 x (k * 8)) [0..<512])[p := w]"
  using assms by (intro nth_equalityI) (auto simp: pointers_def get_put_u64 nth_list_update)

section \<open>Growing a file\<close>

text \<open>
  The file of \<open>i\<close> has got the blocks \<open>N\<close> of the free ones, those for data zeroed; nothing else has
  changed but the bitmap and the block of indirect pointers.
\<close>

definition taken :: "superblock \<Rightarrow> blocks \<Rightarrow> inode \<Rightarrow> blocks \<Rightarrow> nat set \<Rightarrow> bool" where
  "taken sb F i F' N \<longleftrightarrow> blocks_ok sb F' \<and>
    (\<forall>b \<in> N. data_of sb \<le> b \<and> b < total_of sb \<and> \<not> used F sb b) \<and>
    (\<forall>k < total_of sb. used F' sb k \<longleftrightarrow> used F sb k \<or> k \<in> N) \<and>
    (\<forall>x. x \<notin> bitmap_area sb \<and> x \<notin> N \<and> x \<notin> set (indirect_blocks i) \<longrightarrow> F' x = F x)"

text \<open>The inode \<open>j\<close> has the blocks of \<open>i\<close> first, so \<open>i\<close> finds its blocks on any disk where \<open>j\<close> does.\<close>

definition extends :: "inode \<Rightarrow> inode \<Rightarrow> bool" where
  "extends i j \<longleftrightarrow> count_of i \<le> count_of j \<and> length (ino_direct_blocks i) = 12 \<and> length (ino_direct_blocks j) = 12 \<and>
    take (count_of i) (ino_direct_blocks j) = take (count_of i) (ino_direct_blocks i) \<and>
    (12 < count_of i \<longrightarrow> ino_indirect_block j = ino_indirect_block i)"

lemma extends_trans: "extends i j \<Longrightarrow> extends j k \<Longrightarrow> extends i k"
proof -
  assume a: "extends i j" "extends j k"
  then have c: "min (count_of i) (count_of j) = count_of i" by (simp add: extends_def)
  have "take (count_of i) (ino_direct_blocks k) = take (count_of i) (take (count_of j) (ino_direct_blocks k))" by (simp add: c)
  also have "\<dots> = take (count_of i) (take (count_of j) (ino_direct_blocks j))" using a(2) unfolding extends_def by metis
  also have "\<dots> = take (count_of i) (ino_direct_blocks i)" using a(1) by (simp add: c extends_def)
  finally show ?thesis using a by (simp add: extends_def)
qed

lemma extends_blocks: "extends i j \<Longrightarrow> data_blocks F i = take (count_of i) (data_blocks F j)"
proof -
  assume e: "extends i j"
  have "take (count_of i) (ino_direct_blocks i @ pointers F i) = take (count_of i) (ino_direct_blocks j @ pointers F j)"
    using e by (cases "12 < count_of i") (auto simp: extends_def pointers_def)
  moreover have "min (count_of i) (count_of j) = count_of i" using e by (simp add: extends_def)
  ultimately show ?thesis unfolding data_blocks_def by (simp only: take_map take_take count_of_def [symmetric])
qed

definition grown :: "superblock \<Rightarrow> blocks \<Rightarrow> inode \<Rightarrow> blocks \<Rightarrow> inode \<Rightarrow> nat set \<Rightarrow> bool" where
  "grown sb F i F' j N \<longleftrightarrow> taken sb F i F' N \<and> file_ok F' sb j \<and> same_meta i j \<and> extends i j \<and>
    set (inode_blocks F' j) = set (inode_blocks F i) \<union> N \<and> set (indirect_blocks j) \<subseteq> set (indirect_blocks i) \<union> N \<and>
    (\<exists>new. data_blocks F' j = data_blocks F i @ new \<and> (\<forall>b \<in> set new. F' b = replicate 4096 0))"

lemma taken_trans:
  assumes "taken sb F i F' N" "taken sb F' j F'' N'" "set (indirect_blocks j) \<subseteq> set (indirect_blocks i) \<union> N"
  shows "taken sb F i F'' (N \<union> N')"
  using assms unfolding taken_def by (auto simp: subset_iff)

lemma bitmap_area_below: "sb_validate sb = Inr () \<Longrightarrow> data_of sb \<le> b \<Longrightarrow> b \<notin> bitmap_area sb"
  using sb_validD(5,6) [of sb] by (simp add: bitmap_area_def)

text \<open>The data blocks of the file keep their content.\<close>

lemma taken_data:
  assumes v: "sb_validate sb = Inr ()" and t: "taken sb F i F' N" and f: "file_ok F sb i" and b: "b \<in> set (data_blocks F i)"
  shows "F' b = F b"
proof -
  note r = data_block_range [OF f b]
  have "b \<notin> bitmap_area sb" by (rule bitmap_area_below [OF v r(1)])
  moreover have "b \<notin> N" using t r(3) by (auto simp: taken_def)
  ultimately show ?thesis using t r(4) by (simp add: taken_def)
qed

lemma grown_refl: "blocks_ok sb F \<Longrightarrow> file_ok F sb i \<Longrightarrow> grown sb F i F i {}"
  by (simp add: grown_def taken_def same_meta_def extends_def file_ok_def)

lemma grown_trans:
  assumes v: "sb_validate sb = Inr ()" and g1: "grown sb F i F1 i1 N1" and g2: "grown sb F1 i1 F2 i2 N2"
  shows "grown sb F i F2 i2 (N1 \<union> N2)"
proof -
  obtain new1 where n1: "data_blocks F1 i1 = data_blocks F i @ new1" "\<forall>b \<in> set new1. F1 b = replicate 4096 0"
    using g1 by (auto simp: grown_def)
  obtain new2 where n2: "data_blocks F2 i2 = data_blocks F1 i1 @ new2" "\<forall>b \<in> set new2. F2 b = replicate 4096 0"
    using g2 by (auto simp: grown_def)
  have "F2 b = F1 b" if "b \<in> set new1" for b
    using taken_data [OF v, of F1 i1 F2 N2 b] g1 g2 n1(1) that by (simp add: grown_def)
  then have "\<exists>new. data_blocks F2 i2 = data_blocks F i @ new \<and> (\<forall>b \<in> set new. F2 b = replicate 4096 0)"
    using n1 n2 by (intro exI [of _ "new1 @ new2"]) auto
  then show ?thesis
    using g1 g2 taken_trans [of sb F i F1 N1 i1 F2 N2] extends_trans [of i i1 i2] by (auto simp: grown_def same_meta_def)
qed

lemma file_data_grown:
  assumes v: "sb_validate sb = Inr ()" and g: "grown sb F i F' j N" and f: "file_ok F sb i"
  shows "file_data F' j = file_data F i @ replicate (4096 * (count_of j - count_of i)) 0"
proof -
  obtain new where n: "data_blocks F' j = data_blocks F i @ new" "\<forall>b \<in> set new. F' b = replicate 4096 0"
    using g by (auto simp: grown_def)
  have "length (data_blocks F' j) = count_of j" using g length_data_blocks [of F' sb j] by (simp add: grown_def)
  then have len: "length new = count_of j - count_of i" using n(1) length_data_blocks [OF f] by simp
  have tk: "taken sb F i F' N" using g by (simp add: grown_def)
  have old: "map F' (data_blocks F i) = map F (data_blocks F i)"
    using taken_data [OF v tk f] by simp
  have "concat (map F' new) = replicate (4096 * length new) 0"
    using n(2) by (induction new) (auto simp: replicate_add)
  then show ?thesis unfolding file_data_def n(1) map_append concat_append old len by simp
qed

lemma block_taken_taken: "block_taken sb b F F' \<Longrightarrow> taken sb F i F' {b}"
  by (auto simp: block_taken_def taken_def)

lemma taken_used: "taken sb F i F' N \<Longrightarrow> k < total_of sb \<Longrightarrow> used F sb k \<Longrightarrow> used F' sb k \<and> k \<notin> N"
  by (auto simp: taken_def)

text \<open>A new block among the direct ones.\<close>

lemma grown_direct:
  assumes v: "sb_validate sb = Inr ()" and f: "file_ok F sb i" and n: "count_of i < 12" and t: "block_taken sb (unat w) F F'"
  defines "j \<equiv> i\<lparr>ino_direct_blocks := (ino_direct_blocks i)[count_of i := w], ino_block_count := ino_block_count i + 1\<rparr>"
  shows "grown sb F i F' j {unat w} \<and> count_of j = Suc (count_of i)"
proof -
  have c: "count_of j = Suc (count_of i)"
    using n unat_succ_less [of "ino_block_count i" 12] by (simp add: j_def count_of_def word_less_nat_alt)
  have len: "length (ino_direct_blocks i) = 12" using f by (simp add: file_ok_def)
  have db: "data_blocks F' j = data_blocks F i @ [unat w]" "indirect_blocks j = []" "indirect_blocks i = []"
    using n c len by (simp_all add: data_blocks_def indirect_blocks_def count_of_def [symmetric] take_Suc_conv_app_nth)
      (simp add: j_def take_Suc_conv_app_nth)
  note tk = block_taken_taken [OF t, of i]
  have new: "unat w \<notin> set (data_blocks F i)" using data_block_range(3) [OF f] t by (auto simp: block_taken_def)
  have "file_ok F' sb j"
    unfolding file_ok_def
  proof (intro conjI)
    show "distinct (inode_blocks F' j)" using f new db by (simp add: inode_blocks_def file_ok_def)
    show "\<forall>b\<in>set (inode_blocks F' j). data_of sb \<le> b \<and> b < total_of sb \<and> used F' sb b"
      using f t db by (auto simp: inode_blocks_def file_ok_def block_taken_def)
    show "\<forall>p\<in>set (drop (count_of j) (ino_direct_blocks j)). p = 0"
      using f c by (auto simp: file_ok_def j_def drop_update_cancel set_drop_subset_set_drop [of "count_of i" "Suc (count_of i)", THEN subsetD])
    show "if count_of j \<le> 12 then ino_indirect_block j = 0 else \<forall>p\<in>set (drop (count_of j - 12) (pointers F' j)). p = 0"
      using f n c by (simp add: file_ok_def j_def)
  qed (use len n c in \<open>simp_all add: j_def\<close>)
  moreover have "extends i j" using c len n by (simp add: extends_def) (simp add: j_def)
  ultimately show ?thesis
    using tk c db t by (auto simp: grown_def inode_blocks_def same_meta_def j_def block_taken_def)
qed

text \<open>A new block behind the direct ones; \<open>w'\<close> is the block of pointers.\<close>

lemma grown_indirect:
  fixes w w' :: u64
  assumes v: "sb_validate sb = Inr ()" and f: "file_ok F sb i" and n: "12 \<le> count_of i" "count_of i < 524"
    and t: "taken sb F i F1 N" and N: "N = (if count_of i = 12 then {unat w, unat w'} else {unat w})" "unat w \<noteq> unat w'"
    and zero: "F1 (unat w) = replicate 4096 0"
    and w': "if count_of i = 12 then F1 (unat w') = replicate 4096 0 else w' = ino_indirect_block i \<and> F1 (unat w') = F (unat w')"
    and F2: "F2 = F1(unat w' := put_slice ((count_of i - 12) * 8) (le_bytes 8 w) (F1 (unat w')))"
  defines "j \<equiv> i\<lparr>ino_indirect_block := w', ino_block_count := ino_block_count i + 1\<rparr>"
  shows "grown sb F i F2 j N \<and> count_of j = Suc (count_of i)"
proof -
  let ?n = "count_of i"
  have c: "count_of j = Suc ?n"
    using n unat_succ_less [of "ino_block_count i" 524] by (simp add: j_def count_of_def word_less_nat_alt)
  have len: "length (ino_direct_blocks i) = 12" using f by (simp add: file_ok_def)
  have area: "unat w' \<notin> bitmap_area sb" "data_of sb \<le> unat w'" "unat w' < total_of sb"
    "unat w' \<notin> set (data_blocks F i)" "used F1 sb (unat w')"
  proof -
    have "data_of sb \<le> unat w' \<and> unat w' < total_of sb \<and> unat w' \<notin> set (data_blocks F i) \<and> used F1 sb (unat w')"
    proof (cases "?n = 12")
      case True
      then have "unat w' \<in> N" using N by simp
      then show ?thesis using t data_block_range(3) [OF f] by (auto simp: taken_def)
    next
      case False
      then show ?thesis using w' n indirect_range [OF f] taken_used [OF t] by auto
    qed
    then show "data_of sb \<le> unat w'" "unat w' < total_of sb" "unat w' \<notin> set (data_blocks F i)" "used F1 sb (unat w')" by auto
    then show "unat w' \<notin> bitmap_area sb" using bitmap_area_below [OF v] by blast
  qed
  have lw: "length (F1 (unat w')) = 4096" using t area(3) by (simp add: taken_def blocks_ok_def)
  define ps where "ps = (if ?n = 12 then replicate 512 0 else pointers F i)"
  have "pointers F2 j = (map (\<lambda>k. get_u64 (F1 (unat w')) (k * 8)) [0..<512])[?n - 12 := w]"
    using n lw by (intro pointers_put) (simp_all add: F2 j_def)
  moreover have "map (\<lambda>k. get_u64 (F1 (unat w')) (k * 8)) [0..<512] = ps"
    using w' by (auto simp: ps_def pointers_def get_u64_def slice_replicate of_le_zeros intro!: nth_equalityI)
  ultimately have p2: "pointers F2 j = ps[?n - 12 := w]" by simp
  have psl: "length ps = 512" by (simp add: ps_def)
  have dF: "data_blocks F i = map unat (ino_direct_blocks i @ take (?n - 12) ps)"
    using n len by (simp add: data_blocks_def count_of_def [symmetric] ps_def)
  obtain m where m: "?n = 12 + m" "m < 512" using n that [of "?n - 12"] by simp
  have "take (Suc ?n) (ino_direct_blocks i @ ps[m := w]) = ino_direct_blocks i @ take m ps @ [w]"
    using m len psl by (simp add: take_Suc_conv_app_nth)
  moreover have "data_blocks F2 j = map unat (take (Suc ?n) (ino_direct_blocks i @ ps[m := w]))"
    using p2 m c by (simp add: data_blocks_def count_of_def [symmetric]) (simp add: j_def)
  ultimately have db: "data_blocks F2 j = data_blocks F i @ [unat w]" using dF m(1) by simp
  have ib: "indirect_blocks j = [unat w']" "set (indirect_blocks i) = (if ?n = 12 then {} else {unat w'})"
    using n c w' by (auto simp: indirect_blocks_def count_of_def [symmetric]) (simp_all add: j_def)
  have used2: "used F2 sb k = used F1 sb k" for k using area(1) unfolding F2 by (intro used_cong) auto
  have ok2: "blocks_ok sb F2" using t lw n unfolding F2 taken_def by (intro blocks_ok_upd) auto
  have t2: "taken sb F i F2 N"
    using t ok2 used2 ib(2) N unfolding taken_def F2 by (auto split: if_splits)
  have wN: "unat w \<in> N" using N(1) by simp
  then have "\<not> used F sb (unat w)" using t by (simp add: taken_def)
  then have new: "unat w \<in> N" "unat w \<notin> set (data_blocks F i)" using wN data_block_range(3) [OF f] by auto
  have "file_ok F2 sb j"
    unfolding file_ok_def
  proof (intro conjI)
    show "distinct (inode_blocks F2 j)"
      using f new(2) area(4) N(2) db ib by (auto simp: inode_blocks_def file_ok_def)
    show "\<forall>b\<in>set (inode_blocks F2 j). data_of sb \<le> b \<and> b < total_of sb \<and> used F2 sb b"
      using t2 area used2 new(1) data_block_range [OF f] by (auto simp: inode_blocks_def db ib taken_def)
    have "set (drop (Suc ?n - 12) (ps[?n - 12 := w])) \<subseteq> set (drop (?n - 12) ps)"
      using n by (simp add: Suc_diff_le drop_update_cancel set_drop_subset_set_drop)
    moreover have "\<forall>p \<in> set (drop (?n - 12) ps). p = 0" using f n by (auto simp: ps_def file_ok_def split: if_splits)
    ultimately show "if count_of j \<le> 12 then ino_indirect_block j = 0 else \<forall>p\<in>set (drop (count_of j - 12) (pointers F2 j)). p = 0"
      using n c p2 by auto
  qed (use len n c in \<open>simp_all add: j_def\<close>)
  moreover have "F2 (unat w) = replicate 4096 0" using zero N(2) by (simp add: F2)
  moreover have "set (inode_blocks F2 j) = set (inode_blocks F i) \<union> N"
    using db ib N(1) by (auto simp: inode_blocks_def split: if_splits)
  moreover have "extends i j" using c len w' by (simp add: extends_def) (simp add: j_def)
  ultimately show ?thesis
    using t2 c db ib N by (auto simp: grown_def same_meta_def j_def split: if_splits)
qed

definition full :: "blocks \<Rightarrow> superblock \<Rightarrow> bool" where
  "full F sb \<longleftrightarrow> (\<forall>b. data_of sb \<le> b \<and> b < total_of sb \<longrightarrow> used F sb b)"

text \<open>
  The free blocks, and the blocks that a file of \<open>c\<close> data blocks takes. A file grows by free blocks, so
  the space runs out only if there are too few of them.
\<close>

definition free_blocks :: "blocks \<Rightarrow> superblock \<Rightarrow> nat set" where
  "free_blocks F sb = {b. data_of sb \<le> b \<and> b < total_of sb \<and> \<not> used F sb b}"

definition file_blocks :: "nat \<Rightarrow> nat" where "file_blocks c = (if c \<le> 12 then c else Suc c)"

definition too_few :: "superblock \<Rightarrow> blocks \<Rightarrow> inode \<Rightarrow> nat \<Rightarrow> bool" where
  "too_few sb F i c \<longleftrightarrow> card (free_blocks F sb) + file_blocks (count_of i) < file_blocks c"

lemma file_blocks_mono: "c \<le> d \<Longrightarrow> file_blocks c \<le> file_blocks d" "c < d \<Longrightarrow> file_blocks c < file_blocks d"
  by (simp_all add: file_blocks_def)

lemma finite_free [simp]: "finite (free_blocks F sb)"
  by (rule finite_subset [of _ "{..<total_of sb}"]) (auto simp: free_blocks_def)

lemma full_free: "full F sb \<longleftrightarrow> free_blocks F sb = {}"
  by (auto simp: full_def free_blocks_def)

lemma card_inode_blocks:
  assumes "file_ok F sb i"
  shows "card (set (inode_blocks F i)) = file_blocks (count_of i)"
proof -
  have "card (set (inode_blocks F i)) = length (inode_blocks F i)" using assms by (simp add: file_ok_def distinct_card)
  then show ?thesis using length_data_blocks [OF assms] by (simp add: inode_blocks_def indirect_blocks_def file_blocks_def count_of_def)
qed

lemma space_balance:
  assumes f: "file_ok F sb i" "file_ok F' sb j" and own: "set (inode_blocks F' j) = set (inode_blocks F i) \<union> N"
    and N: "\<forall>b \<in> N. data_of sb \<le> b \<and> b < total_of sb \<and> \<not> used F sb b"
    and us: "\<forall>k < total_of sb. used F' sb k \<longleftrightarrow> used F sb k \<or> k \<in> N"
  shows "too_few sb F' j c = too_few sb F i c"
proof -
  have fr: "free_blocks F sb = free_blocks F' sb \<union> N" "free_blocks F' sb \<inter> N = {}"
    using N us by (auto simp: free_blocks_def)
  have fin: "finite N" using fr(1) finite_free [of F sb] by simp
  have "set (inode_blocks F i) \<inter> N = {}" using f(1) N by (auto simp: file_ok_def)
  then have "card (set (inode_blocks F' j)) = card (set (inode_blocks F i)) + card N" unfolding own using fin by (simp add: card_Un_disjoint)
  moreover have "card (free_blocks F sb) = card (free_blocks F' sb) + card N" unfolding fr(1) using fr(2) fin by (simp add: card_Un_disjoint)
  ultimately show ?thesis using card_inode_blocks [OF f(1)] card_inode_blocks [OF f(2)] by (simp add: too_few_def ac_simps)
qed

lemma grown_space: "file_ok F sb i \<Longrightarrow> grown sb F i F' j N \<Longrightarrow> too_few sb F' j c = too_few sb F i c"
  by (rule space_balance) (auto simp: grown_def taken_def)

lemma index_count: "ino_block_count i < of_nat DIRECT_BLOCKS \<longleftrightarrow> count_of i < 12"
  "12 \<le> count_of i \<Longrightarrow> unat (ino_block_count i - of_nat DIRECT_BLOCKS) = count_of i - 12"
  by (simp_all add: count_of_def DIRECT_BLOCKS_def word_less_nat_alt word_le_nat_alt unat_sub)

context reliable_device
begin

lemma data_block_at:
  assumes g: "vol_good d0 sb" and f: "file_ok F sb i" and k: "unat index < count_of i"
  shows "triple (vol_at d0 sb F) (data_block ops i index)
    (\<lambda>x v. vol_at d0 sb F v \<and> (\<exists>w. x = Some w \<and> unat w = data_blocks F i ! unat index)) E"
proof -
  let ?Q = "\<lambda>(x :: u64 option) v. vol_at d0 sb F v \<and> (\<exists>w. x = Some w \<and> unat w = data_blocks F i ! unat index)"
  note nth = nth_data_blocks [OF f k]
  have "data_blocks F i ! unat index \<in> set (data_blocks F i)" using k length_data_blocks [OF f] by simp
  then have pos: "0 < data_blocks F i ! unat index" using data_block_range(1) [OF f] vgeo(6) [OF g] by fastforce
  have le: "\<not> ino_block_count i \<le> index" using k by (simp add: count_of_def word_le_nat_alt)
  have dir: "index < of_nat DIRECT_BLOCKS \<longleftrightarrow> unat index < 12" by (simp add: DIRECT_BLOCKS_def word_less_nat_alt)
  show ?thesis
  proof (cases "unat index < 12")
    case True
    then show ?thesis using le dir nth pos
      by (auto simp: data_block_def Let_def intro!: triple_return_val)
  next
    case False
    note ind = indirect_range [OF f]
    have c: "12 < count_of i" "count_of i \<le> 524" using False k f by (simp_all add: file_ok_def)
    have nz: "ino_indirect_block i \<noteq> 0" using ind(1) c(1) vgeo(6) [OF g] by auto
    define p where "p = unat (index - of_nat DIRECT_BLOCKS)"
    have p: "p = unat index - 12" "p < 512" using False k c by (simp_all add: p_def DIRECT_BLOCKS_def unat_sub word_le_nat_alt)
    have ptr: "of_le (slice (p * 8) 8 (F (unat (ino_indirect_block i)))) = pointers F i ! p"
      using p(2) by (simp add: pointers_def get_u64_def)
    have "triple (vol_at d0 sb F) (vol_read_block ops (ino_indirect_block i) (replicate BLOCK_SIZE 0))
        (\<lambda>x v. vol_at d0 sb F v \<and> x = F (unat (ino_indirect_block i))) E"
      using ind(2) c by (intro read_block_at [OF g]) (simp_all add: BLOCK_SIZE_def)
    then have "triple (vol_at d0 sb F) (bind_act (vol_read_block ops (ino_indirect_block i) (replicate BLOCK_SIZE 0)) (\<lambda>pointers.
         let block = of_le (slice (p * 8) 8 pointers) in
         if block = 0 then fail_act F_CorruptInode else return_act (Some block))) ?Q E"
      by (rule triple_bind_val) (use False nth pos ptr p in \<open>auto simp: Let_def intro!: triple_return_val\<close>)
    then show ?thesis using False le dir nz p(2) by (simp add: data_block_def Let_def p_def [symmetric] INDIRECT_POINTERS_def BLOCK_SIZE_def)
  qed
qed

definition out_of_space :: "'d \<Rightarrow> superblock \<Rightarrow> blocks \<Rightarrow> inode \<Rightarrow> nat \<Rightarrow> fs_error \<Rightarrow> 'd nexfs \<Rightarrow> bool" where
  "out_of_space d0 sb F i c e v \<longleftrightarrow>
    e = F_NoSpace \<and> too_few sb F i c \<and> (\<exists>F' N. vol_at d0 sb F' v \<and> taken sb F i F' N \<and> full F' sb \<and> data_blocks F' i = data_blocks F i)"

lemma add_block_at:
  assumes g: "vol_good d0 sb" and f: "file_ok F sb i" and k: "count_of i < 524"
  shows "triple (vol_at d0 sb F) (add_block ops i)
    (\<lambda>j v. \<exists>F'. vol_at d0 sb F' v \<and> (\<exists>N. grown sb F i F' j N) \<and> count_of j = Suc (count_of i)) (out_of_space d0 sb F i (Suc (count_of i)))"
proof (rule triple_vol [OF g])
  assume ok: "blocks_ok sb F"
  note v = vol_goodD(2) [OF g]
  let ?Q = "\<lambda>j v. \<exists>F'. vol_at d0 sb F' v \<and> (\<exists>N. grown sb F i F' j N) \<and> count_of j = Suc (count_of i)"
  let ?E = "out_of_space d0 sb F i (Suc (count_of i))"
  have self: "taken sb F i F {}" using ok by (simp add: taken_def)
  have a1: "triple (vol_at d0 sb F) (allocate_block ops) (\<lambda>w v. \<exists>F'. vol_at d0 sb F' v \<and> block_taken sb (unat w) F F') ?E"
    using self file_blocks_mono(2) [of "count_of i" "Suc (count_of i)"]
    by (intro triple_conseq [OF allocate_block_at [OF g]]) (auto simp: out_of_space_def full_def [symmetric] too_few_def full_free)
  have rest: "triple (vol_at d0 sb F1)
      (bind_act (if ino_indirect_block i = 0 then allocate_block ops else return_act (ino_indirect_block i)) (\<lambda>indirect.
       bind_act (vol_read_block ops indirect (replicate BLOCK_SIZE 0)) (\<lambda>pointers.
       let pointer_index = unat (ino_block_count i - of_nat DIRECT_BLOCKS) in
       if INDIRECT_POINTERS \<le> pointer_index then fail_act F_FileTooLarge
       else
         bind_act (vol_write_block ops indirect (put_slice (pointer_index * 8) (le_bytes 8 w) pointers)) (\<lambda>_.
         return_act (i\<lparr>ino_indirect_block := indirect, ino_block_count := ino_block_count i + 1\<rparr>))))) ?Q ?E"
    if n: "\<not> count_of i < 12" and t: "block_taken sb (unat w) F F1" for w :: u64 and F1
  proof -
    have t1: "taken sb F i F1 {unat w}" by (rule block_taken_taken [OF t])
    have zero_iff: "ino_indirect_block i = 0 \<longleftrightarrow> count_of i = 12"
      using n f indirect_range(1) [OF f] vgeo(6) [OF g] by (auto simp: file_ok_def split: if_splits)
    let ?A = "\<lambda>w' F2 N. taken sb F i F2 N \<and> N = (if count_of i = 12 then {unat w, unat w'} else {unat w}) \<and> unat w \<noteq> unat w' \<and>
      F2 (unat w) = replicate 4096 0 \<and> unat w' < total_of sb \<and>
      (if count_of i = 12 then F2 (unat w') = replicate 4096 0 else w' = ino_indirect_block i \<and> F2 (unat w') = F (unat w'))"
    have a2: "triple (vol_at d0 sb F1) (if ino_indirect_block i = 0 then allocate_block ops else return_act (ino_indirect_block i))
        (\<lambda>w' v. \<exists>F2. vol_at d0 sb F2 v \<and> (\<exists>N. ?A w' F2 N)) ?E"
    proof (cases "count_of i = 12")
      case True
      have ind: "indirect_blocks i = []" using True by (simp add: indirect_blocks_def count_of_def)
      have new: "?A w' F2 {unat w, unat w'}" if t2: "block_taken sb (unat w') F1 F2" for w' F2
      proof -
        have ne: "unat w \<noteq> unat w'" using t t2 by (auto simp: block_taken_def)
        have "unat w \<notin> bitmap_area sb" using t bitmap_area_below [OF v] by (simp add: block_taken_def)
        then have "F2 (unat w) = F1 (unat w)" using t2 ne by (simp add: block_taken_def)
        then show ?thesis
          using taken_trans [OF t1 block_taken_taken [OF t2, of i]] ind t t2 ne True by (simp add: block_taken_def insert_commute)
      qed
      have "free_blocks F sb = insert (unat w) (free_blocks F1 sb)" using t by (auto simp: block_taken_def free_blocks_def)
      then have few: "too_few sb F i (Suc (count_of i))" if "full F1 sb" using that True by (simp add: full_free too_few_def file_blocks_def)
      have "triple (vol_at d0 sb F1) (allocate_block ops) (\<lambda>w' v. \<exists>F2. vol_at d0 sb F2 v \<and> block_taken sb (unat w') F1 F2) ?E"
        by (rule triple_conseq [OF allocate_block_at [OF g]]) (use t1 few data_blocks_cong [OF f, of F1] True in \<open>auto simp: out_of_space_def full_def [symmetric]\<close>)
      then have "triple (vol_at d0 sb F1) (allocate_block ops) (\<lambda>w' v. \<exists>F2. vol_at d0 sb F2 v \<and> (\<exists>N. ?A w' F2 N)) ?E"
        by (rule triple_post) (use new in blast)
      then show ?thesis using zero_iff True by simp
    next
      case False
      note ind = indirect_range [OF f]
      have "unat w \<noteq> unat (ino_indirect_block i)" "unat (ino_indirect_block i) \<notin> bitmap_area sb"
        using ind t n False bitmap_area_below [OF v] by (auto simp: block_taken_def)
      then have "?A (ino_indirect_block i) F1 {unat w}" using t t1 ind n False by (auto simp: block_taken_def)
      then show ?thesis using zero_iff False by (auto intro!: triple_return_val)
    qed
    show ?thesis
    proof (rule triple_bind_ex [OF a2], elim exE)
      fix w' F2 N assume A: "?A w' F2 N"
      define p where "p = unat (ino_block_count i - of_nat DIRECT_BLOCKS)"
      have p: "p = count_of i - 12" "p < 512" using index_count(2) n k by (simp_all add: p_def)
      define F3 where "F3 = F2(unat w' := put_slice (p * 8) (le_bytes 8 w) (F2 (unat w')))"
      have "grown sb F i F3 (i\<lparr>ino_indirect_block := w', ino_block_count := ino_block_count i + 1\<rparr>) N \<and>
          count_of (i\<lparr>ino_indirect_block := w', ino_block_count := ino_block_count i + 1\<rparr>) = Suc (count_of i)"
        using A n k p(1) by (intro grown_indirect [OF v f, where ?F1.0 = F2 and w = w]) (auto simp: F3_def)
      then have Q: "?Q (i\<lparr>ino_indirect_block := w', ino_block_count := ino_block_count i + 1\<rparr>) v" if "vol_at d0 sb F3 v" for v
        using that by blast
      have len: "length (F2 (unat w')) = 4096" using A by (simp add: taken_def blocks_ok_def)
      have r: "triple (vol_at d0 sb F2) (vol_read_block ops w' (replicate BLOCK_SIZE 0)) (\<lambda>x v. vol_at d0 sb F2 v \<and> x = F2 (unat w')) ?E"
        using A by (intro read_block_at [OF g]) (simp_all add: BLOCK_SIZE_def)
      have w: "triple (vol_at d0 sb F2) (vol_write_block ops w' (put_slice (p * 8) (le_bytes 8 w) (F2 (unat w')))) (\<lambda>_. vol_at d0 sb F3) ?E"
        unfolding F3_def using A p len by (intro write_block_at [OF g]) simp_all
      show "triple (vol_at d0 sb F2) (bind_act (vol_read_block ops w' (replicate BLOCK_SIZE 0)) (\<lambda>pointers.
       let pointer_index = unat (ino_block_count i - of_nat DIRECT_BLOCKS) in
       if INDIRECT_POINTERS \<le> pointer_index then fail_act F_FileTooLarge
       else
         bind_act (vol_write_block ops w' (put_slice (pointer_index * 8) (le_bytes 8 w) pointers)) (\<lambda>_.
         return_act (i\<lparr>ino_indirect_block := w', ino_block_count := ino_block_count i + 1\<rparr>)))) ?Q ?E"
        unfolding p_def [symmetric] Let_def
        using p(2) Q by (intro triple_bind_val [OF r])
          (auto simp: INDIRECT_POINTERS_def BLOCK_SIZE_def intro!: triple_bind [OF w] triple_return_val)
    qed
  qed
  show ?thesis
    unfolding add_block_def Let_def index_count(1)
  proof (rule triple_bind_ex [OF a1], rule triple_if)
    fix w :: u64 and F1 assume t: "block_taken sb (unat w) F F1"
    show "triple (vol_at d0 sb F1) (return_act (i\<lparr>ino_direct_blocks := (ino_direct_blocks i)[unat (ino_block_count i) := w],
        ino_block_count := ino_block_count i + 1\<rparr>)) ?Q ?E" if n: "count_of i < 12"
      using grown_direct [OF v f n t] by (auto simp: count_of_def intro!: triple_return_val)
  qed (use rest in \<open>simp add: Let_def\<close>)
qed

lemma out_of_space_trans:
  assumes "file_ok F sb i" "grown sb F i F1 j N" "out_of_space d0 sb F1 j c e s"
  shows "out_of_space d0 sb F i c e s"
proof -
  obtain F' N' where F': "e = F_NoSpace" "vol_at d0 sb F' s" "taken sb F1 j F' N'" "full F' sb" "data_blocks F' j = data_blocks F1 j"
    using assms(3) by (auto simp: out_of_space_def)
  obtain new where "data_blocks F1 j = data_blocks F i @ new" "extends i j" using assms(2) by (auto simp: grown_def)
  then have "data_blocks F' i = data_blocks F i" using F'(5) extends_blocks [of i j F'] length_data_blocks [OF assms(1)] by simp
  moreover have "taken sb F i F' (N \<union> N')" using assms(2) by (intro taken_trans [OF _ F'(3)]) (simp_all add: grown_def)
  moreover have "too_few sb F i c" using assms(3) grown_space [OF assms(1,2)] by (simp add: out_of_space_def)
  ultimately show ?thesis unfolding out_of_space_def using F'(1,2,4) by blast
qed

lemma out_of_space_mono: "c \<le> d \<Longrightarrow> out_of_space d0 sb F i c e s \<Longrightarrow> out_of_space d0 sb F i d e s"
  using file_blocks_mono(1) [of c d] by (auto simp: out_of_space_def too_few_def)

lemma ensure_loop_at:
  assumes g: "vol_good d0 sb" and "file_ok F sb i" and c: "unat count \<le> 524"
  shows "triple (vol_at d0 sb F) (ensure_blocks_loop ops count i)
    (\<lambda>j v. \<exists>F'. vol_at d0 sb F' v \<and> (\<exists>N. grown sb F i F' j N) \<and> count_of j = max (count_of i) (unat count)) (out_of_space d0 sb F i (unat count))"
  using assms(2)
proof (induction "unat count - count_of i" arbitrary: i F rule: less_induct)
  case (less i F)
  note v = vol_goodD(2) [OF g]
  have eq: "ensure_blocks_loop ops count i =
      (if count_of i < unat count then bind_act (add_block ops i) (ensure_blocks_loop ops count) else return_act i)"
    by (rule ext) (simp add: count_of_def word_less_nat_alt)
  show ?case
    unfolding eq
  proof (rule triple_if)
    assume k: "count_of i < unat count"
    have ab: "triple (vol_at d0 sb F) (add_block ops i)
      (\<lambda>j v. \<exists>F'. vol_at d0 sb F' v \<and> (\<exists>N. grown sb F i F' j N) \<and> count_of j = Suc (count_of i)) (out_of_space d0 sb F i (unat count))"
    proof (rule triple_conseq [OF add_block_at [OF g less.prems]])
      show "out_of_space d0 sb F i (unat count) e s" if "out_of_space d0 sb F i (Suc (count_of i)) e s" for e s
        using k by (intro out_of_space_mono [OF _ that]) simp
    qed (use k c in simp_all)
    show "triple (vol_at d0 sb F) (bind_act (add_block ops i) (ensure_blocks_loop ops count))
      (\<lambda>j v. \<exists>F'. vol_at d0 sb F' v \<and> (\<exists>N. grown sb F i F' j N) \<and> count_of j = max (count_of i) (unat count)) (out_of_space d0 sb F i (unat count))"
    proof (rule triple_bind_ex [OF ab], goal_cases)
      case (1 j F1)
      then obtain N where gr: "grown sb F i F1 j N" and cj: "count_of j = Suc (count_of i)" by blast
      have f1: "file_ok F1 sb j" using gr by (simp add: grown_def)
      show ?case
      proof (rule triple_conseq [OF less.hyps [OF _ f1]])
        show "unat count - count_of j < unat count - count_of i" using k cj by simp
        fix j' and s :: "'d nexfs"
        assume "\<exists>F'. vol_at d0 sb F' s \<and> (\<exists>N. grown sb F1 j F' j' N) \<and> count_of j' = max (count_of j) (unat count)"
        then obtain F' N' where F': "vol_at d0 sb F' s" "grown sb F1 j F' j' N'" "count_of j' = max (count_of j) (unat count)" by blast
        moreover have "grown sb F i F' j' (N \<union> N')" by (rule grown_trans [OF v gr F'(2)])
        moreover have "count_of j' = max (count_of i) (unat count)" using F'(3) cj k by simp
        ultimately show "\<exists>F'. vol_at d0 sb F' s \<and> (\<exists>N. grown sb F i F' j' N) \<and> count_of j' = max (count_of i) (unat count)" by blast
      next
        fix e and s :: "'d nexfs" assume "out_of_space d0 sb F1 j (unat count) e s"
        then show "out_of_space d0 sb F i (unat count) e s" by (rule out_of_space_trans [OF less.prems gr])
      qed
    qed
  next
    assume k: "\<not> count_of i < unat count"
    show "triple (vol_at d0 sb F) (return_act i)
      (\<lambda>j v. \<exists>F'. vol_at d0 sb F' v \<and> (\<exists>N. grown sb F i F' j N) \<and> count_of j = max (count_of i) (unat count)) (out_of_space d0 sb F i (unat count))"
    proof (rule triple_return_val)
      fix s assume s: "vol_at d0 sb F s"
      have "grown sb F i F i {}" by (rule grown_refl [OF vol_at_blocks [OF g s] less.prems])
      then show "\<exists>F'. vol_at d0 sb F' s \<and> (\<exists>N. grown sb F i F' i N) \<and> count_of i = max (count_of i) (unat count)"
        using s k by (intro exI [of _ F]) auto
    qed
  qed
qed

lemma ensure_data_blocks_at:
  assumes "vol_good d0 sb" "file_ok F sb i" "unat count \<le> 524"
  shows "triple (vol_at d0 sb F) (ensure_data_blocks ops i count)
    (\<lambda>j v. \<exists>F'. vol_at d0 sb F' v \<and> (\<exists>N. grown sb F i F' j N) \<and> count_of j = max (count_of i) (unat count)) (out_of_space d0 sb F i (unat count))"
proof -
  have "\<not> of_nat MAX_FILE_BLOCKS < count" using assms(3) by (simp add: word_less_nat_alt nexfs_consts)
  then show ?thesis using ensure_loop_at [OF assms] by (simp add: ensure_data_blocks_def)
qed

end

section \<open>The bytes of a file\<close>

lemma length_file_data:
  assumes "file_ok F sb i" "blocks_ok sb F"
  shows "length (file_data F i) = 4096 * count_of i"
proof -
  have "length (concat (map F (data_blocks F i))) = length (map F (data_blocks F i)) * 4096"
    using data_block_range(2) [OF assms(1)] assms(2) by (intro length_concat_uniform) (auto simp: blocks_ok_def)
  then show ?thesis using length_data_blocks [OF assms(1)] by (simp add: file_data_def)
qed

text \<open>A range inside one block of the file.\<close>

lemma slice_block:
  assumes f: "file_ok F sb i" "blocks_ok sb F" and k: "k < count_of i" and a: "a + n \<le> 4096"
  shows "slice (k * 4096 + a) n (file_data F i) = slice a n (F (data_blocks F i ! k))"
proof -
  let ?xs = "map F (data_blocks F i)"
  have len: "\<And>x. x \<in> set ?xs \<Longrightarrow> length x = 4096"
    using data_block_range(2) [OF f(1)] f(2) by (auto simp: blocks_ok_def)
  have kl: "k < length ?xs" using k length_data_blocks [OF f(1)] by simp
  have "drop (k * 4096) (concat ?xs) = concat (drop k ?xs)" using len kl by (intro drop_concat_uniform) auto
  also have "\<dots> = ?xs ! k @ concat (drop (Suc k) ?xs)" using kl by (simp add: Cons_nth_drop_Suc [symmetric])
  finally have "drop (k * 4096 + a) (concat ?xs) = drop a (?xs ! k @ concat (drop (Suc k) ?xs))"
    by (simp only: drop_drop [symmetric] add.commute [of "k * 4096" a])
  moreover have "length (?xs ! k) = 4096" by (rule len [OF nth_mem [OF kl]])
  ultimately show ?thesis using a kl by (simp add: slice_def file_data_def)
qed

lemma slice_add: "slice a (n + m) xs = slice a n xs @ slice (a + n) m xs"
  by (simp add: slice_def take_add drop_drop add.commute [of a n])

text \<open>Overwriting a part of one block of a sequence of blocks.\<close>

lemma put_slice_concat:
  assumes "\<And>x. x \<in> set xs \<Longrightarrow> length x = c" "k < length xs" "a + length d \<le> c"
  shows "concat (xs[k := put_slice a d (xs ! k)]) = put_slice (k * c + a) d (concat xs)"
  using assms
proof (induction xs arbitrary: k)
  case (Cons x xs)
  show ?case
  proof (cases k)
    case 0
    then show ?thesis using Cons.prems by (simp add: put_slice_def)
  next
    case (Suc m)
    have "put_slice (k * c + a) d (x @ concat xs) = x @ put_slice (m * c + a) d (concat xs)"
      using Cons.prems(1) [of x] Suc by (simp add: put_slice_def add.assoc)
    then show ?thesis using Cons.IH [of m] Cons.prems Suc by simp
  qed
qed simp

text \<open>The bytes of the file have changed to \<open>data\<close>, and nothing else.\<close>

definition rewritten :: "superblock \<Rightarrow> blocks \<Rightarrow> inode \<Rightarrow> blocks \<Rightarrow> bytes \<Rightarrow> bool" where
  "rewritten sb F i F' data \<longleftrightarrow> blocks_ok sb F' \<and> (\<forall>x. x \<notin> set (data_blocks F i) \<longrightarrow> F' x = F x) \<and> file_data F' i = data"

lemma rewritten_same:
  assumes v: "sb_validate sb = Inr ()" and f: "file_ok F sb i" and r: "\<forall>x. x \<notin> set (data_blocks F i) \<longrightarrow> F' x = F x"
  shows "data_blocks F' i = data_blocks F i" "inode_blocks F' i = inode_blocks F i" "file_ok F' sb i" "used F' sb b = used F sb b"
proof -
  have ind: "12 < count_of i \<Longrightarrow> F' (unat (ino_indirect_block i)) = F (unat (ino_indirect_block i))"
    using r indirect_range(4) [OF f] by simp
  then have ptr: "12 < count_of i \<Longrightarrow> pointers F' i = pointers F i" by (simp add: pointers_def)
  show db: "data_blocks F' i = data_blocks F i" using ind by (intro data_blocks_cong [OF f]) (cases "count_of i \<le> 12"; simp)
  then show ib: "inode_blocks F' i = inode_blocks F i" by (simp add: inode_blocks_def)
  show us: "used F' sb b = used F sb b" for b
    using r bitmap_area_below [OF v] data_block_range(1) [OF f] by (intro used_cong) blast
  show "file_ok F' sb i" using f ib us ptr by (auto simp: file_ok_def)
qed

lemma rewritten_block:
  assumes v: "sb_validate sb = Inr ()" and f: "file_ok F sb i" "blocks_ok sb F" and k: "k < count_of i" and a: "a + length d \<le> 4096"
  defines "b \<equiv> data_blocks F i ! k"
  shows "rewritten sb F i (F(b := put_slice a d (F b))) (put_slice (k * 4096 + a) d (file_data F i))"
proof -
  let ?bs = "data_blocks F i"
  define G where "G = F(b := put_slice a d (F b))"
  have kl: "k < length ?bs" using k length_data_blocks [OF f(1)] by simp
  then have b: "b \<in> set ?bs" by (simp add: b_def)
  have lb: "length (F b) = 4096" using f(2) data_block_range(2) [OF f(1) b] by (simp add: blocks_ok_def)
  have "distinct ?bs" using f(1) by (simp add: file_ok_def inode_blocks_def)
  then have m: "map G ?bs = (map F ?bs)[k := put_slice a d (map F ?bs ! k)]"
    using kl by (intro nth_equalityI) (auto simp: G_def b_def nth_list_update nth_eq_iff_index_eq)
  have len: "\<And>x. x \<in> set (map F ?bs) \<Longrightarrow> length x = 4096"
    using f(2) data_block_range(2) [OF f(1)] by (auto simp: blocks_ok_def)
  have "concat (map G ?bs) = put_slice (k * 4096 + a) d (concat (map F ?bs))"
    unfolding m using len kl a by (intro put_slice_concat) auto
  moreover have same: "\<forall>x. x \<notin> set ?bs \<longrightarrow> G x = F x" using b by (auto simp: G_def)
  moreover have "blocks_ok sb G" unfolding G_def using f(2) lb a by (intro blocks_ok_upd) simp_all
  ultimately show ?thesis using rewritten_same(1) [OF v f(1) same] unfolding G_def [symmetric] by (simp add: rewritten_def file_data_def)
qed

lemma rewritten_trans:
  assumes v: "sb_validate sb = Inr ()" and f: "file_ok F sb i" and "rewritten sb F i F1 x" "rewritten sb F1 i F2 y"
  shows "rewritten sb F i F2 y"
  using assms rewritten_same(1) [OF v f, of F1] by (simp add: rewritten_def)

text \<open>The position of a byte of a file.\<close>

lemma byte_position:
  fixes offset :: u64
  assumes "unat offset + k < 4096 * 524"
  shows "unat ((offset + of_nat k) div of_nat BLOCK_SIZE) = (unat offset + k) div 4096"
    "unat ((offset + of_nat k) mod of_nat BLOCK_SIZE) = (unat offset + k) mod 4096"
proof -
  have "unat (of_nat k :: u64) = k" using assms by (intro unat_of_nat_fits) simp
  then have "unat (offset + of_nat k) = unat offset + k" using assms by (subst unat_add_fits) simp_all
  then show "unat ((offset + of_nat k) div of_nat BLOCK_SIZE) = (unat offset + k) div 4096"
    "unat ((offset + of_nat k) mod of_nat BLOCK_SIZE) = (unat offset + k) mod 4096"
    by (simp_all add: unat_div unat_mod BLOCK_SIZE_def)
qed

context reliable_device
begin

lemma found_block_at:
  assumes "vol_good d0 sb" "file_ok F sb i" "unat k < count_of i"
    and "\<And>w. unat w = data_blocks F i ! unat k \<Longrightarrow> triple (vol_at d0 sb F) (h w) Q E"
  shows "triple (vol_at d0 sb F) (bind_act (data_block ops i k) (\<lambda>found. bind_act (lift_res (ok_or F_CorruptInode found)) h)) Q E"
  by (rule triple_bind_val [OF data_block_at [OF assms(1-3)]], elim exE conjE)
     (rule triple_bind_res, use assms(4) in auto)

lemma read_loop_at:
  assumes g: "vol_good d0 sb" and f: "file_ok F sb i" "blocks_ok sb F" and fits: "unat offset + len \<le> 4096 * count_of i"
    and "completed \<le> len" "len \<le> length out" "length block = 4096"
  shows "triple (vol_at d0 sb F) (read_data_loop ops i offset len completed block out)
    (\<lambda>r v. vol_at d0 sb F v \<and> r = (len, put_slice completed (slice (unat offset + completed) (len - completed) (file_data F i)) out)) E"
  using assms(5-)
proof (induction "len - completed" arbitrary: completed block out rule: less_induct)
  case less
  define pos where "pos = unat offset + completed"
  define k where "k = (offset + of_nat completed) div of_nat BLOCK_SIZE"
  define a where "a = unat ((offset + of_nat completed) mod of_nat BLOCK_SIZE)"
  define m where "m = min (BLOCK_SIZE - a) (len - completed)"
  have eq: "read_data_loop ops i offset len completed block out =
      (if completed < len then bind_act (data_block ops i k) (\<lambda>found. bind_act (lift_res (ok_or F_CorruptInode found)) (\<lambda>block_number.
        bind_act (vol_read_block ops block_number block) (\<lambda>block.
        read_data_loop ops i offset len (completed + m) block (put_slice completed (slice a m block) out))))
       else return_act (completed, out))"
    by (rule ext) (simp add: k_def a_def m_def Let_def)
  have c524: "count_of i \<le> 524" using f(1) by (simp add: file_ok_def)
  show ?case
  proof (cases "completed < len")
    case True
    have "pos < 4096 * 524" using fits c524 True by (simp add: pos_def)
    then have p: "unat k = pos div 4096" "a = pos mod 4096"
      using byte_position [of offset completed] by (simp_all add: k_def a_def pos_def)
    have kc: "unat k < count_of i" using fits True p(1) by (simp add: pos_def less_mult_imp_div_less mult.commute)
    have a: "a < 4096" using p(2) by simp
    then have m: "0 < m" "a + m \<le> 4096" "completed + m \<le> len" using True by (simp_all add: m_def BLOCK_SIZE_def)
    define b where "b = data_blocks F i ! unat k"
    have "b \<in> set (data_blocks F i)" using kc length_data_blocks [OF f(1)] by (simp add: b_def)
    then have bt: "b < total_of sb" by (rule data_block_range(2) [OF f(1)])
    have lb: "length (F b) = 4096" using bt f(2) by (simp add: blocks_ok_def)
    have part: "slice a m (F b) = slice pos m (file_data F i)"
      using slice_block [OF f kc m(2)] p by (simp add: b_def)
    have lp: "length (slice a m (F b)) = m" using m(2) lb by simp
    have whole: "put_slice (completed + m) (slice (unat offset + (completed + m)) (len - (completed + m)) (file_data F i))
        (put_slice completed (slice a m (F b)) out) =
        put_slice completed (slice pos (len - completed) (file_data F i)) out"
    proof -
      have "len - completed = m + (len - (completed + m))" using m(3) by simp
      then have "slice pos (len - completed) (file_data F i) =
          slice a m (F b) @ slice (unat offset + (completed + m)) (len - (completed + m)) (file_data F i)"
        using slice_add [of pos m "len - (completed + m)" "file_data F i"] part by (simp add: pos_def add.assoc)
      then show ?thesis using put_slice_append [of completed "slice a m (F b)" out] lp m(3) less.prems(2) by simp
    qed
    have "triple (vol_at d0 sb F) (read_data_loop ops i offset len (completed + m) (F b) (put_slice completed (slice a m (F b)) out))
      (\<lambda>r v. vol_at d0 sb F v \<and> r = (len, put_slice completed (slice pos (len - completed) (file_data F i)) out)) E"
      using less.hyps [of "completed + m" "put_slice completed (slice a m (F b)) out" "F b"] m True lb lp less.prems(2) whole by simp
    then show ?thesis
      unfolding eq pos_def [symmetric] using True bt less.prems(3)
      by (simp only: if_True, intro found_block_at [OF g f(1) kc] triple_bind_val [OF read_block_at [OF g]]) (simp_all add: b_def)
  next
    case False
    then show ?thesis unfolding eq using less.prems by (auto simp: put_slice_def intro!: triple_return_val)
  qed
qed

lemma read_inode_data_at:
  fixes offset :: u64 and out :: bytes
  assumes g: "vol_good d0 sb" and f: "file_ok F sb i" and fits: "unat (ino_size i) \<le> 4096 * count_of i"
  defines "len \<equiv> min (length out) (unat (ino_size i) - unat offset)"
  shows "triple (vol_at d0 sb F) (read_inode_data ops i offset out)
    (\<lambda>r v. vol_at d0 sb F v \<and> r = (len, put_slice 0 (slice (unat offset) len (file_data F i)) out)) E"
proof (rule triple_vol [OF g])
  assume ok: "blocks_ok sb F"
  show ?thesis
  proof (cases "ino_size i \<le> offset \<or> out = []")
    case True
    then have "len = 0" by (auto simp: len_def word_le_nat_alt)
    then show ?thesis using True by (auto simp: read_inode_data_def put_slice_def intro!: triple_return_val)
  next
    case False
    then have u: "unat (ino_size i - offset) = unat (ino_size i) - unat offset" "unat offset < unat (ino_size i)"
      by (simp_all add: unat_sub word_le_nat_alt)
    have "triple (vol_at d0 sb F) (read_data_loop ops i offset len 0 (replicate BLOCK_SIZE 0) out)
      (\<lambda>r v. vol_at d0 sb F v \<and> r = (len, put_slice 0 (slice (unat offset + 0) (len - 0) (file_data F i)) out)) E"
      using fits u(2) by (intro read_loop_at [OF g f ok]) (auto simp: len_def BLOCK_SIZE_def)
    then show ?thesis using False u(1) by (simp add: read_inode_data_def Let_def len_def)
  qed
qed

lemma write_loop_at:
  assumes g: "vol_good d0 sb" and "file_ok F sb i" and fits: "unat offset + length input \<le> 4096 * count_of i"
    and "completed \<le> length input" "length block = 4096"
  shows "triple (vol_at d0 sb F) (write_data_loop ops i offset input completed block)
    (\<lambda>_ v. \<exists>F'. vol_at d0 sb F' v \<and>
      rewritten sb F i F' (put_slice (unat offset + completed) (drop completed input) (file_data F i))) E"
  using assms(2,4-)
proof (induction "length input - completed" arbitrary: completed block F rule: less_induct)
  case (less completed block F)
  note v = vol_goodD(2) [OF g] and f = less.prems(1)
  define pos where "pos = unat offset + completed"
  define k where "k = (offset + of_nat completed) div of_nat BLOCK_SIZE"
  define a where "a = unat ((offset + of_nat completed) mod of_nat BLOCK_SIZE)"
  define m where "m = min (BLOCK_SIZE - a) (length input - completed)"
  have eq: "write_data_loop ops i offset input completed block =
      (if completed < length input then bind_act (data_block ops i k) (\<lambda>found. bind_act (lift_res (ok_or F_CorruptInode found)) (\<lambda>block_number.
        bind_act (if a \<noteq> 0 \<or> m \<noteq> BLOCK_SIZE then vol_read_block ops block_number block else return_act (replicate (length block) 0)) (\<lambda>block.
        bind_act (vol_write_block ops block_number (put_slice a (slice completed m input) block)) (\<lambda>_.
        write_data_loop ops i offset input (completed + m) (put_slice a (slice completed m input) block)))))
       else return_act ())"
    by (rule ext) (simp add: k_def a_def m_def Let_def)
  have c524: "count_of i \<le> 524" using f by (simp add: file_ok_def)
  let ?Q = "\<lambda>_ v. \<exists>F'. vol_at d0 sb F' v \<and> rewritten sb F i F' (put_slice pos (drop completed input) (file_data F i))"
  show ?case
  proof (rule triple_vol [OF g], cases "completed < length input")
    assume ok: "blocks_ok sb F"
    case True
    have "pos < 4096 * 524" using fits c524 True by (simp add: pos_def)
    then have p: "unat k = pos div 4096" "a = pos mod 4096"
      using byte_position [of offset completed] by (simp_all add: k_def a_def pos_def)
    have kc: "unat k < count_of i" using fits True p(1) by (simp add: pos_def less_mult_imp_div_less mult.commute)
    have a: "a < 4096" using p(2) by simp
    then have m: "0 < m" "a + m \<le> 4096" "completed + m \<le> length input" using True by (simp_all add: m_def BLOCK_SIZE_def)
    define b where "b = data_blocks F i ! unat k"
    have "b \<in> set (data_blocks F i)" using kc length_data_blocks [OF f] by (simp add: b_def)
    then have bt: "b < total_of sb" by (rule data_block_range(2) [OF f])
    have lb: "length (F b) = 4096" using bt ok by (simp add: blocks_ok_def)
    define d where "d = slice completed m input"
    have ld: "length d = m" using m by (simp add: d_def)
    define F1 where "F1 = F(b := put_slice a d (F b))"
    have r1: "rewritten sb F i F1 (put_slice pos d (file_data F i))"
      using rewritten_block [OF v f ok kc, of a d] m(2) ld p by (simp add: F1_def b_def)
    note f1 = rewritten_same(3) [OF v f, of F1]
    have rest: "triple (vol_at d0 sb F1) (write_data_loop ops i offset input (completed + m) (put_slice a d (F b))) ?Q E"
    proof (rule triple_post [OF less.hyps])
      show "length input - (completed + m) < length input - completed" "completed + m \<le> length input" using m True by simp_all
      show "file_ok F1 sb i" using r1 by (intro f1) (simp add: rewritten_def)
      show "length (put_slice a d (F b)) = 4096" using lb m(2) ld by simp
      fix x and s :: "'d nexfs"
      have fd: "file_data F1 i = put_slice pos d (file_data F i)" using r1 by (simp add: rewritten_def)
      have "drop completed input = d @ drop (completed + m) input"
        by (simp add: d_def slice_def drop_drop add.commute [of m completed, symmetric] append_take_drop_id del: drop_drop)
           (metis append_take_drop_id drop_drop add.commute)
      then have "put_slice (pos + m) (drop (completed + m) input) (file_data F1 i) = put_slice pos (drop completed input) (file_data F i)"
        using put_slice_append [of pos d "file_data F i" "drop (completed + m) input"] ld fits m(3) length_file_data [OF f ok]
        by (simp add: fd pos_def)
      then show "\<exists>F'. vol_at d0 sb F' s \<and> rewritten sb F1 i F' (put_slice (unat offset + (completed + m)) (drop (completed + m) input) (file_data F1 i)) \<Longrightarrow> ?Q x s"
        using rewritten_trans [OF v f r1] by (auto simp: pos_def add.assoc)
    qed
    have rd: "triple (vol_at d0 sb F) (if a \<noteq> 0 \<or> m \<noteq> BLOCK_SIZE then vol_read_block ops w block else return_act (replicate (length block) 0))
        (\<lambda>x v. vol_at d0 sb F v \<and> put_slice a d x = put_slice a d (F b) \<and> length x = 4096) E" if "unat w = b" for w
    proof (cases "a \<noteq> 0 \<or> m \<noteq> BLOCK_SIZE")
      case True
      then show ?thesis
        using triple_post [OF read_block_at [OF g, of w block F E]] that bt less.prems(3) lb by simp
    next
      case False
      then show ?thesis using ld lb less.prems(3) by (auto simp: put_slice_def BLOCK_SIZE_def intro!: triple_return_val)
    qed
    have wr: "triple (vol_at d0 sb F) (bind_act (if a \<noteq> 0 \<or> m \<noteq> BLOCK_SIZE then vol_read_block ops w block else return_act (replicate (length block) 0)) (\<lambda>block.
        bind_act (vol_write_block ops w (put_slice a d block)) (\<lambda>_.
        write_data_loop ops i offset input (completed + m) (put_slice a d block)))) ?Q E" if w: "unat w = b" for w
    proof (rule triple_bind_val [OF rd [OF w]], elim conjE)
      fix x assume x: "put_slice a d x = put_slice a d (F b)" "length x = 4096"
      have "triple (vol_at d0 sb F) (vol_write_block ops w (put_slice a d (F b))) (\<lambda>_. vol_at d0 sb F1) E"
        using write_block_at [OF g, of w "put_slice a d (F b)" F E] w bt lb m(2) ld by (simp add: F1_def)
      then show "triple (vol_at d0 sb F) (bind_act (vol_write_block ops w (put_slice a d x)) (\<lambda>_.
          write_data_loop ops i offset input (completed + m) (put_slice a d x))) ?Q E"
        unfolding x(1) by (rule triple_bind) (rule rest)
    qed
    show ?thesis
      unfolding eq d_def [symmetric] pos_def [symmetric] using True
      by (simp only: if_True, intro found_block_at [OF g f kc] wr) (simp add: b_def)
  next
    assume ok: "blocks_ok sb F"
    case False
    then have "rewritten sb F i F (put_slice pos (drop completed input) (file_data F i))"
      using ok by (simp add: rewritten_def put_slice_def)
    then show ?thesis unfolding eq pos_def [symmetric] using False by (auto intro!: triple_return_val)
  qed
qed

end

section \<open>Writing a file\<close>

definition pad :: "nat \<Rightarrow> bytes \<Rightarrow> bytes" where
  "pad n bs = bs @ replicate (n - length bs) 0"

definition blocks_for :: "nat \<Rightarrow> nat" where "blocks_for n = (n + 4095) div 4096"

text \<open>
  The file of \<open>i\<close> has got the free blocks \<open>N\<close> and its bytes are \<open>data\<close>; no block outside the file and
  the bitmap has changed.
\<close>

definition updated :: "superblock \<Rightarrow> blocks \<Rightarrow> inode \<Rightarrow> blocks \<Rightarrow> inode \<Rightarrow> nat set \<Rightarrow> bytes \<Rightarrow> bool" where
  "updated sb F i F' j N data \<longleftrightarrow> blocks_ok sb F' \<and> file_ok F' sb j \<and> same_meta i j \<and> file_data F' j = data \<and>
    extends i j \<and> (\<exists>new. data_blocks F' j = data_blocks F i @ new) \<and>
    set (inode_blocks F' j) = set (inode_blocks F i) \<union> N \<and>
    (\<forall>b \<in> N. data_of sb \<le> b \<and> b < total_of sb \<and> \<not> used F sb b) \<and>
    (\<forall>k < total_of sb. used F' sb k \<longleftrightarrow> used F sb k \<or> k \<in> N) \<and>
    (\<forall>x. x \<notin> bitmap_area sb \<and> x \<notin> set (inode_blocks F i) \<and> x \<notin> N \<longrightarrow> F' x = F x)"

lemma updated_refl: "blocks_ok sb F \<Longrightarrow> file_ok F sb i \<Longrightarrow> updated sb F i F i {} (file_data F i)"
  by (simp add: updated_def same_meta_def extends_def file_ok_def)

lemma updated_trans:
  assumes "updated sb F i F1 j N1 x" "updated sb F1 j F2 k N2 y"
  shows "updated sb F i F2 k (N1 \<union> N2) y"
  using assms extends_trans [of i j k] unfolding updated_def same_meta_def by auto

lemma grown_updated:
  assumes v: "sb_validate sb = Inr ()" and f: "file_ok F sb i" and g: "grown sb F i F' j N"
  shows "updated sb F i F' j N (file_data F i @ replicate (4096 * (count_of j - count_of i)) 0)"
  using g file_data_grown [OF v g f] by (auto simp: updated_def grown_def taken_def inode_blocks_def)

lemma rewritten_updated:
  assumes v: "sb_validate sb = Inr ()" and f: "file_ok F sb i" and r: "rewritten sb F i F' data"
  shows "updated sb F i F' i {} data"
proof -
  have "\<forall>x. x \<notin> set (data_blocks F i) \<longrightarrow> F' x = F x" using r by (simp add: rewritten_def)
  note s = rewritten_same [OF v f this]
  have "extends i i" using f by (simp add: extends_def file_ok_def)
  then show ?thesis using r s by (auto simp: updated_def rewritten_def same_meta_def inode_blocks_def)
qed

lemma updated_space: "file_ok F sb i \<Longrightarrow> updated sb F i F' j N data \<Longrightarrow> too_few sb F' j c = too_few sb F i c"
  by (rule space_balance) (auto simp: updated_def)

lemma updated_taken:
  assumes "updated sb F i F1 j N x" "taken sb F1 j F' N'"
  shows "blocks_ok sb F'" "\<forall>b \<in> N \<union> N'. data_of sb \<le> b \<and> b < total_of sb \<and> \<not> used F sb b"
    "\<forall>k < total_of sb. used F' sb k \<longleftrightarrow> used F sb k \<or> k \<in> N \<union> N'"
    "\<forall>x. x \<notin> bitmap_area sb \<and> x \<notin> set (inode_blocks F i) \<and> x \<notin> N \<union> N' \<longrightarrow> F' x = F x"
proof -
  have ind: "set (indirect_blocks j) \<subseteq> set (inode_blocks F i) \<union> N"
    using assms(1) by (auto simp: updated_def inode_blocks_def)
  show "blocks_ok sb F'" using assms(2) by (simp add: taken_def)
  show "\<forall>b \<in> N \<union> N'. data_of sb \<le> b \<and> b < total_of sb \<and> \<not> used F sb b"
    "\<forall>k < total_of sb. used F' sb k \<longleftrightarrow> used F sb k \<or> k \<in> N \<union> N'"
    using assms by (auto simp: updated_def taken_def)
  show "\<forall>x. x \<notin> bitmap_area sb \<and> x \<notin> set (inode_blocks F i) \<and> x \<notin> N \<union> N' \<longrightarrow> F' x = F x"
    using assms ind by (auto simp: updated_def taken_def)
qed

text \<open>
  What is left when the space runs out: every free block is in use, and the contents of the blocks that
  were in use before are those of the file and the bitmap at most.
\<close>

definition exhausted :: "superblock \<Rightarrow> blocks \<Rightarrow> inode \<Rightarrow> blocks \<Rightarrow> bool" where
  "exhausted sb F i F' \<longleftrightarrow> blocks_ok sb F' \<and> full F' sb \<and>
    (\<forall>x < total_of sb. x \<notin> bitmap_area sb \<and> x \<notin> set (inode_blocks F i) \<and> (x < data_of sb \<or> used F sb x) \<longrightarrow> F' x = F x)"

lemma taken_exhausted:
  assumes "updated sb F i F1 j N x" "taken sb F1 j F' N'" "full F' sb"
  shows "exhausted sb F i F'"
  unfolding exhausted_def
proof (intro conjI allI impI)
  note t = updated_taken [OF assms(1,2)]
  show "blocks_ok sb F'" "full F' sb" using t(1) assms(3) by simp_all
  fix y assume "y < total_of sb" "y \<notin> bitmap_area sb \<and> y \<notin> set (inode_blocks F i) \<and> (y < data_of sb \<or> used F sb y)"
  moreover from this have "y \<notin> N \<union> N'" using t(2) by (meson leD)
  ultimately show "F' y = F y" using t(4) by blast
qed

lemma updated_exhausted:
  assumes "updated sb F i F1 j N x" "exhausted sb F1 j F'"
  shows "exhausted sb F i F'"
  unfolding exhausted_def
proof (intro conjI allI impI)
  show "blocks_ok sb F'" "full F' sb" using assms(2) by (simp_all add: exhausted_def)
  fix y assume t: "y < total_of sb"
    and y: "y \<notin> bitmap_area sb \<and> y \<notin> set (inode_blocks F i) \<and> (y < data_of sb \<or> used F sb y)"
  then have N: "y \<notin> N" using assms(1) by (auto simp: updated_def)
  then have "F1 y = F y" "y \<notin> set (inode_blocks F1 j)" "y < data_of sb \<or> used F1 sb y"
    using y t assms(1) by (auto simp: updated_def)
  then show "F' y = F y" using assms(2) t y by (simp add: exhausted_def)
qed

lemma updated_kept:
  assumes "file_ok F sb i" "updated sb F i F1 j N x" "data_blocks F' j = data_blocks F1 j"
  shows "data_blocks F' i = data_blocks F i"
proof -
  obtain new where "data_blocks F1 j = data_blocks F i @ new" "extends i j" using assms(2) by (auto simp: updated_def)
  then show ?thesis using assms(3) extends_blocks [of i j F'] length_data_blocks [OF assms(1)] by simp
qed

context reliable_device
begin

definition no_space :: "'d \<Rightarrow> superblock \<Rightarrow> blocks \<Rightarrow> inode \<Rightarrow> nat \<Rightarrow> fs_error \<Rightarrow> 'd nexfs \<Rightarrow> bool" where
  "no_space d0 sb F i c e v \<longleftrightarrow> e = F_NoSpace \<and> too_few sb F i c \<and>
    (\<exists>F'. vol_at d0 sb F' v \<and> exhausted sb F i F' \<and> data_blocks F' i = data_blocks F i)"

lemma no_space_mono: "c \<le> d \<Longrightarrow> no_space d0 sb F i c e s \<Longrightarrow> no_space d0 sb F i d e s"
  using file_blocks_mono(1) [of c d] by (auto simp: no_space_def too_few_def)

lemma no_space_self: "\<not> no_space d0 sb F i (count_of i) e s"
  by (simp add: no_space_def too_few_def)

lemma out_of_space_no_space:
  assumes f: "file_ok F sb i" and "updated sb F i F1 j N x" "out_of_space d0 sb F1 j c e v"
  shows "no_space d0 sb F i c e v"
proof -
  have "too_few sb F i c" using assms(3) updated_space [OF assms(1,2)] by (simp add: out_of_space_def)
  moreover obtain F' N' where o: "e = F_NoSpace" "vol_at d0 sb F' v" "taken sb F1 j F' N'" "full F' sb" "data_blocks F' j = data_blocks F1 j"
    using assms(3) by (auto simp: out_of_space_def)
  ultimately show ?thesis
    unfolding no_space_def using taken_exhausted [OF assms(2)] updated_kept [OF f assms(2) o(5)] by blast
qed

lemma no_space_trans:
  assumes "file_ok F sb i" "updated sb F i F1 j N x" "no_space d0 sb F1 j c e v"
  shows "no_space d0 sb F i c e v"
  using assms(3) updated_exhausted [OF assms(2)] updated_space [OF assms(1,2)] updated_kept [OF assms(1,2)]
  unfolding no_space_def by blast

lemma ensure_blocks_at:
  assumes g: "vol_good d0 sb" and f: "file_ok F sb i" and c: "unat count \<le> 524"
  shows "triple (vol_at d0 sb F) (ensure_data_blocks ops i count)
    (\<lambda>j v. \<exists>F'. vol_at d0 sb F' v \<and> (\<exists>N. updated sb F i F' j N (pad (4096 * unat count) (file_data F i))) \<and>
      count_of j = max (count_of i) (unat count)) (no_space d0 sb F i (unat count))"
proof (rule triple_vol [OF g])
  assume ok: "blocks_ok sb F"
  have "updated sb F i F' j N (pad (4096 * unat count) (file_data F i))"
    if "grown sb F i F' j N" "count_of j = max (count_of i) (unat count)" for F' j N
  proof -
    have "4096 * (count_of j - count_of i) = 4096 * unat count - length (file_data F i)"
      using that(2) length_file_data [OF f ok] by (simp add: diff_mult_distrib2 max_def)
    then show ?thesis using grown_updated [OF vol_goodD(2) [OF g] f that(1)] by (simp add: pad_def)
  qed
  then show ?thesis
    using out_of_space_no_space [OF f updated_refl [OF ok f]]
    by (intro triple_conseq [OF ensure_data_blocks_at [OF assms]]) blast+
qed

lemma write_inode_data_at:
  assumes g: "vol_good d0 sb" and f: "file_ok F sb i" and fits: "unat offset + length input \<le> 4096 * 524" and ne: "input \<noteq> []"
  defines "n \<equiv> blocks_for (unat offset + length input)"
  shows "triple (vol_at d0 sb F) (write_inode_data ops i offset input)
    (\<lambda>j v. \<exists>F'. vol_at d0 sb F' v \<and> (\<exists>N. updated sb F i F' j N (put_slice (unat offset) input (pad (4096 * n) (file_data F i)))) \<and>
      count_of j = max (count_of i) n) (no_space d0 sb F i n)"
proof -
  note v = vol_goodD(2) [OF g]
  define stop where "stop = offset + of_nat (length input)"
  have ul: "unat (of_nat (length input) :: u64) = length input" using fits by (intro unat_of_nat_fits) simp
  then have us: "unat stop = unat offset + length input" using fits unfolding stop_def by (subst unat_add_fits) simp_all
  have add: "checked_add offset (of_nat (length input)) = Some stop"
    using ul fits by (simp add: checked_add_def stop_def)
  have cn: "unat (data_blocks_for_size stop) = n" by (simp add: unat_data_blocks us n_def blocks_for_def)
  have n524: "n \<le> 524" using fits by (simp add: n_def blocks_for_def)
  have sup: "ensure_file_size_supported stop = Inr ()"
    using cn n524 by (simp add: ensure_file_size_supported_def word_less_nat_alt nexfs_consts)
  have le: "unat offset + length input \<le> 4096 * n" by (simp add: n_def blocks_for_def)
  note ens = ensure_blocks_at [OF g f, of "data_blocks_for_size stop", unfolded cn, OF n524]
  have "triple (vol_at d0 sb F) (bind_act (ensure_data_blocks ops i (data_blocks_for_size stop)) (\<lambda>i.
      bind_act (write_data_loop ops i offset input 0 (replicate BLOCK_SIZE 0)) (\<lambda>_. return_act i)))
    (\<lambda>j v. \<exists>F'. vol_at d0 sb F' v \<and> (\<exists>N. updated sb F i F' j N (put_slice (unat offset) input (pad (4096 * n) (file_data F i)))) \<and>
      count_of j = max (count_of i) n) (no_space d0 sb F i n)"
  proof (rule triple_bind_ex [OF ens], goal_cases)
    case (1 j F1)
    then obtain N where u: "updated sb F i F1 j N (pad (4096 * n) (file_data F i))" "count_of j = max (count_of i) n"
      using cn by auto
    have f1: "file_ok F1 sb j" and d1: "file_data F1 j = pad (4096 * n) (file_data F i)" using u(1) by (simp_all add: updated_def)
    have "updated sb F i F2 j N (put_slice (unat offset) input (pad (4096 * n) (file_data F i)))"
      if "rewritten sb F1 j F2 (put_slice (unat offset + 0) (drop 0 input) (file_data F1 j))" for F2
      using updated_trans [OF u(1) rewritten_updated [OF v f1 that]] d1 by simp
    then show ?case
      using u(2) le by (intro triple_bind_ex [OF write_loop_at [OF g f1]] triple_return_val) (auto simp: BLOCK_SIZE_def)
  qed
  then show ?thesis
    using ne unfolding write_inode_data_def by (simp add: add sup triple_bind_res)
qed

lemma zero_loop_at:
  assumes g: "vol_good d0 sb" and "file_ok F sb i" and "unat offset + unat len \<le> 4096 * count_of i" and "completed \<le> unat len"
  shows "triple (vol_at d0 sb F) (zero_range_loop ops offset len completed i)
    (\<lambda>j v. \<exists>F'. vol_at d0 sb F' v \<and>
      (\<exists>N. updated sb F i F' j N (put_slice (unat offset + completed) (replicate (unat len - completed) 0) (file_data F i))) \<and>
      count_of j = count_of i) (no_space d0 sb F i (count_of i))"
  using assms(2-)
proof (induction "unat len - completed" arbitrary: completed i F rule: less_induct)
  case (less completed i F)
  note f = less.prems(1)
  define m where "m = min (unat len - completed) BLOCK_SIZE"
  let ?o = "offset + of_nat completed"
  let ?Q = "\<lambda>j v. \<exists>F'. vol_at d0 sb F' v \<and>
      (\<exists>N. updated sb F i F' j N (put_slice (unat offset + completed) (replicate (unat len - completed) 0) (file_data F i))) \<and>
      count_of j = count_of i"
  have eq: "zero_range_loop ops offset len completed i =
      (if completed < unat len then bind_act (write_inode_data ops i ?o (replicate m 0)) (zero_range_loop ops offset len (completed + m))
       else return_act i)"
    by (rule ext) (simp add: m_def Let_def)
  have c524: "count_of i \<le> 524" using f by (simp add: file_ok_def)
  show ?case
  proof (rule triple_vol [OF g], cases "completed < unat len")
    assume ok: "blocks_ok sb F"
    case True
    then have m: "0 < m" "completed + m \<le> unat len" by (simp_all add: m_def BLOCK_SIZE_def)
    have uc: "unat (of_nat completed :: u64) = completed" using unat_in_range [OF True] .
    have uo: "unat ?o = unat offset + completed" using less.prems(2) c524 True uc by (subst unat_add_fits) simp_all
    have lenD: "length (file_data F i) = 4096 * count_of i" by (rule length_file_data [OF f ok])
    define n where "n = blocks_for (unat ?o + length (replicate m (0 :: u8)))"
    have n: "n \<le> count_of i" using less.prems(2) m uo by (simp add: n_def blocks_for_def)
    then have pad: "pad (4096 * n) (file_data F i) = file_data F i" using lenD by (simp add: pad_def)
    have "triple (vol_at d0 sb F) (write_inode_data ops i ?o (replicate m 0))
      (\<lambda>j v. \<exists>F'. vol_at d0 sb F' v \<and> (\<exists>N. updated sb F i F' j N (put_slice (unat ?o) (replicate m 0) (file_data F i))) \<and>
        count_of j = count_of i) (no_space d0 sb F i n)"
      using write_inode_data_at [OF g f, of ?o "replicate m 0", folded n_def] uo less.prems(2) c524 m pad n by simp
    then have w: "triple (vol_at d0 sb F) (write_inode_data ops i ?o (replicate m 0))
      (\<lambda>j v. \<exists>F'. vol_at d0 sb F' v \<and> (\<exists>N. updated sb F i F' j N (put_slice (unat ?o) (replicate m 0) (file_data F i))) \<and>
        count_of j = count_of i) (no_space d0 sb F i (count_of i))"
      by (rule triple_conseq) (use no_space_mono [OF n] in auto)
    have "triple (vol_at d0 sb F) (bind_act (write_inode_data ops i ?o (replicate m 0)) (zero_range_loop ops offset len (completed + m))) ?Q (no_space d0 sb F i (count_of i))"
    proof (rule triple_bind_ex [OF w], elim conjE exE)
      fix j F1 N assume u: "updated sb F i F1 j N (put_slice (unat ?o) (replicate m 0) (file_data F i))" and cj: "count_of j = count_of i"
      have f1: "file_ok F1 sb j" and d1: "file_data F1 j = put_slice (unat ?o) (replicate m 0) (file_data F i)"
        using u by (simp_all add: updated_def)
      have "unat len - completed = m + (unat len - (completed + m))" using m(2) by simp
      then have rep: "replicate (unat len - completed) 0 = replicate m (0 :: u8) @ replicate (unat len - (completed + m)) 0"
        by (metis replicate_add)
      have whole: "put_slice (unat offset + (completed + m)) (replicate (unat len - (completed + m)) 0) (file_data F1 j) =
          put_slice (unat offset + completed) (replicate (unat len - completed) 0) (file_data F i)"
        unfolding d1 uo rep using put_slice_append [of "unat offset + completed" "replicate m (0 :: u8)" "file_data F i"] less.prems(2) m(2) lenD
        by (simp add: add.assoc)
      show "triple (vol_at d0 sb F1) (zero_range_loop ops offset len (completed + m) j) ?Q (no_space d0 sb F i (count_of i))"
      proof (rule triple_conseq [OF less.hyps [OF _ f1]])
        show "unat len - (completed + m) < unat len - completed" "completed + m \<le> unat len" using m True by simp_all
        show "unat offset + unat len \<le> 4096 * count_of j" using less.prems(2) cj by simp
      next
        fix x and s :: "'d nexfs"
        assume "\<exists>F'. vol_at d0 sb F' s \<and> (\<exists>N. updated sb F1 j F' x N (put_slice (unat offset + (completed + m))
            (replicate (unat len - (completed + m)) 0) (file_data F1 j))) \<and> count_of x = count_of j"
        then show "?Q x s" unfolding whole using updated_trans [OF u] cj by fastforce
      next
        fix e and s :: "'d nexfs" assume "no_space d0 sb F1 j (count_of j) e s"
        then show "no_space d0 sb F i (count_of i) e s" unfolding cj by (rule no_space_trans [OF f u])
      qed
    qed
    then show ?thesis unfolding eq using True by simp
  next
    assume ok: "blocks_ok sb F"
    case False
    then have "unat len - completed = 0" by simp
    then have same: "put_slice (unat offset + completed) (replicate (unat len - completed) 0) (file_data F i) = file_data F i"
      by (simp add: put_slice_def)
    show ?thesis unfolding eq same using False updated_refl [OF ok f] by (auto intro!: triple_return_val)
  qed
qed

lemma zero_range_at:
  assumes g: "vol_good d0 sb" and f: "file_ok F sb i" and fits: "unat offset + unat len \<le> 4096 * 524" and ne: "len \<noteq> 0"
  defines "n \<equiv> blocks_for (unat offset + unat len)"
  shows "triple (vol_at d0 sb F) (zero_range ops i offset len)
    (\<lambda>j v. \<exists>F'. vol_at d0 sb F' v \<and>
      (\<exists>N. updated sb F i F' j N (put_slice (unat offset) (replicate (unat len) 0) (pad (4096 * n) (file_data F i)))) \<and>
      count_of j = max (count_of i) n) (no_space d0 sb F i n)"
proof -
  have us: "unat (offset + len) = unat offset + unat len" using fits by (subst unat_add_fits) simp_all
  have add: "checked_add offset len = Some (offset + len)" using fits by (simp add: checked_add_def)
  have cn: "unat (data_blocks_for_size (offset + len)) = n" by (simp add: unat_data_blocks us n_def blocks_for_def)
  have n524: "n \<le> 524" using fits by (simp add: n_def blocks_for_def)
  have sup: "ensure_file_size_supported (offset + len) = Inr ()"
    using cn n524 by (simp add: ensure_file_size_supported_def word_less_nat_alt nexfs_consts)
  have le: "unat offset + unat len \<le> 4096 * n" by (simp add: n_def blocks_for_def)
  note ens = ensure_blocks_at [OF g f, of "data_blocks_for_size (offset + len)", unfolded cn, OF n524]
  have "triple (vol_at d0 sb F) (bind_act (ensure_data_blocks ops i (data_blocks_for_size (offset + len))) (zero_range_loop ops offset len 0))
    (\<lambda>j v. \<exists>F'. vol_at d0 sb F' v \<and>
      (\<exists>N. updated sb F i F' j N (put_slice (unat offset) (replicate (unat len) 0) (pad (4096 * n) (file_data F i)))) \<and>
      count_of j = max (count_of i) n) (no_space d0 sb F i n)"
  proof (rule triple_bind_ex [OF ens], goal_cases)
    case (1 j F1)
    then obtain N where u: "updated sb F i F1 j N (pad (4096 * n) (file_data F i))" "count_of j = max (count_of i) n"
      using cn by auto
    have f1: "file_ok F1 sb j" and d1: "file_data F1 j = pad (4096 * n) (file_data F i)" using u(1) by (simp_all add: updated_def)
    have fits1: "unat offset + unat len \<le> 4096 * count_of j" using le u(2) by simp
    show ?case
      by (rule triple_conseq [OF zero_loop_at [OF g f1 fits1, of 0]])
         (use u(2) d1 updated_trans [OF u(1)] no_space_self [of d0 sb F1 j] in \<open>simp, simp, auto, blast\<close>)
  qed
  then show ?thesis
    using ne unfolding zero_range_def by (simp add: add sup triple_bind_res)
qed

end

end
