(* ===== verification/Nexfs_Paths.thy ===== *)
theory Nexfs_Paths
  imports Nexfs_Files
begin

text \<open>
  Reading a consistent volume: the inodes and directories that the operations read are those of the
  blocks, and a path is resolved to the inode that the directories name.
\<close>

section \<open>The superblock of a mounted volume\<close>

text \<open>The generation and the flags of the superblock do not matter for what the blocks mean.\<close>

lemma geometry_generation [simp]:
  "total_of (sb\<lparr>sb_generation := t\<rparr>) = total_of sb" "table_of (sb\<lparr>sb_generation := t\<rparr>) = table_of sb"
  "data_of (sb\<lparr>sb_generation := t\<rparr>) = data_of sb" "inodes_of (sb\<lparr>sb_generation := t\<rparr>) = inodes_of sb"
  "bitmap_blocks (sb\<lparr>sb_generation := t\<rparr>) = bitmap_blocks sb" "bitmap_area (sb\<lparr>sb_generation := t\<rparr>) = bitmap_area sb"
  "total_of (sb\<lparr>sb_flags := w\<rparr>) = total_of sb" "table_of (sb\<lparr>sb_flags := w\<rparr>) = table_of sb"
  "data_of (sb\<lparr>sb_flags := w\<rparr>) = data_of sb" "inodes_of (sb\<lparr>sb_flags := w\<rparr>) = inodes_of sb"
  "bitmap_blocks (sb\<lparr>sb_flags := w\<rparr>) = bitmap_blocks sb" "bitmap_area (sb\<lparr>sb_flags := w\<rparr>) = bitmap_area sb"
  by (simp_all add: geometry_defs bitmap_blocks_def bitmap_area_def)

lemma blocks_generation [simp]:
  "block_bitmap F (sb\<lparr>sb_generation := t\<rparr>) = block_bitmap F sb" "inode_at F (sb\<lparr>sb_generation := t\<rparr>) n = inode_at F sb n"
  "blocks_ok (sb\<lparr>sb_generation := t\<rparr>) F = blocks_ok sb F" "used F (sb\<lparr>sb_generation := t\<rparr>) b = used F sb b"
  "block_bitmap F (sb\<lparr>sb_flags := w\<rparr>) = block_bitmap F sb" "inode_at F (sb\<lparr>sb_flags := w\<rparr>) n = inode_at F sb n"
  "blocks_ok (sb\<lparr>sb_flags := w\<rparr>) F = blocks_ok sb F" "used F (sb\<lparr>sb_flags := w\<rparr>) b = used F sb b"
  by (simp_all add: block_bitmap_def inode_at_def blocks_ok_def used_def)

lemma node_generation [simp]:
  "node F (sb\<lparr>sb_generation := t\<rparr>) n = node F sb n" "node F (sb\<lparr>sb_flags := w\<rparr>) n = node F sb n"
  by (simp_all add: node_def)

lemma owned_generation [simp]:
  "owned_by F (sb\<lparr>sb_generation := t\<rparr>) n = owned_by F sb n" "owned_by F (sb\<lparr>sb_flags := w\<rparr>) n = owned_by F sb n"
  "children F (sb\<lparr>sb_generation := t\<rparr>) n = children F sb n" "children F (sb\<lparr>sb_flags := w\<rparr>) n = children F sb n"
  by (simp_all add: owned_by_def children_def)

lemma consistent_generation [simp]:
  "fs_consistent F (sb\<lparr>sb_generation := t\<rparr>) = fs_consistent F sb" "fs_consistent F (sb\<lparr>sb_flags := w\<rparr>) = fs_consistent F sb"
  by (simp_all add: fs_consistent_def inode_valid_def is_directory_def directory_sound_def entry_sound_def child_rel_def)

lemma sb_ok_generation [simp]:
  "sb_ok (sb\<lparr>sb_generation := t\<rparr>) = sb_ok sb" "sb_ok (sb\<lparr>sb_flags := w\<rparr>) = sb_ok sb"
  by (simp_all add: sb_ok_def)

section \<open>The inodes of a consistent volume\<close>

text \<open>The part of the consistency that concerns the blocks and not the directory tree.\<close>

definition storage_ok :: "blocks \<Rightarrow> superblock \<Rightarrow> bool" where
  "storage_ok F sb \<longleftrightarrow>
    (\<forall>n. 1 \<le> n \<and> n < inodes_of sb \<and> bm_bit (F 2) n \<longrightarrow> (\<exists>i. node F sb n = Some i \<and> inode_valid F sb i)) \<and>
    (\<forall>m n. m \<noteq> n \<longrightarrow> owned_by F sb m \<inter> owned_by F sb n = {}) \<and>
    (\<forall>b < total_of sb. bm_bit (block_bitmap F sb) b \<longleftrightarrow> b < data_of sb \<or> (\<exists>n. b \<in> owned_by F sb n))"

lemma consistent_storage: "fs_consistent F sb \<Longrightarrow> storage_ok F sb"
  by (simp add: fs_consistent_def storage_ok_def)

lemma storage_generation [simp]:
  "storage_ok F (sb\<lparr>sb_generation := t\<rparr>) = storage_ok F sb" "storage_ok F (sb\<lparr>sb_flags := w\<rparr>) = storage_ok F sb"
  by (simp_all add: storage_ok_def inode_valid_def)

lemma consistent_node:
  assumes c: "storage_ok F sb" and n: "node F sb n = Some i"
  shows "inode_valid F sb i" "set (inode_blocks F i) = owned_by F sb n"
    "1 \<le> n" "n < inodes_of sb" "bm_bit (F 2) n" "inode_at F sb n = Inr i"
proof -
  show nd: "1 \<le> n" "n < inodes_of sb" "bm_bit (F 2) n" "inode_at F sb n = Inr i"
    using n by (auto simp: node_def split: if_splits sum.splits)
  show "set (inode_blocks F i) = owned_by F sb n" using n by (simp add: owned_by_def)
  have "\<exists>i. node F sb n = Some i \<and> inode_valid F sb i" using c nd unfolding storage_ok_def by blast
  then show "inode_valid F sb i" using n by simp
qed

lemma consistent_used:
  "storage_ok F sb \<Longrightarrow> b < total_of sb \<Longrightarrow> used F sb b \<longleftrightarrow> b < data_of sb \<or> (\<exists>n. b \<in> owned_by F sb n)"
  by (simp add: storage_ok_def used_def)

lemma consistent_disjoint: "storage_ok F sb \<Longrightarrow> m \<noteq> n \<Longrightarrow> owned_by F sb m \<inter> owned_by F sb n = {}"
  by (simp add: storage_ok_def)

lemma consistent_file:
  assumes c: "storage_ok F sb" and n: "node F sb n = Some i"
  shows "file_ok F sb i" "unat (ino_size i) \<le> 4096 * count_of i" "count_of i = blocks_for (unat (ino_size i))"
proof -
  note iv = consistent_node(1) [OF c n, unfolded inode_valid_def]
  show cnt: "count_of i = blocks_for (unat (ino_size i))" using iv by (simp add: count_of_def blocks_for_def)
  then show "unat (ino_size i) \<le> 4096 * count_of i" by (simp add: blocks_for_def)
  have "used F sb b" if "b \<in> set (inode_blocks F i)" for b
    using that iv consistent_used [OF c] consistent_node(2) [OF c n] by blast
  then show "file_ok F sb i" using iv by (auto simp: file_ok_def count_of_def)
qed

lemma owned_data:
  assumes c: "storage_ok F sb" and b: "b \<in> owned_by F sb n"
  shows "data_of sb \<le> b \<and> b < total_of sb"
proof -
  obtain i where n: "node F sb n = Some i" using b by (auto simp: owned_by_def split: option.splits)
  then have "b \<in> set (inode_blocks F i)" using b by (simp add: owned_by_def)
  then show ?thesis using consistent_node(1) [OF c n] by (simp add: inode_valid_def)
qed

lemma contents_data: "inode_contents F i = take (unat (ino_size i)) (file_data F i)"
  by (simp add: inode_contents_def file_data_def)

lemma length_contents:
  "storage_ok F sb \<Longrightarrow> blocks_ok sb F \<Longrightarrow> node F sb n = Some i \<Longrightarrow> length (inode_contents F i) = unat (ino_size i)"
  using consistent_file [of F sb n i] length_file_data [of F sb i] by (simp add: contents_data)

section \<open>Directories\<close>

lemma map_res_nth: "map_res f xs = Inr ys \<Longrightarrow> length ys = length xs \<and> (\<forall>k < length xs. f (xs ! k) = Inr (ys ! k))"
  by (simp add: map_res_Inr_iff list_all2_conv_all_nth)

context reliable_device
begin

lemma read_directory_at:
  assumes g: "vol_good d0 sb" and c: "storage_ok F sb" and n: "node F sb n = Some i" and kind: "ino_kind i = Directory"
    and es: "inode_entries F i = Inr es"
  shows "triple (vol_at d0 sb F) (read_directory ops i) (\<lambda>x v. vol_at d0 sb F v \<and> x = es) E"
proof (rule triple_vol [OF g])
  assume ok: "blocks_ok sb F"
  note f = consistent_file [OF c n]
  let ?s = "unat (ino_size i)"
  define k where "k = ?s div 256"
  have mod: "?s mod 256 = 0" using consistent_node(1) [OF c n] kind by (simp add: inode_valid_def)
  then have s: "?s = k * 256" unfolding k_def by (metis add_0_right div_mult_mod_eq)
  have len: "length (inode_contents F i) = ?s" by (rule length_contents [OF c ok n])
  have dec: "length es = k" "\<And>j. j < k \<Longrightarrow> de_decode (slice (j * 256) 256 (inode_contents F i)) = Inr (es ! j)"
    using map_res_nth [OF es [unfolded inode_entries_def]] len
    by (auto simp: entry_chunks_def DIR_ENTRY_SIZE_def k_def)
  have chunk: "slice (j * 256) 256 (file_data F i) = slice (j * 256) 256 (inode_contents F i)" if "j < k" for j
  proof -
    have "j * 256 + 256 \<le> ?s" using that s by simp
    then show ?thesis by (simp add: contents_data slice_def take_drop min_def)
  qed
  define I where "I = (\<lambda>j s v. vol_at d0 sb F v \<and> fst s = take j es \<and> length (snd s :: bytes) = 256)"
  have "triple (I 0 ([], replicate DIR_ENTRY_SIZE 0)) (fold_act (read_entry ops i) [0..<k] ([], replicate DIR_ENTRY_SIZE 0)) (I (length [0..<k])) E"
  proof (rule triple_fold)
    fix j and b :: "directory_entry list \<times> bytes" assume "j < length [0..<k]"
    then have j: "j < k" by simp
    obtain entries buf where b: "b = (entries, buf)" by (cases b)
    have "j * 256 < k * 256" using j by simp
    then have uo: "unat (of_nat (j * DIR_ENTRY_SIZE) :: u64) = j * 256"
      using s unat_bound [of "ino_size i"] unfolding DIR_ENTRY_SIZE_def by (intro unat_of_nat_fits) simp
    have "triple (vol_at d0 sb F) (read_entry ops i j (take j es, buf)) (\<lambda>s v. I (Suc j) s v) E" if lb: "length buf = 256"
    proof -
      have m: "min (length buf) (?s - j * 256) = 256"
        using lb s j by (simp add: diff_mult_distrib [symmetric])
      have whole: "put_slice 0 (slice (j * 256) 256 (file_data F i)) buf = slice (j * 256) 256 (inode_contents F i)"
        using lb chunk [OF j] len s j by (simp add: put_slice_def)
      have r: "triple (vol_at d0 sb F) (read_inode_data ops i (of_nat (j * DIR_ENTRY_SIZE)) buf)
          (\<lambda>r v. vol_at d0 sb F v \<and> r = (256, slice (j * 256) 256 (inode_contents F i))) E"
        using read_inode_data_at [OF g f(1,2), of "of_nat (j * DIR_ENTRY_SIZE)" buf E] unfolding uo m whole .
      have "take j es @ [es ! j] = take (Suc j) es" using j dec(1) by (simp add: take_Suc_conv_app_nth)
      moreover have "length (slice (j * 256) 256 (inode_contents F i)) = 256" using len s j by simp
      ultimately show ?thesis
        unfolding read_entry_def Let_def prod.case
        by (intro triple_bind_val [OF r])
           (auto simp: DIR_ENTRY_SIZE_def I_def dec(2) [OF j] intro!: triple_bind_res triple_return_val)
    qed
    then show "triple (I j b) (read_entry ops i ([0..<k] ! j) b) (I (Suc j)) E"
      using j b by (auto simp: I_def triple_def)
  qed
  then have "triple (vol_at d0 sb F) (fold_act (read_entry ops i) [0..<k] ([], replicate DIR_ENTRY_SIZE 0)) (I (length [0..<k])) E"
    by (rule triple_pre) (simp add: I_def DIR_ENTRY_SIZE_def)
  then have "triple (vol_at d0 sb F) (bind_act (fold_act (read_entry ops i) [0..<k] ([], replicate DIR_ENTRY_SIZE 0)) (\<lambda>(entries, _). return_act entries))
      (\<lambda>x v. vol_at d0 sb F v \<and> x = es) E"
    by (rule triple_bind) (auto simp: I_def dec(1) intro!: triple_return_val)
  moreover have "ino_size i mod of_nat DIR_ENTRY_SIZE = 0" "unat (ino_size i div of_nat DIR_ENTRY_SIZE) = k"
    using mod by (simp_all add: DIR_ENTRY_SIZE_def k_def unat_div word_unat_eq_iff unat_mod)
  ultimately show ?thesis using kind by (simp add: read_directory_def Let_def)
qed

end

section \<open>Paths\<close>

text \<open>The inode that a path names, from the contents of the blocks.\<close>

definition path_step :: "blocks \<Rightarrow> superblock \<Rightarrow> bytes \<Rightarrow> u64 \<Rightarrow> fs_error + u64" where
  "path_step F sb component current =
    (if component = [] \<or> component = [0x2E] then Inr current
     else if component = [0x2E, 0x2E] then Inl F_InvalidPath
     else
       bind_res (validate_name component) (\<lambda>_.
       case node F sb (unat current) of
         None \<Rightarrow> Inl F_NotFound
       | Some i \<Rightarrow>
         if ino_kind i \<noteq> Directory then Inl F_NotDirectory
         else
           bind_res (inode_entries F i) (\<lambda>es.
           ok_or F_NotFound (map_option de_inode (find (\<lambda>e. de_name e = component) es)))))"

definition path_lookup :: "blocks \<Rightarrow> superblock \<Rightarrow> bytes \<Rightarrow> fs_error + u64" where
  "path_lookup F sb p =
    (let trimmed = trim_slashes p in
     if trimmed = [] then Inr 1 else fold_res (path_step F sb) (split_on path_slash trimmed) 1)"

lemma path_lookup_generation [simp]: "path_lookup F (sb\<lparr>sb_generation := t\<rparr>) p = path_lookup F sb p"
proof -
  have "path_step F (sb\<lparr>sb_generation := t\<rparr>) = path_step F sb" by (intro ext) (simp add: path_step_def)
  then show ?thesis by (simp add: path_lookup_def Let_def)
qed

lemma consistent_directory:
  assumes c: "fs_consistent F sb" and n: "node F sb n = Some i" and kind: "ino_kind i = Directory"
  shows "\<exists>es. inode_entries F i = Inr es \<and> distinct (map de_name es) \<and> (\<forall>e \<in> set es. entry_sound F sb e) \<and>
    children F sb n = map (\<lambda>e. unat (de_inode e)) es"
proof -
  have "directory_sound F sb n" using c n kind unfolding fs_consistent_def is_directory_def by blast
  then show ?thesis using n kind by (auto simp: directory_sound_def children_def)
qed

lemma path_step_node:
  assumes c: "fs_consistent F sb" and cur: "node F sb (unat current) \<noteq> None" and r: "path_step F sb component current = Inr x"
  shows "node F sb (unat x) \<noteq> None"
proof (cases "component = [] \<or> component = [0x2E]")
  case True
  then show ?thesis using r cur by (simp add: path_step_def)
next
  case False
  then obtain i es where n: "node F sb (unat current) = Some i" "ino_kind i = Directory" "inode_entries F i = Inr es"
    "map_option de_inode (find (\<lambda>e. de_name e = component) es) = Some x"
    using r by (auto simp: path_step_def bind_res_Inr_iff split: if_splits option.splits)
  then obtain e where "e \<in> set es" "x = de_inode e" by (auto simp: find_Some_iff dest: nth_mem)
  then show ?thesis using consistent_directory [OF c n(1,2)] n(3) by (auto simp: entry_sound_def)
qed

text \<open>The errors of a resolution are those of the path.\<close>

lemma path_lookup_error:
  assumes c: "fs_consistent F sb" and e: "path_lookup F sb p = Inl e"
  shows "e \<in> {F_InvalidPath, F_InvalidName, F_NotFound, F_NotDirectory}"
proof -
  have step: "e \<in> {F_InvalidPath, F_InvalidName, F_NotFound, F_NotDirectory}" if "path_step F sb k cur = Inl e" for k cur e
  proof (cases "node F sb (unat cur)")
    case None
    then show ?thesis using that by (auto simp: path_step_def validate_name_def split: if_splits)
  next
    case (Some i)
    then have "ino_kind i = Directory \<Longrightarrow> \<exists>es. inode_entries F i = Inr es" using consistent_directory [OF c] by blast
    then show ?thesis using that Some
      by (cases "ino_kind i") (auto simp: path_step_def validate_name_def ok_or_def split: if_splits option.splits)
  qed
  have "e \<in> {F_InvalidPath, F_InvalidName, F_NotFound, F_NotDirectory}" if "fold_res (path_step F sb) ks cur = Inl e" for ks cur
    using that
  proof (induction ks arbitrary: cur)
    case (Cons k ks)
    then show ?case using step [of k cur] by (cases "path_step F sb k cur") auto
  qed simp
  then show ?thesis using e by (auto simp: path_lookup_def Let_def split: if_splits)
qed

lemma consistent_root: "fs_consistent F sb \<Longrightarrow> node F sb 1 \<noteq> None"
  by (auto simp: fs_consistent_def is_directory_def)

context reliable_device
begin

lemma resolve_step_at:
  assumes g: "vol_good d0 sb" and c: "fs_consistent F sb" and cur: "node F sb (unat current) \<noteq> None"
  shows "triple (vol_at d0 sb F) (resolve_step ops component current)
    (\<lambda>x v. vol_at d0 sb F v \<and> path_step F sb component current = Inr x)
    (\<lambda>e v. vol_at d0 sb F v \<and> path_step F sb component current = Inl e)"
proof -
  let ?Q = "\<lambda>x v. vol_at d0 sb F v \<and> path_step F sb component current = Inr x"
  let ?E = "\<lambda>e v. vol_at d0 sb F v \<and> path_step F sb component current = Inl e"
  obtain i where i: "node F sb (unat current) = Some i" using cur by blast
  show ?thesis
  proof (cases "component = [] \<or> component = [0x2E] \<or> component = [0x2E, 0x2E]")
    case True
    then show ?thesis by (auto simp: resolve_step_def path_step_def triple_def)
  next
    case False
    show ?thesis
    proof (cases "validate_name component")
      case (Inl e)
      then show ?thesis using False by (auto simp: resolve_step_def path_step_def triple_def bind_act_def)
    next
      case (Inr u)
      have rest: "triple (vol_at d0 sb F) (bind_act (read_directory ops i) (\<lambda>entries.
          lift_res (ok_or F_NotFound (map_option de_inode (find (\<lambda>e. de_name e = component) entries))))) ?Q ?E"
      proof (cases "ino_kind i = Directory")
        case True
        then obtain es where es: "inode_entries F i = Inr es" using consistent_directory [OF c i] by blast
        have eq: "path_step F sb component current = ok_or F_NotFound (map_option de_inode (find (\<lambda>e. de_name e = component) es))"
          using False Inr i True es by (simp add: path_step_def)
        show ?thesis
          by (rule triple_bind_val [OF read_directory_at [OF g consistent_storage [OF c] i True es]])
             (use eq in \<open>auto simp: triple_def split: sum.splits\<close>)
      next
        case kind: False
        then show ?thesis using False Inr i by (simp add: path_step_def read_directory_def triple_def bind_act_def)
      qed
      have eq: "resolve_step ops component current = bind_act (lift_res (validate_name component)) (\<lambda>_.
         bind_act (vol_read_inode ops current) (\<lambda>i. bind_act (read_directory ops i) (\<lambda>entries.
         lift_res (ok_or F_NotFound (map_option de_inode (find (\<lambda>e. de_name e = component) entries))))))"
        using False by (simp add: resolve_step_def)
      show ?thesis
        unfolding eq by (intro triple_bind_res [OF Inr] triple_bind_val [OF read_inode_at [OF g i]]) (simp add: rest)
    qed
  qed
qed

lemma resolve_at:
  assumes g: "vol_good d0 sb" and c: "fs_consistent F sb"
  shows "triple (vol_at d0 sb F) (vol_resolve ops p)
    (\<lambda>x v. vol_at d0 sb F v \<and> path_lookup F sb p = Inr x \<and> node F sb (unat x) \<noteq> None)
    (\<lambda>e v. vol_at d0 sb F v \<and> path_lookup F sb p = Inl e)"
proof -
  have loop: "triple (vol_at d0 sb F) (fold_act (resolve_step ops) cs current)
    (\<lambda>x v. vol_at d0 sb F v \<and> fold_res (path_step F sb) cs current = Inr x \<and> node F sb (unat x) \<noteq> None)
    (\<lambda>e v. vol_at d0 sb F v \<and> fold_res (path_step F sb) cs current = Inl e)" if "node F sb (unat current) \<noteq> None" for cs current
    using that
  proof (induction cs arbitrary: current)
    case Nil
    then show ?case by (simp add: triple_def)
  next
    case (Cons k cs)
    let ?E = "\<lambda>e v. vol_at d0 sb F v \<and> fold_res (path_step F sb) (k # cs) current = Inl e"
    have "triple (vol_at d0 sb F) (resolve_step ops k current) (\<lambda>x v. vol_at d0 sb F v \<and> path_step F sb k current = Inr x) ?E"
      by (rule triple_conseq [OF resolve_step_at [OF g c Cons.prems]]) auto
    then show ?case
      unfolding fold_act.simps
      by (rule triple_bind_val) (rule triple_conseq [OF Cons.IH [OF path_step_node [OF c Cons.prems]]], auto)
  qed
  have root: "sb_root_inode sb = 1" by (rule vgeo(4) [OF g])
  show ?thesis
  proof (cases "trim_slashes p = []")
    case True
    then show ?thesis using root consistent_root [OF c]
      by (auto simp: vol_resolve_def path_lookup_def Let_def triple_def bind_act_def vol_at_def)
  next
    case False
    then show ?thesis using loop [of 1 "split_on path_slash (trim_slashes p)"] consistent_root [OF c] root
      unfolding vol_resolve_def superblock_of_triple Let_def by (simp add: path_lookup_def Let_def)
  qed
qed

end

end
