(* ===== verification/Nexfs_Write.thy ===== *)
theory Nexfs_Write
  imports Nexfs_Paths
begin

text \<open>
  Changing the data of a regular file: a successful write or truncation keeps the volume consistent,
  gives the file its new contents and leaves every other file as it is; a failed one that has run out of
  space leaves blocks in use that no file owns.
\<close>

section \<open>A changed file in a consistent volume\<close>

text \<open>Only the blocks of an inode determine what it means.\<close>

lemma same_blocks:
  assumes f: "file_ok F sb j" and same: "\<And>b. b \<in> set (inode_blocks F j) \<Longrightarrow> F' b = F b"
  shows "inode_blocks F' j = inode_blocks F j" "file_data F' j = file_data F j" "inode_contents F' j = inode_contents F j"
    "inode_entries F' j = inode_entries F j" "12 < count_of j \<Longrightarrow> pointers F' j = pointers F j"
proof -
  have ind: "count_of j \<le> 12 \<or> F' (unat (ino_indirect_block j)) = F (unat (ino_indirect_block j))"
    using same [of "unat (ino_indirect_block j)"] by (cases "count_of j \<le> 12") (simp_all add: inode_blocks_def indirect_blocks_def count_of_def)
  then show "12 < count_of j \<Longrightarrow> pointers F' j = pointers F j" by (simp add: pointers_def)
  have db: "data_blocks F' j = data_blocks F j" using data_blocks_cong [of F sb j F'] f ind by blast
  then show "inode_blocks F' j = inode_blocks F j" by (simp add: inode_blocks_def)
  have "map F' (data_blocks F j) = map F (data_blocks F j)" using same by (simp add: inode_blocks_def)
  then show fd: "file_data F' j = file_data F j" unfolding file_data_def db by (rule arg_cong)
  then show "inode_contents F' j = inode_contents F j" by (simp add: contents_data)
  then show "inode_entries F' j = inode_entries F j" by (simp add: inode_entries_def)
qed

lemma same_blocks_valid:
  assumes f: "file_ok F sb j" and same: "\<And>b. b \<in> set (inode_blocks F j) \<Longrightarrow> F' b = F b" and "inode_valid F sb j"
  shows "inode_valid F' sb j"
  using assms(3) same_blocks(1,5) [OF f same] by (auto simp: inode_valid_def count_of_def)

text \<open>The inode \<open>n\<close> has become \<open>j\<close>, with blocks that no other inode owns.\<close>

definition replaced :: "superblock \<Rightarrow> nat \<Rightarrow> blocks \<Rightarrow> blocks \<Rightarrow> inode \<Rightarrow> bool" where
  "replaced sb n F F' j \<longleftrightarrow>
    F' 2 = F 2 \<and> (\<forall>m < inodes_of sb. m \<noteq> n \<longrightarrow> inode_at F' sb m = inode_at F sb m) \<and> inode_at F' sb n = Inr j \<and> inode_valid F' sb j \<and>
    (\<forall>m b. m \<noteq> n \<and> b \<in> owned_by F sb m \<longrightarrow> F' b = F b \<and> b \<notin> set (inode_blocks F' j)) \<and>
    (\<forall>k < total_of sb. used F' sb k \<longleftrightarrow> k \<in> set (inode_blocks F' j) \<or> used F sb k \<and> k \<notin> owned_by F sb n)"

lemma replaced_node:
  assumes c: "storage_ok F sb" and n: "node F sb n = Some i" and r: "replaced sb n F F' j"
  shows "node F' sb m = (if m = n then Some j else node F sb m)"
  using r consistent_node [OF c n] by (auto simp: node_def replaced_def)

lemma replaced_other:
  assumes c: "storage_ok F sb" and r: "replaced sb n F F' j" and m: "m \<noteq> n" "node F sb m = Some k"
  shows "inode_blocks F' k = inode_blocks F k" "inode_contents F' k = inode_contents F k" "inode_entries F' k = inode_entries F k"
    "inode_valid F' sb k"
proof -
  have same: "F' b = F b" if "b \<in> set (inode_blocks F k)" for b
  proof -
    have "b \<in> owned_by F sb m" using that m(2) by (simp add: owned_by_def)
    then show ?thesis using r m(1) unfolding replaced_def by blast
  qed
  note f = consistent_file(1) [OF c m(2)]
  show "inode_blocks F' k = inode_blocks F k" "inode_contents F' k = inode_contents F k" "inode_entries F' k = inode_entries F k"
    using same_blocks(1,3,4) [OF f same] by blast+
  show "inode_valid F' sb k" by (rule same_blocks_valid [OF f same consistent_node(1) [OF c m(2)]])
qed

lemma replaced_owned:
  assumes c: "storage_ok F sb" and n: "node F sb n = Some i" and r: "replaced sb n F F' j"
  shows "owned_by F' sb m = (if m = n then set (inode_blocks F' j) else owned_by F sb m)"
  using replaced_node [OF c n r, of m] replaced_other(1) [OF c r, of m]
  by (auto simp: owned_by_def split: option.splits)

lemma replaced_storage:
  assumes c: "storage_ok F sb" and n: "node F sb n = Some i" and r: "replaced sb n F F' j"
  shows "storage_ok F' sb"
  unfolding storage_ok_def
proof (intro conjI)
  note nd = replaced_node [OF c n r] and own = replaced_owned [OF c n r] and ij = consistent_node(2) [OF c n]
  show "\<forall>m. 1 \<le> m \<and> m < inodes_of sb \<and> bm_bit (F' 2) m \<longrightarrow> (\<exists>i. node F' sb m = Some i \<and> inode_valid F' sb i)"
  proof (intro allI impI)
    fix m assume m: "1 \<le> m \<and> m < inodes_of sb \<and> bm_bit (F' 2) m"
    show "\<exists>i. node F' sb m = Some i \<and> inode_valid F' sb i"
    proof (cases "m = n")
      case True
      then show ?thesis using nd r by (simp add: replaced_def)
    next
      case False
      have "bm_bit (F 2) m" using m r by (simp add: replaced_def)
      then obtain k where k: "node F sb m = Some k" using c m unfolding storage_ok_def by blast
      then show ?thesis using nd False replaced_other(4) [OF c r False k] by simp
    qed
  qed
  have "\<And>m. m \<noteq> n \<Longrightarrow> owned_by F sb m \<inter> set (inode_blocks F' j) = {}" using r by (auto simp: replaced_def)
  then show "\<forall>m k. m \<noteq> k \<longrightarrow> owned_by F' sb m \<inter> owned_by F' sb k = {}"
    using consistent_disjoint [OF c] by (simp add: own Int_commute)
  show "\<forall>b < total_of sb. bm_bit (block_bitmap F' sb) b \<longleftrightarrow> b < data_of sb \<or> (\<exists>m. b \<in> owned_by F' sb m)"
  proof (intro allI impI)
    fix b assume b: "b < total_of sb"
    have "used F' sb b \<longleftrightarrow> b \<in> set (inode_blocks F' j) \<or> used F sb b \<and> b \<notin> owned_by F sb n"
      using r b by (simp add: replaced_def)
    also have "\<dots> \<longleftrightarrow> b \<in> set (inode_blocks F' j) \<or> (b < data_of sb \<or> (\<exists>m. b \<in> owned_by F sb m)) \<and> b \<notin> owned_by F sb n"
      using consistent_used [OF c b] by simp
    also have "\<dots> \<longleftrightarrow> b < data_of sb \<or> (\<exists>m. b \<in> owned_by F' sb m)"
    proof -
      have "b < data_of sb \<Longrightarrow> b \<notin> owned_by F sb n" using owned_data [OF c] by (meson leD)
      moreover have "b \<in> owned_by F sb m \<Longrightarrow> b \<notin> owned_by F sb n" if "m \<noteq> n" for m
        using consistent_disjoint [OF c that] by blast
      ultimately show ?thesis by (auto simp: own split: if_splits)
    qed
    finally show "bm_bit (block_bitmap F' sb) b \<longleftrightarrow> b < data_of sb \<or> (\<exists>m. b \<in> owned_by F' sb m)" by (simp add: used_def)
  qed
qed

lemma replaced_children:
  assumes c: "storage_ok F sb" and n: "node F sb n = Some i" and r: "replaced sb n F F' j" and m: "m \<noteq> n"
  shows "children F' sb m = children F sb m"
  using replaced_node [OF c n r, of m] replaced_other(3) [OF c r m] m
  by (auto simp: children_def split: option.splits)

text \<open>A file or directory with the same entries: the directory tree is the same.\<close>

lemma replaced_same_consistent:
  assumes c: "fs_consistent F sb" and n: "node F sb n = Some i" and r: "replaced sb n F F' j"
    and kind: "ino_kind j = ino_kind i" "ino_kind i = Directory \<longrightarrow> inode_entries F' j = inode_entries F i"
  shows "fs_consistent F' sb"
proof -
  note st = consistent_storage [OF c]
  note nd = replaced_node [OF st n r]
  have ch: "children F' sb m = children F sb m" for m
    using replaced_children [OF st n r] nd [of n] n kind by (cases "m = n") (auto simp: children_def)
  have rel: "child_rel F' sb = child_rel F sb" by (simp add: child_rel_def ch)
  have isdir: "is_directory F' sb m = is_directory F sb m" for m
    using nd n kind by (auto simp: is_directory_def)
  have some: "node F' sb m \<noteq> None \<longleftrightarrow> node F sb m \<noteq> None" for m using nd n by simp
  have sound: "directory_sound F' sb m" if d: "is_directory F sb m" for m
  proof -
    have "directory_sound F sb m" using c d by (simp add: fs_consistent_def)
    then obtain k es where k: "node F sb m = Some k" "ino_kind k = Directory" "inode_entries F k = Inr es"
      "distinct (map de_name es)" "\<forall>e \<in> set es. entry_sound F sb e" by (auto simp: directory_sound_def)
    have "entry_sound F' sb e" if "entry_sound F sb e" for e
      using that nd n kind by (auto simp: entry_sound_def)
    moreover have "\<exists>k'. node F' sb m = Some k' \<and> ino_kind k' = Directory \<and> inode_entries F' k' = Inr es"
      using k nd n kind replaced_other(3) [OF st r _ k(1)] by (cases "m = n") auto
    ultimately show ?thesis using k(4,5) unfolding directory_sound_def by blast
  qed
  have tree: "is_directory F sb 1" "\<forall>n. node F sb n \<noteq> None \<longrightarrow> (1, n) \<in> (child_rel F sb)\<^sup>*"
    "\<forall>n. node F sb n \<noteq> None \<and> n \<noteq> 1 \<longrightarrow> (\<exists>!p. n \<in> set (children F sb p))" "\<forall>p. distinct (children F sb p)"
    using c unfolding fs_consistent_def by blast+
  show ?thesis
    unfolding fs_consistent_def isdir rel ch some
    using replaced_storage [OF st n r, unfolded storage_ok_def] sound tree by (intro conjI) blast+
qed

lemma replaced_lookup:
  assumes c: "fs_consistent F sb" and n: "node F sb n = Some i" and r: "replaced sb n F F' j"
    and kind: "ino_kind i = Regular" "ino_kind j = Regular"
  shows "path_lookup F' sb p = path_lookup F sb p"
proof -
  have "path_step F' sb k cur = path_step F sb k cur" for k cur
    using replaced_node [OF consistent_storage [OF c] n r, of "unat cur"] replaced_other(3) [OF consistent_storage [OF c] r, of "unat cur"] n kind
    by (cases "unat cur = n"; cases "node F sb (unat cur)") (auto simp: path_step_def)
  then have "path_step F' sb = path_step F sb" by (intro ext)
  then show ?thesis by (simp add: path_lookup_def Let_def)
qed

section \<open>A file stored anew\<close>

text \<open>
  The file of \<open>i\<close> has become that of \<open>j\<close>: its blocks are old blocks of the file or free ones, the
  bitmap is exact for them, and no other block in use has changed.
\<close>

definition stored :: "superblock \<Rightarrow> blocks \<Rightarrow> inode \<Rightarrow> blocks \<Rightarrow> inode \<Rightarrow> bool" where
  "stored sb F i F' j \<longleftrightarrow> blocks_ok sb F' \<and> file_ok F' sb j \<and> same_meta i j \<and>
    (\<forall>b \<in> set (inode_blocks F' j). b \<in> set (inode_blocks F i) \<or> \<not> used F sb b) \<and>
    (\<forall>k < total_of sb. used F' sb k \<longleftrightarrow> k \<in> set (inode_blocks F' j) \<or> used F sb k \<and> k \<notin> set (inode_blocks F i)) \<and>
    (\<forall>x < total_of sb. x \<notin> bitmap_area sb \<and> x \<notin> set (inode_blocks F i) \<and> (x < data_of sb \<or> used F sb x) \<longrightarrow> F' x = F x)"

lemma updated_stored:
  assumes f: "file_ok F sb i" and u: "updated sb F i F' j N data"
  shows "stored sb F i F' j"
  unfolding stored_def
proof (intro conjI allI impI)
  have own: "\<And>b. b \<in> set (inode_blocks F i) \<Longrightarrow> used F sb b" using f by (simp add: file_ok_def)
  show "blocks_ok sb F'" "file_ok F' sb j" "same_meta i j" using u by (simp_all add: updated_def)
  show "\<forall>b \<in> set (inode_blocks F' j). b \<in> set (inode_blocks F i) \<or> \<not> used F sb b" using u by (auto simp: updated_def)
  show "used F' sb k \<longleftrightarrow> k \<in> set (inode_blocks F' j) \<or> used F sb k \<and> k \<notin> set (inode_blocks F i)" if "k < total_of sb" for k
    using u own that by (auto simp: updated_def)
  fix x assume x: "x < total_of sb" "x \<notin> bitmap_area sb \<and> x \<notin> set (inode_blocks F i) \<and> (x < data_of sb \<or> used F sb x)"
  have "x \<notin> N" using u x(2) unfolding updated_def by (meson leD)
  then show "F' x = F x" using u x by (simp add: updated_def)
qed

lemma stored_outside:
  assumes "stored sb F i F' j" "x < total_of sb" "x \<notin> set (inode_blocks F i)" "used F sb x"
  shows "x \<notin> set (inode_blocks F' j)" "used F' sb x"
  using assms unfolding stored_def by blast+

lemma stored_trans:
  assumes s1: "stored sb F i F1 j" and s2: "stored sb F1 j F2 k"
  shows "stored sb F i F2 k"
  unfolding stored_def
proof (intro conjI allI impI ballI)
  show "blocks_ok sb F2" "file_ok F2 sb k" using s2 by (simp_all add: stored_def)
  show "same_meta i k" using s1 s2 by (simp add: stored_def same_meta_def)
  have range: "data_of sb \<le> b" "b < total_of sb" if "b \<in> set (inode_blocks F1 j)" for b
    using s1 that by (simp_all add: stored_def file_ok_def)
  have range2: "b < total_of sb" if "b \<in> set (inode_blocks F2 k)" for b using s2 that by (simp add: stored_def file_ok_def)
  show "b \<in> set (inode_blocks F i) \<or> \<not> used F sb b" if b: "b \<in> set (inode_blocks F2 k)" for b
    using b range2 [OF b] s1 s2 unfolding stored_def by blast
  show "used F2 sb b \<longleftrightarrow> b \<in> set (inode_blocks F2 k) \<or> used F sb b \<and> b \<notin> set (inode_blocks F i)" if b: "b < total_of sb" for b
    using b s1 s2 stored_outside(1) [OF s1 b] unfolding stored_def by blast
  fix x assume x: "x < total_of sb" "x \<notin> bitmap_area sb \<and> x \<notin> set (inode_blocks F i) \<and> (x < data_of sb \<or> used F sb x)"
  have "x \<notin> set (inode_blocks F1 j)" "x < data_of sb \<or> used F1 sb x"
    using x range stored_outside [OF s1 x(1)] by (meson leD)+
  then show "F2 x = F x" using x s1 s2 unfolding stored_def by metis
qed

lemma stored_meta:
  assumes "stored sb F i F' j" "ino_direct_blocks j' = ino_direct_blocks j" "ino_indirect_block j' = ino_indirect_block j"
    "ino_block_count j' = ino_block_count j"
  shows "inode_blocks F' j' = inode_blocks F' j" "file_data F' j' = file_data F' j" "file_ok F' sb j'" "count_of j' = count_of j"
proof -
  show ib: "inode_blocks F' j' = inode_blocks F' j" "file_data F' j' = file_data F' j" "count_of j' = count_of j"
    using assms(2-) by (simp_all add: inode_blocks_def data_blocks_def indirect_blocks_def pointers_def file_data_def count_of_def)
  then show "file_ok F' sb j'" using assms by (simp add: stored_def file_ok_def pointers_def)
qed

text \<open>Together with the inode table and the superblock.\<close>

lemma stored_replaced:
  assumes v: "sb_validate sb = Inr ()" and c: "storage_ok F sb" and n: "node F sb n = Some i"
    and s: "stored sb F i F1 j" and w: "slot_written sb n F1 F2" "inode_at F2 sb n = Inr j'" and b1: "length b = 4096"
    and fields: "ino_direct_blocks j' = ino_direct_blocks j" "ino_indirect_block j' = ino_indirect_block j"
      "ino_block_count j' = ino_block_count j"
    and count: "count_of j = blocks_for (unat (ino_size j'))" and dir: "ino_kind j' = Directory \<longrightarrow> unat (ino_size j') mod 256 = 0"
  shows "replaced sb n F (F2(1 := b)) j' \<and> blocks_ok sb (F2(1 := b)) \<and> file_data (F2(1 := b)) j' = file_data F1 j"
proof -
  define F3 where "F3 = F2(1 := b)"
  note geo = sb_validD [OF v] and m = stored_meta [OF s fields]
  have F3: "F3 x = F1 x" if "data_of sb \<le> x \<or> x = 2 \<or> x \<in> bitmap_area sb" for x
    using that w(1) geo by (auto simp: F3_def slot_written_def bitmap_area_def)
  have F1: "F1 x = F x" if "x < data_of sb" "x \<notin> bitmap_area sb" for x
    using that s consistent_node(2) [OF c n] owned_data [OF c] geo(8) unfolding stored_def
    by (metis leD less_trans)
  have ok: "blocks_ok sb F3" using w(1) b1 by (auto simp: F3_def slot_written_def blocks_ok_def)
  have same: "F3 x = F1 x" if "x \<in> set (inode_blocks F1 j')" for x
    using F3 m(3) that by (simp add: file_ok_def)
  have ib: "inode_blocks F3 j' = inode_blocks F1 j" "file_data F3 j' = file_data F1 j"
    using same_blocks(1,2) [OF m(3) same] m(1,2) by simp_all
  have valid1: "inode_valid F1 sb j'"
    using m(3) count m(4) dir by (auto simp: inode_valid_def file_ok_def count_of_def blocks_for_def)
  have "inode_at F3 sb k = inode_at F sb k" if k: "k < inodes_of sb" "k \<noteq> n" for k
  proof -
    let ?x = "table_of sb + k * 256 div 4096"
    have "k * 256 div 4096 < data_of sb - table_of sb" using k(1) by (simp add: inodes_of_def)
    then have x: "?x < data_of sb" "?x \<notin> bitmap_area sb" "?x \<noteq> 1" using geo(5) by (simp_all add: bitmap_area_def)
    have "inode_at F3 sb k = inode_at F2 sb k" using x(3) by (simp add: inode_at_def F3_def)
    also have "\<dots> = inode_at F1 sb k" using w(1) k(2) by (simp add: slot_written_def)
    also have "\<dots> = inode_at F sb k" using F1 [OF x(1,2)] by (simp add: inode_at_def)
    finally show ?thesis .
  qed
  moreover have "inode_at F3 sb n = Inr j'"
    using w(2) geo(5) by (simp add: inode_at_def F3_def)
  moreover have "F3 2 = F 2" using F3 [of 2] F1 [of 2] geo(5,6) by (simp add: bitmap_area_def)
  moreover have "inode_valid F3 sb j'" by (rule same_blocks_valid [OF m(3) same valid1])
  moreover have "F3 x = F x \<and> x \<notin> set (inode_blocks F3 j')" if k: "k \<noteq> n" "x \<in> owned_by F sb k" for k x
  proof -
    have x: "data_of sb \<le> x" "x < total_of sb" using owned_data [OF c k(2)] by simp_all
    have out: "x \<notin> set (inode_blocks F i)" using consistent_disjoint [OF c k(1)] k(2) consistent_node(2) [OF c n] by blast
    have us: "used F sb x" using consistent_used [OF c x(2)] k(2) by blast
    have "x \<notin> bitmap_area sb" by (rule bitmap_area_below [OF v x(1)])
    then have "F1 x = F x" using s x(2) out us by (simp add: stored_def)
    then show ?thesis using F3 x(1) stored_outside(1) [OF s x(2) out us] ib(1) by simp
  qed
  moreover have "used F3 sb k = used F1 sb k" for k using F3 by (intro used_cong) blast
  ultimately show ?thesis
    unfolding F3_def [symmetric] using s ib ok consistent_node(2) [OF c n] by (simp add: replaced_def stored_def) blast
qed

section \<open>The bytes after a write\<close>

lemma blocks_for_bounds: "n \<le> 4096 * blocks_for n" "m \<le> n \<Longrightarrow> blocks_for m \<le> blocks_for n"
  "blocks_for (max m n) = max (blocks_for m) (blocks_for n)"
  by (auto simp: blocks_for_def max_def intro: div_le_mono le_antisym)

lemma put_slice_cong:
  "take off xs = take off ys \<Longrightarrow> drop (off + length d) xs = drop (off + length d) ys \<Longrightarrow> put_slice off d xs = put_slice off d ys"
  by (simp add: put_slice_def)

lemma take_put_slice:
  assumes "off + length d \<le> m" "m \<le> length xs"
  shows "take m (put_slice off d xs) = put_slice off d (take m xs)"
proof -
  have "off \<le> m" "length d \<le> m - off" "min m off = off" "min off m = off" "min off (length xs) = off" using assms by simp_all
  then show ?thesis by (simp add: put_slice_def take_drop)
qed

lemma take_pad: "m \<le> n \<Longrightarrow> length xs \<le> n \<Longrightarrow> take m (pad n xs) = take m (pad m xs)"
  by (simp add: pad_def min_def)

text \<open>The gap up to the offset is filled with zeros.\<close>

lemma zero_contents:
  assumes "length D = 4096 * blocks_for s" "s < off"
  defines "D' \<equiv> put_slice s (replicate (off - s) 0) (pad (4096 * blocks_for off) D)"
  shows "length D' = 4096 * blocks_for off" "take off D' = pad off (take s D)"
proof -
  have s: "s \<le> length D" using assms(1) blocks_for_bounds(1) [of s] by simp
  have "length D \<le> 4096 * blocks_for off" using assms(1,2) blocks_for_bounds(2) [of s off] by simp
  then have l: "length (pad (4096 * blocks_for off) D) = 4096 * blocks_for off" by (simp add: pad_def)
  have o: "off \<le> 4096 * blocks_for off" by (rule blocks_for_bounds(1))
  show "length D' = 4096 * blocks_for off" using l o assms(2) by (simp add: D'_def)
  have "take off D' = put_slice s (replicate (off - s) 0) (take off (pad (4096 * blocks_for off) D))"
    unfolding D'_def using l o assms(2) by (intro take_put_slice) simp_all
  then show "take off D' = pad off (take s D)" using s assms(2) l o by (simp add: put_slice_def pad_def min_def)
qed

text \<open>The file behind a write of \<open>input\<close> at \<open>off\<close>.\<close>

lemma write_contents:
  fixes input :: bytes
  assumes D: "length D = 4096 * blocks_for (max s off)" "take (max s off) D = pad (max s off) C" and C: "length C = s"
  defines "stop \<equiv> off + length input"
  shows "take (max s stop) (put_slice off input (pad (4096 * blocks_for stop) D)) = put_slice off input (pad (max s stop) C)"
proof -
  let ?X = "pad (4096 * blocks_for stop) D"
  have "max s stop \<le> length ?X"
    using D(1) blocks_for_bounds(1) [of stop] blocks_for_bounds(1) [of "max s off"] by (simp add: pad_def)
  then have "take (max s stop) (put_slice off input ?X) = put_slice off input (take (max s stop) ?X)"
    by (intro take_put_slice) (simp_all add: stop_def)
  also have "\<dots> = put_slice off input (pad (max s stop) C)"
  proof (rule put_slice_cong)
    have "off \<le> length D" using D(1) blocks_for_bounds(1) [of "max s off"] by simp
    then have "take off (take (max s stop) ?X) = take off (take (max s off) D)" by (simp add: pad_def min_def stop_def)
    also have "\<dots> = take off (pad (max s stop) C)" unfolding D(2) using C by (simp add: pad_def min_def stop_def)
    finally show "take off (take (max s stop) ?X) = take off (pad (max s stop) C)" .
    show "drop (off + length input) (take (max s stop) ?X) = drop (off + length input) (pad (max s stop) C)"
    proof (cases "stop < s")
      case True
      then have "blocks_for stop \<le> blocks_for s" "max s off = s" by (simp_all add: blocks_for_bounds(2) stop_def)
      then have "?X = D" "take s D = pad s C" using D by (simp_all add: pad_def)
      then show ?thesis using True by simp
    next
      case False
      then have "max s stop = stop" "length (pad stop C) \<le> stop" using C by (simp_all add: pad_def)
      then show ?thesis by (simp add: stop_def [symmetric])
    qed
  qed
  finally show ?thesis .
qed

section \<open>Writing a file\<close>

text \<open>The errors of a change of the file at \<open>p\<close> up to the byte \<open>stop\<close> that leave the volume alone.\<close>

definition change_refused :: "blocks \<Rightarrow> superblock \<Rightarrow> bytes \<Rightarrow> nat \<Rightarrow> fs_error \<Rightarrow> bool" where
  "change_refused F sb p stop e \<longleftrightarrow>
    (case path_lookup F sb p of Inl e' \<Rightarrow> e = e'
     | Inr n \<Rightarrow> \<exists>i. node F sb (unat n) = Some i \<and>
         (if ino_kind i = Regular then 4096 * 524 < stop \<and> e = F_FileTooLarge else e = F_IsDirectory))"

lemma slot_written_generation [simp]: "slot_written (sb\<lparr>sb_generation := t\<rparr>) n F F' = slot_written sb n F F'"
  by (simp add: slot_written_def)

context reliable_device
begin

lemma vol_good_generation [simp]: "vol_good d0 (sb\<lparr>sb_generation := t\<rparr>) = vol_good d0 sb"
  by (simp add: vol_good_def)

text \<open>The end of every operation on a file: the inode, then the superblock.\<close>

lemma store_inode_at:
  assumes g: "vol_good d0 sb" and c: "storage_ok F sb" and n: "node F sb (unat n) = Some i" and s: "stored sb F i F1 j"
    and fields: "ino_direct_blocks j' = ino_direct_blocks j" "ino_indirect_block j' = ino_indirect_block j"
      "ino_block_count j' = ino_block_count j"
    and count: "count_of j = blocks_for (unat (ino_size j'))" and dir: "ino_kind j' = Directory \<longrightarrow> unat (ino_size j') mod 256 = 0"
    and sb': "sb' = sb\<lparr>sb_generation := t\<rparr>"
    and h: "\<And>F3. \<lbrakk>replaced sb (unat n) F F3 j'; blocks_ok sb F3; file_data F3 j' = file_data F1 j; sb_decode (F3 1) = Inr sb'\<rbrakk>
      \<Longrightarrow> triple (vol_at d0 sb' F3) h Q E"
  shows "triple (vol_at d0 sb' F1) (bind_act (vol_write_inode ops n j') (\<lambda>_. bind_act (finish_mutation ops) (\<lambda>_. h))) Q E"
proof -
  note v = vol_goodD(2) [OF g]
  have g': "vol_good d0 sb'" using g by (simp add: sb')
  have "unat n < inodes_of sb'" "length (ino_direct_blocks j') = 12"
    using consistent_node(4) [OF c n] s by (simp_all add: fields stored_def file_ok_def sb')
  note wr = write_inode_at [OF g' this]
  show ?thesis
  proof (rule triple_bind_ex [OF wr], elim conjE)
    fix F2 assume w: "slot_written sb' (unat n) F1 F2" "inode_at F2 sb' (unat n) = Inr j'"
    show "triple (vol_at d0 sb' F2) (bind_act (finish_mutation ops) (\<lambda>_. h)) Q E"
    proof (rule triple_bind [OF finish_mutation_at [OF g']], intro triple_exists, goal_cases)
      case (1 u b)
      show ?case
      proof (rule triple_pre [where P = "\<lambda>v. vol_at d0 sb' (F2(1 := b)) v \<and> length b = 4096 \<and> sb_decode b = Inr sb'"], rule triple_assume, elim conjE)
        assume b: "length b = 4096" "sb_decode b = Inr sb'"
        have "replaced sb (unat n) F (F2(1 := b)) j' \<and> blocks_ok sb (F2(1 := b)) \<and> file_data (F2(1 := b)) j' = file_data F1 j"
          using w count dir fields by (intro stored_replaced [OF v c n s _ _ b(1)]) (simp_all add: sb')
        then show "triple (vol_at d0 sb' (F2(1 := b))) h Q E" using b(2) by (intro h) simp_all
      qed
    qed
  qed
qed

lemma store_file_at:
  assumes g: "vol_good d0 sb" and c: "storage_ok F sb" and n: "node F sb (unat n) = Some i" and s: "stored sb F i F1 j"
    and count: "count_of j = blocks_for (unat new_size)" and dir: "ino_kind i = Directory \<longrightarrow> unat new_size mod 256 = 0"
    and h: "\<And>F3 t. \<lbrakk>replaced sb (unat n) F F3 (stamped (j\<lparr>ino_size := new_size\<rparr>) t); blocks_ok sb F3;
        file_data F3 (stamped (j\<lparr>ino_size := new_size\<rparr>) t) = file_data F1 j; sb_decode (F3 1) = Inr (with_generation sb)\<rbrakk>
      \<Longrightarrow> triple (vol_at d0 (with_generation sb) F3) h Q E"
  shows "triple (vol_at d0 sb F1) (bind_act next_timestamp (\<lambda>t.
      bind_act (vol_write_inode ops n (stamped (j\<lparr>ino_size := new_size\<rparr>) t)) (\<lambda>_. bind_act (finish_mutation ops) (\<lambda>_. h)))) Q E"
proof (rule triple_bind_val [OF next_timestamp_at], rule store_inode_at [OF g c n s _ _ _ _ _ refl])
  show "ino_kind (stamped (j\<lparr>ino_size := new_size\<rparr>) t) = Directory \<longrightarrow> unat (ino_size (stamped (j\<lparr>ino_size := new_size\<rparr>) t)) mod 256 = 0" for t
    using s dir by (simp add: stamped_def stored_def same_meta_def)
qed (use count h in \<open>simp_all add: stamped_def\<close>)

text \<open>
  The outcome of a change of a file: on success the inode \<open>n\<close> that the path names, a regular file, has
  the contents \<open>C\<close> and everything else is as before; an error leaves the volume as it was, unless the
  space ran out.
\<close>

definition file_changed :: "'d \<Rightarrow> superblock \<Rightarrow> blocks \<Rightarrow> bytes \<Rightarrow> (bytes \<Rightarrow> bytes) \<Rightarrow> 'd nexfs \<Rightarrow> bool" where
  "file_changed d0 sb F p f v \<longleftrightarrow>
    (\<exists>F' n i j. vol_at d0 (with_generation sb) F' v \<and> sb_decode (F' 1) = Inr (with_generation sb) \<and>
      path_lookup F sb p = Inr n \<and> node F sb (unat n) = Some i \<and> ino_kind i = Regular \<and> ino_kind j = Regular \<and>
      replaced sb (unat n) F F' j \<and> inode_contents F' j = f (inode_contents F i))"

definition change_failed :: "'d \<Rightarrow> superblock \<Rightarrow> blocks \<Rightarrow> bytes \<Rightarrow> nat \<Rightarrow> fs_error \<Rightarrow> 'd nexfs \<Rightarrow> bool" where
  "change_failed d0 sb F p stop e v \<longleftrightarrow> vol_at d0 sb F v \<and> change_refused F sb p stop e \<or>
    (\<exists>n i. path_lookup F sb p = Inr n \<and> node F sb (unat n) = Some i \<and> ino_kind i = Regular \<and>
      no_space d0 sb F i (blocks_for (max (unat (ino_size i)) stop)) e v)"

lemma changed_fileI:
  assumes c: "storage_ok F sb" and p: "path_lookup F sb p = Inr n" "node F sb (unat n) = Some i" "ino_kind i = Regular"
    and r: "replaced sb (unat n) F F' (stamped (j\<lparr>ino_size := new_size\<rparr>) t)" and m: "same_meta i j"
    and v: "vol_at d0 (with_generation sb) F' v" "sb_decode (F' 1) = Inr (with_generation sb)"
    and d: "take (unat new_size) (file_data F' (stamped (j\<lparr>ino_size := new_size\<rparr>) t)) = f (inode_contents F i)"
  shows "file_changed d0 sb F p f v"
proof -
  have "ino_kind (stamped (j\<lparr>ino_size := new_size\<rparr>) t) = Regular" using m p(3) by (simp add: stamped_def same_meta_def)
  moreover have "inode_contents F' (stamped (j\<lparr>ino_size := new_size\<rparr>) t) = f (inode_contents F i)"
    using d by (simp add: contents_data stamped_def)
  ultimately show ?thesis unfolding file_changed_def using p r v by blast
qed

lemma gap_at:
  assumes g: "vol_good d0 sb" and c: "storage_ok F sb" and ok: "blocks_ok sb F" and n: "node F sb k = Some i"
    and fits: "unat offset \<le> 4096 * 524"
  defines "m \<equiv> max (unat (ino_size i)) (unat offset)"
  shows "triple (vol_at d0 sb F)
    (if ino_size i < offset then zero_range ops i (ino_size i) (offset - ino_size i) else return_act i)
    (\<lambda>j v. \<exists>F'. vol_at d0 sb F' v \<and> (\<exists>N D. updated sb F i F' j N D \<and> length D = 4096 * blocks_for m \<and>
      take m D = pad m (inode_contents F i)) \<and> count_of j = blocks_for m) (no_space d0 sb F i (blocks_for m))"
proof -
  note f = consistent_file [OF c n]
  have lenD: "length (file_data F i) = 4096 * blocks_for (unat (ino_size i))" using length_file_data [OF f(1) ok] f(3) by simp
  show ?thesis
  proof (cases "ino_size i < offset")
    case True
    then have less: "unat (ino_size i) < unat offset" by (simp add: word_less_nat_alt)
    have sub: "unat (offset - ino_size i) = unat offset - unat (ino_size i)" using less by (simp add: unat_sub word_le_nat_alt)
    have stop: "unat (ino_size i) + unat (offset - ino_size i) = unat offset" "m = unat offset" "offset - ino_size i \<noteq> 0"
      using less sub True by (auto simp: m_def)
    have "blocks_for (unat (ino_size i)) \<le> blocks_for (unat offset)" using less by (intro blocks_for_bounds(2)) simp
    then have cnt: "max (count_of i) (blocks_for m) = blocks_for m" using f(3) stop(2) by simp
    note z = zero_contents [OF lenD less]
    have zr: "triple (vol_at d0 sb F) (zero_range ops i (ino_size i) (offset - ino_size i))
      (\<lambda>j v. \<exists>F'. vol_at d0 sb F' v \<and> (\<exists>N. updated sb F i F' j N (put_slice (unat (ino_size i)) (replicate (unat (offset - ino_size i)) 0)
        (pad (4096 * blocks_for (unat (ino_size i) + unat (offset - ino_size i))) (file_data F i)))) \<and>
        count_of j = max (count_of i) (blocks_for (unat (ino_size i) + unat (offset - ino_size i)))) (no_space d0 sb F i (blocks_for (unat (ino_size i) + unat (offset - ino_size i))))"
      using stop fits by (intro zero_range_at [OF g f(1)]) simp_all
    have "triple (vol_at d0 sb F) (zero_range ops i (ino_size i) (offset - ino_size i))
      (\<lambda>j v. \<exists>F'. vol_at d0 sb F' v \<and> (\<exists>N D. updated sb F i F' j N D \<and> length D = 4096 * blocks_for m \<and>
        take m D = pad m (inode_contents F i)) \<and> count_of j = blocks_for m) (no_space d0 sb F i (blocks_for m))"
      by (rule triple_post [OF zr [unfolded stop(1), folded stop(2), unfolded cnt sub, folded stop(2)]])
         (use z [folded stop(2)] in \<open>unfold contents_data, blast\<close>)
    then show ?thesis using True by simp
  next
    case False
    then have m: "m = unat (ino_size i)" by (simp add: m_def word_less_nat_alt)
    have "length (inode_contents F i) = m" using length_contents [OF c ok n] m by simp
    then show ?thesis using False updated_refl [OF ok f(1)] lenD m f(3)
      by (auto simp: contents_data pad_def intro!: triple_return_val)
  qed
qed

lemma payload_at:
  assumes g: "vol_good d0 sb" and f: "file_ok F sb i" and u: "updated sb F i F1 j N D" and ok: "blocks_ok sb F"
    and D: "length D = 4096 * blocks_for (max s (unat offset))" "take (max s (unat offset)) D = pad (max s (unat offset)) C"
    and C: "length C = s" and count: "count_of j = blocks_for (max s (unat offset))"
    and fits: "unat offset + length input \<le> 4096 * 524"
  defines "stop \<equiv> unat offset + length input"
  shows "triple (vol_at d0 sb F1) (write_inode_data ops j offset input)
    (\<lambda>k v. \<exists>F2. vol_at d0 sb F2 v \<and> (\<exists>N D2. updated sb F i F2 k N D2 \<and>
      take (max s stop) D2 = put_slice (unat offset) input (pad (max s stop) C)) \<and> count_of k = blocks_for (max s stop))
    (no_space d0 sb F i (blocks_for (max s stop)))"
proof (cases "input = []")
  case True
  then have "put_slice (unat offset) input (pad (max s stop) C) = pad (max s stop) C" "stop = unat offset"
    by (simp_all add: put_slice_def stop_def)
  then show ?thesis using True u D count by (auto simp: write_inode_data_def intro!: triple_return_val)
next
  case False
  have f1: "file_ok F1 sb j" and d1: "file_data F1 j = D" using u by (simp_all add: updated_def)
  have cnt: "max (count_of j) (blocks_for stop) = blocks_for (max s stop)"
    unfolding count using blocks_for_bounds(2) [of "unat offset" stop] by (simp add: blocks_for_bounds(3) stop_def)
  note w = write_inode_data_at [OF g f1 fits False, folded stop_def, unfolded d1 cnt]
  note wc = write_contents [OF D C, of input, folded stop_def]
  show ?thesis
  proof (rule triple_conseq [OF w])
    show "no_space d0 sb F i (blocks_for (max s stop)) e v" if "no_space d0 sb F1 j (blocks_for stop) e v" for e v
      by (rule no_space_mono [OF _ no_space_trans [OF f u that]]) (simp add: blocks_for_bounds(2))
  qed (use updated_trans [OF u] wc in \<open>auto, blast\<close>)
qed

lemma write_file_at:
  assumes g: "vol_good d0 sb" and c: "fs_consistent F sb" and len: "length input < 2 ^ 64"
  shows "triple (vol_at d0 sb F) (write_file ops p offset input)
    (\<lambda>r v. r = length input \<and> file_changed d0 sb F p
      (\<lambda>C. put_slice (unat offset) input (pad (max (length C) (unat offset + length input)) C)) v)
    (change_failed d0 sb F p (unat offset + length input))"
proof (rule triple_vol [OF g])
  assume ok: "blocks_ok sb F"
  note st = consistent_storage [OF c]
  let ?f = "\<lambda>C. put_slice (unat offset) input (pad (max (length C) (unat offset + length input)) C)"
  let ?Q = "\<lambda>r v. r = length input \<and> file_changed d0 sb F p ?f v" and ?E = "change_failed d0 sb F p (unat offset + length input)"
  have res: "triple (vol_at d0 sb F) (vol_resolve ops p)
    (\<lambda>x v. vol_at d0 sb F v \<and> path_lookup F sb p = Inr x \<and> node F sb (unat x) \<noteq> None) ?E"
    by (rule triple_conseq [OF resolve_at [OF g c]]) (auto simp: change_failed_def change_refused_def)
  show ?thesis
    unfolding write_file_def
  proof (rule triple_bind_val [OF res], elim conjE exE, goal_cases)
    case (1 n)
    then obtain i where p: "path_lookup F sb p = Inr n" and n: "node F sb (unat n) = Some i" by blast
    note f = consistent_file [OF st n]
    have lc: "length (inode_contents F i) = unat (ino_size i)" by (rule length_contents [OF st ok n])
    define stop where "stop = offset + of_nat (length input)"
    show ?case
    proof (rule triple_bind_val [OF read_inode_at [OF g n]], simp only:, rule triple_if, goal_cases)
      case 1
      then show ?case using p n by (simp add: triple_def change_failed_def change_refused_def)
    next
      case 2
      then have kind: "ino_kind i = Regular" by simp
      show ?case
      proof (cases "unat offset + length input \<le> 4096 * 524")
        case False
        then have large: "vol_at d0 sb F s \<Longrightarrow> ?E F_FileTooLarge s" for s using p n kind by (simp add: change_failed_def change_refused_def)
        show ?thesis
        proof (cases "checked_add offset (of_nat (length input))")
          case None
          then show ?thesis using large by (simp add: triple_def bind_act_def)
        next
          case (Some s)
          then have "unat s = unat offset + length input"
            using len unat_of_nat_fits [of "length input", where 'a = 64] checked_add_SomeD [OF Some] by simp
          then have "ensure_file_size_supported s = Inl F_FileTooLarge"
            using False by (simp add: ensure_file_size_supported_def word_less_nat_alt unat_data_blocks nexfs_consts)
          then show ?thesis using Some large by (simp add: triple_def bind_act_def)
        qed
      next
        case fits: True
        have ul: "unat (of_nat (length input) :: u64) = length input" using len by (intro unat_of_nat_fits) simp
        then have us: "unat stop = unat offset + length input" using fits unfolding stop_def by (subst unat_add_fits) simp_all
        have add: "checked_add offset (of_nat (length input)) = Some stop" using ul fits by (simp add: checked_add_def stop_def)
        have sup: "ensure_file_size_supported stop = Inr ()"
          using us fits by (simp add: ensure_file_size_supported_def word_less_nat_alt unat_data_blocks nexfs_consts)
        have gap: "triple (vol_at d0 sb F)
          (if ino_size i < offset then zero_range ops i (ino_size i) (offset - ino_size i) else return_act i)
          (\<lambda>j v. \<exists>F'. vol_at d0 sb F' v \<and> (\<exists>N D. updated sb F i F' j N D \<and>
            length D = 4096 * blocks_for (max (unat (ino_size i)) (unat offset)) \<and>
            take (max (unat (ino_size i)) (unat offset)) D = pad (max (unat (ino_size i)) (unat offset)) (inode_contents F i)) \<and>
            count_of j = blocks_for (max (unat (ino_size i)) (unat offset))) ?E"
        proof (rule triple_conseq [OF gap_at [OF g st ok n]])
          show "?E e s" if "no_space d0 sb F i (blocks_for (max (unat (ino_size i)) (unat offset))) e s" for e s
            using no_space_mono [OF _ that, of "blocks_for (max (unat (ino_size i)) (unat offset + length input))"] p n kind
            by (auto simp: change_failed_def blocks_for_bounds(2))
        qed (use fits in simp_all)
        show ?thesis
        proof (rule triple_bind_res [where x = stop], simp add: add, rule triple_bind_res [OF sup], rule triple_bind_ex [OF gap], elim conjE exE, goal_cases)
          case (1 j F1 N D)
          let ?new = "max (ino_size i) stop"
          have new: "unat ?new = max (unat (ino_size i)) (unat offset + length input)"
            by (simp add: max_def word_le_nat_alt us)
          have "triple (vol_at d0 sb F1) (write_inode_data ops j offset input)
            (\<lambda>k v. \<exists>F2. vol_at d0 sb F2 v \<and> (\<exists>N D2. updated sb F i F2 k N D2 \<and>
              take (unat ?new) D2 = put_slice (unat offset) input (pad (unat ?new) (inode_contents F i))) \<and>
              count_of k = blocks_for (unat ?new)) ?E"
            unfolding new
            by (rule triple_conseq [OF payload_at [OF g f(1) 1(2) ok 1(3,4) lc 1(1) fits]])
               (use p n kind in \<open>auto simp: change_failed_def\<close>)
          then show ?case
          proof (rule triple_bind_ex, elim conjE exE, goal_cases)
            case * : (1 k F2 N D2)
            have m: "same_meta i k" "file_data F2 k = D2" using *(3) by (simp_all add: updated_def)
            then have sz: "ino_size k = ino_size i" by (simp add: same_meta_def)
            show ?case
              unfolding sz
            proof (rule store_file_at [OF g st n updated_stored [OF f(1) *(3)] *(2)], goal_cases)
              case 1
              then show ?case using kind by simp
            next
              case (2 F3 t)
              have "file_changed d0 sb F p ?f v" if "vol_at d0 (with_generation sb) F3 v" for v
                using 2(3) *(4) m lc new
                by (intro changed_fileI [OF st p n kind 2(1) m(1) that 2(4)]) simp
              then show ?case by (auto intro!: triple_return_val)
            qed
          qed
        qed
      qed
    qed
  qed
qed

end

end
