(* ===== verification/Nexfs_Truncate.thy ===== *)
theory Nexfs_Truncate
  imports Nexfs_Write
begin

text \<open>
  Releasing the blocks of a file: the loop of \<open>truncate_inode_blocks\<close> drops them from the end, then
  the block of indirect pointers goes. It cannot fail, and the file keeps the bytes of the blocks it keeps.
\<close>

section \<open>Dropping blocks\<close>

text \<open>
  In the loop an inode may still name its block of pointers although the direct blocks are enough;
  \<open>tidy\<close> is the inode without it.
\<close>

definition tidy :: "inode \<Rightarrow> inode" where
  "tidy i = (if count_of i \<le> 12 then i\<lparr>ino_indirect_block := 0\<rparr> else i)"

lemma tidy_simps [simp]:
  "count_of (i\<lparr>ino_indirect_block := w\<rparr>) = count_of i"
  "count_of (tidy i) = count_of i" "ino_direct_blocks (tidy i) = ino_direct_blocks i" "ino_block_count (tidy i) = ino_block_count i"
  "same_meta i (tidy j) = same_meta i j" "indirect_blocks (tidy i) = indirect_blocks i"
  by (auto simp: tidy_def count_of_def same_meta_def indirect_blocks_def)

lemma tidy_large: "12 < count_of i \<Longrightarrow> tidy i = i"
  by (simp add: tidy_def)

lemma tidy_data [simp]:
  assumes "length (ino_direct_blocks i) = 12"
  shows "data_blocks F (tidy i) = data_blocks F i" "inode_blocks F (tidy i) = inode_blocks F i" "file_data F (tidy i) = file_data F i"
proof -
  show "data_blocks F (tidy i) = data_blocks F i" using assms by (auto simp: tidy_def data_blocks_def count_of_def)
  then show "inode_blocks F (tidy i) = inode_blocks F i" "file_data F (tidy i) = file_data F i"
    by (simp_all add: inode_blocks_def file_data_def)
qed

lemma file_tidy: "file_ok F sb i \<Longrightarrow> tidy i = i"
  by (simp add: file_ok_def tidy_def)

lemma tidy_length: "file_ok F sb (tidy i) \<Longrightarrow> length (ino_direct_blocks i) = 12"
  by (simp add: file_ok_def)

text \<open>The file of \<open>i\<close> has lost its blocks from \<open>count_of j\<close> on.\<close>

definition shed :: "superblock \<Rightarrow> blocks \<Rightarrow> inode \<Rightarrow> blocks \<Rightarrow> inode \<Rightarrow> bool" where
  "shed sb F i F' j \<longleftrightarrow> blocks_ok sb F' \<and> file_ok F' sb (tidy j) \<and> same_meta i j \<and>
    ino_indirect_block j = ino_indirect_block i \<and> count_of j \<le> count_of i \<and>
    data_blocks F' j = take (count_of j) (data_blocks F i) \<and>
    (\<forall>k < total_of sb. used F' sb k \<longleftrightarrow> used F sb k \<and> k \<notin> set (drop (count_of j) (data_blocks F i))) \<and>
    (\<forall>x. x \<notin> bitmap_area sb \<and> x \<notin> set (indirect_blocks i) \<longrightarrow> F' x = F x)"

lemma shed_refl:
  assumes "blocks_ok sb F" "file_ok F sb (tidy i)"
  shows "shed sb F i F i"
  using assms length_data_blocks [OF assms(2)] tidy_length [OF assms(2)] by (simp add: shed_def same_meta_def)

lemma shed_trans:
  assumes s1: "shed sb F i F1 j" and s2: "shed sb F1 j F2 k"
  shows "shed sb F i F2 k"
proof -
  let ?D = "data_blocks F i"
  have c: "count_of k \<le> count_of j" "count_of j \<le> count_of i" using s1 s2 by (simp_all add: shed_def)
  have d1: "data_blocks F1 j = take (count_of j) ?D" using s1 by (simp add: shed_def)
  have "drop (count_of k) ?D = drop (count_of k) (take (count_of j) ?D) @ drop (count_of j) ?D"
    using c(1) append_take_drop_id [of "count_of j - count_of k" "drop (count_of k) ?D"]
    by (simp add: drop_take)
  then have dropped: "set (drop (count_of k) ?D) = set (drop (count_of k) (data_blocks F1 j)) \<union> set (drop (count_of j) ?D)"
    unfolding d1 by (metis set_append)
  have ind: "set (indirect_blocks j) \<subseteq> set (indirect_blocks i)"
    using c(2) s1 by (auto simp: indirect_blocks_def shed_def count_of_def)
  have "data_blocks F2 k = take (count_of k) ?D" using s2 d1 c(1) by (simp add: shed_def min_def)
  then show ?thesis
    unfolding shed_def dropped using s1 s2 c ind unfolding shed_def same_meta_def by auto
qed

lemma last_block:
  assumes f: "file_ok F sb i" and n: "0 < count_of i"
  shows "data_blocks F i = take (count_of i - 1) (data_blocks F i) @ [data_blocks F i ! (count_of i - 1)]"
    "drop (count_of i - 1) (data_blocks F i) = [data_blocks F i ! (count_of i - 1)]"
    "distinct (take (count_of i - 1) (data_blocks F i))"
    "data_blocks F i ! (count_of i - 1) \<notin> set (take (count_of i - 1) (data_blocks F i))"
proof -
  have l: "length (data_blocks F i) = count_of i" by (rule length_data_blocks [OF f])
  show d: "drop (count_of i - 1) (data_blocks F i) = [data_blocks F i ! (count_of i - 1)]"
    using l n Cons_nth_drop_Suc [of "count_of i - 1" "data_blocks F i"] by simp
  show eq: "data_blocks F i = take (count_of i - 1) (data_blocks F i) @ [data_blocks F i ! (count_of i - 1)]"
    using append_take_drop_id [of "count_of i - 1" "data_blocks F i", symmetric] unfolding d .
  have "distinct (data_blocks F i)" using f by (simp add: file_ok_def inode_blocks_def)
  then have "distinct (take (count_of i - 1) (data_blocks F i) @ [data_blocks F i ! (count_of i - 1)])"
    by (rule subst [OF eq, of distinct])
  then show "distinct (take (count_of i - 1) (data_blocks F i))"
    "data_blocks F i ! (count_of i - 1) \<notin> set (take (count_of i - 1) (data_blocks F i))" by simp_all
qed

lemma pred_count: "0 < count_of i \<Longrightarrow> unat (ino_block_count i - 1) = count_of i - 1"
  by (simp add: count_of_def unat_sub word_le_nat_alt Suc_le_eq)

text \<open>The last block is a direct one.\<close>

lemma shed_direct:
  assumes v: "sb_validate sb = Inr ()" and f: "file_ok F sb (tidy i)" and n: "0 < count_of i" "count_of i \<le> 12"
    and m: "marked sb (data_blocks F i ! (count_of i - 1)) False F F'"
  defines "j \<equiv> i\<lparr>ino_direct_blocks := (ino_direct_blocks i)[count_of i - 1 := 0], ino_block_count := ino_block_count i - 1\<rparr>"
  shows "shed sb F i F' j \<and> count_of j = count_of i - 1"
proof -
  have len: "length (ino_direct_blocks i) = 12" by (rule tidy_length [OF f])
  have c: "count_of j = count_of i - 1" using pred_count [OF n(1)] by (simp add: j_def count_of_def)
  have db: "data_blocks F (tidy i) = data_blocks F i" using len by simp
  note last = last_block [OF f, unfolded tidy_simps db, OF n(1)]
  let ?b = "data_blocks F i ! (count_of i - 1)"
  have dj: "data_blocks F' j = take (count_of j) (data_blocks F i)"
    using n len c by (simp add: data_blocks_def count_of_def [symmetric] take_map min_def) (simp add: j_def take_map)
  have ib: "indirect_blocks i = []" "indirect_blocks j = []"
    using n c by (simp_all add: indirect_blocks_def count_of_def [symmetric])
  have dist: "distinct (take (count_of j) (data_blocks F i))" "?b \<notin> set (take (count_of j) (data_blocks F i))"
    using last(3,4) c by simp_all
  have "file_ok F' sb (tidy j)"
    unfolding file_ok_def
  proof (intro conjI)
    have lj: "length (ino_direct_blocks j) = 12" using len by (simp add: j_def)
    show "distinct (inode_blocks F' (tidy j))" using lj dj dist(1) ib by (simp add: inode_blocks_def)
    show "\<forall>b\<in>set (inode_blocks F' (tidy j)). data_of sb \<le> b \<and> b < total_of sb \<and> used F' sb b"
    proof
      fix b assume "b \<in> set (inode_blocks F' (tidy j))"
      then have b: "b \<in> set (take (count_of j) (data_blocks F i))" using lj dj ib by (simp add: inode_blocks_def)
      then have "b \<in> set (data_blocks F (tidy i))" "b \<noteq> ?b" using dist(2) len by (auto dest: in_set_takeD)
      then show "data_of sb \<le> b \<and> b < total_of sb \<and> used F' sb b"
        using data_block_range [OF f] m by (simp add: marked_def)
    qed
    have "set (drop (count_of i - 1) ((ino_direct_blocks i)[count_of i - 1 := 0])) \<subseteq> insert 0 (set (drop (count_of i) (ino_direct_blocks i)))"
    proof -
      have "drop (count_of i - 1) ((ino_direct_blocks i)[count_of i - 1 := 0]) = 0 # drop (count_of i) (ino_direct_blocks i)"
        using n len Cons_nth_drop_Suc [of "count_of i - 1" "(ino_direct_blocks i)[count_of i - 1 := 0]"] by simp
      then show ?thesis by simp
    qed
    then show "\<forall>p\<in>set (drop (count_of (tidy j)) (ino_direct_blocks (tidy j))). p = 0"
      using f c by (auto simp: file_ok_def) (auto simp: j_def)
    show "if count_of (tidy j) \<le> 12 then ino_indirect_block (tidy j) = 0
        else \<forall>p\<in>set (drop (count_of (tidy j) - 12) (pointers F' (tidy j))). p = 0"
      using n c by (auto simp: tidy_def)
  qed (use len n c in \<open>simp_all add: j_def\<close>)
  moreover have "same_meta i j" "ino_indirect_block j = ino_indirect_block i" by (simp_all add: j_def same_meta_def)
  moreover have "\<forall>k < total_of sb. used F' sb k \<longleftrightarrow> used F sb k \<and> k \<notin> set (drop (count_of j) (data_blocks F i))"
    using m c last(2) by (simp add: marked_def)
  ultimately show ?thesis using m dj c by (simp add: shed_def marked_def)
qed

text \<open>The last block is behind the direct ones.\<close>

lemma shed_indirect:
  assumes v: "sb_validate sb = Inr ()" and f: "file_ok F sb i" "blocks_ok sb F" and n: "12 < count_of i"
    and m: "marked sb (data_blocks F i ! (count_of i - 1)) False F F1"
  defines "b \<equiv> unat (ino_indirect_block i)"
  assumes F2: "F2 = F1(b := put_slice ((count_of i - 13) * 8) (le_bytes 8 (0 :: u64)) (F1 b))"
  defines "j \<equiv> i\<lparr>ino_block_count := ino_block_count i - 1\<rparr>"
  shows "shed sb F i F2 j \<and> count_of j = count_of i - 1"
proof -
  let ?x = "data_blocks F i ! (count_of i - 1)" and ?n = "count_of i"
  have n0: "0 < ?n" using n by simp
  have len: "length (ino_direct_blocks i) = 12" and c524: "?n \<le> 524" using f by (simp_all add: file_ok_def)
  have c: "count_of j = ?n - 1" using pred_count [OF n0] by (simp add: j_def count_of_def)
  note last = last_block [OF f(1) n0] and ind = indirect_range [OF f(1) n, folded b_def]
  have area: "b \<notin> bitmap_area sb" by (rule bitmap_area_below [OF v ind(1)])
  have F1b: "F1 b = F b" using m area by (simp add: marked_def)
  have lb: "length (F b) = 4096" using f(2) ind(2) by (simp add: blocks_ok_def)
  have "pointers F2 j = (map (\<lambda>k. get_u64 (F1 b) (k * 8)) [0..<512])[?n - 13 := 0]"
    using c524 n lb F1b by (intro pointers_put) (simp_all add: F2 j_def b_def)
  then have p2: "pointers F2 j = (pointers F i)[?n - 13 := 0]" using F1b by (simp add: pointers_def b_def)
  obtain k where k: "?n = 13 + k" using n that [of "?n - 13"] by simp
  have dj: "data_blocks F2 j = take (count_of j) (data_blocks F i)"
    using len p2 c k by (simp add: data_blocks_def count_of_def [symmetric] take_map min_def) (simp add: j_def)
  have dist: "distinct (take (count_of j) (data_blocks F i))" "?x \<notin> set (take (count_of j) (data_blocks F i))"
    using last(3,4) c by simp_all
  have xin: "?x \<in> set (data_blocks F i)" using n0 length_data_blocks [OF f(1)] by simp
  have used2: "used F2 sb k = used F1 sb k" for k using area unfolding F2 by (intro used_cong) auto
  have used: "used F2 sb k \<longleftrightarrow> used F sb k \<and> k \<noteq> ?x" if "k < total_of sb" for k
    unfolding used2 using m that by (simp add: marked_def)
  have ij: "set (indirect_blocks j) \<subseteq> {b}" "indirect_blocks i = [b]"
    using n by (auto simp: indirect_blocks_def count_of_def j_def b_def)
  have lj: "length (ino_direct_blocks j) = 12" using len by (simp add: j_def)
  have "file_ok F2 sb (tidy j)"
    unfolding file_ok_def
  proof (intro conjI)
    have "b \<notin> set (take (count_of j) (data_blocks F i))" using ind(4) by (meson in_set_takeD)
    moreover have "distinct (indirect_blocks j)" by (simp add: indirect_blocks_def)
    ultimately show "distinct (inode_blocks F2 (tidy j))" using lj dj dist(1) ij(1) by (auto simp: inode_blocks_def)
    show "\<forall>b\<in>set (inode_blocks F2 (tidy j)). data_of sb \<le> b \<and> b < total_of sb \<and> used F2 sb b"
    proof
      fix y assume "y \<in> set (inode_blocks F2 (tidy j))"
      then have "y \<in> set (take (count_of j) (data_blocks F i)) \<or> y = b" using lj dj ij(1) by (auto simp: inode_blocks_def)
      then have "(y \<in> set (data_blocks F i) \<or> y = b) \<and> y \<noteq> ?x" using dist(2) ind(4) xin by (auto dest: in_set_takeD)
      then show "data_of sb \<le> y \<and> y < total_of sb \<and> used F2 sb y" using data_block_range [OF f(1)] ind used by auto
    qed
    have "drop 12 (ino_direct_blocks j) = []" using lj by simp
    then show "\<forall>p\<in>set (drop (count_of (tidy j)) (ino_direct_blocks (tidy j))). p = 0" using c n by simp
    have "drop k ((pointers F i)[k := 0]) = 0 # drop (Suc k) (pointers F i)"
      using k c524 Cons_nth_drop_Suc [of k "(pointers F i)[k := 0]"] by simp
    moreover have "\<forall>p \<in> set (drop (Suc k) (pointers F i)). p = 0" using f(1) k n by (simp add: file_ok_def)
    moreover have "count_of j - 12 = k" "?n - 13 = k" using c k by simp_all
    ultimately show "if count_of (tidy j) \<le> 12 then ino_indirect_block (tidy j) = 0
        else \<forall>p\<in>set (drop (count_of (tidy j) - 12) (pointers F2 (tidy j))). p = 0"
      using p2 by (simp add: tidy_def)
  qed (use lj c c524 in simp_all)
  moreover have "blocks_ok sb F2" unfolding F2 using m lb F1b c524 n by (intro blocks_ok_upd) (simp_all add: marked_def)
  moreover have "\<forall>x. x \<notin> bitmap_area sb \<and> x \<notin> set (indirect_blocks i) \<longrightarrow> F2 x = F x"
    using m ij(2) by (simp add: F2 marked_def)
  moreover have "same_meta i j" "ino_indirect_block j = ino_indirect_block i" by (simp_all add: j_def same_meta_def)
  ultimately show ?thesis using dj c used last(2) by (simp add: shed_def)
qed

lemma data_block_tidy: "data_block ops (tidy i) index = data_block ops i index"
  by (auto simp: data_block_def tidy_def count_of_def word_le_nat_alt word_less_nat_alt DIRECT_BLOCKS_def Let_def)

text \<open>The bytes of the blocks that stay.\<close>

lemma concat_take_uniform: "(\<And>x. x \<in> set xs \<Longrightarrow> length x = c) \<Longrightarrow> concat (take k xs) = take (c * k) (concat xs)"
proof (induction xs arbitrary: k)
  case (Cons x xs)
  then show ?case by (cases k) simp_all
qed simp

lemma shed_data:
  assumes v: "sb_validate sb = Inr ()" and f: "file_ok F sb i" "blocks_ok sb F" and s: "shed sb F i F' j"
  shows "file_data F' j = take (4096 * count_of j) (file_data F i)"
proof -
  let ?D = "data_blocks F i"
  have same: "F' b = F b" if "b \<in> set ?D" for b
    using s data_block_range(4) [OF f(1) that] bitmap_area_below [OF v data_block_range(1) [OF f(1) that]] by (simp add: shed_def)
  have "map F' (take (count_of j) ?D) = map F (take (count_of j) ?D)" using same by (auto dest: in_set_takeD)
  moreover have "data_blocks F' j = take (count_of j) ?D" using s by (simp add: shed_def)
  ultimately have "file_data F' j = concat (take (count_of j) (map F ?D))" unfolding file_data_def by (simp only: take_map)
  moreover have "concat (take (count_of j) (map F ?D)) = take (4096 * count_of j) (concat (map F ?D))"
    using data_block_range(2) [OF f(1)] f(2) by (intro concat_take_uniform) (auto simp: blocks_ok_def)
  ultimately show ?thesis by (simp add: file_data_def)
qed

text \<open>After the block of pointers has gone as well, the file is stored in the blocks that stay.\<close>

lemma shed_stored:
  assumes f: "file_ok F sb i" and s: "shed sb F i F' j" and c: "12 < count_of j \<or> count_of i \<le> 12"
  shows "stored sb F i F' j"
proof -
  have cnt: "count_of j \<le> count_of i" "ino_indirect_block j = ino_indirect_block i" using s by (simp_all add: shed_def)
  have t: "tidy j = j"
  proof (cases "12 < count_of j")
    case False
    then have "ino_indirect_block j = 0" using c f cnt by (simp add: file_ok_def)
    then show ?thesis by (cases j) (simp add: tidy_def)
  qed (simp add: tidy_large)
  have ib: "indirect_blocks j = indirect_blocks i" using c cnt by (auto simp: indirect_blocks_def count_of_def [symmetric])
  let ?D = "data_blocks F i"
  have D: "set ?D = set (take (count_of j) ?D) \<union> set (drop (count_of j) ?D)" by (metis append_take_drop_id set_append)
  have "distinct (take (count_of j) ?D @ drop (count_of j) ?D)" using f by (simp add: file_ok_def inode_blocks_def)
  then have disj: "set (take (count_of j) ?D) \<inter> set (drop (count_of j) ?D) = {}" by (simp only: distinct_append)
  have own: "set (inode_blocks F i) = set (inode_blocks F' j) \<union> set (drop (count_of j) ?D)"
    using s ib D by (auto simp: inode_blocks_def shed_def)
  have sep: "set (inode_blocks F' j) \<inter> set (drop (count_of j) ?D) = {}"
    using s ib disj data_block_range(4) [OF f] by (auto simp: inode_blocks_def shed_def dest: in_set_dropD)
  have us: "used F sb k" if "k \<in> set (inode_blocks F i)" for k using f that by (simp add: file_ok_def)
  have "\<forall>k < total_of sb. used F' sb k \<longleftrightarrow> k \<in> set (inode_blocks F' j) \<or> used F sb k \<and> k \<notin> set (inode_blocks F i)"
    using s own sep us by (auto simp: shed_def)
  moreover have "\<forall>x < total_of sb. x \<notin> bitmap_area sb \<and> x \<notin> set (inode_blocks F i) \<and> (x < data_of sb \<or> used F sb x) \<longrightarrow> F' x = F x"
    using s by (auto simp: shed_def inode_blocks_def)
  ultimately show ?thesis using s t own by (auto simp: stored_def shed_def)
qed

lemma shed_released:
  assumes v: "sb_validate sb = Inr ()" and f: "file_ok F sb i" and s: "shed sb F i F' j" and c: "count_of j \<le> 12" "12 < count_of i"
    and m: "marked sb (unat (ino_indirect_block i)) False F' F2"
  shows "stored sb F i F2 (tidy j)" "file_data F2 (tidy j) = file_data F' j"
proof -
  let ?D = "data_blocks F i" and ?b = "unat (ino_indirect_block i)"
  note ind = indirect_range [OF f c(2)]
  have fj: "file_ok F' sb (tidy j)" and len: "length (ino_direct_blocks j) = 12" using s tidy_length by (auto simp: shed_def)
  have ib: "indirect_blocks j = []" "indirect_blocks i = [?b]" using c by (simp_all add: indirect_blocks_def count_of_def)
  have bj: "inode_blocks F' (tidy j) = take (count_of j) ?D" using s len ib by (simp add: inode_blocks_def shed_def)
  have keep: "F2 x = F' x" if "data_of sb \<le> x" for x using m bitmap_area_below [OF v that] by (simp add: marked_def)
  have same: "F2 x = F' x" if "x \<in> set (inode_blocks F' (tidy j))" for x using fj that keep by (simp add: file_ok_def)
  note eq = same_blocks [OF fj same]
  show "file_data F2 (tidy j) = file_data F' j" using eq(2) len by simp
  have D: "set ?D = set (take (count_of j) ?D) \<union> set (drop (count_of j) ?D)" by (metis append_take_drop_id set_append)
  have "distinct (take (count_of j) ?D @ drop (count_of j) ?D)" using f by (simp add: file_ok_def inode_blocks_def)
  then have disj: "set (take (count_of j) ?D) \<inter> set (drop (count_of j) ?D) = {}" by (simp only: distinct_append)
  have own: "set (inode_blocks F i) = insert ?b (set (inode_blocks F2 (tidy j)) \<union> set (drop (count_of j) ?D))"
    using D ib eq(1) bj by (auto simp: inode_blocks_def)
  have "?b \<notin> set (take (count_of j) ?D)" using ind(4) by (meson in_set_takeD)
  then have sep: "set (inode_blocks F2 (tidy j)) \<inter> set (drop (count_of j) ?D) = {}" "?b \<notin> set (inode_blocks F2 (tidy j))"
    using eq(1) bj disj by simp_all
  have us: "used F sb k" if "k \<in> set (inode_blocks F i)" for k using f that by (simp add: file_ok_def)
  have used: "used F2 sb k \<longleftrightarrow> used F sb k \<and> k \<notin> set (drop (count_of j) ?D) \<and> k \<noteq> ?b" if "k < total_of sb" for k
    using m s that by (auto simp: marked_def shed_def)
  have "\<forall>k < total_of sb. used F2 sb k \<longleftrightarrow> k \<in> set (inode_blocks F2 (tidy j)) \<or> used F sb k \<and> k \<notin> set (inode_blocks F i)"
    using used own sep us by auto
  moreover have "\<forall>x < total_of sb. x \<notin> bitmap_area sb \<and> x \<notin> set (inode_blocks F i) \<and> (x < data_of sb \<or> used F sb x) \<longrightarrow> F2 x = F x"
    using s m ib by (auto simp: shed_def marked_def inode_blocks_def)
  moreover have "file_ok F2 sb (tidy j)"
  proof -
    have "used F2 sb k" if "k \<in> set (inode_blocks F2 (tidy j))" for k
      using used [of k] that own sep us fj eq(1) by (auto simp: file_ok_def)
    then show ?thesis using fj c eq(1) len by (simp add: file_ok_def)
  qed
  moreover have "\<forall>b \<in> set (inode_blocks F2 (tidy j)). b \<in> set (inode_blocks F i) \<or> \<not> used F sb b" using own by blast
  ultimately show "stored sb F i F2 (tidy j)" using s m by (simp add: stored_def shed_def marked_def)
qed

section \<open>The operations\<close>

context reliable_device
begin

lemma drop_block_at:
  assumes g: "vol_good d0 sb" and f: "file_ok F sb (tidy i)" and n: "0 < count_of i"
  shows "triple (vol_at d0 sb F) (drop_block ops i)
    (\<lambda>j v. \<exists>F'. vol_at d0 sb F' v \<and> (shed sb F i F' j \<and> count_of j = count_of i - 1)) E"
proof (rule triple_vol [OF g])
  assume ok: "blocks_ok sb F"
  note v = vol_goodD(2) [OF g]
  let ?Q = "\<lambda>j v. \<exists>F'. vol_at d0 sb F' v \<and> (shed sb F i F' j \<and> count_of j = count_of i - 1)"
  let ?b = "data_blocks F i ! (count_of i - 1)"
  have len: "length (ino_direct_blocks i) = 12" by (rule tidy_length [OF f])
  have idx: "unat (ino_block_count i - 1) = count_of i - 1" by (rule pred_count [OF n])
  have "?b \<in> set (data_blocks F (tidy i))" using n length_data_blocks [OF f] len by simp
  note b = data_block_range [OF f this]
  have dir: "ino_block_count i - 1 < of_nat DIRECT_BLOCKS \<longleftrightarrow> count_of i \<le> 12"
    using idx n by (simp add: DIRECT_BLOCKS_def word_less_nat_alt) linarith
  have rest: "triple (vol_at d0 sb F1) (bind_act (vol_read_block ops (ino_indirect_block i) (replicate BLOCK_SIZE 0)) (\<lambda>pointers.
      bind_act (vol_write_block ops (ino_indirect_block i)
        (put_slice (unat (ino_block_count i - 1 - of_nat DIRECT_BLOCKS) * 8) (replicate 8 0) pointers)) (\<lambda>_.
      return_act (i\<lparr>ino_block_count := ino_block_count i - 1\<rparr>)))) ?Q E"
    if m: "marked sb ?b False F F1" and n12: "12 < count_of i" for F1
  proof -
    have fi: "file_ok F sb i" using f n12 by (simp add: tidy_large)
    note ind = indirect_range [OF fi n12]
    have "13 \<le> ino_block_count i" using n12 by (simp add: count_of_def word_le_nat_alt)
    then have k: "unat (ino_block_count i - 1 - of_nat DIRECT_BLOCKS) = count_of i - 13"
      by (simp add: DIRECT_BLOCKS_def unat_sub count_of_def)
    define b where "b = unat (ino_indirect_block i)"
    define F2 where "F2 = F1(b := put_slice ((count_of i - 13) * 8) (replicate 8 0) (F1 b))"
    have sh: "shed sb F i F2 (i\<lparr>ino_block_count := ino_block_count i - 1\<rparr>) \<and> count_of (i\<lparr>ino_block_count := ino_block_count i - 1\<rparr>) = count_of i - 1"
      using shed_indirect [OF v fi ok n12 m, of F2] by (simp add: F2_def b_def)
    have "length (F1 b) = 4096" using m ind(2) by (simp add: marked_def blocks_ok_def b_def)
    moreover have "count_of i \<le> 524" using fi by (simp add: file_ok_def)
    ultimately have "triple (vol_at d0 sb F1) (vol_write_block ops (ino_indirect_block i) (put_slice ((count_of i - 13) * 8) (replicate 8 0) (F1 b)))
        (\<lambda>_. vol_at d0 sb F2) E"
      unfolding F2_def b_def using ind(2) n12 by (intro write_block_at [OF g]) simp_all
    then show ?thesis
      unfolding k using ind(2) sh
      by (intro triple_bind_val [OF read_block_at [OF g]]) (auto simp: BLOCK_SIZE_def b_def intro!: triple_bind triple_return_val)
  qed
  have step: "triple (vol_at d0 sb F) (bind_act (set_block_allocated ops w False) (\<lambda>_.
      if ino_block_count i - 1 < of_nat DIRECT_BLOCKS then
        return_act (i\<lparr>ino_direct_blocks := (ino_direct_blocks i)[unat (ino_block_count i - 1) := 0], ino_block_count := ino_block_count i - 1\<rparr>)
      else bind_act (vol_read_block ops (ino_indirect_block i) (replicate BLOCK_SIZE 0)) (\<lambda>pointers.
        bind_act (vol_write_block ops (ino_indirect_block i)
          (put_slice (unat (ino_block_count i - 1 - of_nat DIRECT_BLOCKS) * 8) (replicate 8 0) pointers)) (\<lambda>_.
        return_act (i\<lparr>ino_block_count := ino_block_count i - 1\<rparr>))))) ?Q E" if w: "unat w = ?b" for w
    unfolding dir idx
  proof (rule triple_bind_ex [OF set_block_allocated_at [OF g]])
    show "data_of sb \<le> unat w" "unat w < total_of sb" using b w by simp_all
    fix F1 assume "marked sb (unat w) False F F1"
    then have m: "marked sb ?b False F F1" using w by simp
    show "triple (vol_at d0 sb F1) (if count_of i \<le> 12 then
        return_act (i\<lparr>ino_direct_blocks := (ino_direct_blocks i)[count_of i - 1 := 0], ino_block_count := ino_block_count i - 1\<rparr>)
      else bind_act (vol_read_block ops (ino_indirect_block i) (replicate BLOCK_SIZE 0)) (\<lambda>pointers.
        bind_act (vol_write_block ops (ino_indirect_block i)
          (put_slice (unat (ino_block_count i - 1 - of_nat DIRECT_BLOCKS) * 8) (replicate 8 0) pointers)) (\<lambda>_.
        return_act (i\<lparr>ino_block_count := ino_block_count i - 1\<rparr>)))) ?Q E"
      using rest [OF m] shed_direct [OF v f n _ m] by (intro triple_if) (auto intro!: triple_return_val)
  qed
  show ?thesis
    unfolding drop_block_def Let_def data_block_tidy [of ops i, symmetric]
    using step len by (intro found_block_at [OF g f]) (simp_all add: idx n)
qed

lemma drop_loop_at:
  assumes g: "vol_good d0 sb" and "file_ok F sb (tidy i)"
  shows "triple (vol_at d0 sb F) (drop_blocks_loop ops keep i)
    (\<lambda>j v. \<exists>F'. vol_at d0 sb F' v \<and> (shed sb F i F' j \<and> count_of j = min (count_of i) (unat keep))) E"
  using assms(2)
proof (induction "count_of i" arbitrary: i F rule: less_induct)
  case (less i F)
  let ?Q = "\<lambda>j v. \<exists>F'. vol_at d0 sb F' v \<and> (shed sb F i F' j \<and> count_of j = min (count_of i) (unat keep))"
  have eq: "drop_blocks_loop ops keep i =
      (if unat keep < count_of i then bind_act (drop_block ops i) (drop_blocks_loop ops keep) else return_act i)"
    by (rule ext) (simp add: count_of_def word_less_nat_alt)
  show ?case
  proof (cases "unat keep < count_of i")
    case True
    then have n: "0 < count_of i" by simp
    have "triple (vol_at d0 sb F) (bind_act (drop_block ops i) (drop_blocks_loop ops keep)) ?Q E"
    proof (rule triple_bind_ex [OF drop_block_at [OF g less.prems n]], elim conjE)
      fix j F1 assume s: "shed sb F i F1 j" and c: "count_of j = count_of i - 1"
      have fj: "file_ok F1 sb (tidy j)" using s by (simp add: shed_def)
      have "count_of j < count_of i" using c n by simp
      then show "triple (vol_at d0 sb F1) (drop_blocks_loop ops keep j) ?Q E"
        using shed_trans [OF s] c True by (intro triple_post [OF less.hyps [OF _ fj]]) auto
    qed
    then show ?thesis unfolding eq using True by simp
  next
    case False
    show ?thesis
    proof (rule triple_vol [OF g])
      assume "blocks_ok sb F"
      then have "shed sb F i F i" by (rule shed_refl [OF _ less.prems])
      then show ?thesis unfolding eq using False by (auto intro!: triple_return_val)
    qed
  qed
qed

lemma shrink_blocks_at:
  assumes g: "vol_good d0 sb" and f: "file_ok F sb i" and keep: "unat keep \<le> count_of i"
  shows "triple (vol_at d0 sb F) (truncate_inode_blocks ops i keep)
    (\<lambda>j v. \<exists>F'. vol_at d0 sb F' v \<and> (stored sb F i F' j \<and> count_of j = unat keep \<and>
      file_data F' j = take (4096 * unat keep) (file_data F i))) E"
proof (rule triple_vol [OF g])
  assume ok: "blocks_ok sb F"
  note v = vol_goodD(2) [OF g]
  let ?Q = "\<lambda>j v. \<exists>F'. vol_at d0 sb F' v \<and> (stored sb F i F' j \<and> count_of j = unat keep \<and>
      file_data F' j = take (4096 * unat keep) (file_data F i))"
  have ge: "\<not> ino_block_count i < keep" using keep by (simp add: count_of_def word_less_nat_alt)
  have ft: "file_ok F sb (tidy i)" using f by (simp add: file_tidy)
  show ?thesis
    unfolding truncate_inode_blocks_def if_not_P [OF ge]
  proof (rule triple_bind_ex [OF drop_loop_at [OF g ft]], elim conjE)
    fix j F1 assume s: "shed sb F i F1 j" and c: "count_of j = min (count_of i) (unat keep)"
    have cj: "count_of j = unat keep" "ino_block_count j \<le> of_nat DIRECT_BLOCKS \<longleftrightarrow> count_of j \<le> 12"
      using c keep by (simp_all add: count_of_def DIRECT_BLOCKS_def word_le_nat_alt)
    have ind: "ino_indirect_block j = ino_indirect_block i" using s by (simp add: shed_def)
    have data: "file_data F1 j = take (4096 * unat keep) (file_data F i)" using shed_data [OF v f ok s] cj by simp
    have zero: "ino_indirect_block i = 0 \<longleftrightarrow> count_of i \<le> 12"
      using f indirect_range(1) [OF f] vgeo(6) [OF g] by (auto simp: file_ok_def split: if_splits)
    show "triple (vol_at d0 sb F1) (if ino_block_count j \<le> of_nat DIRECT_BLOCKS \<and> ino_indirect_block j \<noteq> 0 then
         bind_act (set_block_allocated ops (ino_indirect_block j) False) (\<lambda>_. return_act (j\<lparr>ino_indirect_block := 0\<rparr>))
       else return_act j) ?Q E"
    proof (rule triple_if)
      assume "ino_block_count j \<le> of_nat DIRECT_BLOCKS \<and> ino_indirect_block j \<noteq> 0"
      then have c12: "count_of j \<le> 12" "12 < count_of i" using cj zero ind by simp_all
      note r = indirect_range [OF f c12(2)]
      have "?Q (j\<lparr>ino_indirect_block := 0\<rparr>) w" if "marked sb (unat (ino_indirect_block i)) False F1 F2" "vol_at d0 sb F2 w" for F2 w
        using shed_released [OF v f s c12 that(1)] that(2) c12(1) data cj(1) by (auto simp: tidy_def)
      then show "triple (vol_at d0 sb F1) (bind_act (set_block_allocated ops (ino_indirect_block j) False)
          (\<lambda>_. return_act (j\<lparr>ino_indirect_block := 0\<rparr>))) ?Q E"
        unfolding ind by (intro triple_bind_ex [OF set_block_allocated_at [OF g r(1,2)]] triple_return_val)
    next
      assume "\<not> (ino_block_count j \<le> of_nat DIRECT_BLOCKS \<and> ino_indirect_block j \<noteq> 0)"
      then have "12 < count_of j \<or> count_of i \<le> 12" using cj zero ind by auto
      then have "stored sb F i F1 j" by (rule shed_stored [OF f s])
      then show "triple (vol_at d0 sb F1) (return_act j) ?Q E" using data cj(1) by (auto intro!: triple_return_val)
    qed
  qed
qed

text \<open>A file cut short: the rest of its last block is filled with zeros.\<close>

lemma cut_block_at:
  assumes g: "vol_good d0 sb" and f: "file_ok F sb j" "blocks_ok sb F" and c: "count_of j = blocks_for (unat m)"
  shows "triple (vol_at d0 sb F)
    (if m \<noteq> 0 \<and> m mod of_nat BLOCK_SIZE \<noteq> 0 then
       bind_act (data_block ops j (m div of_nat BLOCK_SIZE)) (\<lambda>found.
       bind_act (lift_res (ok_or F_CorruptInode found)) (\<lambda>block_number.
       bind_act (vol_read_block ops block_number (replicate BLOCK_SIZE 0)) (\<lambda>block.
       let start = unat (m mod of_nat BLOCK_SIZE) in
       bind_act (vol_write_block ops block_number (put_slice start (replicate (length block - start) 0) block)) (\<lambda>_.
       return_act j))))
     else return_act j)
    (\<lambda>k v. \<exists>F'. vol_at d0 sb F' v \<and> (k = j \<and> (\<exists>D. rewritten sb F j F' D \<and> take (unat m) D = take (unat m) (file_data F j)))) E"
proof -
  let ?Q = "\<lambda>k v. \<exists>F'. vol_at d0 sb F' v \<and> (k = j \<and> (\<exists>D. rewritten sb F j F' D \<and> take (unat m) D = take (unat m) (file_data F j)))"
  note v = vol_goodD(2) [OF g]
  define a where "a = unat m mod 4096"
  define q where "q = m div of_nat BLOCK_SIZE"
  have u: "unat (m mod of_nat BLOCK_SIZE) = a" "unat q = unat m div 4096"
    by (simp_all add: BLOCK_SIZE_def unat_mod unat_div a_def q_def)
  have mz: "m mod of_nat BLOCK_SIZE \<noteq> 0 \<longleftrightarrow> a \<noteq> 0" using u(1) by (metis unat_0 unat_eq_zero)
  show ?thesis
  proof (cases "m \<noteq> 0 \<and> a \<noteq> 0")
    case True
    have q: "unat q < count_of j"
    proof -
      have "unat m = unat m div 4096 * 4096 + a" by (simp add: a_def)
      then have "unat m div 4096 * 4096 < 4096 * blocks_for (unat m)" using blocks_for_bounds(1) [of "unat m"] True by linarith
      then show ?thesis using c u(2) by simp
    qed
    define b where "b = data_blocks F j ! unat q"
    have "b \<in> set (data_blocks F j)" using q length_data_blocks [OF f(1)] by (simp add: b_def)
    then have bt: "b < total_of sb" by (rule data_block_range(2) [OF f(1)])
    then have lb: "length (F b) = 4096" using f(2) by (simp add: blocks_ok_def)
    have a: "a < 4096" by (simp add: a_def)
    define d where "d = put_slice a (replicate (length (F b) - a) 0) (F b)"
    have pos: "unat q * 4096 + a = unat m" by (simp add: u(2) a_def)
    have r: "rewritten sb F j (F(b := d)) (put_slice (unat m) (replicate (4096 - a) 0) (file_data F j))"
      using rewritten_block [OF v f q, of a "replicate (4096 - a) 0"] a lb pos by (simp add: b_def d_def)
    have "unat q * 4096 + 4096 \<le> 4096 * count_of j" using q by simp
    then have "unat m \<le> length (file_data F j)" using pos a length_file_data [OF f] by linarith
    then have "take (unat m) (put_slice (unat m) (replicate (4096 - a) 0) (file_data F j)) = take (unat m) (file_data F j)"
      by (simp add: put_slice_def)
    then have Q: "?Q j w" if "vol_at d0 sb (F(b := d)) w" for w using that r by blast
    have step: "triple (vol_at d0 sb F) (bind_act (vol_read_block ops w (replicate BLOCK_SIZE 0)) (\<lambda>block.
       let start = a in bind_act (vol_write_block ops w (put_slice start (replicate (length block - start) 0) block)) (\<lambda>_. return_act j))) ?Q E"
      if w: "unat w = b" for w
    proof -
      have "triple (vol_at d0 sb F) (vol_write_block ops w d) (\<lambda>_. vol_at d0 sb (F(b := d))) E"
        using write_block_at [OF g, of w d F E] w bt lb a by (simp add: d_def)
      then show ?thesis
        using w bt Q by (intro triple_bind_val [OF read_block_at [OF g]])
          (auto simp: BLOCK_SIZE_def Let_def d_def [symmetric] simp del: fun_upd_apply intro!: triple_bind triple_return_val)
    qed
    have "triple (vol_at d0 sb F) (bind_act (data_block ops j q) (\<lambda>found. bind_act (lift_res (ok_or F_CorruptInode found)) (\<lambda>w.
      bind_act (vol_read_block ops w (replicate BLOCK_SIZE 0)) (\<lambda>block.
      let start = a in bind_act (vol_write_block ops w (put_slice start (replicate (length block - start) 0) block)) (\<lambda>_. return_act j))))) ?Q E"
      using step by (intro found_block_at [OF g f(1) q]) (simp add: b_def)
    then show ?thesis unfolding mz u(1) q_def [symmetric] using True by simp
  next
    case False
    have "rewritten sb F j F (file_data F j)" using f(2) by (simp add: rewritten_def)
    then show ?thesis unfolding mz using False by (auto intro!: triple_return_val)
  qed
qed

lemma cut_file_at:
  assumes g: "vol_good d0 sb" and f: "file_ok F sb i" and c: "count_of i = blocks_for (unat (ino_size i))" and m: "m < ino_size i"
  shows "triple (vol_at d0 sb F) (bind_act (truncate_inode_blocks ops i (data_blocks_for_size m)) (\<lambda>j.
    if m \<noteq> 0 \<and> m mod of_nat BLOCK_SIZE \<noteq> 0 then
       bind_act (data_block ops j (m div of_nat BLOCK_SIZE)) (\<lambda>found.
       bind_act (lift_res (ok_or F_CorruptInode found)) (\<lambda>block_number.
       bind_act (vol_read_block ops block_number (replicate BLOCK_SIZE 0)) (\<lambda>block.
       let start = unat (m mod of_nat BLOCK_SIZE) in
       bind_act (vol_write_block ops block_number (put_slice start (replicate (length block - start) 0) block)) (\<lambda>_.
       return_act j))))
     else return_act j))
    (\<lambda>j v. \<exists>F'. vol_at d0 sb F' v \<and> (stored sb F i F' j \<and> count_of j = blocks_for (unat m) \<and>
      take (unat m) (file_data F' j) = take (unat m) (file_data F i))) E"
proof -
  note v = vol_goodD(2) [OF g]
  have keep: "unat (data_blocks_for_size m) = blocks_for (unat m)" by (simp add: unat_data_blocks blocks_for_def)
  have le: "unat (data_blocks_for_size m) \<le> count_of i"
    unfolding keep c using m by (intro blocks_for_bounds(2)) (simp add: word_less_nat_alt)
  show ?thesis
  proof (rule triple_bind_ex [OF shrink_blocks_at [OF g f le]], elim conjE)
    fix j F1 assume s: "stored sb F i F1 j" and cj: "count_of j = unat (data_blocks_for_size m)"
      and d: "file_data F1 j = take (4096 * unat (data_blocks_for_size m)) (file_data F i)"
    have f1: "file_ok F1 sb j" "blocks_ok sb F1" using s by (simp_all add: stored_def)
    have tk: "take (unat m) (file_data F1 j) = take (unat m) (file_data F i)"
      using d blocks_for_bounds(1) [of "unat m"] by (simp add: keep min_def)
    show "triple (vol_at d0 sb F1) (if m \<noteq> 0 \<and> m mod of_nat BLOCK_SIZE \<noteq> 0 then
       bind_act (data_block ops j (m div of_nat BLOCK_SIZE)) (\<lambda>found.
       bind_act (lift_res (ok_or F_CorruptInode found)) (\<lambda>block_number.
       bind_act (vol_read_block ops block_number (replicate BLOCK_SIZE 0)) (\<lambda>block.
       let start = unat (m mod of_nat BLOCK_SIZE) in
       bind_act (vol_write_block ops block_number (put_slice start (replicate (length block - start) 0) block)) (\<lambda>_.
       return_act j))))
     else return_act j)
      (\<lambda>j v. \<exists>F'. vol_at d0 sb F' v \<and> (stored sb F i F' j \<and> count_of j = blocks_for (unat m) \<and>
        take (unat m) (file_data F' j) = take (unat m) (file_data F i))) E"
    proof (rule triple_post [OF cut_block_at [OF g f1 cj [unfolded keep]]], elim exE conjE, goal_cases)
      case (1 k w F2 D)
      have "stored sb F i F2 j" by (rule stored_trans [OF s updated_stored [OF f1(1) rewritten_updated [OF v f1(1) 1(3)]]])
      then show ?case using 1 tk cj keep by (auto simp: rewritten_def)
    qed
  qed
qed

text \<open>The operation on a path.\<close>

lemma vol_truncate_at:
  assumes g: "vol_good d0 sb" and c: "fs_consistent F sb"
  shows "triple (vol_at d0 sb F) (vol_truncate ops p m)
    (\<lambda>_ v. file_changed d0 sb F p (\<lambda>C. take (unat m) (pad (unat m) C)) v)
    (change_failed d0 sb F p (unat m))"
proof (rule triple_vol [OF g])
  assume ok: "blocks_ok sb F"
  note st = consistent_storage [OF c]
  let ?f = "\<lambda>C. take (unat m) (pad (unat m) C)"
  let ?Q = "\<lambda>_ v. file_changed d0 sb F p ?f v" and ?E = "change_failed d0 sb F p (unat m)"
  have res: "triple (vol_at d0 sb F) (vol_resolve ops p)
    (\<lambda>x v. vol_at d0 sb F v \<and> path_lookup F sb p = Inr x \<and> node F sb (unat x) \<noteq> None) ?E"
    by (rule triple_conseq [OF resolve_at [OF g c]]) (auto simp: change_failed_def change_refused_def)
  show ?thesis
    unfolding vol_truncate_def
  proof (rule triple_bind_val [OF res], elim conjE exE, goal_cases)
    case (1 n)
    then obtain i where p: "path_lookup F sb p = Inr n" and n: "node F sb (unat n) = Some i" by blast
    note f = consistent_file [OF st n]
    have lc: "length (inode_contents F i) = unat (ino_size i)" by (rule length_contents [OF st ok n])
    show ?case
    proof (rule triple_bind_val [OF read_inode_at [OF g n]], simp only:, rule triple_if, goal_cases)
      case 1
      then show ?case using p n by (simp add: triple_def change_failed_def change_refused_def)
    next
      case 2
      then have kind: "ino_kind i = Regular" by simp
      show ?case
      proof (cases "unat m \<le> 4096 * 524")
        case False
        then have "ensure_file_size_supported m = Inl F_FileTooLarge"
          by (simp add: ensure_file_size_supported_def word_less_nat_alt unat_data_blocks nexfs_consts)
        then show ?thesis using False p n kind by (simp add: triple_def bind_act_def change_failed_def change_refused_def)
      next
        case fits: True
        then have sup: "ensure_file_size_supported m = Inr ()"
          by (simp add: ensure_file_size_supported_def word_less_nat_alt unat_data_blocks nexfs_consts)
        let ?A = "\<lambda>j v. \<exists>F'. vol_at d0 sb F' v \<and> (stored sb F i F' j \<and> count_of j = blocks_for (unat m) \<and>
          take (unat m) (file_data F' j) = ?f (inode_contents F i))"
        have change: "triple (vol_at d0 sb F) (if ino_size i < m then zero_range ops i (ino_size i) (m - ino_size i)
           else if m < ino_size i then
             bind_act (truncate_inode_blocks ops i (data_blocks_for_size m)) (\<lambda>j.
             if m \<noteq> 0 \<and> m mod of_nat BLOCK_SIZE \<noteq> 0 then
               bind_act (data_block ops j (m div of_nat BLOCK_SIZE)) (\<lambda>found.
               bind_act (lift_res (ok_or F_CorruptInode found)) (\<lambda>block_number.
               bind_act (vol_read_block ops block_number (replicate BLOCK_SIZE 0)) (\<lambda>block.
               let start = unat (m mod of_nat BLOCK_SIZE) in
               bind_act (vol_write_block ops block_number (put_slice start (replicate (length block - start) 0) block)) (\<lambda>_.
               return_act j))))
             else return_act j)
           else return_act i) ?A ?E"
        proof (cases "m < ino_size i")
          case True
          then have less: "unat m < unat (ino_size i)" "\<not> ino_size i < m" by (simp_all add: word_less_nat_alt)
          have "take (unat m) (file_data F i) = ?f (inode_contents F i)"
            using less(1) lc by (simp add: contents_data pad_def min_def)
          then show ?thesis using True less(2) cut_file_at [OF g f(1,3) True] by simp
        next
          case False
          then have mx: "max (unat (ino_size i)) (unat m) = unat m" by (simp add: word_less_nat_alt)
          have "triple (vol_at d0 sb F) (if ino_size i < m then zero_range ops i (ino_size i) (m - ino_size i) else return_act i) ?A ?E"
          proof (rule triple_conseq [OF gap_at [OF g st ok n fits, unfolded mx]])
            fix j s
            assume "\<exists>F'. vol_at d0 sb F' s \<and> (\<exists>N D. updated sb F i F' j N D \<and> length D = 4096 * blocks_for (unat m) \<and>
              take (unat m) D = pad (unat m) (inode_contents F i)) \<and> count_of j = blocks_for (unat m)"
            then obtain F' N D where u: "vol_at d0 sb F' s" "updated sb F i F' j N D"
              "take (unat m) D = pad (unat m) (inode_contents F i)" "count_of j = blocks_for (unat m)" by blast
            have "file_data F' j = D" using u(2) by (simp add: updated_def)
            moreover have "length (pad (unat m) (inode_contents F i)) = unat m" using lc mx by (simp add: pad_def)
            ultimately show "?A j s" using u updated_stored [OF f(1) u(2)] by auto
          next
            fix e s assume "no_space d0 sb F i (blocks_for (unat m)) e s"
            then show "?E e s" using p n kind mx by (auto simp: change_failed_def)
          qed
          then show ?thesis unfolding if_not_P [OF False] .
        qed
        show ?thesis
        proof (rule triple_bind_res [OF sup], rule triple_bind_ex [OF change], elim conjE)
          fix j F1 assume s: "stored sb F i F1 j" and cj: "count_of j = blocks_for (unat m)"
            and d: "take (unat m) (file_data F1 j) = ?f (inode_contents F i)"
          have sm: "same_meta i j" using s by (simp add: stored_def)
          have "triple (vol_at d0 sb F1) (bind_act next_timestamp (\<lambda>t.
            bind_act (vol_write_inode ops n (stamped (j\<lparr>ino_size := m\<rparr>) t)) (\<lambda>_. bind_act (finish_mutation ops) (\<lambda>_. return_act ())))) ?Q ?E"
          proof (rule store_file_at [OF g st n s cj], goal_cases)
            case 1
            then show ?case using kind by simp
          next
            case (2 F3 t)
            have "file_changed d0 sb F p ?f w" if "vol_at d0 (with_generation sb) F3 w" for w
              using 2(3) d by (intro changed_fileI [OF st p n kind 2(1) sm that 2(4)]) simp
            then show ?case by (auto intro!: triple_return_val)
          qed
          moreover have "bind_act (finish_mutation ops) (\<lambda>_. return_act ()) = finish_mutation ops"
            by (rule ext) (simp add: bind_act_def split: sum.splits prod.splits)
          ultimately show "triple (vol_at d0 sb F1) (bind_act next_timestamp (\<lambda>t.
            bind_act (vol_write_inode ops n (stamped (j\<lparr>ino_size := m\<rparr>) t)) (\<lambda>_. finish_mutation ops))) ?Q ?E" by simp
        qed
      qed
    qed
  qed
qed

end

end
