(* ===== verification/Nexfs_Create.thy ===== *)
theory Nexfs_Create
  imports Nexfs_Truncate
begin

text \<open>
  New files and directories: \<open>replace_directory\<close> writes the entries of a directory anew, and \<open>create\<close>
  adds an inode and an entry. On success the volume stays consistent, the new path names an empty file
  and every old path names what it named before.
\<close>

section \<open>The entries of a directory\<close>

definition entry_ok :: "directory_entry \<Rightarrow> bool" where
  "entry_ok e \<longleftrightarrow> name_ok (de_name e) \<and> de_inode e \<noteq> 0"

definition entry_bytes :: "directory_entry \<Rightarrow> bytes" where
  "entry_bytes e = de_fields e (crc32 (de_fields e 0))"

lemma entry_bytes:
  assumes "entry_ok e"
  shows "length (entry_bytes e) = 256" "de_decode (entry_bytes e) = Inr e"
    "length out = 256 \<Longrightarrow> de_encode e out = Inr (entry_bytes e)"
proof -
  note nm = name_okD [of "de_name e"]
  have n: "name_ok (de_name e)" "de_inode e \<noteq> 0" using assms by (simp_all add: entry_ok_def)
  show len: "length (entry_bytes e) = 256" using nm(2) n by (simp add: entry_bytes_def length_de_fields)
  show enc: "de_encode e out = Inr (entry_bytes e)" if "length out = 256" for out
    using de_encode_fields [of e out] nm n that by (simp add: entry_bytes_def)
  obtain b where "de_encode e (replicate 256 0) = Inr b" "de_decode b = Inr e"
    using de_round_trip [OF n, of "replicate 256 0"] by auto
  then show "de_decode (entry_bytes e) = Inr e" using enc [of "replicate 256 0"] by simp
qed

lemma de_decode_ok: "de_decode b = Inr e \<Longrightarrow> entry_ok e"
  by (auto simp: de_decode_def entry_ok_def name_ok_def Let_def bind_res_Inr_iff split: if_splits sum.splits)

lemma entries_ok: "inode_entries F i = Inr es \<Longrightarrow> e \<in> set es \<Longrightarrow> entry_ok e"
  using map_res_nth [of de_decode "entry_chunks (inode_contents F i)" es]
  by (auto simp: inode_entries_def in_set_conv_nth intro: de_decode_ok)

lemma entries_of_bytes:
  assumes ok: "\<And>e. e \<in> set es \<Longrightarrow> entry_ok e" and c: "inode_contents F i = concat (map entry_bytes es)"
  shows "inode_entries F i = Inr es"
proof -
  let ?xs = "map entry_bytes es"
  have len: "\<And>x. x \<in> set ?xs \<Longrightarrow> length x = 256" using entry_bytes(1) [OF ok] by auto
  have total: "length (concat ?xs) = length es * 256" using length_concat_uniform [OF len, of ?xs] by simp
  have "slice (k * 256) 256 (concat ?xs) = entry_bytes (es ! k)" if k: "k < length es" for k
  proof -
    have "drop (k * 256) (concat ?xs) = ?xs ! k @ concat (drop (Suc k) ?xs)"
      using drop_concat_uniform [of ?xs 256 k] len k by (simp add: Cons_nth_drop_Suc [symmetric])
    moreover have "length (?xs ! k) = 256" using k by (intro len nth_mem) simp
    ultimately show ?thesis using k by (simp add: slice_def)
  qed
  then have "entry_chunks (inode_contents F i) = ?xs"
    unfolding c entry_chunks_def DIR_ENTRY_SIZE_def total by (intro nth_equalityI) simp_all
  moreover have "map_res de_decode ?xs = Inr es"
    using entry_bytes(2) [OF ok] by (simp add: map_res_Inr_iff list_all2_conv_all_nth)
  ultimately show ?thesis by (simp add: inode_entries_def)
qed

section \<open>The size of an inode\<close>

text \<open>The loop of \<open>replace_directory\<close> keeps the size of the inode up to date; the blocks do not depend on it.\<close>

lemma size_simps [simp]:
  "count_of (i\<lparr>ino_size := s\<rparr>) = count_of i" "inode_blocks F (i\<lparr>ino_size := s\<rparr>) = inode_blocks F i"
  "data_blocks F (i\<lparr>ino_size := s\<rparr>) = data_blocks F i" "file_data F (i\<lparr>ino_size := s\<rparr>) = file_data F i"
  "file_ok F sb (i\<lparr>ino_size := s\<rparr>) = file_ok F sb i" "too_few sb F (i\<lparr>ino_size := s\<rparr>) c = too_few sb F i c"
  by (simp_all add: count_of_def inode_blocks_def data_blocks_def indirect_blocks_def file_data_def pointers_def file_ok_def too_few_def)

lemma updated_size: "updated sb F i F' j N D \<Longrightarrow> updated sb F (i\<lparr>ino_size := s\<rparr>) F' (j\<lparr>ino_size := s\<rparr>) N D"
  by (simp add: updated_def same_meta_def extends_def)

text \<open>Too few blocks for a file that has been stored anew are too few for the file before.\<close>

lemma stored_space:
  assumes f: "file_ok F sb i" and s: "stored sb F i F' j"
  shows "too_few sb F' j c = too_few sb F i c"
proof -
  let ?I = "set (inode_blocks F i)" and ?J = "set (inode_blocks F' j)"
  have fj: "file_ok F' sb j" using s by (simp add: stored_def)
  have I: "\<And>b. b \<in> ?I \<Longrightarrow> data_of sb \<le> b \<and> b < total_of sb \<and> used F sb b" using f by (simp add: file_ok_def)
  have J: "\<And>b. b \<in> ?J \<Longrightarrow> data_of sb \<le> b \<and> b < total_of sb \<and> used F' sb b" using fj by (simp add: file_ok_def)
  have all: "free_blocks F sb \<union> ?I = free_blocks F' sb \<union> ?J"
  proof (intro equalityI subsetI)
    fix b assume b: "b \<in> free_blocks F sb \<union> ?I"
    then have "data_of sb \<le> b" "b < total_of sb" "\<not> used F sb b \<or> b \<in> ?I" using I by (auto simp: free_blocks_def)
    then show "b \<in> free_blocks F' sb \<union> ?J" using s by (auto simp: free_blocks_def stored_def)
  next
    fix b assume b: "b \<in> free_blocks F' sb \<union> ?J"
    then have r: "data_of sb \<le> b" "b < total_of sb" using J by (auto simp: free_blocks_def)
    have "\<not> used F sb b \<or> b \<in> ?I" using b s r unfolding stored_def free_blocks_def by blast
    then show "b \<in> free_blocks F sb \<union> ?I" using r by (auto simp: free_blocks_def)
  qed
  have "card (free_blocks F sb) + card ?I = card (free_blocks F sb \<union> ?I)"
    using I by (intro card_Un_disjoint [symmetric]) (auto simp: free_blocks_def)
  moreover have "card (free_blocks F' sb) + card ?J = card (free_blocks F' sb \<union> ?J)"
    using J by (intro card_Un_disjoint [symmetric]) (auto simp: free_blocks_def)
  ultimately show ?thesis using all card_inode_blocks [OF f] card_inode_blocks [OF fj] by (simp add: too_few_def)
qed

section \<open>Writing the entries\<close>

lemma append_contents:
  fixes s :: nat and x D :: bytes
  assumes "length D = 4096 * blocks_for s"
  defines "D' \<equiv> put_slice s x (pad (4096 * blocks_for (s + length x)) D)"
  shows "length D' = 4096 * blocks_for (s + length x)" "take (s + length x) D' = take s D @ x"
proof -
  have b: "blocks_for s \<le> blocks_for (s + length x)" "s \<le> 4096 * blocks_for s" "s + length x \<le> 4096 * blocks_for (s + length x)"
    by (simp_all add: blocks_for_bounds)
  then have l: "length (pad (4096 * blocks_for (s + length x)) D) = 4096 * blocks_for (s + length x)"
    using assms(1) by (simp add: pad_def)
  then show "length D' = 4096 * blocks_for (s + length x)" using b by (simp add: D'_def)
  have "take s (pad (4096 * blocks_for (s + length x)) D) = take s D" using assms(1) b(2) by (simp add: pad_def)
  then show "take (s + length x) D' = take s D @ x" using l b assms(1) by (simp add: D'_def put_slice_def)
qed

text \<open>The first entries of a directory are written.\<close>

definition entries_written :: "superblock \<Rightarrow> blocks \<Rightarrow> inode \<Rightarrow> blocks \<Rightarrow> inode \<Rightarrow> directory_entry list \<Rightarrow> bool" where
  "entries_written sb F i F' j es \<longleftrightarrow>
    (\<exists>N D. updated sb F (i\<lparr>ino_size := of_nat (256 * length es)\<rparr>) F' j N D \<and>
      length D = 4096 * blocks_for (256 * length es) \<and> take (256 * length es) D = concat (map entry_bytes es)) \<and>
    count_of j = blocks_for (256 * length es)"

lemma entries_written_append:
  assumes w: "entries_written sb F i F' j es" and u: "updated sb F' j F2 k N
      (put_slice (256 * length es) (entry_bytes e) (pad (4096 * blocks_for (256 * length es + 256)) (file_data F' j)))"
    and e: "entry_ok e" and c: "count_of k = max (count_of j) (blocks_for (256 * length es + 256))"
  shows "entries_written sb F i F2 (k\<lparr>ino_size := of_nat (256 * Suc (length es))\<rparr>) (es @ [e])"
proof -
  obtain N0 D where D: "updated sb F (i\<lparr>ino_size := of_nat (256 * length es)\<rparr>) F' j N0 D"
    "length D = 4096 * blocks_for (256 * length es)" "take (256 * length es) D = concat (map entry_bytes es)"
    using w by (auto simp: entries_written_def)
  have le: "length (entry_bytes e) = 256" by (rule entry_bytes(1) [OF e])
  have fd: "file_data F' j = D" using D(1) by (simp add: updated_def)
  note app = append_contents [OF D(2), of "entry_bytes e", unfolded le]
  have len: "256 * length (es @ [e]) = 256 * length es + 256" by simp
  have "blocks_for (256 * length es) \<le> blocks_for (256 * length es + 256)" by (simp add: blocks_for_bounds(2))
  then have cnt: "count_of k = blocks_for (256 * length (es @ [e]))" using c w by (simp add: entries_written_def add.commute)
  let ?D = "put_slice (256 * length es) (entry_bytes e) (pad (4096 * blocks_for (256 * length es + 256)) D)"
  have "updated sb F (i\<lparr>ino_size := of_nat (256 * length es)\<rparr>) F2 k (N0 \<union> N) ?D"
    using updated_trans [OF D(1) u] unfolding fd .
  from updated_size [OF this, of "of_nat (256 * length (es @ [e]))"]
  have "updated sb F (i\<lparr>ino_size := of_nat (256 * length (es @ [e]))\<rparr>) F2 (k\<lparr>ino_size := of_nat (256 * Suc (length es))\<rparr>) (N0 \<union> N) ?D"
    by simp
  moreover have "length ?D = 4096 * blocks_for (256 * length (es @ [e]))" "take (256 * length (es @ [e])) ?D = concat (map entry_bytes (es @ [e]))"
    unfolding len using app D(3) by simp_all
  ultimately show ?thesis unfolding entries_written_def using cnt by auto
qed

context reliable_device
begin

lemma no_space_size [simp]: "no_space d0 sb F (i\<lparr>ino_size := s\<rparr>) c e v = no_space d0 sb F i c e v"
  by (simp add: no_space_def exhausted_def)

lemma write_entry_at:
  assumes g: "vol_good d0 sb" and f: "file_ok F sb i" and w: "entries_written sb F i F' j es" and e: "entry_ok e"
    and fits: "256 * Suc (length es) \<le> 4096 * 524" and buf: "length buf = 256"
  shows "triple (vol_at d0 sb F') (write_entry ops e (j, buf))
    (\<lambda>(k, buf) v. \<exists>F2. vol_at d0 sb F2 v \<and> entries_written sb F i F2 k (es @ [e]) \<and> length buf = 256)
    (no_space d0 sb F i (blocks_for (256 * Suc (length es))))"
proof -
  obtain N0 D where D: "updated sb F (i\<lparr>ino_size := of_nat (256 * length es)\<rparr>) F' j N0 D" using w by (auto simp: entries_written_def)
  have sz: "ino_size j = of_nat (256 * length es)" and fj: "file_ok F' sb j" using D by (simp_all add: updated_def same_meta_def)
  have us: "unat (ino_size j) = 256 * length es" using fits unfolding sz by (intro unat_of_nat_fits) simp
  note eb = entry_bytes [OF e]
  have ne: "entry_bytes e \<noteq> []" using eb(1) by auto
  have fits': "unat (ino_size j) + length (entry_bytes e) \<le> 4096 * 524" using fits us eb(1) by simp
  note wr = write_inode_data_at [OF g fj fits' ne, unfolded us eb(1)]
  have suc: "256 * length es + 256 = 256 * Suc (length es)" by simp
  have "triple (vol_at d0 sb F') (bind_act (write_inode_data ops j (ino_size j) (entry_bytes e)) (\<lambda>i.
      return_act (i\<lparr>ino_size := ino_size i + of_nat DIR_ENTRY_SIZE\<rparr>, entry_bytes e)))
    (\<lambda>(k, buf) v. \<exists>F2. vol_at d0 sb F2 v \<and> entries_written sb F i F2 k (es @ [e]) \<and> length buf = 256)
    (no_space d0 sb F i (blocks_for (256 * Suc (length es))))"
  proof (rule triple_bind_ex [OF triple_conseq [OF wr]], assumption, assumption)
    fix err s assume "no_space d0 sb F' j (blocks_for (256 * length es + 256)) err s"
    then have "no_space d0 sb F (i\<lparr>ino_size := of_nat (256 * length es)\<rparr>) (blocks_for (256 * length es + 256)) err s"
      using f by (intro no_space_trans [OF _ D]) simp_all
    then show "no_space d0 sb F i (blocks_for (256 * Suc (length es))) err s" by (simp add: add.commute)
  next
    fix k F2
    assume "(\<exists>N. updated sb F' j F2 k N (put_slice (256 * length es) (entry_bytes e) (pad (4096 * blocks_for (256 * length es + 256)) (file_data F' j)))) \<and>
      count_of k = max (count_of j) (blocks_for (256 * length es + 256))"
    then obtain N where u: "updated sb F' j F2 k N (put_slice (256 * length es) (entry_bytes e) (pad (4096 * blocks_for (256 * length es + 256)) (file_data F' j)))"
      and c: "count_of k = max (count_of j) (blocks_for (256 * length es + 256))" by blast
    have "ino_size k + of_nat DIR_ENTRY_SIZE = of_nat (256 * Suc (length es))"
      using u sz by (simp add: updated_def same_meta_def DIR_ENTRY_SIZE_def)
    then show "triple (vol_at d0 sb F2) (return_act (k\<lparr>ino_size := ino_size k + of_nat DIR_ENTRY_SIZE\<rparr>, entry_bytes e))
      (\<lambda>(k, buf) v. \<exists>F2. vol_at d0 sb F2 v \<and> entries_written sb F i F2 k (es @ [e]) \<and> length buf = 256)
      (no_space d0 sb F i (blocks_for (256 * Suc (length es))))"
      using entries_written_append [OF w u e c] eb(1) by (auto intro!: triple_return_val)
  qed
  then show ?thesis
    unfolding write_entry_def Let_def prod.case using eb(3) [OF buf] by (simp add: triple_bind_res)
qed

lemma triple_pre_ex:
  assumes h: "\<And>F. A F \<Longrightarrow> triple (R F) m Q E"
  shows "triple (\<lambda>s. \<exists>F. R F s \<and> A F) m Q E"
  by (rule tripleI) (use tripleD [OF h] triple_errorD [OF h] in blast)+

lemma write_entries_at:
  assumes g: "vol_good d0 sb" and f: "file_ok F sb i" and z: "count_of i = 0" and es: "\<And>e. e \<in> set es \<Longrightarrow> entry_ok e"
    and fits: "256 * length es \<le> 4096 * 524"
  shows "triple (vol_at d0 sb F) (fold_act (write_entry ops) es (i\<lparr>ino_size := 0\<rparr>, replicate DIR_ENTRY_SIZE 0))
    (\<lambda>(k, buf) v. \<exists>F2. vol_at d0 sb F2 v \<and> entries_written sb F i F2 k es)
    (no_space d0 sb F i (blocks_for (256 * length es)))"
proof (rule triple_vol [OF g])
  assume ok: "blocks_ok sb F"
  let ?E = "no_space d0 sb F i (blocks_for (256 * length es))"
  define I where "I = (\<lambda>k (s :: inode \<times> bytes) v. \<exists>F2. vol_at d0 sb F2 v \<and> entries_written sb F i F2 (fst s) (take k es) \<and> length (snd s) = 256)"
  have "triple (I 0 (i\<lparr>ino_size := 0\<rparr>, replicate DIR_ENTRY_SIZE 0)) (fold_act (write_entry ops) es (i\<lparr>ino_size := 0\<rparr>, replicate DIR_ENTRY_SIZE 0)) (I (length es)) ?E"
  proof (rule triple_fold)
    fix k and b :: "inode \<times> bytes" assume k: "k < length es"
    obtain j buf where b: "b = (j, buf)" by (cases b)
    have step: "triple (vol_at d0 sb F2) (write_entry ops (es ! k) (j, buf)) (I (Suc k)) ?E"
      if w: "entries_written sb F i F2 j (take k es)" "length buf = 256" for F2
    proof (rule triple_conseq [OF write_entry_at [OF g f w(1) _ _ w(2)]])
      show "entry_ok (es ! k)" using k es by simp
      show fits': "256 * Suc (length (take k es)) \<le> 4096 * 524" using k fits by simp
      fix x s
      show "(case x of (k', buf) \<Rightarrow> \<lambda>v. \<exists>F2. vol_at d0 sb F2 v \<and> entries_written sb F i F2 k' (take k es @ [es ! k]) \<and> length buf = 256) s \<Longrightarrow> I (Suc k) x s"
        unfolding I_def take_Suc_conv_app_nth [OF k] by (cases x) simp
    next
      fix e s assume "no_space d0 sb F i (blocks_for (256 * Suc (length (take k es)))) e s"
      then show "?E e s" by (rule no_space_mono [rotated]) (use k in \<open>simp add: blocks_for_bounds(2)\<close>)
    qed
    have I: "I k b = (\<lambda>v. \<exists>F2. vol_at d0 sb F2 v \<and> (entries_written sb F i F2 j (take k es) \<and> length buf = 256))"
      by (simp add: I_def b)
    show "triple (I k b) (write_entry ops (es ! k) b) (I (Suc k)) ?E"
      unfolding I unfolding b by (rule triple_pre_ex) (use step in blast)
  qed
  then show ?thesis
  proof (rule triple_conseq)
    have "file_data F i = []" using length_file_data [OF f ok] z by simp
    then have "updated sb F (i\<lparr>ino_size := 0\<rparr>) F (i\<lparr>ino_size := 0\<rparr>) {} []"
      using updated_size [OF updated_refl [OF ok f], of 0] by simp
    then have "entries_written sb F i F (i\<lparr>ino_size := 0\<rparr>) []" using z by (auto simp: entries_written_def blocks_for_def)
    then show "I 0 (i\<lparr>ino_size := 0\<rparr>, replicate DIR_ENTRY_SIZE 0) s" if "vol_at d0 sb F s" for s
      using that by (auto simp: I_def DIR_ENTRY_SIZE_def)
  qed (auto simp: I_def)
qed

lemma replace_directory_at:
  assumes g: "vol_good d0 sb" and f: "file_ok F sb i" and kind: "ino_kind i = Directory"
    and es: "\<And>e. e \<in> set es \<Longrightarrow> entry_ok e" and len: "length es < 2 ^ 32"
  shows "triple (vol_at d0 sb F) (replace_directory ops i es)
    (\<lambda>j v. \<exists>F'. vol_at d0 sb F' v \<and> (stored sb F i F' (j\<lparr>ino_size := ino_size i\<rparr>) \<and> unat (ino_size j) = 256 * length es \<and>
      count_of j = blocks_for (256 * length es) \<and> take (256 * length es) (file_data F' j) = concat (map entry_bytes es)))
    (\<lambda>e v. e = F_NoSpace \<and> too_few sb F i (blocks_for (256 * length es)) \<or>
      e = F_FileTooLarge \<and> 4096 * 524 < 256 * length es \<and> vol_at d0 sb F v)"
proof -
  let ?Q = "\<lambda>j v. \<exists>F'. vol_at d0 sb F' v \<and> (stored sb F i F' (j\<lparr>ino_size := ino_size i\<rparr>) \<and> unat (ino_size j) = 256 * length es \<and>
      count_of j = blocks_for (256 * length es) \<and> take (256 * length es) (file_data F' j) = concat (map entry_bytes es))"
  let ?E = "\<lambda>e v. e = F_NoSpace \<and> too_few sb F i (blocks_for (256 * length es)) \<or> e = F_FileTooLarge \<and> 4096 * 524 < 256 * length es \<and> vol_at d0 sb F v"
  note v = vol_goodD(2) [OF g]
  define w :: u64 where "w = of_nat (256 * length es)"
  have uw: "unat w = 256 * length es" unfolding w_def using len by (intro unat_of_nat_fits) simp
  have ul: "unat (of_nat (length es) :: u64) = length es" using len by (intro unat_of_nat_fits) simp
  have mul: "checked_mul (of_nat (length es)) (of_nat DIR_ENTRY_SIZE) = Some w"
    using ul len by (simp add: checked_mul_def DIR_ENTRY_SIZE_def w_def mult.commute)
  have n: "unat (data_blocks_for_size w) = blocks_for (256 * length es)" by (simp add: unat_data_blocks uw blocks_for_def)
  have eq: "replace_directory ops i es = bind_act (lift_res (ok_or F_TooLarge (checked_mul (of_nat (length es)) (of_nat DIR_ENTRY_SIZE)))) (\<lambda>new_size.
       bind_act (lift_res (ensure_file_size_supported new_size)) (\<lambda>_.
       bind_act (truncate_inode_blocks ops i 0) (\<lambda>i.
       bind_act (fold_act (write_entry ops) es (i\<lparr>ino_size := 0\<rparr>, replicate DIR_ENTRY_SIZE 0)) (\<lambda>(i, _).
       return_act i))))"
    using kind by (simp add: replace_directory_def)
  show ?thesis
  proof (cases "256 * length es \<le> 4096 * 524")
    case False
    then have "ensure_file_size_supported w = Inl F_FileTooLarge"
      by (simp add: ensure_file_size_supported_def word_less_nat_alt n blocks_for_def nexfs_consts)
    then show ?thesis unfolding eq using False mul by (simp add: triple_def bind_act_def)
  next
    case True
    then have sup: "ensure_file_size_supported w = Inr ()"
      by (simp add: ensure_file_size_supported_def word_less_nat_alt n blocks_for_def nexfs_consts)
    have "triple (vol_at d0 sb F) (bind_act (truncate_inode_blocks ops i 0) (\<lambda>i.
       bind_act (fold_act (write_entry ops) es (i\<lparr>ino_size := 0\<rparr>, replicate DIR_ENTRY_SIZE 0)) (\<lambda>(i, _). return_act i))) ?Q ?E"
    proof (rule triple_bind_ex [OF shrink_blocks_at [OF g f]], simp, elim conjE)
      fix j F1 assume s: "stored sb F i F1 j" and z: "count_of j = unat (0 :: u64)"
      have f1: "file_ok F1 sb j" and sm: "same_meta i j" using s by (simp_all add: stored_def)
      have sz: "j\<lparr>ino_size := ino_size i\<rparr> = j" using sm by (cases j) (simp add: same_meta_def)
      have final: "?Q k u" if k: "vol_at d0 sb F2 u" "entries_written sb F1 j F2 k es" for F2 k u
      proof -
        obtain N D where D: "updated sb F1 (j\<lparr>ino_size := w\<rparr>) F2 k N D" "take (256 * length es) D = concat (map entry_bytes es)"
          "count_of k = blocks_for (256 * length es)" using k(2) by (auto simp: entries_written_def w_def)
        have "updated sb F1 j F2 (k\<lparr>ino_size := ino_size i\<rparr>) N D" using updated_size [OF D(1), of "ino_size i"] sz by simp
        then have "stored sb F i F2 (k\<lparr>ino_size := ino_size i\<rparr>)" by (intro stored_trans [OF s] updated_stored [OF f1])
        moreover have "file_data F2 k = D" "ino_size k = w" using D(1) by (simp_all add: updated_def same_meta_def)
        ultimately show ?thesis using k(1) D(2,3) uw by blast
      qed
      have "?E e u" if "no_space d0 sb F1 j (blocks_for (256 * length es)) e u" for e u
        using that stored_space [OF f s] by (auto simp: no_space_def)
      then have "triple (vol_at d0 sb F1) (fold_act (write_entry ops) es (j\<lparr>ino_size := 0\<rparr>, replicate DIR_ENTRY_SIZE 0))
          (\<lambda>(k, buf) v. \<exists>F2. vol_at d0 sb F2 v \<and> entries_written sb F1 j F2 k es) ?E"
        using z True es by (intro triple_conseq [OF write_entries_at [OF g f1]]) auto
      then show "triple (vol_at d0 sb F1) (bind_act (fold_act (write_entry ops) es (j\<lparr>ino_size := 0\<rparr>, replicate DIR_ENTRY_SIZE 0)) (\<lambda>(i, _). return_act i)) ?Q ?E"
        by (rule triple_bind) (use final in \<open>auto simp: triple_def\<close>)
    qed
    then show ?thesis unfolding eq by (intro triple_bind_res [where x = w] triple_bind_res [OF sup]) (simp_all add: mul)
  qed
qed

end

section \<open>A new inode\<close>

definition empty_inode :: "inode \<Rightarrow> bool" where
  "empty_inode k \<longleftrightarrow> ino_direct_blocks k = replicate 12 0 \<and> ino_indirect_block k = 0 \<and> ino_block_count k = 0 \<and> ino_size k = 0"

text \<open>The free inode \<open>n\<close> has become the empty inode \<open>k\<close>, and nothing else has changed.\<close>

definition added :: "superblock \<Rightarrow> nat \<Rightarrow> blocks \<Rightarrow> blocks \<Rightarrow> inode \<Rightarrow> bool" where
  "added sb n F F' k \<longleftrightarrow>
    2 \<le> n \<and> n < inodes_of sb \<and> \<not> bm_bit (F 2) n \<and> empty_inode k \<and> inode_at F' sb n = Inr k \<and> blocks_ok sb F' \<and>
    (\<forall>m < inodes_of sb. bm_bit (F' 2) m \<longleftrightarrow> m = n \<or> bm_bit (F 2) m) \<and>
    (\<forall>m < inodes_of sb. m \<noteq> n \<longrightarrow> inode_at F' sb m = inode_at F sb m) \<and>
    (\<forall>x. data_of sb \<le> x \<or> x \<in> bitmap_area sb \<longrightarrow> F' x = F x)"

lemma written_added:
  assumes v: "sb_validate sb = Inr ()" and n: "2 \<le> n" "n < inodes_of sb" "\<not> bm_bit (F 2) n"
    and m: "inode_marked sb n True F F1" and w: "slot_written sb n F1 F2" "inode_at F2 sb n = Inr k" and k: "empty_inode k"
  shows "added sb n F F2 k"
proof -
  note geo = sb_validD [OF v]
  have i: "inodes_of sb \<le> 32768" by (rule inode_count_valid(3) [OF v])
  have two: "F2 2 = F1 2" using w(1) geo(5) by (simp add: slot_written_def)
  have "inode_at F2 sb x = inode_at F sb x" if "x \<noteq> n" for x
  proof -
    have "inode_at F2 sb x = inode_at F1 sb x" using w(1) that by (simp add: slot_written_def)
    moreover have "table_of sb + x * 256 div 4096 \<noteq> 2" using geo(5) by linarith
    ultimately show ?thesis using m by (simp add: inode_at_def inode_marked_def)
  qed
  moreover have "F2 x = F x" if "data_of sb \<le> x \<or> x \<in> bitmap_area sb" for x
  proof -
    have "x \<notin> {table_of sb..<data_of sb}" "x \<noteq> 2" using that geo(5,6) by (auto simp: bitmap_area_def)
    then show ?thesis using w(1) m by (simp add: slot_written_def inode_marked_def)
  qed
  moreover have "bm_bit (F2 2) x \<longleftrightarrow> x = n \<or> bm_bit (F 2) x" if "x < inodes_of sb" for x
    using m that i two by (simp add: inode_marked_def)
  ultimately show ?thesis using n w k by (auto simp: added_def slot_written_def)
qed

lemma empty_inode_blocks: "empty_inode k \<Longrightarrow> inode_blocks F k = [] \<and> inode_contents F k = [] \<and> inode_entries F k = Inr [] \<and> inode_valid F sb k"
  by (simp add: empty_inode_def inode_blocks_def data_blocks_def indirect_blocks_def inode_contents_def inode_entries_def entry_chunks_def inode_valid_def)

lemma added_node:
  assumes "added sb n F F' k"
  shows "node F' sb m = (if m = n then Some k else node F sb m)" "node F sb n = None"
  using assms by (auto simp: node_def added_def)

lemma added_other:
  assumes c: "storage_ok F sb" and a: "added sb n F F' k" and m: "node F sb m = Some i"
  shows "inode_blocks F' i = inode_blocks F i" "inode_contents F' i = inode_contents F i" "inode_entries F' i = inode_entries F i"
    "inode_valid F' sb i"
proof -
  note f = consistent_file(1) [OF c m]
  have same: "F' b = F b" if "b \<in> set (inode_blocks F i)" for b
    using that f a by (simp add: file_ok_def added_def)
  show "inode_blocks F' i = inode_blocks F i" "inode_contents F' i = inode_contents F i" "inode_entries F' i = inode_entries F i"
    using same_blocks(1,3,4) [OF f same] by blast+
  show "inode_valid F' sb i" by (rule same_blocks_valid [OF f same consistent_node(1) [OF c m]])
qed

lemma added_owned:
  assumes c: "storage_ok F sb" and a: "added sb n F F' k"
  shows "owned_by F' sb m = owned_by F sb m"
proof (cases "m = n")
  case True
  have "empty_inode k" using a by (simp add: added_def)
  then show ?thesis using True added_node(1) [OF a, of n] added_node(2) [OF a] empty_inode_blocks [of k F'] by (simp add: owned_by_def)
next
  case False
  then show ?thesis using added_node(1) [OF a, of m] added_other(1) [OF c a, of m] by (auto simp: owned_by_def split: option.splits)
qed

lemma added_storage:
  assumes c: "storage_ok F sb" and a: "added sb n F F' k"
  shows "storage_ok F' sb"
proof -
  note own = added_owned [OF c a] and nd = added_node [OF a]
  have us: "used F' sb b = used F sb b" for b using a by (intro used_cong) (simp add: added_def)
  have "\<exists>i. node F' sb m = Some i \<and> inode_valid F' sb i" if m: "1 \<le> m" "m < inodes_of sb" "bm_bit (F' 2) m" for m
  proof (cases "m = n")
    case True
    then show ?thesis using nd empty_inode_blocks [of k F' sb] a by (auto simp: added_def)
  next
    case False
    then have "bm_bit (F 2) m" using m a by (simp add: added_def)
    then obtain i where "node F sb m = Some i" using c m unfolding storage_ok_def by blast
    then show ?thesis using False nd added_other(4) [OF c a, of m i] by auto
  qed
  then show ?thesis unfolding storage_ok_def own using c us by (simp add: storage_ok_def used_def)
qed

lemma added_children:
  assumes c: "storage_ok F sb" and a: "added sb n F F' k"
  shows "children F' sb m = children F sb m"
proof (cases "m = n")
  case True
  have "empty_inode k" using a by (simp add: added_def)
  then show ?thesis using True added_node(1) [OF a, of n] added_node(2) [OF a] empty_inode_blocks [of k F'] by (simp add: children_def)
next
  case False
  then show ?thesis using added_node(1) [OF a, of m] added_other(3) [OF c a, of m] by (auto simp: children_def split: option.splits)
qed

section \<open>A new entry\<close>

lemma children_nodes:
  assumes c: "fs_consistent F sb" and m: "m \<in> set (children F sb q)"
  shows "node F sb m \<noteq> None" "1 < m"
proof -
  have "children F sb q = []" if "\<not> is_directory F sb q"
    using that by (cases "node F sb q") (simp_all add: children_def is_directory_def)
  then have "is_directory F sb q" using m by (cases "is_directory F sb q") auto
  then have "directory_sound F sb q" using c by (simp add: fs_consistent_def)
  then obtain i es where "node F sb q = Some i" "ino_kind i = Directory" "inode_entries F i = Inr es" "\<forall>e \<in> set es. entry_sound F sb e"
    by (auto simp: directory_sound_def)
  then show "node F sb m \<noteq> None" "1 < m" using m by (auto simp: children_def entry_sound_def)
qed

text \<open>The directory \<open>p\<close> has got an entry for the new inode.\<close>

definition attached :: "superblock \<Rightarrow> nat \<Rightarrow> blocks \<Rightarrow> blocks \<Rightarrow> inode \<Rightarrow> inode \<Rightarrow> directory_entry list \<Rightarrow> directory_entry \<Rightarrow> bool" where
  "attached sb p F F' d k es e \<longleftrightarrow>
    (\<exists>F1 d'. added sb (unat (de_inode e)) F F1 k \<and> node F sb p = Some d \<and> ino_kind d = Directory \<and> inode_entries F d = Inr es \<and>
      replaced sb p F1 F' d' \<and> ino_kind d' = Directory \<and> inode_entries F' d' = Inr (es @ [e]) \<and>
      de_kind e = ino_kind k \<and> de_name e \<notin> de_name ` set es)"

lemma attached_nodes:
  assumes c: "fs_consistent F sb" and a: "attached sb p F F' d k es e"
  shows "unat (de_inode e) \<noteq> p" "node F sb (unat (de_inode e)) = None" "1 < unat (de_inode e)"
    "\<exists>d'. node F' sb p = Some d' \<and> ino_kind d' = Directory \<and> inode_entries F' d' = Inr (es @ [e])"
    "m \<noteq> p \<Longrightarrow> node F' sb m = (if m = unat (de_inode e) then Some k else node F sb m)"
    "m \<noteq> p \<Longrightarrow> node F sb m = Some i \<Longrightarrow> inode_entries F' i = inode_entries F i \<and> inode_contents F' i = inode_contents F i"
    "inode_entries F' k = Inr [] \<and> inode_contents F' k = []"
    "children F' sb m = (if m = p then children F sb p @ [unat (de_inode e)] else children F sb m)"
    "storage_ok F' sb"
proof -
  let ?n = "unat (de_inode e)"
  note st = consistent_storage [OF c]
  obtain F1 d' where h: "added sb ?n F F1 k" "node F sb p = Some d" "ino_kind d = Directory" "inode_entries F d = Inr es"
    "replaced sb p F1 F' d'" "ino_kind d' = Directory" "inode_entries F' d' = Inr (es @ [e])"
    using a by (auto simp: attached_def)
  note an = added_node [OF h(1)] and st1 = added_storage [OF st h(1)]
  show none: "node F sb ?n = None" by (rule an(2))
  show np: "?n \<noteq> p" using none h(2) by auto
  show "1 < ?n" using h(1) by (simp add: added_def)
  have p1: "node F1 sb p = Some d" using an(1) [of p] np h(2) by simp
  note rn = replaced_node [OF st1 p1 h(5)]
  show d: "\<exists>d'. node F' sb p = Some d' \<and> ino_kind d' = Directory \<and> inode_entries F' d' = Inr (es @ [e])" using rn h(6,7) by simp
  show "node F' sb m = (if m = ?n then Some k else node F sb m)" if "m \<noteq> p" using rn an(1) that by simp
  show other: "inode_entries F' i = inode_entries F i \<and> inode_contents F' i = inode_contents F i" if "m \<noteq> p" "node F sb m = Some i" for m i
  proof -
    have "node F1 sb m = Some i" using an that none by auto
    then show ?thesis using replaced_other(2,3) [OF st1 h(5) that(1)] added_other(2,3) [OF st h(1) that(2)] by simp
  qed
  have k: "empty_inode k" using h(1) by (simp add: added_def)
  then show "inode_entries F' k = Inr [] \<and> inode_contents F' k = []" using empty_inode_blocks by blast
  have "children F' sb p = children F sb p @ [?n]" using d h(2-4) by (auto simp: children_def)
  then show "children F' sb m = (if m = p then children F sb p @ [?n] else children F sb m)"
    using replaced_children [OF st1 p1 h(5), of m] added_children [OF st h(1), of m] by simp
  show "storage_ok F' sb" by (rule replaced_storage [OF st1 p1 h(5)])
qed

lemma attached_consistent:
  assumes c: "fs_consistent F sb" and a: "attached sb p F F' d k es e"
  shows "fs_consistent F' sb"
proof -
  let ?n = "unat (de_inode e)"
  note an = attached_nodes [OF c a]
  have h: "node F sb p = Some d" "ino_kind d = Directory" "inode_entries F d = Inr es" "de_kind e = ino_kind k" "de_name e \<notin> de_name ` set es"
    using a by (auto simp: attached_def)
  obtain d' where d': "node F' sb p = Some d'" "ino_kind d' = Directory" "inode_entries F' d' = Inr (es @ [e])" using an(4) by blast
  have some: "node F' sb m \<noteq> None \<longleftrightarrow> m = ?n \<or> node F sb m \<noteq> None" for m using an(5) [of m] d' h by (cases "m = p") auto
  have kept: "\<exists>i'. node F' sb m = Some i' \<and> ino_kind i' = ino_kind i" if "node F sb m = Some i" for m i
    using an(2) an(5) [of m] d' h that by (cases "m = p") auto
  have es: "entry_sound F' sb x" if "entry_sound F sb x" for x
    using that kept by (auto simp: entry_sound_def) metis
  have en: "entry_sound F' sb e" using an(3) an(5) [of ?n] an(1) h(4) by (simp add: entry_sound_def)
  have sound: "directory_sound F' sb m" if m: "is_directory F' sb m" for m
  proof (cases "m = p")
    case True
    have "distinct (map de_name es)" "\<forall>x \<in> set es. entry_sound F sb x" using consistent_directory [OF c h(1,2)] h(3) by auto
    then show ?thesis using d' True es en h(5) unfolding directory_sound_def by (intro exI [of _ d'] exI [of _ "es @ [e]"]) auto
  next
    case False
    show ?thesis
    proof (cases "m = ?n")
      case True
      then show ?thesis using m an(5) [OF False] an(7) by (auto simp: directory_sound_def is_directory_def)
    next
      case ne: False
      then obtain i where i: "node F sb m = Some i" "ino_kind i = Directory" "node F' sb m = Some i"
        using m an(5) [OF False] by (auto simp: is_directory_def)
      obtain xs where "inode_entries F i = Inr xs" "distinct (map de_name xs)" "\<forall>x \<in> set xs. entry_sound F sb x"
        using consistent_directory [OF c i(1,2)] by blast
      then show ?thesis using i an(6) [OF False i(1)] es unfolding directory_sound_def by auto
    qed
  qed
  have rel: "child_rel F sb \<subseteq> child_rel F' sb" "(p, ?n) \<in> child_rel F' sb" using an(8) by (auto simp: child_rel_def)
  have reach: "(1, m) \<in> (child_rel F' sb)\<^sup>*" if m: "node F' sb m \<noteq> None" for m
  proof -
    have old: "(1, m) \<in> (child_rel F' sb)\<^sup>*" if "node F sb m \<noteq> None" for m
      using c that rtrancl_mono [OF rel(1)] unfolding fs_consistent_def by blast
    show ?thesis using m some [of m] old [of m] old [of p] h(1) rel(2) by (auto intro: rtrancl_into_rtrancl)
  qed
  have nochild: "?n \<notin> set (children F sb q)" for q using children_nodes(1) [OF c] an(2) by blast
  have mem: "m \<in> set (children F' sb q) \<longleftrightarrow> m \<in> set (children F sb q) \<or> m = ?n \<and> q = p" for m q using an(8) [of q] by auto
  have uniq: "\<exists>!q. m \<in> set (children F' sb q)" if m: "node F' sb m \<noteq> None" "m \<noteq> 1" for m
  proof (cases "m = ?n")
    case True
    then show ?thesis using mem nochild by blast
  next
    case False
    then have "node F sb m \<noteq> None" using some m(1) by simp
    then have "\<exists>!q. m \<in> set (children F sb q)" using c m(2) unfolding fs_consistent_def by blast
    then show ?thesis using mem False by simp
  qed
  have dist: "distinct (children F' sb q)" for q
    using c an(8) [of q] nochild [of p] unfolding fs_consistent_def by simp
  have root: "is_directory F' sb 1"
  proof -
    obtain r where "node F sb 1 = Some r" "ino_kind r = Directory" using c by (auto simp: fs_consistent_def is_directory_def)
    then show ?thesis using kept [of 1 r] by (auto simp: is_directory_def)
  qed
  note stored = an(9) [unfolded storage_ok_def]
  show ?thesis
    unfolding fs_consistent_def
  proof (intro conjI)
    show "\<forall>m. is_directory F' sb m \<longrightarrow> directory_sound F' sb m" using sound by blast
    show "\<forall>m. node F' sb m \<noteq> None \<longrightarrow> (1, m) \<in> (child_rel F' sb)\<^sup>*" using reach by blast
    show "\<forall>m. node F' sb m \<noteq> None \<and> m \<noteq> 1 \<longrightarrow> (\<exists>!q. m \<in> set (children F' sb q))" using uniq by blast
    show "\<forall>q. distinct (children F' sb q)" using dist by blast
  qed (rule stored [THEN conjunct1] stored [THEN conjunct2, THEN conjunct1] stored [THEN conjunct2, THEN conjunct2] root)+
qed

text \<open>The account of the free blocks.\<close>

lemma replaced_space:
  assumes c: "storage_ok F sb" and n: "node F sb n = Some i" and r: "replaced sb n F F' j"
  shows "card (free_blocks F' sb) + file_blocks (count_of j) = card (free_blocks F sb) + file_blocks (count_of i)"
proof -
  let ?I = "set (inode_blocks F i)" and ?J = "set (inode_blocks F' j)"
  have c': "storage_ok F' sb" by (rule replaced_storage [OF c n r])
  have nj: "node F' sb n = Some j" using replaced_node [OF c n r] by simp
  note fi = consistent_file(1) [OF c n] and fj = consistent_file(1) [OF c' nj]
  have I: "\<And>b. b \<in> ?I \<Longrightarrow> data_of sb \<le> b \<and> b < total_of sb \<and> used F sb b" using fi by (simp add: file_ok_def)
  have J: "\<And>b. b \<in> ?J \<Longrightarrow> data_of sb \<le> b \<and> b < total_of sb \<and> used F' sb b" using fj by (simp add: file_ok_def)
  have own: "owned_by F sb n = ?I" using consistent_node(2) [OF c n] by simp
  have us: "used F' sb k \<longleftrightarrow> k \<in> ?J \<or> used F sb k \<and> k \<notin> ?I" if "k < total_of sb" for k
    using r that own by (simp add: replaced_def)
  have new: "\<not> used F sb b \<or> b \<in> ?I" if b: "b \<in> ?J" for b
  proof (rule ccontr)
    assume h: "\<not> (\<not> used F sb b \<or> b \<in> ?I)"
    then obtain m where "b \<in> owned_by F sb m" using consistent_used [OF c, of b] J [OF b] by fastforce
    moreover have "m \<noteq> n" using calculation h own by auto
    ultimately show False using r b unfolding replaced_def by blast
  qed
  have all: "free_blocks F sb \<union> ?I = free_blocks F' sb \<union> ?J"
  proof (intro equalityI subsetI)
    fix b assume b: "b \<in> free_blocks F sb \<union> ?I"
    then have "data_of sb \<le> b" "b < total_of sb" "\<not> used F sb b \<or> b \<in> ?I" using I by (auto simp: free_blocks_def)
    then show "b \<in> free_blocks F' sb \<union> ?J" using us by (auto simp: free_blocks_def)
  next
    fix b assume b: "b \<in> free_blocks F' sb \<union> ?J"
    then have k: "data_of sb \<le> b" "b < total_of sb" using J by (auto simp: free_blocks_def)
    have "\<not> used F sb b \<or> b \<in> ?I" using b us [OF k(2)] new by (auto simp: free_blocks_def)
    then show "b \<in> free_blocks F sb \<union> ?I" using k by (auto simp: free_blocks_def)
  qed
  have "card (free_blocks F sb) + card ?I = card (free_blocks F sb \<union> ?I)"
    using I by (intro card_Un_disjoint [symmetric]) (auto simp: free_blocks_def)
  moreover have "card (free_blocks F' sb) + card ?J = card (free_blocks F' sb \<union> ?J)"
    using J by (intro card_Un_disjoint [symmetric]) (auto simp: free_blocks_def)
  ultimately show ?thesis using all card_inode_blocks [OF fi] card_inode_blocks [OF fj] by simp
qed

lemma attached_space:
  assumes c: "fs_consistent F sb" and ok: "blocks_ok sb F'" and a: "attached sb p F F' d k es e"
  shows "card (free_blocks F' sb) + file_blocks (blocks_for (256 * Suc (length es))) = card (free_blocks F sb) + file_blocks (count_of d)"
proof -
  obtain F1 d' where h: "added sb (unat (de_inode e)) F F1 k" "node F sb p = Some d"
    "replaced sb p F1 F' d'" "ino_kind d' = Directory" "inode_entries F' d' = Inr (es @ [e])"
    using a by (auto simp: attached_def)
  note st = consistent_storage [OF c] and st1 = added_storage [OF consistent_storage [OF c] h(1)]
  have p1: "node F1 sb p = Some d" using added_node [OF h(1)] h(2) by auto
  have st': "storage_ok F' sb" by (rule replaced_storage [OF st1 p1 h(3)])
  have dn: "node F' sb p = Some d'" using replaced_node [OF st1 p1 h(3)] by simp
  have "Suc (length es) = length (inode_contents F' d') div 256"
    using map_res_nth [OF h(5) [unfolded inode_entries_def]] by (simp add: entry_chunks_def DIR_ENTRY_SIZE_def)
  moreover have "unat (ino_size d') mod 256 = 0" using consistent_node(1) [OF st' dn] h(4) by (simp add: inode_valid_def)
  ultimately have "unat (ino_size d') = 256 * Suc (length es)" using length_contents [OF st' ok dn] by (metis mult_div_mod_eq add_0_right)
  then have "count_of d' = blocks_for (256 * Suc (length es))" using consistent_file(3) [OF st' dn] by simp
  moreover have "free_blocks F1 sb = free_blocks F sb"
  proof -
    have "used F1 sb b = used F sb b" for b using h(1) by (intro used_cong) (simp add: added_def)
    then show ?thesis by (simp add: free_blocks_def)
  qed
  ultimately show ?thesis using replaced_space [OF st1 p1 h(3)] by simp
qed

section \<open>Paths to the new entry\<close>

text \<open>Slashes around a path and empty components do not matter.\<close>

lemma walk_append:
  "fold_res (path_step F sb) (xs @ ys) cur = bind_res (fold_res (path_step F sb) xs cur) (fold_res (path_step F sb) ys)"
proof (induction xs arbitrary: cur)
  case (Cons x xs)
  then show ?case by (cases "path_step F sb x cur") simp_all
qed simp

lemma walk_nil [simp]: "bind_res r (fold_res f []) = r"
  by (cases r) simp_all

lemma walk_one: "fold_res f [x] = f x"
  by (rule ext) simp

lemma path_split_nonempty [simp]: "split_on c xs \<noteq> []"
  by (cases xs) auto

lemma split_on_slash: "split_on c (xs @ c # ys) = split_on c xs @ split_on c ys"
  by (induction xs) auto

lemma split_on_plain: "c \<notin> set xs \<Longrightarrow> split_on c xs = [xs]"
  by (induction xs) auto

lemma path_step_empty [simp]: "path_step F sb [] cur = Inr cur"
  by (simp add: path_step_def)

lemma walk_leading:
  "fold_res (path_step F sb) (split_on path_slash (dropWhile (\<lambda>b. b = path_slash) p)) cur = fold_res (path_step F sb) (split_on path_slash p) cur"
  using split_on_slash [of path_slash "[]"] by (induction p) auto

lemma walk_trailing:
  "fold_res (path_step F sb) (split_on path_slash (trim_end_slashes p)) cur = fold_res (path_step F sb) (split_on path_slash p) cur"
proof (induction p rule: rev_induct)
  case (snoc b p)
  have "fold_res (path_step F sb) (split_on path_slash (p @ [path_slash])) cur = fold_res (path_step F sb) (split_on path_slash p) cur"
    by (cases "fold_res (path_step F sb) (split_on path_slash p) cur") (simp_all add: split_on_slash walk_append)
  then show ?case using snoc by (simp add: trim_end_slashes_def)
qed (simp add: trim_end_slashes_def)

lemma path_lookup_walk: "path_lookup F sb p = fold_res (path_step F sb) (split_on path_slash p) 1"
proof -
  have "fold_res (path_step F sb) (split_on path_slash (trim_slashes p)) 1 = fold_res (path_step F sb) (split_on path_slash p) 1"
    by (simp add: trim_slashes_def walk_trailing walk_leading)
  then show ?thesis by (cases "trim_slashes p = []") (auto simp: path_lookup_def Let_def)
qed

text \<open>The path that \<open>split_parent\<close> takes apart is its parent with one more step.\<close>

lemma rsplit_slash_Some:
  assumes "rsplit_slash p = Some (a, b)"
  shows "p = a @ path_slash # b" "path_slash \<notin> set b"
proof -
  have m: "path_slash \<in> set (rev p)" and a: "a = rev (tl (dropWhile (\<lambda>b. b \<noteq> path_slash) (rev p)))"
    and b: "b = rev (takeWhile (\<lambda>b. b \<noteq> path_slash) (rev p))" using assms by (auto simp: rsplit_slash_def split: if_splits)
  then have ne: "dropWhile (\<lambda>b. b \<noteq> path_slash) (rev p) \<noteq> []" by (simp add: dropWhile_eq_Nil_conv)
  then have "dropWhile (\<lambda>b. b \<noteq> path_slash) (rev p) = path_slash # rev a"
    using hd_dropWhile [OF ne] a by (cases "dropWhile (\<lambda>b. b \<noteq> path_slash) (rev p)") auto
  then have "rev p = rev b @ path_slash # rev a" using b takeWhile_dropWhile_id [of "\<lambda>b. b \<noteq> path_slash" "rev p"] by simp
  then have "rev (rev p) = rev (rev b @ path_slash # rev a)" by (rule arg_cong)
  then show "p = a @ path_slash # b" by simp
  show "path_slash \<notin> set b" unfolding b by (auto dest: set_takeWhileD)
qed

lemma split_parent_lookup:
  assumes "split_parent p = Inr (parent, name)"
  shows "path_lookup F sb p = bind_res (path_lookup F sb parent) (path_step F sb name)" "validate_name name = Inr ()"
proof -
  let ?t = "trim_end_slashes p"
  have root: "path_lookup F sb [path_slash] = Inr 1" by (simp add: path_lookup_walk)
  have look: "path_lookup F sb p = fold_res (path_step F sb) (split_on path_slash ?t) 1" by (simp add: path_lookup_walk walk_trailing)
  show v: "validate_name name = Inr ()"
    using assms by (auto simp: split_parent_def Let_def bind_res_Inr_iff split: if_splits option.splits prod.splits)
  have "list_ex (\<lambda>b. b = 0x2F \<or> b = 0) name = False" using v by (simp add: validate_name_def split: if_splits)
  then have plain: "split_on path_slash name = [name]" by (intro split_on_plain) (auto simp: list_ex_iff path_slash_def)
  show "path_lookup F sb p = bind_res (path_lookup F sb parent) (path_step F sb name)"
  proof (cases "rsplit_slash ?t")
    case None
    then have "parent = [path_slash]" "name = ?t"
      using assms by (auto simp: split_parent_def Let_def bind_res_Inr_iff split: if_splits)
    then show ?thesis using look plain root by simp
  next
    case (Some ab)
    then obtain a where a: "rsplit_slash ?t = Some (a, name)" "parent = (if a = [] then [path_slash] else a)"
      using assms by (cases ab) (auto simp: split_parent_def Let_def bind_res_Inr_iff split: if_splits)
    have "path_lookup F sb parent = path_lookup F sb a" using a(2) root by (simp add: path_lookup_walk)
    then show ?thesis
      using look rsplit_slash_Some(1) [OF a(1)] plain by (simp add: split_on_slash walk_append path_lookup_walk walk_one)
  qed
qed

lemma utf8_split:
  "utf8_valid (xs @ a # ys) \<Longrightarrow> a < 0x80 \<Longrightarrow> utf8_valid xs \<and> utf8_valid ys"
proof (induction xs rule: utf8_valid.induct)
  case (2 x bs)
  have t: "\<not> utf8_tail a" using 2(6) by (auto simp: utf8_tail_def not_le)
  have v: "utf8_valid (x # (bs @ a # ys))" using 2(5) by simp
  note eq = utf8_valid.simps(2) [of x]
  show ?case
  proof (cases "x < 0x80")
    case True
    have "utf8_valid (x # zs) = utf8_valid zs" for zs unfolding eq using True by (simp only: if_True)
    then show ?thesis using 2(1) [OF True] v 2(6) by simp
  next
    case F1: False
    show ?thesis
    proof (cases "0xC2 \<le> x \<and> x \<le> 0xDF")
      case True
      have u: "utf8_valid (x # zs) = (case zs of b # r \<Rightarrow> utf8_tail b \<and> utf8_valid r | _ \<Rightarrow> False)" for zs
        unfolding eq using F1 True by (simp only: if_False if_True simp_thms)
      have v2: "case bs @ a # ys of b # r \<Rightarrow> utf8_tail b \<and> utf8_valid r | _ \<Rightarrow> False" using v unfolding u .
      then obtain b r where bs: "bs = b # r" using t by (cases bs) simp_all
      then show ?thesis using 2(2) [OF F1 True bs] v2 2(6) unfolding u by (simp del: utf8_valid.simps)
    next
      case F2: False
      show ?thesis
      proof (cases "0xE0 \<le> x \<and> x \<le> 0xEF")
        case True
        have u: "utf8_valid (x # zs) = (case zs of b # c # r \<Rightarrow>
            utf8_tail b \<and> (x = 0xE0 \<longrightarrow> 0xA0 \<le> b) \<and> (x = 0xED \<longrightarrow> b \<le> 0x9F) \<and> utf8_tail c \<and> utf8_valid r | _ \<Rightarrow> False)" for zs
          unfolding eq using F1 F2 True by (simp only: if_False if_True simp_thms)
        note v2 = v [unfolded u]
        have "\<exists>b c r. bs = b # c # r"
        proof (cases bs)
          case (Cons b bs')
          then show ?thesis using v2 t by (cases bs') (simp_all del: utf8_valid.simps)
        qed (use v2 t in \<open>cases ys, simp_all del: utf8_valid.simps\<close>)
        then obtain b c r where bs: "bs = b # c # r" by blast
        then show ?thesis using 2(3) [OF F1 F2 True bs refl] v2 2(6) unfolding u by (simp del: utf8_valid.simps)
      next
        case F3: False
        have F4: "0xF0 \<le> x \<and> x \<le> 0xF4" using v F1 F2 F3 unfolding eq by (simp only: if_False simp_thms split: if_splits)
        have u: "utf8_valid (x # zs) = (case zs of b # c # d # r \<Rightarrow>
            utf8_tail b \<and> (x = 0xF0 \<longrightarrow> 0x90 \<le> b) \<and> (x = 0xF4 \<longrightarrow> b \<le> 0x8F) \<and> utf8_tail c \<and> utf8_tail d \<and> utf8_valid r | _ \<Rightarrow> False)" for zs
          unfolding eq using F1 F2 F3 F4 by (simp only: if_False if_True simp_thms)
        note v2 = v [unfolded u]
        have "\<exists>b c d r. bs = b # c # d # r"
        proof (cases bs)
          case (Cons b bs')
          show ?thesis
          proof (cases bs')
            case (Cons c bs2)
            then show ?thesis using v2 t \<open>bs = b # bs'\<close> by (cases bs2) (simp_all del: utf8_valid.simps)
          qed (use v2 t Cons in \<open>cases ys, simp_all del: utf8_valid.simps\<close>)
        qed (use v2 t in \<open>cases ys; cases "tl ys", simp_all del: utf8_valid.simps split: list.splits\<close>)
        then obtain b c d r where bs: "bs = b # c # d # r" by blast
        then show ?thesis using 2(4) [OF F1 F2 F3 F4 bs refl refl] v2 2(6) unfolding u by (simp del: utf8_valid.simps)
      qed
    qed
  qed
qed simp

lemma split_parent_utf8:
  assumes "split_parent p = Inr (parent, name)" "utf8_valid p"
  shows "utf8_valid name"
proof -
  let ?t = "trim_end_slashes p"
  have low: "path_slash < 0x80" by (simp add: path_slash_def)
  have "p = ?t @ rev (takeWhile (\<lambda>b. b = path_slash) (rev p))"
    unfolding trim_end_slashes_def by (metis rev_append rev_rev_ident takeWhile_dropWhile_id)
  moreover have "\<forall>b \<in> set (rev (takeWhile (\<lambda>b. b = path_slash) (rev p))). b = path_slash" by (auto dest: set_takeWhileD)
  ultimately obtain zs where zs: "p = ?t @ zs" "\<forall>b \<in> set zs. b = path_slash" by blast
  have t: "utf8_valid ?t"
  proof (cases zs)
    case (Cons z r)
    then have "p = ?t @ path_slash # r" using zs by simp
    then show ?thesis using utf8_split [of ?t path_slash r] assms(2) low by metis
  qed (use zs assms(2) in simp)
  show ?thesis
  proof (cases "rsplit_slash ?t")
    case None
    then show ?thesis using assms(1) t by (auto simp: split_parent_def Let_def bind_res_Inr_iff split: if_splits)
  next
    case (Some ab)
    then obtain a where a: "rsplit_slash ?t = Some (a, name)"
      using assms(1) by (cases ab) (auto simp: split_parent_def Let_def bind_res_Inr_iff split: if_splits)
    then show ?thesis using utf8_split [of a path_slash name] t low rsplit_slash_Some(1) [OF a] by metis
  qed
qed

text \<open>What the old paths and the new path name.\<close>

lemma find_append_Some: "find P xs = Some x \<Longrightarrow> find P (xs @ ys) = Some x"
  by (induction xs) (auto split: if_splits)

lemma find_append_None: "find P xs = None \<Longrightarrow> find P (xs @ ys) = find P ys"
  by (induction xs) (auto split: if_splits)

lemma attached_step:
  assumes c: "fs_consistent F sb" and a: "attached sb p F F' d k es e" and s: "path_step F sb x cur = Inr m"
  shows "path_step F' sb x cur = Inr m"
proof (cases "x = [] \<or> x = [0x2E]")
  case True
  then show ?thesis using s by (simp add: path_step_def)
next
  case False
  note an = attached_nodes [OF c a]
  obtain i xs y where i: "x \<noteq> [0x2E, 0x2E]" "validate_name x = Inr ()" "node F sb (unat cur) = Some i" "ino_kind i = Directory"
    "inode_entries F i = Inr xs" "find (\<lambda>e. de_name e = x) xs = Some y" "m = de_inode y"
    using s False by (auto simp: path_step_def bind_res_Inr_iff split: if_splits option.splits)
  have "\<exists>i' xs'. node F' sb (unat cur) = Some i' \<and> ino_kind i' = Directory \<and> inode_entries F' i' = Inr xs' \<and>
      find (\<lambda>e. de_name e = x) xs' = Some y"
  proof (cases "unat cur = p")
    case True
    then have "xs = es" using a i by (auto simp: attached_def)
    then show ?thesis using an(4) True find_append_Some [OF i(6), of "[e]"] by auto
  next
    case ne: False
    then have "node F' sb (unat cur) = Some i" using an(5) [OF ne] an(2) i(3) by auto
    then show ?thesis using an(6) [OF ne i(3)] i by auto
  qed
  then show ?thesis using False i(1,2,7) by (auto simp: path_step_def)
qed

lemma attached_walk:
  assumes c: "fs_consistent F sb" and a: "attached sb p F F' d k es e" and "fold_res (path_step F sb) xs cur = Inr m"
  shows "fold_res (path_step F' sb) xs cur = Inr m"
  using assms(3)
proof (induction xs arbitrary: cur)
  case (Cons x xs)
  then obtain y where y: "path_step F sb x cur = Inr y" "fold_res (path_step F sb) xs y = Inr m" by (auto simp: bind_res_Inr_iff)
  then show ?case using attached_step [OF c a y(1)] Cons.IH [OF y(2)] by simp
qed simp

lemma attached_lookup:
  assumes c: "fs_consistent F sb" and a: "attached sb (unat q) F F' d k es e"
  shows "path_lookup F sb r = Inr m \<Longrightarrow> path_lookup F' sb r = Inr m"
    "split_parent p = Inr (parent, de_name e) \<Longrightarrow> path_lookup F sb parent = Inr q \<Longrightarrow> path_lookup F' sb p = Inr (de_inode e)"
proof -
  show old: "path_lookup F sb r = Inr m \<Longrightarrow> path_lookup F' sb r = Inr m" for r m
    unfolding path_lookup_walk by (rule attached_walk [OF c a])
  assume sp: "split_parent p = Inr (parent, de_name e)" and "path_lookup F sb parent = Inr q"
  then have q: "path_lookup F' sb parent = Inr q" using old by blast
  have v: "validate_name (de_name e) = Inr ()" by (rule split_parent_lookup(2) [OF sp])
  then have ne: "de_name e \<noteq> []" "de_name e \<noteq> [0x2E]" "de_name e \<noteq> [0x2E, 0x2E]" by (auto simp: validate_name_def split: if_splits)
  have new: "de_name e \<notin> de_name ` set es" using a by (auto simp: attached_def)
  have "\<not> (\<exists>x. x \<in> set es \<and> de_name x = de_name e)" using new by (metis imageI)
  then have "find (\<lambda>x. de_name x = de_name e) es = None" by (simp add: find_None_iff)
  then have "find (\<lambda>x. de_name x = de_name e) (es @ [e]) = Some e" by (simp add: find_append_None)
  then have "path_step F' sb (de_name e) q = Inr (de_inode e)"
    using attached_nodes(4) [OF c a] ne v by (auto simp: path_step_def)
  then show "path_lookup F' sb p = Inr (de_inode e)" using split_parent_lookup(1) [OF sp, of F' sb] q by simp
qed

section \<open>Creating a file or directory\<close>

lemma new_inode_empty: "empty_inode (inode_new kind perms t)" "ino_kind (inode_new kind perms t) = kind"
  by (simp_all add: empty_inode_def inode_new_def DIRECT_BLOCKS_def)

lemma geometry_stored [simp]:
  "stored (sb\<lparr>sb_generation := t\<rparr>) F i F' j = stored sb F i F' j" "too_few (sb\<lparr>sb_generation := t\<rparr>) F i c = too_few sb F i c"
  "file_ok F (sb\<lparr>sb_generation := t\<rparr>) i = file_ok F sb i"
  by (simp_all add: stored_def too_few_def free_blocks_def file_ok_def)

lemma added_space: "added sb n F F' k \<Longrightarrow> too_few sb F' d c = too_few sb F d c"
proof -
  assume a: "added sb n F F' k"
  then have "used F' sb b = used F sb b" for b by (intro used_cong) (simp add: added_def)
  then show ?thesis by (simp add: too_few_def free_blocks_def)
qed

text \<open>The errors that leave the volume alone, and those that do not.\<close>

definition create_refused :: "blocks \<Rightarrow> superblock \<Rightarrow> bytes \<Rightarrow> fs_error \<Rightarrow> bool" where
  "create_refused F sb p e \<longleftrightarrow>
    (case split_parent p of Inl e' \<Rightarrow> e = e'
     | Inr (parent, name) \<Rightarrow>
       (case path_lookup F sb parent of Inl e' \<Rightarrow> e = e'
        | Inr q \<Rightarrow> \<exists>d. node F sb (unat q) = Some d \<and>
            (if ino_kind d \<noteq> Directory then e = F_NotDirectory
             else \<exists>es. inode_entries F d = Inr es \<and> name \<in> de_name ` set es \<and> e = F_AlreadyExists)))"

definition create_exhausted :: "blocks \<Rightarrow> superblock \<Rightarrow> inode \<Rightarrow> directory_entry list \<Rightarrow> fs_error \<Rightarrow> bool" where
  "create_exhausted F sb d es e \<longleftrightarrow>
    e = F_NoSpace \<and> ((\<forall>n. 2 \<le> n \<and> n < inodes_of sb \<longrightarrow> bm_bit (F 2) n) \<or> too_few sb F d (blocks_for (256 * Suc (length es)))) \<or>
    e = F_FileTooLarge \<and> 4096 * 524 < 256 * Suc (length es)"

context reliable_device
begin

lemma attach_at:
  fixes n q :: u64
  assumes g: "vol_good d0 sb" and c: "fs_consistent F sb" and d: "node F sb (unat q) = Some d" "ino_kind d = Directory"
    and es: "inode_entries F d = Inr es" "length es < 2 ^ 31" and name: "name_ok name" "name \<notin> de_name ` set es"
    and n: "2 \<le> unat n" "unat n < inodes_of sb" "\<not> bm_bit (F 2) (unat n)" "inode_marked sb (unat n) True F F1"
  shows "triple (vol_at d0 sb F1) (bind_act next_timestamp (\<lambda>t.
      bind_act (vol_write_inode ops n (inode_new kind perms t)) (\<lambda>_.
      bind_act (lift_res (de_new n kind name)) (\<lambda>e.
      bind_act (replace_directory ops d (es @ [e])) (\<lambda>parent.
      bind_act (vol_write_inode ops q (stamped parent t)) (\<lambda>_.
      bind_act (finish_mutation ops) (\<lambda>_.
      return_act n)))))))
    (\<lambda>r v. r = n \<and> (\<exists>F' k. vol_at d0 (with_generation sb) F' v \<and> sb_decode (F' 1) = Inr (with_generation sb) \<and> ino_kind k = kind \<and>
      attached sb (unat q) F F' d k es \<lparr>de_inode = n, de_kind = kind, de_name = name\<rparr>))
    (\<lambda>e v. create_exhausted F sb d es e)"
proof (rule triple_bind_val [OF next_timestamp_at])
  fix t assume "t = sb_generation (with_generation sb)"
  let ?sb = "with_generation sb" and ?k = "inode_new kind perms t"
  define e where "e = \<lparr>de_inode = n, de_kind = kind, de_name = name\<rparr>"
  let ?E = "\<lambda>e v. create_exhausted F sb d es e"
  let ?Q = "\<lambda>r v. r = n \<and> (\<exists>F' k. vol_at d0 ?sb F' v \<and> sb_decode (F' 1) = Inr ?sb \<and> ino_kind k = kind \<and> attached sb (unat q) F F' d k es e)"
  note v = vol_goodD(2) [OF g] and st = consistent_storage [OF c]
  have g': "vol_good d0 ?sb" using g by simp
  have de: "de_new n kind name = Inr e" using name(1) by (simp add: de_new_def name_ok_def e_def)
  have "de_inode e \<noteq> 0" using n(1) by (auto simp: e_def)
  then have ok_e: "entry_ok e" using name(1) by (simp add: entry_ok_def e_def)
  have ok_es: "entry_ok x" if "x \<in> set (es @ [e])" for x using that ok_e entries_ok [OF es(1)] by auto
  have wn: "unat n < inodes_of ?sb" "length (ino_direct_blocks ?k) = 12" using n(2) by (simp_all add: inode_new_def DIRECT_BLOCKS_def)
  show "triple (vol_at d0 ?sb F1) (bind_act (vol_write_inode ops n ?k) (\<lambda>_. bind_act (lift_res (de_new n kind name)) (\<lambda>e.
      bind_act (replace_directory ops d (es @ [e])) (\<lambda>parent. bind_act (vol_write_inode ops q (stamped parent t)) (\<lambda>_.
      bind_act (finish_mutation ops) (\<lambda>_. return_act n))))))
    (\<lambda>r v. r = n \<and> (\<exists>F' k. vol_at d0 ?sb F' v \<and> sb_decode (F' 1) = Inr ?sb \<and> ino_kind k = kind \<and>
      attached sb (unat q) F F' d k es \<lparr>de_inode = n, de_kind = kind, de_name = name\<rparr>)) ?E"
    unfolding e_def [symmetric]
  proof (rule triple_bind_ex [OF write_inode_at [OF g' wn]], rule triple_bind_res [OF de], elim conjE)
    fix F2 assume "slot_written ?sb (unat n) F1 F2" "inode_at F2 ?sb (unat n) = Inr ?k"
    then have a: "added sb (unat n) F F2 ?k" using written_added [OF v n] new_inode_empty(1) by simp
    note st2 = added_storage [OF st a]
    have dn: "node F2 sb (unat q) = Some d" using added_node [OF a] d(1) by auto
    have f2: "file_ok F2 ?sb d" using consistent_file(1) [OF st2 dn] by simp
    have rd: "triple (vol_at d0 ?sb F2) (replace_directory ops d (es @ [e]))
      (\<lambda>j v. \<exists>F'. vol_at d0 ?sb F' v \<and> (stored sb F2 d F' (j\<lparr>ino_size := ino_size d\<rparr>) \<and> unat (ino_size j) = 256 * length (es @ [e]) \<and>
        count_of j = blocks_for (256 * length (es @ [e])) \<and> take (256 * length (es @ [e])) (file_data F' j) = concat (map entry_bytes (es @ [e])))) ?E"
      using ok_es es(2) added_space [OF a] by (intro triple_conseq [OF replace_directory_at [OF g' f2 d(2)]]) (auto simp: create_exhausted_def no_space_def)
    show "triple (vol_at d0 ?sb F2) (bind_act (replace_directory ops d (es @ [e])) (\<lambda>parent. bind_act (vol_write_inode ops q (stamped parent t)) (\<lambda>_.
      bind_act (finish_mutation ops) (\<lambda>_. return_act n)))) ?Q ?E"
    proof (rule triple_bind_ex [OF rd], elim conjE)
      fix j F3 assume s: "stored sb F2 d F3 (j\<lparr>ino_size := ino_size d\<rparr>)" and sz: "unat (ino_size j) = 256 * length (es @ [e])"
        and cj: "count_of j = blocks_for (256 * length (es @ [e]))"
        and data: "take (256 * length (es @ [e])) (file_data F3 j) = concat (map entry_bytes (es @ [e]))"
      have kj: "ino_kind (stamped j t) = Directory" using s d(2) by (simp add: stored_def same_meta_def stamped_def)
      show "triple (vol_at d0 ?sb F3) (bind_act (vol_write_inode ops q (stamped j t)) (\<lambda>_. bind_act (finish_mutation ops) (\<lambda>_. return_act n))) ?Q ?E"
      proof (rule store_inode_at [OF g st2 dn s _ _ _ _ _ refl])
        fix F4 assume r: "replaced sb (unat q) F2 F4 (stamped j t)" and "file_data F4 (stamped j t) = file_data F3 (j\<lparr>ino_size := ino_size d\<rparr>)"
          and dec: "sb_decode (F4 1) = Inr ?sb"
        then have "inode_contents F4 (stamped j t) = concat (map entry_bytes (es @ [e]))" using data sz by (simp add: contents_data stamped_def)
        then have "inode_entries F4 (stamped j t) = Inr (es @ [e])" by (intro entries_of_bytes ok_es)
        then have "attached sb (unat q) F F4 d ?k es e"
          using a d es(1) r kj name(2) new_inode_empty(2) by (auto simp: attached_def e_def)
        then have "?Q n w" if "vol_at d0 ?sb F4 w" for w using that dec new_inode_empty(2) by blast
        then show "triple (vol_at d0 ?sb F4) (return_act n) ?Q ?E" by (intro triple_return_val)
      qed (use cj sz in \<open>simp_all add: stamped_def\<close>)
    qed
  qed
qed

definition created :: "'d \<Rightarrow> superblock \<Rightarrow> blocks \<Rightarrow> bytes \<Rightarrow> file_type \<Rightarrow> u64 \<Rightarrow> 'd nexfs \<Rightarrow> bool" where
  "created d0 sb F p kind n v \<longleftrightarrow>
    (\<exists>F' parent name q d k es. vol_at d0 (with_generation sb) F' v \<and> sb_decode (F' 1) = Inr (with_generation sb) \<and>
      split_parent p = Inr (parent, name) \<and> path_lookup F sb parent = Inr q \<and> ino_kind k = kind \<and>
      attached sb (unat q) F F' d k es \<lparr>de_inode = n, de_kind = kind, de_name = name\<rparr>)"

definition create_failed :: "'d \<Rightarrow> superblock \<Rightarrow> blocks \<Rightarrow> bytes \<Rightarrow> fs_error \<Rightarrow> 'd nexfs \<Rightarrow> bool" where
  "create_failed d0 sb F p e v \<longleftrightarrow> vol_at d0 sb F v \<and> create_refused F sb p e \<or>
    (\<exists>parent name q d es. split_parent p = Inr (parent, name) \<and> path_lookup F sb parent = Inr q \<and> node F sb (unat q) = Some d \<and>
      inode_entries F d = Inr es \<and> create_exhausted F sb d es e)"

lemma create_at:
  assumes g: "vol_good d0 sb" and c: "fs_consistent F sb" and u: "utf8_valid p"
  shows "triple (vol_at d0 sb F) (vol_create ops p kind perms) (created d0 sb F p kind) (create_failed d0 sb F p)"
proof (rule triple_vol [OF g], cases "split_parent p")
  case (Inl e)
  then show ?thesis by (simp add: vol_create_def triple_def bind_act_def create_failed_def create_refused_def)
next
  assume ok: "blocks_ok sb F"
  note st = consistent_storage [OF c]
  case (Inr pn)
  obtain parent name where pn: "pn = (parent, name)" by (cases pn)
  note sp = Inr [unfolded pn] and val = split_parent_lookup(2) [OF Inr [unfolded pn]]
  have name: "name_ok name" using val split_parent_utf8 [OF sp u] by (simp add: name_ok_def)
  have res: "triple (vol_at d0 sb F) (vol_resolve ops parent)
    (\<lambda>x v. vol_at d0 sb F v \<and> path_lookup F sb parent = Inr x \<and> node F sb (unat x) \<noteq> None) (create_failed d0 sb F p)"
    by (rule triple_conseq [OF resolve_at [OF g c]]) (auto simp: create_failed_def create_refused_def sp)
  show ?thesis
    unfolding vol_create_def
  proof (rule triple_bind_res [OF Inr], simp only: pn prod.case, rule triple_bind_res [OF val], rule triple_bind_val [OF res], elim conjE exE, goal_cases)
    case (1 q)
    then obtain d where q: "path_lookup F sb parent = Inr q" and d: "node F sb (unat q) = Some d" by blast
    show ?case
    proof (rule triple_bind_val [OF read_inode_at [OF g d]], simp only:, rule triple_if, goal_cases)
      case 1
      then show ?case using sp q d by (simp add: triple_def create_failed_def create_refused_def)
    next
      case 2
      then have kd: "ino_kind d = Directory" by simp
      obtain es where es: "inode_entries F d = Inr es" using consistent_directory [OF c d kd] by blast
      have "length es = length (inode_contents F d) div 256"
        using map_res_nth [OF es [unfolded inode_entries_def]] by (simp add: entry_chunks_def DIR_ENTRY_SIZE_def)
      moreover have "unat (ino_size d) \<le> 4096 * 524" using consistent_file [OF st d] by (simp add: file_ok_def)
      ultimately have les: "length es < 2 ^ 31" using length_contents [OF st ok d] by simp
      show ?case
      proof (rule triple_bind_val [OF read_directory_at [OF g st d kd es]], simp only:, rule triple_if, goal_cases)
        case 1
        then have "name \<in> de_name ` set es" by (auto simp: list_ex_iff)
        then show ?case using sp q d kd es by (auto simp: triple_def create_failed_def create_refused_def)
      next
        case 2
        then have new: "name \<notin> de_name ` set es" by (auto simp: list_ex_iff)
        have ai: "triple (vol_at d0 sb F) (allocate_inode ops)
          (\<lambda>n v. \<exists>F'. vol_at d0 sb F' v \<and> 2 \<le> unat n \<and> unat n < inodes_of sb \<and> \<not> bm_bit (F 2) (unat n) \<and> inode_marked sb (unat n) True F F')
          (create_failed d0 sb F p)"
          using sp q d es by (intro triple_conseq [OF allocate_inode_at [OF g]]) (auto simp: create_failed_def create_exhausted_def)
        show ?case
        proof (rule triple_bind_ex [OF ai], elim conjE)
          fix n :: u64 and F1 assume "2 \<le> unat n" "unat n < inodes_of sb" "\<not> bm_bit (F 2) (unat n)" "inode_marked sb (unat n) True F F1"
          note at = attach_at [OF g c d kd es les name new this, where kind = kind and perms = perms]
          show "triple (vol_at d0 sb F1) (bind_act next_timestamp (\<lambda>t. bind_act (vol_write_inode ops n (inode_new kind perms t)) (\<lambda>_.
              bind_act (lift_res (de_new n kind name)) (\<lambda>e. bind_act (replace_directory ops d (es @ [e])) (\<lambda>parent.
              bind_act (vol_write_inode ops q (stamped parent t)) (\<lambda>_. bind_act (finish_mutation ops) (\<lambda>_. return_act n)))))))
            (created d0 sb F p kind) (create_failed d0 sb F p)"
            by (rule triple_conseq [OF at]) (use sp q d es in \<open>auto simp: created_def create_failed_def\<close>)
        qed
      qed
    qed
  qed
qed

end

end
