(* ===== verification/Nexfs_Mounted.thy ===== *)
theory Nexfs_Mounted
  imports Nexfs_Create
begin

text \<open>
  A mounted volume as a map from paths to files: what mounting establishes and every operation keeps,
  and what reading, writing and creating do to the map.
\<close>

section \<open>The mounted volume\<close>

definition mounted :: "'d block_ops \<Rightarrow> ('d \<Rightarrow> bool) \<Rightarrow> ('d \<Rightarrow> nat \<Rightarrow> bytes) \<Rightarrow> 'd nexfs \<Rightarrow> bool" where
  "mounted ops invar sec v \<longleftrightarrow>
    invar (vol_device v) \<and> sb_ok (vol_superblock v) \<and> holds_blocks ops (vol_device v) (total_of (vol_superblock v)) \<and>
    sb_decode (blk ops sec (vol_device v) 1) = Inr (vol_superblock v) \<and>
    fs_consistent (blk ops sec (vol_device v)) (vol_superblock v)"

text \<open>The bytes of the file that a path names.\<close>

definition file_at :: "blocks \<Rightarrow> superblock \<Rightarrow> bytes \<Rightarrow> fs_error + bytes" where
  "file_at F sb p =
    bind_res (path_lookup F sb p) (\<lambda>n.
    case node F sb (unat n) of
      None \<Rightarrow> Inl F_NotFound
    | Some i \<Rightarrow> if ino_kind i = Regular then Inr (inode_contents F i) else Inl F_IsDirectory)"

definition read_of :: "bytes \<Rightarrow> nat \<Rightarrow> bytes \<Rightarrow> nat \<times> bytes" where
  "read_of C offset out = (let len = min (length out) (length C - offset) in (len, put_slice 0 (slice offset len C) out))"

text \<open>Only the blocks of the volume behind the superblock matter.\<close>

definition agree :: "superblock \<Rightarrow> blocks \<Rightarrow> blocks \<Rightarrow> bool" where
  "agree sb F F' \<longleftrightarrow> (\<forall>b < total_of sb. b \<noteq> 1 \<longrightarrow> F' b = F b)"

lemma agree_node:
  assumes v: "sb_validate sb = Inr ()" and a: "agree sb F F'"
  shows "node F' sb n = node F sb n" "used F' sb b = used F sb b"
proof -
  note geo = sb_validD [OF v]
  have two: "F' 2 = F 2" using a geo by (simp add: agree_def)
  have "inode_at F' sb n = inode_at F sb n" if "n < inodes_of sb"
  proof -
    have "n * 256 div 4096 < data_of sb - table_of sb" using that by (simp add: inodes_of_def)
    then have "table_of sb + n * 256 div 4096 < total_of sb" "table_of sb + n * 256 div 4096 \<noteq> 1" using geo(5,8) by linarith+
    then show ?thesis using a by (simp add: inode_at_def agree_def)
  qed
  then show "node F' sb n = node F sb n" using two by (simp add: node_def)
  show "used F' sb b = used F sb b"
    using a geo(5,6,8) by (intro used_cong) (simp add: agree_def bitmap_area_def)
qed

lemma agree_replaced:
  assumes v: "sb_validate sb = Inr ()" and c: "storage_ok F sb" and a: "agree sb F F'" and n: "node F sb n = Some i"
  shows "replaced sb n F F' i" "inode_blocks F' i = inode_blocks F i" "inode_contents F' i = inode_contents F i"
    "inode_entries F' i = inode_entries F i"
proof -
  note geo = sb_validD [OF v] and nd = agree_node [OF v a] and f = consistent_file(1) [OF c n]
  have own: "F' b = F b" if "b \<in> owned_by F sb m" for b m
  proof -
    have "b < total_of sb" "b \<noteq> 1" using owned_data [OF c that] geo(5,6) by auto
    then show ?thesis using a by (simp add: agree_def)
  qed
  then have same: "F' b = F b" if "b \<in> set (inode_blocks F i)" for b using consistent_node(2) [OF c n] that by blast
  show ib: "inode_blocks F' i = inode_blocks F i" "inode_contents F' i = inode_contents F i" "inode_entries F' i = inode_entries F i"
    using same_blocks(1,3,4) [OF f same] by blast+
  have at: "inode_at F' sb m = inode_at F sb m" if "m < inodes_of sb" for m
  proof -
    have "m * 256 div 4096 < data_of sb - table_of sb" using that by (simp add: inodes_of_def)
    then have "table_of sb + m * 256 div 4096 < total_of sb" "table_of sb + m * 256 div 4096 \<noteq> 1" using geo(5,8) by linarith+
    then show ?thesis using a by (simp add: inode_at_def agree_def)
  qed
  have val: "inode_valid F' sb i" by (rule same_blocks_valid [OF f same consistent_node(1) [OF c n]])
  have disj: "b \<notin> set (inode_blocks F i)" if "m \<noteq> n" "b \<in> owned_by F sb m" for m b
    using consistent_disjoint [OF c that(1)] consistent_node(2) [OF c n] that(2) by blast
  have us: "used F sb k" if "k \<in> set (inode_blocks F i)" for k using f that by (simp add: file_ok_def)
  show "replaced sb n F F' i"
    unfolding replaced_def nd(2) ib(1)
    using a geo at own disj val us consistent_node [OF c n] by (auto simp: agree_def)
qed

lemma agree_consistent:
  assumes v: "sb_validate sb = Inr ()" and c: "fs_consistent F sb" and a: "agree sb F F'"
  shows "fs_consistent F' sb"
proof -
  obtain r where r: "node F sb 1 = Some r" using consistent_root [OF c] by blast
  note ar = agree_replaced [OF v consistent_storage [OF c] a r]
  show ?thesis by (rule replaced_same_consistent [OF c r ar(1) refl]) (simp add: ar(4))
qed

lemma agree_view:
  assumes v: "sb_validate sb = Inr ()" and c: "fs_consistent F sb" and a: "agree sb F F'"
  shows "path_lookup F' sb p = path_lookup F sb p" "file_at F' sb p = file_at F sb p"
proof -
  note nd = agree_node(1) [OF v a] and ar = agree_replaced [OF v consistent_storage [OF c] a]
  have "path_step F' sb k cur = path_step F sb k cur" for k cur
    using ar(4) by (cases "node F sb (unat cur)") (simp_all add: path_step_def nd)
  then have "path_step F' sb = path_step F sb" by (intro ext)
  then show pl: "path_lookup F' sb p = path_lookup F sb p" by (simp add: path_lookup_walk)
  have "(case node F' sb (unat n) of None \<Rightarrow> Inl F_NotFound | Some i \<Rightarrow> if ino_kind i = Regular then Inr (inode_contents F' i) else Inl F_IsDirectory) =
    (case node F sb (unat n) of None \<Rightarrow> Inl F_NotFound | Some i \<Rightarrow> if ino_kind i = Regular then Inr (inode_contents F i) else Inl F_IsDirectory)" for n :: u64
    using ar(3) [of "unat n"] by (cases "node F sb (unat n)") (simp_all add: nd)
  then show "file_at F' sb p = file_at F sb p" unfolding file_at_def pl by simp
qed

lemma file_at_generation [simp]: "file_at F (sb\<lparr>sb_generation := t\<rparr>) p = file_at F sb p"
  by (simp add: file_at_def)

context reliable_device
begin

lemma mounted_at:
  assumes "mounted ops invar sec v"
  shows "vol_good (vol_device v) (vol_superblock v)" "vol_at (vol_device v) (vol_superblock v) (blk ops sec (vol_device v)) v"
    "fs_consistent (blk ops sec (vol_device v)) (vol_superblock v)"
  using assms by (simp_all add: mounted_def vol_good_def vol_at_def holding_def)

lemma at_mounted:
  assumes g: "vol_good d0 sb" and w: "vol_at d0 sb F v" and c: "fs_consistent F sb" and d: "sb_decode (F 1) = Inr sb"
  shows "mounted ops invar sec v" "agree sb F (blk ops sec (vol_device v))"
proof -
  note val = vol_goodD(2) [OF g]
  have sb: "vol_superblock v = sb" and h: "holding d0 (total_of sb) F (vol_device v)" using w by (simp_all add: vol_at_def)
  show a: "agree sb F (blk ops sec (vol_device v))" using h by (simp add: agree_def holding_def)
  have "1 < total_of sb" using sb_validD [OF val] by linarith
  then have "blk ops sec (vol_device v) 1 = F 1" using h by (simp add: holding_def)
  then show "mounted ops invar sec v"
    using sb h d g agree_consistent [OF val c a] holding_sizes(2) [OF h] by (simp add: mounted_def holding_def vol_good_def)
qed

text \<open>Reading does not change the volume.\<close>

lemma read_file_at:
  assumes g: "vol_good d0 sb" and c: "fs_consistent F sb"
  shows "triple (vol_at d0 sb F) (read_file ops p offset out)
    (\<lambda>r v. vol_at d0 sb F v \<and> (\<exists>C. file_at F sb p = Inr C \<and> r = read_of C (unat offset) out))
    (\<lambda>e v. vol_at d0 sb F v \<and> file_at F sb p = Inl e)"
proof (rule triple_vol [OF g])
  assume ok: "blocks_ok sb F"
  note st = consistent_storage [OF c]
  let ?Q = "\<lambda>r v. vol_at d0 sb F v \<and> (\<exists>C. file_at F sb p = Inr C \<and> r = read_of C (unat offset) out)"
  let ?E = "\<lambda>e v. vol_at d0 sb F v \<and> file_at F sb p = Inl e"
  have res: "triple (vol_at d0 sb F) (vol_resolve ops p)
    (\<lambda>x v. vol_at d0 sb F v \<and> path_lookup F sb p = Inr x \<and> node F sb (unat x) \<noteq> None) ?E"
    by (rule triple_conseq [OF resolve_at [OF g c]]) (auto simp: file_at_def)
  show ?thesis
    unfolding read_file_def
  proof (rule triple_bind_val [OF res], elim conjE exE, goal_cases)
    case (1 n)
    then obtain i where p: "path_lookup F sb p = Inr n" and n: "node F sb (unat n) = Some i" by blast
    note f = consistent_file [OF st n] and lc = length_contents [OF st ok n]
    let ?len = "min (length out) (unat (ino_size i) - unat offset)"
    have "slice (unat offset) ?len (file_data F i) = slice (unat offset) ?len (inode_contents F i)"
      by (simp add: contents_data slice_def drop_take min_def)
    then have rd: "(?len, put_slice 0 (slice (unat offset) ?len (file_data F i)) out) = read_of (inode_contents F i) (unat offset) out"
      by (simp add: read_of_def lc Let_def)
    have "file_at F sb p = (if ino_kind i = Regular then Inr (inode_contents F i) else Inl F_IsDirectory)"
      using p n by (simp add: file_at_def)
    then show ?case
      using triple_post [OF read_inode_data_at [OF g f(1,2), of offset out ?E, unfolded rd]]
      by (intro triple_bind_val [OF read_inode_at [OF g n]]) (auto simp: triple_def)
  qed
qed

text \<open>The results of the operations that only read.\<close>

lemma triple_result:
  assumes "triple P m (\<lambda>x s. R s \<and> A x) (\<lambda>e s. R s \<and> B e)" "P s"
  shows "case fst (m s) of Inl e \<Rightarrow> B e | Inr x \<Rightarrow> A x"
  using tripleD [OF assms(1,2)] triple_errorD [OF assms(1,2)] by (cases "m s"; cases "fst (m s)") auto

lemma resolve_result:
  assumes "mounted ops invar sec v"
  shows "fst (vol_resolve ops p v) = path_lookup (blk ops sec (vol_device v)) (vol_superblock v) p"
  using triple_result [OF resolve_at [OF mounted_at(1,3) [OF assms], of p] mounted_at(2) [OF assms]]
  by (auto split: sum.splits)

lemma read_result:
  assumes "mounted ops invar sec v"
  shows "fst (read_file ops p offset out v) =
    (case file_at (blk ops sec (vol_device v)) (vol_superblock v) p of Inl e \<Rightarrow> Inl e | Inr C \<Rightarrow> Inr (read_of C (unat offset) out))"
  using triple_result [OF read_file_at [OF mounted_at(1,3) [OF assms], of p offset out] mounted_at(2) [OF assms]]
  by (auto split: sum.splits)

text \<open>A changed file.\<close>

lemma file_changed_view:
  assumes g: "vol_good d0 sb" and c: "fs_consistent F sb" and ch: "file_changed d0 sb F p f v"
  defines "B \<equiv> blk ops sec (vol_device v)" and "sb' \<equiv> vol_superblock v"
  shows "mounted ops invar sec v" "path_lookup B sb' q = path_lookup F sb q"
    "\<exists>C. file_at F sb p = Inr C \<and> file_at B sb' p = Inr (f C)"
    "path_lookup F sb q \<noteq> path_lookup F sb p \<Longrightarrow> file_at B sb' q = file_at F sb q"
proof -
  obtain F' n i j where h: "vol_at d0 (with_generation sb) F' v" "sb_decode (F' 1) = Inr (with_generation sb)"
    "path_lookup F sb p = Inr n" "node F sb (unat n) = Some i" "ino_kind i = Regular" "ino_kind j = Regular"
    "replaced sb (unat n) F F' j" "inode_contents F' j = f (inode_contents F i)"
    using ch by (auto simp: file_changed_def)
  note v = vol_goodD(2) [OF g] and st = consistent_storage [OF c]
  have g': "vol_good d0 (with_generation sb)" using g by simp
  have sb': "sb' = with_generation sb" using h(1) by (simp add: sb'_def vol_at_def)
  have c': "fs_consistent F' sb" using h(5,6) by (intro replaced_same_consistent [OF c h(4,7)]) simp_all
  then have c'': "fs_consistent F' (with_generation sb)" by simp
  note m = at_mounted [OF g' h(1) c'' h(2)]
  show "mounted ops invar sec v" by (rule m(1))
  have a: "agree sb F' B" using m(2) by (simp add: agree_def B_def)
  note view = agree_view [OF v c' a]
  have pl: "path_lookup F' sb q = path_lookup F sb q" for q by (rule replaced_lookup [OF c h(4,7,5,6)])
  show "path_lookup B sb' q = path_lookup F sb q" unfolding sb' by (simp add: view(1) pl)
  note nd = replaced_node [OF st h(4,7)]
  have fa: "file_at B sb' q = bind_res (path_lookup F sb q) (\<lambda>m. case node F' sb (unat m) of None \<Rightarrow> Inl F_NotFound
      | Some i \<Rightarrow> if ino_kind i = Regular then Inr (inode_contents F' i) else Inl F_IsDirectory)" for q
    unfolding sb' file_at_generation view(2) unfolding file_at_def pl by (rule refl)
  show "\<exists>C. file_at F sb p = Inr C \<and> file_at B sb' p = Inr (f C)"
    unfolding fa using h nd by (simp add: file_at_def)
  show "file_at B sb' q = file_at F sb q" if ne: "path_lookup F sb q \<noteq> path_lookup F sb p"
  proof (cases "path_lookup F sb q")
    case (Inl e)
    then show ?thesis unfolding fa by (simp add: file_at_def)
  next
    case (Inr k)
    then have "unat k \<noteq> unat n" using ne h(3) by (auto simp: word_unat_eq_iff)
    then show ?thesis unfolding fa using Inr nd [of "unat k"] replaced_other(2) [OF st h(7), of "unat k"]
      by (auto simp: file_at_def split: option.splits)
  qed
qed

end

definition overwritten :: "nat \<Rightarrow> bytes \<Rightarrow> bytes \<Rightarrow> bytes" where
  "overwritten offset input C = put_slice offset input (pad (max (length C) (offset + length input)) C)"

lemma read_overwritten:
  "length out = length input \<Longrightarrow> read_of (overwritten offset input C) offset out = (length input, input)"
  by (simp add: read_of_def overwritten_def pad_def Let_def slice_put_same put_slice_def [of 0])

section \<open>Mounting\<close>

lemma sb_decode_ok: "sb_decode b = Inr sb \<Longrightarrow> sb_ok sb"
  by (auto simp: sb_decode_def sb_ok_def Let_def bind_res_Inr_iff BLOCK_SIZE_def split: if_splits)

definition opened :: "superblock \<Rightarrow> superblock" where
  "opened sb = sb\<lparr>sb_flags := sb_flags sb AND NOT CLEAN_FLAG, sb_generation := saturating_add (sb_generation sb) 1\<rparr>"

lemma opened_simps [simp]:
  "sb_ok (opened sb) = sb_ok sb" "total_of (opened sb) = total_of sb" "fs_consistent F (opened sb) = fs_consistent F sb"
  "agree (opened sb) F F' = agree sb F F'" "sb_validate (opened sb) = Inr () \<longleftrightarrow> sb_validate sb = Inr ()"
proof -
  show "sb_ok (opened sb) = sb_ok sb" "total_of (opened sb) = total_of sb" "fs_consistent F (opened sb) = fs_consistent F sb"
    by (simp_all add: opened_def)
  then show "agree (opened sb) F F' = agree sb F F'" by (simp add: agree_def)
  show "sb_validate (opened sb) = Inr () \<longleftrightarrow> sb_validate sb = Inr ()"
    by (simp add: sb_validate_def opened_def block_bitmap_blocks_def)
qed

context reliable_device
begin

lemma mount_at:
  assumes inv: "invar d" and ch: "check_detailed ops d = (Inr report, d1)"
  defines "sb \<equiv> cr_superblock report"
  shows "\<exists>d'. fs_mount ops d = (Inr (opened sb), d') \<and> mounted ops invar sec \<lparr>vol_device = d', vol_superblock = opened sb\<rparr> \<and>
    agree sb (blk ops sec d) (blk ops sec d')"
proof -
  have c: "sb_decode (blk ops sec d 1) = Inr sb" "holds_blocks ops d (total_of sb)" "invar d1" "same_disk ops sec d d1"
    "fs_consistent (blk ops sec d) sb"
    using check_sound [OF inv ch] by (simp_all add: sb_def)
  have ok: "sb_ok (opened sb)" using sb_decode_ok [OF c(1)] by simp
  have v: "sb_validate sb = Inr ()" using sb_decode_ok [OF c(1)] by (simp add: sb_ok_def)
  obtain b where b: "sb_encode (opened sb) (replicate 4096 0) = Inr b" "length b = 4096" "sb_decode b = Inr (opened sb)"
    using sb_round_trip [OF ok, of "replicate 4096 0"] by auto
  have total: "1 < total_of sb" using sb_validD [OF v] by linarith
  have "holding d (total_of sb) (blk ops sec d) d" using inv by (simp add: holding_def)
  then have h1: "holding d (total_of sb) (blk ops sec d) d1" by (rule holding_same [OF _ c(2-4)])
  define G where "G = (blk ops sec d)(1 := b)"
  have G1: "G 1 = b" by (simp add: G_def)
  obtain d2 where d2: "write_superblock ops (opened sb) d1 = (Inr (), d2)" "holding d (total_of sb) G d2"
    using triple_succeeds [OF write_superblock_holding [OF c(2) total b(1,2)] h1] by (auto simp: G_def)
  obtain d3 where d3: "io (flush_device ops) d2 = (Inr (), d3)" "holding d (total_of sb) G d3"
    using triple_succeeds [OF io_flush_holding [OF c(2)] d2(2)] by auto
  have "fs_mount ops d = (Inr (opened sb), d3)"
    using ch d2(1) d3(1) by (simp add: fs_mount_def bind_act_def Let_def opened_def sb_def)
  moreover have "fs_consistent G sb" by (rule agree_consistent [OF v c(5)]) (simp add: agree_def G_def)
  then have "mounted ops invar sec \<lparr>vol_device = d3, vol_superblock = opened sb\<rparr>"
    using c(2) ok d3(2) b(3) G1 by (intro at_mounted(1) [of d "opened sb" G]) (simp_all add: vol_good_def vol_at_def)
  moreover have "agree sb (blk ops sec d) (blk ops sec d3)" using d3(2) by (simp add: agree_def holding_def G_def)
  ultimately show ?thesis by blast
qed

end

section \<open>Creating\<close>

context reliable_device
begin

lemma created_view:
  assumes g: "vol_good d0 sb" and c: "fs_consistent F sb" and cr: "created d0 sb F p kind n v"
  defines "B \<equiv> blk ops sec (vol_device v)" and "sb' \<equiv> vol_superblock v"
  shows "mounted ops invar sec v" "path_lookup B sb' p = Inr n" "path_lookup F sb p = Inl F_NotFound"
    "path_lookup F sb q = Inr m \<Longrightarrow> path_lookup B sb' q = Inr m"
    "file_at F sb q = Inr C \<Longrightarrow> file_at B sb' q = Inr C"
    "\<exists>k. node B sb' (unat n) = Some k \<and> ino_kind k = kind \<and> ino_size k = 0"
    "kind = Regular \<Longrightarrow> file_at B sb' p = Inr []"
proof -
  obtain F' parent name q d k es where h: "vol_at d0 (with_generation sb) F' v" "sb_decode (F' 1) = Inr (with_generation sb)"
    "split_parent p = Inr (parent, name)" "path_lookup F sb parent = Inr q" "ino_kind k = kind"
    "attached sb (unat q) F F' d k es \<lparr>de_inode = n, de_kind = kind, de_name = name\<rparr>"
    using cr by (auto simp: created_def)
  define e where "e = \<lparr>de_inode = n, de_kind = kind, de_name = name\<rparr>"
  note a = h(6) [folded e_def] and val = split_parent_lookup [OF h(3)]
  note v = vol_goodD(2) [OF g] and an = attached_nodes [OF c a]
  have e: "de_inode e = n" "de_name e = name" by (simp_all add: e_def)
  have sb': "sb' = with_generation sb" using h(1) by (simp add: sb'_def vol_at_def)
  have c': "fs_consistent F' sb" by (rule attached_consistent [OF c a])
  have g': "vol_good d0 (with_generation sb)" using g by simp
  have c'': "fs_consistent F' (with_generation sb)" using c' by simp
  note m = at_mounted [OF g' h(1) c'' h(2)]
  show "mounted ops invar sec v" by (rule m(1))
  have ag: "agree sb F' B" using m(2) by (simp add: agree_def B_def)
  note view = agree_view [OF v c' ag] and old = attached_lookup(1) [OF c a]
  have new: "path_lookup F' sb p = Inr n" using attached_lookup(2) [OF c a, of p parent] h(3,4) e by simp
  show "path_lookup B sb' p = Inr n" unfolding sb' by (simp add: view(1) new)
  show "path_lookup F sb p = Inl F_NotFound"
  proof -
    have d: "node F sb (unat q) = Some d" "ino_kind d = Directory" "inode_entries F d = Inr es" "name \<notin> de_name ` set es"
      using a e by (auto simp: attached_def)
    have ne: "name \<noteq> []" "name \<noteq> [0x2E]" "name \<noteq> [0x2E, 0x2E]" using val(2) by (auto simp: validate_name_def split: if_splits)
    have "\<not> (\<exists>x. x \<in> set es \<and> de_name x = name)" using d(4) by (metis imageI)
    then have "find (\<lambda>x. de_name x = name) es = None" by (simp add: find_None_iff)
    then show ?thesis using val h(4) d ne by (simp add: path_step_def)
  qed
  show lk: "path_lookup B sb' q = Inr m" if "path_lookup F sb q = Inr m" for q m unfolding sb' using old [OF that] by (simp add: view(1))
  show "file_at B sb' r = Inr C" if f: "file_at F sb r = Inr C" for r C
  proof -
    obtain y i where y: "path_lookup F sb r = Inr y" "node F sb (unat y) = Some i" "ino_kind i = Regular" "C = inode_contents F i"
      using f by (auto simp: file_at_def bind_res_Inr_iff split: option.splits if_splits)
    have "unat y \<noteq> unat q" using y(2,3) a by (auto simp: attached_def)
    moreover have "unat y \<noteq> unat (de_inode e)" using y(2) an(2) by auto
    ultimately have "node F' sb (unat y) = Some i" "inode_contents F' i = C" using an(5) an(6) [OF _ y(2)] y by simp_all
    then have "file_at F' sb r = Inr C" using old [OF y(1)] y(3) by (simp add: file_at_def)
    then show ?thesis unfolding sb' by (simp add: view(2))
  qed
  have kn: "node F' sb (unat n) = Some k" using an(1) an(5) [of "unat n"] e by simp
  have emp: "empty_inode k" using a by (auto simp: attached_def added_def)
  then have nk: "\<exists>k. node F' sb (unat n) = Some k \<and> ino_kind k = kind \<and> ino_size k = 0" using kn h(5) by (simp add: empty_inode_def)
  then show "\<exists>k. node B sb' (unat n) = Some k \<and> ino_kind k = kind \<and> ino_size k = 0"
    unfolding sb' by (simp add: agree_node(1) [OF v ag])
  have "file_at F' sb p = Inr []" if "kind = Regular" using new kn h(5) an(7) that by (simp add: file_at_def)
  then show "file_at B sb' p = Inr []" if "kind = Regular" unfolding sb' using that by (simp add: view(2))
qed

text \<open>The outcomes of the operations on a mounted volume.\<close>

lemma create_result:
  assumes m: "mounted ops invar sec v" and u: "utf8_valid p" and r: "vol_create ops p kind perms v = (Inr n, v')"
  shows "created (vol_device v) (vol_superblock v) (blk ops sec (vol_device v)) p kind n v'"
  using tripleD [OF create_at [OF mounted_at(1,3) [OF m] u] mounted_at(2) [OF m] r] .

lemma write_result:
  assumes m: "mounted ops invar sec v" and l: "length input < 2 ^ 64" and r: "write_file ops p offset input v = (Inr n, v')"
  shows "n = length input" "file_changed (vol_device v) (vol_superblock v) (blk ops sec (vol_device v)) p (overwritten (unat offset) input) v'"
  using tripleD [OF write_file_at [OF mounted_at(1,3) [OF m] l] mounted_at(2) [OF m] r] by (simp_all add: overwritten_def [abs_def])

end

end
