(* ===== verification/Nexfs_Service.thy ===== *)
theory Nexfs_Service
  imports Nexfs_Mounted
begin

text \<open>
  The volume as its clients see it: the properties of mounting, writing and creating, and a formatted
  memory device on which each of them can be observed.
\<close>

section \<open>A blank volume\<close>

text \<open>A volume with the empty root directory and nothing else.\<close>

definition blank :: "blocks \<Rightarrow> superblock \<Rightarrow> bool" where
  "blank F sb \<longleftrightarrow> (\<forall>m. node F sb m = (if m = 1 then Some root_inode_new else None)) \<and>
    (\<forall>b < total_of sb. used F sb b \<longleftrightarrow> b < data_of sb)"

lemma fresh_blank:
  assumes f: "fresh F sb" and ok: "blocks_ok sb F"
  shows "blank F sb"
proof -
  have v: "sb_validate sb = Inr ()" and bits: "\<forall>j < 32768. bm_bit (F 2) j \<longleftrightarrow> j < 2"
    and bm: "\<forall>i < bitmap_blocks sb. \<forall>j < 32768. bm_bit (F (3 + i)) j \<longleftrightarrow> i * 32768 + j < data_of sb"
    and root: "inode_at F sb 1 = Inr root_inode_new" using f by (simp_all add: fresh_def)
  note ic = inode_count_valid [OF v]
  have "node F sb m = (if m = 1 then Some root_inode_new else None)" for m
    using bits ic root by (auto simp: node_def)
  moreover have "used F sb b \<longleftrightarrow> b < data_of sb" if b: "b < total_of sb" for b
  proof -
    have "b < 32768 * bitmap_blocks sb" using b bitmap_blocks_bound(2) [of sb] by linarith
    then have "b div 32768 < bitmap_blocks sb" by (simp add: less_mult_imp_div_less mult.commute)
    then show ?thesis using used_bit [OF ok v b] bm by simp
  qed
  ultimately show ?thesis by (simp add: blank_def)
qed

lemma blank_free: "blank F sb \<Longrightarrow> card (free_blocks F sb) = total_of sb - data_of sb"
proof -
  assume "blank F sb"
  then have "free_blocks F sb = {data_of sb..<total_of sb}" by (auto simp: free_blocks_def blank_def)
  then show ?thesis by simp
qed

lemma root_new: "count_of root_inode_new = 0" "ino_kind root_inode_new = Directory" "inode_entries F root_inode_new = Inr []"
  using empty_inode_blocks [OF new_inode_empty(1)]
  by (simp_all add: root_inode_new_def new_inode_empty(2) count_of_def inode_new_def)

lemma blank_lookup: "blank F sb \<Longrightarrow> path_lookup F sb [path_slash] = Inr 1"
  by (simp add: path_lookup_walk)

lemma triple_no_error:
  assumes "triple P m Q E" "P s" "\<And>e s'. \<not> E e s'"
  shows "\<exists>x s'. m s = (Inr x, s') \<and> Q x s'"
  using tripleD [OF assms(1,2)] triple_errorD [OF assms(1,2)] assms(3) by (cases "m s"; cases "fst (m s)") auto

context reliable_device
begin

lemma mount_blank:
  assumes inv: "invar d0" and h: "holds_blocks ops d0 n" and dev: "device_bytes ops d0 = Inr bytes" "unat bytes div 4096 = n"
    and n: "32 \<le> n" and uuid: "length uuid = 16"
  shows "\<exists>sb d1 d2. fs_format ops uuid d0 = (Inr sb, d1) \<and> invar d1 \<and> fs_mount ops d1 = (Inr (opened sb), d2) \<and> total_of sb = n \<and>
    mounted ops invar sec \<lparr>vol_device = d2, vol_superblock = opened sb\<rparr> \<and> blank (blk ops sec d2) (opened sb)"
proof -
  obtain sb F d1 where f: "fs_format ops uuid d0 = (Inr sb, d1)" "total_of sb = n" "holding d0 n F d1" "fresh F sb"
    using format_fresh [OF assms] by blast
  have fr: "fresh (blk ops sec d1) sb" using f(2,3) by (intro fresh_cong [OF f(4)]) (simp add: holding_def)
  have v: "sb_validate sb = Inr ()" using fr by (simp add: fresh_def)
  have inv1: "invar d1" and h1: "holds_blocks ops d1 (total_of sb)" and b1: "device_bytes ops d1 = Inr bytes"
    using f(2,3) h dev(1) holding_sizes(2) [OF f(3)] by (simp_all add: holding_def device_bytes_def)
  obtain report d where ch: "check_detailed ops d1 = (Inr report, d)" "cr_superblock report = sb"
    using check_fresh [OF inv1 h1 fr b1] f(2) dev(2) by auto
  obtain d2 where d2: "fs_mount ops d1 = (Inr (opened sb), d2)" "mounted ops invar sec \<lparr>vol_device = d2, vol_superblock = opened sb\<rparr>"
    "agree sb (blk ops sec d1) (blk ops sec d2)" using mount_at [OF inv1 ch(1)] ch(2) by blast
  have "blocks_ok sb (blk ops sec d1)" using length_blk [OF inv1 h1] by (simp add: blocks_ok_def)
  then have "blank (blk ops sec d1) sb" by (rule fresh_blank [OF fr])
  then have "blank (blk ops sec d2) (opened sb)"
    using agree_node [OF v d2(3)] by (simp add: blank_def opened_def)
  then show ?thesis using f(1,2) inv1 d2 by blast
qed

text \<open>A file in the root directory of a blank volume.\<close>

lemma create_blank:
  assumes m: "mounted ops invar sec v" and b: "blank (blk ops sec (vol_device v)) (vol_superblock v)"
    and p: "split_parent p = Inr ([path_slash], name)" "utf8_valid p"
  shows "\<exists>n v'. vol_create ops p kind perms v = (Inr n, v') \<and> card (free_blocks (blk ops sec (vol_device v')) (vol_superblock v')) + 1 =
    total_of (vol_superblock v) - data_of (vol_superblock v) \<and> total_of (vol_superblock v') = total_of (vol_superblock v) \<and>
    data_of (vol_superblock v') = data_of (vol_superblock v)"
proof -
  let ?F = "blk ops sec (vol_device v)" and ?sb = "vol_superblock v"
  note at = mounted_at [OF m]
  have val: "sb_validate ?sb = Inr ()" by (rule vol_goodD(2) [OF at(1)])
  have node1: "node ?F ?sb (unat (1 :: u64)) = Some root_inode_new" using b by (simp add: blank_def)
  note look = blank_lookup [OF b]
  have not_refused: "\<not> create_refused ?F ?sb p e" for e
    using p(1) look node1 root_new by (simp add: create_refused_def)
  have "2 < inodes_of ?sb" using inode_count_valid(2) [OF val] by simp
  moreover have "\<not> bm_bit (?F 2) 2"
  proof
    assume bit: "bm_bit (?F 2) 2"
    have "\<exists>i. node ?F ?sb 2 = Some i \<and> inode_valid ?F ?sb i"
      by (rule consistent_storage [OF at(3), unfolded storage_ok_def, THEN conjunct1, rule_format]) (use bit \<open>2 < inodes_of ?sb\<close> in simp)
    then show False using b by (simp add: blank_def)
  qed
  moreover have "\<not> too_few ?sb ?F root_inode_new (blocks_for (256 * Suc (length ([] :: directory_entry list))))"
    using blank_free [OF b] sb_validD(8) [OF val] by (simp add: too_few_def root_new file_blocks_def blocks_for_def)
  ultimately have not_exhausted: "\<not> create_exhausted ?F ?sb root_inode_new [] e" for e
    by (auto simp: create_exhausted_def)
  have "\<not> create_failed (vol_device v) ?sb ?F p e w" for e w
    using not_refused not_exhausted p(1) look node1 root_new(3) by (auto simp: create_failed_def)
  then obtain n v' where r: "vol_create ops p kind perms v = (Inr n, v')" "created (vol_device v) ?sb ?F p kind n v'"
    using triple_no_error [OF create_at [OF at(1,3) p(2)] at(2)] by blast
  obtain F' parent x q d k es where h: "vol_at (vol_device v) (with_generation ?sb) F' v'" "split_parent p = Inr (parent, x)"
    "path_lookup ?F ?sb parent = Inr q" "attached ?sb (unat q) ?F F' d k es \<lparr>de_inode = n, de_kind = kind, de_name = x\<rparr>"
    using r(2) by (auto simp: created_def)
  have q: "q = 1" using h(2,3) p(1) look by simp
  have d: "d = root_inode_new" "es = []" using h(4) node1 root_new(3) [of ?F] by (auto simp: attached_def q)
  have sb': "vol_superblock v' = with_generation ?sb" using h(1) by (simp add: vol_at_def)
  have ag: "agree ?sb F' (blk ops sec (vol_device v'))" using h(1) by (simp add: vol_at_def holding_def agree_def)
  have "vol_good (vol_device v) (with_generation ?sb)" using at(1) by simp
  from vol_at_blocks [OF this h(1)] have "blocks_ok ?sb F'" by simp
  from attached_space [OF at(3) this h(4)]
  have "card (free_blocks F' ?sb) + 1 = total_of ?sb - data_of ?sb"
    using blank_free [OF b] d root_new(1) by (simp add: file_blocks_def blocks_for_def)
  moreover have "free_blocks (blk ops sec (vol_device v')) (vol_superblock v') = free_blocks F' ?sb"
    unfolding sb' using agree_node(2) [OF val ag] by (simp add: free_blocks_def)
  ultimately show ?thesis using r(1) sb' by auto
qed

text \<open>A write succeeds when the file is regular, the range is supported and there is room for it.\<close>

lemma write_succeeds:
  assumes m: "mounted ops invar sec v" and p: "path_lookup (blk ops sec (vol_device v)) (vol_superblock v) p = Inr n"
    and k: "node (blk ops sec (vol_device v)) (vol_superblock v) (unat n) = Some k" "ino_kind k = Regular"
    and fits: "unat offset + length input \<le> 4096 * 524"
    and room: "\<not> too_few (vol_superblock v) (blk ops sec (vol_device v)) k (blocks_for (max (unat (ino_size k)) (unat offset + length input)))"
  shows "\<exists>v'. write_file ops p offset input v = (Inr (length input), v')"
proof -
  note at = mounted_at [OF m]
  have "\<not> change_failed (vol_device v) (vol_superblock v) (blk ops sec (vol_device v)) p (unat offset + length input) e w" for e w
    using p k fits room by (auto simp: change_failed_def change_refused_def no_space_def)
  moreover have len: "length input < 2 ^ 64" using fits by simp
  ultimately show ?thesis using triple_no_error [OF write_file_at [OF at(1,3) len] at(2)] by blast
qed

end

section \<open>Running out of space\<close>

text \<open>
  When a write gives up for lack of space, every block it has taken stays marked although no inode owns it.
  The inodes and their blocks are the ones from before, and so is the content of every other file.
\<close>

definition kept :: "superblock \<Rightarrow> blocks \<Rightarrow> inode \<Rightarrow> blocks \<Rightarrow> bool" where
  "kept sb F i F' \<longleftrightarrow> data_blocks F' i = data_blocks F i \<and>
    (\<forall>x < total_of sb. x \<noteq> 1 \<and> x \<notin> bitmap_area sb \<and> x \<notin> set (inode_blocks F i) \<and> (x < data_of sb \<or> used F sb x) \<longrightarrow> F' x = F x)"

lemma exhausted_kept:
  assumes v: "sb_validate sb = Inr ()" and c: "storage_ok F sb" and n: "node F sb n = Some i" and e: "exhausted sb F i F'"
    and d: "data_blocks F' i = data_blocks F i" and a: "agree sb F' G"
  shows "kept sb F i G" "full G sb"
proof -
  note f = consistent_file(1) [OF c n] and geo = sb_validD [OF v]
  have "data_blocks G i = data_blocks F i"
  proof (cases "count_of i \<le> 12")
    case True
    then show ?thesis using data_blocks_cong [OF f] by blast
  next
    case False
    then have "unat (ino_indirect_block i) \<in> set (inode_blocks F i)" by (simp add: inode_blocks_def indirect_blocks_def count_of_def)
    then have "unat (ino_indirect_block i) < total_of sb" "unat (ino_indirect_block i) \<noteq> 1"
      using f geo(5,6) by (auto simp: file_ok_def)
    then have "G (unat (ino_indirect_block i)) = F' (unat (ino_indirect_block i))" using a by (simp add: agree_def)
    from pointers_cong [of G i F', OF this] show ?thesis using d by (simp only: data_blocks_def)
  qed
  then show "kept sb F i G" using e a by (simp add: kept_def exhausted_def agree_def)
  show "full G sb" using e agree_node(2) [OF v a] by (simp add: exhausted_def full_def)
qed

lemma kept_nodes:
  assumes v: "sb_validate sb = Inr ()" and c: "storage_ok F sb" and n: "node F sb n = Some i" and k: "kept sb F i F'"
  shows "node F' sb m = node F sb m" "owned_by F' sb m = owned_by F sb m"
    "m \<noteq> n \<Longrightarrow> node F sb m = Some j \<Longrightarrow> inode_contents F' j = inode_contents F j"
proof -
  note geo = sb_validD [OF v]
  have low: "F' x = F x" if "x < data_of sb" "x \<noteq> 1" "x \<notin> bitmap_area sb" for x
  proof -
    have "x \<notin> set (inode_blocks F i)" using that(1) owned_data [OF c, of x n] consistent_node(2) [OF c n] by auto
    then show ?thesis using k that geo(8) by (simp add: kept_def)
  qed
  have "F' 2 = F 2" using geo(5,6) by (intro low) (simp_all add: bitmap_area_def)
  moreover have "inode_at F' sb m = inode_at F sb m" if "m < inodes_of sb" for m
  proof -
    have "m * 256 div 4096 < data_of sb - table_of sb" using that by (simp add: inodes_of_def)
    then have "F' (table_of sb + m * 256 div 4096) = F (table_of sb + m * 256 div 4096)"
      using geo(5) by (intro low) (simp_all add: bitmap_area_def)
    then show ?thesis by (simp add: inode_at_def)
  qed
  ultimately show nd: "node F' sb m = node F sb m" for m by (simp add: node_def)
  have same: "inode_blocks F' j = inode_blocks F j" "inode_contents F' j = inode_contents F j" if m: "m \<noteq> n" "node F sb m = Some j" for m j
  proof -
    note f = consistent_file(1) [OF c m(2)]
    have "F' b = F b" if b: "b \<in> set (inode_blocks F j)" for b
    proof -
      have "b \<notin> set (inode_blocks F i)"
        using b consistent_disjoint [OF c m(1)] consistent_node(2) [OF c m(2)] consistent_node(2) [OF c n] by blast
      moreover have "b \<noteq> 1" using f b geo(5,6) by (auto simp: file_ok_def)
      ultimately show ?thesis using k f b bitmap_area_below [OF v] by (simp add: kept_def file_ok_def)
    qed
    from same_blocks(1,3) [OF f this] show "inode_blocks F' j = inode_blocks F j" "inode_contents F' j = inode_contents F j" by blast+
  qed
  then show "m \<noteq> n \<Longrightarrow> node F sb m = Some j \<Longrightarrow> inode_contents F' j = inode_contents F j" by blast
  have "inode_blocks F' i = inode_blocks F i" using k by (simp add: kept_def inode_blocks_def)
  then show "owned_by F' sb m = owned_by F sb m"
    using same(1) [of m] n by (cases "node F sb m"; cases "m = n") (simp_all add: owned_by_def nd)
qed

definition closed :: "superblock \<Rightarrow> superblock" where
  "closed sb = sb\<lparr>sb_flags := sb_flags sb OR CLEAN_FLAG, sb_generation := saturating_add (sb_generation sb) 1\<rparr>"

context reliable_device
begin

lemma unmount_at:
  assumes g: "vol_good d0 sb" and w: "vol_at d0 sb F v"
  shows "\<exists>v'. unmount ops v = (Inr (closed sb), v') \<and> agree sb F (blk ops sec (vol_device v')) \<and> invar (vol_device v') \<and>
    sb_decode (blk ops sec (vol_device v') 1) = Inr (closed sb) \<and> holds_blocks ops (vol_device v') (total_of sb)"
proof -
  have ok: "sb_ok (closed sb)" using g by (simp add: closed_def vol_good_def)
  obtain b where b: "sb_encode (closed sb) (replicate 4096 0) = Inr b" "length b = 4096" "sb_decode b = Inr (closed sb)"
    using sb_round_trip [OF ok, of "replicate 4096 0"] by auto
  note h = vol_goodD(1) [OF g]
  have total: "1 < total_of sb" using vgeo(1) [OF g] by linarith
  define G where "G = F(1 := b)"
  have fl: "triple (vol_at d0 sb H) (on_device (io (flush_device ops))) (\<lambda>x v. vol_at d0 sb H v \<and> True) fails_never" for H
    using io_flush_holding [OF h] by (intro on_device_triple) simp
  have ws: "triple (vol_at d0 sb F) (on_device (write_superblock ops (closed sb))) (\<lambda>x v. vol_at d0 sb G v \<and> True) fails_never"
    using write_superblock_holding [OF h total b(1,2)] by (intro on_device_triple) (simp add: G_def)
  have "triple (vol_at d0 sb F) (bind_act (on_device (write_superblock ops (closed sb))) (\<lambda>_.
      bind_act (on_device (io (flush_device ops))) (\<lambda>_. return_act (closed sb)))) (\<lambda>x v. vol_at d0 sb G v \<and> x = closed sb) fails_never"
    by (intro triple_bind_val [OF ws] triple_bind_val [OF fl] triple_return_val) simp
  then have "triple (vol_at d0 sb F) (bind_act superblock_of (\<lambda>sb. let sb = sb\<lparr>sb_flags := sb_flags sb OR CLEAN_FLAG\<rparr>;
      sb = sb\<lparr>sb_generation := saturating_add (sb_generation sb) 1\<rparr> in
      bind_act (on_device (write_superblock ops sb)) (\<lambda>_. bind_act (on_device (io (flush_device ops))) (\<lambda>_. return_act sb))))
    (\<lambda>x v. vol_at d0 sb G v \<and> x = closed sb) fails_never"
    unfolding superblock_of_triple by (simp add: Let_def closed_def)
  then have "triple (vol_at d0 sb F) (unmount ops) (\<lambda>x v. vol_at d0 sb G v \<and> x = closed sb) fails_never"
    unfolding unmount_def by (intro triple_bind_val [OF fl])
  from triple_succeeds [OF this w] obtain v' where r: "unmount ops v = (Inr (closed sb), v')" and at: "vol_at d0 sb G v'" by auto
  have hold: "holding d0 (total_of sb) G (vol_device v')" using at by (simp add: vol_at_def)
  then have "agree sb F (blk ops sec (vol_device v'))" "blk ops sec (vol_device v') 1 = b" using total by (simp_all add: agree_def holding_def G_def)
  moreover have "holds_blocks ops (vol_device v') (total_of sb)" using h holding_sizes [OF hold] by simp
  ultimately show ?thesis using r b(3) hold by (simp add: holding_def)
qed

text \<open>Checking a volume writes nothing, whatever it finds, so a mount that is refused changes nothing.\<close>

definition reads_only :: "('d, 'e, 'a) action \<Rightarrow> bool" where
  "reads_only m \<longleftrightarrow> (\<forall>d0. triple (at_disk d0) m (\<lambda>_. at_disk d0) (\<lambda>_. at_disk d0))"

lemma reads_pure:
  "reads_only (return_act x)" "reads_only (fail_act e)" "reads_only (lift_res r)" "reads_only (ask f)"
  by (auto simp: reads_only_def triple_def)

lemma reads_bind: "reads_only m \<Longrightarrow> (\<And>x. reads_only (f x)) \<Longrightarrow> reads_only (bind_act m f)"
  unfolding reads_only_def by (blast intro: triple_bind)

lemma reads_if: "reads_only m \<Longrightarrow> reads_only m' \<Longrightarrow> reads_only (if c then m else m')"
  by simp

lemma reads_case: "(\<And>a b. reads_only (f a b)) \<Longrightarrow> reads_only (case p of (a, b) \<Rightarrow> f a b)"
  by (cases p) simp

lemma reads_fold: "(\<And>x b. reads_only (f x b)) \<Longrightarrow> reads_only (fold_act f xs b)"
  unfolding reads_only_def using triple_fold [of xs "\<lambda>_ _. at_disk _" f "\<lambda>_. at_disk _" b] by blast

lemma reads_io: "reads_only m \<Longrightarrow> reads_only (io m)"
  by (simp add: reads_only_def triple_map_err)

lemma reads_vec: "reads_only (read_vec ops lba BLOCK_SIZE)"
  unfolding reads_only_def
proof
  fix d0
  have r: "\<exists>r d'. read_vec ops lba BLOCK_SIZE d = (r, d') \<and> at_disk d0 d'" if d: "at_disk d0 d" for d
  proof -
    have inv: "invar d" and same: "same_disk ops sec d0 d" using d by (simp_all add: at_disk_def)
    let ?n = "4096 div sector_bytes ops d" and ?b = "replicate BLOCK_SIZE (0 :: u8)"
    have "bad_transfer ops d lba (length ?b) \<or> good_transfer ops d lba (length ?b) ?n"
    proof (cases "sector_bytes ops d dvd 4096")
      case True
      then show ?thesis using block_sectors_bounds [OF True] by (auto simp: bad_transfer_def good_transfer_def BLOCK_SIZE_def block_sectors_def)
    qed (simp add: bad_transfer_def BLOCK_SIZE_def dvd_eq_mod_eq_0)
    then obtain r x d' where "read_sectors ops lba ?b d = (r, x, d')" "invar d'" "same_disk ops sec d d'"
      using read_bad [OF inv, of lba ?b] read_good [OF inv, of lba ?b ?n] by blast
    then show ?thesis using same_disk_trans [OF same] by (cases r) (auto simp: read_vec_def at_disk_def)
  qed
  show "triple (at_disk d0) (read_vec ops lba BLOCK_SIZE) (\<lambda>_. at_disk d0) (\<lambda>_. at_disk d0)"
    using r by (intro tripleI) fastforce+
qed

lemmas reads_rules = reads_pure reads_bind reads_if reads_case reads_fold reads_io reads_vec

lemma reads_block: "reads_only (fs_read_block ops sb b BLOCK_SIZE)"
  unfolding fs_read_block_def by (intro reads_rules)

lemma reads_superblock: "reads_only (clean_superblock ops)"
  unfolding clean_superblock_def read_superblock_def by (intro reads_rules)

lemma reads_bitmaps: "reads_only (read_inode_bitmap ops sb)" "reads_only (read_block_bitmap ops sb)"
  unfolding read_inode_bitmap_def read_block_bitmap_def read_bitmap_block_def by (intro reads_rules reads_block)+

lemma reads_inode: "reads_only (scan_inode ops sb ib bb n s)"
  unfolding scan_inode_def fs_read_inode_def validate_inode_blocks_def Let_def by (intro reads_rules reads_block)

lemma reads_directory: "reads_only (visit_directory ops sb count inodes n w)"
  unfolding visit_directory_def read_all_inode_data_def Let_def by (intro reads_rules reads_block)

lemma reads_state: "reads_only m \<Longrightarrow> at_disk d0 d \<Longrightarrow> at_disk d0 (snd (m d))"
  unfolding reads_only_def by (cases "m d"; cases "fst (m d)") (auto dest: tripleD triple_errorD)

lemma reads_stateI: "(\<And>d0 d. at_disk d0 d \<Longrightarrow> at_disk d0 (snd (m d))) \<Longrightarrow> reads_only m"
  by (fastforce simp: reads_only_def intro: tripleI)

lemma reads_walk: "reads_only (walk_directories ops sb count inodes w)"
proof -
  have "at_disk d0 (snd (walk_directories ops sb count inodes w d))" if "at_disk d0 d" for d0 d
    using that
  proof (induction "2 * unreached inodes (wk_reached w) + length (wk_pending w)" arbitrary: w d rule: less_induct)
    case (less w d)
    show ?case
    proof (cases "wk_pending w")
      case Nil
      then show ?thesis using less(2) by (subst walk_directories.simps) simp
    next
      case (Cons p rest)
      obtain r d1 where v: "visit_directory ops sb count inodes p (w\<lparr>wk_pending := rest\<rparr>) d = (r, d1)" by fastforce
      then have d1: "at_disk d0 d1" using reads_state [OF reads_directory less(2), of sb count inodes p "w\<lparr>wk_pending := rest\<rparr>"] by simp
      show ?thesis
      proof (cases r)
        case (Inl e)
        then show ?thesis using v Cons d1 by (subst walk_directories.simps) simp
      next
        case (Inr w1)
        then have "at_disk d0 (snd (walk_directories ops sb count inodes w1 d1))"
          using visit_directory_measure [of ops sb count inodes p "w\<lparr>wk_pending := rest\<rparr>" d w1 d1] v Cons by (intro less(1) [OF _ d1]) simp
        then show ?thesis using v Inr Cons by (subst walk_directories.simps) simp
      qed
    qed
  qed
  then show ?thesis by (rule reads_stateI)
qed

lemma check_reads: "reads_only (check_detailed ops)"
  unfolding check_detailed_def by (intro reads_rules reads_superblock reads_bitmaps reads_inode reads_walk)

lemma refused_mount:
  assumes d: "at_disk d0 d" and c: "\<And>d report d'. at_disk d0 d \<Longrightarrow> check_detailed ops d \<noteq> (Inr report, d')"
  shows "\<exists>e d'. fs_mount ops d = (Inl e, d') \<and> at_disk d0 d'"
proof (cases "check_detailed ops d")
  case (Pair r d')
  then obtain e where "check_detailed ops d = (Inl e, d')" using c [OF d] by (cases r) auto
  then show ?thesis using reads_state [OF check_reads d] by (simp add: fs_mount_def bind_act_def)
qed

lemma refused_mounts:
  assumes d: "at_disk d0 d" and c: "\<And>d report d'. at_disk d0 d \<Longrightarrow> check_detailed ops d \<noteq> (Inr report, d')"
  shows "\<exists>e. fst (fs_mount ops (((\<lambda>d. snd (fs_mount ops d)) ^^ k) d)) = Inl e"
proof -
  have "at_disk d0 (((\<lambda>d. snd (fs_mount ops d)) ^^ k) d)"
    using d refused_mount [OF _ c] by (induction k) fastforce+
  from refused_mount [OF this c] show ?thesis by auto
qed

text \<open>A block in use that no inode owns fails the check.\<close>

lemma unowned_refused:
  assumes inv: "invar d0" and sb: "sb_decode (blk ops sec d0 1) = Inr sb"
    and b: "b < total_of sb" "data_of sb \<le> b" "used (blk ops sec d0) sb b" "\<And>n. b \<notin> owned_by (blk ops sec d0) sb n"
    and h: "holds_blocks ops d0 (total_of sb)" and d: "at_disk d0 d"
  shows "check_detailed ops d \<noteq> (Inr report, d')"
proof
  assume ch: "check_detailed ops d = (Inr report, d')"
  have same: "invar d" "same_disk ops sec d0 d" using d by (simp_all add: at_disk_def)
  have v: "sb_validate sb = Inr ()" by (rule sb_decode_valid [OF sb])
  have eq: "blk ops sec d x = blk ops sec d0 x" if "x < total_of sb" for x by (rule blk_same [OF same(2) h that])
  then have a: "agree sb (blk ops sec d) (blk ops sec d0)" by (simp add: agree_def)
  have "1 < total_of sb" using sb_validD [OF v] by linarith
  then have "sb_decode (blk ops sec d 1) = Inr sb" using sb eq by simp
  with check_sound [OF same(1) ch] have "fs_consistent (blk ops sec d) sb" by simp
  from consistent_storage [OF agree_consistent [OF v this a]] show False using consistent_used [OF _ b(1)] b by force
qed

lemma no_space_leaks:
  assumes m: "mounted ops invar sec v" and l: "length input < 2 ^ 64"
    and free: "free_blocks (blk ops sec (vol_device v)) (vol_superblock v) \<noteq> {}"
    and w: "write_file ops p offset input v = (Inl F_NoSpace, v')"
  defines "B \<equiv> blk ops sec (vol_device v)" and "sb \<equiv> vol_superblock v"
  shows "\<exists>n v''. path_lookup B sb p = Inr n \<and> unmount ops v' = (Inr (closed sb), v'') \<and>
    sb_decode (blk ops sec (vol_device v'') 1) = Inr (closed sb) \<and>
    (\<forall>m. node (blk ops sec (vol_device v'')) sb m = node B sb m) \<and>
    (\<forall>m i. m \<noteq> unat n \<and> node B sb m = Some i \<longrightarrow> inode_contents (blk ops sec (vol_device v'')) i = inode_contents B i) \<and>
    (\<forall>b \<in> free_blocks B sb. used (blk ops sec (vol_device v'')) sb b \<and> (\<forall>m. b \<notin> owned_by (blk ops sec (vol_device v'')) sb m)) \<and>
    (\<forall>k. \<exists>e. fst (fs_mount ops (((\<lambda>d. snd (fs_mount ops d)) ^^ k) (vol_device v''))) = Inl e)"
proof -
  note at = mounted_at [OF m, folded B_def sb_def] and st = consistent_storage [OF mounted_at(3) [OF m], folded B_def sb_def]
  have val: "sb_validate sb = Inr ()" by (rule vol_goodD(2) [OF at(1)])
  have "change_failed (vol_device v) sb B p (unat offset + length input) F_NoSpace v'"
    using triple_errorD [OF write_file_at [OF at(1,3) l] at(2) w] .
  moreover have "\<not> change_refused B sb p (unat offset + length input) F_NoSpace"
    using path_lookup_error [OF at(3), of p F_NoSpace] by (auto simp: change_refused_def split: sum.splits if_splits)
  ultimately obtain n i F' where n: "path_lookup B sb p = Inr n" "node B sb (unat n) = Some i"
    and x: "vol_at (vol_device v) sb F' v'" "exhausted sb B i F'" "data_blocks F' i = data_blocks B i"
    by (auto simp: change_failed_def no_space_def)
  obtain v'' where un: "unmount ops v' = (Inr (closed sb), v'')" "agree sb F' (blk ops sec (vol_device v''))" "invar (vol_device v'')"
    "sb_decode (blk ops sec (vol_device v'') 1) = Inr (closed sb)" "holds_blocks ops (vol_device v'') (total_of sb)"
    using unmount_at [OF at(1) x(1)] by auto
  let ?B = "blk ops sec (vol_device v'')"
  note ex = exhausted_kept [OF val st n(2) x(2,3) un(2)]
  note kn = kept_nodes [OF val st n(2) ex(1)]
  have leak: "used ?B sb b \<and> (\<forall>m. b \<notin> owned_by ?B sb m)" if b: "b \<in> free_blocks B sb" for b
    using b ex(2) consistent_used [OF st, of b] by (auto simp: free_blocks_def full_def kn(2))
  obtain b where b: "b \<in> free_blocks B sb" using free by (auto simp: B_def sb_def)
  have r: "check_detailed ops d \<noteq> (Inr report, d')" if "at_disk (vol_device v'') d" for d report d'
    using leak [OF b] b un(5) that by (intro unowned_refused [OF un(3,4), of b]) (simp_all add: free_blocks_def closed_def)
  have "at_disk (vol_device v'') (vol_device v'')" using un(3) by (simp add: at_disk_def)
  from refused_mounts [OF this r] show ?thesis
    using n(1) un(1,4) kn(1,3) leak by blast
qed

text \<open>A file as large as the volume does not fit.\<close>

lemma write_too_large:
  assumes m: "mounted ops invar sec v" and p: "path_lookup (blk ops sec (vol_device v)) (vol_superblock v) p = Inr n"
    and k: "node (blk ops sec (vol_device v)) (vol_superblock v) (unat n) = Some k" "ino_kind k = Regular"
    and len: "4096 * total_of (vol_superblock v) \<le> length input" "length input \<le> 4096 * 524"
  shows "\<exists>v'. write_file ops p 0 input v = (Inl F_NoSpace, v')"
proof (cases "write_file ops p 0 input v")
  case (Pair r v')
  let ?F = "blk ops sec (vol_device v)" and ?sb = "vol_superblock v"
  note at = mounted_at [OF m] and st = consistent_storage [OF mounted_at(3) [OF m]]
  have l: "length input < 2 ^ 64" using len(2) by simp
  show ?thesis
  proof (cases r)
    case (Inl e)
    have "change_failed (vol_device v) ?sb ?F p (unat (0 :: u64) + length input) e v'"
      using triple_errorD [OF write_file_at [OF at(1,3) l] at(2)] Pair Inl by blast
    then have "e = F_NoSpace" using p k len(2) by (auto simp: change_failed_def change_refused_def no_space_def)
    then show ?thesis using Pair Inl by simp
  next
    case (Inr x)
    then have "file_changed (vol_device v) ?sb ?F p (overwritten 0 input) v'"
      using write_result(2) [OF m l, of p 0 x v'] Pair by simp
    then obtain F' i j and y :: u64 where h: "vol_at (vol_device v) (with_generation ?sb) F' v'" "node ?F ?sb (unat y) = Some i"
      "replaced ?sb (unat y) ?F F' j" "inode_contents F' j = overwritten 0 input (inode_contents ?F i)"
      by (auto simp: file_changed_def)
    have "vol_good (vol_device v) (with_generation ?sb)" using at(1) by simp
    from vol_at_blocks [OF this h(1)] have ok: "blocks_ok ?sb F'" by simp
    have st': "storage_ok F' ?sb" by (rule replaced_storage [OF st h(2,3)])
    have nj: "node F' ?sb (unat y) = Some j" using replaced_node [OF st h(2,3)] by simp
    note f = consistent_file [OF st' nj]
    have "length input \<le> unat (ino_size j)" using length_contents [OF st' ok nj] h(4) by (simp add: overwritten_def pad_def)
    then have "total_of ?sb \<le> count_of j" using f(3) len(1) blocks_for_bounds(1) [of "unat (ino_size j)"] by linarith
    then have "total_of ?sb \<le> card (set (inode_blocks F' j))" using card_inode_blocks [OF f(1)] by (simp add: file_blocks_def)
    moreover have "set (inode_blocks F' j) \<subseteq> {data_of ?sb..<total_of ?sb}" using f(1) by (auto simp: file_ok_def)
    then have "card (set (inode_blocks F' j)) \<le> total_of ?sb - data_of ?sb" using card_mono [of "{data_of ?sb..<total_of ?sb}"] by fastforce
    ultimately show ?thesis using vgeo(6,8) [OF at(1)] by linarith
  qed
qed

end

section \<open>A memory device\<close>

definition sample_path :: bytes where "sample_path = [0x2F, 0x61]"

lemma sample_path: "split_parent sample_path = Inr ([path_slash], [0x61])" "utf8_valid sample_path"
  by (simp_all add: sample_path_def split_parent_def trim_end_slashes_def path_slash_def rsplit_slash_def validate_name_def MAX_NAME_LENGTH_def)

lemma sample_volume:
  "\<exists>d1 sb d2. memory_inv d1 \<and> fs_mount memory_ops d1 = (Inr sb, d2) \<and> total_of sb = 32 \<and> data_of sb \<le> 30 \<and>
    mounted memory_ops memory_inv memory_sec \<lparr>vol_device = d2, vol_superblock = sb\<rparr> \<and> blank (blk memory_ops memory_sec d2) sb"
proof -
  obtain sb d1 d2 where s: "fs_format memory_ops (replicate 16 7) sample_disk = (Inr sb, d1)" "memory_inv d1"
    "fs_mount memory_ops d1 = (Inr (opened sb), d2)" "total_of sb = 32"
    "mounted memory_ops memory_inv memory_sec \<lparr>vol_device = d2, vol_superblock = opened sb\<rparr>" "blank (blk memory_ops memory_sec d2) (opened sb)"
    using mem.mount_blank [OF sample_disk_ok, of "replicate 16 7"] by auto
  have "format_superblock 32 (replicate 16 7) = Inr sb"
    using s(1) sample_disk_ok(3) by (auto simp: fs_format_def bind_act_Inr_iff BLOCK_SIZE_U64_def ask_def Let_def)
  then have "data_of sb \<le> 30"
    by (auto simp: format_superblock_def data_of_def Let_def bind_res_Inr_iff div_ceil_def clamp_def nexfs_consts split: if_splits)
  then show ?thesis using s by (auto simp: opened_def)
qed

lemma sample_file:
  "\<exists>v n k. mounted memory_ops memory_inv memory_sec v \<and> total_of (vol_superblock v) = 32 \<and>
    path_lookup (blk memory_ops memory_sec (vol_device v)) (vol_superblock v) sample_path = Inr n \<and>
    node (blk memory_ops memory_sec (vol_device v)) (vol_superblock v) (unat n) = Some k \<and> ino_kind k = Regular \<and> ino_size k = 0 \<and>
    1 \<le> card (free_blocks (blk memory_ops memory_sec (vol_device v)) (vol_superblock v)) \<and>
    file_at (blk memory_ops memory_sec (vol_device v)) (vol_superblock v) sample_path = Inr []"
proof -
  obtain sb d where s: "total_of sb = 32" "data_of sb \<le> 30" "mounted memory_ops memory_inv memory_sec \<lparr>vol_device = d, vol_superblock = sb\<rparr>"
    "blank (blk memory_ops memory_sec d) sb" using sample_volume by blast
  define v where "v = \<lparr>vol_device = d, vol_superblock = sb\<rparr>"
  have m: "mounted memory_ops memory_inv memory_sec v" and b: "blank (blk memory_ops memory_sec (vol_device v)) (vol_superblock v)"
    and t: "total_of (vol_superblock v) = 32" "data_of (vol_superblock v) \<le> 30" using s by (simp_all add: v_def)
  obtain n v' where r: "vol_create memory_ops sample_path Regular DEFAULT_FILE_PERMISSIONS v = (Inr n, v')"
    "card (free_blocks (blk memory_ops memory_sec (vol_device v')) (vol_superblock v')) + 1 = 32 - data_of (vol_superblock v)"
    "total_of (vol_superblock v') = 32"
    using mem.create_blank [OF m b sample_path, of Regular DEFAULT_FILE_PERMISSIONS] t(1) by auto
  note view = mem.created_view [OF mem.mounted_at(1,3) [OF m] mem.create_result [OF m sample_path(2) r(1)]]
  show ?thesis using view(1,2,6,7) r(2,3) t(2) by fastforce
qed

section \<open>The properties\<close>

text \<open>C13. Mounting establishes the well-formedness of a volume: when \<open>mount\<close> succeeds, the device holds the
  superblock that it returns, no longer marked clean, with a valid geometry inside the device, and a
  consistent file system.\<close>

theorem nexfs_mount_wellformed:
  assumes "reliable_device ops invar sec" "invar d" "fs_mount ops d = (Inr sb, d')"
  shows "mounted ops invar sec \<lparr>vol_device = d', vol_superblock = sb\<rparr> \<and> \<not> is_clean sb"
proof -
  obtain report d1 where ch: "check_detailed ops d = (Inr report, d1)"
    using assms(3) by (auto simp: fs_mount_def bind_act_Inr_iff)
  obtain d2 where d2: "fs_mount ops d = (Inr (opened (cr_superblock report)), d2)"
    "mounted ops invar sec \<lparr>vol_device = d2, vol_superblock = opened (cr_superblock report)\<rparr>"
    using reliable_device.mount_at [OF assms(1,2) ch] by blast
  have "\<not> is_clean (opened (cr_superblock report))" by (simp add: is_clean_def opened_def and.assoc)
  then show ?thesis using d2 assms(3) by simp
qed

theorem nexfs_mount_wellformed_witness:
  "\<exists>d sb d'. fs_mount memory_ops d = (Inr sb, d') \<and> mounted memory_ops memory_inv memory_sec \<lparr>vol_device = d', vol_superblock = sb\<rparr> \<and> \<not> is_clean sb"
proof -
  obtain d1 sb d2 where "memory_inv d1" "fs_mount memory_ops d1 = (Inr sb, d2)" using sample_volume by blast
  then show ?thesis using nexfs_mount_wellformed [OF mem.reliable_device_axioms] by blast
qed

text \<open>C1. Writing a file of a mounted volume behaves as overwriting its bytes: on success every byte of the
  input is written, the volume stays well-formed, every path still names the same inode, each read of
  the file returns the old contents with the input put at the offset, a gap before it filled with
  zeros, and reading any file with another inode returns what it returned before.\<close>

theorem nexfs_write_read:
  assumes "reliable_device ops invar sec" "mounted ops invar sec v" "length input < 2 ^ 64"
    "write_file ops p offset input v = (Inr n, v')"
  shows "n = length input \<and> mounted ops invar sec v' \<and> (\<forall>q. fst (vol_resolve ops q v') = fst (vol_resolve ops q v)) \<and>
    (\<exists>C. \<forall>o' buf. fst (read_file ops p o' buf v) = Inr (read_of C (unat o') buf) \<and>
      fst (read_file ops p o' buf v') = Inr (read_of (overwritten (unat offset) input C) (unat o') buf)) \<and>
    (\<forall>q o' buf. fst (vol_resolve ops q v) = fst (vol_resolve ops p v) \<or>
      fst (read_file ops q o' buf v') = fst (read_file ops q o' buf v))"
proof -
  note m = reliable_device.mounted_at [OF assms(1,2)] and w = reliable_device.write_result [OF assms]
  note view = reliable_device.file_changed_view [OF assms(1) m(1,3) w(2)]
  note res = reliable_device.resolve_result [OF assms(1)] and rd = reliable_device.read_result [OF assms(1)]
  obtain C where C: "file_at (blk ops sec (vol_device v)) (vol_superblock v) p = Inr C"
    "file_at (blk ops sec (vol_device v')) (vol_superblock v') p = Inr (overwritten (unat offset) input C)" using view(3) by blast
  show ?thesis
    using w(1) view(1,2,4) C by (auto simp: res [OF assms(2)] res [OF view(1)] rd [OF assms(2)] rd [OF view(1)])
qed

theorem nexfs_write_read_witness:
  "\<exists>v n v'. write_file memory_ops sample_path 2 [1, 2, 3] v = (Inr n, v') \<and> n = 3 \<and> mounted memory_ops memory_inv memory_sec v' \<and>
    fst (read_file memory_ops sample_path 0 (replicate 6 9) v') = Inr (5, [0, 0, 1, 2, 3, 9])"
proof -
  obtain v n k where s: "mounted memory_ops memory_inv memory_sec v"
    "path_lookup (blk memory_ops memory_sec (vol_device v)) (vol_superblock v) sample_path = Inr n"
    "node (blk memory_ops memory_sec (vol_device v)) (vol_superblock v) (unat n) = Some k" "ino_kind k = Regular" "ino_size k = 0"
    "1 \<le> card (free_blocks (blk memory_ops memory_sec (vol_device v)) (vol_superblock v))"
    "file_at (blk memory_ops memory_sec (vol_device v)) (vol_superblock v) sample_path = Inr []" using sample_file by blast
  have "file_blocks 1 = 1" by (simp add: file_blocks_def)
  then have "\<not> too_few (vol_superblock v) (blk memory_ops memory_sec (vol_device v)) k 1"
    using s(6) unfolding too_few_def by linarith
  then obtain v' where w: "write_file memory_ops sample_path 2 [1, 2, 3] v = (Inr 3, v')"
    using mem.write_succeeds [OF s(1-4), of 2 "[1, 2, 3]"] s(5) by (auto simp: blocks_for_def)
  from nexfs_write_read [OF mem.reliable_device_axioms s(1) _ w]
  obtain C where C: "mounted memory_ops memory_inv memory_sec v'"
    "\<forall>o' buf. fst (read_file memory_ops sample_path o' buf v) = Inr (read_of C (unat o') buf) \<and>
      fst (read_file memory_ops sample_path o' buf v') = Inr (read_of (overwritten 2 [1, 2, 3] C) (unat o') buf)" by auto
  have "fst (read_file memory_ops sample_path 0 [9] v) = Inr (read_of [] 0 [9])" using mem.read_result [OF s(1)] s(7) by simp
  then have "read_of C 0 [9] = read_of [] 0 [9]" using C(2) [rule_format, of 0 "[9]"] by simp
  then have "C = []" by (cases C) (simp_all add: read_of_def)
  then have "fst (read_file memory_ops sample_path 0 (replicate 6 9) v') = Inr (5, [0, 0, 1, 2, 3, 9])"
    using C(2) [rule_format, of 0 "replicate 6 9"]
    by (simp add: read_of_def overwritten_def pad_def put_slice_def slice_def Let_def numeral_eq_Suc)
  then show ?thesis using w C(1) by blast
qed

text \<open>C3. Creating a file or directory: on success the volume stays well-formed, the path, which named nothing
  before, names the new inode, it is empty and of the requested kind, and every path that named an inode
  still names it, with the same contents.\<close>

theorem nexfs_create_extends:
  assumes "reliable_device ops invar sec" "mounted ops invar sec v" "utf8_valid p"
    "vol_create ops p kind perms v = (Inr n, v')"
  shows "mounted ops invar sec v' \<and> fst (vol_resolve ops p v) = Inl F_NotFound \<and> fst (vol_resolve ops p v') = Inr n \<and>
    (\<forall>o' buf. fst (read_file ops p o' buf v') = (if kind = Regular then Inr (0, buf) else Inl F_IsDirectory)) \<and>
    (\<forall>q m. fst (vol_resolve ops q v) = Inr m \<longrightarrow> fst (vol_resolve ops q v') = Inr m) \<and>
    (\<forall>q o' buf r. fst (read_file ops q o' buf v) = Inr r \<longrightarrow> fst (read_file ops q o' buf v') = Inr r)"
proof -
  note m = reliable_device.mounted_at [OF assms(1,2)] and cr = reliable_device.create_result [OF assms]
  note view = reliable_device.created_view [OF assms(1) m(1,3) cr]
  note res = reliable_device.resolve_result [OF assms(1)] and rd = reliable_device.read_result [OF assms(1)]
  let ?B = "blk ops sec (vol_device v)" and ?B' = "blk ops sec (vol_device v')"
  have "file_at ?B' (vol_superblock v') p = (if kind = Regular then Inr [] else Inl F_IsDirectory)"
    using view(2,6,7) by (auto simp: file_at_def)
  then have "fst (read_file ops p o' buf v') = (if kind = Regular then Inr (0, buf) else Inl F_IsDirectory)" for o' buf
    by (simp add: rd [OF view(1)] read_of_def put_slice_def)
  moreover have "fst (read_file ops q o' buf v') = Inr r" if "fst (read_file ops q o' buf v) = Inr r" for q o' buf r
    using that view(5) [of q] by (auto simp: rd [OF view(1)] rd [OF assms(2)] split: sum.splits)
  ultimately show ?thesis
    using view(1-4) by (simp add: res [OF assms(2)] res [OF view(1)])
qed

theorem nexfs_create_extends_witness:
  "\<exists>v n v'. vol_create memory_ops sample_path Regular 0x1A4 v = (Inr n, v') \<and> fst (vol_resolve memory_ops sample_path v) = Inl F_NotFound \<and>
    fst (vol_resolve memory_ops sample_path v') = Inr n \<and> fst (read_file memory_ops sample_path 0 [7] v') = Inr (0, [7])"
proof -
  obtain sb d where s: "mounted memory_ops memory_inv memory_sec \<lparr>vol_device = d, vol_superblock = sb\<rparr>"
    "blank (blk memory_ops memory_sec d) sb" using sample_volume by blast
  define v where "v = \<lparr>vol_device = d, vol_superblock = sb\<rparr>"
  have m: "mounted memory_ops memory_inv memory_sec v" and b: "blank (blk memory_ops memory_sec (vol_device v)) (vol_superblock v)"
    using s by (simp_all add: v_def)
  obtain n v' where r: "vol_create memory_ops sample_path Regular 0x1A4 v = (Inr n, v')"
    using mem.create_blank [OF m b sample_path, of Regular "0x1A4"] by blast
  note x = nexfs_create_extends [OF mem.reliable_device_axioms m sample_path(2) r]
  have "fst (read_file memory_ops sample_path 0 [7] v') = Inr (0, [7])" using x by simp
  then show ?thesis using r x by blast
qed

text \<open>C14. A write that runs out of space leaks every free block of the volume and makes it unmountable for good.
  If the volume had a free block and a write fails with \<open>NoSpace\<close>, the unmount that follows succeeds and leaves
  a valid superblock marked clean, the geometry of which is unchanged. All inodes are the ones from before,
  and every file but the written one has its content. Every block that was free before the write is now marked
  in the bitmap although no inode owns it, and therefore mounting fails, however often it is tried.\<close>

theorem nexfs_no_space_unmountable:
  assumes "reliable_device ops invar sec" "mounted ops invar sec v" "length input < 2 ^ 64"
    "free_blocks (blk ops sec (vol_device v)) (vol_superblock v) \<noteq> {}"
    "write_file ops p offset input v = (Inl F_NoSpace, v')"
  shows "\<exists>n v''. let sb = vol_superblock v; B = blk ops sec (vol_device v); B' = blk ops sec (vol_device v'') in
    path_lookup B sb p = Inr n \<and> unmount ops v' = (Inr (closed sb), v'') \<and> sb_decode (B' 1) = Inr (closed sb) \<and>
    (\<forall>m. node B' sb m = node B sb m) \<and>
    (\<forall>m i. m \<noteq> unat n \<and> node B sb m = Some i \<longrightarrow> inode_contents B' i = inode_contents B i) \<and>
    (\<forall>b \<in> free_blocks B sb. used B' sb b \<and> (\<forall>m. b \<notin> owned_by B' sb m)) \<and>
    (\<forall>k. \<exists>e. fst (fs_mount ops (((\<lambda>d. snd (fs_mount ops d)) ^^ k) (vol_device v''))) = Inl e)"
  using reliable_device.no_space_leaks [OF assms] unfolding Let_def .

theorem nexfs_no_space_unmountable_witness:
  "\<exists>v v' v'' b e e'. mounted memory_ops memory_inv memory_sec v \<and>
    write_file memory_ops sample_path 0 (replicate 131072 1) v = (Inl F_NoSpace, v') \<and>
    unmount memory_ops v' = (Inr (closed (vol_superblock v)), v'') \<and>
    \<not> used (blk memory_ops memory_sec (vol_device v)) (vol_superblock v) b \<and>
    used (blk memory_ops memory_sec (vol_device v'')) (vol_superblock v) b \<and>
    (\<forall>m. b \<notin> owned_by (blk memory_ops memory_sec (vol_device v'')) (vol_superblock v) m) \<and>
    fst (fs_mount memory_ops (vol_device v'')) = Inl e \<and>
    fst (fs_mount memory_ops (snd (fs_mount memory_ops (vol_device v'')))) = Inl e'"
proof -
  define input where "input = (replicate 131072 1 :: bytes)"
  have li: "length input = 131072" by (simp add: input_def)
  obtain v n k where s: "mounted memory_ops memory_inv memory_sec v"
    "path_lookup (blk memory_ops memory_sec (vol_device v)) (vol_superblock v) sample_path = Inr n"
    "node (blk memory_ops memory_sec (vol_device v)) (vol_superblock v) (unat n) = Some k" "ino_kind k = Regular"
    "1 \<le> card (free_blocks (blk memory_ops memory_sec (vol_device v)) (vol_superblock v))" "total_of (vol_superblock v) = 32"
    using sample_file by blast
  then obtain b where b: "b \<in> free_blocks (blk memory_ops memory_sec (vol_device v)) (vol_superblock v)"
    by (cases "free_blocks (blk memory_ops memory_sec (vol_device v)) (vol_superblock v) = {}") auto
  then have free: "free_blocks (blk memory_ops memory_sec (vol_device v)) (vol_superblock v) \<noteq> {}" by auto
  obtain v' where w: "write_file memory_ops sample_path 0 input v = (Inl F_NoSpace, v')"
    using mem.write_too_large [OF s(1-4), of input] s(6) li by auto
  have "length input < 2 ^ 64" using li by simp
  from nexfs_no_space_unmountable [OF mem.reliable_device_axioms s(1) this free w]
  obtain v'' where u: "unmount memory_ops v' = (Inr (closed (vol_superblock v)), v'')"
    and leak: "\<forall>b \<in> free_blocks (blk memory_ops memory_sec (vol_device v)) (vol_superblock v).
      used (blk memory_ops memory_sec (vol_device v'')) (vol_superblock v) b \<and>
      (\<forall>m. b \<notin> owned_by (blk memory_ops memory_sec (vol_device v'')) (vol_superblock v) m)"
    and mounts: "\<forall>k. \<exists>e. fst (fs_mount memory_ops (((\<lambda>d. snd (fs_mount memory_ops d)) ^^ k) (vol_device v''))) = Inl e"
    unfolding Let_def by blast
  have "\<not> used (blk memory_ops memory_sec (vol_device v)) (vol_superblock v) b" using b by (simp add: free_blocks_def)
  moreover obtain e e' where "fst (fs_mount memory_ops (vol_device v'')) = Inl e"
    "fst (fs_mount memory_ops (snd (fs_mount memory_ops (vol_device v'')))) = Inl e'"
    using mounts [rule_format, of 0] mounts [rule_format, of 1] by auto
  ultimately show ?thesis using s(1) w u leak [rule_format, OF b] unfolding input_def by blast
qed

end
