(* ===== verification/Usb_Descriptors.thy ===== *)
theory Usb_Descriptors
  imports Bytes
begin

text \<open>
  \<open>crates/nexos-usb/src/lib.rs\<close>, \<open>descriptor.rs\<close>, \<open>hid.rs\<close> and \<open>hub.rs\<close>: the
  descriptors a device reports, the walk over a configuration, boot-protocol reports and hub
  descriptors. The walk is compared with the division of the configuration into self-delimiting
  blocks: it accepts exactly the configurations that have one, and counts its blocks.
\<close>

section \<open>Errors and speeds\<close>

datatype usb_error = BufferTooShort | InvalidDescriptor | InvalidPacket | InvalidSignature
  | InvalidTag | InvalidStatus | RingFull | Unsupported

datatype usb_speed = Low | Full | High | Super | SuperPlus | UnknownSpeed

definition from_xhci_port_speed :: "u8 \<Rightarrow> usb_speed" where
  "from_xhci_port_speed v =
    (if v = 1 then Full else if v = 2 then Low else if v = 3 then High else if v = 4 then Super
     else if v = 5 then SuperPlus else UnknownSpeed)"

section \<open>Descriptors\<close>

definition TYPE_DEVICE :: u8 where "TYPE_DEVICE = 1"
definition TYPE_CONFIGURATION :: u8 where "TYPE_CONFIGURATION = 2"
definition TYPE_INTERFACE :: u8 where "TYPE_INTERFACE = 4"
definition TYPE_ENDPOINT :: u8 where "TYPE_ENDPOINT = 5"

lemmas type_defs = TYPE_DEVICE_def TYPE_CONFIGURATION_def TYPE_INTERFACE_def TYPE_ENDPOINT_def

definition le16 :: "bytes \<Rightarrow> nat \<Rightarrow> usb_error + u16" where
  "le16 bs off =
    bind_res (ok_or BufferTooShort (get_range off (off + 2) bs)) (\<lambda>pair. Inr (of_le pair))"

record descriptor =
  descriptor_type :: u8
  descriptor_bytes :: bytes

record descriptor_iter =
  di_remaining :: bytes
  di_failed :: bool

definition descriptor_iter_new :: "bytes \<Rightarrow> descriptor_iter" where
  "descriptor_iter_new bs = \<lparr>di_remaining = bs, di_failed = False\<rparr>"

definition descriptor_next :: "descriptor_iter \<Rightarrow> descriptor option \<times> descriptor_iter" where
  "descriptor_next it =
    (let rest = di_remaining it in
     if rest = [] \<or> di_failed it then (None, it)
     else if length rest < 2 then (None, it\<lparr>di_failed := True\<rparr>)
     else
       let len = unat (rest ! 0) in
       if len < 2 \<or> length rest < len then (None, it\<lparr>di_failed := True\<rparr>)
       else
         let d = take len rest in
         (Some \<lparr>descriptor_type = d ! 1, descriptor_bytes = d\<rparr>, it\<lparr>di_remaining := drop len rest\<rparr>))"

record device_descriptor =
  dd_usb_version :: u16
  dd_device_class :: u8
  dd_device_subclass :: u8
  dd_device_protocol :: u8
  dd_endpoint_zero_max_packet :: u16
  dd_vendor_id :: u16
  dd_product_id :: u16
  dd_device_version :: u16
  dd_manufacturer_string :: u8
  dd_product_string :: u8
  dd_serial_string :: u8
  dd_configuration_count :: u8

text \<open>\<open>1_u16.checked_shl(n)\<close> is \<open>None\<close> from sixteen on.\<close>

definition device_descriptor_parse :: "bytes \<Rightarrow> usb_error + device_descriptor" where
  "device_descriptor_parse bs =
    (if length bs < 18 \<or> bs ! 0 \<noteq> 18 \<or> bs ! 1 \<noteq> TYPE_DEVICE then Inl InvalidDescriptor
     else
       bind_res (le16 bs 2) (\<lambda>usb_version.
       let raw_packet = bs ! 7 in
       bind_res
         (if 0x0300 \<le> usb_version
          then if unat raw_packet < 16 then Inr (push_bit (unat raw_packet) 1) else Inl InvalidDescriptor
          else Inr (ucast raw_packet)) (\<lambda>endpoint_zero_max_packet.
       if endpoint_zero_max_packet = 0 then Inl InvalidDescriptor
       else
         bind_res (le16 bs 8) (\<lambda>vendor_id.
         bind_res (le16 bs 10) (\<lambda>product_id.
         bind_res (le16 bs 12) (\<lambda>device_version.
         Inr \<lparr>dd_usb_version = usb_version, dd_device_class = bs ! 4, dd_device_subclass = bs ! 5,
              dd_device_protocol = bs ! 6, dd_endpoint_zero_max_packet = endpoint_zero_max_packet,
              dd_vendor_id = vendor_id, dd_product_id = product_id, dd_device_version = device_version,
              dd_manufacturer_string = bs ! 14, dd_product_string = bs ! 15, dd_serial_string = bs ! 16,
              dd_configuration_count = bs ! 17\<rparr>))))))"

record configuration_descriptor =
  cd_total_length :: u16
  cd_interface_count :: u8
  cd_configuration_value :: u8
  cd_attributes :: u8
  cd_max_power_milliamps :: u16

definition configuration_descriptor_parse :: "bytes \<Rightarrow> usb_error + configuration_descriptor" where
  "configuration_descriptor_parse bs =
    (if length bs < 9 \<or> bs ! 0 \<noteq> 9 \<or> bs ! 1 \<noteq> TYPE_CONFIGURATION then Inl InvalidDescriptor
     else
       bind_res (le16 bs 2) (\<lambda>total_length.
       if total_length < 9 then Inl InvalidDescriptor
       else Inr \<lparr>cd_total_length = total_length, cd_interface_count = bs ! 4,
         cd_configuration_value = bs ! 5, cd_attributes = bs ! 7,
         cd_max_power_milliamps = ucast (bs ! 8) * 2\<rparr>))"

record interface_descriptor =
  id_number :: u8
  id_alternate_setting :: u8
  id_endpoint_count :: u8
  id_class :: u8
  id_subclass :: u8
  id_protocol :: u8

definition interface_descriptor_parse :: "bytes \<Rightarrow> usb_error + interface_descriptor" where
  "interface_descriptor_parse bs =
    (if length bs < 9 \<or> bs ! 0 \<noteq> 9 \<or> bs ! 1 \<noteq> TYPE_INTERFACE then Inl InvalidDescriptor
     else Inr \<lparr>id_number = bs ! 2, id_alternate_setting = bs ! 3, id_endpoint_count = bs ! 4,
       id_class = bs ! 5, id_subclass = bs ! 6, id_protocol = bs ! 7\<rparr>)"

definition is_hid_boot_keyboard :: "interface_descriptor \<Rightarrow> bool" where
  "is_hid_boot_keyboard d \<longleftrightarrow> id_class d = 3 \<and> id_subclass d = 1 \<and> id_protocol d = 1"

definition is_hid_boot_mouse :: "interface_descriptor \<Rightarrow> bool" where
  "is_hid_boot_mouse d \<longleftrightarrow> id_class d = 3 \<and> id_subclass d = 1 \<and> id_protocol d = 2"

definition is_mass_storage_bot :: "interface_descriptor \<Rightarrow> bool" where
  "is_mass_storage_bot d \<longleftrightarrow> id_class d = 8 \<and> id_protocol d = 0x50"

definition is_hub :: "interface_descriptor \<Rightarrow> bool" where
  "is_hub d \<longleftrightarrow> id_class d = 9"

datatype direction = Out | In

datatype transfer_type = Control | Isochronous | Bulk | Interrupt

record endpoint_descriptor =
  ed_number :: u8
  ed_direction :: direction
  ed_transfer_type :: transfer_type
  ed_max_packet_size :: u16
  ed_interval :: u8

definition endpoint_descriptor_parse :: "bytes \<Rightarrow> usb_error + endpoint_descriptor" where
  "endpoint_descriptor_parse bs =
    (if length bs < 7 \<or> bs ! 0 \<noteq> 7 \<or> bs ! 1 \<noteq> TYPE_ENDPOINT then Inl InvalidDescriptor
     else
       let t = (let k = bs ! 3 AND 3 in
                if k = 0 then Control else if k = 1 then Isochronous else if k = 2 then Bulk else Interrupt)
       in bind_res (le16 bs 4) (\<lambda>packet.
         Inr \<lparr>ed_number = bs ! 2 AND 0x0F, ed_direction = (if bs ! 2 AND 0x80 = 0 then Out else In),
           ed_transfer_type = t, ed_max_packet_size = packet AND 0x07FF, ed_interval = bs ! 6\<rparr>))"

section \<open>The summary of a configuration\<close>

record configuration_summary =
  cs_descriptors :: u16
  cs_interfaces :: u8
  cs_endpoints :: u8
  cs_hid_keyboards :: u8
  cs_hid_mice :: u8
  cs_hubs :: u8
  cs_mass_storage :: u8

definition summary_default :: configuration_summary where
  "summary_default = \<lparr>cs_descriptors = 0, cs_interfaces = 0, cs_endpoints = 0, cs_hid_keyboards = 0,
    cs_hid_mice = 0, cs_hubs = 0, cs_mass_storage = 0\<rparr>"

text \<open>The body of the loop of \<open>summarize_configuration\<close>, for one descriptor.\<close>

definition summarize_step ::
  "descriptor \<Rightarrow> configuration_summary \<Rightarrow> usb_error + configuration_summary" where
  "summarize_step d s =
    (let s = s\<lparr>cs_descriptors := saturating_add (cs_descriptors s) 1\<rparr> in
     if descriptor_type d = TYPE_INTERFACE then
       bind_res (interface_descriptor_parse (descriptor_bytes d)) (\<lambda>i.
       Inr (s\<lparr>cs_interfaces := saturating_add (cs_interfaces s) 1,
         cs_hid_keyboards := saturating_add (cs_hid_keyboards s) (of_bool (is_hid_boot_keyboard i)),
         cs_hid_mice := saturating_add (cs_hid_mice s) (of_bool (is_hid_boot_mouse i)),
         cs_hubs := saturating_add (cs_hubs s) (of_bool (is_hub i)),
         cs_mass_storage := saturating_add (cs_mass_storage s) (of_bool (is_mass_storage_bot i))\<rparr>))
     else if descriptor_type d = TYPE_ENDPOINT then
       bind_res (endpoint_descriptor_parse (descriptor_bytes d)) (\<lambda>_.
       Inr (s\<lparr>cs_endpoints := saturating_add (cs_endpoints s) 1\<rparr>))
     else Inr s)"

lemma descriptor_next_shorter:
  "descriptor_next it = (Some d, it') \<Longrightarrow> length (di_remaining it') < length (di_remaining it)"
  by (auto simp: descriptor_next_def Let_def split: if_splits)

function summarize_loop ::
  "descriptor_iter \<Rightarrow> configuration_summary \<Rightarrow> usb_error + (configuration_summary \<times> descriptor_iter)" where
  "summarize_loop it s =
    (case descriptor_next it of
       (None, it') \<Rightarrow> Inr (s, it')
     | (Some d, it') \<Rightarrow> bind_res (summarize_step d s) (summarize_loop it'))"
  by auto
termination
  by (relation "measure (\<lambda>(it, s). length (di_remaining it))") (auto dest: descriptor_next_shorter [OF sym])

definition summarize_configuration :: "bytes \<Rightarrow> usb_error + configuration_summary" where
  "summarize_configuration bs =
    bind_res (configuration_descriptor_parse bs) (\<lambda>config.
    let total_length = unat (cd_total_length config) in
    if length bs < total_length then Inl BufferTooShort
    else
      bind_res (summarize_loop (descriptor_iter_new (take total_length bs)) summary_default) (\<lambda>(s, it).
      if di_failed it then Inl InvalidDescriptor else Inr s))"

declare summarize_loop.simps [simp del]

section \<open>Human interface devices\<close>

definition KEYBOARD_REPORT_BYTES :: nat where "KEYBOARD_REPORT_BYTES = 8"

record keyboard_report =
  kr_modifiers :: u8
  kr_keys :: bytes

definition keyboard_report_parse :: "bytes \<Rightarrow> usb_error + keyboard_report" where
  "keyboard_report_parse bs =
    (if length bs < KEYBOARD_REPORT_BYTES then Inl BufferTooShort
     else
       let keys = slice 2 6 bs in
       if list_ex (\<lambda>key. 1 \<le> key \<and> key \<le> 3) keys then Inl InvalidPacket
       else Inr \<lparr>kr_modifiers = bs ! 0, kr_keys = keys\<rparr>)"

definition key_pressed_since :: "keyboard_report \<Rightarrow> keyboard_report \<Rightarrow> u8 \<Rightarrow> bool" where
  "key_pressed_since r previous key \<longleftrightarrow>
    key \<noteq> 0 \<and> key \<in> set (kr_keys r) \<and> key \<notin> set (kr_keys previous)"

definition left_shift :: "keyboard_report \<Rightarrow> bool" where
  "left_shift r \<longleftrightarrow> kr_modifiers r AND push_bit 1 1 \<noteq> 0"

definition right_shift :: "keyboard_report \<Rightarrow> bool" where
  "right_shift r \<longleftrightarrow> kr_modifiers r AND push_bit 5 1 \<noteq> 0"

text \<open>The signed deltas keep the bits of their bytes: an \<open>i8\<close> is read with \<^const>\<open>sint\<close>.\<close>

record mouse_report =
  mr_buttons :: u8
  mr_delta_x :: "8 word"
  mr_delta_y :: "8 word"
  mr_wheel :: "8 word"

definition mouse_report_parse :: "bytes \<Rightarrow> usb_error + mouse_report" where
  "mouse_report_parse bs =
    (if length bs < 3 then Inl BufferTooShort
     else Inr \<lparr>mr_buttons = bs ! 0 AND 0x1F, mr_delta_x = bs ! 1, mr_delta_y = bs ! 2,
       mr_wheel = (if 3 < length bs then bs ! 3 else 0)\<rparr>)"

definition boot_key_ascii :: "u8 \<Rightarrow> bool \<Rightarrow> u8 option" where
  "boot_key_ascii usage shifted =
    (if 0x04 \<le> usage \<and> usage \<le> 0x1D then
       let letter = 0x61 + (usage - 0x04) in Some (if shifted then letter - 0x20 else letter)
     else if 0x1E \<le> usage \<and> usage \<le> 0x26 then
       let index = unat (usage - 0x1E) in
       Some (if shifted then [0x21, 0x40, 0x23, 0x24, 0x25, 0x5E, 0x26, 0x2A, 0x28] ! index
             else [0x31, 0x32, 0x33, 0x34, 0x35, 0x36, 0x37, 0x38, 0x39] ! index)
     else if usage = 0x27 then Some (if shifted then 0x29 else 0x30)
     else if usage = 0x28 then Some 0x0A
     else if usage = 0x2A then Some 8
     else if usage = 0x2B then Some 0x09
     else if usage = 0x2C then Some 0x20
     else if usage = 0x2D then Some (if shifted then 0x5F else 0x2D)
     else if usage = 0x2E then Some (if shifted then 0x2B else 0x3D)
     else if usage = 0x2F then Some (if shifted then 0x7B else 0x5B)
     else if usage = 0x30 then Some (if shifted then 0x7D else 0x5D)
     else if usage = 0x31 then Some (if shifted then 0x7C else 0x5C)
     else if usage = 0x33 then Some (if shifted then 0x3A else 0x3B)
     else if usage = 0x34 then Some (if shifted then 0x22 else 0x27)
     else if usage = 0x35 then Some (if shifted then 0x7E else 0x60)
     else if usage = 0x36 then Some (if shifted then 0x3C else 0x2C)
     else if usage = 0x37 then Some (if shifted then 0x3E else 0x2E)
     else if usage = 0x38 then Some (if shifted then 0x3F else 0x2F)
     else None)"

section \<open>Hubs\<close>

record hub_descriptor =
  hd_ports :: u8
  hd_characteristics :: u16
  hd_power_on_delay_ms :: u16
  hd_controller_current_ma :: u8

definition hub_descriptor_parse :: "bytes \<Rightarrow> usb_error + hub_descriptor" where
  "hub_descriptor_parse bs =
    (if length bs < 7 \<or> bs ! 0 < 7 \<or> bs ! 1 \<notin> {0x29, 0x2A} then Inl InvalidDescriptor
     else Inr \<lparr>hd_ports = bs ! 2, hd_characteristics = of_le [bs ! 3, bs ! 4],
       hd_power_on_delay_ms = ucast (bs ! 5) * 2, hd_controller_current_ma = bs ! 6\<rparr>)"

definition individually_powered :: "hub_descriptor \<Rightarrow> bool" where
  "individually_powered h \<longleftrightarrow> hd_characteristics h AND 3 = 1"

record hub_port_status =
  hp_connected :: bool
  hp_enabled :: bool
  hp_suspended :: bool
  hp_over_current :: bool
  hp_resetting :: bool
  hp_powered :: bool
  hp_low_speed :: bool
  hp_high_speed :: bool
  hp_connect_changed :: bool
  hp_enable_changed :: bool
  hp_reset_changed :: bool

definition hub_port_status_parse :: "bytes \<Rightarrow> usb_error + hub_port_status" where
  "hub_port_status_parse bs =
    (if length bs < 4 then Inl BufferTooShort
     else
       let status = of_le [bs ! 0, bs ! 1] :: u16; change = of_le [bs ! 2, bs ! 3] :: u16 in
       Inr \<lparr>hp_connected = status AND 1 \<noteq> 0, hp_enabled = status AND push_bit 1 1 \<noteq> 0,
         hp_suspended = status AND push_bit 2 1 \<noteq> 0, hp_over_current = status AND push_bit 3 1 \<noteq> 0,
         hp_resetting = status AND push_bit 4 1 \<noteq> 0, hp_powered = status AND push_bit 8 1 \<noteq> 0,
         hp_low_speed = status AND push_bit 9 1 \<noteq> 0, hp_high_speed = status AND push_bit 10 1 \<noteq> 0,
         hp_connect_changed = change AND 1 \<noteq> 0, hp_enable_changed = change AND push_bit 1 1 \<noteq> 0,
         hp_reset_changed = change AND push_bit 4 1 \<noteq> 0\<rparr>)"

record hub_port_iterator =
  hi_next :: u8
  hi_count :: u8

definition hub_ports_new :: "u8 \<Rightarrow> hub_port_iterator" where
  "hub_ports_new port_count = \<lparr>hi_next = 1, hi_count = port_count\<rparr>"

definition hub_ports_next :: "hub_port_iterator \<Rightarrow> u8 option \<times> hub_port_iterator" where
  "hub_ports_next it =
    (if hi_count it < hi_next it then (None, it)
     else (Some (hi_next it), it\<lparr>hi_next := saturating_add (hi_next it) 1\<rparr>))"

text \<open>\<open>collect\<close> on the iterator: it may not come to an end.\<close>

partial_function (option) hub_ports_collect :: "hub_port_iterator \<Rightarrow> u8 list option" where
  "hub_ports_collect it =
    (case hub_ports_next it of
       (None, _) \<Rightarrow> Some []
     | (Some port, it') \<Rightarrow> Option.bind (hub_ports_collect it') (\<lambda>ports. Some (port # ports)))"

section \<open>The walk and the division into blocks\<close>

text \<open>
  A configuration is a sequence of blocks that start with their own length; an interface or endpoint
  block must also be readable as such.
\<close>

definition is_block :: "bytes \<Rightarrow> bool" where
  "is_block d \<longleftrightarrow> 2 \<le> length d \<and> unat (d ! 0) = length d"

definition readable :: "bytes \<Rightarrow> bool" where
  "readable d \<longleftrightarrow> (d ! 1 = TYPE_INTERFACE \<longrightarrow> length d = 9) \<and> (d ! 1 = TYPE_ENDPOINT \<longrightarrow> length d = 7)"

definition interface_with :: "(interface_descriptor \<Rightarrow> bool) \<Rightarrow> bytes \<Rightarrow> bool" where
  "interface_with P d \<longleftrightarrow> (case interface_descriptor_parse d of Inl _ \<Rightarrow> False | Inr i \<Rightarrow> P i)"

definition saturated :: "nat \<Rightarrow> 'a::len word" where
  "saturated n = of_nat (min n (2 ^ LENGTH('a) - 1))"

definition tally :: "('b \<Rightarrow> bool) \<Rightarrow> 'b list \<Rightarrow> 'a::len word" where
  "tally P xs = saturated (length (filter P xs))"

definition summary_of :: "bytes list \<Rightarrow> configuration_summary" where
  "summary_of ds = \<lparr>cs_descriptors = saturated (length ds),
    cs_interfaces = tally (\<lambda>d. d ! 1 = TYPE_INTERFACE) ds,
    cs_endpoints = tally (\<lambda>d. d ! 1 = TYPE_ENDPOINT) ds,
    cs_hid_keyboards = tally (interface_with is_hid_boot_keyboard) ds,
    cs_hid_mice = tally (interface_with is_hid_boot_mouse) ds,
    cs_hubs = tally (interface_with is_hub) ds,
    cs_mass_storage = tally (interface_with is_mass_storage_bot) ds\<rparr>"

definition descriptor_of :: "bytes \<Rightarrow> descriptor" where
  "descriptor_of d = \<lparr>descriptor_type = d ! 1, descriptor_bytes = d\<rparr>"

lemma saturated_add: "saturating_add (saturated n) (of_bool b) = (saturated (n + of_bool b) :: 'a::len word)"
proof -
  have pos: "(0::nat) < 2 ^ LENGTH('a)" by simp
  have n: "unat (saturated m :: 'a word) = min m (2 ^ LENGTH('a) - 1)" for m
    unfolding saturated_def using pos by (intro unat_of_nat_fits) linarith
  have b: "unat (of_bool b :: 'a word) = of_bool b" by simp
  show ?thesis unfolding word_unat_eq_iff unat_saturating_add n b by auto
qed

lemma tally_snoc: "tally P (xs @ [x]) = saturating_add (tally P xs) (of_bool (P x))"
  by (simp add: tally_def saturated_add)

lemma readable_parses:
  assumes "is_block d"
  shows "d ! 1 = TYPE_INTERFACE \<Longrightarrow> (\<exists>i. interface_descriptor_parse d = Inr i) \<longleftrightarrow> readable d"
    "d ! 1 = TYPE_ENDPOINT \<Longrightarrow> (\<exists>e. endpoint_descriptor_parse d = Inr e) \<longleftrightarrow> readable d"
    "d ! 1 \<noteq> TYPE_INTERFACE \<Longrightarrow> \<not> interface_with P d"
proof -
  have eq: "d ! 0 = 9 \<longleftrightarrow> length d = 9" "d ! 0 = 7 \<longleftrightarrow> length d = 7"
    using assms by (auto simp: is_block_def word_unat_eq_iff)
  show "(\<exists>i. interface_descriptor_parse d = Inr i) \<longleftrightarrow> readable d" if "d ! 1 = TYPE_INTERFACE"
    using that eq by (auto simp: interface_descriptor_parse_def readable_def type_defs)
  show "(\<exists>e. endpoint_descriptor_parse d = Inr e) \<longleftrightarrow> readable d" if "d ! 1 = TYPE_ENDPOINT"
    using that eq
    by (auto simp: endpoint_descriptor_parse_def readable_def type_defs le16_def get_range_def Let_def)
  show "\<not> interface_with P d" if "d ! 1 \<noteq> TYPE_INTERFACE"
    using that by (simp add: interface_with_def interface_descriptor_parse_def)
qed

lemma summarize_step_block:
  assumes "is_block d"
  shows "summarize_step (descriptor_of d) (summary_of ds) =
    (if readable d then Inr (summary_of (ds @ [d])) else Inl InvalidDescriptor)"
proof -
  note r = readable_parses [OF assms]
  have n: "saturating_add (saturated n) 1 = (saturated (Suc n) :: 'a::len word)" for n
    using saturated_add [of n True, where 'a = 'a] by simp
  have z: "saturating_add x 0 = x" for x :: "'a::len word"
    using unat_bound [of x] by (simp add: saturating_add_def)
  show ?thesis
  proof (cases "d ! 1 = TYPE_INTERFACE")
    case True
    show ?thesis
    proof (cases "interface_descriptor_parse d")
      case (Inl e)
      then have "e = InvalidDescriptor" by (auto simp: interface_descriptor_parse_def split: if_splits)
      with Inl True r(1) show ?thesis by (auto simp: summarize_step_def descriptor_of_def)
    next
      case (Inr i)
      then show ?thesis using True r(1)
        by (auto simp: summarize_step_def descriptor_of_def summary_of_def tally_snoc n z
            interface_with_def type_defs)
    qed
  next
    case False
    then have i: "\<not> interface_with P d" for P using r(3) by blast
    show ?thesis
    proof (cases "d ! 1 = TYPE_ENDPOINT")
      case True
      show ?thesis
      proof (cases "endpoint_descriptor_parse d")
        case (Inl e)
        then have "e = InvalidDescriptor"
          by (auto simp: endpoint_descriptor_parse_def le16_def get_range_def Let_def split: if_splits)
        with Inl True False r(2) show ?thesis by (auto simp: summarize_step_def descriptor_of_def)
      next
        case (Inr e)
        then show ?thesis using True False r(2)
          by (auto simp: summarize_step_def descriptor_of_def summary_of_def tally_snoc n z i)
      qed
    next
      case other: False
      with False i show ?thesis
        by (simp add: summarize_step_def descriptor_of_def summary_of_def tally_snoc n z readable_def)
    qed
  qed
qed

lemma descriptor_next_block:
  assumes "is_block d"
  shows "descriptor_next \<lparr>di_remaining = d @ rest, di_failed = False\<rparr> =
    (Some (descriptor_of d), \<lparr>di_remaining = rest, di_failed = False\<rparr>)"
proof -
  have "(d @ rest) ! 0 = d ! 0" using assms by (cases d) (auto simp: is_block_def)
  with assms show ?thesis by (auto simp: descriptor_next_def descriptor_of_def is_block_def Let_def)
qed

lemma descriptor_next_cases:
  "descriptor_next \<lparr>di_remaining = bs, di_failed = False\<rparr> = (None, \<lparr>di_remaining = bs, di_failed = bs \<noteq> []\<rparr>)
    \<or> (\<exists>d rest. bs = d @ rest \<and> is_block d)"
proof -
  let ?n = "unat (bs ! 0)"
  have "bs = take ?n bs @ drop ?n bs \<and> is_block (take ?n bs)" if "2 \<le> ?n" "?n \<le> length bs"
    using that by (auto simp: is_block_def)
  then have "\<exists>d rest. bs = d @ rest \<and> is_block d" if "2 \<le> ?n \<and> ?n \<le> length bs" using that by blast
  moreover have "descriptor_next \<lparr>di_remaining = bs, di_failed = False\<rparr> = (None, \<lparr>di_remaining = bs, di_failed = bs \<noteq> []\<rparr>)"
    if "\<not> (2 \<le> ?n \<and> ?n \<le> length bs)" using that by (auto simp: descriptor_next_def Let_def)
  ultimately show ?thesis by blast
qed

lemma summarize_blocks:
  assumes "list_all is_block ds"
  shows "summarize_loop \<lparr>di_remaining = concat ds, di_failed = False\<rparr> (summary_of ps) =
    (if list_all readable ds then Inr (summary_of (ps @ ds), \<lparr>di_remaining = [], di_failed = False\<rparr>)
     else Inl InvalidDescriptor)"
  using assms
proof (induction ds arbitrary: ps)
  case Nil
  then show ?case by (simp add: summarize_loop.simps descriptor_next_def)
next
  case (Cons d ds)
  then show ?case
    using Cons.IH [of "ps @ [d]"]
    by (simp add: summarize_loop.simps [of "\<lparr>di_remaining = _ @ _, di_failed = _\<rparr>"]
        descriptor_next_block summarize_step_block)
qed

lemma summarize_loop_blocks:
  assumes "summarize_loop \<lparr>di_remaining = bs, di_failed = False\<rparr> s = Inr (t, it)" "\<not> di_failed it"
  shows "\<exists>ds. concat ds = bs \<and> list_all is_block ds"
  using assms
proof (induction bs arbitrary: s rule: length_induct)
  case IH: (1 bs)
  consider "descriptor_next \<lparr>di_remaining = bs, di_failed = False\<rparr> = (None, \<lparr>di_remaining = bs, di_failed = bs \<noteq> []\<rparr>)"
    | d rest where "bs = d @ rest" "is_block d" using descriptor_next_cases by blast
  then show ?case
  proof cases
    case 1
    with IH.prems have "bs = []" by (auto simp: summarize_loop.simps)
    then show ?thesis by (intro exI [of _ "[]"]) simp
  next
    case (2 d rest)
    then have shorter: "length rest < length bs" by (auto simp: is_block_def)
    obtain u where "summarize_loop \<lparr>di_remaining = rest, di_failed = False\<rparr> u = Inr (t, it)"
      using IH.prems(1) 2
      by (auto simp: summarize_loop.simps [of "\<lparr>di_remaining = _ @ _, di_failed = _\<rparr>"]
          descriptor_next_block bind_res_Inr_iff)
    then obtain ds where "concat ds = rest" "list_all is_block ds"
      using IH.IH shorter IH.prems(2) by blast
    with 2 show ?thesis by (intro exI [of _ "d # ds"]) simp
  qed
qed

lemma summary_of_Nil: "summary_of [] = summary_default"
  by (simp add: summary_of_def summary_default_def tally_def saturated_def)

text \<open>C19. A configuration is accepted exactly when the bytes it announces divide into blocks that
  start with their own length and whose interface and endpoint blocks have the sizes of those
  descriptors; the summary counts the blocks of that division, each count stopping at the largest
  value of its width.\<close>

theorem summarize_configuration_blocks:
  "summarize_configuration bs = Inr s \<longleftrightarrow>
    (\<exists>config ds. configuration_descriptor_parse bs = Inr config \<and>
       unat (cd_total_length config) \<le> length bs \<and>
       concat ds = take (unat (cd_total_length config)) bs \<and>
       list_all is_block ds \<and> list_all readable ds \<and> s = summary_of ds)"
proof (cases "configuration_descriptor_parse bs")
  case (Inr config)
  let ?bs = "take (unat (cd_total_length config)) bs"
  have blocks: "summarize_configuration bs = (if list_all readable ds then Inr (summary_of ds) else Inl InvalidDescriptor)"
    if "concat ds = ?bs" "list_all is_block ds" "unat (cd_total_length config) \<le> length bs" for ds
    using that summarize_blocks [of ds "[]"] Inr
    by (simp add: summarize_configuration_def descriptor_iter_new_def summary_of_Nil)
  show ?thesis
  proof
    assume ok: "summarize_configuration bs = Inr s"
    then have le: "unat (cd_total_length config) \<le> length bs"
      using Inr by (auto simp: summarize_configuration_def Let_def split: if_splits)
    obtain it where "summarize_loop \<lparr>di_remaining = ?bs, di_failed = False\<rparr> summary_default = Inr (s, it)" "\<not> di_failed it"
      using ok Inr le by (auto simp: summarize_configuration_def descriptor_iter_new_def bind_res_Inr_iff split: if_splits)
    then obtain ds where "concat ds = ?bs" "list_all is_block ds" using summarize_loop_blocks by blast
    with blocks [OF this le] ok Inr le show "\<exists>config ds. configuration_descriptor_parse bs = Inr config \<and>
       unat (cd_total_length config) \<le> length bs \<and>
       concat ds = take (unat (cd_total_length config)) bs \<and>
       list_all is_block ds \<and> list_all readable ds \<and> s = summary_of ds"
      by (auto split: if_splits)
  qed (use blocks Inr in auto)
qed (simp add: summarize_configuration_def)

section \<open>The ports of a hub\<close>

lemma hub_ports_from:
  assumes "count \<noteq> 255" "hi_count it = count" "n = Suc (unat count) - unat (hi_next it)"
  shows "hub_ports_collect it = Some (map of_nat [unat (hi_next it)..<unat (hi_next it) + n])"
  using assms(2,3)
proof (induction n arbitrary: it)
  case 0
  then show ?case by (simp add: hub_ports_collect.simps hub_ports_next_def word_less_nat_alt)
next
  case (Suc n)
  have c: "unat count < 255"
    using unat_bound [of count] assms(1) by (auto simp: word_unat_eq_iff)
  then have le: "unat (hi_next it) \<le> unat count" and fits: "unat (hi_next it) + 1 < 256"
    using Suc.prems by simp_all
  let ?it = "it\<lparr>hi_next := saturating_add (hi_next it) 1\<rparr>"
  have nx: "unat (hi_next ?it) = Suc (unat (hi_next it))" using fits by (simp add: unat_saturating_add)
  have rest: "hub_ports_collect ?it = Some (map of_nat [unat (hi_next ?it)..<unat (hi_next ?it) + n])"
    by (rule Suc.IH) (use Suc.prems nx in simp_all)
  have "[unat (hi_next it)..<unat (hi_next it) + Suc n] =
      unat (hi_next it) # [unat (hi_next ?it)..<unat (hi_next ?it) + n]"
    unfolding nx by (subst upt_conv_Cons) simp_all
  with rest le Suc.prems show ?case
    by (simp add: hub_ports_collect.simps [of it] hub_ports_next_def word_less_nat_alt del: upt_Suc)
qed

lemma hub_ports_stuck:
  assumes "hub_ports_collect it = Some ports"
  shows "hi_count it \<noteq> 255"
proof (rule hub_ports_collect.raw_induct [OF _ assms])
  fix f it ports
  assume IH: "\<And>it ports. f it = Some ports \<Longrightarrow> hi_count it \<noteq> 255"
    and body: "(case hub_ports_next it of (None, _) \<Rightarrow> Some []
      | (Some port, it') \<Rightarrow> Option.bind (f it') (\<lambda>ports. Some (port # ports))) = Some ports"
  have top: "hi_next it \<le> 255" using unat_bound [of "hi_next it"] by (simp add: word_le_nat_alt)
  show "hi_count it \<noteq> 255"
  proof
    assume c: "hi_count it = 255"
    with top have "hub_ports_next it = (Some (hi_next it), it\<lparr>hi_next := saturating_add (hi_next it) 1\<rparr>)"
      by (simp add: hub_ports_next_def not_less)
    with body obtain ps where "f (it\<lparr>hi_next := saturating_add (hi_next it) 1\<rparr>) = Some ps"
      by (auto split: bind_splits)
    from IH [OF this] c show False by simp
  qed
qed

text \<open>C40. The ports of a hub are enumerated from one to their count, each once, for every count below
  255; on a hub that announces 255 ports the saturating counter never passes the count and the
  iteration does not come to an end.\<close>

theorem hub_ports_enumerated:
  "hub_ports_collect (hub_ports_new count) =
    (if count = 255 then None else Some (map of_nat [1..<Suc (unat count)]))"
  using hub_ports_from [of count "hub_ports_new count"] hub_ports_stuck [of "hub_ports_new count"]
  by (cases "hub_ports_collect (hub_ports_new count)") (auto simp: hub_ports_new_def simp del: upt_Suc)

end
