(* ===== verification/Usb_Rings.thy ===== *)
theory Usb_Rings
  imports Usb_Descriptors
begin

text \<open>
  \<open>crates/nexos-usb/src/xhci.rs\<close> and \<open>enumeration.rs\<close>: transfer request blocks, the ring the
  driver fills for the controller, the consumer of the ring the controller fills for the driver, the
  port status register and the state machine that brings a device up. The producer is compared with a
  reader that follows the cycle bits and the address in the link entry, the consumer with the sequence of events
  written around the ring.
\<close>

section \<open>Transfer request blocks\<close>

record trb =
  parameter_low :: u32
  parameter_high :: u32
  status :: u32
  control :: u32

definition trb_default :: trb where
  "trb_default = \<lparr>parameter_low = 0, parameter_high = 0, status = 0, control = 0\<rparr>"

datatype trb_kind = Normal | SetupStage | DataStage | StatusStage | Link | EnableSlotCommand
  | DisableSlotCommand | AddressDeviceCommand | ConfigureEndpointCommand | EvaluateContextCommand
  | ResetEndpointCommand | StopEndpointCommand | SetTransferRingDequeuePointerCommand
  | ResetDeviceCommand | NoOpCommand | TransferEvent | CommandCompletionEvent | PortStatusChangeEvent

fun trb_code :: "trb_kind \<Rightarrow> u8" where
  "trb_code Normal = 1"
| "trb_code SetupStage = 2"
| "trb_code DataStage = 3"
| "trb_code StatusStage = 4"
| "trb_code Link = 6"
| "trb_code EnableSlotCommand = 9"
| "trb_code DisableSlotCommand = 10"
| "trb_code AddressDeviceCommand = 11"
| "trb_code ConfigureEndpointCommand = 12"
| "trb_code EvaluateContextCommand = 13"
| "trb_code ResetEndpointCommand = 14"
| "trb_code StopEndpointCommand = 15"
| "trb_code SetTransferRingDequeuePointerCommand = 16"
| "trb_code ResetDeviceCommand = 17"
| "trb_code NoOpCommand = 23"
| "trb_code TransferEvent = 32"
| "trb_code CommandCompletionEvent = 33"
| "trb_code PortStatusChangeEvent = 34"

definition trb_from_raw :: "u8 \<Rightarrow> trb_kind option" where
  "trb_from_raw raw =
    (if raw = 1 then Some Normal
     else if raw = 2 then Some SetupStage
     else if raw = 3 then Some DataStage
     else if raw = 4 then Some StatusStage
     else if raw = 6 then Some Link
     else if raw = 9 then Some EnableSlotCommand
     else if raw = 10 then Some DisableSlotCommand
     else if raw = 11 then Some AddressDeviceCommand
     else if raw = 12 then Some ConfigureEndpointCommand
     else if raw = 13 then Some EvaluateContextCommand
     else if raw = 14 then Some ResetEndpointCommand
     else if raw = 15 then Some StopEndpointCommand
     else if raw = 16 then Some SetTransferRingDequeuePointerCommand
     else if raw = 17 then Some ResetDeviceCommand
     else if raw = 23 then Some NoOpCommand
     else if raw = 32 then Some TransferEvent
     else if raw = 33 then Some CommandCompletionEvent
     else if raw = 34 then Some PortStatusChangeEvent
     else None)"

definition trb_command :: "trb_kind \<Rightarrow> trb" where
  "trb_command t = \<lparr>parameter_low = 0, parameter_high = 0, status = 0,
    control = push_bit 10 (ucast (trb_code t))\<rparr>"

definition with_parameter :: "u64 \<Rightarrow> trb \<Rightarrow> trb" where
  "with_parameter p t =
    (let bs = le_bytes 8 p in t\<lparr>parameter_low := of_le (slice 0 4 bs), parameter_high := of_le (slice 4 4 bs)\<rparr>)"

definition with_status :: "u32 \<Rightarrow> trb \<Rightarrow> trb" where
  "with_status s t = t\<lparr>status := s\<rparr>"

definition with_control_bits :: "u32 \<Rightarrow> trb \<Rightarrow> trb" where
  "with_control_bits bits t = t\<lparr>control := control t OR bits\<rparr>"

definition trb_type :: "trb \<Rightarrow> trb_kind option" where
  "trb_type t = trb_from_raw (ucast (drop_bit 10 (control t) AND 0x3F))"

definition parameter :: "trb \<Rightarrow> u64" where
  "parameter t = ucast (parameter_low t) OR push_bit 32 (ucast (parameter_high t))"

definition trb_cycle :: "trb \<Rightarrow> bool" where
  "trb_cycle t \<longleftrightarrow> control t AND 1 \<noteq> 0"

definition completion_code :: "trb \<Rightarrow> u8" where
  "completion_code t = ucast (drop_bit 24 (status t))"

definition slot_id :: "trb \<Rightarrow> u8" where
  "slot_id t = ucast (drop_bit 24 (control t))"

section \<open>The ring the driver fills\<close>

record ring_entry =
  re_index :: nat
  re_trb :: trb

record producer_ring =
  pr_entries :: "trb list"
  pr_enqueue :: nat
  pr_cycle :: bool

definition producer_new :: "nat \<Rightarrow> producer_ring" where
  "producer_new N = \<lparr>pr_entries = replicate N trb_default, pr_enqueue = 0, pr_cycle = True\<rparr>"

definition link_trb :: "bool \<Rightarrow> trb" where
  "link_trb c = with_control_bits (of_bool c OR push_bit 1 1) (trb_command Link)"

definition stamp :: "bool \<Rightarrow> trb \<Rightarrow> trb" where
  "stamp c t = t\<lparr>control := (control t AND NOT 1) OR of_bool c\<rparr>"

definition producer_push :: "trb \<Rightarrow> (producer_ring, usb_error, ring_entry) action" where
  "producer_push t r =
    (let N = length (pr_entries r) in
     if N < 2 then (Inl RingFull, r)
     else
       let r = (if pr_enqueue r = N - 1
                then r\<lparr>pr_entries := (pr_entries r)[pr_enqueue r := link_trb (pr_cycle r)],
                       pr_enqueue := 0, pr_cycle := \<not> pr_cycle r\<rparr>
                else r);
           t = stamp (pr_cycle r) t;
           index = pr_enqueue r
       in (Inr \<lparr>re_index = index, re_trb = t\<rparr>,
           r\<lparr>pr_entries := (pr_entries r)[index := t], pr_enqueue := index + 1\<rparr>))"

section \<open>The ring the controller fills\<close>

record event_consumer =
  ec_dequeue :: nat
  ec_cycle :: bool

definition event_consumer_new :: event_consumer where
  "event_consumer_new = \<lparr>ec_dequeue = 0, ec_cycle = True\<rparr>"

definition event_consume :: "trb list \<Rightarrow> event_consumer \<Rightarrow> ring_entry option \<times> event_consumer" where
  "event_consume entries c =
    (let N = length entries in
     if N = 0 then (None, c)
     else
       let t = entries ! ec_dequeue c in
       if trb_cycle t \<noteq> ec_cycle c then (None, c)
       else
         let index = ec_dequeue c;
             c = c\<lparr>ec_dequeue := ec_dequeue c + 1\<rparr>;
             c = (if ec_dequeue c = N then c\<lparr>ec_dequeue := 0, ec_cycle := \<not> ec_cycle c\<rparr> else c)
         in (Some \<lparr>re_index = index, re_trb = t\<rparr>, c))"

section \<open>Port status\<close>

record port_status =
  ps_connected :: bool
  ps_enabled :: bool
  ps_powered :: bool
  ps_resetting :: bool
  ps_link_state :: u8
  ps_speed_id :: u8
  ps_connection_changed :: bool

definition from_portsc :: "u32 \<Rightarrow> port_status" where
  "from_portsc v =
    \<lparr>ps_connected = v AND 1 \<noteq> 0, ps_enabled = v AND push_bit 1 1 \<noteq> 0,
     ps_powered = v AND push_bit 9 1 \<noteq> 0, ps_resetting = v AND push_bit 4 1 \<noteq> 0,
     ps_link_state = ucast (drop_bit 5 v AND 0x0F), ps_speed_id = ucast (drop_bit 10 v AND 0x0F),
     ps_connection_changed = v AND push_bit 17 1 \<noteq> 0\<rparr>"

section \<open>Enumeration\<close>

datatype enumeration_state = Detached | Debouncing | Resetting | ReadingDescriptor8 | Addressing
  | ReadingDeviceDescriptor | ReadingConfiguration | Configuring | Ready | FailedWith usb_error

datatype enumeration_action = WaitForStableConnection | ResetPort | ReadDescriptor8 | SetAddress
  | ReadDeviceDescriptor | ReadConfiguration | SetConfiguration | BindDrivers | NoAction

record enumerator =
  en_state :: enumeration_state
  en_speed :: usb_speed
  en_address :: u8

definition enumerator_new :: "usb_speed \<Rightarrow> enumerator" where
  "enumerator_new speed = \<lparr>en_state = Detached, en_speed = speed, en_address = 0\<rparr>"

definition enum_connected :: "enumerator \<Rightarrow> enumeration_action \<times> enumerator" where
  "enum_connected e = (WaitForStableConnection, e\<lparr>en_state := Debouncing\<rparr>)"

definition enum_stable :: "enumerator \<Rightarrow> enumeration_action \<times> enumerator" where
  "enum_stable e = (ResetPort, e\<lparr>en_state := Resetting\<rparr>)"

definition enum_reset_complete :: "enumerator \<Rightarrow> enumeration_action \<times> enumerator" where
  "enum_reset_complete e = (ReadDescriptor8, e\<lparr>en_state := ReadingDescriptor8\<rparr>)"

definition enum_descriptor8_complete :: "enumerator \<Rightarrow> enumeration_action \<times> enumerator" where
  "enum_descriptor8_complete e = (SetAddress, e\<lparr>en_state := Addressing\<rparr>)"

definition enum_fail :: "usb_error \<Rightarrow> enumerator \<Rightarrow> enumerator" where
  "enum_fail x e = e\<lparr>en_state := FailedWith x\<rparr>"

definition enum_address_complete :: "u8 \<Rightarrow> (enumerator, usb_error, enumeration_action) action" where
  "enum_address_complete address e =
    (if address = 0 \<or> 127 < address then (Inl InvalidPacket, enum_fail InvalidPacket e)
     else (Inr ReadDeviceDescriptor, e\<lparr>en_address := address, en_state := ReadingDeviceDescriptor\<rparr>))"

definition enum_device_descriptor_complete :: "enumerator \<Rightarrow> enumeration_action \<times> enumerator" where
  "enum_device_descriptor_complete e = (ReadConfiguration, e\<lparr>en_state := ReadingConfiguration\<rparr>)"

definition enum_configuration_read :: "enumerator \<Rightarrow> enumeration_action \<times> enumerator" where
  "enum_configuration_read e = (SetConfiguration, e\<lparr>en_state := Configuring\<rparr>)"

definition enum_configuration_set :: "enumerator \<Rightarrow> enumeration_action \<times> enumerator" where
  "enum_configuration_set e = (BindDrivers, e\<lparr>en_state := Ready\<rparr>)"

definition enum_disconnect :: "enumerator \<Rightarrow> enumerator" where
  "enum_disconnect e = e\<lparr>en_state := Detached, en_address := 0\<rparr>"

text \<open>
  Any caller: the calls in any order. The address is zero or one of the 127 addresses of the bus, and
  the last device address survives a failure until the device is disconnected.
\<close>

inductive enum_step :: "enumerator \<Rightarrow> enumerator \<Rightarrow> bool" where
  connected: "enum_step e (snd (enum_connected e))"
| stable: "enum_step e (snd (enum_stable e))"
| reset: "enum_step e (snd (enum_reset_complete e))"
| descriptor8: "enum_step e (snd (enum_descriptor8_complete e))"
| address: "enum_step e (snd (enum_address_complete a e))"
| device_descriptor: "enum_step e (snd (enum_device_descriptor_complete e))"
| configuration: "enum_step e (snd (enum_configuration_read e))"
| configured: "enum_step e (snd (enum_configuration_set e))"
| disconnected: "enum_step e (enum_disconnect e)"
| failed: "enum_step e (enum_fail x e)"

lemmas enum_defs = enum_connected_def enum_stable_def enum_reset_complete_def
  enum_descriptor8_complete_def enum_address_complete_def enum_device_descriptor_complete_def
  enum_configuration_read_def enum_configuration_set_def enum_disconnect_def enum_fail_def

lemma enum_address_range:
  assumes "enum_step\<^sup>*\<^sup>* (enumerator_new speed) e"
  shows "en_address e \<le> 127 \<and> en_speed e = speed"
  using assms
proof (induction rule: rtranclp_induct)
  case base
  then show ?case by (simp add: enumerator_new_def)
next
  case (step e e')
  from step.hyps(2) step.IH show ?case by cases (auto simp: enum_defs)
qed

section \<open>Fields of a block\<close>

lemma trb_from_raw_code [simp]: "trb_from_raw (trb_code t) = Some t"
  by (cases t) (simp_all add: trb_from_raw_def)

lemma trb_code_small: "trb_code t < 64"
  by (cases t) simp_all

lemma trb_cycle_stamp [simp]: "trb_cycle (stamp c t) \<longleftrightarrow> c"
proof -
  have "((control t AND NOT 1) OR of_bool c) AND 1 = of_bool c"
    by (rule bit_word_eqI) (auto simp: bit_simps)
  then show ?thesis by (simp add: trb_cycle_def stamp_def)
qed

lemma trb_type_stamp [simp]: "trb_type (stamp c t) = trb_type t"
proof -
  have "drop_bit 10 ((control t AND NOT 1) OR of_bool c) = drop_bit 10 (control t)"
    by (rule bit_word_eqI, simp only: bit_drop_bit_eq bit_or_iff bit_and_iff bit_not_iff o_def)
      (auto simp: bit_1_iff bit_of_bool_iff dest: bit_imp_le_length)
  then show ?thesis by (simp add: trb_type_def stamp_def)
qed

lemma trb_type_command [simp]: "trb_type (trb_command t) = Some t"
  by (cases t) (simp_all add: trb_type_def trb_command_def trb_from_raw_def)

lemma link_trb_simps [simp]:
  "trb_cycle (link_trb c) \<longleftrightarrow> c" "trb_type (link_trb c) = Some Link" "bit (control (link_trb c)) 1"
  by (cases c; simp add: link_trb_def with_control_bits_def trb_command_def trb_cycle_def trb_type_def
      trb_from_raw_def bit_simps)+

lemma trb_default_cycle [simp]: "\<not> trb_cycle trb_default"
  by (simp add: trb_default_def trb_cycle_def)

lemma with_parameter_parameter: "parameter (with_parameter p t) = p"
proof (rule bit_word_eqI)
  fix n assume n: "n < LENGTH(64)"
  have low: "bit (of_le (slice 0 4 (le_bytes 8 p)) :: u32) k \<longleftrightarrow> bit p k"
    and high: "bit (of_le (slice 4 4 (le_bytes 8 p)) :: u32) k \<longleftrightarrow> bit p (32 + k)" if "k < 32" for k
  proof -
    have k: "k div 8 < 4" using that by auto
    show "bit (of_le (slice 0 4 (le_bytes 8 p)) :: u32) k \<longleftrightarrow> bit p k"
      "bit (of_le (slice 4 4 (le_bytes 8 p)) :: u32) k \<longleftrightarrow> bit p (32 + k)"
      using that by (simp_all add: bit_of_le bit_nth_le_bytes k add.commute)
  qed
  show "bit (parameter (with_parameter p t)) n = bit p n"
  proof (cases "n < 32")
    case True
    then show ?thesis by (simp add: parameter_def with_parameter_def bit_simps low Let_def)
  next
    case False
    then show ?thesis using n high [of "n - 32"]
      by (auto simp: parameter_def with_parameter_def bit_simps Let_def dest: bit_imp_le_length)
  qed
qed

section \<open>The producer and a reader of its ring\<close>

text \<open>
  The reader of a ring as the controller specification describes it: memory maps addresses to blocks,
  the reader takes the block at its address when the cycle bit is the one it expects and goes on
  sixteen bytes further, and a link block sends it to the segment pointer in its parameter (bits 63 to
  4), with the other cycle bit when the toggle bit is set. The result is what it took and where it
  stands.
\<close>

fun ring_follow :: "nat \<Rightarrow> (u64 \<Rightarrow> trb) \<Rightarrow> u64 \<times> bool \<Rightarrow> trb list \<times> u64 \<times> bool" where
  "ring_follow 0 mem p = ([], p)"
| "ring_follow (Suc n) mem (a, c) =
    (let t = mem a in
     if trb_cycle t \<noteq> c then ([], a, c)
     else if trb_type t = Some Link
       then ring_follow n mem (parameter t AND NOT 0xF, if bit (control t) 1 then \<not> c else c)
     else apfst ((#) t) (ring_follow n mem (a + 16, c)))"

definition push_all :: "trb list \<Rightarrow> producer_ring \<Rightarrow> producer_ring" where
  "push_all ts r = fold (\<lambda>t r. snd (producer_push t r)) ts r"

definition ring_pos :: "nat \<Rightarrow> nat \<Rightarrow> nat \<times> bool" where
  "ring_pos m k = (if k = 0 then (0, True) else (Suc ((k - 1) mod m), even ((k - 1) div m)))"

text \<open>The ring of \<open>m + 1\<close> entries after the blocks \<open>ts\<close> have been pushed.\<close>

definition ring_holds :: "nat \<Rightarrow> trb list \<Rightarrow> producer_ring \<Rightarrow> bool" where
  "ring_holds m ts r \<longleftrightarrow>
    length (pr_entries r) = Suc m \<and> (pr_enqueue r, pr_cycle r) = ring_pos m (length ts) \<and>
    (\<forall>j < length ts. length ts \<le> j + m \<longrightarrow> pr_entries r ! (j mod m) = stamp (even (j div m)) (ts ! j)) \<and>
    (\<forall>j < m. length ts \<le> j \<longrightarrow> pr_entries r ! j = trb_default) \<and>
    pr_entries r ! m = (if length ts \<le> m then trb_default else link_trb (odd ((length ts - 1) div m)))"

lemma ring_pos_Suc: "ring_pos m (Suc k) = (Suc (k mod m), even (k div m))"
  by (simp add: ring_pos_def)

lemma ring_pos_inside: "0 < m \<Longrightarrow> k = 0 \<or> k mod m \<noteq> 0 \<Longrightarrow> ring_pos m k = (k mod m, even (k div m))"
  by (cases k) (auto simp: ring_pos_def mod_Suc div_Suc split: if_splits)

lemma ring_pos_last:
  "0 < m \<Longrightarrow> 0 < k \<Longrightarrow> k mod m = 0 \<Longrightarrow> ring_pos m k = (m, odd (k div m)) \<and> (k - 1) div m = k div m - 1 \<and> 0 < k div m"
  by (cases k) (auto simp: ring_pos_def mod_Suc div_Suc split: if_splits)

lemma lap_distinct: "j < k \<Longrightarrow> k < j + m \<Longrightarrow> j mod m \<noteq> k mod m" for j k m :: nat
proof
  assume "j < k" "k < j + m" and "j mod m = k mod m"
  then have "m dvd k - j" using mod_eq_dvd_iff_nat [of j k m] by simp
  with \<open>j < k\<close> \<open>k < j + m\<close> show False by (auto dest: dvd_imp_le)
qed

lemma ring_holds_new: "0 < m \<Longrightarrow> ring_holds m [] (producer_new (Suc m))"
  by (simp add: ring_holds_def producer_new_def ring_pos_def nth_append del: replicate_Suc)

lemma producer_push_inside:
  assumes "2 \<le> length (pr_entries r)" "pr_enqueue r \<noteq> length (pr_entries r) - 1"
  shows "snd (producer_push t r) = \<lparr>pr_entries = (pr_entries r)[pr_enqueue r := stamp (pr_cycle r) t],
    pr_enqueue = Suc (pr_enqueue r), pr_cycle = pr_cycle r\<rparr>"
  using assms by (cases r) (simp add: producer_push_def Let_def)

lemma producer_push_last:
  assumes "2 \<le> length (pr_entries r)" "pr_enqueue r = length (pr_entries r) - 1"
  shows "snd (producer_push t r) = \<lparr>pr_entries = (pr_entries r)
      [length (pr_entries r) - 1 := link_trb (pr_cycle r), 0 := stamp (\<not> pr_cycle r) t],
    pr_enqueue = 1, pr_cycle = \<not> pr_cycle r\<rparr>"
  using assms by (simp add: producer_push_def Let_def)

lemma ring_holds_push:
  assumes m: "0 < m" and r: "ring_holds m ts r"
  shows "ring_holds m (ts @ [t]) (snd (producer_push t r))"
proof -
  let ?k = "length ts" and ?r = "snd (producer_push t r)"
  have len: "length (pr_entries r) = Suc m" and pos: "(pr_enqueue r, pr_cycle r) = ring_pos m ?k"
    and old: "\<And>j. j < ?k \<Longrightarrow> ?k \<le> j + m \<Longrightarrow> pr_entries r ! (j mod m) = stamp (even (j div m)) (ts ! j)"
    and free: "\<And>j. j < m \<Longrightarrow> ?k \<le> j \<Longrightarrow> pr_entries r ! j = trb_default"
    and link: "pr_entries r ! m = (if ?k \<le> m then trb_default else link_trb (odd ((?k - 1) div m)))"
    using r by (auto simp: ring_holds_def)
  obtain es where es: "length es = Suc m" "\<And>j. j < m \<Longrightarrow> es ! j = pr_entries r ! j"
      "es ! m = (if Suc ?k \<le> m then trb_default else link_trb (odd (?k div m)))"
      "?r = \<lparr>pr_entries = es[?k mod m := stamp (even (?k div m)) t], pr_enqueue = Suc (?k mod m), pr_cycle = even (?k div m)\<rparr>"
  proof (cases "?k = 0 \<or> ?k mod m \<noteq> 0")
    case True
    then have p: "pr_enqueue r = ?k mod m" "pr_cycle r = even (?k div m)" using pos m by (simp_all add: ring_pos_inside)
    have "?k mod m < m" using m by simp
    with p len m have "?r = \<lparr>pr_entries = (pr_entries r)[?k mod m := stamp (even (?k div m)) t],
        pr_enqueue = Suc (?k mod m), pr_cycle = even (?k div m)\<rparr>"
      by (subst producer_push_inside) simp_all
    moreover have "(?k - 1) div m = ?k div m" if "m < ?k" using True that m by (cases ?k) (auto simp: mod_Suc div_Suc split: if_splits)
    moreover have "?k \<noteq> m" using True m by auto
    ultimately show thesis using that [of "pr_entries r"] len link by auto
  next
    case False
    then have p: "pr_enqueue r = m" "pr_cycle r = odd (?k div m)" and z: "?k mod m = 0" "m \<le> ?k"
      using pos m ring_pos_last [of m ?k] by (auto simp: mod_0_imp_dvd dvd_imp_le)
    with len m have "?r = \<lparr>pr_entries = (pr_entries r)[m := link_trb (odd (?k div m)), 0 := stamp (even (?k div m)) t],
        pr_enqueue = 1, pr_cycle = even (?k div m)\<rparr>"
      by (subst producer_push_last) simp_all
    with z show thesis using that [of "(pr_entries r)[m := link_trb (odd (?k div m))]"] len by simp
  qed
  have kmod: "?k mod m < m" using m by simp
  have "pr_entries ?r ! (j mod m) = stamp (even (j div m)) ((ts @ [t]) ! j)" if "j < Suc ?k" "Suc ?k \<le> j + m" for j
  proof (cases "j = ?k")
    case True
    then show ?thesis using es kmod by simp
  next
    case False
    then have "j mod m \<noteq> ?k mod m" "j mod m < m" using that lap_distinct [of j ?k m] m by auto
    then show ?thesis using es old [of j] that False by (simp add: nth_append)
  qed
  moreover have "pr_entries ?r ! j = trb_default" if "j < m" "Suc ?k \<le> j" for j
  proof -
    have "?k mod m \<noteq> j" using that by simp
    then show ?thesis using es free [of j] that by simp
  qed
  moreover have "pr_entries ?r ! m = (if Suc ?k \<le> m then trb_default else link_trb (odd (?k div m)))"
    using es kmod by simp
  ultimately show ?thesis using es by (simp add: ring_holds_def ring_pos_Suc)
qed

lemma ring_holds_push_all: "0 < m \<Longrightarrow> ring_holds m ts (push_all ts (producer_new (Suc m)))"
  by (induction ts rule: rev_induct) (simp_all add: push_all_def ring_holds_new ring_holds_push)

text \<open>The ring in memory at address \<open>base\<close>, and the place of the reader after \<open>k\<close> blocks.\<close>

definition ring_at :: "u64 \<Rightarrow> (u64 \<Rightarrow> trb) \<Rightarrow> trb list \<Rightarrow> bool" where
  "ring_at base mem es \<longleftrightarrow> (\<forall>j < length es. mem (base + 16 * of_nat j) = es ! j)"

definition reader_at :: "u64 \<Rightarrow> nat \<times> bool \<Rightarrow> u64 \<times> bool" where
  "reader_at base p = (base + 16 * of_nat (fst p), snd p)"

lemma follow_link: "mem a = link_trb c \<Longrightarrow> ring_follow (Suc n) mem (a, c) = ring_follow n mem (0, \<not> c)"
  using link_trb_simps(3) [of c]
  by (simp del: link_trb_simps(3))
     (simp add: link_trb_def with_control_bits_def trb_command_def parameter_def)

lemma follow_idle:
  assumes m: "0 < m" and r: "ring_holds m ts r" and mem: "ring_at base mem (pr_entries r)"
  shows "ring_follow n mem (reader_at base (ring_pos m (length ts))) = ([], reader_at base (ring_pos m (length ts)))"
proof -
  let ?k = "length ts"
  obtain i c where p: "ring_pos m ?k = (i, c)" by fastforce
  have i: "i \<le> m" using p m by (auto simp: ring_pos_def Suc_le_eq split: if_splits)
  have "trb_cycle (pr_entries r ! i) \<noteq> c"
  proof (cases "?k = 0 \<or> ?k mod m \<noteq> 0")
    case True
    then have ic: "i = ?k mod m" "c = even (?k div m)" using p m by (simp_all add: ring_pos_inside)
    show ?thesis
    proof (cases "?k < m")
      case True
      then show ?thesis using r ic by (simp add: ring_holds_def)
    next
      case False
      then have "(?k - m) mod m = ?k mod m" "?k div m = Suc ((?k - m) div m)"
        using m by (simp_all add: le_mod_geq le_div_geq)
      moreover have "?k - m < ?k" using m False by simp
      ultimately show ?thesis using r ic False by (auto simp: ring_holds_def)
    qed
  next
    case False
    then show ?thesis using r p m ring_pos_last [of m ?k] by (auto simp: ring_holds_def)
  qed
  then show ?thesis using p i r mem by (cases n) (simp_all add: Let_def ring_at_def reader_at_def ring_holds_def)
qed

text \<open>One block inside a turn, and the link at its end.\<close>

lemma follow_block:
  assumes m: "0 < m" and r: "ring_holds m ts r" and mem: "ring_at base mem (pr_entries r)"
    and i: "i < length ts" "length ts \<le> i + m" and t: "trb_type (ts ! i) \<noteq> Some Link"
  shows "ring_follow (Suc n) mem (reader_at base (i mod m, even (i div m))) =
    apfst ((#) (stamp (even (i div m)) (ts ! i))) (ring_follow n mem (reader_at base (ring_pos m (Suc i))))"
proof -
  have len: "length (pr_entries r) = Suc m" and e: "pr_entries r ! (i mod m) = stamp (even (i div m)) (ts ! i)"
    using r i by (simp_all add: ring_holds_def)
  have "i mod m < Suc m" using m by (rule less_SucI [OF mod_less_divisor])
  from mem [unfolded ring_at_def len, rule_format, OF this]
  have "mem (base + 16 * of_nat (i mod m)) = stamp (even (i div m)) (ts ! i)" using e by simp
  then show ?thesis using t by (simp add: reader_at_def ring_pos_Suc Let_def algebra_simps)
qed

lemma follow_turn:
  assumes m: "0 < m" and r: "ring_holds m ts r" and mem: "ring_at base mem (pr_entries r)"
    and i: "0 < i" "i mod m = 0" "i < length ts" "length ts \<le> i + m"
  shows "ring_follow (Suc n) mem (reader_at base (ring_pos m i)) = ring_follow n mem (0, even (i div m))"
proof -
  have p: "ring_pos m i = (m, odd (i div m))" "m \<le> i"
    using ring_pos_last [of m i] m i by (auto simp: mod_0_imp_dvd dvd_imp_le)
  obtain q where q: "i = m * q" using i(2) by auto
  have "(length ts - 1) div m = q" using i m unfolding q by (intro div_nat_eqI) auto
  then have "pr_entries r ! m = link_trb (odd (i div m))" using r i p(2) m q by (simp add: ring_holds_def)
  then have "mem (base + 16 * of_nat m) = link_trb (odd (i div m))" using mem r by (simp add: ring_at_def ring_holds_def)
  from follow_link [of mem, OF this] show ?thesis using p by (simp add: reader_at_def del: ring_follow.simps)
qed

text \<open>The number of the first block of the next turn, for a reader that has taken \<open>i\<close> blocks.\<close>

definition turn_end :: "nat \<Rightarrow> nat \<Rightarrow> nat" where
  "turn_end m i = m * Suc ((i - 1) div m)"

lemma turn_end_bound:
  assumes "0 < m"
  shows "i \<le> turn_end m i" "turn_end m i mod m = 0" "0 < turn_end m i" "i = 0 \<or> i mod m \<noteq> 0 \<or> turn_end m i = i"
    "i < turn_end m i \<Longrightarrow> turn_end m (Suc i) = turn_end m i"
proof -
  have "i - 1 < m * Suc ((i - 1) div m)" using dividend_less_times_div [OF assms, of "i - 1"] by simp
  then show "i \<le> turn_end m i" by (simp add: turn_end_def)
  show "turn_end m i mod m = 0" "0 < turn_end m i" using assms by (simp_all add: turn_end_def)
  show last: "i = 0 \<or> i mod m \<noteq> 0 \<or> turn_end m i = i"
  proof (cases i)
    case (Suc j)
    have "m + m * (j div m) = Suc j" if "Suc (j mod m) = m"
      using that mult_div_mod_eq [of m j] by linarith
    then show ?thesis using Suc assms by (auto simp: turn_end_def mod_Suc split: if_splits)
  qed simp
  show "turn_end m (Suc i) = turn_end m i" if "i < turn_end m i"
    using that last assms by (cases i) (auto simp: turn_end_def div_Suc mod_Suc split: if_splits)
qed

abbreviation pushed :: "nat \<Rightarrow> trb list \<Rightarrow> nat \<Rightarrow> nat \<Rightarrow> trb list" where
  "pushed m ts i k \<equiv> map (\<lambda>j. stamp (even (j div m)) (ts ! j)) [i..<k]"

lemma follow_pushed:
  assumes m: "0 < m" and r: "ring_holds m ts r" and mem: "ring_at base mem (pr_entries r)"
    and links: "\<forall>t \<in> set ts. trb_type t \<noteq> Some Link" and home: "length ts \<le> turn_end m i \<or> base = 0"
    and "i \<le> length ts" "length ts \<le> i + m" "2 * (length ts - i) < n"
  shows "ring_follow n mem (reader_at base (ring_pos m i)) =
    (pushed m ts i (length ts), reader_at base (ring_pos m (length ts)))"
  using assms(5-)
proof (induction "length ts - i" arbitrary: i n)
  case 0
  then show ?case using follow_idle [OF m r mem] by simp
next
  case (Suc d)
  let ?k = "length ts"
  have lt: "i < ?k" using Suc.hyps(2) by simp
  obtain f where f: "n = Suc (Suc f)" "2 * (?k - Suc i) < Suc f" "2 * (?k - Suc i) < f"
    using Suc.prems lt by (cases n; cases "n - 1") auto
  have home': "?k \<le> turn_end m (Suc i) \<or> base = 0"
    using Suc.prems(1) lt turn_end_bound(5) [OF m, of i] by auto
  have here: "ring_follow (Suc g) mem (reader_at base (i mod m, even (i div m))) =
      (pushed m ts i ?k, reader_at base (ring_pos m ?k))" if "2 * (?k - Suc i) < g" for g
    using follow_block [OF m r mem lt Suc.prems(3)] Suc.hyps(1) [of "Suc i" g] Suc.hyps(2) Suc.prems lt home' that links
    by (simp add: upt_conv_Cons del: ring_follow.simps)
  show ?case
  proof (cases "i = 0 \<or> i mod m \<noteq> 0")
    case True
    then show ?thesis using here f m by (simp add: ring_pos_inside del: ring_follow.simps)
  next
    case False
    then have "base = 0" using Suc.prems(1) lt turn_end_bound(4) [OF m, of i] by auto
    then have "ring_follow n mem (reader_at base (ring_pos m i)) = ring_follow (Suc f) mem (reader_at base (i mod m, even (i div m)))"
      using follow_turn [OF m r mem, of i "Suc f"] False lt Suc.prems(3) f(1) by (simp add: reader_at_def del: ring_follow.simps)
    then show ?thesis using here f by (simp del: ring_follow.simps)
  qed
qed

lemma follow_to_link:
  assumes m: "0 < m" and r: "ring_holds m ts r" and mem: "ring_at base mem (pr_entries r)"
    and links: "\<forall>t \<in> set ts. trb_type t \<noteq> Some Link"
    and q: "turn_end m i = q" "q < length ts" and "length ts \<le> i + m"
  shows "ring_follow (Suc (q - i)) mem (reader_at base (ring_pos m i)) = (pushed m ts i q, 0, even (q div m))"
  using q(1) assms(7)
proof (induction "q - i" arbitrary: i)
  case 0
  then have "i = q" using turn_end_bound(1) [OF m, of i] by simp
  then show ?case
    using follow_turn [OF m r mem, of q 0] turn_end_bound(2,3) [OF m, of i] 0 q(2) by simp
next
  case (Suc d)
  then have iq: "i < q" by simp
  then have "turn_end m (Suc i) = q" "i = 0 \<or> i mod m \<noteq> 0" using turn_end_bound(4,5) [OF m, of i] Suc.prems(1) by auto
  then have "ring_follow (Suc (q - Suc i)) mem (reader_at base (ring_pos m (Suc i))) = (pushed m ts (Suc i) q, 0, even (q div m))"
    "ring_pos m i = (i mod m, even (i div m))" using Suc m by (auto simp: ring_pos_inside)
  moreover have "i < length ts" using iq q(2) by simp
  moreover have "q - i = Suc (q - Suc i)" using iq by simp
  ultimately show ?case
    using follow_block [OF m r mem _ Suc.prems(2), of "q - i"] links iq by (simp add: upt_conv_Cons del: ring_follow.simps)
qed

lemma stamp_stamp [simp]: "stamp c (stamp d t) = stamp c t"
proof -
  have "((control t AND NOT 1) OR of_bool d) AND NOT 1 = control t AND NOT 1"
    by (rule bit_word_eqI) (auto simp: bit_simps)
  then show ?thesis by (simp add: stamp_def)
qed

lemma stamped_pushed: "k \<le> length ts \<Longrightarrow> map (stamp False) (pushed m ts i k) = map (stamp False) (take (k - i) (drop i ts))"
  by (intro nth_equalityI) simp_all

text \<open>C18. What a controller reads from the producer ring, which lies at some address with a link entry
  behind its m usable entries. Take a reader that stands where the producer stood after the first i
  pushes, with at most m blocks outstanding. As long as the producer has not gone around the ring
  since then, or if the ring lies at address zero, the reader takes exactly the blocks pushed since, in
  order, equal to them but for the cycle bit, and stops where the producer stands. Otherwise it takes
  the blocks up to the link entry, and the link, whose segment pointer \<open>push\<close> leaves zero, sends it to
  address zero instead of back to the first entry, where the blocks of the next turn are.\<close>

theorem producer_ring_followed:
  assumes "0 < m" and "i \<le> length ts" "length ts \<le> i + m"
    and "\<forall>t \<in> set ts. trb_type t \<noteq> Some Link" and "2 * (length ts - i) < n"
    and "before = push_all (take i ts) (producer_new (Suc m))" "after = push_all ts (producer_new (Suc m))"
    and mem: "ring_at base mem (pr_entries after)"
  shows "if length ts \<le> turn_end m i \<or> base = 0
    then map (stamp False) (fst (ring_follow n mem (reader_at base (pr_enqueue before, pr_cycle before)))) =
        map (stamp False) (drop i ts) \<and>
      snd (ring_follow n mem (reader_at base (pr_enqueue before, pr_cycle before))) =
        reader_at base (pr_enqueue after, pr_cycle after)
    else map (stamp False) (fst (ring_follow (Suc (turn_end m i - i)) mem (reader_at base (pr_enqueue before, pr_cycle before)))) =
        map (stamp False) (take (turn_end m i - i) (drop i ts)) \<and>
      snd (ring_follow (Suc (turn_end m i - i)) mem (reader_at base (pr_enqueue before, pr_cycle before))) =
        (0, \<not> pr_cycle before)"
proof -
  have r: "ring_holds m ts after" using ring_holds_push_all [OF \<open>0 < m\<close>] assms(7) by simp
  have "ring_holds m (take i ts) before" using ring_holds_push_all [OF \<open>0 < m\<close>] assms(6) by simp
  then have pos: "(pr_enqueue before, pr_cycle before) = ring_pos m i" using assms(2) by (simp add: ring_holds_def)
  have pos': "(pr_enqueue after, pr_cycle after) = ring_pos m (length ts)" using r by (simp add: ring_holds_def)
  have cyc: "pr_cycle before \<longleftrightarrow> even ((i - 1) div m)" using pos by (simp add: ring_pos_def split: if_splits)
  have turn: "turn_end m i div m = Suc ((i - 1) div m)" using assms(1) by (simp add: turn_end_def)
  show ?thesis
  proof (cases "length ts \<le> turn_end m i \<or> base = 0")
    case True
    then show ?thesis
      unfolding pos pos' using follow_pushed [OF assms(1) r mem assms(4) True assms(2,3,5)] stamped_pushed [of "length ts" ts m i]
      by simp
  next
    case False
    then show ?thesis
      unfolding pos using follow_to_link [OF assms(1) r mem assms(4) refl _ assms(3)] stamped_pushed [of "turn_end m i" ts m i] cyc turn
      by simp
  qed
qed

definition sample_blocks :: "trb list" where
  "sample_blocks = map (\<lambda>p. with_parameter p (trb_command Normal)) [7, 8, 9]"

text \<open>Three blocks on a ring of three entries at address \<open>0x1000\<close>: the second is read, the third is not.\<close>

theorem producer_ring_followed_witness:
  "\<exists>mem. ring_at 0x1000 mem (pr_entries (push_all sample_blocks (producer_new 3))) \<and>
    map (stamp False) (fst (ring_follow 2 mem (0x1010, True))) = map (stamp False) (take 1 (drop 1 sample_blocks)) \<and>
    snd (ring_follow 2 mem (0x1010, True)) = (0, False)"
proof -
  define es where "es = pr_entries (push_all sample_blocks (producer_new 3))"
  define mem where "mem = (\<lambda>a :: u64. es ! (unat (a - 0x1000) div 16))"
  have len: "length es = 3"
    using ring_holds_push_all [of 2 sample_blocks] by (simp add: es_def ring_holds_def numeral_3_eq_3 numeral_2_eq_2)
  have "j = 0 \<or> j = 1 \<or> j = 2" if "j < 3" for j :: nat using that by auto
  then have mem: "ring_at 0x1000 mem es" by (fastforce simp: ring_at_def mem_def len)
  have links: "\<forall>t \<in> set sample_blocks. trb_type t \<noteq> Some Link"
    by (simp add: sample_blocks_def with_parameter_def trb_type_def trb_command_def trb_from_raw_def Let_def)
  let ?b = "push_all (take 1 sample_blocks) (producer_new (Suc 2))"
  have "ring_holds 2 (take 1 sample_blocks) ?b" by (rule ring_holds_push_all) simp
  then have b: "pr_enqueue ?b = 1" "pr_cycle ?b" by (simp_all add: ring_holds_def ring_pos_def sample_blocks_def)
  have three: "Suc 2 = 3" "length sample_blocks = 3" "turn_end 2 1 = 2"
    by (simp_all add: sample_blocks_def turn_end_def)
  have start: "reader_at 0x1000 (pr_enqueue ?b, pr_cycle ?b) = (0x1010, True)" using b by (simp add: reader_at_def)
  have "ring_at 0x1000 mem (pr_entries (push_all sample_blocks (producer_new (Suc 2))))" using mem unfolding es_def three .
  note x = producer_ring_followed [of 2 1 sample_blocks 5 ?b _ "0x1000" mem, OF _ _ _ links _ refl refl this, unfolded start three(2,3)]
  have s: "\<not> ((3 :: nat) \<le> 2 \<or> (0x1000 :: u64) = 0)" "(2 :: nat) - 1 = 1" "Suc 1 = 2" by simp_all
  have "map (stamp False) (fst (ring_follow 2 mem (0x1010, True))) = map (stamp False) (take 1 (drop 1 sample_blocks)) \<and>
      snd (ring_follow 2 mem (0x1010, True)) = (0, False)"
    using x [unfolded if_not_P [OF s(1)] s(2,3)] b(2) by (simp del: ring_follow.simps)
  then show ?thesis using mem unfolding es_def by blast
qed

section \<open>The consumer and the events written around its ring\<close>

text \<open>
  What the controller leaves in a ring of \<open>N\<close> entries after the events \<open>evs\<close>: event \<open>j\<close> in
  entry \<open>j mod N\<close> until the next turn overwrites it, with a cycle bit that changes every turn, over
  a ring that was clear at the start.
\<close>

definition events_written :: "nat \<Rightarrow> trb list \<Rightarrow> trb list \<Rightarrow> bool" where
  "events_written N evs es \<longleftrightarrow> length es = N \<and>
    (\<forall>j < length evs. length evs \<le> j + N \<longrightarrow> es ! (j mod N) = evs ! j \<and> trb_cycle (evs ! j) = even (j div N)) \<and>
    (\<forall>j < N. length evs \<le> j \<longrightarrow> \<not> trb_cycle (es ! j))"

definition consumer_after :: "nat \<Rightarrow> nat \<Rightarrow> event_consumer" where
  "consumer_after N c = \<lparr>ec_dequeue = c mod N, ec_cycle = even (c div N)\<rparr>"

text \<open>The event consumer takes the events the controller wrote, each once and in order: having
  taken c of them, with at most one ring of events outstanding, it returns event c and stands behind
  it, and returns nothing and stays when there is none; a new consumer has taken none.\<close>

lemma event_consumer_fifo:
  assumes "0 < N" "events_written N evs es" "c \<le> length evs" "length evs \<le> c + N"
  shows "consumer_after N 0 = event_consumer_new \<and>
    event_consume es (consumer_after N c) =
      (if c < length evs then (Some \<lparr>re_index = c mod N, re_trb = evs ! c\<rparr>, consumer_after N (Suc c))
       else (None, consumer_after N c))"
proof -
  let ?k = "length evs"
  have len: "length es = N" using assms(2) by (simp add: events_written_def)
  have here: "es ! (c mod N) = evs ! c" "trb_cycle (evs ! c) = even (c div N)" if "c < ?k"
    using assms(2,4) that by (simp_all add: events_written_def)
  have none: "trb_cycle (es ! (c mod N)) \<noteq> even (c div N)" if "c = ?k"
  proof (cases "c < N")
    case True
    then show ?thesis using assms(2) that by (simp add: events_written_def)
  next
    case False
    then have "(c - N) mod N = c mod N" "c div N = Suc ((c - N) div N)" "c - N < c"
      using assms(1) by (simp_all add: le_mod_geq le_div_geq)
    then show ?thesis using assms(2) that False by (auto simp: events_written_def)
  qed
  have step: "consumer_after N (Suc c) =
      (if Suc (c mod N) = N then \<lparr>ec_dequeue = 0, ec_cycle = odd (c div N)\<rparr>
       else \<lparr>ec_dequeue = Suc (c mod N), ec_cycle = even (c div N)\<rparr>)"
    by (simp add: consumer_after_def mod_Suc div_Suc)
  show ?thesis
    using assms(1,3) len here none
    by (auto simp: event_consume_def consumer_after_def [of N c] step Let_def)
      (simp_all add: consumer_after_def event_consumer_new_def)
qed

end
