(* ===== verification/Usb_Storage.thy ===== *)
theory Usb_Storage
  imports Usb_Descriptors
begin

text \<open>
  \<open>crates/nexos-usb/src/mass_storage.rs\<close>: the SCSI commands of the bulk-only transport, the command
  wrapper that carries one to the device, the status wrapper that answers it and the capacity report.
  The encoded wrapper is the documented packet, from which a device reads back the request.
\<close>

section \<open>Commands\<close>

definition CBW_SIGNATURE :: u32 where "CBW_SIGNATURE = 0x43425355"
definition CSW_SIGNATURE :: u32 where "CSW_SIGNATURE = 0x53425355"
definition CBW_BYTES :: nat where "CBW_BYTES = 31"
definition CSW_BYTES :: nat where "CSW_BYTES = 13"

datatype data_direction = NoData | DataOut | DataIn

record scsi_command =
  sc_bytes :: bytes
  sc_length :: u8
  sc_transfer_bytes :: u32
  sc_direction :: data_direction

definition inquiry :: "u8 \<Rightarrow> scsi_command" where
  "inquiry allocation_length =
    \<lparr>sc_bytes = (replicate 16 0)[0 := 0x12, 4 := allocation_length], sc_length = 6,
     sc_transfer_bytes = ucast allocation_length, sc_direction = DataIn\<rparr>"

definition test_unit_ready :: scsi_command where
  "test_unit_ready =
    \<lparr>sc_bytes = (replicate 16 0)[0 := 0x00], sc_length = 6, sc_transfer_bytes = 0, sc_direction = NoData\<rparr>"

definition request_sense :: "u8 \<Rightarrow> scsi_command" where
  "request_sense allocation_length =
    \<lparr>sc_bytes = (replicate 16 0)[0 := 0x03, 4 := allocation_length], sc_length = 6,
     sc_transfer_bytes = ucast allocation_length, sc_direction = DataIn\<rparr>"

definition read_capacity_10 :: scsi_command where
  "read_capacity_10 =
    \<lparr>sc_bytes = (replicate 16 0)[0 := 0x25], sc_length = 10, sc_transfer_bytes = 8, sc_direction = DataIn\<rparr>"

definition read_write_10 :: "u8 \<Rightarrow> u32 \<Rightarrow> u16 \<Rightarrow> u32 \<Rightarrow> data_direction \<Rightarrow> scsi_command option" where
  "read_write_10 operation lba blocks block_size direction =
    (case checked_mul (ucast blocks) block_size of
       None \<Rightarrow> None
     | Some transfer_bytes \<Rightarrow>
         let bs = (replicate 16 0)[0 := operation];
             bs = put_slice 2 (be_bytes 4 lba) bs;
             bs = put_slice 7 (be_bytes 2 blocks) bs
         in Some \<lparr>sc_bytes = bs, sc_length = 10, sc_transfer_bytes = transfer_bytes, sc_direction = direction\<rparr>)"

definition read_10 :: "u32 \<Rightarrow> u16 \<Rightarrow> u32 \<Rightarrow> scsi_command option" where
  "read_10 lba blocks block_size = read_write_10 0x28 lba blocks block_size DataIn"

definition write_10 :: "u32 \<Rightarrow> u16 \<Rightarrow> u32 \<Rightarrow> scsi_command option" where
  "write_10 lba blocks block_size = read_write_10 0x2A lba blocks block_size DataOut"

definition synchronize_cache_10 :: scsi_command where
  "synchronize_cache_10 =
    \<lparr>sc_bytes = (replicate 16 0)[0 := 0x35], sc_length = 10, sc_transfer_bytes = 0, sc_direction = NoData\<rparr>"

section \<open>The command wrapper\<close>

record command_block_wrapper =
  cbw_tag :: u32
  cbw_transfer_bytes :: u32
  cbw_direction :: data_direction
  cbw_logical_unit :: u8
  cbw_command :: scsi_command

definition cbw_encode :: "command_block_wrapper \<Rightarrow> (bytes, usb_error, unit) action" where
  "cbw_encode w out =
    (if length out < CBW_BYTES \<or> 15 < cbw_logical_unit w then (Inl BufferTooShort, out)
     else
       let out = put_slice 0 (replicate CBW_BYTES 0) out;
           out = put_slice 0 (le_bytes 4 CBW_SIGNATURE) out;
           out = put_slice 4 (le_bytes 4 (cbw_tag w)) out;
           out = put_slice 8 (le_bytes 4 (cbw_transfer_bytes w)) out;
           out = out[12 := (case cbw_direction w of DataIn \<Rightarrow> 0x80 | NoData \<Rightarrow> 0 | DataOut \<Rightarrow> 0)];
           out = out[13 := cbw_logical_unit w];
           out = out[14 := sc_length (cbw_command w)];
           len = unat (sc_length (cbw_command w));
           out = put_slice 15 (take len (sc_bytes (cbw_command w))) out
       in (Inr (), out))"

definition cbw_from_scsi :: "u32 \<Rightarrow> u8 \<Rightarrow> scsi_command \<Rightarrow> command_block_wrapper" where
  "cbw_from_scsi tag logical_unit command =
    \<lparr>cbw_tag = tag, cbw_transfer_bytes = sc_transfer_bytes command, cbw_direction = sc_direction command,
     cbw_logical_unit = logical_unit, cbw_command = command\<rparr>"

section \<open>The status wrapper and the capacity\<close>

datatype command_status = Passed | Failed | PhaseError

record command_status_wrapper =
  csw_tag :: u32
  csw_residue :: u32
  csw_status :: command_status

definition csw_parse :: "bytes \<Rightarrow> u32 \<Rightarrow> usb_error + command_status_wrapper" where
  "csw_parse bs expected_tag =
    (if length bs < CSW_BYTES then Inl BufferTooShort
     else if of_le [bs ! 0, bs ! 1, bs ! 2, bs ! 3] \<noteq> CSW_SIGNATURE then Inl InvalidSignature
     else
       let tag = of_le [bs ! 4, bs ! 5, bs ! 6, bs ! 7] in
       if tag \<noteq> expected_tag then Inl InvalidTag
       else
         bind_res
           (if bs ! 12 = 0 then Inr Passed else if bs ! 12 = 1 then Inr Failed
            else if bs ! 12 = 2 then Inr PhaseError else Inl InvalidStatus) (\<lambda>status.
         Inr \<lparr>csw_tag = tag, csw_residue = of_le [bs ! 8, bs ! 9, bs ! 10, bs ! 11], csw_status = status\<rparr>))"

record capacity10 =
  cap_last_lba :: u32
  cap_block_size :: u32

definition capacity10_parse :: "bytes \<Rightarrow> usb_error + capacity10" where
  "capacity10_parse bs =
    (if length bs < 8 then Inl BufferTooShort
     else
       let last_lba = of_be [bs ! 0, bs ! 1, bs ! 2, bs ! 3];
           block_size = of_be [bs ! 4, bs ! 5, bs ! 6, bs ! 7]
       in if block_size = 0 then Inl InvalidPacket
          else Inr \<lparr>cap_last_lba = last_lba, cap_block_size = block_size\<rparr>)"

definition block_count :: "capacity10 \<Rightarrow> u64" where
  "block_count c = ucast (cap_last_lba c) + 1"

section \<open>Commands fit their wrapper\<close>

text \<open>The fields of a command are private: every command is one of the constructors'.\<close>

definition command_ok :: "scsi_command \<Rightarrow> bool" where
  "command_ok c \<longleftrightarrow> length (sc_bytes c) = 16 \<and> sc_length c \<in> {6, 10}"

lemma read_write_10_ok: "read_write_10 op lba blocks bsize dir = Some c \<Longrightarrow> command_ok c"
  by (auto simp: read_write_10_def command_ok_def Let_def split: option.splits)

lemma commands_ok:
  "command_ok (inquiry n)" "command_ok test_unit_ready" "command_ok (request_sense n)"
  "command_ok read_capacity_10" "command_ok synchronize_cache_10"
  by (simp_all add: command_ok_def inquiry_def test_unit_ready_def request_sense_def read_capacity_10_def
      synchronize_cache_10_def)

lemma transfers_ok:
  "read_10 lba blocks bsize = Some c \<Longrightarrow> command_ok c" "write_10 lba blocks bsize = Some c \<Longrightarrow> command_ok c"
  unfolding read_10_def write_10_def by (rule read_write_10_ok, assumption)+

lemma block_count_exact: "unat (block_count c) = unat (cap_last_lba c) + 1"
proof -
  have "unat (ucast (cap_last_lba c) :: u64) = unat (cap_last_lba c)" by (rule unat_ucast_up) simp
  moreover have "unat (cap_last_lba c) < 2 ^ 32" using unat_bound [of "cap_last_lba c"] by simp
  ultimately show ?thesis unfolding block_count_def by (subst unat_add_fits) simp_all
qed

section \<open>The packet\<close>

definition direction_flag :: "data_direction \<Rightarrow> u8" where
  "direction_flag d = (case d of DataIn \<Rightarrow> 0x80 | NoData \<Rightarrow> 0 | DataOut \<Rightarrow> 0)"

lemma cbw_packet:
  assumes "command_ok (cbw_command w)" "CBW_BYTES \<le> length out" "cbw_logical_unit w \<le> 15"
  shows "cbw_encode w out = (Inr (), le_bytes 4 CBW_SIGNATURE @ le_bytes 4 (cbw_tag w) @
    le_bytes 4 (cbw_transfer_bytes w) @
    [direction_flag (cbw_direction w), cbw_logical_unit w, sc_length (cbw_command w)] @
    take (unat (sc_length (cbw_command w))) (sc_bytes (cbw_command w)) @
    replicate (16 - unat (sc_length (cbw_command w))) 0 @ drop 31 out)"
proof -
  let ?c = "cbw_command w"
  have len: "length (sc_bytes ?c) = 16" "unat (sc_length ?c) = 6 \<or> unat (sc_length ?c) = 10"
    using assms(1) by (auto simp: command_ok_def)
  then have t: "length (take (unat (sc_length ?c)) (sc_bytes ?c)) = unat (sc_length ?c)" by auto
  have split: "replicate 31 0 = replicate 4 0 @ replicate 4 0 @ replicate 4 0 @ [0, 0, 0] @ replicate 16 (0 :: u8)"
    by (simp add: numeral_eq_Suc)
  show ?thesis
    using assms(2,3) t len
    by (simp add: cbw_encode_def CBW_BYTES_def Let_def direction_flag_def put_first put_skip put_zeros split
        list_update_append not_less del: take_replicate)
      (auto simp: put_slice_def)
qed

text \<open>C39. A block read or write of any length that fits 32 bits is carried faithfully to the device:
  the encoded packet has the signature, the tag, the transfer length blocks times block size, the
  direction flag, the unit, the operation, the block address and the block count at their documented
  offsets and byte orders, and the rest of the buffer is untouched.\<close>

theorem cbw_request_read_back:
  assumes "read_write_10 op lba blocks bsize dir = Some c" "CBW_BYTES \<le> length out" "lun \<le> 15"
  shows "\<exists>p. cbw_encode (cbw_from_scsi tag lun c) out = (Inr (), p) \<and>
    length p = length out \<and> drop 31 p = drop 31 out \<and>
    of_le (slice 0 4 p) = CBW_SIGNATURE \<and> of_le (slice 4 4 p) = tag \<and>
    unat (of_le (slice 8 4 p) :: u32) = unat blocks * unat bsize \<and>
    (p ! 12 = 0x80 \<longleftrightarrow> dir = DataIn) \<and> p ! 13 = lun \<and> p ! 14 = 10 \<and> p ! 15 = op \<and>
    of_be (slice 17 4 p) = lba \<and> of_be (slice 22 2 p) = blocks"
proof -
  obtain n where n: "checked_mul (ucast blocks) bsize = Some n"
      and c: "sc_bytes c = op # 0 # be_bytes 4 lba @ 0 # be_bytes 2 blocks @ replicate 7 0"
        "sc_length c = 10" "sc_transfer_bytes c = n" "sc_direction c = dir"
    using assms(1)
    by (auto simp: read_write_10_def Let_def put_slice_def numeral_eq_Suc split: option.splits)
  have "unat (ucast blocks :: u32) = unat blocks" by (rule unat_ucast_up) simp
  then have n': "unat n = unat blocks * unat bsize" using checked_mul_SomeD [OF n] by simp
  have enc: "cbw_encode (cbw_from_scsi tag lun c) out = (Inr (), le_bytes 4 CBW_SIGNATURE @ le_bytes 4 tag @
      le_bytes 4 n @ [direction_flag dir, lun, 10, op, 0] @ be_bytes 4 lba @ [0] @ be_bytes 2 blocks @ [0] @
      replicate 6 0 @ drop 31 out)"
    using cbw_packet [of "cbw_from_scsi tag lun c" out] read_write_10_ok [OF assms(1)] assms(2,3) c
    by (simp add: cbw_from_scsi_def)
  have "direction_flag dir = 0x80 \<longleftrightarrow> dir = DataIn" by (cases dir) (simp_all add: direction_flag_def)
  then show ?thesis
    unfolding enc using n' assms(2)
    by (simp add: CBW_BYTES_def slice_prefix slice_skip nth_append slice_def)
qed

theorem cbw_request_read_back_witness:
  "\<exists>c p. read_10 0x10203040 8 512 = Some c \<and>
    cbw_encode (cbw_from_scsi 0x11223344 0 c) (replicate 31 0xCC) = (Inr (), p) \<and>
    of_be (slice 17 4 p) = (0x10203040 :: u32)"
proof -
  obtain c where c: "read_write_10 0x28 0x10203040 8 512 DataIn = Some c"
    by (simp add: read_write_10_def checked_mul_def Let_def)
  show ?thesis
    using cbw_request_read_back [OF c, where out = "replicate 31 0xCC" and lun = 0 and tag = "0x11223344"] c
    by (auto simp: CBW_BYTES_def read_10_def)
qed

section \<open>Answers\<close>

text \<open>A well-formed status packet is accepted with its fields, for the tag it carries and no other.\<close>

lemma csw_accepted:
  assumes "bs = le_bytes 4 CSW_SIGNATURE @ le_bytes 4 tag @ le_bytes 4 residue @ st # rest"
  shows "csw_parse bs expected =
    (if tag \<noteq> expected then Inl InvalidTag
     else if st = 0 then Inr \<lparr>csw_tag = tag, csw_residue = residue, csw_status = Passed\<rparr>
     else if st = 1 then Inr \<lparr>csw_tag = tag, csw_residue = residue, csw_status = Failed\<rparr>
     else if st = 2 then Inr \<lparr>csw_tag = tag, csw_residue = residue, csw_status = PhaseError\<rparr>
     else Inl InvalidStatus)"
proof -
  have four: "[xs ! 0, xs ! 1, xs ! 2, xs ! 3] = xs" if "length xs = 4" for xs :: bytes
    using that by (auto simp: length_Suc_conv numeral_eq_Suc)
  have f: "[bs ! 0, bs ! 1, bs ! 2, bs ! 3] = le_bytes 4 CSW_SIGNATURE"
    "[bs ! 4, bs ! 5, bs ! 6, bs ! 7] = le_bytes 4 tag"
    "[bs ! 8, bs ! 9, bs ! 10, bs ! 11] = le_bytes 4 residue" "bs ! 12 = st"
    using four [of "le_bytes 4 CSW_SIGNATURE"] four [of "le_bytes 4 tag"] four [of "le_bytes 4 residue"]
    unfolding assms by (simp_all add: nth_append)
  have "\<not> length bs < CSW_BYTES" unfolding assms by (simp add: CSW_BYTES_def)
  then show ?thesis unfolding csw_parse_def f of_le_roundtrips by (simp add: Let_def)
qed

end
