(* ===== verification/Spec2Isabelle.thy ===== *)
theory Spec2Isabelle
  imports Abi Scheduler_Progress Wait_Queue Runtime Partition_Device Cache Installer_Readback Vfs Elf Heap Ps2 Nexfs_Service Usb_Rings Usb_Storage
begin

text \<open>
  A verification library for NexOS, an x86-64 operating system in Rust. The sources are under
  \<open>src/\<close>; the paths below are relative to it.

  \<^bold>\<open>The program.\<close> The kernel (\<open>kernel/src\<close>) hands physical frames and heap memory out, schedules
  tasks, keeps a table of processes with their handles, and takes system calls whose numbers and
  encodings \<open>crates/nexos-abi\<close> fixes. Drivers expose disks through the trait \<open>BlockDevice\<close> of
  \<open>crates/nexos-storage\<close>; on top of it are the write-back cache, partitions, the partition-table reader,
  the guided installer and the file system NexFS (\<open>crates/nexfs\<close>). \<open>crates/nexos-runtime\<close> has the parts
  of the kernel that need no hardware: scheduler, process table, virtual file system, ELF loader.
  \<open>crates/nexos-usb\<close> has the formats and the state of the USB stack that need no controller.

  \<^bold>\<open>How the code is modelled.\<close> Machine integers are words of their width, with the wrap-around of a
  release build where the code uses plain operators and explicit \<open>checked_*\<close> and \<open>saturating_*\<close>
  operations elsewhere; \<open>usize\<close> is 64 bits wide on the only target, so indices are natural numbers.
  A struct is a record whose fields carry a prefix, an enum a datatype, \<open>[Option<T>; N]\<close> a list of
  options, a byte buffer a list of bytes. \<open>Result\<close> is a sum with the error on the left; a method with
  \<open>&mut self\<close> is a function that returns the new state, also when it fails, so a partial effect of a
  failed operation is visible. Code that is generic in a device takes the methods of the device as a
  record of functions.

  \<^bold>\<open>Theories.\<close>

  \<^item> \<open>Prelude\<close>, \<open>Bytes\<close>, \<open>Action_Logic\<close>: checked arithmetic, array slots, the \<open>?\<close> operator with and
    without state, loops that may fail, byte ranges and little-endian fields, and a program logic for
    stateful operations.
  \<^item> \<open>Abi\<close> (\<open>crates/nexos-abi/src/lib.rs\<close>, \<open>crates/nexos-runtime/src/syscall.rs\<close>,
    \<open>crates/nexos-userspace/src/runtime.rs\<close>, the dispatcher of \<open>kernel/src/syscall.rs\<close>): numbers and
    errors of the system calls, the error encoding in a return value, and the dispatch of both sides.
  \<^item> \<open>Scheduler\<close>, \<open>Scheduler_Progress\<close> (\<open>crates/nexos-runtime/src/scheduler.rs\<close>): the scheduler with
    its invariant, bounded waiting of the round robin, quantum and sleep. \<open>Fifo\<close> is the contract of a
    bounded queue, which \<open>Wait_Queue\<close> (same source) and \<open>Ps2\<close> implement.
  \<^item> \<open>Process\<close> (\<open>crates/nexos-runtime/src/process.rs\<close>) and \<open>Runtime\<close> (\<open>kernel/src/runtime.rs\<close>):
    processes, handles, exit and reaping; the kernel's composition of both tables.
  \<^item> \<open>Block_Device\<close> (\<open>crates/nexos-storage/src/lib.rs\<close>): the trait, the memory device and the contract
    \<open>reliable_device\<close> of a device without faults. \<open>Crc32\<close>: the checksum and what it detects.
    \<open>Partition_Device\<close>, \<open>Partition_Table\<close> (\<open>partition.rs\<close>), \<open>Cache\<close> (\<open>cache.rs\<close>): a partition and the
    cache are reliable devices when the device below is; the table reader accepts only sound tables.
  \<^item> \<open>Installer\<close>, \<open>Installer_Encoding\<close>, \<open>Installer_Readback\<close> (\<open>installer.rs\<close>): the guided partition
    table, from layout to the partitions the reader finds afterwards.
  \<^item> \<open>Nexfs_Layout\<close>, \<open>Nexfs_Check\<close> (\<open>crates/nexfs/src/layout.rs\<close>, \<open>lib.rs\<close>): the records on disk,
    formatting and the consistency check. \<open>Nexfs_Blocks\<close> views a fault-free device as blocks,
    \<open>Nexfs_Fsck\<close> and \<open>Nexfs_Sound\<close> show what the check establishes about them, and \<open>Nexfs_Format\<close>
    that a formatted device passes it.
  \<^item> \<open>Nexfs_Volume\<close> (\<open>crates/nexfs/src/volume.rs\<close>): every operation of a mounted volume.
    \<open>Nexfs_Store\<close> gives the effect of reading and writing the records, \<open>Nexfs_Files\<close> the accounting of
    blocks that files own and of those left, \<open>Nexfs_Paths\<close> the lookup of a path. On these rest the
    effects of \<open>write_file\<close> (\<open>Nexfs_Write\<close>), of releasing blocks (\<open>Nexfs_Truncate\<close>) and of \<open>create\<close>
    (\<open>Nexfs_Create\<close>), each for success and for every failure. \<open>Nexfs_Mounted\<close> and \<open>Nexfs_Service\<close>
    state them for the paths and contents a client sees, from mount to unmount. \<open>remove\<close> and \<open>rename\<close>
    are modelled, without a theorem about their effect.
  \<^item> \<open>Vfs\<close> (\<open>crates/nexos-runtime/src/vfs.rs\<close>), \<open>Elf\<close> (\<open>elf.rs\<close>): path resolution and the mount table;
    parsing and loading of executables.
  \<^item> \<open>Frames\<close> (\<open>kernel/src/memory.rs\<close>), \<open>Heap\<close> (\<open>kernel/src/heap.rs\<close>), \<open>Ps2\<close> (\<open>kernel/src/ps2.rs\<close>):
    the allocators, and the interrupt-driven rings with keyboard and mouse decoding.
  \<^item> \<open>Usb_Descriptors\<close> (\<open>crates/nexos-usb/src/descriptor.rs\<close>, \<open>hid.rs\<close>, \<open>hub.rs\<close>): the walk over a
    configuration against its division into blocks, boot reports, the ports of a hub. \<open>Usb_Rings\<close>
    (\<open>xhci.rs\<close>, \<open>enumeration.rs\<close>): the producer ring against a reader of its cycle bits and links, the event
    consumer, the enumeration of a device. \<open>Usb_Storage\<close> (\<open>mass_storage.rs\<close>): commands, packets and
    answers of the bulk-only transport.

  \<^bold>\<open>Interfaces.\<close> The locale \<open>reliable_device\<close> is interpreted on the memory device, on its partitions
  and on its cache, and the clients (cache, partition reader, installer, NexFS) are proved against the
  locale alone. The locale \<open>bounded_fifo\<close> is interpreted on the wait queue and on the PS/2 ring.

  \<^bold>\<open>Loops.\<close> Every loop is a total function: structural recursion over the range the code iterates, or
  a measure (the frames left, the unreached inodes and the pending directories). \<open>mouse_drain\<close>,
  whose queue is filled by interrupts, is a partial function with its termination proved, and
  \<open>hub_ports_collect\<close> is one that is shown to end exactly for fewer than 255 ports. The model uses no
  fuel; only the reader \<open>ring_follow\<close> that the producer ring is compared with takes a bound, two steps
  for each outstanding block and one to see that there is no more.

  \<^bold>\<open>Concurrency.\<close> One operation behind a spin lock is one step. The PS/2 rings are used without a lock;
  their loads and stores interleave as single steps, which the acquire and release orderings justify.

  \<^bold>\<open>Not modelled.\<close> Port and memory-mapped I/O, descriptor tables, page tables, inline assembly and
  interrupt entry (\<open>kernel/src/apic.rs\<close>, \<open>cpu.rs\<close>, \<open>gdt.rs\<close>, \<open>interrupts.rs\<close>, \<open>serial.rs\<close>,
  \<open>framebuffer.rs\<close>, \<open>ide.rs\<close>, \<open>ahci.rs\<close>, \<open>xhci.rs\<close>, \<open>usb.rs\<close>, \<open>paging.rs\<close>, \<open>pci.rs\<close>, \<open>acpi.rs\<close>,
  \<open>main.rs\<close>): their effect is that of the hardware. The interactive monitor and the host tools
  (\<open>kernel/src/monitor.rs\<close>, \<open>kernel/src/installer.rs\<close>, \<open>tools/\<close>) compose the components above with
  console, file and process I/O. The FAT32 file system (\<open>crates/nexos-storage/src/fat32.rs\<close>)
  and the shell (\<open>crates/nexos-userspace\<close>) are not covered.
\<close>

end
